(* ===== verification/Lab_Prelude.thy ===== *)
theory Lab_Prelude
  imports Main "HOL-Library.Word" "HOL-Library.Monad_Syntax" "HOL-Library.Signed_Division"
begin

text \<open>
  Shared vocabulary of the development: the integer types of the C sources as they behave
  on the 32-bit ARM target (\<open>int\<close> is 32 bits, \<open>short\<close> 16 bits, \<open>char\<close> 8 bits), the helper
  lemmas on lists and functions the components share, and the fact collections.

  A C \<open>short\<close> or \<open>unsigned short\<close> variable is an \<open>int\<close> of the logic; arithmetic is done in
  \<open>int\<close>, as C's promotions do, and every assignment to the variable wraps through
  \<open>s16\<close> or \<open>u16\<close>.  Bytes and device registers are words.
\<close>

unbundle bit_operations_syntax

named_theorems wrap_simps \<open>range conditions under which a C assignment keeps its value\<close>
named_theorems frame_simps \<open>state components an operation leaves alone\<close>

type_synonym u8 = "8 word"
type_synonym u32 = "32 word"

section \<open>C integer conversions\<close>

definition s16 :: "int \<Rightarrow> int" where
  "s16 x = (x + 32768) mod 65536 - 32768"

definition u16 :: "int \<Rightarrow> int" where
  "u16 x = x mod 65536"

definition s32 :: "int \<Rightarrow> int" where
  "s32 x = (x + 2147483648) mod 4294967296 - 2147483648"

definition u32i :: "int \<Rightarrow> int" where
  "u32i x = x mod 4294967296"

lemma s32_id [wrap_simps]: "-2147483648 \<le> x \<Longrightarrow> x < 2147483648 \<Longrightarrow> s32 x = x"
  by (simp add: s32_def)

lemma u32i_id [wrap_simps]: "0 \<le> x \<Longrightarrow> x < 4294967296 \<Longrightarrow> u32i x = x"
  by (simp add: u32i_def)

lemma s16_id [wrap_simps]: "-32768 \<le> x \<Longrightarrow> x < 32768 \<Longrightarrow> s16 x = x"
  by (simp add: s16_def)

lemma u16_id [wrap_simps]: "0 \<le> x \<Longrightarrow> x < 65536 \<Longrightarrow> u16 x = x"
  by (simp add: u16_def)

lemma s16_range: "-32768 \<le> s16 x \<and> s16 x < 32768"
  by (simp add: s16_def)

lemma u16_range: "0 \<le> u16 x \<and> u16 x < 65536"
  by (simp add: u16_def)

lemma s16_s16 [simp]: "s16 (s16 x) = s16 x"
  using s16_range [of x] by (simp add: s16_id)

lemma s16_high: "32768 \<le> x \<Longrightarrow> x < 65536 \<Longrightarrow> s16 x = x - 65536"
proof -
  assume "32768 \<le> x" "x < 65536"
  then have "(x + 32768 - 65536) mod 65536 = x + 32768 - 65536"
    by (intro mod_pos_pos_trivial) auto
  moreover have "(x + 32768) mod 65536 = (x + 32768 - 65536) mod 65536"
    by (rule minus_mod_self2 [symmetric])
  ultimately show ?thesis unfolding s16_def by linarith
qed

lemma s16_eq_0_iff: "0 \<le> x \<Longrightarrow> x < 65536 \<Longrightarrow> s16 x = 0 \<longleftrightarrow> x = 0"
  by (cases "x < 32768") (auto simp: s16_id s16_high)

section \<open>Integer division\<close>

lemma int_div_bounds:
  fixes a b :: int
  assumes "0 < b"
  shows "b * (a div b) \<le> a" and "a < b * (a div b) + b"
  using pos_mod_sign [OF assms, of a] pos_mod_bound [OF assms, of a] mult_div_mod_eq [of b a]
  by linarith+

lemma int_div_eqI:
  fixes a b k :: int
  assumes b: "0 < b" and lo: "b * k \<le> a" and hi: "a < b * k + b"
  shows "a div b = k"
proof (rule int_div_pos_eq)
  show "a = b * k + (a - b * k)" "0 \<le> a - b * k" "a - b * k < b"
    using lo hi by simp_all
qed

text \<open>C's division truncates toward zero; on non-negative operands it is the floor division.\<close>

lemma smod_nonneg: "0 \<le> a \<Longrightarrow> 0 < b \<Longrightarrow> a smod b = a mod (b :: int)"
  by (cases "a = 0") (simp_all add: smod_int_alt_def)

lemma smod_not_neg: "0 \<le> a \<Longrightarrow> 0 < b \<Longrightarrow> \<not> a smod b < (0 :: int)"
  using pos_mod_sign [of b a] smod_nonneg [of a b] by linarith

lemma sdiv_nonneg: "0 \<le> a \<Longrightarrow> 0 < b \<Longrightarrow> a sdiv b = a div (b :: int)"
  by (cases "a = 0") (simp_all add: signed_divide_int_def)

section \<open>Small bounds by cases\<close>

lemma below8: "(n :: nat) < 8 \<Longrightarrow> n \<in> {0, 1, 2, 3, 4, 5, 6, 7}"
  by (auto simp: numeral_eq_Suc less_Suc_eq)

lemma below16:
  "(n :: nat) < 16 \<Longrightarrow> n \<in> {0, 1, 2, 3, 4, 5, 6, 7, 8, 9, 10, 11, 12, 13, 14, 15}"
  by (auto simp: numeral_eq_Suc less_Suc_eq)

lemma uint8_bounds: "0 \<le> uint (b :: 8 word)" "uint (b :: 8 word) \<le> 255"
  using uint_range_size [of b] by (simp_all add: word_size)

lemma uint8_less [simp]: "uint (b :: 8 word) < 256"
  using uint8_bounds [of b] by simp

lemma unat8_bound: "unat (b :: 8 word) \<le> 255"
proof -
  have "unat b < 2 ^ LENGTH(8)" by (rule unsigned_less)
  then show ?thesis by simp
qed

lemma uint_ucast_8_32 [simp]: "uint (ucast (b :: 8 word) :: 32 word) = uint b"
proof -
  have "take_bit 32 (uint b) = uint b"
    using uint8_bounds [of b] by (intro take_bit_int_eq_self) simp_all
  then show ?thesis by (simp add: unsigned_ucast_eq)
qed

lemma ucast_down_up [simp]: "(ucast (ucast (b :: 8 word) :: 32 word) :: 8 word) = b"
  by (rule bit_word_eqI) (simp add: bit_simps)

lemma ucast_8_32_high [simp]: "(ucast (b :: 8 word) :: 32 word) div 256 = 0"
  by (simp add: word_div_def div_pos_pos_trivial)

section \<open>Lists\<close>

lemma fold_Cons_upt: "fold f (map g [0..<Suc n]) s = fold f (map (\<lambda>i. g (Suc i)) [0..<n]) (f (g 0) s)"
  by (simp add: upt_conv_Cons map_Suc_upt [symmetric] comp_def del: upt_Suc)

lemma map_upt_Suc_Cons: "map g [0..<Suc n] = g 0 # map (\<lambda>i. g (Suc i)) [0..<n]"
  by (simp add: upt_conv_Cons map_Suc_upt [symmetric] comp_def del: upt_Suc)

section \<open>Counting loops\<close>

text \<open>\<open>for (; i < n && c(i); i++) f(i);\<close>\<close>

function for_while :: "int \<Rightarrow> int \<Rightarrow> (int \<Rightarrow> bool) \<Rightarrow> (int \<Rightarrow> 's \<Rightarrow> 's) \<Rightarrow> 's \<Rightarrow> 's" where
  "for_while i n c f s = (if i < n \<and> c i then for_while (i + 1) n c f (f i s) else s)"
  by auto
termination by (relation "measure (\<lambda>(i, n, c, f, s). nat (n - i))") auto

declare for_while.simps [simp del]

definition for_up :: "int \<Rightarrow> int \<Rightarrow> (int \<Rightarrow> 's \<Rightarrow> 's) \<Rightarrow> 's \<Rightarrow> 's" where
  "for_up i n f s = for_while i n (\<lambda>_. True) f s"

lemma for_while_stop: "\<not> (i < n \<and> c i) \<Longrightarrow> for_while i n c f s = s"
  by (subst for_while.simps) auto

lemma for_while_step: "i < n \<Longrightarrow> c i \<Longrightarrow> for_while i n c f s = for_while (i + 1) n c f (f i s)"
  by (subst for_while.simps) simp

lemma for_up_stop: "n \<le> i \<Longrightarrow> for_up i n f s = s"
  by (simp add: for_up_def for_while_stop)

lemma for_up_step: "i < n \<Longrightarrow> for_up i n f s = for_up (i + 1) n f (f i s)"
  by (simp add: for_up_def for_while_step)

text \<open>The loop in code form, for evaluation.\<close>

lemma for_up_code: "for_up i n f s = (if i < n then for_up (i + 1) n f (f i s) else s)"
  by (simp add: for_up_stop for_up_step)

lemma for_while_shorter:
  assumes "m \<le> n" "i \<le> m" and "\<And>j. i \<le> j \<Longrightarrow> j < m \<Longrightarrow> c j" and "m < n \<Longrightarrow> \<not> c m"
  shows "for_while i n c f s = for_up i m f s"
  using assms
proof (induction "nat (m - i)" arbitrary: i s)
  case 0
  then have "m = i" by simp
  with 0 have "\<not> (i < n \<and> c i)" by auto
  with \<open>m = i\<close> show ?case using for_while_stop [of i n c f s] for_up_stop [of m i f s] by simp
next
  case (Suc d)
  then have "for_while (i + 1) n c f (f i s) = for_up (i + 1) m f (f i s)"
    by (intro Suc.hyps(1)) auto
  with Suc show ?case by (simp add: for_while_step for_up_step)
qed

text \<open>The invariant rule of the counting loop.\<close>

lemma for_up_inv:
  assumes "i \<le> n" "P i s" and "\<And>j s. i \<le> j \<Longrightarrow> j < n \<Longrightarrow> P j s \<Longrightarrow> P (j + 1) (f j s)"
  shows "P n (for_up i n f s)"
  using assms
proof (induction "nat (n - i)" arbitrary: i s)
  case 0
  then have "i = n" by simp
  with 0 show ?case by (simp add: for_up_stop)
next
  case (Suc d)
  then have "P n (for_up (i + 1) n f (f i s))" by (intro Suc.hyps(1)) auto
  with Suc show ?case by (simp add: for_up_step)
qed

lemma for_up_keeps:
  assumes "P s" and "\<And>j s. i \<le> j \<Longrightarrow> j < n \<Longrightarrow> P s \<Longrightarrow> P (f j s)"
  shows "P (for_up i n f s)"
proof (cases "i \<le> n")
  case True
  then show ?thesis using assms by (rule for_up_inv [where P = "\<lambda>_. P"])
qed (use assms in \<open>simp add: for_up_stop\<close>)

end
