(* ===== verification/Gfx_Core.thy ===== *)
theory Gfx_Core
  imports Lab_Prelude
begin

text \<open>
  The state of the GUI drawing library (\<open>EXP18/app/tp_gui/graphic.c\<close>) and its pixel
  primitive \<open>setpixel\<close>.  The frame buffer is the byte array mapped at \<open>screen_ptr\<close>; a byte is
  addressed by its offset from \<open>screen_ptr\<close>, and an access outside the mapping is recorded in
  the ghost field \<open>oob\<close> instead of corrupting memory the model does not hold.
\<close>

section \<open>State\<close>

datatype CopyMode =
    MODE_SRC | MODE_NOT_SRC | MODE_SRC_OR_DST | MODE_SRC_AND_DST | MODE_SRC_XOR_DST
  | MODE_SRC_OR_NOT_DST | MODE_SRC_AND_NOT_DST | MODE_SRC_XOR_NOT_DST
  | MODE_NOT_SRC_OR_DST | MODE_NOT_SRC_AND_DST | MODE_NOT_SRC_XOR_DST
  | MODE_NOT_SRC_OR_NOT_DST | MODE_NOT_SRC_AND_NOT_DST | MODE_NOT_SRC_XOR_NOT_DST
  | InvalidMode

datatype PatternIndex =
    BlackPattern | WhitePattern | DarkGreyPattern | LightGreyPattern | MicroPengPattern
  | InvalidPattern

definition screen_width :: int where "screen_width = 240"
definition screen_height :: int where "screen_height = 320"

text \<open>The length handed to \<open>mmap\<close> in \<open>initgraph\<close>: the screen rounded up by a page.\<close>

definition fb_bytes :: int where
  "fb_bytes = ((screen_height * screen_width * 2) div 4096 + 1) * 4096"

lemmas screen_defs [simp] = screen_width_def screen_height_def

lemma fb_bytes_val: "fb_bytes = 155648"
  by (simp add: fb_bytes_def)

record gfx =
  fb :: "int \<Rightarrow> u8"
  oob :: bool
  gX :: int
  gY :: int
  gColor :: int
  gP_Index :: PatternIndex
  gMode :: CopyMode

definition gfx_init :: gfx where
  "gfx_init = \<lparr>fb = (\<lambda>_. 0), oob = False, gX = 0, gY = 0, gColor = 1,
               gP_Index = BlackPattern, gMode = MODE_SRC\<rparr>"

definition poke :: "int \<Rightarrow> u8 \<Rightarrow> gfx \<Rightarrow> gfx" where
  "poke a v g = (if 0 \<le> a \<and> a < fb_bytes then g\<lparr>fb := (fb g)(a := v)\<rparr> else g\<lparr>oob := True\<rparr>)"

text \<open>\<open>memset\<close> on the frame buffer: \<open>n\<close> bytes from \<open>a\<close>.\<close>

definition fb_memset :: "int \<Rightarrow> u8 \<Rightarrow> int \<Rightarrow> gfx \<Rightarrow> gfx" where
  "fb_memset a v n g =
     (if n \<le> 0 then g
      else if 0 \<le> a \<and> a + n \<le> fb_bytes
      then g\<lparr>fb := (\<lambda>i. if a \<le> i \<and> i < a + n then v else fb g i)\<rparr>
      else g\<lparr>oob := True\<rparr>)"

text \<open>\<open>memmove\<close> inside the frame buffer: the whole source is read before it is written.\<close>

definition fb_memmove :: "int \<Rightarrow> int \<Rightarrow> int \<Rightarrow> gfx \<Rightarrow> gfx" where
  "fb_memmove dst src n g =
     (if n \<le> 0 then g
      else if 0 \<le> dst \<and> dst + n \<le> fb_bytes \<and> 0 \<le> src \<and> src + n \<le> fb_bytes
      then g\<lparr>fb := (\<lambda>i. if dst \<le> i \<and> i < dst + n then fb g (src + (i - dst)) else fb g i)\<rparr>
      else g\<lparr>oob := True\<rparr>)"

lemma poke_frame [frame_simps]:
  "gColor (poke a v g) = gColor g" "gX (poke a v g) = gX g" "gY (poke a v g) = gY g"
  "gMode (poke a v g) = gMode g" "gP_Index (poke a v g) = gP_Index g"
  by (simp_all add: poke_def)

lemma fb_poke: "0 \<le> a \<Longrightarrow> a < fb_bytes \<Longrightarrow> fb (poke a v g) = (fb g)(a := v)"
  by (simp add: poke_def)

lemma oob_poke: "oob (poke a v g) \<longleftrightarrow> oob g \<or> \<not> (0 \<le> a \<and> a < fb_bytes)"
  by (simp add: poke_def)

section \<open>Pixels\<close>

text \<open>What the display shows at \<open>(x, y)\<close>: the two bytes of the 16-bit pixel.\<close>

definition on_screen :: "int \<times> int \<Rightarrow> bool" where
  "on_screen p \<longleftrightarrow> 0 \<le> fst p \<and> fst p < screen_width \<and> 0 \<le> snd p \<and> snd p < screen_height"

definition pix_addr :: "int \<times> int \<Rightarrow> int" where
  "pix_addr p = snd p * screen_width * 2 + fst p * 2"

definition pixel :: "gfx \<Rightarrow> int \<times> int \<Rightarrow> u8 \<times> u8" where
  "pixel g p = (fb g (pix_addr p), fb g (pix_addr p + 1))"

definition ink :: "int \<Rightarrow> u8 \<times> u8" where
  "ink c = (if c \<noteq> 0 then (0xff, 0xff) else (0, 0))"

lemma pix_addr_bounds:
  "on_screen p \<Longrightarrow> 0 \<le> pix_addr p \<and> pix_addr p + 1 < fb_bytes"
  by (auto simp: on_screen_def pix_addr_def fb_bytes_val)

lemma pix_addr_inj:
  assumes "on_screen p" "on_screen q" "pix_addr p = pix_addr q"
  shows "p = q"
proof -
  have "snd p = snd q"
    using assms by (simp add: on_screen_def pix_addr_def)
  with assms show ?thesis
    by (simp add: on_screen_def pix_addr_def prod_eq_iff)
qed

lemma pix_addr_even: "even (pix_addr p)"
  by (simp add: pix_addr_def)

definition setpixel :: "int \<Rightarrow> int \<Rightarrow> int \<Rightarrow> gfx \<Rightarrow> gfx" where
  "setpixel x y color g =
     (if x < 0 \<or> x \<ge> screen_width \<or> y < 0 \<or> y \<ge> screen_height then g
      else let loc = y * screen_width * 2 + x * 2
           in if color \<noteq> 0 then poke (loc + 1) 0xff (poke loc 0xff g)
              else poke (loc + 1) 0 (poke loc 0 g))"

lemma setpixel_frame [frame_simps]:
  "gColor (setpixel x y c g) = gColor g" "gX (setpixel x y c g) = gX g"
  "gY (setpixel x y c g) = gY g" "gMode (setpixel x y c g) = gMode g"
  "gP_Index (setpixel x y c g) = gP_Index g"
  by (simp_all add: setpixel_def Let_def frame_simps)

lemma setpixel_oob [simp]: "oob (setpixel x y c g) = oob g"
  by (auto simp: setpixel_def Let_def oob_poke fb_bytes_val)

lemma setpixel_fb:
  "fb (setpixel x y c g) =
     (if on_screen (x, y)
      then (fb g)(pix_addr (x, y) := fst (ink c), pix_addr (x, y) + 1 := snd (ink c))
      else fb g)"
  by (auto simp: setpixel_def Let_def fb_poke fb_bytes_val on_screen_def pix_addr_def ink_def)

lemma setpixel_pixel:
  assumes p: "on_screen p"
  shows "pixel (setpixel x y c g) p = (if p = (x, y) then ink c else pixel g p)"
proof (cases "on_screen (x, y)")
  case False
  with p have "p \<noteq> (x, y)" by auto
  with False show ?thesis by (simp add: pixel_def setpixel_fb)
next
  case on: True
  show ?thesis
  proof (cases "p = (x, y)")
    case True
    then show ?thesis using on by (simp add: pixel_def setpixel_fb ink_def)
  next
    case False
    with p on have "pix_addr p \<noteq> pix_addr (x, y)" using pix_addr_inj by blast
    moreover have "pix_addr p \<noteq> pix_addr (x, y) + 1" "pix_addr p + 1 \<noteq> pix_addr (x, y)"
      using pix_addr_even [of p] pix_addr_even [of "(x, y)"] by presburger+
    ultimately show ?thesis using on False by (simp add: pixel_def setpixel_fb)
  qed
qed

section \<open>The raster interface\<close>

text \<open>Drawing a list of points with one colour.\<close>

definition plot_all ::
    "(int \<Rightarrow> int \<Rightarrow> 'c \<Rightarrow> 's \<Rightarrow> 's) \<Rightarrow> (int \<times> int) list \<Rightarrow> 'c \<Rightarrow> 's \<Rightarrow> 's" where
  "plot_all plot ps c s = fold (\<lambda>(x, y). plot x y c) ps s"

lemma plot_all_simps [simp]:
  "plot_all plot [] c s = s"
  "plot_all plot (p # ps) c s = plot_all plot ps c (plot (fst p) (snd p) c s)"
  by (simp_all add: plot_all_def split_def)

lemma plot_all_append: "plot_all plot (ps @ qs) c s = plot_all plot qs c (plot_all plot ps c s)"
  by (simp add: plot_all_def)

text \<open>
  What a client of the drawing primitive relies on: a plotted pixel shows the ink, every other
  pixel of the display keeps its value, and plotting never leaves the frame buffer.
\<close>

locale raster =
  fixes plot :: "int \<Rightarrow> int \<Rightarrow> 'c \<Rightarrow> 's \<Rightarrow> 's"
    and look :: "'s \<Rightarrow> int \<times> int \<Rightarrow> 'v"
    and visible :: "int \<times> int \<Rightarrow> bool"
    and paint :: "'c \<Rightarrow> 'v"
    and safe :: "'s \<Rightarrow> bool"
  assumes look_plot: "visible p \<Longrightarrow> look (plot x y c s) p = (if p = (x, y) then paint c else look s p)"
    and safe_plot: "safe s \<Longrightarrow> safe (plot x y c s)"
begin

lemma look_plot_all:
  "visible p \<Longrightarrow> look (plot_all plot ps c s) p = (if p \<in> set ps then paint c else look s p)"
  by (induction ps arbitrary: s) (auto simp: look_plot)

lemma safe_plot_all: "safe s \<Longrightarrow> safe (plot_all plot ps c s)"
  by (induction ps arbitrary: s) (auto simp: safe_plot)

end

interpretation px: raster setpixel pixel on_screen ink "\<lambda>g. \<not> oob g"
  by unfold_locales (auto simp: setpixel_pixel)

lemma plot_all_frame [frame_simps]:
  "gColor (plot_all setpixel ps c g) = gColor g" "gX (plot_all setpixel ps c g) = gX g"
  "gY (plot_all setpixel ps c g) = gY g" "gMode (plot_all setpixel ps c g) = gMode g"
  "gP_Index (plot_all setpixel ps c g) = gP_Index g" "oob (plot_all setpixel ps c g) = oob g"
  by (induction ps arbitrary: g) (auto simp: frame_simps)

section \<open>Accessors of the library state\<close>

definition setmode :: "CopyMode \<Rightarrow> gfx \<Rightarrow> gfx" where "setmode mode g = g\<lparr>gMode := mode\<rparr>"
definition getmode :: "gfx \<Rightarrow> CopyMode" where "getmode g = gMode g"
definition setcolor :: "int \<Rightarrow> gfx \<Rightarrow> gfx" where "setcolor color g = g\<lparr>gColor := u16 color\<rparr>"
definition getcolor :: "gfx \<Rightarrow> int" where "getcolor g = gColor g"
definition setfillpattern :: "PatternIndex \<Rightarrow> gfx \<Rightarrow> gfx" where
  "setfillpattern index g = g\<lparr>gP_Index := index\<rparr>"
definition getfillpattern :: "gfx \<Rightarrow> PatternIndex" where "getfillpattern g = gP_Index g"
definition moveto :: "int \<Rightarrow> int \<Rightarrow> gfx \<Rightarrow> gfx" where
  "moveto x y g = g\<lparr>gX := u16 x, gY := u16 y\<rparr>"

end
