(* ===== verification/Gfx_Line.thy ===== *)
theory Gfx_Line
  imports Gfx_Core
begin

text \<open>
  Straight lines and the figures made of them (\<open>draw_xish_line\<close>, \<open>draw_yish_line\<close>, \<open>line\<close>,
  \<open>lineto\<close>, \<open>rectangle\<close>, \<open>fillrectangle\<close> of \<open>graphic.c\<close>), and the proof that the incremental
  integer algorithm plots exactly the rounded ideal line.

  The loops run \<open>while (d--)\<close> on a \<open>short\<close>: they make as many rounds as \<open>d\<close> has, read as an
  unsigned 16-bit number, and the body never reads \<open>d\<close>; the round count is the argument
  the recursion descends on.
\<close>

section \<open>The code\<close>

definition rounds16 :: "int \<Rightarrow> nat" where
  "rounds16 d = nat (d mod 65536)"

fun xish_loop :: "nat \<Rightarrow> int \<Rightarrow> int \<Rightarrow> int \<Rightarrow> int \<Rightarrow> int \<Rightarrow> int \<Rightarrow> gfx \<Rightarrow> gfx" where
  "xish_loop 0 x y error dyX2 dyX2mdxX2 xdir g = g"
| "xish_loop (Suc n) x y error dyX2 dyX2mdxX2 xdir g =
     (let (y, error) = (if error \<ge> 0 then (s16 (y + 1), s16 (error + dyX2mdxX2))
                        else (y, s16 (error + dyX2)));
          x = s16 (x + xdir)
      in xish_loop n x y error dyX2 dyX2mdxX2 xdir (setpixel x y (s16 (gColor g)) g))"

definition draw_xish_line :: "int \<Rightarrow> int \<Rightarrow> int \<Rightarrow> int \<Rightarrow> int \<Rightarrow> gfx \<Rightarrow> gfx" where
  "draw_xish_line x y dx dy xdir g =
     (let dyX2 = s16 (dy + dy);
          dyX2mdxX2 = s16 (dyX2 - (dx + dx));
          error = s16 (dyX2 - dx)
      in xish_loop (rounds16 dx) x y error dyX2 dyX2mdxX2 xdir
           (setpixel x y (s16 (gColor g)) g))"

fun yish_loop :: "nat \<Rightarrow> int \<Rightarrow> int \<Rightarrow> int \<Rightarrow> int \<Rightarrow> int \<Rightarrow> int \<Rightarrow> gfx \<Rightarrow> gfx" where
  "yish_loop 0 x y error dxX2 dxX2mdyX2 xdir g = g"
| "yish_loop (Suc n) x y error dxX2 dxX2mdyX2 xdir g =
     (let (x, error) = (if error \<ge> 0 then (s16 (x + xdir), s16 (error + dxX2mdyX2))
                        else (x, s16 (error + dxX2)));
          y = s16 (y + 1)
      in yish_loop n x y error dxX2 dxX2mdyX2 xdir (setpixel x y (s16 (gColor g)) g))"

definition draw_yish_line :: "int \<Rightarrow> int \<Rightarrow> int \<Rightarrow> int \<Rightarrow> int \<Rightarrow> gfx \<Rightarrow> gfx" where
  "draw_yish_line x y dx dy xdir g =
     (let dxX2 = s16 (dx + dx);
          dxX2mdyX2 = s16 (dxX2 - (dy + dy));
          error = s16 (dxX2 - dy)
      in yish_loop (rounds16 dy) x y error dxX2 dxX2mdyX2 xdir
           (setpixel x y (s16 (gColor g)) g))"

definition line :: "int \<Rightarrow> int \<Rightarrow> int \<Rightarrow> int \<Rightarrow> gfx \<Rightarrow> gfx" where
  "line x1 y1 x2 y2 g =
     (let (x1, y1, x2, y2) = (if y1 > y2 then (x2, y2, x1, y1) else (x1, y1, x2, y2));
          dx = s16 (x2 - x1);
          dy = s16 (y2 - y1)
      in if dx > 0
         then (if dx > dy then draw_xish_line x1 y1 dx dy 1 g else draw_yish_line x1 y1 dx dy 1 g)
         else let dx = s16 (- dx)
              in if dx > dy then draw_xish_line x1 y1 dx dy (-1) g
                 else draw_yish_line x1 y1 dx dy (-1) g)"

definition lineto :: "int \<Rightarrow> int \<Rightarrow> gfx \<Rightarrow> gfx" where
  "lineto x y g = moveto x y (line x y (s16 (gX g)) (s16 (gY g)) g)"

definition rectangle :: "int \<Rightarrow> int \<Rightarrow> int \<Rightarrow> int \<Rightarrow> gfx \<Rightarrow> gfx" where
  "rectangle x1 y1 x2 y2 g =
     line x1 y2 x1 y1 (line x2 y2 x1 y2 (line x2 y1 x2 y2 (line x1 y1 x2 y1 g)))"

text \<open>
  The two nested \<open>for\<close> loops of \<open>fillrectangle\<close> count a \<open>short\<close> up to a \<open>short\<close> bound that is
  strictly above it, so the counter never wraps and the rounds are the distance of the bounds.
\<close>

fun fillrectangle_col :: "nat \<Rightarrow> int \<Rightarrow> int \<Rightarrow> gfx \<Rightarrow> gfx" where
  "fillrectangle_col 0 i j g = g"
| "fillrectangle_col (Suc n) i j g = fillrectangle_col n i (j + 1) (setpixel i j 1 g)"

fun fillrectangle_loop :: "nat \<Rightarrow> int \<Rightarrow> int \<Rightarrow> int \<Rightarrow> gfx \<Rightarrow> gfx" where
  "fillrectangle_loop 0 i y1 y2 g = g"
| "fillrectangle_loop (Suc n) i y1 y2 g =
     fillrectangle_loop n (i + 1) y1 y2 (fillrectangle_col (nat (y2 - y1)) i y1 g)"

definition fillrectangle :: "int \<Rightarrow> int \<Rightarrow> int \<Rightarrow> int \<Rightarrow> gfx \<Rightarrow> gfx" where
  "fillrectangle x1 y1 x2 y2 g = fillrectangle_loop (nat (x2 - x1)) x1 y1 y2 g"

section \<open>The reference rasterisation\<close>

text \<open>
  The minor coordinate of the point \<open>i\<close> steps along the major axis: the ideal offset
  \<open>i * d / n\<close>, rounded to the nearest integer, halves upwards.
\<close>

definition rounded :: "int \<Rightarrow> int \<Rightarrow> int \<Rightarrow> int" where
  "rounded i d n = (2 * i * d + n) div (2 * n)"

definition line_points :: "int \<Rightarrow> int \<Rightarrow> int \<Rightarrow> int \<Rightarrow> (int \<times> int) list" where
  "line_points x1 y1 x2 y2 =
     (let (x1, y1, x2, y2) = (if y1 > y2 then (x2, y2, x1, y1) else (x1, y1, x2, y2));
          dx = \<bar>x2 - x1\<bar>; dy = y2 - y1; dir = (if x2 > x1 then 1 else -1)
      in if dx > dy
         then map (\<lambda>i. (x1 + dir * int i, y1 + rounded (int i) dy dx)) [0..<Suc (nat dx)]
         else map (\<lambda>i. (x1 + dir * rounded (int i) dx dy, y1 + int i)) [0..<Suc (nat dy)])"

text \<open>
  One step of the rounding recurrence: the quotient grows by one exactly when the error term
  the code keeps is non-negative.
\<close>

lemma rounded_step:
  assumes n: "0 < n" and d: "0 \<le> d" "d \<le> n"
  shows "rounded (i + 1) d n =
           (if 2 * (i + 1) * d - n - 2 * n * rounded i d n \<ge> 0 then rounded i d n + 1
            else rounded i d n)"
proof -
  let ?k = "rounded i d n" and ?a = "2 * i * d + n"
  have N: "0 < 2 * n" using n by simp
  have lo: "2 * n * ?k \<le> ?a" and hi: "?a < 2 * n * ?k + 2 * n"
    unfolding rounded_def by (rule int_div_bounds [OF N])+
  have e: "2 * (i + 1) * d + n = ?a + 2 * d" and e': "2 * n * (?k + 1) = 2 * n * ?k + 2 * n"
    by (simp_all add: algebra_simps)
  show ?thesis
  proof (cases "2 * (i + 1) * d - n - 2 * n * ?k \<ge> 0")
    case True
    have "(2 * (i + 1) * d + n) div (2 * n) = ?k + 1"
      by (rule int_div_eqI [OF N]) (use True hi d e e' in linarith)+
    with True show ?thesis by (simp add: rounded_def)
  next
    case False
    have "(2 * (i + 1) * d + n) div (2 * n) = ?k"
      by (rule int_div_eqI [OF N]) (use False lo d e in linarith)+
    with False show ?thesis by (simp add: rounded_def)
  qed
qed

lemma rounded_0 [simp]: "0 < n \<Longrightarrow> rounded 0 d n = 0"
  by (simp add: rounded_def)

lemma rounded_range:
  assumes n: "0 < n" and d: "0 \<le> d" "d \<le> n" and i: "0 \<le> i" "i \<le> n"
  shows "0 \<le> rounded i d n" and "rounded i d n \<le> d"
proof -
  have p: "0 \<le> i * d" and q: "i * d \<le> n * d"
    using d i by (simp_all add: mult_right_mono)
  show "0 \<le> rounded i d n" unfolding rounded_def using n p
    by (intro pos_imp_zdiv_nonneg_iff [THEN iffD2]) simp_all
  have "rounded i d n \<le> rounded n d n"
    unfolding rounded_def using n q by (intro zdiv_mono1) (simp_all add: algebra_simps)
  also have "rounded n d n = d"
    unfolding rounded_def using n by (intro int_div_eqI) (simp_all add: algebra_simps)
  finally show "rounded i d n \<le> d" .
qed

section \<open>The loops plot the reference points\<close>

text \<open>The error term of the code before the step to point \<open>i + 1\<close>, as a function of \<open>i\<close>.\<close>

definition err_term :: "int \<Rightarrow> int \<Rightarrow> int \<Rightarrow> int" where
  "err_term i d n = 2 * (i + 1) * d - n - 2 * n * rounded i d n"

lemma err_term_bounds:
  assumes "0 < n"
  shows "2 * d - 2 * n \<le> err_term i d n" and "err_term i d n < 2 * d"
  using int_div_bounds [of "2 * n" "2 * i * d + n"] assms
  by (simp_all add: err_term_def rounded_def algebra_simps)

lemma err_term_step:
  assumes "0 < n" "0 \<le> d" "d \<le> n"
  shows "err_term (i + 1) d n =
           (if err_term i d n \<ge> 0 then err_term i d n + (2 * d - 2 * n) else err_term i d n + 2 * d)"
    and "rounded (i + 1) d n =
           (if err_term i d n \<ge> 0 then rounded i d n + 1 else rounded i d n)"
  using rounded_step [OF assms, of i] by (simp_all add: err_term_def algebra_simps)

text \<open>The coordinates a line may have so that no \<open>short\<close> of the loops wraps.\<close>

definition short_span :: "int \<Rightarrow> int \<Rightarrow> bool" where
  "short_span a b \<longleftrightarrow> -16384 \<le> a \<and> a < 16384 \<and> -16384 \<le> b \<and> b < 16384 \<and> \<bar>b - a\<bar> < 16384"

lemma xish_loop_points:
  assumes n: "0 < n" "n < 16384" and d: "0 \<le> d" "d \<le> n" and dir: "dir = 1 \<or> dir = -1"
    and x: "-16384 \<le> x" "x < 16384" "-16384 \<le> x + dir * n" "x + dir * n < 16384"
    and y: "-16384 \<le> y" "y + d < 16384"
    and i: "0 \<le> i" "i + int m \<le> n"
  shows "xish_loop m (x + dir * i) (y + rounded i d n) (err_term i d n) (2 * d) (2 * d - 2 * n) dir g =
         plot_all setpixel
           (map (\<lambda>j. (x + dir * (i + 1 + int j), y + rounded (i + 1 + int j) d n)) [0..<m])
           (s16 (gColor g)) g"
  using i
proof (induction m arbitrary: i g)
  case 0
  then show ?case by simp
next
  case (Suc m)
  have r: "0 \<le> rounded (i + 1) d n" "rounded (i + 1) d n \<le> d"
    using rounded_range [OF n(1) d, of "i + 1"] Suc.prems by simp_all
  have yw: "s16 (y + rounded (i + 1) d n) = y + rounded (i + 1) d n"
    using r y by (intro s16_id) linarith+
  have ew: "s16 (err_term (i + 1) d n) = err_term (i + 1) d n"
    using err_term_bounds(1) [OF n(1), of d "i + 1"] err_term_bounds(2) [OF n(1), of "i + 1" d] n d
    by (intro s16_id) linarith+
  have xw: "s16 (x + dir * i + dir) = x + dir * (i + 1)"
  proof -
    have "0 \<le> i + 1" "i + 1 \<le> n" using Suc.prems by simp_all
    then have "-16384 \<le> x + dir * (i + 1) \<and> x + dir * (i + 1) < 16384"
      using dir x by auto
    then have "s16 (x + dir * (i + 1)) = x + dir * (i + 1)" by (intro s16_id) auto
    then show ?thesis by (simp add: algebra_simps)
  qed
  show ?case
    using Suc.IH [of "i + 1" "setpixel (x + dir * (i + 1)) (y + rounded (i + 1) d n) (s16 (gColor g)) g"]
      Suc.prems yw ew err_term_step [OF n(1) d, of i] xw
    by (auto simp: map_upt_Suc_Cons frame_simps add.assoc simp del: upt_Suc)
qed

lemma yish_loop_points:
  assumes n: "0 < n" "n < 16384" and d: "0 \<le> d" "d \<le> n" and dir: "dir = 1 \<or> dir = -1"
    and x: "-16384 \<le> x" "x < 16384" "-16384 \<le> x + dir * d" "x + dir * d < 16384"
    and y: "-16384 \<le> y" "y + n < 16384"
    and i: "0 \<le> i" "i + int m \<le> n"
  shows "yish_loop m (x + dir * rounded i d n) (y + i) (err_term i d n) (2 * d) (2 * d - 2 * n) dir g =
         plot_all setpixel
           (map (\<lambda>j. (x + dir * rounded (i + 1 + int j) d n, y + (i + 1 + int j))) [0..<m])
           (s16 (gColor g)) g"
  using i
proof (induction m arbitrary: i g)
  case 0
  then show ?case by simp
next
  case (Suc m)
  have r: "0 \<le> rounded (i + 1) d n" "rounded (i + 1) d n \<le> d"
    using rounded_range [OF n(1) d, of "i + 1"] Suc.prems by simp_all
  have xw: "s16 (x + dir * rounded (i + 1) d n) = x + dir * rounded (i + 1) d n"
    using r x dir by (intro s16_id) auto
  have ew: "s16 (err_term (i + 1) d n) = err_term (i + 1) d n"
    using err_term_bounds(1) [OF n(1), of d "i + 1"] err_term_bounds(2) [OF n(1), of "i + 1" d] n d
    by (intro s16_id) linarith+
  have yw: "s16 (y + i + 1) = y + (i + 1)"
    using Suc.prems y by (subst s16_id) auto
  have xstep: "(if err_term i d n \<ge> 0
      then (s16 (x + dir * rounded i d n + dir), s16 (err_term i d n + (2 * d - 2 * n)))
      else (x + dir * rounded i d n, s16 (err_term i d n + 2 * d)))
    = (x + dir * rounded (i + 1) d n, err_term (i + 1) d n)"
    using xw ew err_term_step [OF n(1) d, of i] by (auto simp: distrib_left add.assoc)
  show ?case
    using Suc.IH [of "i + 1" "setpixel (x + dir * rounded (i + 1) d n) (y + (i + 1)) (s16 (gColor g)) g"]
      Suc.prems yw
    unfolding yish_loop.simps xstep
    by (simp add: map_upt_Suc_Cons frame_simps add.assoc del: upt_Suc)
qed

text \<open>
  The two line procedures as lists of points, for the slopes they are called with.
\<close>

lemma draw_xish_line_points:
  assumes n: "0 < n" "n < 16384" and d: "0 \<le> d" "d \<le> n" and dir: "dir = 1 \<or> dir = -1"
    and x: "-16384 \<le> x" "x < 16384" "-16384 \<le> x + dir * n" "x + dir * n < 16384"
    and y: "-16384 \<le> y" "y + d < 16384"
  shows "draw_xish_line x y n d dir g =
         plot_all setpixel (map (\<lambda>i. (x + dir * int i, y + rounded (int i) d n)) [0..<Suc (nat n)])
           (s16 (gColor g)) g"
proof -
  have w: "s16 (2 * d) = 2 * d" "s16 (2 * d - 2 * n) = 2 * d - 2 * n" "s16 (2 * d - n) = err_term 0 d n"
    "rounds16 n = nat n"
    using n d by (simp_all add: s16_id err_term_def rounds16_def)
  show ?thesis
    using xish_loop_points [OF n d dir x y, of 0 "nat n" "setpixel x y (s16 (gColor g)) g"] n
    by (simp add: draw_xish_line_def Let_def w frame_simps map_upt_Suc_Cons del: upt_Suc)
qed

lemma draw_yish_line_points:
  assumes n: "0 \<le> n" "n < 16384" and d: "0 \<le> d" "d \<le> n" and dir: "dir = 1 \<or> dir = -1"
    and x: "-16384 \<le> x" "x < 16384" "-16384 \<le> x + dir * d" "x + dir * d < 16384"
    and y: "-16384 \<le> y" "y + n < 16384"
  shows "draw_yish_line x y d n dir g =
         plot_all setpixel (map (\<lambda>i. (x + dir * rounded (int i) d n, y + int i)) [0..<Suc (nat n)])
           (s16 (gColor g)) g"
proof (cases "n = 0")
  case True
  then show ?thesis
    using d by (simp add: draw_yish_line_def rounds16_def rounded_def)
next
  case False
  with n have p: "0 < n" by simp
  have w: "s16 (2 * d) = 2 * d" "s16 (2 * d - 2 * n) = 2 * d - 2 * n" "s16 (2 * d - n) = err_term 0 d n"
    "rounds16 n = nat n"
    using n d p by (simp_all add: s16_id err_term_def rounds16_def)
  show ?thesis
    using yish_loop_points [OF p n(2) d dir x y, of 0 "nat n" "setpixel x y (s16 (gColor g)) g"] p
    by (simp add: draw_yish_line_def Let_def w frame_simps map_upt_Suc_Cons del: upt_Suc)
qed

section \<open>Correctness of line, rectangle and fillrectangle\<close>

definition drawable :: "int \<times> int \<Rightarrow> bool" where
  "drawable p \<longleftrightarrow> -8192 \<le> fst p \<and> fst p < 8192 \<and> -8192 \<le> snd p \<and> snd p < 8192"

lemma on_screen_drawable: "on_screen p \<Longrightarrow> drawable p"
  by (auto simp: on_screen_def drawable_def)

lemma line_refines_lemma:
  assumes "drawable (x1, y1)" "drawable (x2, y2)"
  shows "line x1 y1 x2 y2 g = plot_all setpixel (line_points x1 y1 x2 y2) (s16 (gColor g)) g"
proof -
  have main: "line a b c e g = plot_all setpixel (line_points a b c e) (s16 (gColor g)) g"
    if le: "b \<le> e" and dr: "drawable (a, b)" "drawable (c, e)" for a b c e
  proof -
    have w: "s16 (c - a) = c - a" "s16 (e - b) = e - b" "s16 (a - c) = a - c"
      using dr by (simp_all add: drawable_def s16_id)
    show ?thesis
      using le dr w
      by (auto simp: line_def line_points_def Let_def drawable_def
          draw_xish_line_points draw_yish_line_points simp del: upt_Suc)
  qed
  show ?thesis
  proof (cases "y1 > y2")
    case True
    then have "line x1 y1 x2 y2 g = line x2 y2 x1 y1 g"
      and "line_points x1 y1 x2 y2 = line_points x2 y2 x1 y1"
      by (simp_all add: line_def line_points_def)
    with main [of y2 y1 x2 x1] True assms show ?thesis by simp
  next
    case False
    with main [of y1 y2 x1 x2] assms show ?thesis by simp
  qed
qed

text \<open>
  C1: For end points whose coordinates lie in -8192..8191 (every point of the display and a wide
  margin around it), \<open>line\<close> plots exactly the points of the rounded ideal line, in order, in
  the current colour: no 16-bit variable of the incremental algorithm wraps.
\<close>
theorem line_refines_ideal:
  assumes "drawable (x1, y1)" "drawable (x2, y2)"
  shows "line x1 y1 x2 y2 g = plot_all setpixel (line_points x1 y1 x2 y2) (s16 (gColor g)) g"
  using assms by (rule line_refines_lemma)

theorem line_refines_ideal_witness:
  "line 3 2 0 1 gfx_init =
     plot_all setpixel [(0, 1), (1, 1), (2, 2), (3, 2)] 1 gfx_init"
proof -
  have p: "line_points 3 2 0 1 = [(0, 1), (1, 1), (2, 2), (3, 2)]"
    by (simp add: line_points_def rounded_def upt_rec)
  show ?thesis
    using line_refines_ideal [of 3 2 0 1 gfx_init] unfolding p
    by (simp add: drawable_def gfx_init_def s16_def)
qed

lemma rounded_flat [simp]: "0 \<le> n \<Longrightarrow> rounded i 0 n = 0"
  by (cases "n = 0") (simp_all add: rounded_def)

lemma set_line_points_horizontal:
  "set (line_points x1 y x2 y) = {(x, y) | x. min x1 x2 \<le> x \<and> x \<le> max x1 x2}"
proof -
  let ?dir = "if x2 > x1 then 1 else -1 :: int"
  have m: "map (\<lambda>i. (x1 + ?dir * int i, y)) [0..<Suc (nat \<bar>x2 - x1\<bar>)] = line_points x1 y x2 y"
    by (cases "x1 = x2") (simp_all add: line_points_def rounded_def)
  have "set (map (\<lambda>i. (x1 + ?dir * int i, y)) [0..<Suc (nat \<bar>x2 - x1\<bar>)]) =
      {(x, y) | x. min x1 x2 \<le> x \<and> x \<le> max x1 x2}" (is "?L = ?R")
  proof (intro set_eqI iffI)
    fix p assume "p \<in> ?R"
    then obtain x where p: "p = (x, y)" and x: "min x1 x2 \<le> x" "x \<le> max x1 x2" by auto
    then have "p = (x1 + ?dir * int (nat \<bar>x - x1\<bar>), y)" "nat \<bar>x - x1\<bar> < Suc (nat \<bar>x2 - x1\<bar>)"
      by auto
    then show "p \<in> ?L"
      unfolding set_map by (intro image_eqI [of _ _ "nat \<bar>x - x1\<bar>"]) (simp_all del: upt_Suc)
  qed (auto split: if_splits)
  with m show ?thesis by simp
qed

lemma set_line_points_vertical:
  "set (line_points x y1 x y2) = {(x, y) | y. min y1 y2 \<le> y \<and> y \<le> max y1 y2}"
proof -
  have up: "set (line_points x a x b) = {(x, y) | y. a \<le> y \<and> y \<le> b}" if "a \<le> b" for a b
  proof -
    have flat: "rounded i 0 (b - a) = 0" for i
      using that by simp
    have "(x, y) \<in> (\<lambda>i. (x, a + int i)) ` {0..<Suc (nat (b - a))}" if "a \<le> y" "y \<le> b" for y
      using that by (intro image_eqI [of _ _ "nat (y - a)"]) auto
    with that flat show ?thesis by (auto simp: line_points_def simp del: upt_Suc)
  qed
  show ?thesis
  proof (cases "y1 \<le> y2")
    case True
    with up show ?thesis by simp
  next
    case False
    then have "line_points x y1 x y2 = line_points x y2 x y1" by (simp add: line_points_def)
    with up [of y2 y1] False show ?thesis by auto
  qed
qed

lemma line_pixel:
  assumes "drawable (x1, y1)" "drawable (x2, y2)" "on_screen p"
  shows "pixel (line x1 y1 x2 y2 g) p =
           (if p \<in> set (line_points x1 y1 x2 y2) then ink (s16 (gColor g)) else pixel g p)"
  using assms by (simp add: line_refines_lemma px.look_plot_all)

lemma line_frame [frame_simps]:
  assumes "drawable (x1, y1)" "drawable (x2, y2)"
  shows "gColor (line x1 y1 x2 y2 g) = gColor g" "oob (line x1 y1 x2 y2 g) = oob g"
    "gX (line x1 y1 x2 y2 g) = gX g" "gY (line x1 y1 x2 y2 g) = gY g"
  by (simp_all add: line_refines_lemma [OF assms] frame_simps)

text \<open>
  \<open>rectangle\<close> inks exactly the frame of the box with the two given opposite corners and
  leaves every other pixel of the display as it was, whichever corners are given.
\<close>
theorem rectangle_draws_frame:
  assumes c: "drawable (x1, y1)" "drawable (x2, y2)" and p: "on_screen (px, py)"
  shows "pixel (rectangle x1 y1 x2 y2 g) (px, py) =
    (if (min x1 x2 \<le> px \<and> px \<le> max x1 x2 \<and> (py = y1 \<or> py = y2)) \<or>
        (min y1 y2 \<le> py \<and> py \<le> max y1 y2 \<and> (px = x1 \<or> px = x2))
     then ink (s16 (gColor g)) else pixel g (px, py))"
proof -
  have d: "drawable (x1, y2)" "drawable (x2, y1)" using c by (simp_all add: drawable_def)
  show ?thesis
    using c d p
    by (auto simp: rectangle_def line_pixel line_frame set_line_points_horizontal
        set_line_points_vertical)
qed

theorem rectangle_draws_frame_witness:
  "pixel (rectangle 10 20 2 4 gfx_init) (7, 20) = (0xff, 0xff) \<and>
   pixel (rectangle 10 20 2 4 gfx_init) (7, 5) = (0, 0)"
proof -
  have h: "drawable (10, 20)" "drawable (2, 4)" by (simp_all add: drawable_def)
  have a: "on_screen (7, 20)" and b: "on_screen (7, 5)" by (simp_all add: on_screen_def)
  show ?thesis
    using rectangle_draws_frame [OF h a, of gfx_init] rectangle_draws_frame [OF h b, of gfx_init]
    by (simp add: gfx_init_def ink_def s16_def pixel_def)
qed

lemma fillrectangle_col_points:
  "fillrectangle_col n i j g = plot_all setpixel (map (\<lambda>k. (i, j + int k)) [0..<n]) 1 g"
  by (induction n arbitrary: j g) (simp_all add: map_upt_Suc_Cons add.assoc del: upt_Suc)

lemma fillrectangle_loop_pixel:
  "on_screen (px, py) \<Longrightarrow> pixel (fillrectangle_loop n i y1 y2 g) (px, py) =
     (if i \<le> px \<and> px < i + int n \<and> y1 \<le> py \<and> py < y2 then (0xff, 0xff) else pixel g (px, py))"
proof (induction n arbitrary: i g)
  case 0
  then show ?case by auto
next
  case (Suc n)
  have "(px, py) \<in> (\<lambda>k. (i, y1 + int k)) ` {0..<nat (y2 - y1)} \<longleftrightarrow> px = i \<and> y1 \<le> py \<and> py < y2"
    by (auto intro: image_eqI [of _ _ "nat (py - y1)"])
  with Suc show ?case
    by (auto simp: fillrectangle_col_points px.look_plot_all ink_def)
qed

text \<open>
  \<open>fillrectangle\<close> turns every pixel of the half-open box white, whatever the current colour
  is (the code passes the constant 1 to \<open>setpixel\<close>), and no other pixel of the display changes.
\<close>
theorem fillrectangle_fills_box:
  assumes p: "on_screen (px, py)"
  shows "pixel (fillrectangle x1 y1 x2 y2 g) (px, py) =
    (if x1 \<le> px \<and> px < x2 \<and> y1 \<le> py \<and> py < y2 then (0xff, 0xff) else pixel g (px, py))"
  using fillrectangle_loop_pixel [OF p, of "nat (x2 - x1)" x1] by (auto simp: fillrectangle_def)

theorem fillrectangle_fills_box_witness:
  "pixel (fillrectangle 2 3 5 6 (setcolor 0 gfx_init)) (4, 5) = (0xff, 0xff)"
proof -
  have p: "on_screen (4, 5)" by (simp add: on_screen_def)
  show ?thesis using fillrectangle_fills_box [OF p, of 2 3 5 6 "setcolor 0 gfx_init"] by simp
qed

end
