(* ===== verification/Gfx_Ellipse.thy ===== *)
theory Gfx_Ellipse
  imports Gfx_Line "HOL-Library.Signed_Division"
begin

text \<open>
  The ellipse procedure of \<open>graphic.c\<close>.  Its two \<open>for (;;)\<close> loops keep all their state in
  \<open>short\<close> variables and leave through \<open>break\<close>, so they are written as
  \<open>partial_function (option)\<close>: \<open>None\<close> is a loop that never reaches its \<open>break\<close>.
\<close>

section \<open>The code\<close>

definition plot4 :: "int \<Rightarrow> int \<Rightarrow> int \<Rightarrow> int \<Rightarrow> gfx \<Rightarrow> gfx" where
  "plot4 x y wx wy g =
     (let c = s16 (gColor g);
          g = setpixel (s16 (x + wx)) (s16 (y - wy)) c g;
          g = setpixel (s16 (x - wx)) (s16 (y - wy)) c g;
          g = setpixel (s16 (x + wx)) (s16 (y + wy)) c g
      in setpixel (s16 (x - wx)) (s16 (y + wy)) c g)"

text \<open>One round of the first loop up to the test of \<open>break\<close>: \<open>(thresh, ya, wy, xa, wx)\<close>.\<close>

type_synonym arc = "int \<times> int \<times> int \<times> int \<times> int"

definition arc_step1 :: "int \<Rightarrow> int \<Rightarrow> arc \<Rightarrow> arc" where
  "arc_step1 asq bsq = (\<lambda>(thresh, ya, wy, xa, wx).
     let thresh = s16 (thresh + xa + bsq);
         (thresh, ya, wy) =
           (if thresh \<ge> 0
            then (let ya = s16 (ya - asq * 2) in (s16 (thresh - ya), ya, s16 (wy - 1)))
            else (thresh, ya, wy))
     in (thresh, ya, wy, s16 (xa + bsq * 2), s16 (wx + 1)))"

definition arc_step2 :: "int \<Rightarrow> int \<Rightarrow> arc \<Rightarrow> arc" where
  "arc_step2 asq bsq = (\<lambda>(thresh, ya, wy, xa, wx).
     let thresh = s16 (thresh + ya + asq);
         (thresh, xa, wx) =
           (if thresh \<ge> 0
            then (let xa = s16 (xa - (bsq + bsq)) in (s16 (thresh - xa), xa, s16 (wx - 1)))
            else (thresh, xa, wx))
     in (thresh, s16 (ya + (asq + asq)), s16 (wy + 1), xa, wx))"

partial_function (option) ellipse_loop1 ::
    "int \<Rightarrow> int \<Rightarrow> int \<Rightarrow> int \<Rightarrow> arc \<Rightarrow> gfx \<Rightarrow> gfx option" where
  "ellipse_loop1 x y asq bsq a g =
     (case arc_step1 asq bsq a of (thresh, ya, wy, xa, wx) \<Rightarrow>
        if xa \<ge> ya then Some g
        else ellipse_loop1 x y asq bsq (thresh, ya, wy, xa, wx) (plot4 x y wx wy g))"

partial_function (option) ellipse_loop2 ::
    "int \<Rightarrow> int \<Rightarrow> int \<Rightarrow> int \<Rightarrow> arc \<Rightarrow> gfx \<Rightarrow> gfx option" where
  "ellipse_loop2 x y asq bsq a g =
     (case arc_step2 asq bsq a of (thresh, ya, wy, xa, wx) \<Rightarrow>
        if ya > xa then Some g
        else ellipse_loop2 x y asq bsq (thresh, ya, wy, xa, wx) (plot4 x y wx wy g))"

definition ellipse :: "int \<Rightarrow> int \<Rightarrow> int \<Rightarrow> int \<Rightarrow> gfx \<Rightarrow> gfx option" where
  "ellipse x y a b g =
     (let asq = s16 (a * a); bsq = s16 (b * b); c = s16 (gColor g);
          g = setpixel x (s16 (y + b)) c g;
          g = setpixel x (s16 (y - b)) c g
      in do {
        g \<leftarrow> ellipse_loop1 x y asq bsq
               (s16 (asq sdiv 4 - asq * b), s16 (asq * 2 * b), b, 0, 0) g;
        let g = setpixel (s16 (x + a)) y c g;
        let g = setpixel (s16 (x - a)) y c g;
        ellipse_loop2 x y asq bsq
          (s16 (bsq div 4 - bsq * a), 0, 0, s16 (bsq * a * 2), a) g
      })"

section \<open>The invariant of an arc\<close>

text \<open>
  The second loop is the first one with the axes exchanged, so one invariant serves both.
\<close>

lemma arc_step2_mirror:
  "arc_step2 asq bsq (thresh, ya, wy, xa, wx) =
     (case arc_step1 bsq asq (thresh, xa, wx, ya, wy) of
        (thresh, xa, wx, ya, wy) \<Rightarrow> (thresh, ya, wy, xa, wx))"
  by (simp add: arc_step1_def arc_step2_def Let_def mult.commute [of _ 2])

text \<open>
  \<open>thresh\<close> is, up to the fraction lost in \<open>A div 4\<close>, the value of the ellipse polynomial
  \<open>B * wx^2 + A * v^2 - A * B\<close> half a pixel inside the current point, \<open>v = wy - 1/2\<close>;
  \<open>R\<close> is the radius along the minor direction of the arc, with \<open>B = R * R\<close>.
\<close>

definition poly_in :: "int \<Rightarrow> int \<Rightarrow> int \<Rightarrow> int \<Rightarrow> int" where
  "poly_in A B wx wy = B * wx * wx + A * (wy * wy - wy) + A div 4 - A * B"

definition arc_inv :: "int \<Rightarrow> int \<Rightarrow> int \<Rightarrow> arc \<Rightarrow> bool" where
  "arc_inv A B R = (\<lambda>(thresh, ya, wy, xa, wx).
     0 \<le> wx \<and> 0 \<le> wy \<and> wy \<le> R \<and> xa = 2 * B * wx \<and> ya = 2 * A * wy \<and> xa \<le> ya \<and>
     thresh = poly_in A B wx wy \<and> thresh < 0 \<and> - (2 * A * R) \<le> thresh \<and>
     0 \<le> poly_in A B wx (wy + 1))"

text \<open>A point within half a pixel of the ideal curve, measured along the minor direction.\<close>

definition near_curve :: "int \<Rightarrow> int \<Rightarrow> int \<Rightarrow> int \<Rightarrow> bool" where
  "near_curve A B u v \<longleftrightarrow>
     4 * B * (u * u) + A * ((2 * v - 1) * (2 * v - 1)) < 4 * A * B \<and>
     4 * A * B \<le> 4 * B * (u * u) + A * ((2 * v + 1) * (2 * v + 1))"

lemma arc_inv_near_curve:
  assumes "arc_inv A B R (thresh, ya, wy, xa, wx)"
  shows "near_curve A B wx wy"
proof -
  have q: "4 * (A div 4) \<le> A" "A \<le> 4 * (A div 4) + 3" by linarith+
  have lo: "poly_in A B wx wy \<le> -1" and hi: "0 \<le> poly_in A B wx (wy + 1)"
    using assms by (simp_all add: arc_inv_def)
  show ?thesis
    using q lo hi unfolding near_curve_def poly_in_def
    by (simp add: algebra_simps)
qed

lemma poly_in_right: "poly_in A B (wx + 1) wy = poly_in A B wx wy + 2 * B * wx + B"
  by (simp add: poly_in_def algebra_simps)

lemma poly_in_down: "poly_in A B wx (wy - 1) = poly_in A B wx wy - 2 * A * (wy - 1)"
  by (simp add: poly_in_def algebra_simps)

lemma arc_inv_step:
  assumes inv: "arc_inv A B R (thresh, ya, wy, xa, wx)" and A: "0 < A" and B: "0 < B"
    and fit: "2 * A * R + 2 * B \<le> 32767" and small: "R < 32768" "wx < 32767"
    and st: "arc_step1 A B (thresh, ya, wy, xa, wx) = (thresh', ya', wy', xa', wx')"
  shows "xa' = xa + 2 * B" and "wx' = wx + 1" and "xa' \<le> ya' \<Longrightarrow> arc_inv A B R (thresh', ya', wy', xa', wx')"
    and "ya' = 2 * A * wy' \<and> 0 \<le> wy' \<and> 0 \<le> poly_in A B (wx + 1) (wy' + 1)"
proof -
  have i: "0 \<le> wx" "0 \<le> wy" "wy \<le> R" "xa = 2 * B * wx" "ya = 2 * A * wy" "xa \<le> ya"
    "thresh = poly_in A B wx wy" "thresh < 0" "- (2 * A * R) \<le> thresh"
    "0 \<le> poly_in A B wx (wy + 1)"
    using inv by (simp_all add: arc_inv_def)
  have yaR: "ya \<le> 2 * A * R" using i(3) A by (simp add: i(5) mult_left_mono)
  have xa0: "0 \<le> xa" using i(1) B by (simp add: i(4))
  let ?t = "thresh + xa + B"
  have tw: "s16 ?t = ?t" using i yaR xa0 B fit by (intro s16_id) linarith+
  have xw: "s16 (xa + B * 2) = xa + 2 * B" using i yaR xa0 B fit by (subst s16_id) linarith+
  have ww: "s16 (wx + 1) = wx + 1" using i small by (intro s16_id) linarith+
  have tval: "?t = poly_in A B (wx + 1) wy" using i(4,7) by (simp add: poly_in_right)
  show "xa' = xa + 2 * B" "wx' = wx + 1"
    using st by (auto simp: arc_step1_def Let_def xw ww split: if_splits)
  have right: "0 \<le> poly_in A B (wx + 1) (wy + 1)"
    using i(1,10) B by (simp add: poly_in_right)
  have both: "(xa' \<le> ya' \<longrightarrow> arc_inv A B R (thresh', ya', wy', xa', wx')) \<and>
      ya' = 2 * A * wy' \<and> 0 \<le> wy' \<and> 0 \<le> poly_in A B (wx + 1) (wy' + 1)"
  proof (cases "?t \<ge> 0")
    case False
    then have new: "thresh' = ?t" "ya' = ya" "wy' = wy" "xa' = xa + 2 * B" "wx' = wx + 1"
      using st by (simp_all add: arc_step1_def Let_def tw xw ww)
    moreover have "xa + 2 * B = 2 * B * (wx + 1)" by (simp add: i(4) algebra_simps)
    moreover have "- (2 * A * R) \<le> poly_in A B (wx + 1) wy"
      unfolding tval [symmetric] using i(9) xa0 B by linarith
    ultimately show ?thesis
      using i False right tval by (auto simp: arc_inv_def)
  next
    case True
    have pos: "ya > 0"
    proof (rule ccontr)
      assume "\<not> ya > 0"
      then have "wy = 0" "xa = 0" "wx = 0"
        using i xa0 A B by (auto simp: mult_le_0_iff zero_less_mult_iff)
      then show False
        using i(10) i(7,8) by (simp add: poly_in_def)
    qed
    then have wy1: "1 \<le> wy" using i(2,5) A by (auto simp: zero_less_mult_iff)
    have ya_eq: "ya - 2 * A = 2 * A * (wy - 1)" by (simp add: i(5) algebra_simps)
    have ya_nn: "0 \<le> ya - 2 * A" unfolding ya_eq using wy1 A by simp
    have yw: "s16 (ya - A * 2) = ya - 2 * A"
      using ya_nn yaR fit A B by (subst s16_id) linarith+
    have AR: "A * 1 \<le> A * R" using A wy1 i(3) by (intro mult_left_mono) linarith+
    have t2w: "s16 (?t - (ya - 2 * A)) = ?t - (ya - 2 * A)"
      using True ya_nn AR i(6,8) yaR A B fit by (intro s16_id) linarith+
    have w1: "s16 (wy - 1) = wy - 1" using wy1 i small by (intro s16_id) linarith+
    have new: "thresh' = ?t - (ya - 2 * A)" "ya' = ya - 2 * A" "wy' = wy - 1"
      "xa' = xa + 2 * B" "wx' = wx + 1"
      using st True by (simp_all add: arc_step1_def Let_def tw xw ww yw t2w w1)
    have "xa + 2 * B = 2 * B * (wx + 1)" by (simp add: i(4) algebra_simps)
    moreover have "?t - (ya - 2 * A) = poly_in A B (wx + 1) (wy - 1)"
      by (simp add: tval ya_eq poly_in_down)
    moreover have "?t - (ya - 2 * A) < 0" if "xa' \<le> ya'" using that i(8) B unfolding new by linarith
    moreover have "- (2 * A * R) \<le> ?t - (ya - 2 * A)" using True yaR A by linarith
    moreover have "0 \<le> poly_in A B (wx + 1) wy" using True tval by simp
    ultimately show ?thesis
      using i wy1 ya_eq unfolding new by (simp add: arc_inv_def)
  qed
  then show "xa' \<le> ya' \<Longrightarrow> arc_inv A B R (thresh', ya', wy', xa', wx')"
    "ya' = 2 * A * wy' \<and> 0 \<le> wy' \<and> 0 \<le> poly_in A B (wx + 1) (wy' + 1)" by blast+
qed

text \<open>
  The curve has one point per column, and none in or right of a column lies above a point that
  the half pixel above it is outside.
\<close>

lemma near_curve_unique:
  assumes "near_curve A B u v" "near_curve A B u w" "0 < A" "0 \<le> v" "0 \<le> w"
  shows "v = w"
proof -
  have no: "\<not> v < w" if "near_curve A B u v" "near_curve A B u w" "0 \<le> v" for v w
  proof
    assume "v < w"
    then have "(2 * v + 1) * (2 * v + 1) \<le> (2 * w - 1) * (2 * w - 1)" using that by (intro mult_mono) simp_all
    then have "A * ((2 * v + 1) * (2 * v + 1)) \<le> A * ((2 * w - 1) * (2 * w - 1))"
      using assms(3) by (intro mult_left_mono) simp_all
    then show False using that(1,2) unfolding near_curve_def by linarith
  qed
  show ?thesis using no [OF assms(1,2,4)] no [OF assms(2,1,5)] by simp
qed

lemma near_curve_below:
  assumes n: "near_curve A B u v" and p: "0 \<le> poly_in A B x (w + 1)"
    and "0 < A" "0 < B" "0 \<le> x" "x \<le> u" "0 \<le> w"
  shows "v \<le> w"
proof (rule ccontr)
  assume "\<not> v \<le> w"
  then have "(2 * w + 1) * (2 * w + 1) \<le> (2 * v - 1) * (2 * v - 1)" using assms by (intro mult_mono) simp_all
  then have a: "A * ((2 * w + 1) * (2 * w + 1)) \<le> A * ((2 * v - 1) * (2 * v - 1))"
    using assms(3) by (intro mult_left_mono) simp_all
  have "x * x \<le> u * u" using assms by (intro mult_mono) simp_all
  then have b: "4 * B * (x * x) \<le> 4 * B * (u * u)" using assms(4) by (intro mult_left_mono) simp_all
  have "4 * (A div 4) \<le> A" by linarith
  moreover have "4 * poly_in A B x (w + 1) = 4 * B * (x * x) + A * ((2 * w + 1) * (2 * w + 1)) - A + 4 * (A div 4) - 4 * A * B"
    by (simp add: poly_in_def algebra_simps)
  ultimately show False using n p a b unfolding near_curve_def by linarith
qed

text \<open>The columns right of \<open>x\<close> in which the curve is flat, and the rows above \<open>y\<close> in which it is steep.\<close>

definition flat_part :: "int \<Rightarrow> int \<Rightarrow> int \<Rightarrow> (int \<times> int) set" where
  "flat_part A B x = {(u, v). x < u \<and> 0 \<le> v \<and> near_curve A B u v \<and> B * u < A * v}"

definition steep_part :: "int \<Rightarrow> int \<Rightarrow> int \<Rightarrow> (int \<times> int) set" where
  "steep_part A B y = {(u, v). y < v \<and> 0 \<le> u \<and> near_curve B A v u \<and> A * v \<le> B * u}"

lemma flat_part_step:
  assumes "near_curve A B (x + 1) w" "0 \<le> w" "B * (x + 1) < A * w" "0 < A"
  shows "flat_part A B x = insert (x + 1, w) (flat_part A B (x + 1))"
proof (rule set_eqI)
  fix p :: "int \<times> int"
  obtain u v where p: "p = (u, v)" by (cases p)
  have "x < u \<longleftrightarrow> u = x + 1 \<or> x + 1 < u" by arith
  moreover have "v = w" if "u = x + 1" "near_curve A B u v" "0 \<le> v"
    using near_curve_unique [OF that(2) [unfolded that(1)] assms(1,4) that(3) assms(2)] .
  ultimately show "p \<in> flat_part A B x \<longleftrightarrow> p \<in> insert (x + 1, w) (flat_part A B (x + 1))"
    using assms(1-3) unfolding p flat_part_def by blast
qed

lemma flat_part_end:
  assumes "0 \<le> poly_in A B (x + 1) (w + 1)" "A * w \<le> B * (x + 1)" "0 < A" "0 < B" "0 \<le> x" "0 \<le> w"
  shows "flat_part A B x = {}"
proof -
  have "\<not> B * u < A * v" if "x < u" "near_curve A B u v" for u v
  proof -
    have "v \<le> w" using near_curve_below [OF that(2) assms(1)] assms that(1) by simp
    then have "A * v \<le> A * w" using assms by simp
    also have "\<dots> \<le> B * (x + 1)" by (rule assms(2))
    also have "\<dots> \<le> B * u" using that(1) assms(4) by simp
    finally show ?thesis by simp
  qed
  then show ?thesis by (auto simp: flat_part_def)
qed

lemma steep_part_step:
  assumes "near_curve B A (y + 1) w" "0 \<le> w" "A * (y + 1) \<le> B * w" "0 < B"
  shows "steep_part A B y = insert (w, y + 1) (steep_part A B (y + 1))"
proof (rule set_eqI)
  fix p :: "int \<times> int"
  obtain u v where p: "p = (u, v)" by (cases p)
  have "y < v \<longleftrightarrow> v = y + 1 \<or> y + 1 < v" by arith
  moreover have "u = w" if "v = y + 1" "near_curve B A v u" "0 \<le> u"
    using near_curve_unique [OF that(2) [unfolded that(1)] assms(1,4) that(3) assms(2)] .
  ultimately show "p \<in> steep_part A B y \<longleftrightarrow> p \<in> insert (w, y + 1) (steep_part A B (y + 1))"
    using assms(1-3) unfolding p steep_part_def by blast
qed

lemma steep_part_end:
  assumes "0 \<le> poly_in B A (y + 1) (w + 1)" "B * w < A * (y + 1)" "0 < A" "0 < B" "0 \<le> y" "0 \<le> w"
  shows "steep_part A B y = {}"
proof -
  have "\<not> A * v \<le> B * u" if "y < v" "near_curve B A v u" for u v
  proof -
    have "u \<le> w" using near_curve_below [OF that(2) assms(1)] assms that(1) by simp
    then have "B * u \<le> B * w" using assms by simp
    also have "\<dots> < A * (y + 1)" by (rule assms(2))
    also have "\<dots> \<le> A * v" using that(1) assms(3) by simp
    finally show ?thesis by simp
  qed
  then show ?thesis by (auto simp: steep_part_def)
qed

section \<open>The loops draw points near the curve and stop\<close>

definition quad :: "int \<Rightarrow> int \<Rightarrow> int \<times> int \<Rightarrow> (int \<times> int) list" where
  "quad x y p = [(x + fst p, y - snd p), (x - fst p, y - snd p),
                 (x + fst p, y + snd p), (x - fst p, y + snd p)]"

lemma plot4_quad:
  assumes "drawable (x, y)" "0 \<le> wx" "wx < 16384" "0 \<le> wy" "wy < 16384"
  shows "plot4 x y wx wy g = plot_all setpixel (quad x y (wx, wy)) (s16 (gColor g)) g"
  using assms by (simp add: plot4_def Let_def quad_def drawable_def s16_id frame_simps)

lemma arc_inv_small:
  assumes inv: "arc_inv A B R (thresh, ya, wy, xa, wx)" and A: "0 < A" and B: "0 < B"
    and fit: "2 * A * R + 2 * B \<le> 32767"
  shows "wx < 16384" and "wy < 16384" and "0 \<le> wx" and "0 \<le> wy" and "wy \<le> R" and "R < 16384"
proof -
  have i: "0 \<le> wx" "0 \<le> wy" "wy \<le> R" "xa = 2 * B * wx" "ya = 2 * A * wy" "xa \<le> ya"
    using inv by (simp_all add: arc_inv_def)
  have R0: "0 \<le> R" using i by simp
  have "1 * R \<le> A * R" using A R0 by (intro mult_right_mono) simp_all
  with fit B show R: "R < 16384" by simp
  have "ya \<le> 2 * A * R" using i(3) A by (simp add: i(5) mult_left_mono)
  moreover have "1 * wx \<le> B * wx" using B i(1) by (intro mult_right_mono) simp_all
  ultimately show "wx < 16384" using i(4,6) fit B by simp
  show "wy < 16384" "0 \<le> wx" "0 \<le> wy" "wy \<le> R" using R i by simp_all
qed

lemma upto_head: "[x + 1..x + int (Suc n)] = (x + 1) # [x + 1 + 1..x + 1 + int n]"
  by (subst upto_rec1) (simp_all add: algebra_simps)

lemma ellipse_loop1_draws:
  assumes ctr: "drawable (x, y)" and A: "0 < A" and B: "0 < B" and fit: "2 * A * R + 2 * B \<le> 32767"
    and inv: "arc_inv A B R (t, ya, wy, xa, wx)"
  shows "\<exists>ps. ellipse_loop1 x y A B (t, ya, wy, xa, wx) g =
              Some (plot_all setpixel (concat (map (quad x y) ps)) (s16 (gColor g)) g) \<and>
            set ps = flat_part A B wx \<and> map fst ps = [wx + 1..wx + int (length ps)] \<and> (\<forall>p \<in> set ps. snd p \<le> R)"
  using inv
proof (induction "nat (2 * A * R - xa)" arbitrary: t ya wy xa wx g rule: less_induct)
  case less
  obtain t' ya' wy' xa' wx' where st': "arc_step1 A B (t, ya, wy, xa, wx) = (t', ya', wy', xa', wx')" by (metis surj_pair)
  note inv = less.prems
  note sm = arc_inv_small [OF inv A B fit]
  have step: "xa' = xa + 2 * B" "wx' = wx + 1" "xa' \<le> ya' \<Longrightarrow> arc_inv A B R (t', ya', wy', xa', wx')"
    "ya' = 2 * A * wy'" "0 \<le> wy'" "0 \<le> poly_in A B (wx + 1) (wy' + 1)"
    using arc_inv_step [OF inv A B fit _ _ st'] sm by simp_all
  have xa: "xa' = 2 * (B * (wx + 1))" "ya' = 2 * (A * wy')"
    using inv step(1,4) by (simp_all add: arc_inv_def algebra_simps)
  show ?case
  proof (cases "xa' \<ge> ya'")
    case True
    then have "ellipse_loop1 x y A B (t, ya, wy, xa, wx) g = Some g"
      by (subst ellipse_loop1.simps) (simp add: st')
    moreover have "flat_part A B wx = {}"
      using True step(5,6) A B sm(3) unfolding xa by (intro flat_part_end) simp_all
    ultimately show ?thesis by (intro exI [of _ "[]"]) simp
  next
    case False
    then have inv': "arc_inv A B R (t', ya', wy', xa', wx')" using step(3) by simp
    note sm' = arc_inv_small [OF inv' A B fit]
    have "ya' \<le> 2 * A * R"
      using inv' A by (auto simp: arc_inv_def mult_left_mono)
    with False step(1) B have dec: "nat (2 * A * R - xa') < nat (2 * A * R - xa)" by simp
    obtain ps where ps: "ellipse_loop1 x y A B (t', ya', wy', xa', wx') (plot4 x y wx' wy' g) =
        Some (plot_all setpixel (concat (map (quad x y) ps)) (s16 (gColor g)) (plot4 x y wx' wy' g))"
      "set ps = flat_part A B wx'" "map fst ps = [wx' + 1..wx' + int (length ps)]" "\<forall>p \<in> set ps. snd p \<le> R"
      using less.hyps [OF dec inv', of "plot4 x y wx' wy' g"]
      by (auto simp: plot4_quad [OF ctr sm'(3,1,4,2)] frame_simps)
    have "ellipse_loop1 x y A B (t, ya, wy, xa, wx) g =
        Some (plot_all setpixel (concat (map (quad x y) ((wx', wy') # ps))) (s16 (gColor g)) g)"
      using False ps(1)
      by (subst ellipse_loop1.simps)
        (simp add: st' plot4_quad [OF ctr sm'(3,1,4,2)] plot_all_append)
    moreover have "set ((wx', wy') # ps) = flat_part A B wx"
      using flat_part_step [of A B wx wy'] arc_inv_near_curve [OF inv'] False step(5) A ps(2)
      by (simp add: xa step(2))
    moreover have "map fst ((wx', wy') # ps) = [wx + 1..wx + int (length ((wx', wy') # ps))]"
      using ps(3) upto_head [of wx "length ps"] by (simp add: step(2))
    moreover have "\<forall>p \<in> set ((wx', wy') # ps). snd p \<le> R" using ps(4) sm'(5) by simp
    ultimately show ?thesis by blast
  qed
qed

lemma ellipse_loop2_draws:
  assumes ctr: "drawable (x, y)" and A: "0 < A" and B: "0 < B" and fit: "2 * B * R + 2 * A \<le> 32767"
    and inv: "arc_inv B A R (t, xa, wx, ya, wy)"
  shows "\<exists>ps. ellipse_loop2 x y A B (t, ya, wy, xa, wx) g =
              Some (plot_all setpixel (concat (map (quad x y) ps)) (s16 (gColor g)) g) \<and>
            set ps = steep_part A B wy \<and> map snd ps = [wy + 1..wy + int (length ps)] \<and> (\<forall>p \<in> set ps. fst p \<le> R)"
  using inv
proof (induction "nat (2 * B * R - ya)" arbitrary: t ya wy xa wx g rule: less_induct)
  case less
  obtain t' xa' wx' ya' wy' where st': "arc_step1 B A (t, xa, wx, ya, wy) = (t', xa', wx', ya', wy')"
    by (metis surj_pair)
  note inv = less.prems
  note sm = arc_inv_small [OF inv B A fit]
  have st2: "arc_step2 A B (t, ya, wy, xa, wx) = (t', ya', wy', xa', wx')"
    by (simp add: arc_step2_mirror st')
  have step: "ya' = ya + 2 * A" "wy' = wy + 1" "ya' \<le> xa' \<Longrightarrow> arc_inv B A R (t', xa', wx', ya', wy')"
    "xa' = 2 * B * wx'" "0 \<le> wx'" "0 \<le> poly_in B A (wy + 1) (wx' + 1)"
    using arc_inv_step [OF inv B A fit _ _ st'] sm by simp_all
  have ya: "ya' = 2 * (A * (wy + 1))" "xa' = 2 * (B * wx')"
    using inv step(1,4) by (simp_all add: arc_inv_def algebra_simps)
  show ?case
  proof (cases "ya' > xa'")
    case True
    then have "ellipse_loop2 x y A B (t, ya, wy, xa, wx) g = Some g"
      by (subst ellipse_loop2.simps) (simp add: st2)
    moreover have "steep_part A B wy = {}"
      using True step(5,6) A B sm(3) unfolding ya by (intro steep_part_end) simp_all
    ultimately show ?thesis by (intro exI [of _ "[]"]) simp
  next
    case False
    then have inv': "arc_inv B A R (t', xa', wx', ya', wy')" using step(3) by simp
    note sm' = arc_inv_small [OF inv' B A fit]
    have "xa' \<le> 2 * B * R"
      using inv' B by (auto simp: arc_inv_def mult_left_mono)
    with False step(1) A have dec: "nat (2 * B * R - ya') < nat (2 * B * R - ya)" by simp
    obtain ps where ps: "ellipse_loop2 x y A B (t', ya', wy', xa', wx') (plot4 x y wx' wy' g) =
        Some (plot_all setpixel (concat (map (quad x y) ps)) (s16 (gColor g)) (plot4 x y wx' wy' g))"
      "set ps = steep_part A B wy'" "map snd ps = [wy' + 1..wy' + int (length ps)]" "\<forall>p \<in> set ps. fst p \<le> R"
      using less.hyps [OF dec inv', of "plot4 x y wx' wy' g"]
      by (auto simp: plot4_quad [OF ctr sm'(4,2,3,1)] frame_simps)
    have "ellipse_loop2 x y A B (t, ya, wy, xa, wx) g =
        Some (plot_all setpixel (concat (map (quad x y) ((wx', wy') # ps))) (s16 (gColor g)) g)"
      using False ps(1)
      by (subst ellipse_loop2.simps)
        (simp add: st2 plot4_quad [OF ctr sm'(4,2,3,1)] plot_all_append)
    moreover have "set ((wx', wy') # ps) = steep_part A B wy"
      using steep_part_step [of B A wy wx'] arc_inv_near_curve [OF inv'] False step(5) B ps(2)
      by (simp add: ya step(2))
    moreover have "map snd ((wx', wy') # ps) = [wy + 1..wy + int (length ((wx', wy') # ps))]"
      using ps(3) upto_head [of wy "length ps"] by (simp add: step(2))
    moreover have "\<forall>p \<in> set ((wx', wy') # ps). fst p \<le> R" using ps(4) sm'(5) by simp
    ultimately show ?thesis by blast
  qed
qed

section \<open>The ellipse\<close>

text \<open>Radii for which no \<open>short\<close> of the procedure overflows; 25 is the largest circle.\<close>

definition radii_fit :: "int \<Rightarrow> int \<Rightarrow> bool" where
  "radii_fit a b \<longleftrightarrow> 0 < a \<and> 0 < b \<and>
     2 * (a * a) * b + 2 * (b * b) \<le> 32767 \<and> 2 * (b * b) * a + 2 * (a * a) \<le> 32767"

lemma radii_fit_small:
  assumes "radii_fit a b"
  shows "a < 128" and "b < 128" and "a * a \<le> 16383" and "b * b \<le> 16383"
proof -
  have p: "0 < a" "0 < b" using assms by (simp_all add: radii_fit_def)
  then have nn: "0 \<le> 2 * (a * a) * b" "0 \<le> 2 * (b * b) * a" by simp_all
  show sq: "a * a \<le> 16383" "b * b \<le> 16383"
    using assms nn unfolding radii_fit_def by linarith+
  have "\<not> 128 \<le> n" if "n * n \<le> 16383" "0 < n" for n :: int
    using mult_mono [of 128 n 128 n] that by auto
  with sq p show "a < 128" "b < 128" by (force simp: not_le)+
qed

lemma arc_inv_start:
  assumes "0 < A" "0 < R" "B = R * R"
  shows "arc_inv A B R (A div 4 - A * R, 2 * A * R, R, 0, 0)"
proof -
  have "A * 1 \<le> A * R" using assms by (intro mult_left_mono) simp_all
  moreover have "A div 4 < A" "0 \<le> A div 4" using assms(1) by simp_all
  ultimately have "A div 4 < A * R" "- (A * R) \<le> A div 4" by linarith+
  then show ?thesis using assms by (simp add: arc_inv_def poly_in_def algebra_simps)
qed

lemma near_curve_box:
  assumes "near_curve (a * a) B u v" "0 < a" "0 < B" "0 \<le> u" "0 \<le> v"
  shows "u \<le> a"
proof (rule ccontr)
  assume "\<not> u \<le> a"
  then have "a * a \<le> u * u" using assms by (intro mult_mono) simp_all
  then have "4 * B * (a * a) \<le> 4 * B * (u * u)" using assms by (intro mult_left_mono) simp_all
  moreover have "0 \<le> a * a * ((2 * v - 1) * (2 * v - 1))" by simp
  moreover have "4 * (a * a) * B = 4 * B * (a * a)" by simp
  ultimately show False using assms(1) unfolding near_curve_def by linarith
qed

text \<open>
  C8: For radii that fit the 16-bit arithmetic the ellipse procedure returns and draws the whole
  outline, mirrored into the four quadrants, and no other point.  First come the two extreme points above and below the
  centre, then, column by column from 1 on, the point within half a pixel of the ideal curve in every column
  where the curve is flat (\<open>b\<^sup>2 u < a\<^sup>2 v\<close>); then the two extreme points at the sides, and, row by row from 1 on,
  the point within half a pixel of the curve in every row where it is steep (\<open>a\<^sup>2 v \<le> b\<^sup>2 u\<close>).  All lie inside the
  bounding box.
\<close>
theorem ellipse_draws_near_curve:
  assumes ctr: "drawable (x, y)" and fit: "radii_fit a b"
  shows "\<exists>ps qs.
    ellipse x y a b g =
      Some (plot_all setpixel
        ([(x, y + b), (x, y - b)] @ concat (map (quad x y) ps) @
         [(x + a, y), (x - a, y)] @ concat (map (quad x y) qs)) (s16 (gColor g)) g) \<and>
    map fst ps = [1..int (length ps)] \<and> map snd qs = [1..int (length qs)] \<and>
    set ps = {(u, v). 0 < u \<and> 0 \<le> v \<and> near_curve (a * a) (b * b) u v \<and> b * b * u < a * a * v} \<and>
    set qs = {(u, v). 0 < v \<and> 0 \<le> u \<and> near_curve (b * b) (a * a) v u \<and> a * a * v \<le> b * b * u} \<and>
    (\<forall>(u, v) \<in> set ps \<union> set qs. 0 \<le> u \<and> u \<le> a \<and> 0 \<le> v \<and> v \<le> b)"
proof -
  let ?A = "a * a" and ?B = "b * b"
  note sm = radii_fit_small [OF fit]
  have p: "0 < a" "0 < b" and A: "0 < ?A" and B: "0 < ?B"
    and fit1: "2 * ?A * b + 2 * ?B \<le> 32767" and fit2: "2 * ?B * a + 2 * ?A \<le> 32767"
    using fit by (simp_all add: radii_fit_def)
  have ab: "0 \<le> ?A * b" "0 \<le> ?B * a" using p by simp_all
  have wA: "s16 ?A = ?A" "s16 ?B = ?B" using sm A B by (subst s16_id; linarith)+
  have w: "s16 (y + b) = y + b" "s16 (y - b) = y - b"
    "s16 (x + a) = x + a" "s16 (x - a) = x - a"
    using sm p ctr by (simp_all add: s16_id drawable_def)
  have q: "?A sdiv 4 = ?A div 4" using A p by (simp add: signed_divide_int_def sgn_mult)
  have w1: "s16 (?A div 4 - ?A * b) = ?A div 4 - ?A * b" "s16 (?A * 2 * b) = 2 * ?A * b"
    using fit1 ab A B sm by (subst s16_id; linarith)+
  have w2: "s16 (?B div 4 - ?B * a) = ?B div 4 - ?B * a" "s16 (?B * a * 2) = 2 * ?B * a"
    using fit2 ab A B sm by (subst s16_id; linarith)+
  let ?g1 = "plot_all setpixel [(x, y + b), (x, y - b)] (s16 (gColor g)) g"
  obtain ps where ps:
    "ellipse_loop1 x y ?A ?B (?A div 4 - ?A * b, 2 * ?A * b, b, 0, 0) ?g1 =
       Some (plot_all setpixel (concat (map (quad x y) ps)) (s16 (gColor ?g1)) ?g1)"
    "set ps = flat_part ?A ?B 0" "map fst ps = [0 + 1..0 + int (length ps)]" "\<forall>p \<in> set ps. snd p \<le> b"
    using ellipse_loop1_draws [OF ctr A B fit1 arc_inv_start [OF A p(2) refl], of ?g1] by blast
  let ?g2 = "plot_all setpixel [(x + a, y), (x - a, y)] (s16 (gColor g))
    (plot_all setpixel (concat (map (quad x y) ps)) (s16 (gColor ?g1)) ?g1)"
  obtain qs where qs:
    "ellipse_loop2 x y ?A ?B (?B div 4 - ?B * a, 0, 0, 2 * ?B * a, a) ?g2 =
       Some (plot_all setpixel (concat (map (quad x y) qs)) (s16 (gColor ?g2)) ?g2)"
    "set qs = steep_part ?A ?B 0" "map snd qs = [0 + 1..0 + int (length qs)]" "\<forall>p \<in> set qs. fst p \<le> a"
    using ellipse_loop2_draws [OF ctr A B fit2 arc_inv_start [OF B p(1) refl], of ?g2] by blast
  have drawn: "ellipse x y a b g =
      Some (plot_all setpixel
        ([(x, y + b), (x, y - b)] @ concat (map (quad x y) ps) @
         [(x + a, y), (x - a, y)] @ concat (map (quad x y) qs)) (s16 (gColor g)) g)"
    using ps(1) qs(1)
    by (simp add: ellipse_def Let_def wA w q w1 w2 plot_all_append frame_simps)
  have "0 \<le> u \<and> u \<le> a \<and> 0 \<le> v \<and> v \<le> b" if "(u, v) \<in> set ps" for u v
    using ps(2,4) that near_curve_box [OF _ p(1) B, of u v] by (force simp: flat_part_def)
  moreover have "0 \<le> u \<and> u \<le> a \<and> 0 \<le> v \<and> v \<le> b" if "(u, v) \<in> set qs" for u v
    using qs(2,4) that near_curve_box [OF _ p(2) A, of v u] by (force simp: steep_part_def)
  ultimately have box: "\<forall>(u, v) \<in> set ps \<union> set qs. 0 \<le> u \<and> u \<le> a \<and> 0 \<le> v \<and> v \<le> b" by blast
  have sets: "set ps = {(u, v). 0 < u \<and> 0 \<le> v \<and> near_curve ?A ?B u v \<and> ?B * u < ?A * v}"
    "set qs = {(u, v). 0 < v \<and> 0 \<le> u \<and> near_curve ?B ?A v u \<and> ?A * v \<le> ?B * u}"
    using ps(2) qs(2) by (simp_all only: flat_part_def steep_part_def)
  have "map fst ps = [1..int (length ps)]" "map snd qs = [1..int (length qs)]" using ps(3) qs(3) by simp_all
  with drawn sets box show ?thesis by blast
qed

text \<open>A circle of radius 25: in the column at 15 it passes through (15, 20).\<close>

theorem ellipse_draws_near_curve_witness:
  "\<exists>ps. ellipse 120 160 25 25 gfx_init = Some (plot_all setpixel ps (s16 (gColor gfx_init)) gfx_init) \<and>
     (135, 140) \<in> set ps \<and> (105, 180) \<in> set ps"
proof -
  have h: "drawable (120, 160)" "radii_fit 25 25" by (simp_all add: drawable_def radii_fit_def)
  obtain ps qs where e: "ellipse 120 160 25 25 gfx_init =
      Some (plot_all setpixel
        ([(120, 160 + 25), (120, 160 - 25)] @ concat (map (quad 120 160) ps) @
         [(120 + 25, 160), (120 - 25, 160)] @ concat (map (quad 120 160) qs)) (s16 (gColor gfx_init)) gfx_init)"
    and s: "set ps = {(u, v). 0 < u \<and> 0 \<le> v \<and> near_curve (25 * 25) (25 * 25) u v \<and> 25 * 25 * u < 25 * 25 * v}"
    using ellipse_draws_near_curve [OF h, of gfx_init] by blast
  have "(15, 20) \<in> set ps" by (simp add: s near_curve_def)
  then have "(135, 140) \<in> set (concat (map (quad 120 160) ps))" "(105, 180) \<in> set (concat (map (quad 120 160) ps))"
    by (force simp: quad_def)+
  then show ?thesis unfolding e by - (intro exI conjI, rule refl, simp_all only: set_append Un_iff simp_thms)
qed

text \<open>
  Beyond those radii the 16-bit products wrap: a circle of radius 30 (which fits the display
  easily) loses its whole outline, only its four extreme points are drawn.
\<close>
theorem ellipse_radius_30_overflows:
  "ellipse 120 160 30 30 g =
     Some (plot_all setpixel [(120, 190), (120, 130), (150, 160), (90, 160)] (s16 (gColor g)) g)"
proof -
  have w: "s16 900 = 900" "s16 (225 - 27000) = -26775" "s16 54000 = -11536"
    by (simp_all add: s16_def)
  have s1: "arc_step1 900 900 (-26775, -11536, 30, 0, 0) = (-25875, -11536, 30, 1800, 1)"
    by (simp add: arc_step1_def s16_def)
  have s2: "arc_step2 900 900 (-26775, 0, 0, -11536, 30) = (-25875, 1800, 1, -11536, 30)"
    by (simp add: arc_step2_def s16_def)
  show ?thesis
    by (simp add: ellipse_def Let_def w signed_divide_int_def s16_def
        ellipse_loop1.simps ellipse_loop2.simps s1 s2 frame_simps)
qed

end
