(* ===== verification/Gfx_Fill.thy ===== *)
theory Gfx_Fill
  imports Gfx_Line
begin

text \<open>
  The filling operations of \<open>graphic.c\<close>: \<open>h_line\<close>, \<open>bar\<close>, \<open>clip_screen\<close>, \<open>fillrect\<close>,
  \<open>patternfill\<close> and \<open>bitblt\<close>.  They address the screen as one bit per pixel, eight pixels to a
  byte, most significant bit leftmost.  An access to a table or a buffer outside its bounds,
  and a shift by a count C leaves undefined, set the ghost flag \<open>oob\<close>.
\<close>

section \<open>Checked access\<close>

definition rd_fb :: "int \<Rightarrow> gfx \<Rightarrow> u8 \<times> gfx" where
  "rd_fb a g = (if 0 \<le> a \<and> a < fb_bytes then (fb g a, g) else (0, g\<lparr>oob := True\<rparr>))"

definition rmw_fb :: "int \<Rightarrow> (u8 \<Rightarrow> u8) \<Rightarrow> gfx \<Rightarrow> gfx" where
  "rmw_fb a f g = (if 0 \<le> a \<and> a < fb_bytes then poke a (f (fb g a)) g else g\<lparr>oob := True\<rparr>)"

definition fault :: "gfx \<Rightarrow> gfx" where
  "fault g = g\<lparr>oob := True\<rparr>"

section \<open>Horizontal spans\<close>

definition ftab :: "u8 list" where "ftab = [0xff, 0x7f, 0x3f, 0x1f, 0x0f, 0x07, 0x03, 0x01]"
definition btab :: "u8 list" where "btab = [0x00, 0x80, 0xc0, 0xe0, 0xf0, 0xf8, 0xfc, 0xfe]"

definition h_line :: "int \<Rightarrow> int \<Rightarrow> int \<Rightarrow> gfx \<Rightarrow> gfx" where
  "h_line x1 x2 y g =
     (let count = s16 ((x2 - x1) div 8)
      in if count > 1
         then let loc = (y * screen_width + x1) div 8
              in if gColor g \<noteq> 0
                 then let g = rmw_fb loc (\<lambda>b. b OR ftab ! nat (x1 mod 8)) g;
                          g = fb_memset (loc + 1) 0xff (count - 1) g
                      in rmw_fb (loc + count) (\<lambda>b. b OR ftab ! nat (7 - x2 mod 8)) g
                 else let g = rmw_fb loc (\<lambda>b. b AND btab ! nat (x1 mod 8)) g;
                          g = fb_memset (loc + 1) 0 (count - 1) g;
                          i = nat (x2 mod 8 + 1)
                      in if i < length ftab then rmw_fb (loc + count) (\<lambda>b. b AND ftab ! i) g
                         else fault g
         else line (s16 x1) (s16 y) (s16 x2) (s16 y) g)"

fun bar_loop :: "nat \<Rightarrow> int \<Rightarrow> int \<Rightarrow> int \<Rightarrow> gfx \<Rightarrow> gfx" where
  "bar_loop 0 x1 x2 y g = g"
| "bar_loop (Suc n) x1 x2 y g = bar_loop n x1 x2 (y + 1) (h_line x1 x2 y g)"

definition bar :: "int \<Rightarrow> int \<Rightarrow> int \<Rightarrow> int \<Rightarrow> gfx \<Rightarrow> gfx" where
  "bar x1 y1 x2 y2 g = bar_loop (nat (y2 - y1)) x1 x2 y1 g"

section \<open>Clipping\<close>

definition clip_screen :: "int \<Rightarrow> int \<Rightarrow> int \<Rightarrow> int \<Rightarrow> int \<times> int \<times> int \<times> int" where
  "clip_screen in_x in_y in_w in_h =
     (let (in_x, in_w) = (if in_w < 0 then (s16 (in_x + in_w), s16 (- in_w)) else (in_x, in_w));
          (in_y, in_h) = (if in_h < 0 then (s16 (in_y + in_h), s16 (- in_h)) else (in_y, in_h));
          (in_w, in_x) = (if in_x < 0 then (s16 (in_w - in_x), 0) else (in_w, in_x));
          (in_h, in_y) = (if in_y < 0 then (s16 (in_h - in_y), 0) else (in_h, in_y));
          in_w = (if in_w > screen_width then screen_width else in_w);
          in_h = (if in_h > screen_height then screen_height else in_h);
          in_w = (if in_w < 0 then 0 else in_w);
          in_h = (if in_h < 0 then 0 else in_h)
      in (in_x, in_y, in_w, in_h))"

section \<open>Pattern fill\<close>

definition pattern_data :: "PatternIndex \<Rightarrow> u8 list option" where
  "pattern_data p = (case p of
      BlackPattern \<Rightarrow> Some [0xff]
    | WhitePattern \<Rightarrow> Some [0]
    | DarkGreyPattern \<Rightarrow> Some [0x55, 0xcc]
    | LightGreyPattern \<Rightarrow> Some [0x88, 0, 0x22, 0]
    | MicroPengPattern \<Rightarrow> Some [0x3c, 0x7e, 0x56, 0xaa, 0x86, 0x4e, 0x7b, 0xc3,
                                0x83, 0x83, 0xc3, 0xc7, 0xbd, 0x99, 0x99, 0xff]
    | InvalidPattern \<Rightarrow> None)"

text \<open>The \<open>switch (Mode)\<close> that combines a source unit with a destination unit.\<close>

definition combine :: "CopyMode \<Rightarrow> u8 \<Rightarrow> u8 \<Rightarrow> u8" where
  "combine mode s dst = (case mode of
      MODE_SRC \<Rightarrow> s
    | MODE_NOT_SRC \<Rightarrow> NOT s
    | MODE_SRC_OR_DST \<Rightarrow> dst OR s
    | MODE_SRC_AND_DST \<Rightarrow> dst AND s
    | MODE_SRC_XOR_DST \<Rightarrow> dst XOR s
    | MODE_NOT_SRC_OR_DST \<Rightarrow> dst OR NOT s
    | MODE_NOT_SRC_AND_DST \<Rightarrow> dst AND NOT s
    | MODE_NOT_SRC_XOR_DST \<Rightarrow> dst XOR NOT s
    | MODE_SRC_OR_NOT_DST \<Rightarrow> NOT dst OR s
    | MODE_SRC_AND_NOT_DST \<Rightarrow> NOT dst AND s
    | MODE_SRC_XOR_NOT_DST \<Rightarrow> NOT dst XOR NOT s
    | _ \<Rightarrow> s)"

definition dest_masks :: "int \<Rightarrow> int \<Rightarrow> u8 \<times> u8" where
  "dest_masks dest_off w =
     (let beg = NOT (drop_bit (nat dest_off) (0xff :: u8));
          end = drop_bit (nat ((dest_off + w) smod 8)) (0xff :: u8)
      in (beg, if end = 0xff then 0 else end))"

definition unit_mask :: "u8 \<times> u8 \<Rightarrow> int \<Rightarrow> int \<Rightarrow> u8" where
  "unit_mask masks dest_n x =
     (if x = 0 then fst masks else 0) OR (if x = dest_n - 1 then snd masks else 0)"

fun fill_units :: "nat \<Rightarrow> int \<Rightarrow> int \<Rightarrow> u8 \<times> u8 \<Rightarrow> u8 \<Rightarrow> int \<Rightarrow> gfx \<Rightarrow> gfx" where
  "fill_units 0 x dest_n masks s dp g = g"
| "fill_units (Suc n) x dest_n masks s dp g =
     (let m = unit_mask masks dest_n x
      in fill_units n (x + 1) dest_n masks s (dp + 1)
           (rmw_fb dp (\<lambda>b. (b AND m) OR (combine (gMode g) s b AND NOT m)) g))"

fun fill_rows :: "nat \<Rightarrow> int \<Rightarrow> int \<Rightarrow> u8 \<times> u8 \<Rightarrow> u8 list \<Rightarrow> int \<Rightarrow> int \<Rightarrow> gfx \<Rightarrow> gfx" where
  "fill_rows 0 row dest_n masks data dest units g = g"
| "fill_rows (Suc n) row dest_n masks data dest units g =
     fill_rows n (row + 1) dest_n masks data (dest + units) units
       (if row smod int (length data) < 0 then fault g
        else fill_units (nat dest_n) 0 dest_n masks (data ! nat (row smod int (length data))) dest g)"

definition patternfill :: "int \<Rightarrow> int \<Rightarrow> int \<Rightarrow> int \<Rightarrow> int \<Rightarrow> int \<Rightarrow> gfx \<Rightarrow> gfx" where
  "patternfill dest_x dest_y w h dest dest_units_per_line g =
     (case pattern_data (gP_Index g) of
        None \<Rightarrow> fault g
      | Some data \<Rightarrow>
          let dest = dest + dest_y * dest_units_per_line + dest_x sdiv 8;
              dest_n = s16 ((dest_x + w + 8 - 1) sdiv 8 - dest_x sdiv 8);
              dest_off = dest_x smod 8 mod 256
          in if dest_off > 31 \<or> (dest_off + w) smod 8 < 0 then fault g
             else fill_rows (nat h) dest_y dest_n (dest_masks dest_off w) data dest
                    dest_units_per_line g)"

definition fillrect :: "int \<Rightarrow> int \<Rightarrow> int \<Rightarrow> int \<Rightarrow> gfx \<Rightarrow> gfx" where
  "fillrect x1 y1 x2 y2 g =
     (let (x, y, w, h) = clip_screen x1 y1 (s16 (x2 - x1)) (s16 (y2 - y1))
      in patternfill x y w h 0 (screen_width div 8) g)"

section \<open>Bit block transfer\<close>

text \<open>
  The source is a byte array \<open>src\<close> of the caller; \<open>src\<close> and \<open>dest\<close> pointers are offsets.
  \<open>dx\<close> is a plain \<open>char\<close>, which the ARM compilers make unsigned: the difference of the two
  pixel offsets is taken modulo 256, and a shift count above 31 or below 0 is undefined.
\<close>

definition rd_src :: "u8 list \<Rightarrow> int \<Rightarrow> gfx \<Rightarrow> u8 \<times> gfx" where
  "rd_src src i g = (if 0 \<le> i \<and> i < int (length src) then (src ! nat i, g) else (0, fault g))"

definition blit_source :: "u8 list \<Rightarrow> int \<Rightarrow> int \<Rightarrow> gfx \<Rightarrow> u8 \<times> gfx" where
  "blit_source src dx sp g =
     (if dx > 0
      then let (a, g) = rd_src src (sp - 1) g;
               (b, g) = rd_src src sp g
           in if 8 - dx < 0 then (0, fault g)
              else (push_bit (nat (8 - dx)) a OR drop_bit (nat dx) b, g)
      else rd_src src sp g)"

fun blit_units :: "nat \<Rightarrow> int \<Rightarrow> int \<Rightarrow> u8 \<times> u8 \<Rightarrow> int \<Rightarrow> u8 list \<Rightarrow> int \<Rightarrow> int \<Rightarrow> gfx \<Rightarrow> gfx" where
  "blit_units 0 x dest_n masks dx src sp dp g = g"
| "blit_units (Suc n) x dest_n masks dx src sp dp g =
     (let (s, g) = blit_source src dx sp g;
          m = unit_mask masks dest_n x
      in blit_units n (x + 1) dest_n masks dx src (sp + 1) (dp + 1)
           (rmw_fb dp (\<lambda>b. (b AND m) OR (combine (gMode g) s b AND NOT m)) g))"

fun blit_rows :: "nat \<Rightarrow> int \<Rightarrow> u8 \<times> u8 \<Rightarrow> int \<Rightarrow> u8 list \<Rightarrow> int \<Rightarrow> int \<Rightarrow> int \<Rightarrow> int \<Rightarrow> gfx \<Rightarrow> gfx" where
  "blit_rows 0 dest_n masks dx src sp sunits dp dunits g = g"
| "blit_rows (Suc n) dest_n masks dx src sp sunits dp dunits g =
     blit_rows n dest_n masks dx src (sp + sunits) sunits (dp + dunits) dunits
       (blit_units (nat dest_n) 0 dest_n masks dx src sp dp g)"

definition bitblt ::
    "int \<Rightarrow> int \<Rightarrow> int \<Rightarrow> int \<Rightarrow> int \<Rightarrow> int \<Rightarrow> u8 list \<Rightarrow> int \<Rightarrow> int \<Rightarrow> int \<Rightarrow> gfx \<Rightarrow> gfx" where
  "bitblt src_x src_y w h dest_x dest_y src src_units_per_line dest dest_units_per_line g =
     (let sp = src_y * src_units_per_line + src_x div 8;
          dp = dest + dest_y * dest_units_per_line + dest_x div 8;
          dest_n = s16 ((dest_x + w + 8 - 1) div 8 - dest_x div 8);
          src_off = src_x mod 8;
          dest_off = dest_x mod 8;
          dx = (dest_off - src_off) mod 256
      in blit_rows (nat h) dest_n
           (let beg = NOT (drop_bit (nat dest_off) (0xff :: u8));
                end = drop_bit (nat ((dest_off + w) mod 8)) (0xff :: u8)
            in (beg, if end = 0xff then 0 else end))
           dx src sp src_units_per_line dp dest_units_per_line g)"


section \<open>Raster operations\<close>

text \<open>The boolean function a copy mode's name promises, one bit at a time.\<close>

definition rop :: "CopyMode \<Rightarrow> bool \<Rightarrow> bool \<Rightarrow> bool" where
  "rop mode s d = (case mode of
      MODE_SRC \<Rightarrow> s
    | MODE_NOT_SRC \<Rightarrow> \<not> s
    | MODE_SRC_OR_DST \<Rightarrow> s \<or> d
    | MODE_SRC_AND_DST \<Rightarrow> s \<and> d
    | MODE_SRC_XOR_DST \<Rightarrow> s \<noteq> d
    | MODE_SRC_OR_NOT_DST \<Rightarrow> s \<or> \<not> d
    | MODE_SRC_AND_NOT_DST \<Rightarrow> s \<and> \<not> d
    | MODE_SRC_XOR_NOT_DST \<Rightarrow> s \<noteq> (\<not> d)
    | MODE_NOT_SRC_OR_DST \<Rightarrow> \<not> s \<or> d
    | MODE_NOT_SRC_AND_DST \<Rightarrow> \<not> s \<and> d
    | MODE_NOT_SRC_XOR_DST \<Rightarrow> (\<not> s) \<noteq> d
    | MODE_NOT_SRC_OR_NOT_DST \<Rightarrow> \<not> s \<or> \<not> d
    | MODE_NOT_SRC_AND_NOT_DST \<Rightarrow> \<not> s \<and> \<not> d
    | MODE_NOT_SRC_XOR_NOT_DST \<Rightarrow> (\<not> s) \<noteq> (\<not> d)
    | InvalidMode \<Rightarrow> s)"

text \<open>The modes \<open>combine\<close> computes as their name says.\<close>

definition faithful_mode :: "CopyMode \<Rightarrow> bool" where
  "faithful_mode m \<longleftrightarrow> m \<notin> {MODE_SRC_XOR_NOT_DST, MODE_NOT_SRC_OR_NOT_DST,
     MODE_NOT_SRC_AND_NOT_DST, MODE_NOT_SRC_XOR_NOT_DST}"

lemma bit_combine:
  "faithful_mode m \<Longrightarrow> n < 8 \<Longrightarrow> bit (combine m s d) n = rop m (bit s n) (bit d n)"
  by (cases m) (auto simp: combine_def rop_def faithful_mode_def bit_simps)

text \<open>The bit at column \<open>c\<close> of row \<open>r\<close> of a one-bit bitmap at \<open>base\<close>.\<close>

definition mono :: "gfx \<Rightarrow> int \<Rightarrow> int \<Rightarrow> int \<Rightarrow> int \<Rightarrow> bool" where
  "mono g base units r c = bit (fb g (base + r * units + c div 8)) (7 - nat (c mod 8))"

lemma u8_ff: "(0xff :: u8) = - 1"
  by simp

lemma bit_shifted_ff: "bit (drop_bit k (0xff :: u8)) n \<longleftrightarrow> n + k < 8"
  unfolding u8_ff bit_drop_bit_eq comp_def bit_minus_1_iff by (auto simp: possible_bit_word)

section \<open>Masks\<close>

text \<open>The pixel offset past the last one of a span, in the last unit it touches.\<close>

lemma bit_beg_mask:
  assumes "0 \<le> off" "off < 8" "0 \<le> i" "i < 8"
  shows "bit (NOT (drop_bit (nat off) (0xff :: u8))) (7 - nat i) \<longleftrightarrow> i < off"
  using assms by (simp add: bit_not_iff bit_shifted_ff possible_bit_word) linarith

lemma bit_end_mask:
  assumes "0 \<le> e" "e < 8" "0 \<le> i" "i < 8"
  shows "bit (let m = drop_bit (nat e) (0xff :: u8) in if m = 0xff then 0 else m) (7 - nat i)
           \<longleftrightarrow> e \<noteq> 0 \<and> e \<le> i"
proof -
  have "drop_bit (nat e) (0xff :: u8) = 0xff \<longleftrightarrow> e = 0"
  proof
    assume "drop_bit (nat e) (0xff :: u8) = 0xff"
    then have "bit (drop_bit (nat e) (0xff :: u8)) 7 = bit (drop_bit 0 (0xff :: u8)) 7" by simp
    then show "e = 0" using assms unfolding bit_shifted_ff by simp
  qed simp
  then show ?thesis using assms by (simp add: Let_def bit_shifted_ff) linarith
qed

text \<open>Number of bytes a span of \<open>w\<close> pixels at column \<open>x\<close> touches.\<close>

definition span_bytes :: "int \<Rightarrow> int \<Rightarrow> int" where
  "span_bytes x w = (x + w + 7) div 8 - x div 8"

lemma span_bytes_bounds:
  assumes "0 \<le> x" "0 < w"
  shows "0 < span_bytes x w" "8 * (span_bytes x w - 1) < x mod 8 + w" "x mod 8 + w \<le> 8 * span_bytes x w"
proof -
  define n where "n = (x mod 8 + w + 7) div 8"
  have "(x mod 8 + w + 7 + 8 * (x div 8)) div 8 = x div 8 + n"
    unfolding n_def by (rule div_mult_self2) simp
  then have "(x + w + 7) div 8 = n + x div 8" by (simp add: algebra_simps)
  then have s: "span_bytes x w = n" by (simp add: span_bytes_def)
  have bounds: "8 * n \<le> r + w + 7 \<and> r + w + 7 < 8 * n + 8" if "r = x mod 8" for r
    using int_div_bounds [of 8 "x mod 8 + w + 7"] unfolding that n_def by simp
  have "0 < n \<and> 8 * (n - 1) < r + w \<and> r + w \<le> 8 * n" if "r = x mod 8" "0 \<le> r" for r
    using bounds [OF that(1)] that(2) assms(2) by presburger
  from this [of "x mod 8"] show "0 < span_bytes x w" "8 * (span_bytes x w - 1) < x mod 8 + w"
      "x mod 8 + w \<le> 8 * span_bytes x w"
    unfolding s by simp_all
qed

lemma span_mask:
  assumes x: "0 \<le> x" "0 < w" and i: "0 \<le> i" "i < 8" and j: "0 \<le> j" "j < span_bytes x w"
  shows "bit (unit_mask (dest_masks (x mod 8) w) (span_bytes x w) j) (7 - nat i) \<longleftrightarrow>
         \<not> (x mod 8 \<le> 8 * j + i \<and> 8 * j + i < x mod 8 + w)"
proof -
  define off where "off = x mod 8"
  define e where "e = (off + w) mod 8"
  define n where "n = span_bytes x w"
  have off: "0 \<le> off" "off < 8" and e: "0 \<le> e" "e < 8" by (simp_all add: off_def e_def)
  obtain k where q: "off + w = 8 * k + e"
    unfolding e_def by (metis mult_div_mod_eq)
  have n: "8 * (n - 1) < off + w" "off + w \<le> 8 * n" and j': "0 \<le> j" "j < n"
    using span_bytes_bounds [OF x] j by (simp_all add: n_def off_def)
  have "k = n \<or> k = n - 1" using q n e by presburger
  then have ne: "e = 0 \<Longrightarrow> off + w = 8 * n" "e \<noteq> 0 \<Longrightarrow> off + w = 8 * (n - 1) + e"
    using q n e by auto
  have sm: "(off + w) smod 8 = e"
    using off x by (simp add: e_def smod_nonneg)
  have m: "bit (unit_mask (dest_masks off w) n j) (7 - nat i) \<longleftrightarrow>
      (j = 0 \<and> i < off) \<or> (j = n - 1 \<and> e \<noteq> 0 \<and> e \<le> i)"
    unfolding unit_mask_def dest_masks_def sm
    using bit_beg_mask [OF off i] bit_end_mask [OF e i]
    by (auto simp: bit_or_iff Let_def)
  show ?thesis
    unfolding off_def [symmetric] n_def [symmetric] m
  proof (cases "e = 0")
    case True
    with ne(1) off i j' show "(j = 0 \<and> i < off) \<or> (j = n - 1 \<and> e \<noteq> 0 \<and> e \<le> i) \<longleftrightarrow>
        \<not> (off \<le> 8 * j + i \<and> 8 * j + i < off + w)" by auto
  next
    case False
    with ne(2) off e i j' show "(j = 0 \<and> i < off) \<or> (j = n - 1 \<and> e \<noteq> 0 \<and> e \<le> i) \<longleftrightarrow>
        \<not> (off \<le> 8 * j + i \<and> 8 * j + i < off + w)" by auto
  qed
qed

section \<open>What the unit and row loops write\<close>

definition masked :: "u8 \<Rightarrow> u8 \<Rightarrow> u8 \<Rightarrow> u8" where
  "masked m new old = (old AND m) OR (new AND NOT m)"

lemma bit_masked: "n < 8 \<Longrightarrow> bit (masked m new old) n = (if bit m n then bit old n else bit new n)"
  by (auto simp: masked_def bit_simps)

lemma rmw_fb_frame [frame_simps]:
  "gMode (rmw_fb a f g) = gMode g" "gColor (rmw_fb a f g) = gColor g"
  "gP_Index (rmw_fb a f g) = gP_Index g"
  by (simp_all add: rmw_fb_def frame_simps)

lemma rmw_fb_in:
  "0 \<le> a \<Longrightarrow> a < fb_bytes \<Longrightarrow> fb (rmw_fb a f g) = (fb g)(a := f (fb g a)) \<and> oob (rmw_fb a f g) = oob g"
  by (simp add: rmw_fb_def poke_def)

lemma fill_units_eq:
  assumes "0 \<le> dp" "dp + int n \<le> fb_bytes"
  shows "fb (fill_units n x dn masks s dp g) = (\<lambda>a. if dp \<le> a \<and> a < dp + int n
      then masked (unit_mask masks dn (x + (a - dp))) (combine (gMode g) s (fb g a)) (fb g a)
      else fb g a) \<and> oob (fill_units n x dn masks s dp g) = oob g \<and>
      gMode (fill_units n x dn masks s dp g) = gMode g"
  using assms
proof (induction n arbitrary: x dp g)
  case (Suc n)
  let ?m = "unit_mask masks dn x"
  let ?g = "rmw_fb dp (\<lambda>b. (b AND ?m) OR (combine (gMode g) s b AND NOT ?m)) g"
  have g': "fb ?g = (fb g)(dp := masked ?m (combine (gMode g) s (fb g dp)) (fb g dp))"
    "oob ?g = oob g"
    using rmw_fb_in [of dp _ g] Suc.prems by (simp_all add: masked_def)
  have "fill_units (Suc n) x dn masks s dp g = fill_units n (x + 1) dn masks s (dp + 1) ?g"
    by (simp add: Let_def)
  with Suc.IH [of "dp + 1" "x + 1" ?g] Suc.prems g' show ?case
    by (auto simp: fun_eq_iff frame_simps intro!: arg_cong2 [of _ _ _ _ unit_mask])
qed (auto simp: fun_eq_iff)

text \<open>
  Row \<open>k\<close> of a block occupies the bytes \<open>dest + k * units + j\<close> with \<open>j < dn\<close>; the block lies in
  the frame buffer when its last row does.
\<close>

definition block_fits :: "int \<Rightarrow> int \<Rightarrow> int \<Rightarrow> int \<Rightarrow> bool" where
  "block_fits dest units n dn \<longleftrightarrow>
     0 \<le> dest \<and> 0 < dn \<and> dn \<le> units \<and> (0 < n \<longrightarrow> dest + (n - 1) * units + dn \<le> fb_bytes)"

definition in_block :: "int \<Rightarrow> int \<Rightarrow> int \<Rightarrow> int \<Rightarrow> int \<Rightarrow> bool" where
  "in_block dest units n dn a \<longleftrightarrow>
     (\<exists>k. 0 \<le> k \<and> k < n \<and> dest + k * units \<le> a \<and> a < dest + k * units + dn)"

lemma block_fits_Suc:
  assumes "block_fits dest units (int (Suc n)) dn"
  shows "block_fits (dest + units) units (int n) dn" "dest + dn \<le> fb_bytes" "0 \<le> dest"
proof -
  have b: "0 \<le> dest" "0 < dn" "dn \<le> units" "dest + int n * units + dn \<le> fb_bytes"
    using assms by (simp_all add: block_fits_def)
  moreover have "0 \<le> int n * units" using b by simp
  ultimately show "dest + dn \<le> fb_bytes" "0 \<le> dest" by linarith+
  show "block_fits (dest + units) units (int n) dn"
    using b by (auto simp: block_fits_def algebra_simps)
qed

lemma in_block_Suc:
  "in_block dest units (int (Suc n)) dn a \<longleftrightarrow>
     (dest \<le> a \<and> a < dest + dn) \<or> in_block (dest + units) units (int n) dn a"
proof
  assume "in_block dest units (int (Suc n)) dn a"
  then obtain k where k: "0 \<le> k" "k < int n + 1" "dest + k * units \<le> a" "a < dest + k * units + dn"
    by (auto simp: in_block_def)
  show "(dest \<le> a \<and> a < dest + dn) \<or> in_block (dest + units) units (int n) dn a"
  proof (cases "k = 0")
    case False
    with k show ?thesis unfolding in_block_def
      by (intro disjI2 exI [of _ "k - 1"]) (simp add: algebra_simps)
  qed (use k in simp)
next
  assume "(dest \<le> a \<and> a < dest + dn) \<or> in_block (dest + units) units (int n) dn a"
  then show "in_block dest units (int (Suc n)) dn a"
  proof
    assume "dest \<le> a \<and> a < dest + dn"
    then show ?thesis unfolding in_block_def by (intro exI [of _ 0]) simp
  next
    assume "in_block (dest + units) units (int n) dn a"
    then obtain k where "0 \<le> k" "k < int n" "dest + units + k * units \<le> a"
      "a < dest + units + k * units + dn" by (auto simp: in_block_def)
    then show ?thesis unfolding in_block_def
      by (intro exI [of _ "k + 1"]) (simp add: algebra_simps)
  qed
qed

lemma rows_disjoint:
  assumes "dn \<le> units" "0 \<le> j" "j < dn" "(0::int) \<le> k"
  shows "\<not> (dest \<le> dest + units + k * units + j \<and> dest + units + k * units + j < dest + dn)"
proof -
  have "0 \<le> k * units" using assms by simp
  then show ?thesis using assms by linarith
qed

lemma fill_rows_frame:
  assumes "block_fits dest units (int n) dn" "0 \<le> row" "data \<noteq> []"
  shows "oob (fill_rows n row dn masks data dest units g) = oob g \<and>
    gMode (fill_rows n row dn masks data dest units g) = gMode g \<and>
    (\<not> in_block dest units (int n) dn a \<longrightarrow> fb (fill_rows n row dn masks data dest units g) a = fb g a)"
  using assms
proof (induction n arbitrary: row dest g)
  case (Suc n)
  note b = block_fits_Suc [OF Suc.prems(1)]
  let ?g = "fill_units (nat dn) 0 dn masks (data ! nat (row smod int (length data))) dest g"
  have "0 < dn" using Suc.prems by (simp add: block_fits_def)
  then have u: "oob ?g = oob g" "gMode ?g = gMode g"
    "\<not> (dest \<le> a \<and> a < dest + dn) \<Longrightarrow> fb ?g a = fb g a"
    using fill_units_eq [of dest "nat dn"] b by auto
  have nn: "\<not> row smod int (length data) < 0"
    using Suc.prems by (intro smod_not_neg) simp_all
  show ?case
    using Suc.IH [of "dest + units" "row + 1" ?g] Suc.prems b u nn
    by (auto simp: in_block_Suc simp del: of_nat_Suc)
qed simp

lemma fill_rows_hit:
  assumes "block_fits dest units (int n) dn" "0 \<le> row" "data \<noteq> []"
    and "0 \<le> k" "k < int n" "0 \<le> j" "j < dn"
  shows "fb (fill_rows n row dn masks data dest units g) (dest + k * units + j) =
    masked (unit_mask masks dn j)
      (combine (gMode g) (data ! nat ((row + k) mod int (length data))) (fb g (dest + k * units + j)))
      (fb g (dest + k * units + j))"
  using assms
proof (induction n arbitrary: row dest g k)
  case (Suc n)
  note b = block_fits_Suc [OF Suc.prems(1)]
  let ?g = "fill_units (nat dn) 0 dn masks (data ! nat (row mod int (length data))) dest g"
  have u: "gMode ?g = gMode g" "fb ?g = (\<lambda>a. if dest \<le> a \<and> a < dest + dn
      then masked (unit_mask masks dn (a - dest))
             (combine (gMode g) (data ! nat (row mod int (length data))) (fb g a)) (fb g a)
      else fb g a)"
    using fill_units_eq [of dest "nat dn"] b Suc.prems by (auto simp: block_fits_def)
  have nn: "row smod int (length data) = row mod int (length data)"
    using Suc.prems by (simp add: smod_nonneg)
  have nn': "\<not> row smod int (length data) < 0" using Suc.prems by (intro smod_not_neg) simp_all
  have unf: "fill_rows (Suc n) row dn masks data dest units g =
      fill_rows n (row + 1) dn masks data (dest + units) units ?g"
    using nn' by (simp add: nn)
  have dn: "dn \<le> units" "0 < units" using Suc.prems by (auto simp: block_fits_def)
  show ?case
  proof (cases "k = 0")
    case True
    have "\<not> in_block (dest + units) units (int n) dn (dest + j)"
    proof
      assume "in_block (dest + units) units (int n) dn (dest + j)"
      then obtain i where "0 \<le> i" "dest + units + i * units \<le> dest + j" by (auto simp: in_block_def)
      moreover from this dn have "0 \<le> i * units" by simp
      ultimately show False using dn Suc.prems by linarith
    qed
    then show ?thesis
      unfolding unf using fill_rows_frame [OF b(1), of "row + 1" data masks ?g "dest + j"] True Suc.prems
      by (simp add: u)
  next
    case False
    have a: "dest + units + (k - 1) * units + j = dest + k * units + j" by (simp add: algebra_simps)
    have "fb ?g (dest + k * units + j) = fb g (dest + k * units + j)"
      using rows_disjoint [of dn units j "k - 1" dest] dn Suc.prems False unfolding a u by auto
    then show ?thesis
      unfolding unf using Suc.IH [OF b(1), of "row + 1" "k - 1" ?g] Suc.prems False
      by (simp add: a u(1))
  qed
qed simp

lemma same_row:
  assumes "0 \<le> p" "p < units" "0 \<le> q" "q < units" "r * units + p = s * units + (q :: int)"
  shows "r = s \<and> p = q"
proof -
  have "(r * units + p) div units = r"
    using assms(1,2) by (intro int_div_eqI) (auto simp: mult.commute)
  moreover have "(s * units + q) div units = s"
    using assms(3,4) by (intro int_div_eqI) (auto simp: mult.commute)
  ultimately have "r = s" using assms(5) by simp
  with assms(5) show ?thesis by simp
qed

lemma in_block_coord:
  assumes p: "0 \<le> p" "p < units" and q: "0 \<le> q" "q + dn \<le> units"
  shows "in_block (base + y * units + q) units h dn (base + r * units + p) \<longleftrightarrow>
         y \<le> r \<and> r < y + h \<and> q \<le> p \<and> p < q + dn"
proof
  assume "in_block (base + y * units + q) units h dn (base + r * units + p)"
  then obtain k where k: "0 \<le> k" "k < h" and lo: "(y + k) * units + q \<le> r * units + p"
    and hi: "r * units + p < (y + k) * units + q + dn"
    by (auto simp: in_block_def algebra_simps)
  define d where "d = r * units + p - (y + k) * units"
  have "r * units + p = (y + k) * units + d" "0 \<le> d" "d < units"
    using lo hi q by (auto simp: d_def)
  with same_row [OF p, of d r "y + k"] have "r = y + k" "p = d" by auto
  with k lo hi show "y \<le> r \<and> r < y + h \<and> q \<le> p \<and> p < q + dn" by simp
next
  assume "y \<le> r \<and> r < y + h \<and> q \<le> p \<and> p < q + dn"
  then show "in_block (base + y * units + q) units h dn (base + r * units + p)"
    unfolding in_block_def by (intro exI [of _ "r - y"]) (auto simp: algebra_simps)
qed

section \<open>patternfill\<close>

text \<open>A box of \<open>w * h\<close> pixels at \<open>(x, y)\<close> of a bitmap of \<open>units\<close> bytes a row, at \<open>base\<close>.\<close>

definition box_fits :: "int \<Rightarrow> int \<Rightarrow> int \<Rightarrow> int \<Rightarrow> int \<Rightarrow> int \<Rightarrow> bool" where
  "box_fits x y w h base units \<longleftrightarrow>
     0 \<le> x \<and> 0 \<le> y \<and> 0 < w \<and> 0 \<le> h \<and> 0 \<le> base \<and> x + w \<le> 8 * units \<and> units < 4096 \<and>
     base + (y + h) * units \<le> fb_bytes"

lemma box_fits_span:
  assumes "box_fits x y w h base units"
  shows "0 < span_bytes x w" "x div 8 + span_bytes x w \<le> units" "0 < units"
    "s16 (span_bytes x w) = span_bytes x w"
proof -
  have b: "0 \<le> x" "0 < w" "x + w \<le> 8 * units" "units < 4096"
    using assms by (simp_all add: box_fits_def)
  show p: "0 < span_bytes x w" using span_bytes_bounds b by simp
  have "(x + w + 7) div 8 \<le> (7 + units * 8) div 8" using b by (intro zdiv_mono1) simp_all
  then have "(x + w + 7) div 8 \<le> units" by simp
  then show u: "x div 8 + span_bytes x w \<le> units" by (simp add: span_bytes_def)
  have "0 \<le> x div 8" using b by simp
  with u p show "0 < units" by simp
  show "s16 (span_bytes x w) = span_bytes x w"
    using u p \<open>0 \<le> x div 8\<close> b by (intro s16_id) auto
qed

lemma box_block_fits:
  assumes "box_fits x y w h base units"
  shows "block_fits (base + y * units + x div 8) units h (span_bytes x w)"
proof -
  have b: "0 \<le> x" "0 \<le> y" "0 \<le> base" "base + (y + h) * units \<le> fb_bytes"
    using assms by (simp_all add: box_fits_def)
  note sp = box_fits_span [OF assms]
  have "0 \<le> y * units" "0 \<le> x div 8" using b sp by simp_all
  moreover have "base + y * units + x div 8 + (h - 1) * units + span_bytes x w \<le> base + (y + h) * units"
    using sp by (simp add: algebra_simps)
  ultimately show ?thesis using b sp unfolding block_fits_def by linarith
qed

lemma patternfill_eq:
  assumes box: "box_fits x y w h base units" and d: "pattern_data (gP_Index g) = Some data"
  shows "patternfill x y w h base units g =
    fill_rows (nat h) y (span_bytes x w) (dest_masks (x mod 8) w) data
      (base + y * units + x div 8) units g"
proof -
  have b: "0 \<le> x" "0 < w" using box by (simp_all add: box_fits_def)
  have m: "x smod 8 mod 256 = x mod 8" "x sdiv 8 = x div 8"
    "(x + w + 8 - 1) sdiv 8 = (x + w + 7) div 8"
    using b by (simp_all add: smod_nonneg sdiv_nonneg)
  have nn: "\<not> (x mod 8 + w) smod 8 < 0" "\<not> 31 < x mod 8"
    using b smod_not_neg [of "x mod 8 + w" 8] by simp_all
  show ?thesis
    using box_fits_span(4) [OF box] nn
    unfolding patternfill_def d option.case Let_def m span_bytes_def [symmetric] by simp
qed

text \<open>From columns to bytes.\<close>

lemma column_in_span:
  assumes "x \<le> c" "c < x + w"
  shows "x div 8 \<le> c div 8 \<and> c div 8 < x div 8 + span_bytes x w"
proof
  show "x div 8 \<le> c div 8" using assms by (intro zdiv_mono1) simp_all
  have "c div 8 < (x + w + 7) div 8" using assms by presburger
  then show "c div 8 < x div 8 + span_bytes x w" by (simp add: span_bytes_def)
qed

lemma span_mask_column:
  assumes x: "0 \<le> x" "0 < w" and c: "x div 8 \<le> c div 8" "c div 8 < x div 8 + span_bytes x w"
  shows "bit (unit_mask (dest_masks (x mod 8) w) (span_bytes x w) (c div 8 - x div 8)) (7 - nat (c mod 8))
         \<longleftrightarrow> \<not> (x \<le> c \<and> c < x + w)"
proof -
  define a b cr xr where v: "a = c div 8" "b = x div 8" "cr = c mod 8" "xr = x mod 8"
  have e: "c = 8 * a + cr" "x = 8 * b + xr" and r: "0 \<le> cr" "cr < 8" by (simp_all add: v)
  have "xr \<le> 8 * (a - b) + cr \<and> 8 * (a - b) + cr < xr + w \<longleftrightarrow> x \<le> c \<and> c < x + w"
    using e by auto
  then show ?thesis
    using span_mask [OF x r, of "a - b"] c unfolding v by simp
qed

lemma pattern_data_nonempty: "pattern_data p = Some data \<Longrightarrow> data \<noteq> []"
  by (cases p) (auto simp: pattern_data_def)

lemma box_fits_column:
  "box_fits x y w h base units \<Longrightarrow> 0 \<le> c \<Longrightarrow> c < 8 * units \<Longrightarrow>
     in_block (base + y * units + x div 8) units h (span_bytes x w) (base + r * units + c div 8) \<longleftrightarrow>
     y \<le> r \<and> r < y + h \<and> x div 8 \<le> c div 8 \<and> c div 8 < x div 8 + span_bytes x w"
  by (rule in_block_coord) (use box_fits_span in \<open>auto simp: box_fits_def\<close>)

lemma patternfill_mono:
  assumes box: "box_fits x y w h base units" and d: "pattern_data (gP_Index g) = Some data"
    and f: "faithful_mode (gMode g)" and c: "0 \<le> c" "c < 8 * units"
  shows "mono (patternfill x y w h base units g) base units r c =
    (if x \<le> c \<and> c < x + w \<and> y \<le> r \<and> r < y + h
     then rop (gMode g) (bit (data ! nat (r mod int (length data))) (7 - nat (c mod 8)))
            (mono g base units r c)
     else mono g base units r c)"
    and "oob (patternfill x y w h base units g) = oob g"
proof -
  have b: "0 \<le> x" "0 < w" "0 \<le> y" "0 \<le> h" using box by (simp_all add: box_fits_def)
  have fits: "block_fits (base + y * units + x div 8) units (int (nat h)) (span_bytes x w)"
    using box_block_fits [OF box] b by simp
  note ne = pattern_data_nonempty [OF d]
  note frame = fill_rows_frame [OF fits b(3) ne, of "dest_masks (x mod 8) w" g]
  show "oob (patternfill x y w h base units g) = oob g"
    using frame by (simp add: patternfill_eq [OF box d])
  let ?A = "base + r * units + c div 8"
  let ?in = "in_block (base + y * units + x div 8) units h (span_bytes x w) ?A"
  show "mono (patternfill x y w h base units g) base units r c =
    (if x \<le> c \<and> c < x + w \<and> y \<le> r \<and> r < y + h
     then rop (gMode g) (bit (data ! nat (r mod int (length data))) (7 - nat (c mod 8)))
            (mono g base units r c)
     else mono g base units r c)"
  proof (cases ?in)
    case False
    then have "\<not> (x \<le> c \<and> c < x + w \<and> y \<le> r \<and> r < y + h)"
      using box_fits_column [OF box c, of r] column_in_span [of x c w] by auto
    then show ?thesis using frame [of ?A] False b
      by (auto simp: mono_def patternfill_eq [OF box d])
  next
    case True
    then have rc: "y \<le> r" "r < y + h" "x div 8 \<le> c div 8" "c div 8 < x div 8 + span_bytes x w"
      using box_fits_column [OF box c, of r] by auto
    have a: "base + y * units + x div 8 + (r - y) * units + (c div 8 - x div 8) = ?A"
      by (simp add: algebra_simps)
    have "fb (patternfill x y w h base units g) ?A =
        masked (unit_mask (dest_masks (x mod 8) w) (span_bytes x w) (c div 8 - x div 8))
          (combine (gMode g) (data ! nat (r mod int (length data))) (fb g ?A)) (fb g ?A)"
      using fill_rows_hit [OF fits b(3) ne, of "r - y" "c div 8 - x div 8"] rc b
      unfolding a by (simp add: patternfill_eq [OF box d])
    then show ?thesis
      using span_mask_column [OF b(1,2) rc(3,4)] rc f
      by (auto simp: mono_def bit_masked bit_combine)
  qed
qed

text \<open>
  C12: \<open>patternfill\<close> combines, for every copy mode whose combination is implemented, exactly the
  bits of the box with the pattern row \<open>r mod height\<close> by the mode's boolean function; every other
  bit of the bitmap keeps its value and no access leaves the frame buffer.
\<close>
theorem patternfill_combines_box:
  assumes "box_fits x y w h base units" "pattern_data (gP_Index g) = Some data"
    and "faithful_mode (gMode g)" "0 \<le> c" "c < 8 * units"
  shows "mono (patternfill x y w h base units g) base units r c =
    (if x \<le> c \<and> c < x + w \<and> y \<le> r \<and> r < y + h
     then rop (gMode g) (bit (data ! nat (r mod int (length data))) (7 - nat (c mod 8)))
            (mono g base units r c)
     else mono g base units r c) \<and> oob (patternfill x y w h base units g) = oob g"
  using patternfill_mono [OF assms] by blast

theorem patternfill_combines_box_witness:
  "mono (patternfill 3 1 10 4 0 30 (setfillpattern DarkGreyPattern gfx_init)) 0 30 2 5 \<and>
   \<not> mono (patternfill 3 1 10 4 0 30 (setfillpattern DarkGreyPattern gfx_init)) 0 30 2 13"
proof -
  let ?g = "setfillpattern DarkGreyPattern gfx_init"
  have h: "box_fits 3 1 10 4 0 30" "faithful_mode (gMode ?g)"
    "pattern_data (gP_Index ?g) = Some [0x55, 0xcc]"
    by (simp_all add: box_fits_def fb_bytes_val setfillpattern_def gfx_init_def pattern_data_def
        faithful_mode_def)
  show ?thesis
    using patternfill_combines_box [OF h(1,3,2), of 5 2] patternfill_combines_box [OF h(1,3,2), of 13 2]
    by (simp add: mono_def setfillpattern_def gfx_init_def rop_def)
qed

section \<open>fillrect on the display\<close>

lemma clip_screen_inside:
  assumes "0 \<le> x" "0 \<le> y" "0 \<le> w" "w \<le> screen_width" "0 \<le> h" "h \<le> screen_height"
  shows "clip_screen x y w h = (x, y, w, h)"
  using assms by (simp add: clip_screen_def Let_def)

lemma fillrect_inside:
  assumes "0 \<le> x1" "x1 < x2" "x2 \<le> screen_width" "0 \<le> y1" "y1 \<le> y2" "y2 \<le> screen_height"
  shows "fillrect x1 y1 x2 y2 g = patternfill x1 y1 (x2 - x1) (y2 - y1) 0 30 g"
    and "box_fits x1 y1 (x2 - x1) (y2 - y1) 0 30"
  using assms by (simp_all add: fillrect_def s16_id clip_screen_inside box_fits_def fb_bytes_val)

lemma patternfill_beyond:
  assumes box: "box_fits x y w h base units" and d: "pattern_data (gP_Index g) = Some data"
    and a: "base + (y + h) * units \<le> a"
  shows "fb (patternfill x y w h base units g) a = fb g a"
proof -
  have b: "0 \<le> h" "0 \<le> y" using box by (simp_all add: box_fits_def)
  have "\<not> in_block (base + y * units + x div 8) units h (span_bytes x w) a"
  proof
    assume "in_block (base + y * units + x div 8) units h (span_bytes x w) a"
    then obtain k where k: "k < h" "a < base + y * units + x div 8 + k * units + span_bytes x w"
      by (auto simp: in_block_def)
    have "k * units + units \<le> h * units"
      using k box_fits_span(3) [OF box] mult_right_mono [of "k + 1" h units]
      by (simp add: algebra_simps)
    with k a box_fits_span(2) [OF box] show False by (simp add: algebra_simps)
  qed
  then show ?thesis
    using fill_rows_frame [OF _ b(2) pattern_data_nonempty [OF d], of _ units "nat h"] b
      box_block_fits [OF box] by (simp add: patternfill_eq [OF box d])
qed

lemma beyond_packed: "on_screen p \<Longrightarrow> 20 \<le> snd p \<Longrightarrow> 9600 \<le> pix_addr p"
  by (simp add: on_screen_def pix_addr_def)

text \<open>
  \<open>fillrect\<close> still addresses the screen at one bit per pixel: for a box inside the display it
  changes no pixel below display row 19, so a box drawn at row 20 or lower stays invisible.
\<close>
theorem fillrect_misses_low_rows:
  assumes b: "0 \<le> x1" "x1 < x2" "x2 \<le> screen_width" "0 \<le> y1" "y1 \<le> y2" "y2 \<le> screen_height"
    and d: "gP_Index g \<noteq> InvalidPattern" and p: "on_screen p" "20 \<le> snd p"
  shows "pixel (fillrect x1 y1 x2 y2 g) p = pixel g p"
proof -
  obtain data where "pattern_data (gP_Index g) = Some data"
    using d by (cases "gP_Index g") (simp_all add: pattern_data_def)
  then show ?thesis
    using patternfill_beyond [OF fillrect_inside(2) [OF b], of g data] beyond_packed [OF p] b
    by (simp add: fillrect_inside(1) [OF b] pixel_def)
qed

theorem fillrect_misses_low_rows_witness:
  "pixel (fillrect 100 100 200 200 gfx_init) (150, 150) = (0, 0)"
proof -
  have "gP_Index gfx_init \<noteq> InvalidPattern" "on_screen (150, 150)"
    by (simp_all add: gfx_init_def on_screen_def)
  with fillrect_misses_low_rows [of 100 200 100 200 gfx_init "(150, 150)"] show ?thesis
    by (simp add: gfx_init_def pixel_def)
qed

section \<open>The limits of clip_screen\<close>

text \<open>
  Whatever box is given, \<open>clip_screen\<close> returns a corner that is not negative and a size
  between zero and the size of the screen.
\<close>
theorem clip_screen_bounds:
  "case clip_screen x y w h of (x', y', w', h') \<Rightarrow>
     0 \<le> x' \<and> 0 \<le> y' \<and> 0 \<le> w' \<and> w' \<le> screen_width \<and> 0 \<le> h' \<and> h' \<le> screen_height"
  by (simp add: clip_screen_def Let_def split_def)

text \<open>
  It is no intersection with the screen: a box that starts left of the screen grows by the part
  that was cut (\<open>in_w -= in_x\<close> with a negative \<open>in_x\<close>), and a box that starts inside and ends
  right of the screen is not cut at all.
\<close>
lemma clip_screen_grows:
  assumes "0 < k" "0 \<le> w" "w + k \<le> screen_width" "0 \<le> y" "0 \<le> h" "h \<le> screen_height"
  shows "clip_screen (- k) y w h = (0, y, w + k, h)"
  using assms by (simp add: clip_screen_def Let_def s16_id)

lemma clip_screen_keeps_right_edge: "clip_screen 200 0 100 10 = (200, 0, 100, 10)"
  by (simp add: clip_screen_inside)

end
