(* ===== verification/Gfx_Image.thy ===== *)
theory Gfx_Image
  imports Gfx_Fill
begin

text \<open>
  The bitmap routines of \<open>graphic.c\<close>: clearing, \<open>draw_xbm\<close>, \<open>draw_bmp\<close>, \<open>my_draw_bmp\<close>, the
  colour bitmaps and the BMP file viewer \<open>ShowBMP\<close>/\<open>ShowBuf\<close>.  A caller's image is a byte list,
  read through \<open>rd_src\<close>; a read past its end sets \<open>oob\<close>.
\<close>

section \<open>Sixteen-bit pixels\<close>

type_synonym u16w = "16 word"

text \<open>\<open>*(unsigned short* )(screen_ptr + a) = v\<close> on the little-endian target.\<close>

definition put16 :: "int \<Rightarrow> u16w \<Rightarrow> gfx \<Rightarrow> gfx" where
  "put16 a v g = poke (a + 1) (ucast (drop_bit 8 v)) (poke a (ucast v) g)"

definition bytes16 :: "u16w \<Rightarrow> u8 \<times> u8" where
  "bytes16 v = (ucast v, ucast (drop_bit 8 v))"

definition rd16 :: "u8 list \<Rightarrow> int \<Rightarrow> gfx \<Rightarrow> u16w \<times> gfx" where
  "rd16 buf a g = (let (lo, g) = rd_src buf a g; (hi, g) = rd_src buf (a + 1) g
                   in (ucast lo OR push_bit 8 (ucast hi), g))"

section \<open>Clearing\<close>

definition XY_clearscreen :: "int \<Rightarrow> int \<Rightarrow> int \<Rightarrow> int \<Rightarrow> gfx \<Rightarrow> gfx" where
  "XY_clearscreen x1 y1 x2 y2 g =
     (let h_y = u16 (y2 - y1 + 1); w_x = u16 (x2 - x1 + 1)
      in fb_memset (240 * 2 * y1 + 2 * x1) 0 (h_y * w_x * 2) g)"

definition clearscreen :: "gfx \<Rightarrow> gfx" where
  "clearscreen g = fb_memset 0 0 (screen_width * screen_height * 2) g"

definition clearscreen_white :: "gfx \<Rightarrow> gfx" where
  "clearscreen_white g = fb_memset 0 0xff (screen_width * screen_height * 2) g"

section \<open>Monochrome bitmaps\<close>

definition masktab :: "u8 list" where
  "masktab = [0x80, 0x40, 0x20, 0x10, 0x08, 0x04, 0x02, 0x01]"

definition xbm_byte :: "u8 \<Rightarrow> u8" where
  "xbm_byte b = for_up 0 8 (\<lambda>m d. if b AND masktab ! nat m \<noteq> 0 then d OR masktab ! nat (7 - m) else d) 0"

text \<open>The row and column loops of \<open>draw_xbm\<close>; the flag says that the code has returned.\<close>

definition xbm_cell :: "u8 list \<Rightarrow> int \<Rightarrow> int \<Rightarrow> int \<Rightarrow> bool \<times> gfx \<Rightarrow> bool \<times> gfx" where
  "xbm_cell bits off k j st =
     (if fst st then st
      else let (b, g) = rd_src bits (k + j) (snd st); t = s16 (k + j)
           in if t + off \<ge> 3200 then (True, g) else (False, poke (off + t) (xbm_byte b) g))"

definition draw_xbm :: "int \<Rightarrow> int \<Rightarrow> int \<Rightarrow> int \<Rightarrow> u8 list \<Rightarrow> gfx \<Rightarrow> gfx" where
  "draw_xbm sx sy width height bits g =
     (let width = width div 8; wid = screen_width div 8;
          off = s16 ((sy * screen_width + sx) div 8)
      in snd (snd (for_up 0 height
           (\<lambda>i (k, st). (s16 (k + wid), for_while 0 width (\<lambda>j. j < 20) (xbm_cell bits off k) st))
           (0, (False, g)))))"

definition draw_bmp :: "int \<Rightarrow> int \<Rightarrow> int \<Rightarrow> int \<Rightarrow> u8 list \<Rightarrow> u16w \<Rightarrow> u16w \<Rightarrow> gfx \<Rightarrow> gfx" where
  "draw_bmp sx sy rwidth height bits color groundcolor g =
     (let loc = sx * 2 + sy * 240 * 2
      in for_up 0 height (\<lambda>j. for_up 0 rwidth (\<lambda>k. for_up 0 8 (\<lambda>i g.
           let (b, g) = rd_src bits (j * rwidth + k) g
           in if b AND masktab ! nat i \<noteq> 0
              then put16 (loc + j * 240 * 2 + k * 16 + i * 2) color g
              else put16 (loc + j * 240 * 2 + k * 16 + i * 2) groundcolor g))) g)"

definition my_draw_bmp :: "int \<Rightarrow> int \<Rightarrow> int \<Rightarrow> int \<Rightarrow> u8 list \<Rightarrow> gfx \<Rightarrow> gfx" where
  "my_draw_bmp x y width height bits g =
     (let aver_size = (width + 31) div 32 * 4
      in for_while 0 height (\<lambda>j. y + j < 320 \<and> y + j \<ge> 0) (\<lambda>j.
           for_while 0 width (\<lambda>i. x + i < 240 \<and> x + i \<ge> 0) (\<lambda>i g.
             let (b, g) = rd_src bits (j * aver_size + i div 8) g;
                 a = (y + j) * 240 * 2 + 2 * (i + x)
             in if b AND masktab ! nat (i mod 8) \<noteq> 0 then poke (a + 1) 0 (poke a 0 g)
                else poke (a + 1) 0xff (poke a 0xff g))) g)"

section \<open>Colour bitmaps\<close>

definition color_dot_bmp :: "int \<Rightarrow> int \<Rightarrow> u8 list \<Rightarrow> gfx \<Rightarrow> gfx" where
  "color_dot_bmp x y buf g =
     (if y > 0 \<and> y < 320 \<and> x > 0 \<and> x < 240
      then let (b0, g) = rd_src buf 0 g; g = poke (y * 240 * 2 + 2 * x) b0 g;
               (b1, g) = rd_src buf 1 g
           in poke (y * 240 * 2 + 2 * x + 1) b1 g
      else g)"

definition from_555 :: "u16w \<Rightarrow> u16w" where
  "from_555 tmp =
     (let red = push_bit 1 (tmp AND 0x7c00); green = push_bit 1 (tmp AND 0x03e0)
      in (tmp AND 0x001f) OR (red OR green))"

definition color_555_draw_bmp :: "int \<Rightarrow> int \<Rightarrow> int \<Rightarrow> int \<Rightarrow> u8 list \<Rightarrow> gfx \<Rightarrow> gfx" where
  "color_555_draw_bmp x y width height buf g =
     for_while y 320 (\<lambda>j. j - y < height) (\<lambda>j.
       for_while x 240 (\<lambda>i. i - x < width) (\<lambda>i g.
         let (tmp, g) = rd16 buf ((j - y) * width * 2 + (i - x) * 2) g
         in put16 (j * 240 * 2 + 2 * i) (from_555 tmp) g)) g"

definition color_565_draw_bmp :: "int \<Rightarrow> int \<Rightarrow> int \<Rightarrow> int \<Rightarrow> u8 list \<Rightarrow> gfx \<Rightarrow> gfx" where
  "color_565_draw_bmp x y width height buf g =
     for_while y 320 (\<lambda>j. j - y < height) (\<lambda>j.
       for_while x 240 (\<lambda>i. i - x < width) (\<lambda>i g.
         let (tmp, g) = rd16 buf ((j - y) * width * 2 + (i - x) * 2) g
         in put16 (j * 240 * 2 + 2 * i) tmp g)) g"

definition testbmp :: "gfx \<Rightarrow> gfx" where
  "testbmp g = for_up 0 160 (\<lambda>j. for_up 0 240 (\<lambda>i g.
     poke (j * 240 * 2 + 2 * i + 1) 0x40 (poke (j * 240 * 2 + 2 * i) 0 g))) g"

section \<open>The BMP viewer\<close>

text \<open>
  The file header from offset 2, as \<open>BMPHEAD\<close> receives it: the fields the viewer reads.  The
  contents of \<open>malloc\<close>ed memory and of header bytes a short file does not supply are the
  parameter \<open>junk\<close>; \<open>malloc\<close> itself succeeds.  Sizes beyond 31 bits are undefined in the code
  and set \<open>oob\<close>.
\<close>

record BMPHEAD =
  biWidth :: int
  biHeight :: int
  biBitCount :: int

definition fread_at :: "u8 list \<Rightarrow> nat \<Rightarrow> nat \<Rightarrow> (nat \<Rightarrow> u8) \<Rightarrow> u8 list" where
  "fread_at file pos n junk = map (\<lambda>i. if pos + i < length file then file ! (pos + i) else junk i) [0..<n]"

definition le16 :: "u8 list \<Rightarrow> nat \<Rightarrow> int" where
  "le16 b i = s16 (uint (b ! i) + 256 * uint (b ! (i + 1)))"

definition le32 :: "u8 list \<Rightarrow> nat \<Rightarrow> int" where
  "le32 b i = uint (b ! i) + 256 * uint (b ! (i + 1)) + 65536 * uint (b ! (i + 2)) + 16777216 * sint (b ! (i + 3))"

definition bmp_head :: "u8 list \<Rightarrow> BMPHEAD" where
  "bmp_head h = \<lparr>biWidth = le32 h 16, biHeight = le32 h 20, biBitCount = le16 h 26\<rparr>"

definition swap_bytes :: "int \<Rightarrow> int \<Rightarrow> u8 list \<Rightarrow> u8 list" where
  "swap_bytes i j b = b[nat i := b ! nat j, nat j := b ! nat i]"

text \<open>
  The loop that turns the bottom-up rows around: row \<open>i\<close> begins at \<open>i * stride\<close>, its partner is
  found \<open>rowlen\<close> bytes before the end of what is left.
\<close>

definition flip_rows :: "int \<Rightarrow> int \<Rightarrow> int \<Rightarrow> int \<Rightarrow> u8 list \<Rightarrow> u8 list" where
  "flip_rows height stride rowlen sz b =
     for_up 0 (height div 2) (\<lambda>i. for_up 0 rowlen (\<lambda>j.
       swap_bytes (i * stride + j) (sz - i * stride - rowlen + j))) b"

text \<open>
  \<open>red = ((float)b)/255*31+0.5\<close> truncated: the exact value differs from every integer by at
  least 1/510, far beyond the rounding error of a \<open>float\<close> or \<open>double\<close>.
\<close>

definition scale_channel :: "int \<Rightarrow> u8 \<Rightarrow> int" where
  "scale_channel full b = (2 * full * uint b + 255) div 510"

definition pack_565 :: "u8 \<Rightarrow> u8 \<Rightarrow> u8 \<Rightarrow> u16w" where
  "pack_565 b g r = push_bit 11 (word_of_int (scale_channel 31 r)) OR
     push_bit 5 (word_of_int (scale_channel 63 g)) OR word_of_int (scale_channel 31 b)"

definition to_565 :: "int \<Rightarrow> int \<Rightarrow> u8 list \<Rightarrow> u8 list" where
  "to_565 width height buf =
     concat (map (\<lambda>i. concat (map (\<lambda>j.
       let k = nat (int i * ((width * 3 + 3) div 4 * 4)) + j * 3;
           v = pack_565 (buf ! k) (buf ! (k + 1)) (buf ! (k + 2))
       in [ucast v, ucast (drop_bit 8 v)]) [0..<nat width])) [0..<nat height])"

definition show_image :: "BMPHEAD \<Rightarrow> (nat \<Rightarrow> nat \<Rightarrow> u8 list) \<Rightarrow> int \<Rightarrow> int \<Rightarrow> gfx \<Rightarrow> gfx" where
  "show_image hdr data x y g =
     (let w = biWidth hdr; h = biHeight hdr in
      if biBitCount hdr \<noteq> 1 \<and> biBitCount hdr \<noteq> 16 \<and> biBitCount hdr \<noteq> 24 then g
      else if w < 0 \<or> h < 0 \<or> (3 * w + 32) * (h + 1) \<ge> 2 ^ 31 then fault g
      else if biBitCount hdr = 1 then
        let aver_size = (w + 15) div 16 * 2; sz = aver_size * h;
            buf = flip_rows h aver_size aver_size sz (data 62 (nat sz))
        in my_draw_bmp x y (u16 w) (u16 h) (map (\<lambda>b. b XOR 0xff) buf) g
      else if biBitCount hdr = 16 then
        let sz = w * h * 2;
            buf = flip_rows h (w * 2) (w * 2) sz (data 54 (nat sz))
        in color_555_draw_bmp x y (u16 w) (u16 h) buf g
      else
        let sz = h * ((w * 3 + 3) div 4 * 4);
            buf = flip_rows h ((w * 3 + 3) div 4 * 4) (w * 3) sz (data 54 (nat sz))
        in color_565_draw_bmp x y (u16 w) (u16 h) (to_565 w h buf) g)"

text \<open>\<open>ShowBMP\<close> reads a file (\<open>None\<close>: it cannot be opened), \<open>ShowBuf\<close> a buffer in memory.\<close>

definition ShowBMP :: "u8 list option \<Rightarrow> (nat \<Rightarrow> u8) \<Rightarrow> int \<Rightarrow> int \<Rightarrow> gfx \<Rightarrow> gfx" where
  "ShowBMP file junk x y g = (case file of None \<Rightarrow> g
     | Some f \<Rightarrow> show_image (bmp_head (fread_at f 2 52 junk)) (\<lambda>pos n. fread_at f pos n junk) x y g)"

definition ShowBuf :: "u8 list \<Rightarrow> int \<Rightarrow> int \<Rightarrow> gfx \<Rightarrow> gfx" where
  "ShowBuf Buf x y g =
     (let rd = (\<lambda>pos n. fread_at Buf pos n (\<lambda>_. 0)); hdr = bmp_head (rd 2 52);
          w = biWidth hdr; h = biHeight hdr;
          need = (if biBitCount hdr = 1 then 62 + (w + 15) div 16 * 2 * h
                  else if biBitCount hdr = 16 then 54 + w * h * 2
                  else if biBitCount hdr = 24 then 54 + h * ((w * 3 + 3) div 4 * 4) else 54)
      in show_image hdr rd x y (if int (length Buf) < max 54 need then fault g else g))"

section \<open>Pixels written by the 16-bit store\<close>

lemma put16_frame [frame_simps]:
  "gMode (put16 a v g) = gMode g" "gColor (put16 a v g) = gColor g"
  "gP_Index (put16 a v g) = gP_Index g"
  by (simp_all add: put16_def frame_simps)

lemma oob_put16: "0 \<le> a \<Longrightarrow> a + 1 < fb_bytes \<Longrightarrow> oob (put16 a v g) = oob g"
  by (simp add: put16_def oob_poke)

lemma poke2_pixel:
  assumes p: "on_screen p" and q: "on_screen q"
  shows "pixel (poke (pix_addr q + 1) b1 (poke (pix_addr q) b0 g)) p = (if p = q then (b0, b1) else pixel g p)"
    and "oob (poke (pix_addr q + 1) b1 (poke (pix_addr q) b0 g)) = oob g"
proof -
  note q' = pix_addr_bounds [OF q]
  show "oob (poke (pix_addr q + 1) b1 (poke (pix_addr q) b0 g)) = oob g"
    using q' by (simp add: oob_poke)
  show "pixel (poke (pix_addr q + 1) b1 (poke (pix_addr q) b0 g)) p = (if p = q then (b0, b1) else pixel g p)"
  proof (cases "p = q")
    case True
    then show ?thesis using q' by (simp add: pixel_def fb_poke)
  next
    case False
    with p q have "pix_addr p \<noteq> pix_addr q" using pix_addr_inj by blast
    moreover have "pix_addr p \<noteq> pix_addr q + 1" "pix_addr p + 1 \<noteq> pix_addr q"
      using pix_addr_even [of p] pix_addr_even [of q] by presburger+
    ultimately show ?thesis using q' False by (simp add: pixel_def fb_poke)
  qed
qed

lemma put16_pixel:
  assumes "on_screen p" "on_screen q"
  shows "pixel (put16 (pix_addr q) v g) p = (if p = q then bytes16 v else pixel g p)"
    and "oob (put16 (pix_addr q) v g) = oob g"
  using poke2_pixel [OF assms] by (simp_all add: put16_def bytes16_def)

section \<open>Loops that paint\<close>

text \<open>
  The effect of a counting loop on one pixel: if round \<open>k\<close> alone gives the pixel the value \<open>v\<close>,
  the loop does so when \<open>k\<close> is among its rounds.
\<close>

lemma for_up_paint:
  assumes "\<And>i g. lo \<le> i \<Longrightarrow> i < hi \<Longrightarrow>
      pixel (F i g) p = (if A \<and> i = k then v else pixel g p) \<and> oob (F i g) = oob g"
  shows "pixel (for_up lo hi F g) p = (if A \<and> lo \<le> k \<and> k < hi then v else pixel g p) \<and>
         oob (for_up lo hi F g) = oob g"
proof (cases "lo \<le> hi")
  case True
  have "pixel (for_up lo hi F g) p = (if A \<and> lo \<le> k \<and> k < hi then v else pixel g p) \<and>
      oob (for_up lo hi F g) = oob g"
    by (rule for_up_inv [OF True, where P = "\<lambda>i s. pixel s p =
          (if A \<and> lo \<le> k \<and> k < i then v else pixel g p) \<and> oob s = oob g"])
       (use assms in auto)
  then show ?thesis .
qed (auto simp: for_up_stop)

lemma masktab_bit:
  assumes "0 \<le> i" "i < 8"
  shows "b AND masktab ! nat i \<noteq> 0 \<longleftrightarrow> bit b (7 - nat i)"
proof -
  have m: "masktab ! nat i = push_bit (7 - nat i) 1"
  proof -
    have "nat i \<in> {0, 1, 2, 3, 4, 5, 6, 7}" using assms by auto
    then show ?thesis by (auto simp: masktab_def)
  qed
  show ?thesis
    unfolding m using assms
    by (auto simp: bit_eq_iff [of _ 0] bit_simps possible_bit_word)
qed

text \<open>Pixel \<open>(c, r)\<close> of a monochrome image with \<open>stride\<close> bytes a row.\<close>

definition image_bit :: "u8 list \<Rightarrow> int \<Rightarrow> int \<Rightarrow> int \<Rightarrow> bool" where
  "image_bit bits stride c r = bit (bits ! nat (r * stride + c div 8)) (7 - nat (c mod 8))"

lemma rd_src_in: "0 \<le> i \<Longrightarrow> i < int (length src) \<Longrightarrow> rd_src src i g = (src ! nat i, g)"
  by (simp add: rd_src_def)

lemma row_in_image:
  assumes "0 \<le> r" "r < h" "0 \<le> c" "c < stride" "h * stride \<le> n"
  shows "0 \<le> r * stride + c" "r * stride + c < (n :: int)"
proof -
  have "(r + 1) * stride \<le> h * stride" using assms by (intro mult_right_mono) auto
  with assms show "r * stride + c < n" by (simp add: algebra_simps)
  show "0 \<le> r * stride + c" using assms by simp
qed

section \<open>my_draw_bmp\<close>

definition clip_len :: "int \<Rightarrow> int \<Rightarrow> int \<Rightarrow> int" where
  "clip_len x width lim = (if 0 \<le> x then max 0 (min width (lim - x)) else 0)"

lemma less_clip_len:
  "0 \<le> i \<Longrightarrow> i < clip_len x width lim \<longleftrightarrow> 0 \<le> x \<and> i < width \<and> x + i < lim"
  by (auto simp: clip_len_def)

lemma for_while_clip:
  assumes "0 \<le> width"
  shows "for_while 0 width (\<lambda>i. x + i < lim \<and> x + i \<ge> 0) f = for_up 0 (clip_len x width lim) f"
proof (rule ext, rule for_while_shorter)
  show "clip_len x width lim \<le> width" "0 \<le> clip_len x width lim"
    using assms by (simp_all add: clip_len_def)
  show "x + j < lim \<and> x + j \<ge> 0" if "0 \<le> j" "j < clip_len x width lim" for j
    using that less_clip_len [of j x width lim] by auto
  show "\<not> (x + clip_len x width lim < lim \<and> x + clip_len x width lim \<ge> 0)"
    if "clip_len x width lim < width"
    using that less_clip_len [of "clip_len x width lim" x width lim] \<open>0 \<le> clip_len x width lim\<close>
    by (cases "0 \<le> x") (auto simp: clip_len_def)
qed

lemma byte_in_row:
  fixes i w :: int
  assumes "0 \<le> i" "i < w"
  shows "i div 8 < (w + 31) div 32 * 4"
proof -
  have "(i + 32) div 32 \<le> (w + 31) div 32" using assms by (intro zdiv_mono1) simp_all
  then have n: "i div 32 + 1 \<le> (w + 31) div 32" by simp
  have "i < 32 * (i div 32) + 32" by (rule int_div_bounds) simp
  with n have "i < 8 * ((w + 31) div 32 * 4)" by linarith
  then show ?thesis using int_div_bounds(1) [of 8 i] by linarith
qed

lemma my_draw_bmp_pixel:
  assumes w: "0 \<le> width" "0 \<le> height" and len: "height * ((width + 31) div 32 * 4) \<le> int (length bits)"
    and p: "on_screen (px, py)"
  shows "pixel (my_draw_bmp x y width height bits g) (px, py) =
     (if 0 \<le> x \<and> 0 \<le> y \<and> x \<le> px \<and> px < x + width \<and> y \<le> py \<and> py < y + height
      then if image_bit bits ((width + 31) div 32 * 4) (px - x) (py - y) then (0, 0) else (0xff, 0xff)
      else pixel g (px, py)) \<and>
    oob (my_draw_bmp x y width height bits g) = oob g"
proof -
  let ?stride = "(width + 31) div 32 * 4"
  let ?v = "if image_bit bits ?stride (px - x) (py - y) then (0, 0) else (0xff, 0xff :: u8) :: u8 \<times> u8"
  let ?body = "\<lambda>j i g. let (b, g) = rd_src bits (j * ?stride + i div 8) g;
                 a = (y + j) * 240 * 2 + 2 * (i + x)
             in if b AND masktab ! nat (i mod 8) \<noteq> 0 then poke (a + 1) 0 (poke a 0 g)
                else poke (a + 1) 0xff (poke a 0xff g)"
  have outer: "my_draw_bmp x y width height bits g =
      for_up 0 (clip_len y height 320) (\<lambda>j. for_up 0 (clip_len x width 240) (?body j)) g" for g
    unfolding my_draw_bmp_def Let_def [of "(width + 31) div 32 * 4"]
    by (simp only: for_while_clip [OF w(1)] for_while_clip [OF w(2)])
  have cell: "pixel (?body j i g) (px, py) = (if (py - y = j) \<and> i = px - x then ?v else pixel g (px, py))
      \<and> oob (?body j i g) = oob g"
    if "0 \<le> j" "j < clip_len y height 320" "0 \<le> i" "i < clip_len x width 240" for j i g
  proof -
    have b: "0 \<le> x" "0 \<le> y" "i < width" "j < height" "on_screen (x + i, y + j)"
      using that less_clip_len [of j y height 320] less_clip_len [of i x width 240]
      by (auto simp: on_screen_def)
    have "i div 8 < ?stride" using that(3) b(3) by (rule byte_in_row)
    with row_in_image [of j height "i div 8" ?stride] that b len
    have rd: "rd_src bits (j * ?stride + i div 8) g = (bits ! nat (j * ?stride + i div 8), g)"
      by (intro rd_src_in) auto
    have a: "(y + j) * 240 * 2 + 2 * (i + x) = pix_addr (x + i, y + j)"
      by (simp add: pix_addr_def)
    show ?thesis
      unfolding rd Let_def prod.case a using poke2_pixel [OF p b(5)] masktab_bit [of "i mod 8"]
      by (auto simp: image_bit_def)
  qed
  have row: "pixel (for_up 0 (clip_len x width 240) (?body j) g) (px, py) =
      (if (0 \<le> px - x \<and> px - x < clip_len x width 240) \<and> j = py - y then ?v else pixel g (px, py))
      \<and> oob (for_up 0 (clip_len x width 240) (?body j) g) = oob g"
    if "0 \<le> j" "j < clip_len y height 320" for j g
    using for_up_paint [of 0 "clip_len x width 240" "?body j" "(px, py)" "py - y = j" "px - x" ?v g]
      cell [OF that] by auto
  show ?thesis
    unfolding outer
    using for_up_paint [of 0 "clip_len y height 320" _ "(px, py)"
        "0 \<le> px - x \<and> px - x < clip_len x width 240" "py - y" ?v g, OF row] p
      less_clip_len [of "py - y" y height 320] less_clip_len [of "px - x" x width 240]
    by (auto simp: on_screen_def)
qed

text \<open>
  C29: \<open>my_draw_bmp\<close> draws a monochrome image clipped to the display: for any position, a display
  pixel inside the image shows black for a set bit and white for a clear one, every other pixel
  keeps its value, and neither the image nor the frame buffer is accessed out of bounds.  An
  image that starts left of or above the display is not drawn at all.
\<close>
theorem my_draw_bmp_clips:
  assumes "0 \<le> width" "0 \<le> height" "height * ((width + 31) div 32 * 4) \<le> int (length bits)"
    and "on_screen (px, py)"
  shows "pixel (my_draw_bmp x y width height bits g) (px, py) =
     (if 0 \<le> x \<and> 0 \<le> y \<and> x \<le> px \<and> px < x + width \<and> y \<le> py \<and> py < y + height
      then if image_bit bits ((width + 31) div 32 * 4) (px - x) (py - y) then (0, 0) else (0xff, 0xff)
      else pixel g (px, py)) \<and>
    oob (my_draw_bmp x y width height bits g) = oob g"
  using assms by (rule my_draw_bmp_pixel)

theorem my_draw_bmp_clips_witness:
  "pixel (my_draw_bmp 236 0 9 1 [0x20, 0, 0, 0] gfx_init) (237, 0) = (0xff, 0xff) \<and>
   \<not> oob (my_draw_bmp 236 0 9 1 [0x20, 0, 0, 0] gfx_init)"
proof -
  have p: "on_screen (237, 0)" by (simp add: on_screen_def)
  show ?thesis
    using my_draw_bmp_clips [of 9 1 "[0x20, 0, 0, 0]" 237 0 236 0 gfx_init, OF _ _ _ p]
    by (simp add: image_bit_def gfx_init_def bit_numeral_rec)
qed

section \<open>draw_bmp inside the display\<close>

lemma bit8_index: "0 \<le> d \<Longrightarrow> d < 8 * n \<Longrightarrow> 0 \<le> d div 8 \<and> d div 8 < (n :: int)"
  using int_div_bounds [of 8 d] by simp

lemma draw_bmp_pixel:
  assumes box: "0 \<le> sx" "sx + 8 * rw \<le> 240" "0 \<le> sy" "sy + h \<le> 320"
    and w: "0 \<le> rw" "0 \<le> h" and len: "h * rw \<le> int (length bits)" and p: "on_screen (px, py)"
  shows "pixel (draw_bmp sx sy rw h bits color ground g) (px, py) =
     (if sx \<le> px \<and> px < sx + 8 * rw \<and> sy \<le> py \<and> py < sy + h
      then bytes16 (if image_bit bits rw (px - sx) (py - sy) then color else ground)
      else pixel g (px, py)) \<and>
    oob (draw_bmp sx sy rw h bits color ground g) = oob g"
proof -
  let ?v = "bytes16 (if image_bit bits rw (px - sx) (py - sy) then color else ground)"
  let ?B = "\<lambda>j k i g. let (b, g) = rd_src bits (j * rw + k) g
     in if b AND masktab ! nat i \<noteq> 0 then put16 (sx * 2 + sy * 240 * 2 + j * 240 * 2 + k * 16 + i * 2) color g
        else put16 (sx * 2 + sy * 240 * 2 + j * 240 * 2 + k * 16 + i * 2) ground g"
  define d where "d = px - sx"
  have px: "px = sx + d" and dd: "d = 8 * (d div 8) + d mod 8" by (simp_all add: d_def)
  have cell: "pixel (?B j k i g) (px, py) = (if (py - sy = j \<and> d div 8 = k) \<and> i = d mod 8 then ?v
      else pixel g (px, py)) \<and> oob (?B j k i g) = oob g"
    if "0 \<le> j" "j < h" "0 \<le> k" "k < rw" "0 \<le> i" "i < 8" for j k i g
  proof -
    have on: "on_screen (sx + (8 * k + i), sy + j)" using that box by (simp add: on_screen_def)
    have rd: "rd_src bits (j * rw + k) g = (bits ! nat (j * rw + k), g)"
      using row_in_image [of j h k rw] that len by (intro rd_src_in) auto
    have a: "sx * 2 + sy * 240 * 2 + j * 240 * 2 + k * 16 + i * 2 = pix_addr (sx + (8 * k + i), sy + j)"
      by (simp add: pix_addr_def)
    have q: "(px, py) = (sx + (8 * k + i), sy + j) \<longleftrightarrow> (py - sy = j \<and> d div 8 = k) \<and> i = d mod 8"
      using that px dd by auto
    have bit: "px = sx + (8 * k + i) \<Longrightarrow> py = sy + j \<Longrightarrow>
        image_bit bits rw (px - sx) (py - sy) = bit (bits ! nat (j * rw + k)) (7 - nat i)"
      using that by (simp add: image_bit_def)
    show ?thesis
      unfolding rd Let_def prod.case a masktab_bit [OF that(5,6)] q [symmetric]
    proof (cases "(px, py) = (sx + (8 * k + i), sy + j)")
      case True
      with bit have b: "image_bit bits rw (px - sx) (py - sy) = bit (bits ! nat (j * rw + k)) (7 - nat i)"
        by simp
      show "pixel (if bit (bits ! nat (j * rw + k)) (7 - nat i)
            then put16 (pix_addr (sx + (8 * k + i), sy + j)) color g
            else put16 (pix_addr (sx + (8 * k + i), sy + j)) ground g) (px, py) =
          (if (px, py) = (sx + (8 * k + i), sy + j) then ?v else pixel g (px, py)) \<and>
          oob (if bit (bits ! nat (j * rw + k)) (7 - nat i)
            then put16 (pix_addr (sx + (8 * k + i), sy + j)) color g
            else put16 (pix_addr (sx + (8 * k + i), sy + j)) ground g) = oob g"
        unfolding b using put16_pixel [OF p on] True by (simp only: if_True split: if_split) simp
    next
      case False
      then show "pixel (if bit (bits ! nat (j * rw + k)) (7 - nat i)
            then put16 (pix_addr (sx + (8 * k + i), sy + j)) color g
            else put16 (pix_addr (sx + (8 * k + i), sy + j)) ground g) (px, py) =
          (if (px, py) = (sx + (8 * k + i), sy + j) then ?v else pixel g (px, py)) \<and>
          oob (if bit (bits ! nat (j * rw + k)) (7 - nat i)
            then put16 (pix_addr (sx + (8 * k + i), sy + j)) color g
            else put16 (pix_addr (sx + (8 * k + i), sy + j)) ground g) = oob g"
        using put16_pixel [OF p on] by (simp only: if_False split: if_split) simp
    qed
  qed
  have byte: "pixel (for_up 0 8 (?B j k) g) (px, py) = (if py - sy = j \<and> k = d div 8 then ?v
      else pixel g (px, py)) \<and> oob (for_up 0 8 (?B j k) g) = oob g"
    if "0 \<le> j" "j < h" "0 \<le> k" "k < rw" for j k g
    using for_up_paint [of 0 8 "?B j k" "(px, py)" "py - sy = j \<and> d div 8 = k" "d mod 8" ?v g, OF cell]
      that by auto
  have row: "pixel (for_up 0 rw (\<lambda>k. for_up 0 8 (?B j k)) g) (px, py) =
      (if (0 \<le> d \<and> d < 8 * rw) \<and> j = py - sy then ?v else pixel g (px, py)) \<and>
      oob (for_up 0 rw (\<lambda>k. for_up 0 8 (?B j k)) g) = oob g"
    if "0 \<le> j" "j < h" for j g
  proof -
    have "0 \<le> d div 8 \<and> d div 8 < rw \<longleftrightarrow> 0 \<le> d \<and> d < 8 * rw"
      using int_div_bounds [of 8 d] by auto
    then show ?thesis
      using for_up_paint [of 0 rw "\<lambda>k. for_up 0 8 (?B j k)" "(px, py)" "py - sy = j" "d div 8" ?v g,
        OF byte [OF that]] by auto
  qed
  have "draw_bmp sx sy rw h bits color ground g = for_up 0 h (\<lambda>j. for_up 0 rw (\<lambda>k. for_up 0 8 (?B j k))) g"
    unfolding draw_bmp_def Let_def [of "sx * 2 + sy * 240 * 2"] by (rule refl)
  then show ?thesis
    using for_up_paint [of 0 h _ "(px, py)" "0 \<le> d \<and> d < 8 * rw" "py - sy" ?v g, OF row] p box
    by (auto simp: d_def)
qed

section \<open>Colour conversions\<close>

text \<open>The fields of a pixel, five bits each in the file and 5-6-5 on the display.\<close>

lemma field_mask:
  "(0x7c00 :: u16w) = push_bit 10 (mask 5)" "(0x03e0 :: u16w) = push_bit 5 (mask 5)"
  "(0x001f :: u16w) = mask 5"
  by (simp_all add: mask_eq_exp_minus_1 push_bit_eq_mult)

lemma from_555_bits:
  "bit (from_555 v) n \<longleftrightarrow> (n < 5 \<and> bit v n) \<or> (6 \<le> n \<and> n < 16 \<and> bit v (n - 1))"
  unfolding from_555_def Let_def field_mask bit_or_iff bit_and_iff bit_push_bit_iff bit_mask_iff
    possible_bit_word
  by (cases "n < 16") (auto dest: bit_imp_le_length)

text \<open>
  The conversion of a 5-5-5 pixel keeps every colour bit: red and green move up one place,
  blue stays, the new low green bit is clear, so the original 15 bits can be recovered.
\<close>
theorem from_555_lossless:
  "(drop_bit 1 (from_555 v) AND 0x7fe0) OR (from_555 v AND 0x1f) = v AND 0x7fff"
proof (rule bit_word_eqI)
  fix n :: nat
  assume "n < LENGTH(16)"
  then have "n \<in> {0, 1, 2, 3, 4, 5, 6, 7, 8, 9, 10, 11, 12, 13, 14, 15}" by (intro below16) simp
  then show "bit ((drop_bit 1 (from_555 v) AND 0x7fe0) OR (from_555 v AND 0x1f)) n = bit (v AND 0x7fff) n"
    by (auto simp: bit_or_iff bit_and_iff bit_drop_bit_eq comp_def bit_numeral_rec from_555_bits)
qed

text \<open>
  The scaling of an 8-bit channel to \<open>full\<close> + 1 levels is a rounding to the nearest level:
  the error is less than half a level.
\<close>
theorem scale_channel_nearest:
  assumes "0 \<le> full"
  shows "2 * \<bar>255 * scale_channel full b - full * uint b\<bar> \<le> 255 \<and>
    0 \<le> scale_channel full b \<and> scale_channel full b \<le> full"
proof -
  note b = uint8_bounds [of b]
  then have fb: "0 \<le> full * uint b" "full * uint b \<le> full * 255"
    using assms by (simp_all add: mult_left_mono)
  have m: "2 * full * uint b = 2 * (full * uint b)" by simp
  note d = int_div_bounds [of 510 "2 * full * uint b + 255", OF zero_less_numeral]
  have "2 * \<bar>255 * q - k\<bar> \<le> 255 \<and> 0 \<le> q \<and> q \<le> full"
    if "510 * q \<le> 2 * k + 255" "2 * k + 255 < 510 * q + 510" "0 \<le> k" "k \<le> full * 255" for q k
    using that by (auto simp: abs_if)
  then show ?thesis
    using d fb unfolding scale_channel_def m by blast
qed

theorem scale_channel_nearest_witness: "2 * \<bar>255 * scale_channel 31 200 - 31 * uint (200 :: u8)\<bar> \<le> 255"
  using scale_channel_nearest [of 31 200] by simp

section \<open>Turning a bottom-up bitmap around\<close>

text \<open>
  The rows and columns already exchanged when the loops stand at \<open>(i, j)\<close>, and the buffer then.
\<close>

definition flipped :: "int \<Rightarrow> int \<Rightarrow> int \<Rightarrow> int \<Rightarrow> int \<Rightarrow> bool" where
  "flipped h i j r c \<longleftrightarrow> r < i \<or> h - 1 - r < i \<or> ((r = i \<or> h - 1 - r = i) \<and> c < j)"

definition flip_state :: "int \<Rightarrow> int \<Rightarrow> u8 list \<Rightarrow> int \<Rightarrow> int \<Rightarrow> u8 list \<Rightarrow> bool" where
  "flip_state h s b i j b' \<longleftrightarrow> length b' = length b \<and>
     (\<forall>r c. 0 \<le> r \<and> r < h \<and> 0 \<le> c \<and> c < s \<longrightarrow>
        b' ! nat (r * s + c) = b ! nat ((if flipped h i j r c then h - 1 - r else r) * s + c))"

lemma flip_step:
  assumes st: "flip_state h s b i j b'" and len: "int (length b) = h * s"
    and i: "0 \<le> i" "i < h div 2" and j: "0 \<le> j" "j < s"
  shows "flip_state h s b i (j + 1) (swap_bytes (i * s + j) (h * s - i * s - s + j) b')"
proof -
  let ?k = "h - 1 - i"
  have hi: "i < ?k" "?k < h" using i by presburger+
  have B: "h * s - i * s - s + j = ?k * s + j" by (simp add: algebra_simps)
  have rng: "nat (r * s + c) < length b'" "0 \<le> r * s + c" if "0 \<le> r" "r < h" "0 \<le> c" "c < s" for r c
    using row_in_image [of r h c s "h * s"] that st len by (auto simp: flip_state_def nat_less_iff)
  have inj: "nat (r * s + c) = nat (r' * s + c') \<longleftrightarrow> r = r' \<and> c = c'"
    if "0 \<le> r" "r < h" "0 \<le> c" "c < s" "0 \<le> r'" "r' < h" "0 \<le> c'" "c' < s" for r c r' c'
    using same_row [of c s c' r r'] rng(2) [of r c] rng(2) [of r' c'] that by (auto simp: eq_nat_nat_iff)
  have A': "b' ! nat (i * s + j) = b ! nat (i * s + j)" "b' ! nat (?k * s + j) = b ! nat (?k * s + j)"
    using st hi i j by (auto simp: flip_state_def flipped_def)
  have "swap_bytes (i * s + j) (?k * s + j) b' ! nat (r * s + c) =
      b ! nat ((if flipped h i (j + 1) r c then h - 1 - r else r) * s + c)"
    if rc: "0 \<le> r" "r < h" "0 \<le> c" "c < s" for r c
  proof (cases "c = j \<and> (r = i \<or> r = ?k)")
    case True
    then show ?thesis
      using A' hi i j rng(1) [of i j] rng(1) [of ?k j] inj [of i j ?k j]
      by (auto simp: swap_bytes_def flipped_def nth_list_update)
  next
    case False
    then have "swap_bytes (i * s + j) (?k * s + j) b' ! nat (r * s + c) = b' ! nat (r * s + c)"
      using hi i j rc inj [of i j r c] inj [of ?k j r c] by (auto simp: swap_bytes_def nth_list_update)
    moreover have "flipped h i (j + 1) r c \<longleftrightarrow> flipped h i j r c"
      using False by (auto simp: flipped_def)
    ultimately show ?thesis using st rc by (simp add: flip_state_def)
  qed
  then show ?thesis using st unfolding B by (simp add: flip_state_def swap_bytes_def)
qed

lemma flip_rows_state:
  assumes len: "int (length b) = h * s" and h: "0 \<le> h" "0 \<le> s"
  shows "flip_state h s b (h div 2) 0 (flip_rows h s s (h * s) b)"
  unfolding flip_rows_def
proof (rule for_up_inv [where P = "\<lambda>i. flip_state h s b i 0"])
  show "0 \<le> h div 2" using h by simp
  show "flip_state h s b 0 0 b" by (simp add: flip_state_def flipped_def)
next
  fix i b' assume i: "0 \<le> i" "i < h div 2" and st: "flip_state h s b i 0 b'"
  have "flip_state h s b i s (for_up 0 s (\<lambda>j. swap_bytes (i * s + j) (h * s - i * s - s + j)) b')"
    by (rule for_up_inv [where P = "flip_state h s b i"]) (use st flip_step len h i in auto)
  moreover have "flipped h i s r c \<longleftrightarrow> flipped h (i + 1) 0 r c" if "0 \<le> c" "c < s" for r c
    using that by (auto simp: flipped_def)
  ultimately show "flip_state h s b (i + 1) 0
      (for_up 0 s (\<lambda>j. swap_bytes (i * s + j) (h * s - i * s - s + j)) b')"
    by (simp add: flip_state_def)
qed

text \<open>
  When the rows are as long as their stride, the exchange loop of the BMP viewer reverses the
  order of the rows and keeps each row as it is.
\<close>
theorem flip_rows_reverses:
  assumes "int (length b) = h * s" "0 \<le> r" "r < h" "0 \<le> c" "c < s"
  shows "flip_rows h s s (h * s) b ! nat (r * s + c) = b ! nat ((h - 1 - r) * s + c)"
proof -
  have "flip_state h s b (h div 2) 0 (flip_rows h s s (h * s) b)"
    using assms by (intro flip_rows_state) auto
  moreover have "flipped h (h div 2) 0 r c \<or> h - 1 - r = r"
    by (auto simp: flipped_def)
  ultimately show ?thesis using assms by (auto simp: flip_state_def)
qed

theorem flip_rows_reverses_witness: "flip_rows 3 2 2 6 [1, 2, 3, 4, 5, 6] ! 1 = 6"
  using flip_rows_reverses [of "[1, 2, 3, 4, 5, 6]" 3 2 0 1] by simp

text \<open>
  The 24-bit branch passes the unpadded row length with the padded stride; the partner row is
  then read from the wrong place unless the row needs no padding.  Two rows of one pixel each:
\<close>
lemma flip_rows_padded_skew:
  "flip_rows 2 4 3 8 [1, 2, 3, 0, 4, 5, 6, 0] = [5, 6, 0, 0, 4, 1, 2, 3]"
  by (simp add: flip_rows_def for_up_code swap_bytes_def)

section \<open>A 16-bit file on the display\<close>

lemma for_while_clip0:
  assumes "0 \<le> w" "0 \<le> lim"
  shows "for_while 0 lim (\<lambda>i. i - 0 < w) f = for_up 0 (min w lim) (f :: int \<Rightarrow> gfx \<Rightarrow> gfx)"
  using assms by (intro ext for_while_shorter) auto

lemma color_555_pixel:
  assumes w: "0 \<le> w" "0 \<le> h" and len: "h * (w * 2) \<le> int (length buf)" and p: "on_screen (px, py)"
  shows "pixel (color_555_draw_bmp 0 0 w h buf g) (px, py) =
     (if px < w \<and> py < h
      then bytes16 (from_555 (ucast (buf ! nat (py * (w * 2) + px * 2)) OR
        push_bit 8 (ucast (buf ! nat (py * (w * 2) + (px * 2 + 1))))))
      else pixel g (px, py)) \<and>
    oob (color_555_draw_bmp 0 0 w h buf g) = oob g"
proof -
  let ?V = "\<lambda>i j. from_555 (ucast (buf ! nat (j * (w * 2) + i * 2)) OR push_bit 8 (ucast (buf ! nat (j * (w * 2) + (i * 2 + 1)))))"
  let ?B = "\<lambda>j i g. let (tmp, g) = rd16 buf ((j - 0) * w * 2 + (i - 0) * 2) g in put16 (j * 240 * 2 + 2 * i) (from_555 tmp) g"
  have cell: "pixel (?B j i g) (px, py) = (if py = j \<and> i = px then bytes16 (?V px py) else pixel g (px, py)) \<and> oob (?B j i g) = oob g"
    if "0 \<le> j" "j < min h 320" "0 \<le> i" "i < min w 240" for j i g
  proof -
    have on: "on_screen (i, j)" using that by (simp add: on_screen_def)
    have a: "(j - 0) * w * 2 + (i - 0) * 2 = j * (w * 2) + i * 2" by simp
    have rd: "rd_src buf (j * (w * 2) + c) k = (buf ! nat (j * (w * 2) + c), k)" if "0 \<le> c" "c < w * 2" for c k
      using row_in_image [of j h c "w * 2"] that \<open>0 \<le> j\<close> \<open>j < min h 320\<close> len by (intro rd_src_in) auto
    have "rd16 buf ((j - 0) * w * 2 + (i - 0) * 2) g =
        (ucast (buf ! nat (j * (w * 2) + i * 2)) OR push_bit 8 (ucast (buf ! nat (j * (w * 2) + (i * 2 + 1)))), g)"
      using that rd [of "i * 2" g] rd [of "i * 2 + 1" g] unfolding rd16_def a by (simp add: add.assoc)
    then have "?B j i g = put16 (pix_addr (i, j)) (?V i j) g" by (simp add: pix_addr_def mult.commute add.commute)
    then show ?thesis using put16_pixel [OF p on] by auto
  qed
  have row: "pixel (for_up 0 (min w 240) (?B j) g) (px, py) =
      (if px < w \<and> j = py then bytes16 (?V px py) else pixel g (px, py)) \<and> oob (for_up 0 (min w 240) (?B j) g) = oob g"
    if "0 \<le> j" "j < min h 320" for j g
    using for_up_paint [of 0 "min w 240" "?B j" "(px, py)" "py = j" px "bytes16 (?V px py)" g, OF cell [OF that]] p
    by (auto simp: on_screen_def)
  have "color_555_draw_bmp 0 0 w h buf g = for_up 0 (min h 320) (\<lambda>j. for_up 0 (min w 240) (?B j)) g"
    unfolding color_555_draw_bmp_def using w by (simp only: for_while_clip0)
  then show ?thesis
    using for_up_paint [of 0 "min h 320" _ "(px, py)" "px < w" py "bytes16 (?V px py)" g, OF row] p
    by (auto simp: on_screen_def)
qed

text \<open>
  A complete BMP file with 16 bits a pixel, by the fields of its header, and what the display shows of the
  pixel in column \<open>c\<close> and row \<open>r\<close>, counted from the top: the rows of the file run from the bottom up.
\<close>

definition bmp16 :: "u8 list \<Rightarrow> int \<Rightarrow> int \<Rightarrow> bool" where
  "bmp16 f w h \<longleftrightarrow> 0 \<le> w \<and> w < 65536 \<and> 0 \<le> h \<and> h < 65536 \<and> le32 f 18 = w \<and> le32 f 22 = h \<and> le16 f 28 = 16 \<and>
     54 + h * (w * 2) \<le> int (length f)"

definition bmp16_pixel :: "u8 list \<Rightarrow> int \<Rightarrow> int \<Rightarrow> int \<Rightarrow> int \<Rightarrow> u8 \<times> u8" where
  "bmp16_pixel f w h c r = (let k = nat (54 + (h - 1 - r) * (w * 2) + c * 2)
     in bytes16 (from_555 (ucast (f ! k) OR push_bit 8 (ucast (f ! (k + 1))))))"

lemma fread_nth:
  assumes "pos + i < length f" "i < n"
  shows "fread_at f pos n junk ! i = f ! (pos + i)"
  using assms by (simp add: fread_at_def)

lemma bmp16_append: "bmp16 f w h \<Longrightarrow> bmp16 (f @ k) w h"
proof -
  assume f: "bmp16 f w h"
  then have "0 \<le> h * (w * 2)" by (simp add: bmp16_def)
  then have "54 \<le> int (length f)" using f unfolding bmp16_def by linarith
  then show ?thesis using f by (simp add: bmp16_def le32_def le16_def nth_append)
qed

lemma bmp16_pixel_append:
  assumes f: "bmp16 f w h" and p: "on_screen (c, r)" "c < w" "r < h"
  shows "bmp16_pixel (f @ k) w h c r = bmp16_pixel f w h c r"
proof -
  have "(h - 1 - r) * (w * 2) + (c * 2 + 1) < h * (w * 2)"
    using row_in_image [of "h - 1 - r" h "c * 2 + 1" "w * 2" "h * (w * 2)"] p by (auto simp: on_screen_def)
  moreover have "54 + h * (w * 2) \<le> int (length f)" "0 \<le> c" using f p by (simp_all add: bmp16_def on_screen_def)
  moreover have "0 \<le> (h - 1 - r) * (w * 2)" using f p by (simp add: bmp16_def)
  ultimately have "nat (54 + (h - 1 - r) * (w * 2) + c * 2) + 1 < length f" by linarith
  then show ?thesis by (simp add: bmp16_pixel_def nth_append Let_def)
qed

lemma ShowBuf_bmp16:
  assumes f: "bmp16 f w h" and len: "length f \<le> 21474838" and p: "on_screen (px, py)"
  shows "pixel (ShowBuf f 0 0 g) (px, py) = (if px < w \<and> py < h then bmp16_pixel f w h px py else pixel g (px, py)) \<and>
    oob (ShowBuf f 0 0 g) = oob g"
proof -
  define buf where "buf = fread_at f 54 (nat (w * h * 2)) (\<lambda>_. 0)"
  have wh: "0 \<le> w" "0 \<le> h" "w < 65536" "h < 65536" "0 \<le> w * h" "54 + w * h * 2 \<le> int (length f)"
    using f by (simp_all add: bmp16_def mult_ac)
  then have h54: "54 \<le> length f" by linarith
  have b: "int (length buf) = h * (w * 2)" using wh by (simp add: buf_def fread_at_def)
  have hd: "bmp_head (fread_at f 2 52 (\<lambda>_. 0)) = \<lparr>biWidth = w, biHeight = h, biBitCount = 16\<rparr>"
    using f h54 by (simp add: bmp_head_def bmp16_def le32_def le16_def fread_nth)
  have "(3 * w + 32) * (h + 1) = 3 * (w * h) + 3 * w + 32 * h + 32" by (simp add: algebra_simps)
  then have small: "\<not> (w < 0 \<or> h < 0 \<or> 2 ^ 31 \<le> (3 * w + 32) * (h + 1))" using wh len by simp
  have shown: "ShowBuf f 0 0 g = color_555_draw_bmp 0 0 w h (flip_rows h (w * 2) (w * 2) (h * (w * 2)) buf) g"
  proof -
    have sz: "w * h * 2 = h * (w * 2)" by simp
    have "\<not> int (length f) < max 54 (54 + h * (w * 2))" using h54 wh(6) unfolding sz by simp
    then show ?thesis
      using wh(1-4) small unfolding ShowBuf_def hd Let_def buf_def sz
      by (simp add: show_image_def u16_id del: mult.assoc) (simp add: sz Let_def)
  qed
  have fl: "length (flip_rows h (w * 2) (w * 2) (h * (w * 2)) buf) = length buf"
    using flip_rows_state [OF b] wh by (simp add: flip_state_def)
  have px: "flip_rows h (w * 2) (w * 2) (h * (w * 2)) buf ! nat (py * (w * 2) + c) =
      f ! nat (54 + (h - 1 - py) * (w * 2) + c)" if "py < h" "0 \<le> c" "c < w * 2" for c
  proof -
    have r: "0 \<le> (h - 1 - py) * (w * 2) + c" "(h - 1 - py) * (w * 2) + c < h * (w * 2)"
      using row_in_image [of "h - 1 - py" h c "w * 2" "h * (w * 2)"] that p by (auto simp: on_screen_def)
    have "flip_rows h (w * 2) (w * 2) (h * (w * 2)) buf ! nat (py * (w * 2) + c) = buf ! nat ((h - 1 - py) * (w * 2) + c)"
      using that p by (intro flip_rows_reverses [OF b]) (auto simp: on_screen_def)
    also have "\<dots> = f ! (54 + nat ((h - 1 - py) * (w * 2) + c))"
      unfolding buf_def using r wh by (intro fread_nth) (simp_all add: nat_less_iff mult_ac)
    also have "54 + nat ((h - 1 - py) * (w * 2) + c) = nat (54 + (h - 1 - py) * (w * 2) + c)"
      using r by (simp add: nat_add_distrib)
    finally show ?thesis .
  qed
  have "nat (54 + (h - 1 - py) * (w * 2) + (px * 2 + 1)) = nat (54 + (h - 1 - py) * (w * 2) + px * 2) + 1" if "py < h"
    using that wh p by (simp add: on_screen_def nat_add_distrib)
  then show ?thesis
    using color_555_pixel [OF wh(1,2) _ p, of "flip_rows h (w * 2) (w * 2) (h * (w * 2)) buf" g] px [of "px * 2"] px [of "px * 2 + 1"] p
    by (auto simp: shown fl b bmp16_pixel_def on_screen_def Let_def)
qed

end
