(* ===== verification/Gfx_Text.thy ===== *)
theory Gfx_Text
  imports Gfx_Image
begin

text \<open>
  Scrolling, text output and the life cycle of the drawing library.  The font files are
  parameters: \<open>hanzi\<close> is the content of the file \<open>C_Font\<close> reads, \<open>efont\<close> the array \<open>E_Font\<close>
  points to.
\<close>

section \<open>Scrolling\<close>

definition V_scroll_screen :: "int \<Rightarrow> gfx \<Rightarrow> gfx" where
  "V_scroll_screen height g =
     (let dir = height < 0; height = (if dir then s16 (- height) else height)
      in if height < screen_height
         then let nBytes = height * 240 * 2; nCount = 240 * 2 * (screen_height - height)
              in if dir then fb_memmove nBytes 0 nCount g else fb_memmove 0 nBytes nCount g
         else clearscreen g)"

text \<open>
  The unaligned branch of \<open>H_scroll_screen\<close> works on a copy in \<open>static unsigned char buf[3200]\<close>;
  the copy of \<open>nCount\<close> bytes overruns it, which sets \<open>oob\<close>.  The rows are then processed as if
  the array were long enough.
\<close>

definition mskr :: "u8 list" where "mskr = [0, 1, 3, 7, 0xf, 0x1f, 0x3f, 0x7f]"
definition mskl :: "u8 list" where "mskl = [0, 0x80, 0xc0, 0xe0, 0xf0, 0xf8, 0xfc, 0xfe]"

definition shift_row_left :: "int \<Rightarrow> nat \<Rightarrow> int \<Rightarrow> int \<Rightarrow> (int \<Rightarrow> u8) \<Rightarrow> int \<Rightarrow> u8" where
  "shift_row_left start len wid off buf =
     (let buf = fst (for_up 0 (wid - start) (\<lambda>t (buf, flag).
            let a = off + (wid - 1 - t); d = buf a; c = push_bit len d;
                c = (if flag \<noteq> 0 then c OR drop_bit (8 - len) flag else c)
            in (buf(a := c), d AND mskl ! len)) (buf, 0 :: u8))
      in for_up (wid - start) wid (\<lambda>i buf. buf(off + i := 0)) buf)"

definition shift_row_right :: "int \<Rightarrow> nat \<Rightarrow> int \<Rightarrow> int \<Rightarrow> (int \<Rightarrow> u8) \<Rightarrow> int \<Rightarrow> u8" where
  "shift_row_right start len wid off buf =
     (let buf = fst (for_up start wid (\<lambda>i (buf, flag).
            let a = off + i; d = buf a; c = drop_bit len d;
                c = (if flag \<noteq> 0 then c OR push_bit (8 - len) flag else c)
            in (buf(a := c), d AND mskr ! len)) (buf, 0 :: u8))
      in for_up 0 start (\<lambda>i buf. buf(off + i := 0)) buf)"

definition H_scroll_screen :: "int \<Rightarrow> gfx \<Rightarrow> gfx" where
  "H_scroll_screen width g =
     (let dir = width < 0; width = (if dir then s16 (- width) else width) in
      if width < screen_width then
        let wid = screen_width div 8 in
        if width mod 8 \<noteq> 0 then
          let nCount = s16 (screen_width * screen_height div 8);
              start = width div 8; len = nat (width mod 8);
              shift = (if dir then shift_row_left start len wid else shift_row_right start len wid);
              buf = for_up 0 screen_height (\<lambda>j. shift (j * wid)) (fb g);
              g = (if nCount > 3200 then fault g else g)
          in g\<lparr>fb := (\<lambda>a. if 0 \<le> a \<and> a < nCount then buf a else fb g a)\<rparr>
        else
          let width = width div 8 in
          for_up 0 screen_height (\<lambda>i g.
            fb_memset (i * wid) 0 width (fb_memmove (i * wid + width) (i * wid) (wid - width) g)) g
      else clearscreen g)"

section \<open>Text output\<close>

definition fread_glyph :: "u8 list \<Rightarrow> nat \<Rightarrow> u8 list \<Rightarrow> u8 list" where
  "fread_glyph file j buf = (let got = take 32 (drop j file) in got @ drop (length got) buf)"

text \<open>Scrolls when the next line of text would pass the lower edge.\<close>

definition text_scroll :: "int \<Rightarrow> gfx \<Rightarrow> int \<times> gfx" where
  "text_scroll y g =
     (if y + 16 > screen_height
      then (screen_height - 16,
            XY_clearscreen 0 (screen_height - 16) (screen_width - 1) (screen_height - 1)
              (V_scroll_screen (s16 (y + 16 - screen_height)) g))
      else (y, g))"

definition text_wrap :: "int \<Rightarrow> int \<Rightarrow> int \<Rightarrow> int \<times> int" where
  "text_wrap w x y = (if x + w > screen_width then (0, s16 (y + 16)) else (x, y))"

text \<open>
  The two halves of the loop body: a two-byte Chinese character, whose 32-byte glyph is read from
  the font file into the local array \<open>pix\<close>, and a single byte, a newline or a glyph of \<open>efont\<close>.
\<close>

type_synonym cursor = "int \<times> int \<times> u8 list \<times> gfx"

definition hanzi_char :: "u8 list \<Rightarrow> u16w \<Rightarrow> u16w \<Rightarrow> u8 \<Rightarrow> u8 \<Rightarrow> cursor \<Rightarrow> cursor" where
  "hanzi_char hanzi color groundcolor b1 b2 st =
     (let (x, y, pix, g) = st;
          j = ((unat b1 - 161) * 94 + (unat b2 - 161)) * 32;
          pix = fread_glyph hanzi j pix;
          (x, y) = text_wrap 16 x y;
          (y, g) = text_scroll y g
      in (s16 (x + 16), y, pix, draw_bmp x y 2 16 pix color groundcolor g))"

definition ascii_char :: "u8 list \<Rightarrow> u16w \<Rightarrow> u16w \<Rightarrow> u8 \<Rightarrow> cursor \<Rightarrow> cursor" where
  "ascii_char efont color groundcolor b st =
     (let (x, y, pix, g) = st in
      if b = 10 then
        let (y, g) = (if y + 16 > screen_height then text_scroll y g else (s16 (y + 16), g))
        in (0, y, pix, g)
      else
        let (x, y) = text_wrap 8 x y;
            (y, g) = text_scroll y g
        in (s16 (x + 8), y, pix, draw_bmp x y 1 16 (drop (unat b * 16) efont) color groundcolor g))"

fun textout_loop :: "u8 list \<Rightarrow> u8 list \<Rightarrow> u16w \<Rightarrow> u16w \<Rightarrow> u8 list \<Rightarrow> cursor \<Rightarrow> cursor" where
  "textout_loop hanzi efont color groundcolor [] st = st"
| "textout_loop hanzi efont color groundcolor [b] st = ascii_char efont color groundcolor b st"
| "textout_loop hanzi efont color groundcolor (b # b' # bs) st =
     (if b \<ge> 161 \<and> b' \<ge> 161
      then textout_loop hanzi efont color groundcolor bs (hanzi_char hanzi color groundcolor b b' st)
      else textout_loop hanzi efont color groundcolor (b' # bs) (ascii_char efont color groundcolor b st))"

text \<open>\<open>buf\<close> is the string without its terminator, \<open>pix\<close> the uninitialised local array.\<close>

definition textout ::
    "u8 list \<Rightarrow> u8 list \<Rightarrow> u8 list \<Rightarrow> int \<Rightarrow> int \<Rightarrow> u8 list \<Rightarrow> u16w \<Rightarrow> u16w \<Rightarrow> gfx \<Rightarrow> gfx" where
  "textout hanzi efont pix x y buf color groundcolor g =
     (let (x, y) = (if x < 0 then (0, y) else if x > 240 then (240, y)
                    else if y < 0 then (x, 0) else if y > 320 then (x, 320) else (x, y));
          (_, _, _, g) = textout_loop hanzi efont color groundcolor buf (x, y, pix, g)
      in g)"

section \<open>Opening and closing\<close>

text \<open>
  The outcomes of the system calls \<open>initgraph\<close> makes are parameters; \<open>open_fds\<close> says whether the
  device and the font file stay open.
\<close>

record gdev = screen_fd :: int  font_open :: bool  dev_closed :: bool

definition initgraph :: "int \<Rightarrow> bool \<Rightarrow> bool \<Rightarrow> bool \<Rightarrow> gdev \<Rightarrow> gfx \<Rightarrow> int \<times> gdev \<times> gfx" where
  "initgraph opened info_ok map_ok font_ok d g =
     (let d = d\<lparr>screen_fd := opened\<rparr> in
      if opened = -1 then (0, d, g)
      else if \<not> info_ok then (0, d, g)
      else if \<not> map_ok then (0, d\<lparr>dev_closed := True\<rparr>, g)
      else if \<not> font_ok then (0, d\<lparr>dev_closed := True, font_open := False\<rparr>, g)
      else (1, d\<lparr>font_open := True\<rparr>, g\<lparr>gColor := 1\<rparr>))"

definition closegraph :: "gdev \<Rightarrow> gdev" where
  "closegraph d = (let d = (if screen_fd d \<noteq> -1 then d\<lparr>dev_closed := True\<rparr> else d)
                   in d\<lparr>font_open := False\<rparr>)"

section \<open>What the scroll operations do to the display\<close>

lemma V_scroll_oob:
  assumes "-32768 < h" "h < 32768"
  shows "oob (V_scroll_screen h g) = oob g"
  using assms by (auto simp: V_scroll_screen_def Let_def s16_id fb_memmove_def clearscreen_def
      fb_memset_def fb_bytes_val)

text \<open>
  \<open>V_scroll_screen\<close> with \<open>|h|\<close> below the screen height moves the picture up by \<open>h\<close> rows, or down for
  a negative \<open>h\<close>: a row whose source lies on the display shows that source, the others keep their old
  content; from the screen height on the display is cleared.
\<close>
theorem V_scroll_moves:
  assumes h: "-32768 < h" "h < 32768" and p: "on_screen (x, y)"
  shows "pixel (V_scroll_screen h g) (x, y) =
    (if \<bar>h\<bar> \<ge> screen_height then (0, 0)
     else if 0 \<le> y + h \<and> y + h < screen_height then pixel g (x, y + h) else pixel g (x, y))"
proof -
  have e: "pix_addr (x, y + h) = pix_addr (x, y) + 480 * h"
    by (simp add: pix_addr_def algebra_simps)
  show ?thesis
  proof (cases "\<bar>h\<bar> \<ge> 320")
    case True
    then have "V_scroll_screen h g = clearscreen g"
      using h by (auto simp: V_scroll_screen_def Let_def s16_id)
    with True p show ?thesis
      by (simp add: clearscreen_def fb_memset_def fb_bytes_val pixel_def pix_addr_def on_screen_def)
  next
    case False
    show ?thesis
    proof (cases "h < 0")
      case True
      with False have "V_scroll_screen h g = fb_memmove (- (480 * h)) 0 (480 * (320 + h)) g"
        by (simp add: V_scroll_screen_def s16_id)
      with True False p e show ?thesis
        by (auto simp: fb_memmove_def fb_bytes_val pixel_def pix_addr_def on_screen_def algebra_simps)
    next
      case nonneg: False
      with False have "V_scroll_screen h g = fb_memmove 0 (480 * h) (480 * (320 - h)) g"
        by (simp add: V_scroll_screen_def)
      with nonneg False p e show ?thesis
        by (auto simp: fb_memmove_def fb_bytes_val pixel_def pix_addr_def on_screen_def algebra_simps)
    qed
  qed
qed

theorem V_scroll_moves_witness:
  "pixel (V_scroll_screen 16 (setpixel 5 20 1 gfx_init)) (5, 4) = (0xff, 0xff)"
proof -
  have p: "on_screen (5, 4)" "on_screen (5, 20)" by (simp_all add: on_screen_def)
  show ?thesis
    using V_scroll_moves [of 16 5 4 "setpixel 5 20 1 gfx_init", OF _ _ p(1)] p
    by (simp add: setpixel_pixel ink_def)
qed

section \<open>Text stays on the display\<close>

definition cursor_ok :: "bool \<Rightarrow> cursor \<Rightarrow> bool" where
  "cursor_ok ob st \<longleftrightarrow> (let (x, y, pix, g) = st in
     0 \<le> x \<and> x \<le> 240 \<and> 0 \<le> y \<and> y \<le> 320 \<and> length pix = 32 \<and> oob g = ob)"

lemma length_fread_glyph: "length buf = 32 \<Longrightarrow> length (fread_glyph file j buf) = 32"
  by (simp add: fread_glyph_def Let_def)

lemma text_wrap_bounds:
  assumes "0 \<le> x" "x \<le> 240" "0 \<le> y" "y \<le> 320" "0 \<le> w" "w \<le> 240" "text_wrap w x y = (x', y')"
  shows "0 \<le> x' \<and> x' + w \<le> 240 \<and> 0 \<le> y' \<and> y' \<le> 336"
  using assms by (auto simp: text_wrap_def s16_id split: if_splits)

lemma text_scroll_bounds:
  assumes "0 \<le> y" "y \<le> 336" "text_scroll y g = (y', g')"
  shows "0 \<le> y' \<and> y' \<le> 304 \<and> oob g' = oob g"
proof (cases "y + 16 > 320")
  case True
  then have "g' = XY_clearscreen 0 304 239 319 (V_scroll_screen (y - 304) g)" "y' = 304"
    using assms by (auto simp: text_scroll_def s16_id)
  moreover have "oob (XY_clearscreen 0 304 239 319 k) = oob k" for k
    by (simp add: XY_clearscreen_def u16_def fb_memset_def fb_bytes_val)
  ultimately show ?thesis using assms True by (simp add: V_scroll_oob)
qed (use assms in \<open>auto simp: text_scroll_def\<close>)

lemma draw_bmp_oob:
  assumes "0 \<le> sx" "sx + 8 * rw \<le> 240" "0 \<le> sy" "sy + h \<le> 320" "0 \<le> rw" "0 \<le> h"
    "h * rw \<le> int (length bits)"
  shows "oob (draw_bmp sx sy rw h bits color ground g) = oob g"
  using draw_bmp_pixel [OF assms, of 0 0] by (simp add: on_screen_def)

lemma hanzi_char_ok:
  assumes "cursor_ok ob st"
  shows "cursor_ok ob (hanzi_char hanzi color bg b1 b2 st)"
proof -
  obtain x y pix g where st: "st = (x, y, pix, g)" by (cases st)
  obtain x1 y1 where w: "text_wrap 16 x y = (x1, y1)" by (cases "text_wrap 16 x y")
  obtain y2 g2 where s: "text_scroll y1 g = (y2, g2)" by (cases "text_scroll y1 g")
  have b1: "0 \<le> x1 \<and> x1 + 16 \<le> 240 \<and> 0 \<le> y1 \<and> y1 \<le> 336"
    using text_wrap_bounds [OF _ _ _ _ _ _ w] assms by (simp add: st cursor_ok_def)
  then have "0 \<le> y2 \<and> y2 \<le> 304 \<and> oob g2 = oob g" using text_scroll_bounds [OF _ _ s] by simp
  with b1 assms show ?thesis
    by (simp add: st hanzi_char_def w s cursor_ok_def Let_def length_fread_glyph draw_bmp_oob s16_id)
qed

lemma ascii_char_ok:
  assumes "cursor_ok ob st" and e: "length efont = 4096"
  shows "cursor_ok ob (ascii_char efont color bg b st)"
proof -
  obtain x y pix g where st: "st = (x, y, pix, g)" by (cases st)
  obtain x1 y1 where w: "text_wrap 8 x y = (x1, y1)" by (cases "text_wrap 8 x y")
  obtain y2 g2 where s: "text_scroll y1 g = (y2, g2)" by (cases "text_scroll y1 g")
  obtain y3 g3 where s3: "text_scroll y g = (y3, g3)" by (cases "text_scroll y g")
  have b1: "0 \<le> x1 \<and> x1 + 8 \<le> 240 \<and> 0 \<le> y1 \<and> y1 \<le> 336"
    using text_wrap_bounds [OF _ _ _ _ _ _ w] assms by (simp add: st cursor_ok_def)
  then have b2: "0 \<le> y2 \<and> y2 \<le> 304 \<and> oob g2 = oob g" using text_scroll_bounds [OF _ _ s] by simp
  have b3: "0 \<le> y3 \<and> y3 \<le> 304 \<and> oob g3 = oob g"
    using text_scroll_bounds [OF _ _ s3] assms by (simp add: st cursor_ok_def)
  have len: "16 * 1 \<le> int (length (drop (unat b * 16) efont))"
    using e unat8_bound [of b] uint8_bounds [of b] by simp
  have st': "0 \<le> y" "y \<le> 320" "length pix = 32" "oob g = ob"
    using assms by (simp_all add: st cursor_ok_def)
  have draw: "oob (draw_bmp x1 y2 1 16 (drop (unat b * 16) efont) color bg g2) = oob g2"
    using b1 b2 by (intro draw_bmp_oob len) simp_all
  show ?thesis
  proof (cases "b = 10")
    case True
    with st' b3 show ?thesis
      by (cases "y + 16 > 320") (simp_all add: st ascii_char_def s3 cursor_ok_def s16_id)
  next
    case False
    with st' b1 b2 draw show ?thesis
      by (simp add: st ascii_char_def w s cursor_ok_def s16_id)
  qed
qed

lemma textout_loop_ok:
  "cursor_ok ob st \<Longrightarrow> length efont = 4096 \<Longrightarrow> cursor_ok ob (textout_loop hanzi efont color bg buf st)"
  by (induction hanzi efont color bg buf st rule: textout_loop.induct)
     (auto simp: hanzi_char_ok ascii_char_ok)

text \<open>
  C18: Text output never reads or writes outside the font table and the frame buffer, whatever the
  string, the font file and the colours are, when it starts at a row that is not negative and not
  beyond the lower edge, or at a column the first test of the code leaves alone.
\<close>
theorem textout_stays_inside:
  assumes e: "length efont = 4096" and p: "length pix = 32"
    and start: "(0 \<le> y \<and> y \<le> 320) \<or> (0 \<le> x \<and> x \<le> 240)"
  shows "oob (textout hanzi efont pix x y buf color bg g) = oob g"
proof -
  obtain x' y' where xy: "(if x < 0 then (0, y) else if x > 240 then (240, y)
      else if y < 0 then (x, 0) else if y > 320 then (x, 320) else (x, y)) = (x', y')" by fastforce
  then have "cursor_ok (oob g) (x', y', pix, g)"
    using start p by (auto simp: cursor_ok_def split: if_splits)
  from textout_loop_ok [OF this e, of hanzi color bg buf] show ?thesis
    unfolding textout_def xy Let_def prod.case
    by (cases "textout_loop hanzi efont color bg buf (x', y', pix, g)") (simp add: cursor_ok_def)
qed

theorem textout_stays_inside_witness:
  "\<not> oob (textout [] (replicate 4096 0) (replicate 32 0) 300 320 [65, 10, 0xb0, 0xa1] 0xffff 0 gfx_init)"
  using textout_stays_inside [where efont = "replicate 4096 0" and pix = "replicate 32 0" and y = 320
      and x = 300 and hanzi = "[]" and buf = "[65, 10, 0xb0, 0xa1]" and color = "0xffff" and bg = 0
      and g = gfx_init]
  by (simp add: gfx_init_def)

text \<open>
  The tests are chained with \<open>else if\<close>: a start left of the display leaves a negative row
  unchecked, and the glyph is written in front of the frame buffer.
\<close>
lemma fault_first:
  assumes "lo < hi" "oob (F lo g)" "\<And>j g. oob g \<Longrightarrow> oob (F j g)"
  shows "oob (for_up lo hi F g)"
  using assms by (simp add: for_up_step for_up_keeps)

lemma fault_stays:
  assumes "oob g" "\<And>j g. oob g \<Longrightarrow> oob (F j g)"
  shows "oob (for_up lo hi F g)"
  using assms by (rule for_up_keeps)

lemma draw_bmp_negative_faults:
  assumes "sx * 2 + sy * 480 < 0" "0 < rw" "0 < h"
  shows "oob (draw_bmp sx sy rw h bits color ground g)"
proof -
  let ?loc = "sx * 2 + sy * 240 * 2"
  have keep: "oob g \<Longrightarrow> oob (put16 a v g)" for a v g by (simp add: put16_def oob_poke)
  have keep': "oob g \<Longrightarrow> rd_src src i g = (b, g') \<Longrightarrow> oob g'" for src i g b g'
    by (auto simp: rd_src_def fault_def split: if_splits)
  let ?B = "\<lambda>j k i g. let (b, g) = rd_src bits (j * rw + k) g
     in if b AND masktab ! nat i \<noteq> 0 then put16 (?loc + j * 240 * 2 + k * 16 + i * 2) color g
        else put16 (?loc + j * 240 * 2 + k * 16 + i * 2) ground g"
  have mono: "oob g \<Longrightarrow> oob (?B j k i g)" for j k i g
    by (cases "rd_src bits (j * rw + k) g") (simp add: keep keep')
  have first: "oob (?B 0 0 0 g)" for g
    using assms by (cases "rd_src bits 0 g") (simp add: put16_def oob_poke)
  have c: "oob (for_up 0 8 (?B 0 0) g)" for g
    by (rule fault_first, simp, rule first, rule mono)
  have r: "oob (for_up 0 rw (\<lambda>k. for_up 0 8 (?B 0 k)) g)" for g
    by (rule fault_first, rule assms(2), rule c, rule fault_stays, assumption, rule mono)
  have "oob (for_up 0 h (\<lambda>j. for_up 0 rw (\<lambda>k. for_up 0 8 (?B j k))) g)"
    by (rule fault_first, rule assms(3), rule r, rule fault_stays, assumption,
        rule fault_stays, assumption, rule mono)
  then show ?thesis unfolding draw_bmp_def Let_def [of "sx * 2 + sy * 240 * 2"] .
qed

lemma textout_negative_row_faults:
  "oob (textout [] (replicate 4096 0) (replicate 32 0) (-1) (-20) [65] 0xffff 0 gfx_init)"
  by (simp add: textout_def ascii_char_def text_wrap_def text_scroll_def draw_bmp_negative_faults)

end
