(* ===== verification/Mmio.thy ===== *)
theory Mmio
  imports Lab_Prelude "HOL-Library.While_Combinator"
begin

text \<open>
  Memory-mapped devices.  A driver's state carries the history of its register accesses; the
  device is a parameter \<open>dev\<close>: the value a register shows after a history of accesses.  So a
  status bit may change while the driver polls, and two reads may differ.
\<close>

datatype 'r ev = Rd 'r | Wr 'r u32 | Udelay nat

type_synonym 'r dev = "'r ev list \<Rightarrow> 'r \<Rightarrow> u32"

record 'r machine =
  bus :: "'r ev list"

definition emit :: "'r ev \<Rightarrow> ('r, 'a) machine_scheme \<Rightarrow> ('r, 'a) machine_scheme" where
  "emit e s = s\<lparr>bus := bus s @ [e]\<rparr>"

definition wr :: "'r \<Rightarrow> u32 \<Rightarrow> ('r, 'a) machine_scheme \<Rightarrow> ('r, 'a) machine_scheme" where
  "wr r v = emit (Wr r v)"

definition rd :: "'r dev \<Rightarrow> 'r \<Rightarrow> ('r, 'a) machine_scheme \<Rightarrow> u32 \<times> ('r, 'a) machine_scheme" where
  "rd dev r s = (dev (bus s) r, emit (Rd r) s)"

definition udelay :: "nat \<Rightarrow> ('r, 'a) machine_scheme \<Rightarrow> ('r, 'a) machine_scheme" where
  "udelay n = emit (Udelay n)"

lemma bus_emit [simp]: "bus (emit e s) = bus s @ [e]"
  by (simp add: emit_def)

lemma bus_wr [simp]: "bus (wr r v s) = bus s @ [Wr r v]"
  by (simp add: wr_def)

lemma bus_udelay [simp]: "bus (udelay n s) = bus s @ [Udelay n]"
  by (simp add: udelay_def)

lemma rd_simps [simp]: "fst (rd dev r s) = dev (bus s) r" "snd (rd dev r s) = emit (Rd r) s"
  by (simp_all add: rd_def)

text \<open>What the device sees a driver do: the history without the reads.\<close>

fun is_rd :: "'r ev \<Rightarrow> bool" where
  "is_rd (Rd r) = True"
| "is_rd _ = False"

definition acts :: "'r ev list \<Rightarrow> 'r ev list" where
  "acts h = filter (\<lambda>e. \<not> is_rd e) h"

lemma acts_simps [simp]:
  "acts [] = []" "acts (Rd r # h) = acts h" "acts (Wr r v # h) = Wr r v # acts h"
  "acts (Udelay n # h) = Udelay n # acts h" "acts (h @ k) = acts h @ acts k"
  by (simp_all add: acts_def)

lemma acts_replicate_Rd [simp]: "acts (replicate n (Rd r)) = []"
  by (simp add: acts_def)

text \<open>The values the reads of one register returned along the history \<open>k\<close> after \<open>h\<close>.\<close>

fun reads_from :: "'r dev \<Rightarrow> 'r \<Rightarrow> 'r ev list \<Rightarrow> 'r ev list \<Rightarrow> u32 list" where
  "reads_from dev r h [] = []"
| "reads_from dev r h (e # k) =
     (if e = Rd r then dev h r # reads_from dev r (h @ [e]) k else reads_from dev r (h @ [e]) k)"

abbreviation reads :: "'r dev \<Rightarrow> 'r \<Rightarrow> 'r ev list \<Rightarrow> u32 list" where
  "reads dev r \<equiv> reads_from dev r []"

lemma reads_from_append [simp]:
  "reads_from dev r h (k @ l) = reads_from dev r h k @ reads_from dev r (h @ k) l"
  by (induction k arbitrary: h) auto

lemma reads_snoc:
  "reads dev r (h @ [e]) = reads dev r h @ (if e = Rd r then [dev h r] else [])"
  by (simp add: reads_from_append)

lemma reads_from_other [simp]: "r \<noteq> q \<Longrightarrow> reads_from dev r h (replicate n (Rd q)) = []"
  by (induction n arbitrary: h) auto

section \<open>Polling\<close>

text \<open>From the history \<open>h\<close> on, a register that is read again and again shows a ready value.\<close>

definition answers :: "'r dev \<Rightarrow> 'r \<Rightarrow> (u32 \<Rightarrow> bool) \<Rightarrow> 'r ev list \<Rightarrow> bool" where
  "answers dev r ready h \<longleftrightarrow> (\<exists>n. ready (dev (h @ replicate n (Rd r)) r))"

definition polls :: "nat \<Rightarrow> 'r \<Rightarrow> ('r, 'a) machine_scheme \<Rightarrow> ('r, 'a) machine_scheme" where
  "polls n r s = s\<lparr>bus := bus s @ replicate n (Rd r)\<rparr>"

lemma polls_0 [simp]: "polls 0 r s = s"
  by (simp add: polls_def)

lemma polls_Suc: "polls (Suc n) r s = polls n r (emit (Rd r) s)"
  by (simp add: polls_def emit_def replicate_append_same)

lemma bus_polls [simp]: "bus (polls n r s) = bus s @ replicate n (Rd r)"
  by (simp add: polls_def)

text \<open>
  The contract a polling client relies on: looking at the status leaves everything else of the
  state alone, and the status becomes ready.  \<open>look\<close> performs one read, \<open>ready\<close> is its verdict.
\<close>

locale poll_loop =
  fixes ready :: "'s \<Rightarrow> bool" and look :: "'s \<Rightarrow> 's" and fine :: "'s \<Rightarrow> bool"
  assumes eventually: "fine s \<Longrightarrow> \<exists>n. ready ((look ^^ n) s)"
begin

text \<open>\<open>while (busy) { look; if (ready) act; }\<close> comes to its next action.\<close>

lemma next_action:
  assumes f: "fine s" and busy: "\<And>n. busy ((look ^^ n) s)"
  shows "\<exists>n. ready ((look ^^ n) s) \<and>
     while_option busy (\<lambda>s. if ready s then act (look s) else look s) s =
     while_option busy (\<lambda>s. if ready s then act (look s) else look s) (act ((look ^^ Suc n) s))"
    (is "\<exists>n. _ \<and> while_option busy ?step s = _")
proof -
  define n where "n = (LEAST n. ready ((look ^^ n) s))"
  obtain m where "ready ((look ^^ m) s)" using eventually [OF f] by blast
  then have rdy: "ready ((look ^^ n) s)" and wait: "k < n \<Longrightarrow> \<not> ready ((look ^^ k) s)" for k
    unfolding n_def by (auto intro: LeastI dest: not_less_Least)
  have "while_option busy ?step s = while_option busy ?step ((look ^^ k) s)" if "k \<le> n" for k
    using that
  proof (induction k)
    case (Suc k)
    then have "while_option busy ?step ((look ^^ k) s) = while_option busy ?step ((look ^^ Suc k) s)"
      using busy [of k] wait [of k] by (subst while_option_unfold) simp
    with Suc show ?case by simp
  qed simp
  also have "while_option busy ?step ((look ^^ n) s) = while_option busy ?step (act ((look ^^ Suc n) s))"
    using busy [of n] rdy by (subst while_option_unfold) simp
  finally show ?thesis using rdy by blast
qed

text \<open>\<open>while (!ready) look;\<close> ends.\<close>

lemma waits:
  assumes "fine s"
  shows "\<exists>n. while_option (\<lambda>s. \<not> ready s) look s = Some ((look ^^ n) s) \<and> ready ((look ^^ n) s)"
proof -
  define n where "n = (LEAST n. ready ((look ^^ n) s))"
  obtain m where "ready ((look ^^ m) s)" using eventually [OF assms] by blast
  then have rdy: "ready ((look ^^ n) s)" and wait: "k < n \<Longrightarrow> \<not> ready ((look ^^ k) s)" for k
    unfolding n_def by (auto intro: LeastI dest: not_less_Least)
  have run: "while_option (\<lambda>s. \<not> ready s) look s = while_option (\<lambda>s. \<not> ready s) look ((look ^^ k) s)"
    if "k \<le> n" for k
    using that
  proof (induction k)
    case (Suc k)
    then have "while_option (\<lambda>s. \<not> ready s) look ((look ^^ k) s) =
        while_option (\<lambda>s. \<not> ready s) look ((look ^^ Suc k) s)"
      using wait [of k] by (subst while_option_unfold) simp
    with Suc show ?case by simp
  qed simp
  have "while_option (\<lambda>s. \<not> ready s) look ((look ^^ n) s) = Some ((look ^^ n) s)"
    using rdy by (subst while_option_unfold) simp
  then have "while_option (\<lambda>s. \<not> ready s) look s = Some ((look ^^ n) s)"
    using run [of n] by (rule trans [rotated]) simp
  with rdy show ?thesis by blast
qed

end

text \<open>Reading one register of a machine is such a loop.\<close>

lemma look_power: "(emit (Rd r) ^^ n) s = polls n r s"
proof (induction n)
  case (Suc n)
  then show ?case by (simp add: polls_def emit_def replicate_append_same [symmetric])
qed simp

interpretation pl: poll_loop "\<lambda>s. ready (dev (bus s) r)" "emit (Rd r)" "\<lambda>s. answers dev r ready (bus s)"
  for ready :: "u32 \<Rightarrow> bool" and dev :: "'r dev" and r :: 'r
proof
  fix s :: "('r, 'b) machine_scheme"
  assume "answers dev r ready (bus s)"
  then show "\<exists>n. ready (dev (bus ((emit (Rd r) ^^ n) s)) r)"
    by (simp add: answers_def look_power)
qed

lemma poll_next_action:
  assumes "answers dev r ready (bus s)" "\<And>n. busy (polls n r s)"
  shows "\<exists>n. while_option busy (\<lambda>s. if ready (dev (bus s) r) then act (emit (Rd r) s) else emit (Rd r) s) s =
    while_option busy (\<lambda>s. if ready (dev (bus s) r) then act (emit (Rd r) s) else emit (Rd r) s)
      (act (polls (Suc n) r s))"
  using pl.next_action [of dev r ready s busy act] assms unfolding look_power by blast

end
