(* ===== verification/Iic.thy ===== *)
theory Iic
  imports Mmio
begin

text \<open>
  The polled IIC master of the X1227 drivers: \<open>2410iic.c\<close> of \<open>EXP10/driver\<close>, of which
  \<open>EXP8/driver\<close> holds a copy with a single-byte read.  The global variables of the file are the
  record; an access outside \<open>_iicData\<close> sets \<open>iic_bad\<close>.  A loop that waits for the controller
  may never end: such an operation returns an option.
\<close>

section \<open>State\<close>

datatype iic_reg = GPECON | GPEUP | IICCON | IICSTAT | IICADD | IICDS

datatype iic_mode = WRDATA | POLLACK | RDDATA | SETRDADDR

definition IICBUFSIZE :: nat where "IICBUFSIZE = 0x20"

record iic = "iic_reg machine" +
  iicData :: "u8 list"
  iicDataCount :: int
  iicStatus :: int
  iicMode :: iic_mode
  iicPt :: int
  iic_bad :: bool

definition iic_zero :: iic where
  "iic_zero = \<lparr>bus = [], iicData = replicate IICBUFSIZE 0, iicDataCount = 0, iicStatus = 0,
               iicMode = WRDATA, iicPt = 0, iic_bad = False\<rparr>"

definition store :: "int \<Rightarrow> u8 \<Rightarrow> iic \<Rightarrow> iic" where
  "store i v s = (if 0 \<le> i \<and> i < int IICBUFSIZE then s\<lparr>iicData := (iicData s)[nat i := v]\<rparr>
                  else s\<lparr>iic_bad := True\<rparr>)"

definition fetch :: "int \<Rightarrow> iic \<Rightarrow> u8 \<times> iic" where
  "fetch i s = (if 0 \<le> i \<and> i < int IICBUFSIZE then (iicData s ! nat i, s)
                else (0, s\<lparr>iic_bad := True\<rparr>))"

section \<open>The poll handler\<close>

text \<open>\<open>_iicData[_iicPt++] = rIICDS\<close> and \<open>rIICDS = _iicData[_iicPt++]\<close>.\<close>

definition take_byte :: "iic_reg dev \<Rightarrow> iic \<Rightarrow> iic" where
  "take_byte dev s = (let (v, s) = rd dev IICDS s; s = store (iicPt s) (ucast v) s
                      in s\<lparr>iicPt := iicPt s + 1\<rparr>)"

definition give_byte :: "iic \<Rightarrow> iic" where
  "give_byte s = (let (v, s) = fetch (iicPt s) s
                  in wr IICDS (ucast v) (s\<lparr>iicPt := iicPt s + 1\<rparr>))"

definition IicPoll :: "iic_reg dev \<Rightarrow> iic \<Rightarrow> iic" where
  "IicPoll dev s =
     (let (iicSt, s) = rd dev IICSTAT s; n = iicDataCount s in
      case iicMode s of
        POLLACK \<Rightarrow> s\<lparr>iicStatus := uint (ucast iicSt :: u8)\<rparr>
      | RDDATA \<Rightarrow>
          let s = take_byte dev (s\<lparr>iicDataCount := n - 1\<rparr>)
          in if n = 0 then udelay 1000 (wr IICCON 0xaf (wr IICSTAT 0x90 s))
             else if n - 1 = 0 then wr IICCON 0x2f s else wr IICCON 0xaf s
      | WRDATA \<Rightarrow>
          let s = s\<lparr>iicDataCount := n - 1\<rparr>
          in if n = 0 then udelay 1000 (wr IICCON 0xaf (wr IICSTAT 0xd0 s))
             else wr IICCON 0xaf (give_byte s)
      | SETRDADDR \<Rightarrow>
          let s = s\<lparr>iicDataCount := n - 1\<rparr>
          in if n = 0 then s else wr IICCON 0xaf (give_byte s))"

definition iic_pending :: "u32 \<Rightarrow> bool" where
  "iic_pending v \<longleftrightarrow> v AND 0x10 \<noteq> 0"

definition Run_IicPoll :: "iic_reg dev \<Rightarrow> iic \<Rightarrow> iic" where
  "Run_IicPoll dev s = (if iic_pending (dev (bus s) IICCON) then IicPoll dev (emit (Rd IICCON) s)
                        else emit (Rd IICCON) s)"

definition iic_run :: "iic_reg dev \<Rightarrow> iic \<Rightarrow> iic option" where
  "iic_run dev = while_option (\<lambda>s. iicDataCount s \<noteq> -1) (Run_IicPoll dev)"

definition iic_run_ack :: "iic_reg dev \<Rightarrow> iic \<Rightarrow> iic option" where
  "iic_run_ack dev = while_option (\<lambda>s. iicStatus s = 0x100) (Run_IicPoll dev)"

section \<open>Transactions\<close>

definition set_addr :: "u32 \<Rightarrow> iic \<Rightarrow> iic" where
  "set_addr addr s = store 1 (ucast addr) (store 0 (ucast (addr div 256)) s)"

text \<open>The acknowledge poll after a write: the loop ends with an unconditional \<open>break\<close>.\<close>

definition iic_finish :: "iic_reg dev \<Rightarrow> u32 \<Rightarrow> iic \<Rightarrow> iic option" where
  "iic_finish dev slvAddr s = do {
     let s = s\<lparr>iicMode := POLLACK\<rparr>;
     let s = wr IICDS (ucast (ucast (slvAddr AND 0xfe) :: u8)) s;
     let s = s\<lparr>iicStatus := 0x100\<rparr>;
     let s = wr IICCON 0xaf (wr IICSTAT 0xf0 s);
     s \<leftarrow> iic_run_ack dev s;
     Some (udelay 1000 (wr IICCON 0xaf (wr IICSTAT 0xd0 s)))
   }"

definition Wr2410Iic_E2PROM :: "iic_reg dev \<Rightarrow> u32 \<Rightarrow> u32 \<Rightarrow> u8 list \<Rightarrow> iic \<Rightarrow> iic option" where
  "Wr2410Iic_E2PROM dev slvAddr addr buffer s = do {
     let s = set_addr addr (s\<lparr>iicMode := WRDATA, iicPt := 0\<rparr>);
     let s = for_up 2 (2 + int (length buffer)) (\<lambda>i. store i (buffer ! nat (i - 2))) s;
     let s = s\<lparr>iicDataCount := int (length buffer) + 2\<rparr>;
     let s = wr IICSTAT 0xf0 (wr IICDS (ucast (ucast (slvAddr AND 0xfe) :: u8)) s);
     s \<leftarrow> iic_run dev s;
     iic_finish dev slvAddr s
   }"

definition Wr2410Iic :: "iic_reg dev \<Rightarrow> u32 \<Rightarrow> u32 \<Rightarrow> u8 \<Rightarrow> iic \<Rightarrow> iic option" where
  "Wr2410Iic dev slvAddr addr wdata s = do {
     let s = store 2 wdata (set_addr addr (s\<lparr>iicMode := WRDATA, iicPt := 0\<rparr>));
     let s = s\<lparr>iicDataCount := 3\<rparr>;
     let s = wr IICSTAT 0xf0 (wr IICDS (ucast (ucast (slvAddr AND 0xfe) :: u8)) s);
     s \<leftarrow> iic_run dev s;
     iic_finish dev slvAddr s
   }"

text \<open>The part the two read functions share: address phase, then \<open>length\<close> bytes and the dummy.\<close>

definition iic_receive :: "iic_reg dev \<Rightarrow> u32 \<Rightarrow> u32 \<Rightarrow> int \<Rightarrow> iic \<Rightarrow> iic option" where
  "iic_receive dev slvAddr addr len s = do {
     let s = set_addr addr (s\<lparr>iicMode := SETRDADDR, iicPt := 0\<rparr>);
     let s = s\<lparr>iicDataCount := 2\<rparr>;
     let s = wr IICSTAT 0xf0 (wr IICDS (ucast (ucast (slvAddr AND 0xfe) :: u8)) s);
     s \<leftarrow> iic_run dev s;
     let s = s\<lparr>iicMode := RDDATA, iicPt := 1, iicDataCount := len\<rparr>;
     let s = wr IICCON 0xaf (wr IICSTAT 0xb0 (wr IICDS (ucast (ucast (slvAddr OR 1) :: u8)) s));
     iic_run dev s
   }"

definition Rd2410Iic_E2PROM :: "iic_reg dev \<Rightarrow> u32 \<Rightarrow> u32 \<Rightarrow> nat \<Rightarrow> iic \<Rightarrow> (u8 list \<times> iic) option" where
  "Rd2410Iic_E2PROM dev slvAddr addr len s = do {
     s \<leftarrow> iic_receive dev slvAddr addr (int len) s;
     Some (for_up 0 (int len) (\<lambda>i (buf, s). let (v, s) = fetch (i + 2) s in (buf @ [v], s)) ([], s))
   }"

definition Rd2410Iic :: "iic_reg dev \<Rightarrow> u32 \<Rightarrow> u32 \<Rightarrow> iic \<Rightarrow> (u8 \<times> iic) option" where
  "Rd2410Iic dev slvAddr addr s = do {
     s \<leftarrow> iic_receive dev slvAddr addr 1 s;
     Some (fetch 2 s)
   }"

definition Init_Iic :: "iic_reg dev \<Rightarrow> iic \<Rightarrow> iic" where
  "Init_Iic dev s =
     (let (up, s) = rd dev GPEUP s; s = wr GPEUP (up OR 0xc000) s;
          (con, s) = rd dev GPECON s; s = wr GPECON (con OR 0xa00000) s
      in wr IICSTAT 0x10 (wr IICCON 0xaf s))"

section \<open>The E2PROM driver\<close>

text \<open>\<open>kmalloc\<close> and the copies from and to user space succeed.\<close>

definition e2prom_rd :: "iic_reg dev \<Rightarrow> nat \<Rightarrow> iic \<Rightarrow> (int \<times> u8 list \<times> iic) option" where
  "e2prom_rd dev len s = do {
     let s = Init_Iic dev s;
     (dbuf, s) \<leftarrow> Rd2410Iic_E2PROM dev 0xaf 0 len s;
     Some (0, dbuf, s)
   }"

definition e2prom_wr :: "iic_reg dev \<Rightarrow> u8 list \<Rightarrow> iic \<Rightarrow> (int \<times> iic) option" where
  "e2prom_wr dev dbuf s = do {
     let s = Init_Iic dev s;
     s \<leftarrow> Wr2410Iic dev 0xde 0x3f 0x02 s;
     s \<leftarrow> Wr2410Iic_E2PROM dev 0xae 0 dbuf s;
     Some (0, s)
   }"

definition e2prom_ioctl :: "u32 \<Rightarrow> int" where "e2prom_ioctl cmd = -515"

definition Test_Iic :: "iic_reg dev \<Rightarrow> iic \<Rightarrow> (u8 list \<times> iic) option" where
  "Test_Iic dev s = do {
     let (save_E, s) = rd dev GPECON s;
     let (save_PE, s) = rd dev GPEUP s;
     let s = Init_Iic dev s;
     s \<leftarrow> Wr2410Iic dev 0xde 0x3f 0x02 s;
     s \<leftarrow> Wr2410Iic_E2PROM dev 0xae 0 [0x11, 0x22, 0x33] s;
     (got, s) \<leftarrow> Rd2410Iic_E2PROM dev 0xaf 0 3 s;
     Some (got, wr GPEUP save_PE (wr GPECON save_E s))
   }"

section \<open>Running the controller\<close>

text \<open>
  The controller is busy from a start condition to the next stop: bit 5 of the last \<open>IICSTAT\<close>
  written.  While it is busy, each byte it moves ends with the pending bit of \<open>IICCON\<close>; after a stop
  the bit is never set, as the driver's comments say, and nothing is assumed.
\<close>

fun busy_after :: "bool \<Rightarrow> iic_reg ev list \<Rightarrow> bool" where
  "busy_after b [] = b"
| "busy_after b (Wr r v # h) = busy_after (if r = IICSTAT then v AND 0x20 \<noteq> 0 else b) h"
| "busy_after b (_ # h) = busy_after b h"

definition iic_busy :: "iic_reg ev list \<Rightarrow> bool" where
  "iic_busy h = busy_after False h"

definition iic_live :: "iic_reg dev \<Rightarrow> bool" where
  "iic_live dev \<longleftrightarrow> (\<forall>h. iic_busy h \<longrightarrow> answers dev IICCON iic_pending h)"

lemma busy_after_polls [simp]: "busy_after b (replicate n (Rd r)) = b"
  by (induction n) simp_all

lemma busy_after_append [simp]: "busy_after b (h @ k) = busy_after (busy_after b h) k"
  by (induction b h rule: busy_after.induct) simp_all

lemma iic_busy_append [simp]: "iic_busy (h @ k) = busy_after (iic_busy h) k"
  by (simp add: iic_busy_def)

text \<open>
  A controller that needs one look per byte, is silent while the bus is idle, and receives the byte \<open>v\<close>.
\<close>

definition iic_chip :: "u32 \<Rightarrow> iic_reg dev" where
  "iic_chip v h r = (case r of IICCON \<Rightarrow> if iic_busy h \<and> h \<noteq> [] \<and> last h = Rd IICCON then 0x10 else 0
     | IICDS \<Rightarrow> v | _ \<Rightarrow> 0)"

lemma iic_chip_live: "iic_live (iic_chip v)"
  unfolding iic_live_def answers_def
proof (intro allI impI)
  fix h
  assume "iic_busy h"
  then have "iic_pending (iic_chip v (h @ replicate 1 (Rd IICCON)) IICCON)"
    by (simp add: iic_chip_def iic_pending_def)
  then show "\<exists>n. iic_pending (iic_chip v (h @ replicate n (Rd IICCON)) IICCON)" ..
qed

lemma polls_iic [simp]:
  "iicData (polls n r s) = iicData s" "iicDataCount (polls n r s) = iicDataCount s"
  "iicStatus (polls n r s) = iicStatus s" "iicMode (polls n r s) = iicMode s"
  "iicPt (polls n r s) = iicPt s" "iic_bad (polls n r s) = iic_bad s"
  by (simp_all add: polls_def)

lemma emit_iic [simp]:
  "iicData (emit e s) = iicData s" "iicDataCount (emit e s) = iicDataCount s"
  "iicStatus (emit e s) = iicStatus s" "iicMode (emit e s) = iicMode s"
  "iicPt (emit e s) = iicPt s" "iic_bad (emit e s) = iic_bad s"
  by (simp_all add: emit_def)

lemma wr_iic [simp]:
  "iicData (wr r v s) = iicData s" "iicDataCount (wr r v s) = iicDataCount s"
  "iicStatus (wr r v s) = iicStatus s" "iicMode (wr r v s) = iicMode s"
  "iicPt (wr r v s) = iicPt s" "iic_bad (wr r v s) = iic_bad s"
  by (simp_all add: wr_def)

lemma udelay_iic [simp]:
  "iicData (udelay n s) = iicData s" "iicDataCount (udelay n s) = iicDataCount s"
  "iicStatus (udelay n s) = iicStatus s" "iicMode (udelay n s) = iicMode s"
  "iicPt (udelay n s) = iicPt s" "iic_bad (udelay n s) = iic_bad s"
  by (simp_all add: udelay_def)

lemma store_in [simp]:
  "0 \<le> i \<Longrightarrow> i < 32 \<Longrightarrow> store i v s = s\<lparr>iicData := (iicData s)[nat i := v]\<rparr>"
  by (simp add: store_def IICBUFSIZE_def)

lemma fetch_in [simp]: "0 \<le> i \<Longrightarrow> i < 32 \<Longrightarrow> fetch i s = (iicData s ! nat i, s)"
  by (simp add: fetch_def IICBUFSIZE_def)

lemma iic_run_next:
  assumes "iic_live dev" "iic_busy (bus s)" "iicDataCount s \<noteq> -1"
  shows "\<exists>n. iic_run dev s = iic_run dev (IicPoll dev (polls (Suc n) IICCON s))"
  using poll_next_action [of dev IICCON iic_pending s "\<lambda>s. iicDataCount s \<noteq> -1" "IicPoll dev"] assms
  unfolding iic_live_def iic_run_def Run_IicPoll_def [abs_def] by simp

lemma iic_run_done: "iicDataCount s = -1 \<Longrightarrow> iic_run dev s = Some s"
  unfolding iic_run_def by (subst while_option_unfold) simp

text \<open>The bus activity of sending the bytes \<open>bs\<close>, and of the two stop conditions.\<close>

definition tx_acts :: "u8 list \<Rightarrow> iic_reg ev list" where
  "tx_acts bs = concat (map (\<lambda>b. [Wr IICDS (ucast b), Wr IICCON 0xaf]) bs)"

definition stop_tx :: "iic_reg ev list" where
  "stop_tx = [Wr IICSTAT 0xd0, Wr IICCON 0xaf, Udelay 1000]"

definition stop_rx :: "iic_reg ev list" where
  "stop_rx = [Wr IICSTAT 0x90, Wr IICCON 0xaf, Udelay 1000]"

lemma tx_phase:
  assumes "iic_live dev" "iic_busy (bus s)" "m = WRDATA \<or> m = SETRDADDR" "iicMode s = m" "iicDataCount s = int n"
    "iicPt s = int p" "p + n \<le> 32" "length (iicData s) = 32"
  shows "\<exists>s'. iic_run dev s = Some s' \<and>
    acts (bus s') = acts (bus s) @ tx_acts (take n (drop p (iicData s))) @ (if m = WRDATA then stop_tx else []) \<and>
    iicData s' = iicData s \<and> iic_bad s' = iic_bad s \<and> reads dev IICDS (bus s') = reads dev IICDS (bus s)"
  using assms
proof (induction n arbitrary: p s)
  case 0
  obtain k where k: "iic_run dev s = iic_run dev (IicPoll dev (polls (Suc k) IICCON s))"
    using iic_run_next [of dev s] 0 by auto
  let ?t = "IicPoll dev (polls (Suc k) IICCON s)"
  have "iicDataCount ?t = -1" using 0 by (auto simp: IicPoll_def rd_def)
  then have "iic_run dev s = Some ?t" using k iic_run_done by simp
  moreover have "acts (bus ?t) = acts (bus s) @ (if m = WRDATA then stop_tx else [])"
    "iicData ?t = iicData s" "iic_bad ?t = iic_bad s" "reads dev IICDS (bus ?t) = reads dev IICDS (bus s)"
    using 0 by (auto simp: IicPoll_def rd_def stop_tx_def simp del: replicate_Suc)
  ultimately show ?case by (simp add: tx_acts_def)
next
  case (Suc n)
  obtain k where k: "iic_run dev s = iic_run dev (IicPoll dev (polls (Suc k) IICCON s))"
    using iic_run_next [of dev s] Suc.prems by auto
  let ?t = "IicPoll dev (polls (Suc k) IICCON s)"
  have t: "iic_busy (bus ?t)" "iicMode ?t = m" "iicDataCount ?t = int n" "iicPt ?t = int (Suc p)" "iicData ?t = iicData s"
    "iic_bad ?t = iic_bad s" "reads dev IICDS (bus ?t) = reads dev IICDS (bus s)"
    "acts (bus ?t) = acts (bus s) @ [Wr IICDS (ucast (iicData s ! p)), Wr IICCON 0xaf]"
    using Suc.prems by (auto simp: IicPoll_def rd_def give_byte_def simp del: replicate_Suc)
  have "take (Suc n) (drop p (iicData s)) = iicData s ! p # take n (drop (Suc p) (iicData s))"
    using Suc.prems by (simp add: Cons_nth_drop_Suc [symmetric])
  with Suc.IH [of ?t "Suc p"] Suc.prems t k show ?case
    by (simp add: tx_acts_def)
qed

text \<open>
  The receive phase: with \<open>n\<close> bytes still to be acknowledged the handler takes \<open>n + 1\<close> values from
  the data register, the acknowledge of the last but one is the no-acknowledge.
\<close>

fun rx_acts :: "nat \<Rightarrow> iic_reg ev list" where
  "rx_acts 0 = stop_rx"
| "rx_acts (Suc n) = Wr IICCON (if n = 0 then 0x2f else 0xaf) # rx_acts n"

lemma take_byte_eq:
  assumes "iicPt s = int p" "p < 32"
  shows "take_byte dev s = (emit (Rd IICDS) s)\<lparr>iicData := (iicData s)[p := ucast (dev (bus s) IICDS)],
           iicPt := int p + 1\<rparr>"
  using assms by (simp add: take_byte_def rd_def)

lemma rx_phase:
  assumes "iic_live dev" "iic_busy (bus s)" "iicMode s = RDDATA" "iicDataCount s = int n"
    "iicPt s = int p" "p + n < 32" "length (iicData s) = 32"
  shows "\<exists>s' vs. iic_run dev s = Some s' \<and> length vs = Suc n \<and>
    acts (bus s') = acts (bus s) @ rx_acts n \<and> iic_bad s' = iic_bad s \<and> length (iicData s') = 32 \<and>
    reads dev IICDS (bus s') = reads dev IICDS (bus s) @ vs \<and>
    (\<forall>i \<le> n. iicData s' ! (p + i) = ucast (vs ! i)) \<and> (\<forall>i < p. iicData s' ! i = iicData s ! i)"
  using assms
proof (induction n arbitrary: p s)
  case 0
  obtain k where k: "iic_run dev s = iic_run dev (IicPoll dev (polls (Suc k) IICCON s))"
    using iic_run_next [of dev s] 0 by auto
  let ?t = "IicPoll dev (polls (Suc k) IICCON s)"
  let ?v = "dev (bus s @ replicate (Suc k) (Rd IICCON) @ [Rd IICSTAT]) IICDS"
  have t: "iicDataCount ?t = -1" "acts (bus ?t) = acts (bus s) @ stop_rx" "iic_bad ?t = iic_bad s"
    "iicData ?t = (iicData s)[p := ucast ?v]" "reads dev IICDS (bus ?t) = reads dev IICDS (bus s) @ [?v]"
    using 0 by (simp_all add: IicPoll_def rd_def take_byte_eq stop_rx_def del: replicate_Suc)
  then have "iic_run dev s = Some ?t" using k iic_run_done by simp
  with t 0 show ?case by (intro exI [of _ ?t] exI [of _ "[?v]"]) (simp del: replicate_Suc)
next
  case (Suc n)
  obtain k where k: "iic_run dev s = iic_run dev (IicPoll dev (polls (Suc k) IICCON s))"
    using iic_run_next [of dev s] Suc.prems by auto
  let ?t = "IicPoll dev (polls (Suc k) IICCON s)"
  let ?v = "dev (bus s @ replicate (Suc k) (Rd IICCON) @ [Rd IICSTAT]) IICDS"
  have t: "iic_busy (bus ?t)" "iicMode ?t = RDDATA" "iicDataCount ?t = int n" "iicPt ?t = int (Suc p)" "iic_bad ?t = iic_bad s"
    "acts (bus ?t) = acts (bus s) @ [Wr IICCON (if n = 0 then 0x2f else 0xaf)]"
    "iicData ?t = (iicData s)[p := ucast ?v]" "reads dev IICDS (bus ?t) = reads dev IICDS (bus s) @ [?v]"
    using Suc.prems by (simp_all add: IicPoll_def Let_def rd_def take_byte_eq del: replicate_Suc)
  obtain s' vs where s': "iic_run dev ?t = Some s'" "length vs = Suc n"
    "acts (bus s') = acts (bus ?t) @ rx_acts n" "iic_bad s' = iic_bad ?t" "length (iicData s') = 32"
    "reads dev IICDS (bus s') = reads dev IICDS (bus ?t) @ vs"
    "\<forall>i \<le> n. iicData s' ! (Suc p + i) = ucast (vs ! i)" "\<forall>i < Suc p. iicData s' ! i = iicData ?t ! i"
    using Suc.IH [of ?t "Suc p"] Suc.prems t by auto
  have "iicData s' ! (p + i) = ucast ((?v # vs) ! i)" if "i \<le> Suc n" for i
    using that s'(7,8) t(7) Suc.prems by (cases i) auto
  with s' k t Suc.prems show ?case
    by (intro exI [of _ s'] exI [of _ "?v # vs"]) (simp del: replicate_Suc)
qed

section \<open>Transactions\<close>

lemma iic_run_ack_next:
  assumes "iic_live dev" "iic_busy (bus s)" "iicStatus s = 0x100" "iicMode s = POLLACK"
  shows "\<exists>s'. iic_run_ack dev s = Some s' \<and> acts (bus s') = acts (bus s) \<and> iicData s' = iicData s \<and>
    iic_bad s' = iic_bad s \<and> reads dev IICDS (bus s') = reads dev IICDS (bus s) \<and> iicStatus s' < 0x100"
proof -
  obtain k where k: "iic_run_ack dev s = iic_run_ack dev (IicPoll dev (polls (Suc k) IICCON s))"
    using poll_next_action [of dev IICCON iic_pending s "\<lambda>s. iicStatus s = 0x100" "IicPoll dev"] assms
    unfolding iic_live_def iic_run_ack_def Run_IicPoll_def [abs_def] by auto
  let ?t = "IicPoll dev (polls (Suc k) IICCON s)"
  have t: "iicStatus ?t < 0x100" "acts (bus ?t) = acts (bus s)" "iicData ?t = iicData s"
    "iic_bad ?t = iic_bad s" "reads dev IICDS (bus ?t) = reads dev IICDS (bus s)"
    using assms by (simp_all add: IicPoll_def rd_def del: replicate_Suc)
  then have "iic_run_ack dev ?t = Some ?t"
    unfolding iic_run_ack_def by (subst while_option_unfold) simp
  with k t show ?thesis by auto
qed

text \<open>The bytes sent for a slave address with the write and the read bit.\<close>

abbreviation slave_wr :: "u32 \<Rightarrow> u32" where "slave_wr slv \<equiv> ucast (ucast (slv AND 0xfe) :: u8)"
abbreviation slave_rd :: "u32 \<Rightarrow> u32" where "slave_rd slv \<equiv> ucast (ucast (slv OR 1) :: u8)"
abbreviation addr_bytes :: "u32 \<Rightarrow> u8 list" where
  "addr_bytes addr \<equiv> [ucast (addr div 256), ucast addr]"

definition finish_acts :: "u32 \<Rightarrow> iic_reg ev list" where
  "finish_acts slv = [Wr IICDS (slave_wr slv), Wr IICSTAT 0xf0, Wr IICCON 0xaf] @ stop_tx"

definition write_acts :: "u32 \<Rightarrow> u8 list \<Rightarrow> iic_reg ev list" where
  "write_acts slv bs = [Wr IICDS (slave_wr slv), Wr IICSTAT 0xf0] @ tx_acts bs @ stop_tx @ finish_acts slv"

definition read_acts :: "u32 \<Rightarrow> u32 \<Rightarrow> nat \<Rightarrow> iic_reg ev list" where
  "read_acts slv addr n =
     [Wr IICDS (slave_wr slv), Wr IICSTAT 0xf0] @ tx_acts (addr_bytes addr) @
     [Wr IICDS (slave_rd slv), Wr IICSTAT 0xb0, Wr IICCON 0xaf] @ rx_acts n"

lemma iic_finish_acts:
  assumes "iic_live dev"
  shows "\<exists>s'. iic_finish dev slv s = Some s' \<and> acts (bus s') = acts (bus s) @ finish_acts slv \<and>
    iicData s' = iicData s \<and> iic_bad s' = iic_bad s \<and> reads dev IICDS (bus s') = reads dev IICDS (bus s)"
proof -
  let ?s = "wr IICCON 0xaf (wr IICSTAT 0xf0 ((wr IICDS (slave_wr slv) (s\<lparr>iicMode := POLLACK\<rparr>))\<lparr>iicStatus := 0x100\<rparr>))"
  obtain s' where s': "iic_run_ack dev ?s = Some s'" "acts (bus s') = acts (bus ?s)"
    "iicData s' = iicData ?s" "iic_bad s' = iic_bad ?s" "reads dev IICDS (bus s') = reads dev IICDS (bus ?s)"
    using iic_run_ack_next [OF assms, of ?s] by auto
  then show ?thesis
    by (simp add: iic_finish_def Let_def finish_acts_def stop_tx_def)
qed

lemma store_loop:
  assumes "length buffer \<le> 30" "length (iicData s) = 32" "n \<le> length buffer"
  shows "for_up 2 (2 + int n) (\<lambda>i. store i (buffer ! nat (i - 2))) s =
    s\<lparr>iicData := take 2 (iicData s) @ take n buffer @ drop (2 + n) (iicData s)\<rparr>"
proof -
  have "for_up 2 (2 + int n) (\<lambda>i. store i (buffer ! nat (i - 2))) s =
      s\<lparr>iicData := take 2 (iicData s) @ take (nat (2 + int n - 2)) buffer @ drop (nat (2 + int n)) (iicData s)\<rparr>"
  proof (rule for_up_inv [where P = "\<lambda>i t. t = s\<lparr>iicData := take 2 (iicData s) @ take (nat (i - 2)) buffer
        @ drop (nat i) (iicData s)\<rparr>"])
    show "s = s\<lparr>iicData := take 2 (iicData s) @ take (nat (2 - 2)) buffer @ drop (nat 2) (iicData s)\<rparr>"
      by simp
  next
    fix j t
    assume j: "2 \<le> j" "j < 2 + int n" and t: "t = s\<lparr>iicData := take 2 (iicData s) @
        take (nat (j - 2)) buffer @ drop (nat j) (iicData s)\<rparr>"
    define k where "k = nat (j - 2)"
    then have k: "j = int (2 + k)" "k < length buffer" using j assms by auto
    have "(take 2 (iicData s) @ take k buffer @ drop (2 + k) (iicData s))[2 + k := buffer ! k] =
        take 2 (iicData s) @ take (Suc k) buffer @ drop (3 + k) (iicData s)"
      using k assms by (simp add: list_update_append take_Suc_conv_app_nth min_def Cons_nth_drop_Suc [symmetric] numeral_3_eq_3)
    then show "store j (buffer ! nat (j - 2)) t = s\<lparr>iicData := take 2 (iicData s) @
        take (nat (j + 1 - 2)) buffer @ drop (nat (j + 1)) (iicData s)\<rparr>"
      using j assms k by (simp add: t k_def [symmetric] nat_add_distrib)
  qed simp
  then show ?thesis by (simp add: nat_add_distrib)
qed

lemma set_addr_eq:
  "length (iicData s) = 32 \<Longrightarrow>
     set_addr addr s = s\<lparr>iicData := addr_bytes addr @ drop 2 (iicData s)\<rparr>"
  by (cases "iicData s"; cases "tl (iicData s)") (auto simp: set_addr_def)

lemma write_finish:
  assumes live: "iic_live dev" and s: "iicMode s = WRDATA" "iicPt s = 0" "iicDataCount s = int (length bs)"
    "length (iicData s) = 32" "length bs \<le> 32" "take (length bs) (iicData s) = bs"
  shows "\<exists>s'. iic_run dev (wr IICSTAT 0xf0 (wr IICDS (slave_wr slv) s)) \<bind> iic_finish dev slv = Some s' \<and>
    acts (bus s') = acts (bus s) @ write_acts slv bs \<and> iic_bad s' = iic_bad s \<and>
    length (iicData s') = 32"
proof -
  let ?s = "wr IICSTAT 0xf0 (wr IICDS (slave_wr slv) s)"
  obtain t where t: "iic_run dev ?s = Some t" "acts (bus t) = acts (bus ?s) @ tx_acts bs @ stop_tx"
    "iicData t = iicData s" "iic_bad t = iic_bad s"
    using tx_phase [OF live, of ?s WRDATA "length bs" 0] s by auto
  obtain s' where "iic_finish dev slv t = Some s'" "acts (bus s') = acts (bus t) @ finish_acts slv"
    "iicData s' = iicData t" "iic_bad s' = iic_bad t"
    using iic_finish_acts [OF live, of slv t] by auto
  with t s show ?thesis by (simp add: write_acts_def)
qed

lemma Wr2410Iic_acts:
  assumes "iic_live dev" "length (iicData s) = 32"
  shows "\<exists>s'. Wr2410Iic dev slv addr w s = Some s' \<and> iic_bad s' = iic_bad s \<and> length (iicData s') = 32 \<and>
    acts (bus s') = acts (bus s) @ write_acts slv (addr_bytes addr @ [w])"
proof -
  let ?s = "s\<lparr>iicMode := WRDATA, iicPt := 0, iicData := (addr_bytes addr @ drop 2 (iicData s))[2 := w],
              iicDataCount := 3\<rparr>"
  obtain x y z zs where d: "iicData s = x # y # z # zs"
    using assms(2) by (cases "iicData s"; cases "tl (iicData s)"; cases "tl (tl (iicData s))") auto
  have "Wr2410Iic dev slv addr w s = iic_run dev (wr IICSTAT 0xf0 (wr IICDS (slave_wr slv) ?s)) \<bind> iic_finish dev slv"
    using assms(2) by (simp add: Wr2410Iic_def set_addr_eq Let_def)
  then show ?thesis
    using write_finish [OF assms(1), of ?s "addr_bytes addr @ [w]" slv] assms(2) d by auto
qed

lemma Wr2410Iic_E2PROM_acts:
  assumes "iic_live dev" "length (iicData s) = 32" "length buffer \<le> 30"
  shows "\<exists>s'. Wr2410Iic_E2PROM dev slv addr buffer s = Some s' \<and> iic_bad s' = iic_bad s \<and>
    length (iicData s') = 32 \<and> acts (bus s') = acts (bus s) @ write_acts slv (addr_bytes addr @ buffer)"
proof -
  let ?d = "addr_bytes addr @ buffer @ drop (2 + length buffer) (addr_bytes addr @ drop 2 (iicData s))"
  let ?s = "s\<lparr>iicMode := WRDATA, iicPt := 0, iicData := ?d, iicDataCount := int (length buffer) + 2\<rparr>"
  have "Wr2410Iic_E2PROM dev slv addr buffer s =
      iic_run dev (wr IICSTAT 0xf0 (wr IICDS (slave_wr slv) ?s)) \<bind> iic_finish dev slv"
    using assms(2) store_loop [OF assms(3) _ order_refl,
        of "s\<lparr>iicMode := WRDATA, iicPt := 0, iicData := addr_bytes addr @ drop 2 (iicData s)\<rparr>"]
    by (simp add: Wr2410Iic_E2PROM_def set_addr_eq Let_def)
  then show ?thesis
    using write_finish [OF assms(1), of ?s "addr_bytes addr @ buffer" slv] assms by auto
qed

lemma iic_receive_acts:
  assumes live: "iic_live dev" and len: "length (iicData s) = 32" "n \<le> 30"
  shows "\<exists>s' x vs. iic_receive dev slv addr (int n) s = Some s' \<and> length vs = n \<and>
    acts (bus s') = acts (bus s) @ read_acts slv addr n \<and> iic_bad s' = iic_bad s \<and> length (iicData s') = 32 \<and>
    reads dev IICDS (bus s') = reads dev IICDS (bus s) @ x # vs \<and>
    (\<forall>i < n. iicData s' ! (i + 2) = ucast (vs ! i))"
proof -
  let ?d = "addr_bytes addr @ drop 2 (iicData s)"
  let ?s = "wr IICSTAT 0xf0 (wr IICDS (slave_wr slv)
      (s\<lparr>iicMode := SETRDADDR, iicPt := 0, iicData := ?d, iicDataCount := 2\<rparr>))"
  obtain t where t: "iic_run dev ?s = Some t" "acts (bus t) = acts (bus ?s) @ tx_acts (take 2 ?d)"
    "iicData t = ?d" "iic_bad t = iic_bad s" "reads dev IICDS (bus t) = reads dev IICDS (bus s)"
    using tx_phase [OF live, of ?s SETRDADDR 2 0] len by auto
  let ?t = "wr IICCON 0xaf (wr IICSTAT 0xb0 (wr IICDS (slave_rd slv)
      (t\<lparr>iicMode := RDDATA, iicPt := 1, iicDataCount := int n\<rparr>)))"
  obtain s' vs where s': "iic_run dev ?t = Some s'" "length vs = Suc n"
    "acts (bus s') = acts (bus ?t) @ rx_acts n" "iic_bad s' = iic_bad t" "length (iicData s') = 32"
    "reads dev IICDS (bus s') = reads dev IICDS (bus ?t) @ vs"
    "\<forall>i \<le> n. iicData s' ! (1 + i) = ucast (vs ! i)"
    using rx_phase [OF live, of ?t n 1] len t by auto
  have run: "iic_receive dev slv addr (int n) s = Some s'"
    using t(1) s'(1) len by (simp add: iic_receive_def set_addr_eq Let_def)
  obtain x ws where vs: "vs = x # ws" using s'(2) by (cases vs) auto
  have "iicData s' ! (i + 2) = ucast (ws ! i)" if "i < n" for i
    using s'(7) [rule_format, of "Suc i"] that by (simp add: vs)
  then show ?thesis
    using run s' t vs by (intro exI [of _ s'] exI [of _ x] exI [of _ ws]) (simp add: read_acts_def)
qed

lemma fetch_loop:
  "n \<le> 30 \<Longrightarrow> for_up 0 (int n) (\<lambda>i (buf, s). let (v, s) = fetch (i + 2) s in (buf @ [v], s)) ([], s) =
     (map (\<lambda>i. iicData s ! (i + 2)) [0..<n], s)"
proof -
  assume n: "n \<le> 30"
  have "for_up 0 (int n) (\<lambda>i (buf, s). let (v, s) = fetch (i + 2) s in (buf @ [v], s)) ([], s) =
     (map (\<lambda>i. iicData s ! (i + 2)) [0..<nat (int n)], s)"
  proof (rule for_up_inv [where P = "\<lambda>i t. t = (map (\<lambda>i. iicData s ! (i + 2)) [0..<nat i], s)"])
    fix j t
    assume j: "0 \<le> j" "j < int n" and t: "t = (map (\<lambda>i. iicData s ! (i + 2)) [0..<nat j], s)"
    then obtain k where k: "j = int k" "k < n" by (metis nat_eq_iff2 of_nat_less_iff)
    then show "(case t of (buf, s) \<Rightarrow> let (v, s) = fetch (j + 2) s in (buf @ [v], s)) =
        (map (\<lambda>i. iicData s ! (i + 2)) [0..<nat (j + 1)], s)"
      using n by (simp add: t nat_add_distrib)
  qed simp_all
  then show ?thesis by simp
qed

text \<open>
  C4: A page write of at most 30 bytes (the driver's buffer of 32 holds the two address bytes too) returns when
  the controller reports every byte it moves between a start and a stop, and puts exactly the write transaction
  on the bus: start with the slave address, the two address bytes, the data in order, stop, then the acknowledge
  poll and its stop; no access leaves \<open>_iicData\<close>.
\<close>
theorem page_write_transaction:
  assumes "iic_live dev" "length (iicData s) = 32" "length buffer \<le> 30"
  shows "\<exists>s'. Wr2410Iic_E2PROM dev slv addr buffer s = Some s' \<and> iic_bad s' = iic_bad s \<and>
    length (iicData s') = 32 \<and> acts (bus s') = acts (bus s) @ write_acts slv (addr_bytes addr @ buffer)"
  using assms by (rule Wr2410Iic_E2PROM_acts)

theorem page_write_transaction_witness:
  "\<exists>s'. Wr2410Iic_E2PROM (iic_chip 0x15) 0xae 0x20 [0xcc, 0xbb] iic_zero = Some s' \<and> \<not> iic_bad s' \<and>
    acts (bus s') = write_acts 0xae [0, 0x20, 0xcc, 0xbb]"
proof -
  from page_write_transaction [OF iic_chip_live [of "0x15"], of iic_zero "[0xcc, 0xbb]" "0xae" "0x20"] show ?thesis
    by (auto simp: iic_zero_def IICBUFSIZE_def)
qed

text \<open>
  A sequential read of at most 30 bytes returns when the controller reports every byte it moves; it sends the
  address phase and the read phase, acknowledges every byte but the last, and the buffer holds the
  values the data register gave, in order, without the first one (which is the address byte).
\<close>
theorem sequential_read_values:
  assumes "iic_live dev" "length (iicData s) = 32" "n \<le> 30"
  shows "\<exists>buf s' x vs. Rd2410Iic_E2PROM dev slv addr n s = Some (buf, s') \<and>
    acts (bus s') = acts (bus s) @ read_acts slv addr n \<and> iic_bad s' = iic_bad s \<and>
    reads dev IICDS (bus s') = reads dev IICDS (bus s) @ x # vs \<and> length vs = n \<and> buf = map ucast vs"
proof -
  obtain s' x vs where s': "iic_receive dev slv addr (int n) s = Some s'" "length vs = n"
    "acts (bus s') = acts (bus s) @ read_acts slv addr n" "iic_bad s' = iic_bad s"
    "reads dev IICDS (bus s') = reads dev IICDS (bus s) @ x # vs"
    "\<forall>i < n. iicData s' ! (i + 2) = ucast (vs ! i)"
    using iic_receive_acts [OF assms, of slv addr] by blast
  have buf: "map (\<lambda>i. iicData s' ! (i + 2)) [0..<n] = map ucast vs"
    using s'(2,6) by (intro nth_equalityI) simp_all
  have "Rd2410Iic_E2PROM dev slv addr n s = Some (map ucast vs, s')"
    unfolding Rd2410Iic_E2PROM_def s'(1) using fetch_loop [OF assms(3), of s'] buf by simp
  with s' show ?thesis by blast
qed

theorem sequential_read_values_witness:
  "\<exists>s'. Rd2410Iic_E2PROM (iic_chip 0x15) 0xaf 0 2 iic_zero = Some ([0x15, 0x15], s')"
proof -
  from sequential_read_values [OF iic_chip_live [of "0x15"], of iic_zero 2 "0xaf" 0] obtain buf s' x vs where
    r: "Rd2410Iic_E2PROM (iic_chip 0x15) 0xaf 0 2 iic_zero = Some (buf, s')" "length vs = 2" "buf = map ucast vs"
      "reads (iic_chip 0x15) IICDS (bus s') = reads (iic_chip 0x15) IICDS (bus iic_zero) @ x # vs"
    by (auto simp: iic_zero_def IICBUFSIZE_def)
  have const: "v \<in> set (reads_from (iic_chip 0x15) IICDS h k) \<Longrightarrow> v = 0x15" for v h k
    by (induction k arbitrary: h) (auto simp: iic_chip_def split: if_splits)
  have "set vs \<subseteq> set (reads (iic_chip 0x15) IICDS (bus s'))" unfolding r(4) by auto
  with const have "\<forall>v \<in> set vs. v = 0x15" by blast
  with r(2) have "vs = [0x15, 0x15]" by (cases vs; cases "tl vs") auto
  with r show ?thesis by simp
qed

lemma Rd2410Iic_value:
  assumes "iic_live dev" "length (iicData s) = 32"
  shows "\<exists>s' x v. Rd2410Iic dev slv addr s = Some (ucast v, s') \<and>
    acts (bus s') = acts (bus s) @ read_acts slv addr 1 \<and> iic_bad s' = iic_bad s \<and>
    length (iicData s') = 32 \<and> reads dev IICDS (bus s') = reads dev IICDS (bus s) @ [x, v]"
proof -
  obtain s' x vs where s': "iic_receive dev slv addr 1 s = Some s'" "length vs = 1"
    "acts (bus s') = acts (bus s) @ read_acts slv addr 1" "iic_bad s' = iic_bad s"
    "reads dev IICDS (bus s') = reads dev IICDS (bus s) @ x # vs" "length (iicData s') = 32"
    "\<forall>i < 1. iicData s' ! (i + 2) = ucast (vs ! i)"
    using iic_receive_acts [OF assms, of 1 slv addr] by auto
  then obtain v where "vs = [v]" by (cases vs) auto
  with s' have "Rd2410Iic dev slv addr s = Some (ucast v, s')" by (simp add: Rd2410Iic_def numeral_2_eq_2)
  with s' \<open>vs = [v]\<close> show ?thesis by blast
qed

text \<open>A longer page write runs over the 32-byte buffer of the driver.\<close>

lemma store_bad_stays: "iic_bad s \<Longrightarrow> iic_bad (store i v s)"
  by (simp add: store_def)

lemma long_page_write_overflows:
  assumes "30 < n"
  shows "iic_bad (for_up 2 (2 + n) (\<lambda>i. store i (buffer ! nat (i - 2))) s)"
proof -
  have "32 < 2 + n \<longrightarrow> iic_bad (for_up 2 (2 + n) (\<lambda>i. store i (buffer ! nat (i - 2))) s)"
    by (rule for_up_inv [where P = "\<lambda>i t. 32 < i \<longrightarrow> iic_bad t"])
       (use assms in \<open>auto simp: store_bad_stays\<close>, simp add: store_def IICBUFSIZE_def)
  with assms show ?thesis by simp
qed

section \<open>The E2PROM device\<close>

definition init_acts :: "u32 \<Rightarrow> u32 \<Rightarrow> iic_reg ev list" where
  "init_acts up con = [Wr GPEUP (up OR 0xc000), Wr GPECON (con OR 0xa00000), Wr IICCON 0xaf, Wr IICSTAT 0x10]"

lemma Init_Iic_acts:
  "\<exists>up con. acts (bus (Init_Iic dev s)) = acts (bus s) @ init_acts up con"
  by (auto simp: Init_Iic_def rd_def init_acts_def)

lemma Init_Iic_frame [simp]: "iicData (Init_Iic dev s) = iicData s" "iic_bad (Init_Iic dev s) = iic_bad s"
  by (simp_all add: Init_Iic_def rd_def)

text \<open>
  A write to the device node initialises the controller, unlocks the chip with a byte write of 2 to
  the status register 0x3f, then writes the user's bytes (at most 30) from address 0 of the memory
  array, and reports 0, not the number of bytes.
\<close>
theorem e2prom_write_unlocks_first:
  assumes "iic_live dev" "length (iicData s) = 32" "length dbuf \<le> 30"
  shows "\<exists>s' up con. e2prom_wr dev dbuf s = Some (0, s') \<and> iic_bad s' = iic_bad s \<and>
    acts (bus s') = acts (bus s) @ init_acts up con @ write_acts 0xde [0, 0x3f, 2] @ write_acts 0xae ([0, 0] @ dbuf)"
proof -
  obtain up con where i: "acts (bus (Init_Iic dev s)) = acts (bus s) @ init_acts up con"
    using Init_Iic_acts [of dev s] by blast
  obtain t where t: "Wr2410Iic dev 0xde 0x3f 2 (Init_Iic dev s) = Some t" "iic_bad t = iic_bad s"
    "length (iicData t) = 32" "acts (bus t) = acts (bus (Init_Iic dev s)) @ write_acts 0xde [0, 0x3f, 2]"
    using Wr2410Iic_acts [OF assms(1), of "Init_Iic dev s" "0xde" "0x3f" 2] assms(2) by auto
  obtain s' where s': "Wr2410Iic_E2PROM dev 0xae 0 dbuf t = Some s'" "iic_bad s' = iic_bad t"
    "acts (bus s') = acts (bus t) @ write_acts 0xae ([0, 0] @ dbuf)"
    using Wr2410Iic_E2PROM_acts [OF assms(1) t(3) assms(3), of "0xae" 0] by auto
  show ?thesis
    using i t s' by (intro exI [of _ s'] exI [of _ up] exI [of _ con]) (simp add: e2prom_wr_def)
qed

theorem e2prom_write_unlocks_first_witness:
  "\<exists>s'. e2prom_wr (iic_chip 0x15) [0xcc, 0xbb, 0xaa] iic_zero = Some (0, s') \<and> \<not> iic_bad s'"
proof -
  from e2prom_write_unlocks_first [OF iic_chip_live [of "0x15"], of iic_zero "[0xcc, 0xbb, 0xaa]"] show ?thesis
    by (auto simp: iic_zero_def IICBUFSIZE_def)
qed

end
