(* ===== verification/Rtc.thy ===== *)
theory Rtc
  imports Iic
begin

text \<open>
  The X1227 clock: its driver (\<open>EXP8/driver/RTC_Driver.c\<close>), the demonstration program
  \<open>EXP8/app/RTC.c\<close> and the part of \<open>EXP8/app/date.c\<close> that reads and sets the chip.
\<close>

section \<open>The driver\<close>

definition rtc_rd :: "iic_reg dev \<Rightarrow> nat \<Rightarrow> iic \<Rightarrow> (int \<times> u8 list \<times> iic) option" where
  "rtc_rd dev len s = do {
     let s = Init_Iic dev s;
     (sec, s) \<leftarrow> Rd2410Iic dev 0xde 0x30 s;
     (minute, s) \<leftarrow> Rd2410Iic dev 0xde 0x31 s;
     (hour, s) \<leftarrow> Rd2410Iic dev 0xde 0x32 s;
     (date, s) \<leftarrow> Rd2410Iic dev 0xde 0x33 s;
     (month, s) \<leftarrow> Rd2410Iic dev 0xde 0x34 s;
     (year, s) \<leftarrow> Rd2410Iic dev 0xde 0x35 s;
     Some (0, [sec, minute, hour, date, month, year], s)
   }"

text \<open>Pairs of register and value; the byte after an odd buffer is read out of bounds.\<close>

fun rtc_wr_loop :: "iic_reg dev \<Rightarrow> u8 list \<Rightarrow> iic \<Rightarrow> iic option" where
  "rtc_wr_loop dev [] s = Some s"
| "rtc_wr_loop dev [reg] s = Some (s\<lparr>iic_bad := True\<rparr>)"
| "rtc_wr_loop dev (reg # data # dbuf) s = do {
     s \<leftarrow> Wr2410Iic dev 0xde (ucast reg) data s;
     rtc_wr_loop dev dbuf s
   }"

definition rtc_wr :: "iic_reg dev \<Rightarrow> u8 list \<Rightarrow> iic \<Rightarrow> (int \<times> iic) option" where
  "rtc_wr dev dbuf s = do {
     let s = Init_Iic dev s;
     s \<leftarrow> Wr2410Iic dev 0xde 0x3f 0x02 s;
     s \<leftarrow> Wr2410Iic dev 0xde 0x3f 0x06 s;
     s \<leftarrow> rtc_wr_loop dev dbuf s;
     Some (0, s)
   }"

definition rtc_ioctl :: "u32 \<Rightarrow> int" where "rtc_ioctl cmd = -515"

section \<open>The date command\<close>

record tm =
  tm_sec :: int
  tm_min :: int
  tm_hour :: int
  tm_mday :: int
  tm_mon :: int
  tm_year :: int

text \<open>\<open>CurTime\<close> is an array of \<open>char\<close>, unsigned on the target.\<close>

definition bcd_get :: "u8 \<Rightarrow> int" where
  "bcd_get b = uint b div 16 * 10 + uint b mod 16"

definition bcd_put :: "int \<Rightarrow> u8" where
  "bcd_put v = word_of_int (v sdiv 10 * 16 + v smod 10)"

definition date_get :: "u8 list \<Rightarrow> tm" where
  "date_get CurTime =
     \<lparr>tm_sec = bcd_get (CurTime ! 0), tm_min = bcd_get (CurTime ! 1),
      tm_hour = bcd_get (CurTime ! 2 AND 0x7f), tm_mday = bcd_get (CurTime ! 3),
      tm_mon = bcd_get (CurTime ! 4), tm_year = bcd_get (CurTime ! 5)\<rparr>"

definition date_set :: "tm \<Rightarrow> u8 list" where
  "date_set t =
     [0x00, 0x30, bcd_put (tm_sec t), 0x00, 0x31, bcd_put (tm_min t),
      0x00, 0x32, bcd_put (tm_hour t) OR 0x80, 0x00, 0x33, bcd_put (tm_mday t),
      0x00, 0x34, bcd_put (tm_mon t), 0x00, 0x35, bcd_put (tm_year t)]"

text \<open>
  The conversions of the parsed numbers: \<open>date_conv_time\<close> takes \<open>MMDDhhmm[year]\<close> (four or five
  numbers from \<open>sscanf\<close>), \<open>date_conv_ftime\<close> the formats with separators; \<open>None\<close> is the error exit.
\<close>

definition date_conv_time :: "tm \<Rightarrow> int list \<Rightarrow> tm option" where
  "date_conv_time t nums =
     (if length nums < 4 \<or> length nums > 5 then None
      else let t = t\<lparr>tm_mon := nums ! 0, tm_mday := nums ! 1, tm_hour := nums ! 2, tm_min := nums ! 3\<rparr>;
               t = (if length nums = 5 then t\<lparr>tm_year := nums ! 4\<rparr> else t);
               t = (if tm_year t \<ge> 1900 then t\<lparr>tm_year := tm_year t - 1900\<rparr> else t)
           in Some (t\<lparr>tm_mon := tm_mon t - 1\<rparr>))"

definition date_conv_ftime ::
    "(string \<Rightarrow> string \<Rightarrow> int list) \<Rightarrow> tm \<Rightarrow> string \<Rightarrow> tm option" where
  "date_conv_ftime sscanf t str =
     (let a = sscanf str ''%d:%d:%d''; b = sscanf str ''%d:%d'';
          c = sscanf str ''%d.%d-%d:%d:%d''; d = sscanf str ''%d.%d-%d:%d'';
          e = sscanf str ''%d.%d.%d-%d:%d:%d''; f = sscanf str ''%d.%d.%d-%d:%d''
      in if length a = 3 then Some (t\<lparr>tm_hour := a ! 0, tm_min := a ! 1, tm_sec := a ! 2\<rparr>)
         else if length b = 2 then Some (t\<lparr>tm_hour := b ! 0, tm_min := b ! 1\<rparr>)
         else if length c = 5 then Some (t\<lparr>tm_mon := c ! 0 - 1, tm_mday := c ! 1, tm_hour := c ! 2,
                tm_min := c ! 3, tm_sec := c ! 4\<rparr>)
         else if length d = 4 then Some (t\<lparr>tm_mon := d ! 0 - 1, tm_mday := d ! 1, tm_hour := d ! 2,
                tm_min := d ! 3\<rparr>)
         else if length e = 6 then Some (t\<lparr>tm_year := e ! 0 - 1900, tm_mon := e ! 1 - 1, tm_mday := e ! 2,
                tm_hour := e ! 3, tm_min := e ! 4, tm_sec := e ! 5\<rparr>)
         else if length f = 5 then Some (t\<lparr>tm_year := f ! 0 - 1900, tm_mon := f ! 1 - 1, tm_mday := f ! 2,
                tm_hour := f ! 3, tm_min := f ! 4\<rparr>)
         else None)"

section \<open>The demonstration program\<close>

definition rtc_SetTime :: "u8 list" where
  "rtc_SetTime = [0x30, 0x00, 0x31, 0x50, 0x32, 0x12, 0x33, 0x15, 0x34, 0x09, 0x35, 0xA4]"

section \<open>BCD\<close>

lemma bcd_roundtrip:
  assumes "0 \<le> v" "v < 160"
  shows "bcd_get (bcd_put v) = v"
proof -
  have d: "v sdiv 10 = v div 10" "v smod 10 = v mod 10"
    using assms by (simp_all add: sdiv_nonneg smod_nonneg)
  have b: "0 \<le> v div 10" "v div 10 \<le> 15" "0 \<le> v mod 10" "v mod 10 < 10" using assms by auto
  then have u: "uint (bcd_put v) = v div 10 * 16 + v mod 10"
    unfolding bcd_put_def d uint_word_of_int by (intro mod_pos_pos_trivial) simp_all
  have "(v mod 10 + v div 10 * 16) div 16 = v div 10" "(v mod 10 + v div 10 * 16) mod 16 = v mod 10"
    using b by simp_all
  then show ?thesis unfolding bcd_get_def u by (simp add: add.commute)
qed

section \<open>Setting and reading the clock\<close>

definition tm_ok :: "tm \<Rightarrow> bool" where
  "tm_ok t \<longleftrightarrow> 0 \<le> tm_sec t \<and> tm_sec t < 60 \<and> 0 \<le> tm_min t \<and> tm_min t < 60 \<and>
     0 \<le> tm_hour t \<and> tm_hour t < 24 \<and> 0 \<le> tm_mday t \<and> tm_mday t \<le> 31 \<and>
     0 \<le> tm_mon t \<and> tm_mon t < 12 \<and> 0 \<le> tm_year t \<and> tm_year t < 160"

lemma hour_roundtrip:
  assumes "0 \<le> v" "v < 80"
  shows "bcd_get ((bcd_put v OR 0x80) AND 0x7f) = v"
proof -
  have small: "uint (bcd_put v) < 128"
  proof -
    have "v sdiv 10 = v div 10" "v smod 10 = v mod 10"
      using assms by (simp_all add: sdiv_nonneg smod_nonneg)
    moreover have "0 \<le> v div 10" "v div 10 \<le> 7" "0 \<le> v mod 10" "v mod 10 < 10" using assms by auto
    ultimately show ?thesis
      unfolding bcd_put_def uint_word_of_int by (subst mod_pos_pos_trivial) simp_all
  qed
  have "bcd_put v AND 0x7f = bcd_put v"
  proof (rule bit_word_eqI)
    fix n assume n: "n < LENGTH(8)"
    have m: "(0x7f :: u8) = mask 7" by (simp add: mask_eq_exp_minus_1)
    have "\<not> bit (bcd_put v) 7"
    proof
      assume "bit (bcd_put v) 7"
      then have "bit (uint (bcd_put v)) 7" by (simp add: bit_uint_iff)
      then have "odd (uint (bcd_put v) div 128)" by (simp add: bit_iff_odd)
      with small show False by (simp add: div_pos_pos_trivial)
    qed
    then show "bit (bcd_put v AND 0x7f) n = bit (bcd_put v) n"
      using n unfolding m bit_and_iff bit_mask_iff by (cases "n = 7") auto
  qed
  moreover have "(bcd_put v OR 0x80) AND 0x7f = (bcd_put v AND 0x7f) OR (0x80 AND 0x7f)"
    by (rule and.commute [THEN trans, THEN trans]) (simp_all add: bit.conj_disj_distrib and.commute)
  ultimately show ?thesis using bcd_roundtrip [of v] assms by simp
qed

text \<open>
  C38: What \<open>date\<close> encodes for the clock it decodes to the same broken-down time, for every time
  with a year before 2060: the six data bytes of the setting are the six bytes it expects to read.
\<close>
theorem date_roundtrip:
  assumes "tm_ok t"
  shows "date_get (map (\<lambda>i. date_set t ! (3 * i + 2)) [0..<6]) = t"
  using assms by (simp add: tm_ok_def date_get_def date_set_def bcd_roundtrip hour_roundtrip upt_rec)

theorem date_roundtrip_witness:
  "date_get (map (\<lambda>i. date_set \<lparr>tm_sec = 59, tm_min = 7, tm_hour = 23, tm_mday = 31, tm_mon = 11, tm_year = 104\<rparr>
     ! (3 * i + 2)) [0..<6]) =
     \<lparr>tm_sec = 59, tm_min = 7, tm_hour = 23, tm_mday = 31, tm_mon = 11, tm_year = 104\<rparr>"
  by (rule date_roundtrip) (simp add: tm_ok_def)

section \<open>What the driver writes\<close>

fun pairs :: "u8 list \<Rightarrow> (u8 \<times> u8) list" where
  "pairs (a # b # r) = (a, b) # pairs r"
| "pairs _ = []"

definition clock_writes :: "(u8 \<times> u8) list \<Rightarrow> iic_reg ev list" where
  "clock_writes ps = concat (map (\<lambda>(r, d). write_acts 0xde [0, r, d]) ps)"

lemma addr_bytes_byte: "addr_bytes (ucast (r :: u8)) = [0, r]"
  by simp

lemma rtc_wr_loop_acts:
  assumes "iic_live dev" "length (iicData s) = 32" "even (length dbuf)"
  shows "\<exists>s'. rtc_wr_loop dev dbuf s = Some s' \<and> iic_bad s' = iic_bad s \<and>
    acts (bus s') = acts (bus s) @ clock_writes (pairs dbuf)"
  using assms
proof (induction dev dbuf s rule: rtc_wr_loop.induct)
  case (3 dev reg data dbuf s)
  obtain t where t: "Wr2410Iic dev 0xde (ucast reg) data s = Some t" "iic_bad t = iic_bad s"
    "length (iicData t) = 32" "acts (bus t) = acts (bus s) @ write_acts 0xde [0, reg, data]"
    using Wr2410Iic_acts [OF 3(2,3), of "0xde" "ucast reg" data] unfolding addr_bytes_byte by auto
  then obtain s' where "rtc_wr_loop dev dbuf t = Some s'" "iic_bad s' = iic_bad t"
    "acts (bus s') = acts (bus t) @ clock_writes (pairs dbuf)"
    using 3 by auto
  with t show ?case by (simp add: clock_writes_def)
qed (simp_all add: clock_writes_def)

lemma rtc_wr_acts:
  assumes "iic_live dev" "length (iicData s) = 32" "even (length dbuf)"
  shows "\<exists>s' up con. rtc_wr dev dbuf s = Some (0, s') \<and> iic_bad s' = iic_bad s \<and>
    acts (bus s') = acts (bus s) @ init_acts up con @ clock_writes ((0x3f, 2) # (0x3f, 6) # pairs dbuf)"
proof -
  obtain up con where i: "acts (bus (Init_Iic dev s)) = acts (bus s) @ init_acts up con"
    using Init_Iic_acts [of dev s] by blast
  obtain t where t: "Wr2410Iic dev 0xde 0x3f 2 (Init_Iic dev s) = Some t" "iic_bad t = iic_bad s"
    "length (iicData t) = 32" "acts (bus t) = acts (bus (Init_Iic dev s)) @ write_acts 0xde [0, 0x3f, 2]"
    using Wr2410Iic_acts [OF assms(1), of "Init_Iic dev s" "0xde" "0x3f" 2] assms(2) by auto
  obtain u where u: "Wr2410Iic dev 0xde 0x3f 6 t = Some u" "iic_bad u = iic_bad t"
    "length (iicData u) = 32" "acts (bus u) = acts (bus t) @ write_acts 0xde [0, 0x3f, 6]"
    using Wr2410Iic_acts [OF assms(1) t(3), of "0xde" "0x3f" 6] by auto
  obtain s' where s': "rtc_wr_loop dev dbuf u = Some s'" "iic_bad s' = iic_bad u"
    "acts (bus s') = acts (bus u) @ clock_writes (pairs dbuf)"
    using rtc_wr_loop_acts [OF assms(1) u(3) assms(3)] by auto
  show ?thesis
    using i t u s' by (intro exI [of _ s'] exI [of _ up] exI [of _ con]) (simp add: rtc_wr_def clock_writes_def)
qed

text \<open>
  A write of register/value pairs to the clock device initialises the controller, unlocks the
  chip in the two steps the X1227 needs (2, then 6, to register 0x3f) and then performs one byte write
  to the clock registers for each pair, in order.
\<close>
theorem rtc_write_pairs:
  assumes "iic_live dev" "length (iicData s) = 32" "even (length dbuf)"
  shows "\<exists>s' up con. rtc_wr dev dbuf s = Some (0, s') \<and> iic_bad s' = iic_bad s \<and>
    acts (bus s') = acts (bus s) @ init_acts up con @ clock_writes ((0x3f, 2) # (0x3f, 6) # pairs dbuf)"
  using assms by (rule rtc_wr_acts)

theorem rtc_write_pairs_witness:
  "\<exists>s'. rtc_wr (iic_chip 0x15) rtc_SetTime iic_zero = Some (0, s') \<and> \<not> iic_bad s'"
proof -
  have "iic_live (iic_chip 0x15)" by (rule iic_chip_live)
  from rtc_write_pairs [OF this, of iic_zero rtc_SetTime] show ?thesis
    by (auto simp: iic_zero_def IICBUFSIZE_def rtc_SetTime_def)
qed

text \<open>
  The \<open>date\<close> command sends three bytes per register (two address bytes and the value), the
  driver takes two: seconds, hours and months never reach their registers 0x30, 0x32 and 0x34, and
  values are written to the registers numbered by the second, the hour and the month instead.
\<close>
theorem date_set_misread_by_driver:
  assumes "iic_live dev" "length (iicData s) = 32"
  shows "\<exists>s' up con. rtc_wr dev (date_set t) s = Some (0, s') \<and>
    acts (bus s') = acts (bus s) @ init_acts up con @ clock_writes
      [(0x3f, 2), (0x3f, 6), (0, 0x30), (bcd_put (tm_sec t), 0), (0x31, bcd_put (tm_min t)),
       (0, 0x32), (bcd_put (tm_hour t) OR 0x80, 0), (0x33, bcd_put (tm_mday t)),
       (0, 0x34), (bcd_put (tm_mon t), 0), (0x35, bcd_put (tm_year t))]"
  using rtc_wr_acts [OF assms, of "date_set t"] by (auto simp: date_set_def)

theorem date_set_misread_by_driver_witness:
  "\<exists>s'. rtc_wr (iic_chip 0x15) (date_set \<lparr>tm_sec = 9, tm_min = 7, tm_hour = 5, tm_mday = 31, tm_mon = 11, tm_year = 104\<rparr>)
     iic_zero = Some (0, s')"
proof -
  have "iic_live (iic_chip 0x15)" by (rule iic_chip_live)
  from date_set_misread_by_driver [OF this, of iic_zero
      "\<lparr>tm_sec = 9, tm_min = 7, tm_hour = 5, tm_mday = 31, tm_mon = 11, tm_year = 104\<rparr>"]
  show ?thesis by (auto simp: iic_zero_def IICBUFSIZE_def)
qed

end
