(* ===== verification/Mcp_Regs.thy ===== *)
theory Mcp_Regs
  imports Lab_Prelude
begin

text \<open>
  The register map and the command bytes of the MCP2510 CAN controller, as
  \<open>EXP15/driver/mcp2510.h\<close> defines them, one datatype per portion of the header.
\<close>

datatype ctl_reg =
    CANSTAT | CANCTRL | BFPCTRL | TXRTSCTRL | CNF1 | CNF2 | CNF3 | CANINTE | CANINTF | EFLG
  | TEC | REC | TXB0CTRL | TXB1CTRL | TXB2CTRL | RXB0CTRL | RXB1CTRL

datatype filter_reg =
    RXM0SIDH | RXM0SIDL | RXM0EID8 | RXM0EID0 | RXM1SIDH | RXM1SIDL | RXM1EID8 | RXM1EID0
  | RXF0SIDH | RXF0SIDL | RXF0EID8 | RXF0EID0 | RXF1SIDH | RXF1SIDL | RXF1EID8 | RXF1EID0
  | RXF2SIDH | RXF2SIDL | RXF2EID8 | RXF2EID0 | RXF3SIDH | RXF3SIDL | RXF3EID8 | RXF3EID0
  | RXF4SIDH | RXF4SIDL | RXF4EID8 | RXF4EID0 | RXF5SIDH | RXF5SIDL | RXF5EID8 | RXF5EID0

datatype tx_reg =
    TXB0SIDH | TXB0SIDL | TXB0EID8 | TXB0EID0 | TXB0DLC | TXB0D0 | TXB0D1 | TXB0D2 | TXB0D3
  | TXB0D4 | TXB0D5 | TXB0D6 | TXB0D7 | TXB1SIDH | TXB1SIDL | TXB1EID8 | TXB1EID0 | TXB1DLC
  | TXB1D0 | TXB1D1 | TXB1D2 | TXB1D3 | TXB1D4 | TXB1D5 | TXB1D6 | TXB1D7 | TXB2SIDH | TXB2SIDL
  | TXB2EID8 | TXB2EID0 | TXB2DLC | TXB2D0 | TXB2D1 | TXB2D2 | TXB2D3 | TXB2D4 | TXB2D5 | TXB2D6
  | TXB2D7

datatype rx_reg =
    RXB0SIDH | RXB0SIDL | RXB0EID8 | RXB0EID0 | RXB0DLC | RXB0D0 | RXB0D1 | RXB0D2 | RXB0D3
  | RXB0D4 | RXB0D5 | RXB0D6 | RXB0D7 | RXB1SIDH | RXB1SIDL | RXB1EID8 | RXB1EID0 | RXB1DLC
  | RXB1D0 | RXB1D1 | RXB1D2 | RXB1D3 | RXB1D4 | RXB1D5 | RXB1D6 | RXB1D7

fun ctl_reg_addr :: "ctl_reg \<Rightarrow> u8" where
  "ctl_reg_addr CANSTAT = 0x0e"
| "ctl_reg_addr CANCTRL = 0x0f"
| "ctl_reg_addr BFPCTRL = 0x0c"
| "ctl_reg_addr TXRTSCTRL = 0x0d"
| "ctl_reg_addr CNF1 = 0x2a"
| "ctl_reg_addr CNF2 = 0x29"
| "ctl_reg_addr CNF3 = 0x28"
| "ctl_reg_addr CANINTE = 0x2b"
| "ctl_reg_addr CANINTF = 0x2c"
| "ctl_reg_addr EFLG = 0x2d"
| "ctl_reg_addr TEC = 0x1c"
| "ctl_reg_addr REC = 0x1d"
| "ctl_reg_addr TXB0CTRL = 0x30"
| "ctl_reg_addr TXB1CTRL = 0x40"
| "ctl_reg_addr TXB2CTRL = 0x50"
| "ctl_reg_addr RXB0CTRL = 0x60"
| "ctl_reg_addr RXB1CTRL = 0x70"

fun filter_reg_addr :: "filter_reg \<Rightarrow> u8" where
  "filter_reg_addr RXM0SIDH = 0x20"
| "filter_reg_addr RXM0SIDL = 0x21"
| "filter_reg_addr RXM0EID8 = 0x22"
| "filter_reg_addr RXM0EID0 = 0x23"
| "filter_reg_addr RXM1SIDH = 0x24"
| "filter_reg_addr RXM1SIDL = 0x25"
| "filter_reg_addr RXM1EID8 = 0x26"
| "filter_reg_addr RXM1EID0 = 0x27"
| "filter_reg_addr RXF0SIDH = 0x00"
| "filter_reg_addr RXF0SIDL = 0x01"
| "filter_reg_addr RXF0EID8 = 0x02"
| "filter_reg_addr RXF0EID0 = 0x03"
| "filter_reg_addr RXF1SIDH = 0x04"
| "filter_reg_addr RXF1SIDL = 0x05"
| "filter_reg_addr RXF1EID8 = 0x06"
| "filter_reg_addr RXF1EID0 = 0x07"
| "filter_reg_addr RXF2SIDH = 0x08"
| "filter_reg_addr RXF2SIDL = 0x09"
| "filter_reg_addr RXF2EID8 = 0x0a"
| "filter_reg_addr RXF2EID0 = 0x0b"
| "filter_reg_addr RXF3SIDH = 0x10"
| "filter_reg_addr RXF3SIDL = 0x11"
| "filter_reg_addr RXF3EID8 = 0x12"
| "filter_reg_addr RXF3EID0 = 0x13"
| "filter_reg_addr RXF4SIDH = 0x14"
| "filter_reg_addr RXF4SIDL = 0x15"
| "filter_reg_addr RXF4EID8 = 0x16"
| "filter_reg_addr RXF4EID0 = 0x17"
| "filter_reg_addr RXF5SIDH = 0x18"
| "filter_reg_addr RXF5SIDL = 0x19"
| "filter_reg_addr RXF5EID8 = 0x1a"
| "filter_reg_addr RXF5EID0 = 0x1b"

fun tx_reg_addr :: "tx_reg \<Rightarrow> u8" where
  "tx_reg_addr TXB0SIDH = 0x31"
| "tx_reg_addr TXB0SIDL = 0x32"
| "tx_reg_addr TXB0EID8 = 0x33"
| "tx_reg_addr TXB0EID0 = 0x34"
| "tx_reg_addr TXB0DLC = 0x35"
| "tx_reg_addr TXB0D0 = 0x36"
| "tx_reg_addr TXB0D1 = 0x37"
| "tx_reg_addr TXB0D2 = 0x38"
| "tx_reg_addr TXB0D3 = 0x39"
| "tx_reg_addr TXB0D4 = 0x3a"
| "tx_reg_addr TXB0D5 = 0x3b"
| "tx_reg_addr TXB0D6 = 0x3c"
| "tx_reg_addr TXB0D7 = 0x3d"
| "tx_reg_addr TXB1SIDH = 0x41"
| "tx_reg_addr TXB1SIDL = 0x42"
| "tx_reg_addr TXB1EID8 = 0x43"
| "tx_reg_addr TXB1EID0 = 0x44"
| "tx_reg_addr TXB1DLC = 0x45"
| "tx_reg_addr TXB1D0 = 0x46"
| "tx_reg_addr TXB1D1 = 0x47"
| "tx_reg_addr TXB1D2 = 0x48"
| "tx_reg_addr TXB1D3 = 0x49"
| "tx_reg_addr TXB1D4 = 0x4a"
| "tx_reg_addr TXB1D5 = 0x4b"
| "tx_reg_addr TXB1D6 = 0x4c"
| "tx_reg_addr TXB1D7 = 0x4d"
| "tx_reg_addr TXB2SIDH = 0x51"
| "tx_reg_addr TXB2SIDL = 0x52"
| "tx_reg_addr TXB2EID8 = 0x53"
| "tx_reg_addr TXB2EID0 = 0x54"
| "tx_reg_addr TXB2DLC = 0x55"
| "tx_reg_addr TXB2D0 = 0x56"
| "tx_reg_addr TXB2D1 = 0x57"
| "tx_reg_addr TXB2D2 = 0x58"
| "tx_reg_addr TXB2D3 = 0x59"
| "tx_reg_addr TXB2D4 = 0x5a"
| "tx_reg_addr TXB2D5 = 0x5b"
| "tx_reg_addr TXB2D6 = 0x5c"
| "tx_reg_addr TXB2D7 = 0x5d"

fun rx_reg_addr :: "rx_reg \<Rightarrow> u8" where
  "rx_reg_addr RXB0SIDH = 0x61"
| "rx_reg_addr RXB0SIDL = 0x62"
| "rx_reg_addr RXB0EID8 = 0x63"
| "rx_reg_addr RXB0EID0 = 0x64"
| "rx_reg_addr RXB0DLC = 0x65"
| "rx_reg_addr RXB0D0 = 0x66"
| "rx_reg_addr RXB0D1 = 0x67"
| "rx_reg_addr RXB0D2 = 0x68"
| "rx_reg_addr RXB0D3 = 0x69"
| "rx_reg_addr RXB0D4 = 0x6a"
| "rx_reg_addr RXB0D5 = 0x6b"
| "rx_reg_addr RXB0D6 = 0x6c"
| "rx_reg_addr RXB0D7 = 0x6d"
| "rx_reg_addr RXB1SIDH = 0x71"
| "rx_reg_addr RXB1SIDL = 0x72"
| "rx_reg_addr RXB1EID8 = 0x73"
| "rx_reg_addr RXB1EID0 = 0x74"
| "rx_reg_addr RXB1DLC = 0x75"
| "rx_reg_addr RXB1D0 = 0x76"
| "rx_reg_addr RXB1D1 = 0x77"
| "rx_reg_addr RXB1D2 = 0x78"
| "rx_reg_addr RXB1D3 = 0x79"
| "rx_reg_addr RXB1D4 = 0x7a"
| "rx_reg_addr RXB1D5 = 0x7b"
| "rx_reg_addr RXB1D6 = 0x7c"
| "rx_reg_addr RXB1D7 = 0x7d"

datatype mcp_reg = Ctl ctl_reg | Filter filter_reg | Tx tx_reg | Rx rx_reg

fun mcp_addr :: "mcp_reg \<Rightarrow> u8" where
  "mcp_addr (Ctl r) = ctl_reg_addr r"
| "mcp_addr (Filter r) = filter_reg_addr r"
| "mcp_addr (Tx r) = tx_reg_addr r"
| "mcp_addr (Rx r) = rx_reg_addr r"

datatype mcp_cmd =
    CMD_WRITE | CMD_READ | CMD_RESET | CMD_STATUS | CMD_MODIFY | CMD_RTS0 | CMD_RTS1 | CMD_RTS2

fun mcp_cmd_byte :: "mcp_cmd \<Rightarrow> u8" where
  "mcp_cmd_byte CMD_WRITE = 0x02"
| "mcp_cmd_byte CMD_READ = 0x03"
| "mcp_cmd_byte CMD_RESET = 0xc0"
| "mcp_cmd_byte CMD_STATUS = 0xa0"
| "mcp_cmd_byte CMD_MODIFY = 0x05"
| "mcp_cmd_byte CMD_RTS0 = 0x81"
| "mcp_cmd_byte CMD_RTS1 = 0x82"
| "mcp_cmd_byte CMD_RTS2 = 0x83"

section \<open>No two registers share an address\<close>

text \<open>All registers in the order of their addresses.\<close>

definition all_regs :: "mcp_reg list" where
  "all_regs =
    [Filter RXF0SIDH, Filter RXF0SIDL, Filter RXF0EID8, Filter RXF0EID0, Filter RXF1SIDH,
     Filter RXF1SIDL, Filter RXF1EID8, Filter RXF1EID0, Filter RXF2SIDH, Filter RXF2SIDL,
     Filter RXF2EID8, Filter RXF2EID0, Ctl BFPCTRL, Ctl TXRTSCTRL, Ctl CANSTAT, Ctl CANCTRL,
     Filter RXF3SIDH, Filter RXF3SIDL, Filter RXF3EID8, Filter RXF3EID0, Filter RXF4SIDH,
     Filter RXF4SIDL, Filter RXF4EID8, Filter RXF4EID0, Filter RXF5SIDH, Filter RXF5SIDL,
     Filter RXF5EID8, Filter RXF5EID0, Ctl TEC, Ctl REC, Filter RXM0SIDH, Filter RXM0SIDL,
     Filter RXM0EID8, Filter RXM0EID0, Filter RXM1SIDH, Filter RXM1SIDL, Filter RXM1EID8,
     Filter RXM1EID0, Ctl CNF3, Ctl CNF2, Ctl CNF1, Ctl CANINTE, Ctl CANINTF, Ctl EFLG,
     Ctl TXB0CTRL, Tx TXB0SIDH, Tx TXB0SIDL, Tx TXB0EID8, Tx TXB0EID0, Tx TXB0DLC, Tx TXB0D0,
     Tx TXB0D1, Tx TXB0D2, Tx TXB0D3, Tx TXB0D4, Tx TXB0D5, Tx TXB0D6, Tx TXB0D7, Ctl TXB1CTRL,
     Tx TXB1SIDH, Tx TXB1SIDL, Tx TXB1EID8, Tx TXB1EID0, Tx TXB1DLC, Tx TXB1D0, Tx TXB1D1,
     Tx TXB1D2, Tx TXB1D3, Tx TXB1D4, Tx TXB1D5, Tx TXB1D6, Tx TXB1D7, Ctl TXB2CTRL,
     Tx TXB2SIDH, Tx TXB2SIDL, Tx TXB2EID8, Tx TXB2EID0, Tx TXB2DLC, Tx TXB2D0, Tx TXB2D1,
     Tx TXB2D2, Tx TXB2D3, Tx TXB2D4, Tx TXB2D5, Tx TXB2D6, Tx TXB2D7, Ctl RXB0CTRL,
     Rx RXB0SIDH, Rx RXB0SIDL, Rx RXB0EID8, Rx RXB0EID0, Rx RXB0DLC, Rx RXB0D0, Rx RXB0D1,
     Rx RXB0D2, Rx RXB0D3, Rx RXB0D4, Rx RXB0D5, Rx RXB0D6, Rx RXB0D7, Ctl RXB1CTRL,
     Rx RXB1SIDH, Rx RXB1SIDL, Rx RXB1EID8, Rx RXB1EID0, Rx RXB1DLC, Rx RXB1D0, Rx RXB1D1,
     Rx RXB1D2, Rx RXB1D3, Rx RXB1D4, Rx RXB1D5, Rx RXB1D6, Rx RXB1D7]"

lemma all_regs_complete: "r \<in> set all_regs"
proof (cases r)
  case (Ctl x) then show ?thesis by (cases x) (simp_all add: all_regs_def)
next
  case (Filter x) then show ?thesis by (cases x) (simp_all add: all_regs_def)
next
  case (Tx x) then show ?thesis by (cases x) (simp_all add: all_regs_def)
next
  case (Rx x) then show ?thesis by (cases x) (simp_all add: all_regs_def)
qed

lemma all_regs_ascending: "successively (<) (map (\<lambda>r. uint (mcp_addr r)) all_regs)"
  by (simp add: all_regs_def)

text \<open>
  The header gives the 114 registers of the controller pairwise different addresses.
\<close>
theorem mcp_addr_injective: "inj mcp_addr"
proof (rule injI)
  fix r q assume eq: "mcp_addr r = mcp_addr q"
  have "sorted_wrt (<) (map (\<lambda>r. uint (mcp_addr r)) all_regs)"
    using all_regs_ascending by (simp add: successively_conv_sorted_wrt)
  then have "distinct (map (\<lambda>r. uint (mcp_addr r)) all_regs)"
    by (simp add: strict_sorted_iff)
  then have "inj_on (\<lambda>r. uint (mcp_addr r)) (set all_regs)" by (simp add: distinct_map)
  then show "r = q" by (rule inj_onD) (simp_all add: eq all_regs_complete)
qed

end
