(* ===== verification/Mcp.thy ===== *)
theory Mcp
  imports Mmio Mcp_Regs
begin

text \<open>
  The CAN driver \<open>EXP15/driver/mcp2510.c\<close>: the SPI transfer with its bounded status poll, the chip
  commands, initialisation, sending and receiving.  An access outside \<open>TXdata\<close> or \<open>RXdata\<close> sets
  \<open>mcp_bad\<close>.  The chip's side of the bus is the list of frames sent while it is selected.
\<close>

section \<open>State\<close>

datatype spi_reg =
    SPCON0 | SPSTA0 | SPPIN0 | SPPRE0 | SPTDAT0 | SPRDAT0
  | GPECON | GPEUP | GPGCON | GPGUP | GPGDAT | SRCPND | INTPND | EINTPEND

record mcp = "spi_reg machine" +
  TXdata :: "u8 list"
  RXdata :: "u8 list"
  mflag :: u8
  mcp_bad :: bool

definition mcp_zero :: mcp where
  "mcp_zero = \<lparr>bus = [], TXdata = replicate 11 0, RXdata = replicate 11 0, mflag = 0, mcp_bad = False\<rparr>"

section \<open>SPI transfer\<close>

text \<open>At most 5000 looks at the status register, then the code goes on regardless.\<close>

fun spi_poll :: "spi_reg dev \<Rightarrow> nat \<Rightarrow> mcp \<Rightarrow> mcp" where
  "spi_poll dev 0 s = s"
| "spi_poll dev (Suc n) s =
     (let (v, s) = rd dev SPSTA0 s in if v AND 1 \<noteq> 0 then s else spi_poll dev n s)"

definition spi_poll_done :: "spi_reg dev \<Rightarrow> mcp \<Rightarrow> mcp" where
  "spi_poll_done dev s = spi_poll dev 5000 s"

definition spi_tx_data :: "spi_reg dev \<Rightarrow> u8 \<Rightarrow> mcp \<Rightarrow> mcp" where
  "spi_tx_data dev data s = spi_poll_done dev (wr SPTDAT0 (ucast data) (spi_poll_done dev s))"

definition spi_tx_all :: "spi_reg dev \<Rightarrow> u8 list \<Rightarrow> mcp \<Rightarrow> mcp" where
  "spi_tx_all dev bs s = fold (spi_tx_data dev) bs s"

definition chip_select :: "spi_reg dev \<Rightarrow> mcp \<Rightarrow> mcp" where
  "chip_select dev s = (let (v, s) = rd dev GPGDAT s in udelay 100000 (wr GPGDAT (v AND NOT 0x4000) s))"

definition chip_unselect :: "spi_reg dev \<Rightarrow> mcp \<Rightarrow> mcp" where
  "chip_unselect dev s = (let (v, s) = rd dev GPGDAT s in wr GPGDAT (v OR 0x4000) s)"

section \<open>Chip commands\<close>

definition Write_2510 :: "spi_reg dev \<Rightarrow> mcp_reg \<Rightarrow> u8 \<Rightarrow> mcp \<Rightarrow> mcp" where
  "Write_2510 dev W_ADD W_DATA s =
     chip_unselect dev (spi_tx_all dev [mcp_cmd_byte CMD_WRITE, mcp_addr W_ADD, W_DATA] (chip_select dev s))"

definition Read_2510 :: "spi_reg dev \<Rightarrow> mcp_reg \<Rightarrow> mcp \<Rightarrow> u8 \<times> mcp" where
  "Read_2510 dev R_ADD s =
     (let s = spi_tx_all dev [mcp_cmd_byte CMD_READ, mcp_addr R_ADD, 0xff] (chip_select dev s);
          (buffer, s) = rd dev SPRDAT0 s
      in (ucast buffer, chip_unselect dev s))"

definition Modify_2510 :: "spi_reg dev \<Rightarrow> mcp_reg \<Rightarrow> u8 \<Rightarrow> u8 \<Rightarrow> mcp \<Rightarrow> mcp" where
  "Modify_2510 dev M_ADD M_MASK M_DATA s =
     chip_unselect dev (spi_tx_all dev [mcp_cmd_byte CMD_MODIFY, mcp_addr M_ADD, M_MASK, M_DATA]
       (chip_select dev s))"

definition SEND_TXB0 :: "spi_reg dev \<Rightarrow> mcp \<Rightarrow> mcp" where
  "SEND_TXB0 dev s = chip_unselect dev (spi_tx_all dev [mcp_cmd_byte CMD_RTS0] (chip_select dev s))"

definition Reset_2510 :: "spi_reg dev \<Rightarrow> mcp \<Rightarrow> mcp" where
  "Reset_2510 dev s = chip_unselect dev (spi_tx_all dev [mcp_cmd_byte CMD_RESET] (chip_select dev s))"

definition rmw :: "spi_reg dev \<Rightarrow> spi_reg \<Rightarrow> (u32 \<Rightarrow> u32) \<Rightarrow> mcp \<Rightarrow> mcp" where
  "rmw dev r f s = (let (v, s) = rd dev r s in wr r (f v) s)"

definition Init_SPI :: "spi_reg dev \<Rightarrow> mcp \<Rightarrow> mcp" where
  "Init_SPI dev s =
     (let s = wr SPCON0 0x18 (wr SPPRE0 0xff s);
          s = ((wr SPTDAT0 0xff) ^^ 10) s;
          s = rmw dev GPECON (\<lambda>v. v OR 0x0a800000) s;
          s = rmw dev GPECON (\<lambda>v. v AND NOT 0x05400000) s;
          s = rmw dev GPEUP (\<lambda>v. v OR 0x3800) s;
          s = rmw dev GPGCON (\<lambda>v. v OR 0x10000000) s;
          s = rmw dev GPGCON (\<lambda>v. v AND NOT 0x20000000) s;
          s = rmw dev GPGUP (\<lambda>v. v AND NOT 0x4000) s
      in rmw dev GPGDAT (\<lambda>v. v OR 0x4000) s)"

section \<open>Initialisation\<close>

text \<open>\<open>while (1) { buffer = Read_2510(CANSTAT); if ((buffer & 0xe0) == mode) break; }\<close>\<close>

definition look_mode :: "spi_reg dev \<Rightarrow> u8 \<times> mcp \<Rightarrow> u8 \<times> mcp" where
  "look_mode dev p = Read_2510 dev (Ctl CANSTAT) (snd p)"

definition wait_mode :: "spi_reg dev \<Rightarrow> u8 \<Rightarrow> mcp \<Rightarrow> mcp option" where
  "wait_mode dev mode s =
     map_option snd (while_option (\<lambda>p. \<not> fst p AND 0xe0 = mode) (look_mode dev)
       (Read_2510 dev (Ctl CANSTAT) s))"

definition init_writes :: "(mcp_reg \<times> u8) list" where
  "init_writes =
     [(Ctl CNF1, 0x07), (Ctl CNF2, 0x90), (Ctl CNF3, 0x02), (Ctl CANINTE, 0x02),
      (Filter RXM0SIDH, 0xff), (Filter RXM0SIDL, 0xff), (Filter RXF0SIDH, 0xff),
      (Filter RXF0SIDL, 0xff), (Filter RXF1SIDH, 0xff), (Filter RXF1SIDL, 0xff),
      (Filter RXM1SIDH, 0xff), (Filter RXM1SIDL, 0xe0),
      (Filter RXF2SIDH, 0xa0), (Filter RXF2SIDL, 0x00), (Filter RXF3SIDH, 0xa1),
      (Filter RXF3SIDL, 0x00), (Filter RXF4SIDH, 0xa2), (Filter RXF4SIDL, 0x00),
      (Filter RXF5SIDH, 0xa3), (Filter RXF5SIDL, 0x00), (Ctl RXB1CTRL, 0x22)]"

definition Init_MCP2510 :: "spi_reg dev \<Rightarrow> mcp \<Rightarrow> mcp option" where
  "Init_MCP2510 dev s = do {
     let s = Reset_2510 dev s;
     let s = Modify_2510 dev (Ctl CANCTRL) 0x07 0x00 (Modify_2510 dev (Ctl CANCTRL) 0xe0 0x80 s);
     s \<leftarrow> wait_mode dev 0x80 s;
     let s = fold (\<lambda>(r, d). Write_2510 dev r d) init_writes s;
     let s = Modify_2510 dev (Ctl CANCTRL) 0xe0 0x00 s;
     wait_mode dev 0x00 s
   }"

section \<open>Sending and receiving\<close>

definition tx_get :: "nat \<Rightarrow> mcp \<Rightarrow> u8 \<times> mcp" where
  "tx_get i s = (if i < 11 then (TXdata s ! i, s) else (0, s\<lparr>mcp_bad := True\<rparr>))"

definition tx_put :: "nat \<Rightarrow> u8 \<Rightarrow> mcp \<Rightarrow> mcp" where
  "tx_put i v s = (if i < 11 then s\<lparr>TXdata := (TXdata s)[i := v]\<rparr> else s\<lparr>mcp_bad := True\<rparr>)"

definition rx_put :: "nat \<Rightarrow> u8 \<Rightarrow> mcp \<Rightarrow> mcp" where
  "rx_put i v s = (if i < 11 then s\<lparr>RXdata := (RXdata s)[i := v]\<rparr> else s\<lparr>mcp_bad := True\<rparr>)"

definition can_data_send :: "spi_reg dev \<Rightarrow> mcp \<Rightarrow> mcp" where
  "can_data_send dev s =
     (let len = unat (TXdata s ! 2);
          s = Write_2510 dev (Tx TXB0SIDH) (TXdata s ! 0) s;
          s = Write_2510 dev (Tx TXB0SIDL) (TXdata s ! 1) s;
          s = Write_2510 dev (Tx TXB0DLC) (TXdata s ! 2) s;
          s = spi_tx_all dev [mcp_cmd_byte CMD_WRITE, mcp_addr (Tx TXB0D0)] (chip_select dev s);
          s = fold (\<lambda>i s. let (v, s) = tx_get (i + 3) s in spi_tx_data dev v s) [0..<len] s
      in SEND_TXB0 dev (chip_unselect dev s))"

definition rx_round :: "spi_reg dev \<Rightarrow> nat \<Rightarrow> mcp \<Rightarrow> mcp" where
  "rx_round dev i s = (let s = spi_tx_data dev 0xff s; (v, s) = rd dev SPRDAT0 s in rx_put i (ucast v) s)"

definition can_data_receive :: "spi_reg dev \<Rightarrow> mcp \<Rightarrow> mcp" where
  "can_data_receive dev s =
     (let (len, s) = Read_2510 dev (Rx RXB1DLC) s;
          s = spi_tx_all dev [mcp_cmd_byte CMD_READ, mcp_addr (Rx RXB1D0)] (chip_select dev s);
          s = fold (rx_round dev) [0..<unat len] s
      in chip_unselect dev s)"

definition can_interrupt :: "spi_reg dev \<Rightarrow> mcp \<Rightarrow> mcp" where
  "can_interrupt dev s =
     (let (buffer, s) = Read_2510 dev (Ctl CANSTAT) s;
          s = rmw dev SRCPND (\<lambda>v. v AND NOT 0x20) s;
          s = rmw dev INTPND (\<lambda>v. v) s;
          s = rmw dev EINTPEND (\<lambda>v. v AND NOT 0x00200000) s
      in if buffer AND 0x0e = 0x0e then (can_data_receive dev s)\<lparr>mflag := 0xff\<rparr> else s)"

section \<open>The device node\<close>

definition mcp2510_rd :: "nat \<Rightarrow> mcp \<Rightarrow> int \<times> u8 list \<times> mcp" where
  "mcp2510_rd count s =
     (0, map (\<lambda>i. if i < 11 then RXdata s ! i else 0) [0..<count],
      if count \<le> 11 then s else s\<lparr>mcp_bad := True\<rparr>)"

definition mcp2510_wr :: "spi_reg dev \<Rightarrow> u8 list \<Rightarrow> mcp \<Rightarrow> int \<times> mcp" where
  "mcp2510_wr dev dbuf s =
     (let s = tx_put 2 (of_nat (length dbuf)) (tx_put 1 0x00 (tx_put 0 0xb0 s));
          s = fold (\<lambda>i. tx_put (i + 3) (dbuf ! i)) [0..<length dbuf] s
      in (0, can_data_send dev s))"

definition mcp2510_ioctl :: "u32 \<Rightarrow> int" where "mcp2510_ioctl cmd = -515"
definition mcp2510_open :: int where "mcp2510_open = 0"
definition mcp2510_close :: int where "mcp2510_close = 0"

text \<open>The module start: the interrupt request's result is a parameter, 0 for success.\<close>

definition mcp2510_init :: "spi_reg dev \<Rightarrow> int \<Rightarrow> mcp \<Rightarrow> (int \<times> mcp) option" where
  "mcp2510_init dev irq_result s =
     (let s = wr GPGUP 0 s in
      if irq_result \<noteq> 0 then Some (irq_result, s)
      else do {
        let s = spi_tx_all dev (replicate 14 0xff) (Init_SPI dev s);
        s \<leftarrow> Init_MCP2510 dev s;
        Some (0, s)
      })"

text \<open>The first test: the five registers it reads back and prints.\<close>

definition mcp_Test :: "spi_reg dev \<Rightarrow> mcp \<Rightarrow> u8 list \<times> mcp" where
  "mcp_Test dev s =
     (let s = Reset_2510 dev s;
          s = Modify_2510 dev (Ctl CANCTRL) 0x07 0x00 (Modify_2510 dev (Ctl CANCTRL) 0xe0 0x80 s);
          s = Write_2510 dev (Ctl CNF3) 0x02 (Write_2510 dev (Ctl CNF2) 0x10 (Write_2510 dev (Ctl CNF1) 0x07 s));
          s = Write_2510 dev (Ctl RXB0CTRL) 0x60 s;
          (b0, s) = Read_2510 dev (Ctl CANSTAT) s;
          (b1, s) = Read_2510 dev (Ctl CNF1) s;
          (b2, s) = Read_2510 dev (Ctl CNF2) s;
          (b3, s) = Read_2510 dev (Ctl CNF3) s;
          (b4, s) = Read_2510 dev (Ctl RXB0CTRL) s
      in ([b0, b1, b2, b3, b4], s))"

definition send_test_frame :: "spi_reg dev \<Rightarrow> mcp \<Rightarrow> mcp" where
  "send_test_frame dev s =
     can_data_send dev (s\<lparr>TXdata := [0xa0, 0x00, 0x08, 0x41, 0x42, 0x43, 0x44, 0x45, 0x46, 0x47, 0x48]\<rparr>)"

section \<open>What the chip sees\<close>

record chip_view =
  selected :: bool
  frame :: "u8 list"
  frames :: "u8 list list"

fun view_step :: "chip_view \<Rightarrow> spi_reg ev \<Rightarrow> chip_view" where
  "view_step c (Wr r v) =
     (if r = SPTDAT0 then if selected c then c\<lparr>frame := frame c @ [ucast v]\<rparr> else c
      else if r = GPGDAT then
        if bit v 14 then if selected c then c\<lparr>selected := False, frame := [], frames := frames c @ [frame c]\<rparr> else c
        else if selected c then c else c\<lparr>selected := True, frame := []\<rparr>
      else c)"
| "view_step c _ = c"

definition view :: "spi_reg ev list \<Rightarrow> chip_view" where
  "view h = foldl view_step \<lparr>selected = False, frame = [], frames = []\<rparr> h"

abbreviation chip :: "mcp \<Rightarrow> chip_view" where "chip s \<equiv> view (bus s)"

definition idle :: "mcp \<Rightarrow> bool" where
  "idle s \<longleftrightarrow> \<not> selected (chip s) \<and> frame (chip s) = []"

lemma view_append [simp]: "view (h @ k) = foldl view_step (view h) k"
  by (simp add: view_def)

lemma machine_frame [simp]:
  "TXdata (emit e s) = TXdata s" "RXdata (emit e s) = RXdata s" "mflag (emit e s) = mflag s"
  "mcp_bad (emit e s) = mcp_bad s"
  "TXdata (wr r v s) = TXdata s" "RXdata (wr r v s) = RXdata s" "mflag (wr r v s) = mflag s"
  "mcp_bad (wr r v s) = mcp_bad s"
  "TXdata (udelay n s) = TXdata s" "RXdata (udelay n s) = RXdata s" "mflag (udelay n s) = mflag s"
  "mcp_bad (udelay n s) = mcp_bad s"
  by (simp_all add: emit_def wr_def udelay_def)

lemma spi_poll_frame [simp]:
  "chip (spi_poll dev n s) = chip s" "TXdata (spi_poll dev n s) = TXdata s"
  "RXdata (spi_poll dev n s) = RXdata s" "mflag (spi_poll dev n s) = mflag s"
  "mcp_bad (spi_poll dev n s) = mcp_bad s"
  by (induction n arbitrary: s) (simp_all add: rd_def)

lemma spi_tx_data_frame [simp]:
  "TXdata (spi_tx_data dev b s) = TXdata s" "RXdata (spi_tx_data dev b s) = RXdata s"
  "mflag (spi_tx_data dev b s) = mflag s" "mcp_bad (spi_tx_data dev b s) = mcp_bad s"
  by (simp_all add: spi_tx_data_def spi_poll_done_def)

lemma chip_spi_tx_data [simp]:
  "chip (spi_tx_data dev b s) =
     (if selected (chip s) then (chip s)\<lparr>frame := frame (chip s) @ [b]\<rparr> else chip s)"
  by (simp add: spi_tx_data_def spi_poll_done_def)

lemma spi_tx_all_frame [simp]:
  "TXdata (spi_tx_all dev bs s) = TXdata s" "RXdata (spi_tx_all dev bs s) = RXdata s"
  "mflag (spi_tx_all dev bs s) = mflag s" "mcp_bad (spi_tx_all dev bs s) = mcp_bad s"
  by (induction bs arbitrary: s) (simp_all add: spi_tx_all_def)

lemma chip_spi_tx_all [simp]:
  "chip (spi_tx_all dev bs s) =
     (if selected (chip s) then (chip s)\<lparr>frame := frame (chip s) @ bs\<rparr> else chip s)"
  by (induction bs arbitrary: s) (simp_all add: spi_tx_all_def)

lemma bit14:
  "\<not> bit (v AND NOT 0x4000 :: u32) 14" "bit (v OR 0x4000 :: u32) 14"
proof -
  have "(0x4000 :: u32) = push_bit 14 1" by simp
  then have "bit (0x4000 :: u32) 14" by (simp add: bit_push_bit_iff possible_bit_word)
  then show "\<not> bit (v AND NOT 0x4000 :: u32) 14" "bit (v OR 0x4000 :: u32) 14"
    by (simp_all add: bit_and_iff bit_or_iff bit_not_iff)
qed

lemma chip_select_eq [simp]:
  "chip (chip_select dev s) = (if selected (chip s) then chip s else (chip s)\<lparr>selected := True, frame := []\<rparr>)"
  "TXdata (chip_select dev s) = TXdata s" "RXdata (chip_select dev s) = RXdata s"
  "mflag (chip_select dev s) = mflag s" "mcp_bad (chip_select dev s) = mcp_bad s"
  using bit14 by (simp_all add: chip_select_def rd_def)

lemma chip_unselect_eq [simp]:
  "chip (chip_unselect dev s) = (if selected (chip s)
     then (chip s)\<lparr>selected := False, frame := [], frames := frames (chip s) @ [frame (chip s)]\<rparr> else chip s)"
  "TXdata (chip_unselect dev s) = TXdata s" "RXdata (chip_unselect dev s) = RXdata s"
  "mflag (chip_unselect dev s) = mflag s" "mcp_bad (chip_unselect dev s) = mcp_bad s"
  using bit14 by (simp_all add: chip_unselect_def rd_def)

text \<open>A step that sends the frames \<open>fs\<close> and is idle again.\<close>

definition sends :: "mcp \<Rightarrow> u8 list list \<Rightarrow> mcp \<Rightarrow> bool" where
  "sends s fs s' \<longleftrightarrow> (idle s \<longrightarrow> idle s' \<and> frames (chip s') = frames (chip s) @ fs)"

lemma sends_refl [simp]: "sends s [] s"
  by (simp add: sends_def)

lemma sends_trans: "sends s fs t \<Longrightarrow> sends t gs u \<Longrightarrow> sends s (fs @ gs) u"
  by (auto simp: sends_def)

lemma sends_command: "sends s [bs] (chip_unselect dev (spi_tx_all dev bs (chip_select dev s)))"
  by (simp add: sends_def idle_def)

lemma sends_Write: "sends s [[2, mcp_addr r, d]] (Write_2510 dev r d s)"
  using sends_command [of s "[2, mcp_addr r, d]" dev] by (simp add: Write_2510_def)

lemma sends_Modify: "sends s [[5, mcp_addr r, m, d]] (Modify_2510 dev r m d s)"
  using sends_command [of s "[5, mcp_addr r, m, d]" dev] by (simp add: Modify_2510_def)

lemma sends_RTS: "sends s [[0x81]] (SEND_TXB0 dev s)"
  using sends_command [of s "[0x81]" dev] by (simp add: SEND_TXB0_def)

lemma sends_Reset: "sends s [[0xc0]] (Reset_2510 dev s)"
  using sends_command [of s "[0xc0]" dev] by (simp add: Reset_2510_def)

lemma sends_Read: "sends s [[3, mcp_addr r, 0xff]] (snd (Read_2510 dev r s))"
  by (simp add: sends_def idle_def Read_2510_def Let_def rd_def)

lemma command_frame [simp]:
  "mcp_bad (Write_2510 dev r d s) = mcp_bad s" "TXdata (Write_2510 dev r d s) = TXdata s"
  "RXdata (Write_2510 dev r d s) = RXdata s"
  "mcp_bad (Modify_2510 dev r m d s) = mcp_bad s" "mcp_bad (SEND_TXB0 dev s) = mcp_bad s"
  "mcp_bad (Reset_2510 dev s) = mcp_bad s" "mcp_bad (snd (Read_2510 dev r s)) = mcp_bad s"
  "RXdata (snd (Read_2510 dev r s)) = RXdata s"
  by (simp_all add: Write_2510_def Modify_2510_def SEND_TXB0_def Reset_2510_def Read_2510_def Let_def rd_def)

lemma sends_writes: "sends s (map (\<lambda>(r, d). [2, mcp_addr r, d]) ws) (fold (\<lambda>(r, d). Write_2510 dev r d) ws s)"
proof (induction ws arbitrary: s)
  case (Cons w ws)
  obtain r d where w: "w = (r, d)" by fastforce
  show ?case using sends_trans [OF sends_Write [of s r d dev] Cons] by (simp add: w)
qed simp

lemma writes_bad: "mcp_bad (fold (\<lambda>(r, d). Write_2510 dev r d) ws s) = mcp_bad s"
proof (induction ws arbitrary: s)
  case (Cons w ws)
  obtain r d where w: "w = (r, d)" by fastforce
  show ?case by (simp add: w Cons)
qed simp

section \<open>Sending a message\<close>

lemma tx_put_loop:
  assumes "length (TXdata s) = 11" "n \<le> 8" "n \<le> length dbuf"
  shows "fold (\<lambda>i. tx_put (i + 3) (dbuf ! i)) [0..<n] s =
    s\<lparr>TXdata := take 3 (TXdata s) @ take n dbuf @ drop (3 + n) (TXdata s)\<rparr>"
  using assms(2,3)
proof (induction n)
  case (Suc n)
  have "(take 3 (TXdata s) @ take n dbuf @ drop (3 + n) (TXdata s))[n + 3 := dbuf ! n] =
      take 3 (TXdata s) @ take (Suc n) dbuf @ drop (3 + Suc n) (TXdata s)"
    using Suc.prems assms(1)
    by (simp add: list_update_append take_Suc_conv_app_nth min_def Cons_nth_drop_Suc [symmetric])
  with Suc assms(1) show ?case by (simp add: tx_put_def)
qed simp

lemma send_loop:
  assumes "selected (chip s)" "n + 3 \<le> 11" "length (TXdata s) = 11"
  shows "let t = fold (\<lambda>i s. let (v, s) = tx_get (i + 3) s in spi_tx_data dev v s) [0..<n] s
    in chip t = (chip s)\<lparr>frame := frame (chip s) @ take n (drop 3 (TXdata s))\<rparr> \<and> mcp_bad t = mcp_bad s \<and>
       TXdata t = TXdata s"
  using assms(2)
proof (induction n)
  case (Suc n)
  let ?t = "fold (\<lambda>i s. let (v, s) = tx_get (i + 3) s in spi_tx_data dev v s) [0..<n] s"
  have t: "chip ?t = (chip s)\<lparr>frame := frame (chip s) @ take n (drop 3 (TXdata s))\<rparr>"
    "mcp_bad ?t = mcp_bad s" "TXdata ?t = TXdata s"
    using Suc by (simp_all add: Let_def)
  have "take (Suc n) (drop 3 (TXdata s)) = take n (drop 3 (TXdata s)) @ [TXdata s ! (n + 3)]"
    using Suc.prems assms(3) by (simp add: take_Suc_conv_app_nth add.commute)
  then show ?case
    using t Suc.prems assms(1) by (simp add: Let_def tx_get_def)
qed simp

lemma can_data_send_frames:
  assumes i: "idle s" and tx: "length (TXdata s) = 11" "unat (TXdata s ! 2) = n" "n \<le> 8"
  shows "idle (can_data_send dev s) \<and> mcp_bad (can_data_send dev s) = mcp_bad s \<and>
    frames (chip (can_data_send dev s)) = frames (chip s) @
      [[2, 0x31, TXdata s ! 0], [2, 0x32, TXdata s ! 1], [2, 0x35, TXdata s ! 2],
       [2, 0x36] @ take n (drop 3 (TXdata s)), [0x81]]"
proof -
  define s3 where "s3 = Write_2510 dev (Tx TXB0DLC) (TXdata s ! 2)
      (Write_2510 dev (Tx TXB0SIDL) (TXdata s ! 1) (Write_2510 dev (Tx TXB0SIDH) (TXdata s ! 0) s))"
  have s3: "idle s3" "frames (chip s3) = frames (chip s) @ [[2, 0x31, TXdata s ! 0], [2, 0x32, TXdata s ! 1], [2, 0x35, TXdata s ! 2]]"
    "TXdata s3 = TXdata s" "mcp_bad s3 = mcp_bad s"
    using i sends_Write [of s "Tx TXB0SIDH" "TXdata s ! 0" dev]
      sends_Write [of "Write_2510 dev (Tx TXB0SIDH) (TXdata s ! 0) s" "Tx TXB0SIDL" "TXdata s ! 1" dev]
      sends_Write [of "Write_2510 dev (Tx TXB0SIDL) (TXdata s ! 1) (Write_2510 dev (Tx TXB0SIDH) (TXdata s ! 0) s)"
        "Tx TXB0DLC" "TXdata s ! 2" dev]
    by (simp_all add: s3_def sends_def)
  define s4 where "s4 = spi_tx_all dev [2, 0x36] (chip_select dev s3)"
  have s4: "chip s4 = (chip s3)\<lparr>selected := True, frame := [2, 0x36]\<rparr>" "TXdata s4 = TXdata s" "mcp_bad s4 = mcp_bad s"
    using s3 by (simp_all add: s4_def idle_def)
  define s5 where "s5 = fold (\<lambda>i s. let (v, s) = tx_get (i + 3) s in spi_tx_data dev v s) [0..<n] s4"
  have s5: "chip s5 = (chip s4)\<lparr>frame := frame (chip s4) @ take n (drop 3 (TXdata s))\<rparr>" "mcp_bad s5 = mcp_bad s"
    using send_loop [of s4 n dev] s4 tx by (simp_all add: s5_def Let_def)
  have "can_data_send dev s = SEND_TXB0 dev (chip_unselect dev s5)"
    unfolding can_data_send_def tx(2) Let_def s5_def s4_def s3_def by simp
  moreover have "idle (chip_unselect dev s5)"
    "frames (chip (chip_unselect dev s5)) = frames (chip s3) @ [[2, 0x36] @ take n (drop 3 (TXdata s))]"
    using s4 s5 by (simp_all add: idle_def)
  ultimately show ?thesis
    using sends_RTS [of "chip_unselect dev s5" dev] s3 s5 by (simp add: sends_def)
qed

text \<open>
  C32: Writing at most eight bytes to the CAN device sends the chip the identifier 0xb000, the length
  and the data of transmit buffer 0 as four write commands, then the request to send; it touches no
  byte outside \<open>TXdata\<close>, and reports 0.
\<close>
theorem can_write_frames:
  assumes i: "idle s" and tx: "length (TXdata s) = 11" and n: "length dbuf \<le> 8"
  shows "\<exists>s'. mcp2510_wr dev dbuf s = (0, s') \<and> idle s' \<and> mcp_bad s' = mcp_bad s \<and>
    frames (chip s') = frames (chip s) @
      [[2, 0x31, 0xb0], [2, 0x32, 0], [2, 0x35, of_nat (length dbuf)], [2, 0x36] @ dbuf, [0x81]]"
proof -
  let ?n = "length dbuf"
  obtain x y z zs where d: "TXdata s = x # y # z # zs" "length zs = 8"
    using tx by (cases "TXdata s"; cases "tl (TXdata s)"; cases "tl (tl (TXdata s))") auto
  let ?t = "tx_put 2 (of_nat ?n) (tx_put 1 0 (tx_put 0 0xb0 s))"
  have t: "?t = s\<lparr>TXdata := 0xb0 # 0 # of_nat ?n # zs\<rparr>"
    by (simp add: tx_put_def d numeral_2_eq_2)
  let ?u = "fold (\<lambda>i. tx_put (i + 3) (dbuf ! i)) [0..<?n] ?t"
  have u: "?u = s\<lparr>TXdata := 0xb0 # 0 # of_nat ?n # dbuf @ drop ?n zs\<rparr>"
    unfolding t using tx_put_loop [of "s\<lparr>TXdata := 0xb0 # 0 # of_nat ?n # zs\<rparr>" ?n dbuf] d n
    by (simp add: numeral_3_eq_3)
  let ?v = "s\<lparr>TXdata := 0xb0 # 0 # of_nat ?n # dbuf @ drop ?n zs\<rparr>"
  have "unat (of_nat ?n :: u8) = ?n" using n by (simp add: unat_of_nat)
  then have "idle (can_data_send dev ?v) \<and> mcp_bad (can_data_send dev ?v) = mcp_bad ?v \<and>
      frames (chip (can_data_send dev ?v)) = frames (chip ?v) @
      [[2, 0x31, TXdata ?v ! 0], [2, 0x32, TXdata ?v ! 1], [2, 0x35, TXdata ?v ! 2],
       [2, 0x36] @ take ?n (drop 3 (TXdata ?v)), [0x81]]"
    using d n i by (intro can_data_send_frames) (simp_all add: idle_def)
  moreover have "mcp2510_wr dev dbuf s = (0, can_data_send dev ?v)"
    unfolding mcp2510_wr_def Let_def u ..
  ultimately show ?thesis by (simp add: numeral_3_eq_3 numeral_2_eq_2)
qed

theorem can_write_frames_witness:
  "\<exists>s'. mcp2510_wr (\<lambda>h r. 1) [0x41, 0x42] mcp_zero = (0, s') \<and>
     frames (chip s') = [[2, 0x31, 0xb0], [2, 0x32, 0], [2, 0x35, 2], [2, 0x36, 0x41, 0x42], [0x81]]"
  using can_write_frames [of mcp_zero "[0x41, 0x42]" "\<lambda>h r. 1"]
  by (auto simp: mcp_zero_def idle_def view_def)

text \<open>A longer message overruns \<open>TXdata\<close>.\<close>

lemma tx_put_bad: "mcp_bad s \<Longrightarrow> mcp_bad (tx_put i v s)"
  by (simp add: tx_put_def)

lemma long_can_write_overruns:
  assumes "8 < n"
  shows "mcp_bad (fold (\<lambda>i. tx_put (i + 3) (dbuf ! i)) [0..<n] s)"
proof -
  have keep: "mcp_bad t \<Longrightarrow> mcp_bad (fold (\<lambda>i. tx_put (i + 3) (dbuf ! i)) is t)" for "is" t
    by (induction "is" arbitrary: t) (simp_all add: tx_put_bad)
  have "[0..<n] = [0..<8] @ 8 # [9..<n]"
    using assms upt_add_eq_append [of 0 8 "n - 8"] by (simp add: upt_rec [of 8])
  then have "fold (\<lambda>i. tx_put (i + 3) (dbuf ! i)) [0..<n] s =
      fold (\<lambda>i. tx_put (i + 3) (dbuf ! i)) [9..<n]
        (tx_put 11 (dbuf ! 8) (fold (\<lambda>i. tx_put (i + 3) (dbuf ! i)) [0..<8] s))" by simp
  then show ?thesis using keep by (simp add: tx_put_def)
qed

section \<open>Receiving a message\<close>

lemma reads_spi_poll [simp]: "reads dev SPRDAT0 (bus (spi_poll dev n s)) = reads dev SPRDAT0 (bus s)"
  by (induction n arbitrary: s) (simp_all add: rd_def)

lemma reads_spi_tx [simp]:
  "reads dev SPRDAT0 (bus (spi_tx_data dev b s)) = reads dev SPRDAT0 (bus s)"
  by (simp add: spi_tx_data_def spi_poll_done_def)

lemma reads_spi_tx_all [simp]:
  "reads dev SPRDAT0 (bus (spi_tx_all dev bs s)) = reads dev SPRDAT0 (bus s)"
  by (induction bs arbitrary: s) (simp_all add: spi_tx_all_def)

lemma reads_select [simp]:
  "reads dev SPRDAT0 (bus (chip_select dev s)) = reads dev SPRDAT0 (bus s)"
  "reads dev SPRDAT0 (bus (chip_unselect dev s)) = reads dev SPRDAT0 (bus s)"
  by (simp_all add: chip_select_def chip_unselect_def rd_def)

lemma rx_put_frame [simp]:
  "chip (rx_put i v s) = chip s" "bus (rx_put i v s) = bus s"
  by (simp_all add: rx_put_def)

lemma rx_loop:
  assumes sel: "selected (chip s)" and len: "length (RXdata s) = 11"
  shows "\<exists>vs. (let t = fold (rx_round dev) [0..<n] s in
     chip t = (chip s)\<lparr>frame := frame (chip s) @ replicate n 0xff\<rparr> \<and> length vs = n \<and>
     reads dev SPRDAT0 (bus t) = reads dev SPRDAT0 (bus s) @ vs \<and> length (RXdata t) = 11 \<and>
     (mcp_bad t \<longleftrightarrow> mcp_bad s \<or> 11 < n) \<and> (n \<le> 11 \<longrightarrow> RXdata t = map ucast vs @ drop n (RXdata s)))"
proof (induction n)
  case 0
  show ?case using len by (intro exI [of _ "[]"]) simp
next
  case (Suc n)
  define t where "t = fold (rx_round dev) [0..<n] s"
  obtain vs where t: "chip t = (chip s)\<lparr>frame := frame (chip s) @ replicate n 0xff\<rparr>" "length vs = n"
    "reads dev SPRDAT0 (bus t) = reads dev SPRDAT0 (bus s) @ vs" "length (RXdata t) = 11"
    "mcp_bad t \<longleftrightarrow> mcp_bad s \<or> 11 < n" "n \<le> 11 \<longrightarrow> RXdata t = map ucast vs @ drop n (RXdata s)"
    using Suc unfolding t_def Let_def by blast
  let ?v = "dev (bus (spi_tx_data dev 0xff t)) SPRDAT0"
  have u: "fold (rx_round dev) [0..<Suc n] s = rx_put n (ucast ?v) (emit (Rd SPRDAT0) (spi_tx_data dev 0xff t))"
    by (simp add: t_def rx_round_def rd_def Let_def)
  have upd: "(map ucast vs @ drop n (RXdata s))[n := ucast ?v] = map ucast (vs @ [?v]) @ drop (Suc n) (RXdata s)"
    if "n < 11"
    using that t(2) len by (simp add: list_update_append Cons_nth_drop_Suc [symmetric])
  show ?case
    unfolding u Let_def using t sel upd
    by (intro exI [of _ "vs @ [?v]"])
       (cases "n < 11"; simp add: rx_put_def replicate_append_same [symmetric])
qed

text \<open>
  Receiving reads the length register and then that many bytes from receive buffer 1; \<open>RXdata\<close>
  gets the bytes in order when there are at most eleven.  The register's value is not masked to the
  four length bits, and a value above eleven runs over the array.
\<close>
theorem can_receive_bytes:
  assumes i: "idle s" and rx: "length (RXdata s) = 11"
  shows "\<exists>x vs. let t = can_data_receive dev s; n = unat (ucast x :: u8) in
    idle t \<and> frames (chip t) = frames (chip s) @ [[3, 0x75, 0xff], [3, 0x76] @ replicate n 0xff] \<and>
    reads dev SPRDAT0 (bus t) = reads dev SPRDAT0 (bus s) @ x # vs \<and> length vs = n \<and>
    (mcp_bad t \<longleftrightarrow> mcp_bad s \<or> 11 < n) \<and> (n \<le> 11 \<longrightarrow> RXdata t = map ucast vs @ drop n (RXdata s))"
proof -
  define h where "h = spi_tx_all dev [3, 0x75, 0xff] (chip_select dev s)"
  define x where "x = dev (bus h) SPRDAT0"
  define n where "n = unat (ucast x :: u8)"
  define s1 where "s1 = chip_unselect dev (emit (Rd SPRDAT0) h)"
  define s2 where "s2 = spi_tx_all dev [3, 0x76] (chip_select dev s1)"
  have r: "Read_2510 dev (Rx RXB1DLC) s = (ucast x, s1)"
    by (simp add: Read_2510_def Let_def rd_def x_def s1_def h_def)
  have s2: "chip s2 = \<lparr>selected = True, frame = [3, 0x76], frames = frames (chip s) @ [[3, 0x75, 0xff]]\<rparr>"
    "RXdata s2 = RXdata s" "mcp_bad s2 = mcp_bad s"
    "reads dev SPRDAT0 (bus s2) = reads dev SPRDAT0 (bus s) @ [x]"
    using i by (simp_all add: s2_def s1_def h_def x_def idle_def)
  define s3 where "s3 = fold (rx_round dev) [0..<n] s2"
  obtain vs where s3: "chip s3 = (chip s2)\<lparr>frame := frame (chip s2) @ replicate n 0xff\<rparr>" "length vs = n"
    "reads dev SPRDAT0 (bus s3) = reads dev SPRDAT0 (bus s2) @ vs"
    "mcp_bad s3 \<longleftrightarrow> mcp_bad s2 \<or> 11 < n" "n \<le> 11 \<longrightarrow> RXdata s3 = map ucast vs @ drop n (RXdata s2)"
    using rx_loop [of s2 dev n] s2 rx unfolding s3_def Let_def by auto
  have "can_data_receive dev s = chip_unselect dev s3"
    by (simp add: can_data_receive_def r s3_def s2_def n_def)
  then show ?thesis
    using s2 s3 by (intro exI [of _ x] exI [of _ vs]) (simp add: Let_def n_def [symmetric] idle_def)
qed

theorem can_receive_bytes_witness:
  "mcp_bad (can_data_receive (\<lambda>h r. 0x48) mcp_zero)"
proof -
  have "idle mcp_zero" "length (RXdata mcp_zero) = 11" by (simp_all add: mcp_zero_def idle_def view_def)
  from can_receive_bytes [OF this, of "\<lambda>h r. 0x48"] obtain x vs where
    x: "reads (\<lambda>h r. 0x48) SPRDAT0 (bus (can_data_receive (\<lambda>h r. 0x48) mcp_zero)) = [] @ x # vs"
      "mcp_bad (can_data_receive (\<lambda>h r. 0x48) mcp_zero) \<longleftrightarrow> mcp_bad mcp_zero \<or> 11 < unat (ucast x :: u8)"
    by (auto simp: Let_def mcp_zero_def)
  have "v \<in> set (reads_from (\<lambda>h r. 0x48) SPRDAT0 h k) \<Longrightarrow> v = 0x48" for v h k
    by (induction k arbitrary: h) (auto split: if_splits)
  then have "x = 0x48" using x(1) by (metis append_Nil list.set_intros(1))
  with x(2) show ?thesis by simp
qed

section \<open>Initialisation ends when the chip changes mode\<close>

text \<open>
  The mode the frames sent so far ask for: bits 7 to 5 of CANCTRL, which the chip shows at the
  addresses that end in \<open>0xf\<close>, after a reset (configuration mode), writes with their running
  address, and bit modifications.
\<close>

fun mode_modify :: "u8 list \<Rightarrow> u8 \<Rightarrow> u8" where
  "mode_modify [a, k, d] m = (if a AND 0x0f = 0x0f then ((m AND NOT k) OR (d AND k)) AND 0xe0 else m)"
| "mode_modify _ m = m"

fun mode_write :: "u8 \<Rightarrow> u8 list \<Rightarrow> u8 \<Rightarrow> u8" where
  "mode_write a [] m = m"
| "mode_write a (d # ds) m = mode_write (a + 1) ds (if a AND 0x0f = 0x0f then d AND 0xe0 else m)"

fun mode_step :: "u8 list \<Rightarrow> u8 \<Rightarrow> u8" where
  "mode_step (c # ds) m =
     (if c = 0xc0 then 0x80 else if c = 5 then mode_modify ds m
      else if c = 2 \<and> ds \<noteq> [] then mode_write (hd ds) (tl ds) m else m)"
| "mode_step [] m = m"

definition mode_asked :: "u8 list list \<Rightarrow> u8" where
  "mode_asked fs = fold mode_step fs 0x80"

text \<open>The states the driver's commands lead to.\<close>

inductive driven :: "spi_reg dev \<Rightarrow> mcp \<Rightarrow> mcp \<Rightarrow> bool" for dev s0 where
  start: "driven dev s0 s0"
| by_write: "driven dev s0 s \<Longrightarrow> driven dev s0 (Write_2510 dev r d s)"
| by_modify: "driven dev s0 s \<Longrightarrow> driven dev s0 (Modify_2510 dev r k d s)"
| by_read: "driven dev s0 s \<Longrightarrow> driven dev s0 (snd (Read_2510 dev r s))"
| by_reset: "driven dev s0 s \<Longrightarrow> driven dev s0 (Reset_2510 dev s)"
| by_send: "driven dev s0 s \<Longrightarrow> driven dev s0 (SEND_TXB0 dev s)"

text \<open>
  The device hypothesis: when the commands of the driver ask for configuration mode or normal mode,
  and from then on the driver only looks at CANSTAT, the chip shows that mode in the end.
\<close>

definition enters :: "spi_reg dev \<Rightarrow> mcp \<Rightarrow> u8 \<Rightarrow> bool" where
  "enters dev s m \<longleftrightarrow> (\<exists>n. fst (Read_2510 dev (Ctl CANSTAT) (((\<lambda>s. snd (Read_2510 dev (Ctl CANSTAT) s)) ^^ n) s)) AND 0xe0 = m)"

definition chip_obeys :: "spi_reg dev \<Rightarrow> mcp \<Rightarrow> bool" where
  "chip_obeys dev s0 \<longleftrightarrow> (\<forall>s m. driven dev s0 s \<longrightarrow> m = mode_asked (frames (chip s)) \<longrightarrow> m \<in> {0, 0x80} \<longrightarrow> enters dev s m)"

lemma look_mode_power:
  "snd ((look_mode dev ^^ n) p) = ((\<lambda>s. snd (Read_2510 dev (Ctl CANSTAT) s)) ^^ n) (snd p)"
  by (induction n) (simp_all add: look_mode_def)

interpretation md: poll_loop "\<lambda>p. fst p AND 0xe0 = m" "look_mode dev"
    "\<lambda>p. enters dev (snd p) m"
  for dev m
proof
  fix p :: "u8 \<times> mcp"
  assume "enters dev (snd p) m"
  then obtain n where "fst ((look_mode dev ^^ Suc n) p) AND 0xe0 = m"
    unfolding enters_def by (auto simp: look_mode_def look_mode_power)
  then show "\<exists>n. fst ((look_mode dev ^^ n) p) AND 0xe0 = m" by blast
qed

lemma look_mode_sel:
  "fst (look_mode dev p) = fst (Read_2510 dev (Ctl CANSTAT) (snd p))"
  "snd (look_mode dev p) = snd (Read_2510 dev (Ctl CANSTAT) (snd p))"
  by (simp_all add: look_mode_def)

lemma look_frames:
  "sends (snd p) (replicate n [3, 0x0e, 0xff]) (snd ((look_mode dev ^^ n) p)) \<and>
   mcp_bad (snd ((look_mode dev ^^ n) p)) = mcp_bad (snd p)"
proof (induction n)
  case (Suc n)
  let ?q = "(look_mode dev ^^ n) p"
  have "sends (snd ?q) [[3, 0x0e, 0xff]] (snd (Read_2510 dev (Ctl CANSTAT) (snd ?q)))"
    using sends_Read [of "snd ?q" "Ctl CANSTAT" dev] by simp
  with Suc show ?case
    using sends_trans [of "snd p" "replicate n [3, 0x0e, 0xff]" "snd ?q"]
    by (simp add: look_mode_sel replicate_append_same [symmetric])
qed simp

text \<open>
  The wait starts with one look, so it needs the chip to enter the mode from the state after it.
  Reads ask for nothing.
\<close>

lemma mode_asked_append: "mode_asked (fs @ gs) = fold mode_step gs (mode_asked fs)"
  by (simp add: mode_asked_def)

lemma mode_step_read [simp]: "mode_step [3, a, x] m = m"
  by simp

lemma mode_asked_reads [simp]: "mode_asked (fs @ replicate n [3, a, x]) = mode_asked fs"
  by (induction n arbitrary: fs) (simp_all add: mode_asked_append)

lemma mode_asked_writes:
  "\<forall>(r, d) \<in> set ws. mcp_addr r AND 0x0f \<noteq> 0x0f \<Longrightarrow>
   mode_asked (fs @ map (\<lambda>(r, d). [2, mcp_addr r, d]) ws) = mode_asked fs"
proof (induction ws arbitrary: fs)
  case (Cons w ws)
  obtain r d where w: "w = (r, d)" by fastforce
  have "mode_asked ((fs @ [[2, mcp_addr r, d]]) @ map (\<lambda>(r, d). [2, mcp_addr r, d]) ws) = mode_asked (fs @ [[2, mcp_addr r, d]])"
    using Cons.prems by (intro Cons.IH) simp
  also have "\<dots> = mode_asked fs"
    using Cons.prems by (simp add: mode_asked_append w)
  finally show ?case by (simp add: w)
qed simp

lemma init_writes_not_CANCTRL: "\<forall>(r, d) \<in> set init_writes. mcp_addr r AND 0x0f \<noteq> 0x0f"
  by (simp add: init_writes_def)

lemma driven_writes: "driven dev s0 s \<Longrightarrow> driven dev s0 (fold (\<lambda>(r, d). Write_2510 dev r d) ws s)"
  by (induction ws arbitrary: s) (auto intro: driven.by_write)

lemma driven_looks: "driven dev s0 (snd p) \<Longrightarrow> driven dev s0 (snd ((look_mode dev ^^ n) p))"
  by (induction n) (auto simp: look_mode_def intro: driven.by_read)

lemma wait_mode_ends:
  assumes obeys: "chip_obeys dev s0" and d: "driven dev s0 s" and i: "idle s"
    and m: "mode_asked (frames (chip s)) = m" "m \<in> {0, 0x80}"
  shows "\<exists>k s'. wait_mode dev m s = Some s' \<and> sends s (replicate (Suc k) [3, 0x0e, 0xff]) s' \<and>
    mcp_bad s' = mcp_bad s \<and> driven dev s0 s'"
proof -
  let ?look = "look_mode dev" and ?p = "Read_2510 dev (Ctl CANSTAT) s"
  have d': "driven dev s0 (snd ?p)" using d by (rule driven.by_read)
  have "frames (chip (snd ?p)) = frames (chip s) @ replicate 1 [3, 0x0e, 0xff]"
    using sends_Read [of s "Ctl CANSTAT" dev] i by (simp add: sends_def)
  then have "mode_asked (frames (chip (snd ?p))) = m"
    using m(1) by (simp only: mode_asked_reads)
  then have "enters dev (snd ?p) m"
    using obeys d' m(2) by (auto simp: chip_obeys_def)
  then obtain n where n: "while_option (\<lambda>p. \<not> fst p AND 0xe0 = m) ?look ?p = Some ((?look ^^ n) ?p)"
    using md.waits [of dev ?p m] by auto
  have "sends s ([[3, 0x0e, 0xff]] @ replicate n [3, 0x0e, 0xff]) (snd ((?look ^^ n) ?p))"
    using sends_trans [OF sends_Read [of s "Ctl CANSTAT" dev], of "replicate n [3, 0x0e, 0xff]"]
      look_frames [of ?p n dev] by simp
  moreover have "wait_mode dev m s = Some (snd ((?look ^^ n) ?p))"
    unfolding wait_mode_def n by simp
  moreover have "mcp_bad (snd ((?look ^^ n) ?p)) = mcp_bad s"
    using look_frames [of ?p n dev] by simp
  ultimately show ?thesis using driven_looks [OF d'] by (intro exI [of _ n]) simp
qed

text \<open>
  C26: With a chip that, whenever the driver's commands ask for configuration mode or normal mode and
  the driver then only looks at CANSTAT, shows that mode in the end, initialisation of an idle bus returns; it
  sends reset, the request for configuration mode and one-shot off, reads the status until the mode is
  confirmed, writes the 21 configuration registers in the order of the code, requests normal mode and
  reads the status until that is confirmed, and it sends no other frame.
\<close>
theorem init_configures_chip:
  assumes i: "idle s" and obeys: "chip_obeys dev s"
  shows "\<exists>s' k l. Init_MCP2510 dev s = Some s' \<and> idle s' \<and> mcp_bad s' = mcp_bad s \<and>
    frames (chip s') = frames (chip s) @
      [[0xc0], [5, 0x0f, 0xe0, 0x80], [5, 0x0f, 0x07, 0]] @ replicate (Suc k) [3, 0x0e, 0xff] @
      map (\<lambda>(r, d). [2, mcp_addr r, d]) init_writes @
      [[5, 0x0f, 0xe0, 0]] @ replicate (Suc l) [3, 0x0e, 0xff]"
proof -
  let ?s1 = "Modify_2510 dev (Ctl CANCTRL) 0x07 0 (Modify_2510 dev (Ctl CANCTRL) 0xe0 0x80 (Reset_2510 dev s))"
  have s1: "sends s ([[0xc0]] @ [[5, 0x0f, 0xe0, 0x80]] @ [[5, 0x0f, 0x07, 0]]) ?s1"
    using sends_trans [OF sends_Reset [of s dev] sends_trans [OF sends_Modify [of _ "Ctl CANCTRL" "0xe0" "0x80" dev]
        sends_Modify [of _ "Ctl CANCTRL" "0x07" 0 dev]]] by simp
  have d1: "driven dev s ?s1" by (intro driven.by_modify driven.by_reset driven.start)
  have f1: "idle ?s1" "mode_asked (frames (chip ?s1)) = 0x80"
    using s1 i by (simp_all add: sends_def mode_asked_append)
  obtain k s2 where s2: "wait_mode dev 0x80 ?s1 = Some s2" "sends ?s1 (replicate (Suc k) [3, 0x0e, 0xff]) s2"
    "mcp_bad s2 = mcp_bad ?s1" "driven dev s s2"
    using wait_mode_ends [OF obeys d1 f1] by blast
  let ?s3 = "fold (\<lambda>(r, d). Write_2510 dev r d) init_writes s2"
  let ?s4 = "Modify_2510 dev (Ctl CANCTRL) 0xe0 0 ?s3"
  have s4: "sends ?s3 [[5, 0x0f, 0xe0, 0]] ?s4"
    using sends_Modify [of ?s3 "Ctl CANCTRL" "0xe0" 0 dev] by simp
  have d4: "driven dev s ?s4" using s2(4) by (intro driven.by_modify driven_writes)
  have m4: "idle s \<Longrightarrow> mode_asked (frames (chip ?s3) @ [[5, 0x0f, 0xe0, 0]]) = 0"
    by (simp add: mode_asked_append) (simp add: bit_eq_iff bit_simps)
  have f4: "idle ?s4" "mode_asked (frames (chip ?s4)) = 0"
    using s4 m4 i f1 s2(2) sends_writes [where s = s2 and ws = init_writes and dev = dev]
    by (simp_all add: sends_def)
  obtain l s' where s': "wait_mode dev 0 ?s4 = Some s'" "sends ?s4 (replicate (Suc l) [3, 0x0e, 0xff]) s'"
    "mcp_bad s' = mcp_bad ?s4"
    using wait_mode_ends [OF obeys d4 f4] by blast
  have "sends s (([[0xc0]] @ [[5, 0x0f, 0xe0, 0x80]] @ [[5, 0x0f, 0x07, 0]]) @ replicate (Suc k) [3, 0x0e, 0xff] @
      map (\<lambda>(r, d). [2, mcp_addr r, d]) init_writes @ [[5, 0x0f, 0xe0, 0]] @ replicate (Suc l) [3, 0x0e, 0xff]) s'"
    by (rule sends_trans [OF s1 sends_trans [OF s2(2) sends_trans [OF sends_writes sends_trans [OF s4 s'(2)]]]])
  moreover have "Init_MCP2510 dev s = Some s'"
    using s2(1) s'(1) by (simp add: Init_MCP2510_def Let_def)
  ultimately show ?thesis
    using i s2(3) s'(3) writes_bad [where s = s2 and ws = init_writes and dev = dev]
    by (intro exI [of _ s'] exI [of _ k] exI [of _ l]) (simp add: sends_def)
qed

text \<open>
  A chip that runs one command behind: what it shows while a command is sent is the mode asked for
  before the command ahead of it.  So the first look after a request still shows the old mode.
\<close>

definition slow_chip :: "spi_reg dev" where
  "slow_chip h r = (if r = SPRDAT0 then ucast (mode_asked (butlast (frames (view h)))) else 1)"

lemma slow_chip_read:
  "idle s \<Longrightarrow> fst (Read_2510 slow_chip r s) = mode_asked (butlast (frames (chip s)))"
  by (simp add: Read_2510_def Let_def rd_def idle_def) (simp add: slow_chip_def)

lemma driven_idle: "driven dev s0 s \<Longrightarrow> idle s0 \<Longrightarrow> idle s"
proof (induction rule: driven.induct)
  case (by_write s r d)
  then show ?case using sends_Write [of s r d dev] by (simp add: sends_def)
next
  case (by_modify s r k d)
  then show ?case using sends_Modify [of s r k d dev] by (simp add: sends_def)
next
  case (by_read s r)
  then show ?case using sends_Read [of s r dev] by (simp add: sends_def)
next
  case (by_reset s)
  then show ?case using sends_Reset [of s dev] by (simp add: sends_def)
next
  case (by_send s)
  then show ?case using sends_RTS [of s dev] by (simp add: sends_def)
qed

lemma slow_chip_obeys:
  assumes "idle s0"
  shows "chip_obeys slow_chip s0"
  unfolding chip_obeys_def
proof (intro allI impI)
  fix s m
  assume "driven slow_chip s0 s" and m: "m = mode_asked (frames (chip s))" "m \<in> {0, 0x80}"
  then have i: "idle s" using assms by (blast intro: driven_idle)
  let ?t = "snd (Read_2510 slow_chip (Ctl CANSTAT) s)"
  have t: "idle ?t" "frames (chip ?t) = frames (chip s) @ [[3, 0x0e, 0xff]]"
    using sends_Read [of s "Ctl CANSTAT" slow_chip] i by (simp_all add: sends_def)
  have "m AND 0xe0 = m" using m(2) by auto
  then have "fst (Read_2510 slow_chip (Ctl CANSTAT) (((\<lambda>s. snd (Read_2510 slow_chip (Ctl CANSTAT) s)) ^^ 1) s)) AND 0xe0 = m"
    using t m(1) by (simp add: slow_chip_read)
  then show "enters slow_chip s m" unfolding enters_def by blast
qed

theorem init_configures_chip_witness:
  "\<exists>s'. Init_MCP2510 slow_chip mcp_zero = Some s' \<and> idle s'"
proof -
  have "idle mcp_zero" by (simp add: mcp_zero_def idle_def view_def)
  from init_configures_chip [OF this slow_chip_obeys [OF this]] show ?thesis by blast
qed

end
