(* ===== verification/Flash.thy ===== *)
theory Flash
  imports Mmio
begin

text \<open>
  The flash memory driver (EXP27/driver/flash_driver/flash_drv.c): the mapping table of its 256
  minor devices, the command sequences that erase and program the Intel J3 chip, and the
  character-device entry points.

  A flash location is accessed by bytes or by half-words; the history of accesses is that of
  \<open>Mmio\<close> with the register type \<open>port\<close>.  The chip is the parameter \<open>dev\<close>.  The kernel's
  \<open>ioremap\<close> and \<open>vmalloc\<close> are the parameter \<open>k\<close>; their effect on the address space is kept as a
  log of mappings, so that unmapping twice or not at all can be seen.  A wait for the chip that
  does not end is the value \<open>None\<close>.
\<close>

section \<open>State\<close>

type_synonym u16w = "16 word"

datatype port = P8 u32 | P16 u32

datatype vm_ev = Ioremap u32 | Iounmap u32

record kernel =
  ioremap :: "vm_ev list \<Rightarrow> u32 \<Rightarrow> u32 \<Rightarrow> u32"
  vmalloc :: "u32 \<Rightarrow> u8 list option"

record ioport_device =
  base :: u32
  len :: u32
  io_lock :: u32
  maped :: u32

record flash = "port machine" +
  ioport_devices :: "nat \<Rightarrow> ioport_device"
  BaseOfFlash :: u32
  vm :: "vm_ev list"

record ioport_ioctl_request =
  map_base :: u32
  map_len :: u32
  offset :: u32
  buff :: "u8 list"
  count :: u32

datatype ioport_cmd = IOPORT_MAP | IOPORT_UNMAP | IOPORT_READ | IOPORT_WRITE | IOPORT_WRITE_CON | Other_cmd

definition EINVAL :: int where
  "EINVAL = 22"

definition set_dev :: "nat \<Rightarrow> (ioport_device \<Rightarrow> ioport_device) \<Rightarrow> flash \<Rightarrow> flash" where
  "set_dev m f s = s\<lparr>ioport_devices := (ioport_devices s)(m := f (ioport_devices s m))\<rparr>"

lemma set_dev_simps [simp]:
  "bus (set_dev m f s) = bus s" "vm (set_dev m f s) = vm s"
  "BaseOfFlash (set_dev m f s) = BaseOfFlash s"
  "ioport_devices (set_dev m f s) n = (if n = m then f (ioport_devices s m) else ioport_devices s n)"
  by (simp_all add: set_dev_def)

lemma flash_frame [frame_simps, simp]:
  "ioport_devices (emit e s) = ioport_devices s" "vm (emit e s) = vm s"
  "BaseOfFlash (emit e s) = BaseOfFlash s"
  by (simp_all add: emit_def)

text \<open>The static initial values, and what \<open>ioport_init\<close> clears.\<close>

definition flash_zero :: flash where
  "flash_zero = \<lparr>bus = [], ioport_devices = (\<lambda>_. \<lparr>base = 0, len = 0, io_lock = 0, maped = 0\<rparr>),
     BaseOfFlash = 0, vm = []\<rparr>"

definition ioport_init :: "flash \<Rightarrow> flash" where
  "ioport_init s = fold (\<lambda>i. set_dev i (\<lambda>d. d\<lparr>base := 0, io_lock := 0, maped := 0\<rparr>)) [0..<256] s"

definition ioport_open :: "nat \<Rightarrow> flash \<Rightarrow> int \<times> flash" where
  "ioport_open minor s = (0, set_dev minor (\<lambda>d. d\<lparr>io_lock := io_lock d + 1\<rparr>) s)"

definition iounmap :: "u32 \<Rightarrow> flash \<Rightarrow> flash" where
  "iounmap a s = s\<lparr>vm := vm s @ [Iounmap a]\<rparr>"

definition ioport_release :: "nat \<Rightarrow> flash \<Rightarrow> int \<times> flash" where
  "ioport_release minor s =
     (let s1 = (if base (ioport_devices s minor) \<noteq> 0 then iounmap (base (ioport_devices s minor)) s else s);
          s2 = (if maped (ioport_devices s1 minor) \<noteq> 0 then set_dev minor (\<lambda>d. d\<lparr>maped := maped d - 1\<rparr>) s1 else s1);
          s3 = (if io_lock (ioport_devices s2 minor) \<noteq> 0 then set_dev minor (\<lambda>d. d\<lparr>io_lock := io_lock d - 1\<rparr>) s2 else s2)
      in (0, s3))"

section \<open>The chip's command sequences\<close>

definition INTELJ3_BERASE_CMD1 :: u32 where "INTELJ3_BERASE_CMD1 = 0x20"
definition INTELJ3_BERASE_CMD2 :: u32 where "INTELJ3_BERASE_CMD2 = 0xD0"
definition INTELJ3_WP_CMD :: u32 where "INTELJ3_WP_CMD = 0x40"
definition INTELJ3_RSR_CMD :: u32 where "INTELJ3_RSR_CMD = 0x70"
definition INTELJ3_CSR_CMD :: u32 where "INTELJ3_CSR_CMD = 0x50"

lemmas j3_cmds = INTELJ3_BERASE_CMD1_def INTELJ3_BERASE_CMD2_def INTELJ3_WP_CMD_def
  INTELJ3_RSR_CMD_def INTELJ3_CSR_CMD_def

definition rd16 :: "port dev \<Rightarrow> u32 \<Rightarrow> flash \<Rightarrow> u16w \<times> flash" where
  "rd16 dev a s = (let (v, s1) = rd dev (P16 a) s in (ucast v, s1))"

definition read_status :: "port dev \<Rightarrow> u32 \<Rightarrow> flash \<Rightarrow> u16w \<times> flash" where
  "read_status dev a s = rd16 dev a (wr (P16 a) INTELJ3_RSR_CMD s)"

definition status_look :: "port dev \<Rightarrow> u32 \<Rightarrow> u16w \<times> flash \<Rightarrow> u16w \<times> flash" where
  "status_look dev a x = read_status dev a (snd x)"

text \<open>The status decoding: the value returned, and whether the status register is cleared.\<close>

definition status_verdict :: "u16w \<Rightarrow> int \<times> bool" where
  "status_verdict data1 =
     (if data1 AND 0x80 \<noteq> 0 then
        if data1 AND 0x40 \<noteq> 0 then (0, True)
        else if data1 AND 0x04 \<noteq> 0 then (0, True)
        else if data1 AND 0x20 \<noteq> 0 then (if data1 AND 0x10 \<noteq> 0 then (1, False) else (0, False))
        else if data1 AND 0x10 \<noteq> 0 then (1, False)
        else if data1 AND 0x08 \<noteq> 0 then (1, False)
        else if data1 AND 0x02 \<noteq> 0 then (1, False)
        else (0, False)
      else (0, False))"

definition mflash_check_operation_complete :: "port dev \<Rightarrow> u32 \<Rightarrow> flash \<Rightarrow> (int \<times> flash) option" where
  "mflash_check_operation_complete dev addr s = do {
     (data1, s1) \<leftarrow> while_option (\<lambda>x. \<not> (fst x AND 0x80 \<noteq> 0)) (status_look dev addr)
                      (read_status dev addr s);
     let (r, clear) = status_verdict data1;
     Some (r, if clear then wr (P16 addr) INTELJ3_CSR_CMD s1 else s1)
   }"

definition flash_reset :: "flash \<Rightarrow> flash" where
  "flash_reset s = wr (P16 (BaseOfFlash s)) 0xffff s"

definition erase_sector :: "port dev \<Rightarrow> u32 \<Rightarrow> flash \<Rightarrow> flash option" where
  "erase_sector dev addr s = do {
     (r, s1) \<leftarrow> mflash_check_operation_complete dev addr
                  (wr (P16 addr) INTELJ3_BERASE_CMD2 (wr (P16 addr) INTELJ3_BERASE_CMD1 s));
     Some (if r \<noteq> 0 then s1 else flash_reset s1)
   }"

definition write_flash :: "port dev \<Rightarrow> u32 \<Rightarrow> u16w \<Rightarrow> flash \<Rightarrow> flash option" where
  "write_flash dev adr data s = do {
     (r, s1) \<leftarrow> mflash_check_operation_complete dev adr
                  (wr (P16 adr) (ucast data) (wr (P16 adr) INTELJ3_WP_CMD s));
     Some (if r \<noteq> 0 then s1 else wr (P16 (BaseOfFlash s1)) 0xff s1)
   }"

section \<open>Reading and writing through the ioctl interface\<close>

text \<open>Half-word \<open>i\<close> of a byte buffer, low byte first.\<close>

definition halfword :: "u8 list \<Rightarrow> nat \<Rightarrow> u16w" where
  "halfword b i = ucast (b ! (2 * i)) OR push_bit 8 (ucast (b ! (2 * i + 1)))"

definition half_bytes :: "u16w \<Rightarrow> u8 list" where
  "half_bytes w = [ucast w, ucast (drop_bit 8 w)]"

definition copy_in :: "u8 list \<Rightarrow> nat \<Rightarrow> u8 list" where
  "copy_in b n = take n b @ replicate (n - length b) 0"

fun write_halves :: "port dev \<Rightarrow> u32 \<Rightarrow> u16w list \<Rightarrow> flash \<Rightarrow> flash option" where
  "write_halves dev adr [] s = Some s"
| "write_halves dev adr (w # ws) s = do {
     s1 \<leftarrow> write_flash dev adr w s;
     write_halves dev (adr + 2) ws s1
   }"

definition ioport_write_b_con ::
    "kernel \<Rightarrow> port dev \<Rightarrow> nat \<Rightarrow> ioport_ioctl_request \<Rightarrow> flash \<Rightarrow> (int \<times> flash) option" where
  "ioport_write_b_con k dev minor rq s =
     (case vmalloc k (count rq) of None \<Rightarrow> Some (-1, s)
      | Some _ \<Rightarrow> do {
          let b = copy_in (buff rq) (unat (count rq));
          s1 \<leftarrow> write_halves dev (base (ioport_devices s minor)) (map (halfword b) [0..<unat (count rq) div 2]) s;
          Some (0, s1)
        })"

text \<open>The wait for the erased pattern after the erase; each failed look reads once more to print.\<close>

definition wait_erased :: "port dev \<Rightarrow> u32 \<Rightarrow> flash \<Rightarrow> flash option" where
  "wait_erased dev a s =
     map_option snd (while_option (\<lambda>(v, s). v \<noteq> 0xffff) (\<lambda>(v, s). rd16 dev a (snd (rd16 dev a s))) (rd16 dev a s))"

definition ioport_write_b ::
    "kernel \<Rightarrow> port dev \<Rightarrow> nat \<Rightarrow> ioport_ioctl_request \<Rightarrow> flash \<Rightarrow> (int \<times> flash) option" where
  "ioport_write_b k dev minor rq s =
     (case vmalloc k (count rq) of None \<Rightarrow> Some (-1, s)
      | Some _ \<Rightarrow> do {
          let b = copy_in (buff rq) (unat (count rq));
          let a = base (ioport_devices s minor);
          s1 \<leftarrow> erase_sector dev a s;
          s2 \<leftarrow> wait_erased dev a (snd (rd16 dev a s1));
          s3 \<leftarrow> write_halves dev a (map (halfword b) [0..<unat (count rq) div 2]) s2;
          Some (0, s3)
        })"

fun read_halves :: "port dev \<Rightarrow> u32 \<Rightarrow> nat \<Rightarrow> flash \<Rightarrow> u16w list \<times> flash" where
  "read_halves dev a 0 s = ([], s)"
| "read_halves dev a (Suc n) s =
     (let (w, s1) = rd16 dev a s; (ws, s2) = read_halves dev (a + 2) n s1 in (w # ws, s2))"

text \<open>An odd count leaves the last byte as \<open>vmalloc\<close> gave it.\<close>

definition ioport_read_b ::
    "kernel \<Rightarrow> port dev \<Rightarrow> nat \<Rightarrow> ioport_ioctl_request \<Rightarrow> flash \<Rightarrow> int \<times> ioport_ioctl_request \<times> flash" where
  "ioport_read_b k dev minor rq s =
     (case vmalloc k (count rq) of None \<Rightarrow> (-1, rq, s)
      | Some b \<Rightarrow>
          let n = unat (count rq);
              (ws, s1) = read_halves dev (base (ioport_devices s minor) + offset rq) (n div 2) s;
              got = concat (map half_bytes ws)
          in (0, rq\<lparr>buff := take n (got @ drop (length got) b) @ drop n (buff rq)\<rparr>, s1))"

definition ioport_ctl_read where
  "ioport_ctl_read k dev minor rq s =
     (if count rq = 0 then (-1, rq, s) else ioport_read_b k dev minor rq s)"

definition ioport_ctl_write_con where
  "ioport_ctl_write_con k dev minor rq s =
     (if count rq = 0 then Some (-1, s) else ioport_write_b_con k dev minor rq s)"

definition ioport_ctl_write where
  "ioport_ctl_write k dev minor rq s =
     (if count rq = 0 then Some (-1, s) else ioport_write_b k dev minor rq s)"

text \<open>
  \<open>ioport_ctl_ioctl\<close>; \<open>err\<close> is what \<open>copy_from_user\<close> of the request returns (the bytes it could not
  copy).  The result is the return value, the request as the caller sees it and the new state.
\<close>

definition ioport_ctl_ioctl ::
    "kernel \<Rightarrow> port dev \<Rightarrow> nat \<Rightarrow> ioport_cmd \<Rightarrow> int \<Rightarrow> ioport_ioctl_request \<Rightarrow> flash \<Rightarrow>
     (int \<times> ioport_ioctl_request \<times> flash) option" where
  "ioport_ctl_ioctl k dev minor command err rq s =
     (case command of
        IOPORT_UNMAP \<Rightarrow>
          if maped (ioport_devices s minor) \<noteq> 0 then
            Some (0, rq, set_dev minor (\<lambda>d. d\<lparr>maped := maped d - 1\<rparr>)
                    (iounmap (BaseOfFlash s) (iounmap (base (ioport_devices s minor)) s)))
          else Some (-1, rq, s)
      | IOPORT_MAP \<Rightarrow>
          if err \<noteq> 0 then Some (err, rq, s)
          else if maped (ioport_devices s minor) \<noteq> 0 then Some (-1, rq, s)
          else
            let a1 = ioremap k (vm s) 0x01000000 4;
                s1 = s\<lparr>BaseOfFlash := a1, vm := vm s @ [Ioremap a1]\<rparr>;
                a2 = ioremap k (vm s1) (map_base rq) (map_len rq);
                s2 = set_dev minor (\<lambda>d. d\<lparr>base := a2\<rparr>) (s1\<lparr>vm := vm s1 @ [Ioremap a2]\<rparr>)
            in if a2 = 0 then Some (-1, rq, s2)
               else Some (0, rq, set_dev minor (\<lambda>d. d\<lparr>len := map_len rq, maped := maped d + 1\<rparr>) s2)
      | IOPORT_READ \<Rightarrow>
          if maped (ioport_devices s minor) = 0 then Some (-1, rq, s)
          else if err \<noteq> 0 then Some (err, rq, s)
          else Some (ioport_ctl_read k dev minor rq s)
      | IOPORT_WRITE \<Rightarrow>
          if maped (ioport_devices s minor) = 0 then Some (-1, rq, s)
          else if err \<noteq> 0 then Some (err, rq, s)
          else map_option (\<lambda>(r, s'). (r, rq, s')) (ioport_ctl_write k dev minor rq s)
      | IOPORT_WRITE_CON \<Rightarrow>
          if maped (ioport_devices s minor) = 0 then Some (-1, rq, s)
          else if err \<noteq> 0 then Some (err, rq, s)
          else map_option (\<lambda>(r, s'). (r, rq, s')) (ioport_ctl_write_con k dev minor rq s)
      | Other_cmd \<Rightarrow> Some (- EINVAL, rq, s))"

text \<open>The read and write entry points, byte by byte from the start of the mapping.\<close>

fun write_bytes :: "u32 \<Rightarrow> u8 list \<Rightarrow> flash \<Rightarrow> flash" where
  "write_bytes a [] s = s"
| "write_bytes a (b # bs) s = write_bytes (a + 1) bs (wr (P8 a) (ucast b) s)"

definition ioport_write :: "nat \<Rightarrow> u8 list \<Rightarrow> flash \<Rightarrow> int \<times> flash" where
  "ioport_write minor buf s = (int (length buf), write_bytes (base (ioport_devices s minor)) buf s)"

fun read_bytes :: "port dev \<Rightarrow> u32 \<Rightarrow> nat \<Rightarrow> flash \<Rightarrow> u8 list \<times> flash" where
  "read_bytes dev a 0 s = ([], s)"
| "read_bytes dev a (Suc n) s =
     (let (v, s1) = rd dev (P8 a) s; (bs, s2) = read_bytes dev (a + 1) n s1 in (ucast v # bs, s2))"

definition ioport_read :: "port dev \<Rightarrow> nat \<Rightarrow> nat \<Rightarrow> flash \<Rightarrow> int \<times> u8 list \<times> flash" where
  "ioport_read dev minor n s =
     (let (bs, s1) = read_bytes dev (base (ioport_devices s minor)) n s in (int n, bs, s1))"

section \<open>What the chip promises\<close>

text \<open>
  The chip as its data sheet describes the commands the driver uses: 0xff reads the array, 0x70
  reads the status, 0x40 sets up a half-word program (which can only clear bits) and 0x20, 0xD0
  erases the block of the address.  \<open>blk a x\<close> says that \<open>x\<close> lies in the erase block of \<open>a\<close>.
\<close>

datatype j3_mode = Array | Status | Prog_setup | Erase_setup

record j3 =
  mode :: j3_mode
  mem :: "u32 \<Rightarrow> u16w"

fun j3_event :: "(u32 \<Rightarrow> u32 \<Rightarrow> bool) \<Rightarrow> port ev \<Rightarrow> j3 \<Rightarrow> j3" where
  "j3_event blk (Wr (P16 a) v) c =
     (case mode c of
        Prog_setup \<Rightarrow> c\<lparr>mode := Status, mem := (mem c)(a := mem c a AND ucast v)\<rparr>
      | Erase_setup \<Rightarrow>
          if v AND 0xff = 0xD0 then c\<lparr>mode := Status, mem := (\<lambda>x. if blk a x then 0xffff else mem c x)\<rparr>
          else c\<lparr>mode := Status\<rparr>
      | _ \<Rightarrow>
          if v AND 0xff = 0xff then c\<lparr>mode := Array\<rparr>
          else if v AND 0xff = 0x70 then c\<lparr>mode := Status\<rparr>
          else if v AND 0xff = 0x40 then c\<lparr>mode := Prog_setup\<rparr>
          else if v AND 0xff = 0x20 then c\<lparr>mode := Erase_setup\<rparr>
          else c)"
| "j3_event blk _ c = c"

definition j3_view :: "(u32 \<Rightarrow> u32 \<Rightarrow> bool) \<Rightarrow> (u32 \<Rightarrow> u16w) \<Rightarrow> port ev list \<Rightarrow> j3" where
  "j3_view blk m0 h = fold (j3_event blk) h \<lparr>mode = Array, mem = m0\<rparr>"

lemma j3_view_snoc: "j3_view blk m0 (h @ [e]) = j3_event blk e (j3_view blk m0 h)"
  by (simp add: j3_view_def)

lemma j3_view_Cons [simp]: "j3_view blk m0 (h @ e # es) = fold (j3_event blk) (e # es) (j3_view blk m0 h)"
  by (simp add: j3_view_def)

lemma j3_view_append: "j3_view blk m0 (h @ k) = fold (j3_event blk) k (j3_view blk m0 h)"
  by (simp add: j3_view_def)

definition status_poll :: "u32 \<Rightarrow> port ev list" where
  "status_poll a = [Wr (P16 a) 0x70, Rd (P16 a)]"

text \<open>
  A chip that works: in array mode it shows its contents; in status mode the ready bit comes
  after finitely many looks, and with it no error and no suspension.
\<close>

definition j3_works :: "(u32 \<Rightarrow> u32 \<Rightarrow> bool) \<Rightarrow> (u32 \<Rightarrow> u16w) \<Rightarrow> port dev \<Rightarrow> bool" where
  "j3_works blk m0 dev \<longleftrightarrow>
     (\<forall>h a. mode (j3_view blk m0 h) = Array \<longrightarrow> dev h (P16 a) = ucast (mem (j3_view blk m0 h) a)) \<and>
     (\<forall>h a. mode (j3_view blk m0 h) = Status \<longrightarrow>
        (\<exists>n. dev (h @ concat (replicate n (status_poll a)) @ [Wr (P16 a) 0x70]) (P16 a) AND 0x80 \<noteq> 0) \<and>
        (dev h (P16 a) AND 0x80 \<noteq> 0 \<longrightarrow> dev h (P16 a) AND 0x7f = 0))"

text \<open>A flash operation leaves the driver's own tables alone.\<close>

definition only_bus :: "flash \<Rightarrow> flash \<Rightarrow> bool" where
  "only_bus s t \<longleftrightarrow> ioport_devices t = ioport_devices s \<and> BaseOfFlash t = BaseOfFlash s \<and> vm t = vm s"

lemma only_bus_refl [simp, intro]: "only_bus s s"
  by (simp add: only_bus_def)

lemma only_bus_trans [trans]: "only_bus s t \<Longrightarrow> only_bus t u \<Longrightarrow> only_bus s u"
  by (simp add: only_bus_def)

lemma only_bus_emit [simp]: "only_bus s (emit e t) = only_bus s t" "only_bus (emit e s) t = only_bus s t"
  by (simp_all add: only_bus_def)

lemma only_bus_wr [simp]: "only_bus s (wr r v t) = only_bus s t" "only_bus (wr r v s) t = only_bus s t"
  by (simp_all add: wr_def)

lemma wr_frame [simp]: "BaseOfFlash (wr r v s) = BaseOfFlash s" "ioport_devices (wr r v s) = ioport_devices s"
  by (simp_all add: wr_def)

section \<open>The status wait\<close>

lemma rd16_eq [simp]: "rd16 dev a s = (ucast (dev (bus s) (P16 a)), emit (Rd (P16 a)) s)"
  by (simp add: rd16_def rd_def)

lemma status_look_simps [simp]:
  "fst (status_look dev a x) = ucast (dev (bus (snd x) @ [Wr (P16 a) 0x70]) (P16 a))"
  "bus (snd (status_look dev a x)) = bus (snd x) @ status_poll a"
  "only_bus s (snd (status_look dev a x)) = only_bus s (snd x)"
  by (simp_all add: status_look_def read_status_def status_poll_def INTELJ3_RSR_CMD_def)

lemma concat_replicate_snoc: "concat (replicate (Suc n) xs) = concat (replicate n xs) @ xs"
  by (induction n) simp_all

lemma status_polls:
  "bus (snd ((status_look dev a ^^ n) x)) = bus (snd x) @ concat (replicate n (status_poll a)) \<and>
   only_bus (snd x) (snd ((status_look dev a ^^ n) x))"
proof (induction n)
  case (Suc n)
  then show ?case by (simp add: concat_replicate_snoc del: replicate_Suc)
qed simp

lemma bit7_iff: "((w :: 'a :: len word) AND 0x80 \<noteq> 0) = bit w 7"
  by (simp add: bit_iff_and_push_bit_not_eq_0)

lemma ucast_ready: "((ucast (v :: u32) :: u16w) AND 0x80 \<noteq> 0) = (v AND 0x80 \<noteq> 0)"
  by (simp only: bit7_iff) (simp add: bit_simps)

lemma view_poll1:
  "mode (j3_view blk m0 h) = Status \<Longrightarrow> j3_view blk m0 (h @ status_poll a) = j3_view blk m0 h"
  by (simp add: j3_view_append status_poll_def)

lemma view_polls:
  "mode (j3_view blk m0 h) = Status \<Longrightarrow>
     j3_view blk m0 (h @ concat (replicate n (status_poll a))) = j3_view blk m0 h"
proof (induction n)
  case (Suc n)
  then have "j3_view blk m0 ((h @ concat (replicate n (status_poll a))) @ status_poll a) = j3_view blk m0 h"
    using view_poll1 [of blk m0 "h @ concat (replicate n (status_poll a))" a] by simp
  then show ?case by (simp add: concat_replicate_snoc del: replicate_Suc)
qed simp

text \<open>The status wait is a polling loop of the working chip.\<close>

interpretation st: poll_loop "\<lambda>x. fst x AND 0x80 \<noteq> 0" "status_look dev a"
  "\<lambda>x. j3_works blk m0 dev \<and> mode (j3_view blk m0 (bus (snd x))) = Status"
  for dev :: "port dev" and a :: u32 and blk m0
proof
  fix x :: "u16w \<times> flash"
  assume a: "j3_works blk m0 dev \<and> mode (j3_view blk m0 (bus (snd x))) = Status"
  then obtain n where
    "dev (bus (snd x) @ concat (replicate n (status_poll a)) @ [Wr (P16 a) 0x70]) (P16 a) AND 0x80 \<noteq> 0"
    unfolding j3_works_def by blast
  then have "fst ((status_look dev a ^^ Suc n) x) AND 0x80 \<noteq> 0"
    by (simp add: status_polls ucast_ready)
  then show "\<exists>n. fst ((status_look dev a ^^ n) x) AND 0x80 \<noteq> 0" by blast
qed

lemma status_verdict_quiet: "v AND 0x7f = 0 \<Longrightarrow> status_verdict (ucast (v :: u32)) = (0, False)"
proof -
  assume v: "v AND 0x7f = 0"
  have "(ucast v :: u16w) AND m = 0" if "m AND 0x7f = m" for m
  proof (rule bit_word_eqI)
    fix n assume n: "n < LENGTH(16)"
    show "bit ((ucast v :: u16w) AND m) n = bit (0 :: u16w) n"
    proof (rule ccontr)
      assume "\<not> ?thesis"
      then have "bit v n" "bit m n" by (auto simp: bit_simps)
      then have "bit (m AND 0x7f) n" using that by simp
      then have "bit (0x7f :: u16w) n" by (simp add: bit_simps)
      then have "bit (0x7f :: u32) n" by (simp add: bit_simps)
      with \<open>bit v n\<close> have "bit (v AND 0x7f) n" using n by (simp add: bit_simps)
      with v show False by simp
    qed
  qed
  then show ?thesis by (simp add: status_verdict_def)
qed

section \<open>The flash operations on a working chip\<close>

lemma ucast_16_32_16 [simp]: "ucast (ucast (w :: u16w) :: u32) = w"
  by (rule bit_word_eqI) (simp add: bit_simps)

lemma check_complete:
  assumes w: "j3_works blk m0 dev" and m: "mode (j3_view blk m0 (bus s)) = Status"
  shows "\<exists>t. mflash_check_operation_complete dev a s = Some (0, t) \<and> only_bus s t \<and>
    j3_view blk m0 (bus t) = j3_view blk m0 (bus s)"
proof -
  let ?s1 = "read_status dev a s"
  have s1: "?s1 = status_look dev a (0, s)" by (simp add: status_look_def)
  have m1: "j3_view blk m0 (bus (snd ?s1)) = j3_view blk m0 (bus s)"
    unfolding s1 by (simp add: view_poll1 m)
  obtain n where n: "while_option (\<lambda>x. \<not> (fst x AND 0x80 \<noteq> 0)) (status_look dev a) ?s1 =
      Some ((status_look dev a ^^ n) ?s1)" "fst ((status_look dev a ^^ n) ?s1) AND 0x80 \<noteq> 0"
    using st.waits [of blk m0 dev ?s1 a] w m m1 by auto
  let ?x = "(status_look dev a ^^ n) ?s1"
  have x: "?x = (status_look dev a ^^ Suc n) (0, s)" by (simp add: s1 funpow_swap1)
  let ?y = "(status_look dev a ^^ n) (0, s)"
  have xy: "?x = status_look dev a ?y" unfolding x by simp
  have vy: "j3_view blk m0 (bus (snd ?y)) = j3_view blk m0 (bus s)" and "only_bus s (snd ?y)"
    using status_polls [where dev = dev and a = a and n = n and x = "(0, s)"] by (simp_all add: view_polls m)
  then have vx: "j3_view blk m0 (bus (snd ?x)) = j3_view blk m0 (bus s)" and ox: "only_bus s (snd ?x)"
    unfolding xy by (simp_all add: view_poll1 m)
  let ?v = "dev (bus (snd ?y) @ [Wr (P16 a) 0x70]) (P16 a)"
  have "mode (j3_view blk m0 (bus (snd ?y) @ [Wr (P16 a) 0x70])) = Status"
    by (simp add: vy m)
  moreover have "?v AND 0x80 \<noteq> 0" using n(2) unfolding xy by (simp add: ucast_ready)
  ultimately have "?v AND 0x7f = 0" using w unfolding j3_works_def by blast
  then have "status_verdict (fst ?x) = (0, False)" unfolding xy by (simp add: status_verdict_quiet)
  then have "mflash_check_operation_complete dev a s = Some (0, snd ?x)"
    unfolding mflash_check_operation_complete_def n(1) by (cases ?x) simp
  with vx ox show ?thesis by blast
qed

definition idle :: "j3 \<Rightarrow> bool" where
  "idle c \<longleftrightarrow> mode c = Array \<or> mode c = Status"

lemma j3_program:
  assumes "idle c"
  shows "j3_event blk (Wr (P16 a) (ucast (d :: u16w))) (j3_event blk (Wr (P16 a) 0x40) c) =
    \<lparr>mode = Status, mem = (mem c)(a := mem c a AND d)\<rparr>"
proof -
  obtain m f where "c = \<lparr>mode = m, mem = f\<rparr>" by (cases c)
  with assms show ?thesis by (cases m) (simp_all add: idle_def)
qed

lemma j3_erase:
  assumes "idle c"
  shows "j3_event blk (Wr (P16 a) 0xD0) (j3_event blk (Wr (P16 a) 0x20) c) =
    \<lparr>mode = Status, mem = (\<lambda>x. if blk a x then 0xffff else mem c x)\<rparr>"
proof -
  obtain m f where "c = \<lparr>mode = m, mem = f\<rparr>" by (cases c)
  with assms show ?thesis by (cases m) (simp_all add: idle_def fun_eq_iff)
qed

lemma write_flash_effect:
  assumes w: "j3_works blk m0 dev" and i: "idle (j3_view blk m0 (bus s))"
  shows "\<exists>t. write_flash dev a d s = Some t \<and> only_bus s t \<and> j3_view blk m0 (bus t) =
    \<lparr>mode = Array, mem = (mem (j3_view blk m0 (bus s)))(a := mem (j3_view blk m0 (bus s)) a AND d)\<rparr>"
proof -
  define c where "c = (mem (j3_view blk m0 (bus s)))(a := mem (j3_view blk m0 (bus s)) a AND d)"
  define s1 where "s1 = wr (P16 a) (ucast d) (wr (P16 a) INTELJ3_WP_CMD s)"
  have v1: "j3_view blk m0 (bus s1) = \<lparr>mode = Status, mem = c\<rparr>"
    by (simp add: s1_def c_def j3_cmds j3_program [OF i] del: j3_event.simps)
  have "only_bus s s1" by (simp add: s1_def)
  have "mode (j3_view blk m0 (bus s1)) = Status" unfolding v1 by simp
  then obtain t where t: "mflash_check_operation_complete dev a s1 = Some (0, t)" "only_bus s1 t"
      "j3_view blk m0 (bus t) = \<lparr>mode = Status, mem = c\<rparr>"
    using check_complete [OF w] v1 by metis
  have "write_flash dev a d s = Some (wr (P16 (BaseOfFlash t)) 0xff t)"
    unfolding write_flash_def s1_def [symmetric] t(1) by simp
  moreover have "j3_view blk m0 (bus (wr (P16 (BaseOfFlash t)) 0xff t)) = \<lparr>mode = Array, mem = c\<rparr>"
    by (simp add: t(3))
  ultimately show ?thesis using only_bus_trans [OF \<open>only_bus s s1\<close> t(2)]
    unfolding c_def by (intro exI [of _ "wr (P16 (BaseOfFlash t)) 0xff t"]) simp
qed

lemma erase_effect:
  assumes w: "j3_works blk m0 dev" and i: "idle (j3_view blk m0 (bus s))"
  shows "\<exists>t. erase_sector dev a s = Some t \<and> only_bus s t \<and> j3_view blk m0 (bus t) =
    \<lparr>mode = Array, mem = (\<lambda>x. if blk a x then 0xffff else mem (j3_view blk m0 (bus s)) x)\<rparr>"
proof -
  define c where "c = (\<lambda>x. if blk a x then 0xffff else mem (j3_view blk m0 (bus s)) x)"
  define s1 where "s1 = wr (P16 a) INTELJ3_BERASE_CMD2 (wr (P16 a) INTELJ3_BERASE_CMD1 s)"
  have v1: "j3_view blk m0 (bus s1) = \<lparr>mode = Status, mem = c\<rparr>"
    by (simp add: s1_def c_def j3_cmds j3_erase [OF i] del: j3_event.simps)
  have "only_bus s s1" by (simp add: s1_def)
  have "mode (j3_view blk m0 (bus s1)) = Status" unfolding v1 by simp
  then obtain t where t: "mflash_check_operation_complete dev a s1 = Some (0, t)" "only_bus s1 t"
      "j3_view blk m0 (bus t) = \<lparr>mode = Status, mem = c\<rparr>"
    using check_complete [OF w] v1 by metis
  have "erase_sector dev a s = Some (flash_reset t)"
    unfolding erase_sector_def s1_def [symmetric] t(1) by simp
  moreover have "j3_view blk m0 (bus (flash_reset t)) = \<lparr>mode = Array, mem = c\<rparr>"
    by (simp add: t(3) flash_reset_def)
  ultimately show ?thesis using only_bus_trans [OF \<open>only_bus s s1\<close> t(2)]
    unfolding c_def by (intro exI [of _ "flash_reset t"]) (simp add: flash_reset_def)
qed

lemma write_halves_effect:
  assumes w: "j3_works blk m0 dev" and i: "idle (j3_view blk m0 (bus s))" and n: "2 * length ws \<le> 2 ^ 32"
  shows "\<exists>t. write_halves dev a ws s = Some t \<and> only_bus s t \<and> idle (j3_view blk m0 (bus t)) \<and>
    (ws \<noteq> [] \<longrightarrow> mode (j3_view blk m0 (bus t)) = Array) \<and>
    (ws = [] \<longrightarrow> t = s) \<and>
    (\<forall>i < length ws. mem (j3_view blk m0 (bus t)) (a + of_nat (2 * i)) =
       mem (j3_view blk m0 (bus s)) (a + of_nat (2 * i)) AND ws ! i) \<and>
    (\<forall>x. (\<forall>i < length ws. x \<noteq> a + of_nat (2 * i)) \<longrightarrow> mem (j3_view blk m0 (bus t)) x = mem (j3_view blk m0 (bus s)) x)"
  using i n
proof (induction ws arbitrary: a s)
  case Nil
  then show ?case by auto
next
  case (Cons d ws)
  obtain u where u: "write_flash dev a d s = Some u" "only_bus s u"
      "j3_view blk m0 (bus u) =
        \<lparr>mode = Array, mem = (mem (j3_view blk m0 (bus s)))(a := mem (j3_view blk m0 (bus s)) a AND d)\<rparr>"
    using write_flash_effect [OF w Cons.prems(1)] by blast
  then have "idle (j3_view blk m0 (bus u))" by (simp add: idle_def)
  then obtain t where t: "write_halves dev (a + 2) ws u = Some t" "only_bus u t" "idle (j3_view blk m0 (bus t))"
      "ws \<noteq> [] \<longrightarrow> mode (j3_view blk m0 (bus t)) = Array" "ws = [] \<longrightarrow> t = u"
      and tin: "\<And>i. i < length ws \<Longrightarrow> mem (j3_view blk m0 (bus t)) (a + 2 + of_nat (2 * i)) =
         mem (j3_view blk m0 (bus u)) (a + 2 + of_nat (2 * i)) AND ws ! i"
      and tout: "\<And>x. (\<forall>i < length ws. x \<noteq> a + 2 + of_nat (2 * i)) \<Longrightarrow>
         mem (j3_view blk m0 (bus t)) x = mem (j3_view blk m0 (bus u)) x"
    using Cons.IH [of u "a + 2"] Cons.prems(2) by fastforce
  have step: "a + of_nat (2 * Suc i) = a + 2 + of_nat (2 * i)" for i by simp
  have far: "(of_nat (2 * Suc i) :: u32) \<noteq> 0" if "i < length ws" for i
  proof -
    have "unat (of_nat (2 * Suc i) :: u32) = 2 * Suc i"
      using that Cons.prems(2) by (simp only: unat_of_nat) (simp add: take_bit_nat_eq_self)
    then show ?thesis by (metis nat.distinct(1) mult_is_0 unat_0 zero_neq_numeral)
  qed
  then have far': "a \<noteq> a + 2 + of_nat (2 * i)" if "i < length ws" for i
    using that step [of i] by (metis add_cancel_right_right)
  have "mem (j3_view blk m0 (bus t)) (a + of_nat (2 * i)) =
      mem (j3_view blk m0 (bus s)) (a + of_nat (2 * i)) AND (d # ws) ! i" if "i < length (d # ws)" for i
  proof (cases i)
    case 0
    then show ?thesis using tout [of a] far' by (simp add: u(3))
  next
    case (Suc j)
    then have "j < length ws" using that by simp
    then show ?thesis unfolding Suc step using tin [of j] far' [of j] by (simp add: u(3) del: of_nat_mult)
  qed
  moreover have "mem (j3_view blk m0 (bus t)) x = mem (j3_view blk m0 (bus s)) x"
    if x: "\<forall>i < length (d # ws). x \<noteq> a + of_nat (2 * i)" for x
  proof -
    have "x \<noteq> a" using x [rule_format, of 0] by simp
    moreover have "\<forall>i < length ws. x \<noteq> a + 2 + of_nat (2 * i)"
      using x step by (metis Suc_less_eq length_Cons)
    ultimately show ?thesis using tout [of x] by (simp add: u(3))
  qed
  ultimately show ?case
    using t u(1,2) by (auto simp: u(3) intro: only_bus_trans)
qed

lemma wait_erased_ready:
  assumes "j3_works blk m0 dev" "mode (j3_view blk m0 (bus s)) = Array" "mem (j3_view blk m0 (bus s)) a = 0xffff"
  shows "wait_erased dev a s = Some (emit (Rd (P16 a)) s)"
proof -
  have "ucast (dev (bus s) (P16 a)) = (0xffff :: u16w)"
    using assms unfolding j3_works_def by simp
  then show ?thesis unfolding wait_erased_def by (subst while_option_unfold) simp
qed

lemma read_halves_effect:
  assumes w: "j3_works blk m0 dev" and "mode (j3_view blk m0 (bus s)) = Array"
  shows "\<exists>t. read_halves dev a n s = (map (\<lambda>i. mem (j3_view blk m0 (bus s)) (a + of_nat (2 * i))) [0..<n], t) \<and>
    only_bus s t \<and> j3_view blk m0 (bus t) = j3_view blk m0 (bus s)"
  using assms(2)
proof (induction n arbitrary: a s)
  case (Suc n)
  let ?s1 = "emit (Rd (P16 a)) s"
  have v: "j3_view blk m0 (bus ?s1) = j3_view blk m0 (bus s)" by simp
  obtain t where t: "read_halves dev (a + 2) n ?s1 =
      (map (\<lambda>i. mem (j3_view blk m0 (bus s)) (a + 2 + of_nat (2 * i))) [0..<n], t)" "only_bus ?s1 t"
      "j3_view blk m0 (bus t) = j3_view blk m0 (bus s)"
    using Suc.IH [of ?s1 "a + 2"] Suc.prems unfolding v by blast
  have "dev (bus s) (P16 a) = ucast (mem (j3_view blk m0 (bus s)) a)"
    using w Suc.prems unfolding j3_works_def by simp
  then have "read_halves dev a (Suc n) s =
      (map (\<lambda>i. mem (j3_view blk m0 (bus s)) (a + of_nat (2 * i))) [0..<Suc n], t)"
    unfolding map_upt_Suc_Cons by (simp add: t(1) add.assoc)
  with t show ?case by auto
qed simp

lemma copy_in_nth: "i < n \<Longrightarrow> n \<le> length b \<Longrightarrow> copy_in b n ! i = b ! i"
  by (simp add: copy_in_def nth_append)

lemma halfword_copy_in: "2 * i + 1 < n \<Longrightarrow> n \<le> length b \<Longrightarrow> halfword (copy_in b n) i = halfword b i"
  by (simp add: halfword_def copy_in_nth)

lemma u16w_and_max [simp]: "(0xffff :: u16w) AND w = w"
proof -
  have "(0xffff :: u16w) = - 1" by simp
  then show ?thesis by (simp only: and.left_neutral)
qed

lemma write_b_effect:
  assumes w: "j3_works blk m0 dev" and i: "idle (j3_view blk m0 (bus s))"
    and a: "a = base (ioport_devices s minor)" and v: "vmalloc k (count rq) \<noteq> None"
    and l: "unat (count rq) \<le> length (buff rq)"
    and b: "blk a a" "\<And>i. i < unat (count rq) div 2 \<Longrightarrow> blk a (a + of_nat (2 * i))"
  shows "\<exists>t. ioport_write_b k dev minor rq s = Some (0, t) \<and> only_bus s t \<and>
    mode (j3_view blk m0 (bus t)) = Array \<and>
    (\<forall>i < unat (count rq) div 2. mem (j3_view blk m0 (bus t)) (a + of_nat (2 * i)) = halfword (buff rq) i) \<and>
    (\<forall>x. \<not> blk a x \<longrightarrow> mem (j3_view blk m0 (bus t)) x = mem (j3_view blk m0 (bus s)) x)"
proof -
  let ?n = "unat (count rq)"
  let ?ws = "map (halfword (copy_in (buff rq) ?n)) [0..<?n div 2]"
  obtain u where u: "erase_sector dev a s = Some u" "only_bus s u" "j3_view blk m0 (bus u) =
      \<lparr>mode = Array, mem = (\<lambda>x. if blk a x then 0xffff else mem (j3_view blk m0 (bus s)) x)\<rparr>"
    using erase_effect [OF w i] by blast
  define u1 where "u1 = emit (Rd (P16 a)) u"
  define u2 where "u2 = emit (Rd (P16 a)) u1"
  have v1: "j3_view blk m0 (bus u1) = j3_view blk m0 (bus u)"
    and v2: "j3_view blk m0 (bus u2) = j3_view blk m0 (bus u)" by (simp_all add: u1_def u2_def)
  have we: "wait_erased dev a u1 = Some u2"
    unfolding u2_def by (rule wait_erased_ready [OF w]) (simp_all add: v1 u(3) b(1))
  have small: "2 * length ?ws \<le> 2 ^ 32"
  proof -
    have "?n < 2 ^ LENGTH(32)" by (rule unsigned_less)
    then show ?thesis by simp
  qed
  have "idle (j3_view blk m0 (bus u2))" by (simp add: v2 u(3) idle_def)
  from write_halves_effect [OF w this small, of a] obtain t where
    t: "write_halves dev a ?ws u2 = Some t" "only_bus u2 t"
      "?ws \<noteq> [] \<longrightarrow> mode (j3_view blk m0 (bus t)) = Array" "?ws = [] \<longrightarrow> t = u2"
    and tin: "\<And>i. i < length ?ws \<Longrightarrow> mem (j3_view blk m0 (bus t)) (a + of_nat (2 * i)) =
       mem (j3_view blk m0 (bus u2)) (a + of_nat (2 * i)) AND ?ws ! i"
    and tout: "\<And>x. (\<forall>i < length ?ws. x \<noteq> a + of_nat (2 * i)) \<Longrightarrow>
       mem (j3_view blk m0 (bus t)) x = mem (j3_view blk m0 (bus u2)) x" by blast
  have ou: "only_bus s u2" using u(2) by (simp add: u1_def u2_def)
  have "ioport_write_b k dev minor rq s = Some (0, t)"
    using v by (auto simp: ioport_write_b_def a [symmetric] u(1) u1_def [symmetric] we t(1) Let_def)
  moreover have "mode (j3_view blk m0 (bus t)) = Array"
    using t(3,4) v2 u(3) by fastforce
  moreover have "mem (j3_view blk m0 (bus t)) (a + of_nat (2 * i)) = halfword (buff rq) i"
    if i: "i < ?n div 2" for i
  proof -
    have "2 * i + 1 < ?n" using i by arith
    then show ?thesis
      using tin [of i] i b(2) [OF i] by (simp add: v2 u(3) halfword_copy_in l del: of_nat_mult)
  qed
  moreover have "mem (j3_view blk m0 (bus t)) x = mem (j3_view blk m0 (bus s)) x" if "\<not> blk a x" for x
  proof -
    have "\<forall>i < length ?ws. x \<noteq> a + of_nat (2 * i)" using b(2) that by (metis length_map length_upt diff_zero)
    then show ?thesis using tout [of x] that by (simp add: v2 u(3))
  qed
  ultimately show ?thesis using only_bus_trans [OF ou t(2)] by blast
qed

lemma half_bytes_halfword: "half_bytes (halfword b i) = [b ! (2 * i), b ! (2 * i + 1)]"
proof -
  have "\<not> bit (w :: u8) (8 + n)" for w n by (auto dest: bit_imp_le_length)
  then show ?thesis
    unfolding half_bytes_def halfword_def by (auto intro!: bit_word_eqI simp: bit_simps)
qed

lemma half_bytes_all:
  "2 * n \<le> length b \<Longrightarrow> concat (map half_bytes (map (halfword b) [0..<n])) = take (2 * n) b"
proof (induction n)
  case (Suc n)
  have "take (2 * Suc n) b = take (2 * n) b @ [b ! (2 * n), b ! (2 * n + 1)]"
    using Suc.prems by (simp add: take_Suc_conv_app_nth)
  then show ?case using Suc by (simp add: half_bytes_halfword)
qed simp

lemma read_ioctl_effect:
  assumes "j3_works blk m0 dev" "mode (j3_view blk m0 (bus s)) = Array"
    and "maped (ioport_devices s minor) \<noteq> 0" "a = base (ioport_devices s minor)"
    and "count rq \<noteq> 0" "even (unat (count rq))" "vmalloc k (count rq) = Some b" "length b = unat (count rq)"
  shows "\<exists>t. ioport_ctl_ioctl k dev minor IOPORT_READ 0 rq s = Some (0, rq\<lparr>buff :=
      concat (map half_bytes (map (\<lambda>i. mem (j3_view blk m0 (bus s)) (a + offset rq + of_nat (2 * i)))
        [0..<unat (count rq) div 2])) @ drop (unat (count rq)) (buff rq)\<rparr>, t) \<and>
    j3_view blk m0 (bus t) = j3_view blk m0 (bus s) \<and> only_bus s t"
proof -
  let ?n = "unat (count rq)"
  let ?ws = "map (\<lambda>i. mem (j3_view blk m0 (bus s)) (a + offset rq + of_nat (2 * i))) [0..<?n div 2]"
  obtain t where t: "read_halves dev (a + offset rq) (?n div 2) s = (?ws, t)"
      "j3_view blk m0 (bus t) = j3_view blk m0 (bus s)" "only_bus s t"
    using read_halves_effect [OF assms(1,2), of "a + offset rq" "?n div 2"] by blast
  have len: "length (concat (map half_bytes ws)) = 2 * length ws" for ws
    by (induction ws) (simp_all add: half_bytes_def)
  have "length (concat (map half_bytes ?ws)) = ?n"
    unfolding len using assms(6) by simp
  then have "ioport_ctl_ioctl k dev minor IOPORT_READ 0 rq s =
      Some (0, rq\<lparr>buff := concat (map half_bytes ?ws) @ drop ?n (buff rq)\<rparr>, t)"
    using assms(3,5,8)
    by (simp add: ioport_ctl_ioctl_def ioport_ctl_read_def ioport_read_b_def assms(7) t(1)
        assms(4) [symmetric] Let_def del: map_map of_nat_mult)
  with t(2,3) show ?thesis by blast
qed

section \<open>Properties\<close>

text \<open>
  C30: An IOPORT_WRITE to a mapped device, with a count that is not zero, a buffer of at least that many bytes
  whose destination lies wholly in the erase block of the mapping's base, a chip that works and is in array or
  status mode (not busy with an earlier operation), and memory for \<open>vmalloc\<close>: the call returns, reports
  success and leaves the chip in array mode with the buffer's half-words stored from the base of the mapping on
  (an odd last byte is not stored), and with everything outside that erase block as it was.  (The driver erases only the block of the base: half-words beyond it would be
  programmed over what is there.)
\<close>
theorem flash_write_stores:
  assumes "j3_works blk m0 dev" "idle (j3_view blk m0 (bus s))"
    and "maped (ioport_devices s minor) \<noteq> 0" "a = base (ioport_devices s minor)"
    and "count rq \<noteq> 0" "unat (count rq) \<le> length (buff rq)" "vmalloc k (count rq) \<noteq> None"
    and "blk a a" "\<And>i. i < unat (count rq) div 2 \<Longrightarrow> blk a (a + of_nat (2 * i))"
  shows "\<exists>t. ioport_ctl_ioctl k dev minor IOPORT_WRITE 0 rq s = Some (0, rq, t) \<and>
    mode (j3_view blk m0 (bus t)) = Array \<and>
    (\<forall>i < unat (count rq) div 2. mem (j3_view blk m0 (bus t)) (a + of_nat (2 * i)) = halfword (buff rq) i) \<and>
    (\<forall>x. \<not> blk a x \<longrightarrow> mem (j3_view blk m0 (bus t)) x = mem (j3_view blk m0 (bus s)) x)"
proof -
  obtain t where t: "ioport_write_b k dev minor rq s = Some (0, t)"
      "mode (j3_view blk m0 (bus t)) = Array"
      "\<forall>i < unat (count rq) div 2. mem (j3_view blk m0 (bus t)) (a + of_nat (2 * i)) = halfword (buff rq) i"
      "\<forall>x. \<not> blk a x \<longrightarrow> mem (j3_view blk m0 (bus t)) x = mem (j3_view blk m0 (bus s)) x"
    using write_b_effect [OF assms(1,2,4,7,6,8,9)] by blast
  have "ioport_ctl_ioctl k dev minor IOPORT_WRITE 0 rq s = Some (0, rq, t)"
    using assms(3,5) by (simp add: ioport_ctl_ioctl_def ioport_ctl_write_def t(1))
  with t show ?thesis by blast
qed

text \<open>A chip that is ready at once, with blocks of 128 kilobytes, and a driver that has it mapped.\<close>

definition j3_chip :: "(u32 \<Rightarrow> u32 \<Rightarrow> bool) \<Rightarrow> (u32 \<Rightarrow> u16w) \<Rightarrow> port dev" where
  "j3_chip blk m0 h r =
     (case r of P16 a \<Rightarrow> if mode (j3_view blk m0 h) = Array then ucast (mem (j3_view blk m0 h) a) else 0x80
      | P8 a \<Rightarrow> 0)"

lemma j3_chip_works: "j3_works blk m0 (j3_chip blk m0)"
  unfolding j3_works_def
proof (intro conjI allI impI)
  fix h a assume m: "mode (j3_view blk m0 h) = Status"
  have "mode (j3_view blk m0 (h @ [Wr (P16 a) 0x70])) = Status" using m by simp
  then show "\<exists>n. j3_chip blk m0 (h @ concat (replicate n (status_poll a)) @ [Wr (P16 a) 0x70]) (P16 a) AND 0x80 \<noteq> 0"
    by (intro exI [of _ 0]) (simp add: j3_chip_def del: j3_view_Cons)
  show "j3_chip blk m0 h (P16 a) AND 0x7f = 0" using m by (simp add: j3_chip_def)
qed (simp add: j3_chip_def)

definition block128k :: "u32 \<Rightarrow> u32 \<Rightarrow> bool" where
  "block128k a x \<longleftrightarrow> a AND 0xfffe0000 = x AND 0xfffe0000"

definition plain_kernel :: kernel where
  "plain_kernel = \<lparr>ioremap = (\<lambda>h p n. p), vmalloc = (\<lambda>n. Some (replicate (unat n) 0))\<rparr>"

definition mapped_at :: "u32 \<Rightarrow> flash" where
  "mapped_at a = set_dev 0 (\<lambda>d. d\<lparr>base := a, len := 0x1000, maped := 1\<rparr>) (flash_zero\<lparr>BaseOfFlash := 0x01000000\<rparr>)"

lemma mapped_at_simps [simp]:
  "bus (mapped_at a) = []" "base (ioport_devices (mapped_at a) 0) = a" "maped (ioport_devices (mapped_at a) 0) = 1"
  by (simp_all add: mapped_at_def flash_zero_def)

lemma j3_view_Nil [simp]: "j3_view blk m0 [] = \<lparr>mode = Array, mem = m0\<rparr>"
  by (simp add: j3_view_def)

theorem flash_write_stores_witness:
  "\<exists>t. ioport_ctl_ioctl plain_kernel (j3_chip block128k (\<lambda>_. 0)) 0 IOPORT_WRITE 0
     \<lparr>map_base = 0, map_len = 0, offset = 0, buff = [0x12, 0x34, 0x56, 0x78], count = 4\<rparr> (mapped_at 0x01530000) =
       Some (0, \<lparr>map_base = 0, map_len = 0, offset = 0, buff = [0x12, 0x34, 0x56, 0x78], count = 4\<rparr>, t) \<and>
     mem (j3_view block128k (\<lambda>_. 0) (bus t)) 0x01530002 = 0x7856"
proof -
  let ?rq = "\<lparr>map_base = 0, map_len = 0, offset = 0, buff = [0x12, 0x34, 0x56, 0x78], count = 4\<rparr>"
  have n: "unat (count ?rq) div 2 = 2" by simp
  have b: "block128k 0x01530000 (0x01530000 + of_nat (2 * i))" if "i < unat (count ?rq) div 2" for i
    using that unfolding n by (auto simp: block128k_def less_2_cases_iff)
  have "idle (j3_view block128k (\<lambda>_. 0) (bus (mapped_at 0x01530000)))" by (simp add: idle_def)
  from flash_write_stores [OF j3_chip_works this, where rq = ?rq and minor = 0 and k = plain_kernel and a = "0x01530000"]
  obtain t where t: "ioport_ctl_ioctl plain_kernel (j3_chip block128k (\<lambda>_. 0)) 0 IOPORT_WRITE 0 ?rq (mapped_at 0x01530000) =
      Some (0, ?rq, t)"
    "\<forall>i < unat (count ?rq) div 2. mem (j3_view block128k (\<lambda>_. 0) (bus t)) (0x01530000 + of_nat (2 * i)) = halfword (buff ?rq) i"
    using b by (auto simp: plain_kernel_def block128k_def)
  from t(2) [rule_format, of 1] have "mem (j3_view block128k (\<lambda>_. 0) (bus t)) 0x01530002 = 0x7856"
    by (simp add: halfword_def)
  with t(1) show ?thesis by blast
qed

text \<open>
  An IOPORT_READ of an even count from a chip in array mode returns the stored half-words,
  low byte first, and leaves the chip as it was.
\<close>
theorem flash_read_values:
  assumes "j3_works blk m0 dev" "mode (j3_view blk m0 (bus s)) = Array"
    and "maped (ioport_devices s minor) \<noteq> 0" "a = base (ioport_devices s minor)"
    and "count rq \<noteq> 0" "even (unat (count rq))" "vmalloc k (count rq) = Some b" "length b = unat (count rq)"
  shows "\<exists>t. ioport_ctl_ioctl k dev minor IOPORT_READ 0 rq s = Some (0, rq\<lparr>buff :=
      concat (map half_bytes (map (\<lambda>i. mem (j3_view blk m0 (bus s)) (a + offset rq + of_nat (2 * i)))
        [0..<unat (count rq) div 2])) @ drop (unat (count rq)) (buff rq)\<rparr>, t) \<and>
    j3_view blk m0 (bus t) = j3_view blk m0 (bus s)"
  using read_ioctl_effect [OF assms] by blast

theorem flash_read_values_witness:
  "\<exists>t. ioport_ctl_ioctl plain_kernel (j3_chip block128k (\<lambda>a. ucast a)) 0 IOPORT_READ 0
     \<lparr>map_base = 0, map_len = 0, offset = 2, buff = [0, 0, 0, 0], count = 4\<rparr> (mapped_at 0x01531230) =
       Some (0, \<lparr>map_base = 0, map_len = 0, offset = 2, buff = [0x32, 0x12, 0x34, 0x12], count = 4\<rparr>, t)"
proof -
  let ?rq = "\<lparr>map_base = 0, map_len = 0, offset = 2, buff = [0, 0, 0, 0], count = 4\<rparr>"
  have m: "mode (j3_view block128k (\<lambda>a. ucast a) (bus (mapped_at 0x01531230))) = Array" by simp
  have two: "[0..<2] = [0, 1 :: nat]" by (simp add: upt_rec)
  have vals: "concat (map half_bytes (map (\<lambda>i. mem (j3_view block128k (\<lambda>a. ucast a) (bus (mapped_at 0x01531230)))
      (0x01531230 + offset ?rq + of_nat (2 * i))) [0..<unat (count ?rq) div 2])) @ drop (unat (count ?rq)) (buff ?rq) =
      [0x32, 0x12, 0x34, 0x12]"
    by (simp add: two half_bytes_def)
  have "\<exists>t. ioport_ctl_ioctl plain_kernel (j3_chip block128k (\<lambda>a. ucast a)) 0 IOPORT_READ 0 ?rq
      (mapped_at 0x01531230) = Some (0, ?rq\<lparr>buff := [0x32, 0x12, 0x34, 0x12]\<rparr>, t)"
    using flash_read_values [OF j3_chip_works m, where rq = ?rq and minor = 0 and k = plain_kernel
        and a = "0x01531230" and b = "replicate 4 0"]
    unfolding vals by (simp add: plain_kernel_def) blast
  then show ?thesis by simp
qed

end
