(* ===== verification/Flash_Map.thy ===== *)
theory Flash_Map
  imports Flash
begin

text \<open>
  The mapping table of the flash driver: which states its entry points reach, what holds of the
  mapping counters and of the addresses it hands to \<open>iounmap\<close> in all of them, and what happens
  when two minors are mapped or when the chip does not erase.
\<close>

section \<open>Reachable states\<close>

inductive flash_reach :: "kernel \<Rightarrow> port dev \<Rightarrow> flash \<Rightarrow> bool" for k dev where
  init: "flash_reach k dev (ioport_init flash_zero)"
| open_op: "flash_reach k dev s \<Longrightarrow> flash_reach k dev (snd (ioport_open m s))"
| release_op: "flash_reach k dev s \<Longrightarrow> flash_reach k dev (snd (ioport_release m s))"
| ioctl_op: "flash_reach k dev s \<Longrightarrow> ioport_ctl_ioctl k dev m c err rq s = Some (r, rq', s') \<Longrightarrow> flash_reach k dev s'"
| write_op: "flash_reach k dev s \<Longrightarrow> flash_reach k dev (snd (ioport_write m buf s))"
| read_op: "flash_reach k dev s \<Longrightarrow> flash_reach k dev (snd (snd (ioport_read dev m n s)))"

inductive_cases flash_reachE: "flash_reach k dev s"

section \<open>Operations that leave the table alone\<close>

lemma status_look_power_table:
  "only_bus (snd x) (snd ((status_look dev a ^^ n) x))"
  using status_polls [of n dev a x] by blast

lemma check_table: "mflash_check_operation_complete dev a s = Some (r, t) \<Longrightarrow> only_bus s t"
proof -
  assume c: "mflash_check_operation_complete dev a s = Some (r, t)"
  then obtain d u where w: "while_option (\<lambda>x. \<not> (fst x AND 0x80 \<noteq> 0)) (status_look dev a) (read_status dev a s) = Some (d, u)"
      and t: "t = (if snd (status_verdict d) then wr (P16 a) INTELJ3_CSR_CMD u else u)"
    by (auto simp: mflash_check_operation_complete_def split: Option.bind_splits prod.splits)
  have "only_bus s (snd (d, u))"
    by (rule while_option_rule [OF _ w, where P = "\<lambda>x. only_bus s (snd x)"]) (simp_all add: read_status_def)
  then show ?thesis using t by simp
qed

lemma erase_table: "erase_sector dev a s = Some t \<Longrightarrow> only_bus s t"
  by (auto simp: erase_sector_def flash_reset_def dest!: check_table split: Option.bind_splits if_splits)

lemma write_flash_table: "write_flash dev a d s = Some t \<Longrightarrow> only_bus s t"
  by (auto simp: write_flash_def dest!: check_table split: Option.bind_splits if_splits)

lemma write_halves_table: "write_halves dev a ws s = Some t \<Longrightarrow> only_bus s t"
proof (induction ws arbitrary: a s)
  case (Cons w ws)
  then show ?case
    by (auto dest!: write_flash_table Cons.IH intro: only_bus_trans split: Option.bind_splits)
qed simp

lemma wait_erased_table: "wait_erased dev a s = Some t \<Longrightarrow> only_bus s t"
proof -
  assume "wait_erased dev a s = Some t"
  then obtain v where w: "while_option (\<lambda>(v, s). v \<noteq> 0xffff) (\<lambda>(v, s). rd16 dev a (snd (rd16 dev a s))) (rd16 dev a s) = Some (v, t)"
    by (auto simp: wait_erased_def)
  have "only_bus s (snd (v, t))"
    by (rule while_option_rule [OF _ w, where P = "\<lambda>x. only_bus s (snd x)"]) auto
  then show ?thesis by simp
qed

lemma ctl_write_table: "ioport_ctl_write k dev m rq s = Some (r, t) \<Longrightarrow> only_bus s t"
  by (auto simp: ioport_ctl_write_def ioport_write_b_def Let_def
      dest!: erase_table wait_erased_table write_halves_table
      simp add: only_bus_def split: if_splits option.splits Option.bind_splits)

lemma ctl_write_con_table: "ioport_ctl_write_con k dev m rq s = Some (r, t) \<Longrightarrow> only_bus s t"
  by (auto simp: ioport_ctl_write_con_def ioport_write_b_con_def Let_def
      dest!: write_halves_table split: if_splits option.splits Option.bind_splits)

lemma read_halves_table: "read_halves dev a n s = (ws, t) \<Longrightarrow> only_bus s t"
proof (induction n arbitrary: a s ws)
  case (Suc n)
  then show ?case by (auto split: prod.splits dest!: Suc.IH)
qed simp

lemma ctl_read_table: "ioport_ctl_read k dev m rq s = (r, rq', t) \<Longrightarrow> only_bus s t"
  by (auto simp: ioport_ctl_read_def ioport_read_b_def Let_def
      dest!: read_halves_table split: if_splits option.splits prod.splits)

lemma write_bytes_table: "only_bus s (write_bytes a bs s)"
  by (induction bs arbitrary: a s) (simp_all, metis only_bus_wr(2))

lemma read_bytes_table: "only_bus s (snd (read_bytes dev a n s))"
  by (induction n arbitrary: a s) (auto split: prod.splits simp: rd_def, metis only_bus_emit(2) snd_conv)

lemmas table_kept = ctl_write_table ctl_write_con_table ctl_read_table

section \<open>The invariant of the table\<close>

text \<open>
  A device is mapped at most once; a mapped device has a base, and its base and the flash command
  window were handed out by \<open>ioremap\<close>; only addresses handed out are ever unmapped.
\<close>

definition handed_out :: "flash \<Rightarrow> u32 \<Rightarrow> bool" where
  "handed_out s a \<longleftrightarrow> Ioremap a \<in> set (vm s)"

definition map_inv :: "flash \<Rightarrow> bool" where
  "map_inv s \<longleftrightarrow>
     (\<forall>m. maped (ioport_devices s m) = 0 \<or>
        maped (ioport_devices s m) = 1 \<and> base (ioport_devices s m) \<noteq> 0 \<and> handed_out s (BaseOfFlash s)) \<and>
     (\<forall>m. base (ioport_devices s m) = 0 \<or> handed_out s (base (ioport_devices s m))) \<and>
     (\<forall>a. Iounmap a \<in> set (vm s) \<longrightarrow> handed_out s a)"

lemma map_inv_table: "only_bus s t \<Longrightarrow> map_inv t = map_inv s"
  by (simp add: only_bus_def map_inv_def handed_out_def)

lemma fold_set_dev:
  "distinct ms \<Longrightarrow> ioport_devices (fold (\<lambda>i. set_dev i f) ms s) n =
     (if n \<in> set ms then f (ioport_devices s n) else ioport_devices s n) \<and>
   vm (fold (\<lambda>i. set_dev i f) ms s) = vm s"
  by (induction ms arbitrary: s) auto

lemma map_inv_init: "map_inv (ioport_init flash_zero)"
proof -
  have "ioport_devices (ioport_init flash_zero) m = \<lparr>base = 0, len = 0, io_lock = 0, maped = 0\<rparr>" for m
    unfolding ioport_init_def by (simp add: fold_set_dev flash_zero_def)
  moreover have "vm (ioport_init flash_zero) = []"
    unfolding ioport_init_def by (simp add: fold_set_dev flash_zero_def)
  ultimately show ?thesis by (simp add: map_inv_def)
qed

lemma map_inv_lock:
  "map_inv s \<Longrightarrow> (\<And>d. maped (f d) = maped d \<and> base (f d) = base d) \<Longrightarrow> map_inv (set_dev m f s)"
  by (simp add: map_inv_def handed_out_def)

lemma map_inv_unmapped: "map_inv s \<Longrightarrow> map_inv (set_dev m (\<lambda>d. d\<lparr>maped := 0\<rparr>) s)"
  by (simp add: map_inv_def handed_out_def)

lemma map_inv_iounmap: "map_inv s \<Longrightarrow> handed_out s a \<Longrightarrow> map_inv (iounmap a s)"
  by (simp add: map_inv_def handed_out_def iounmap_def)

lemma iounmap_simps [simp]:
  "ioport_devices (iounmap a s) = ioport_devices s" "BaseOfFlash (iounmap a s) = BaseOfFlash s"
  "vm (iounmap a s) = vm s @ [Iounmap a]" "handed_out (iounmap a s) b = handed_out s b"
  by (simp_all add: iounmap_def handed_out_def)

lemma map_inv_maped: "map_inv s \<Longrightarrow> maped (ioport_devices s m) \<noteq> 0 \<Longrightarrow>
    maped (ioport_devices s m) = 1 \<and> base (ioport_devices s m) \<noteq> 0 \<and>
    handed_out s (base (ioport_devices s m)) \<and> handed_out s (BaseOfFlash s)"
  unfolding map_inv_def by blast

lemma set_dev_maped: "maped (ioport_devices s m) = 1 \<Longrightarrow>
    set_dev m (\<lambda>d. d\<lparr>maped := maped d - 1\<rparr>) s = set_dev m (\<lambda>d. d\<lparr>maped := 0\<rparr>) s"
  by (simp add: set_dev_def)

lemma map_inv_release: "map_inv s \<Longrightarrow> map_inv (snd (ioport_release m s))"
proof -
  assume inv: "map_inv s"
  define s1 where "s1 = (if base (ioport_devices s m) \<noteq> 0 then iounmap (base (ioport_devices s m)) s else s)"
  define s2 where "s2 = (if maped (ioport_devices s1 m) \<noteq> 0 then set_dev m (\<lambda>d. d\<lparr>maped := maped d - 1\<rparr>) s1 else s1)"
  have 1: "map_inv s1"
    using inv map_inv_iounmap [OF inv, of "base (ioport_devices s m)"]
    unfolding s1_def by (auto simp: map_inv_def)
  have 2: "map_inv s2"
    unfolding s2_def using 1 map_inv_maped [OF 1, of m] by (auto simp: set_dev_maped intro: map_inv_unmapped)
  have "snd (ioport_release m s) =
      (if io_lock (ioport_devices s2 m) \<noteq> 0 then set_dev m (\<lambda>d. d\<lparr>io_lock := io_lock d - 1\<rparr>) s2 else s2)"
    by (simp add: ioport_release_def s1_def s2_def Let_def)
  then show ?thesis using 2 by (simp add: map_inv_lock)
qed

lemma map_inv_remap:
  assumes "map_inv s" "maped (ioport_devices s m) = 0"
  shows "map_inv (set_dev m (\<lambda>d. d\<lparr>base := a2\<rparr>) (s\<lparr>BaseOfFlash := a1, vm := vm s @ [Ioremap a1, Ioremap a2]\<rparr>))"
  using assms unfolding map_inv_def handed_out_def by auto

lemma map_inv_mark:
  assumes "map_inv s" "maped (ioport_devices s m) = 0" "base (ioport_devices s m) \<noteq> 0" "handed_out s (BaseOfFlash s)"
  shows "map_inv (set_dev m (\<lambda>d. d\<lparr>len := n, maped := maped d + 1\<rparr>) s)"
proof -
  have "Ioremap (base (ioport_devices s m)) \<in> set (vm s)"
    using assms(1,3) unfolding map_inv_def handed_out_def by blast
  then show ?thesis using assms unfolding map_inv_def handed_out_def by simp
qed

lemma map_inv_ioctl:
  assumes inv: "map_inv s" and c: "ioport_ctl_ioctl k dev m c err rq s = Some (r, rq', t)"
  shows "map_inv t"
proof (cases c)
  case IOPORT_UNMAP
  show ?thesis
  proof (cases "maped (ioport_devices s m) = 0")
    case True
    then show ?thesis using c inv by (simp add: IOPORT_UNMAP ioport_ctl_ioctl_def)
  next
    case False
    note m = map_inv_maped [OF inv False]
    have "map_inv (iounmap (BaseOfFlash s) (iounmap (base (ioport_devices s m)) s))"
      using m by (simp add: map_inv_iounmap inv)
    from map_inv_unmapped [OF this, of m] show ?thesis
      using c m by (auto simp: IOPORT_UNMAP ioport_ctl_ioctl_def set_dev_maped)
  qed
next
  case IOPORT_MAP
  let ?a1 = "ioremap k (vm s) 0x01000000 4"
  let ?a2 = "ioremap k (vm s @ [Ioremap ?a1]) (map_base rq) (map_len rq)"
  let ?s2 = "set_dev m (\<lambda>d. d\<lparr>base := ?a2\<rparr>) (s\<lparr>BaseOfFlash := ?a1, vm := vm s @ [Ioremap ?a1, Ioremap ?a2]\<rparr>)"
  show ?thesis
  proof (cases "err \<noteq> 0 \<or> maped (ioport_devices s m) \<noteq> 0")
    case True
    then show ?thesis using c inv by (auto simp: IOPORT_MAP ioport_ctl_ioctl_def split: if_splits)
  next
    case False
    then have 2: "map_inv ?s2" using map_inv_remap [OF inv] by simp
    have marked: "map_inv (set_dev m (\<lambda>d. d\<lparr>len := map_len rq, maped := maped d + 1\<rparr>) ?s2)" if "?a2 \<noteq> 0"
      by (rule map_inv_mark [OF 2]) (use False that in \<open>simp_all add: handed_out_def\<close>)
    have t: "t = (if ?a2 = 0 then ?s2 else set_dev m (\<lambda>d. d\<lparr>len := map_len rq, maped := maped d + 1\<rparr>) ?s2)"
      using c False by (auto simp: IOPORT_MAP ioport_ctl_ioctl_def Let_def split: if_splits)
    show ?thesis unfolding t by (split if_split) (use 2 marked in blast)
  qed
qed (use c inv in \<open>auto simp: ioport_ctl_ioctl_def map_inv_table split: if_splits dest!: table_kept\<close>)

lemma map_inv_reach: "flash_reach k dev s \<Longrightarrow> map_inv s"
proof (induction rule: flash_reach.induct)
  case (open_op s m)
  then show ?case by (simp add: ioport_open_def map_inv_lock)
next
  case (write_op s m buf)
  then show ?case using map_inv_table [OF write_bytes_table] by (simp add: ioport_write_def)
next
  case (read_op s m n)
  then show ?case
    using map_inv_table [OF read_bytes_table [of s dev "base (ioport_devices s m)" n]]
    by (simp add: ioport_read_def split: prod.splits)
qed (auto intro: map_inv_init map_inv_release map_inv_ioctl)

text \<open>An erase error (status bits 7 and 5) is neither reported nor cleared.\<close>

lemma status_verdict_erase_error: "status_verdict 0xA0 = (0, False)"
  by (simp add: status_verdict_def)

section \<open>Properties\<close>

text \<open>
  C9: In every state the driver's entry points reach, whatever the chip and the kernel answer,
  each minor device is mapped at most once, a mapped device has a base that \<open>ioremap\<close> handed
  out, and every address given to \<open>iounmap\<close> was handed out before.
\<close>
theorem flash_mapping_sound:
  assumes "flash_reach k dev s"
  shows "maped (ioport_devices s m) \<le> 1 \<and>
    (maped (ioport_devices s m) = 1 \<longrightarrow> base (ioport_devices s m) \<noteq> 0 \<and>
       Ioremap (base (ioport_devices s m)) \<in> set (vm s) \<and> Ioremap (BaseOfFlash s) \<in> set (vm s)) \<and>
    (\<forall>a. Iounmap a \<in> set (vm s) \<longrightarrow> Ioremap a \<in> set (vm s))"
proof -
  have inv: "map_inv s" by (rule map_inv_reach [OF assms])
  then have "maped (ioport_devices s m) = 0 \<or> maped (ioport_devices s m) = 1" by (auto simp: map_inv_def)
  moreover have "\<forall>a. Iounmap a \<in> set (vm s) \<longrightarrow> Ioremap a \<in> set (vm s)"
    using inv by (simp add: map_inv_def handed_out_def)
  ultimately show ?thesis using map_inv_maped [OF inv, of m] by (auto simp: handed_out_def)
qed

theorem flash_mapping_sound_witness:
  "maped (ioport_devices (snd (ioport_open 3 (ioport_init flash_zero))) 3) \<le> 1"
  using flash_mapping_sound [OF flash_reach.open_op [OF flash_reach.init]] by blast

text \<open>
  The command window is one variable for all minors.  With two minors mapped, unmapping the
  first one unmaps the window the second still uses: it stays marked as mapped while
  \<open>BaseOfFlash\<close>, to which its writes go, is no longer mapped.
\<close>
theorem unmap_breaks_other_minor:
  assumes "maped (ioport_devices s m) = 1" "maped (ioport_devices s n) = 1" "m \<noteq> n"
  shows "\<exists>t. ioport_ctl_ioctl k dev m IOPORT_UNMAP err rq s = Some (0, rq, t) \<and>
    maped (ioport_devices t n) = 1 \<and> BaseOfFlash t = BaseOfFlash s \<and> vm t = vm s @ [Iounmap (base (ioport_devices s m)), Iounmap (BaseOfFlash t)]"
  using assms by (simp add: ioport_ctl_ioctl_def)

theorem unmap_breaks_other_minor_witness:
  "\<exists>t. ioport_ctl_ioctl plain_kernel (\<lambda>_ _. 0) 0 IOPORT_UNMAP 0
      \<lparr>map_base = 0, map_len = 0, offset = 0, buff = [], count = 0\<rparr>
      (set_dev 1 (\<lambda>d. d\<lparr>base := 0x01500000, maped := 1\<rparr>) (mapped_at 0x01530000)) =
      Some (0, \<lparr>map_base = 0, map_len = 0, offset = 0, buff = [], count = 0\<rparr>, t) \<and>
    maped (ioport_devices t 1) = 1 \<and> Iounmap (BaseOfFlash t) \<in> set (vm t)"
proof -
  have "maped (ioport_devices (set_dev 1 (\<lambda>d. d\<lparr>base := 0x01500000, maped := 1\<rparr>) (mapped_at 0x01530000)) 0) = 1"
    "maped (ioport_devices (set_dev 1 (\<lambda>d. d\<lparr>base := 0x01500000, maped := 1\<rparr>) (mapped_at 0x01530000)) 1) = 1"
    by simp_all
  from unmap_breaks_other_minor [OF this] show ?thesis by fastforce
qed

text \<open>
  A block that never reads as erased, whether the erase failed, the block is locked or the
  status stays in the way, hangs the writer: IOPORT_WRITE does not return.
\<close>
theorem failed_erase_hangs:
  assumes "maped (ioport_devices s m) \<noteq> 0" "count rq \<noteq> 0" "vmalloc k (count rq) \<noteq> None"
    and never: "\<And>h. (ucast (dev h (P16 (base (ioport_devices s m)))) :: u16w) \<noteq> 0xffff"
  shows "ioport_ctl_ioctl k dev m IOPORT_WRITE 0 rq s = None"
proof -
  let ?a = "base (ioport_devices s m)"
  have hang: "wait_erased dev ?a u = None" for u
  proof (rule ccontr)
    assume "wait_erased dev ?a u \<noteq> None"
    then obtain x where w: "while_option (\<lambda>(v, s). v \<noteq> 0xffff) (\<lambda>(v, s). rd16 dev ?a (snd (rd16 dev ?a s))) (rd16 dev ?a u) = Some x"
      by (auto simp: wait_erased_def)
    have "fst x \<noteq> 0xffff"
      by (rule while_option_rule [OF _ w, where P = "\<lambda>x. fst x \<noteq> 0xffff"]) (auto simp: never)
    with while_option_stop [OF w] show False by (simp split: prod.splits)
  qed
  have "ioport_write_b k dev m rq s = None"
    using assms(3) by (auto simp: ioport_write_b_def Let_def hang split: Option.bind_splits)
  then show ?thesis using assms(1,2) by (simp add: ioport_ctl_ioctl_def ioport_ctl_write_def)
qed

text \<open>A locked block: ready, with status bit 1.\<close>

theorem failed_erase_hangs_witness:
  "ioport_ctl_ioctl plain_kernel (\<lambda>h r. 0x82) 0 IOPORT_WRITE 0
     \<lparr>map_base = 0, map_len = 0, offset = 0, buff = [1, 2], count = 2\<rparr> (mapped_at 0x01530000) = None"
  by (rule failed_erase_hangs) (simp_all add: plain_kernel_def)

end
