(* ===== verification/Save_Recover.thy ===== *)
theory Save_Recover
  imports Flash_Map
begin

text \<open>
  The two programs that keep configuration files in flash (EXP27/app/save_recover): \<open>save\<close> packs
  two files into an image and writes it through the flash driver, \<open>recover\<close> reads the image back
  and unpacks it; \<open>iomap.c\<close> holds the calls into the driver both share.

  Memory beyond an allocated buffer is the error \<open>Overrun\<close>; \<open>exit\<close> is \<open>Exit\<close>.  The file system is
  the parameter \<open>fs\<close>; what \<open>malloc\<close> leaves in a buffer is the parameter \<open>junk\<close>.  A driver call
  that does not return makes the program \<open>None\<close>.
\<close>

section \<open>Calls into the driver (iomap.c)\<close>

definition FLASH_PHY_ADDR :: u32 where "FLASH_PHY_ADDR = 0x01530000"
definition FLASH_LENGTH :: u32 where "FLASH_LENGTH = 0x1000"

text \<open>The device node has minor 0; the request is always readable.\<close>

definition ioctl :: "kernel \<Rightarrow> port dev \<Rightarrow> ioport_cmd \<Rightarrow> ioport_ioctl_request \<Rightarrow> flash \<Rightarrow>
    (int \<times> ioport_ioctl_request \<times> flash) option" where
  "ioctl k dev c rq s = ioport_ctl_ioctl k dev 0 c 0 rq s"

record app =
  map_flag :: int
  drv :: flash

definition unmap :: "kernel \<Rightarrow> port dev \<Rightarrow> ioport_ioctl_request \<Rightarrow> app \<Rightarrow> (int \<times> app) option" where
  "unmap k dev rq p =
     (if map_flag p = 1 then do {
        (r, _, s) \<leftarrow> ioctl k dev IOPORT_UNMAP rq (drv p);
        Some (if r \<noteq> 0 then (1, p\<lparr>drv := s\<rparr>) else (0, p\<lparr>drv := s, map_flag := 0\<rparr>))
      } else Some (0, p))"

definition iomap :: "kernel \<Rightarrow> port dev \<Rightarrow> ioport_ioctl_request \<Rightarrow> app \<Rightarrow> (int \<times> app) option" where
  "iomap k dev rq p = do {
     (r, p1) \<leftarrow> (if map_flag p = 1 then do {
          (r, _, s) \<leftarrow> ioctl k dev IOPORT_UNMAP rq (drv p);
          Some (if r \<noteq> 0 then (1 :: int, p\<lparr>drv := s\<rparr>) else (0, p\<lparr>drv := s, map_flag := 0\<rparr>))
        } else Some (0, p));
     if r \<noteq> 0 then Some (1, p1)
     else do {
       (r, _, s) \<leftarrow> ioctl k dev IOPORT_MAP rq (drv p1);
       Some (if r \<noteq> 0 then (1, p1\<lparr>drv := s\<rparr>) else (0, p1\<lparr>drv := s, map_flag := 1\<rparr>))
     }
   }"

text \<open>\<open>null\<close> says that \<open>rq->buff\<close> is the null pointer.  The result of the read ioctl is dropped.\<close>

definition ioread :: "kernel \<Rightarrow> port dev \<Rightarrow> bool \<Rightarrow> ioport_ioctl_request \<Rightarrow> app \<Rightarrow>
    (int \<times> ioport_ioctl_request \<times> app) option" where
  "ioread k dev null rq p =
     (if map_flag p = 0 then Some (-1, rq, p)
      else if null then Some (-1, rq, p)
      else do {
        (_, rq', s) \<leftarrow> ioctl k dev IOPORT_READ rq (drv p);
        Some (0, rq', p\<lparr>drv := s\<rparr>)
      })"

definition iowrite :: "kernel \<Rightarrow> port dev \<Rightarrow> bool \<Rightarrow> ioport_ioctl_request \<Rightarrow> int \<Rightarrow> app \<Rightarrow> (int \<times> app) option" where
  "iowrite k dev null rq flag p =
     (if map_flag p = 0 then Some (-1, p)
      else if null then Some (-1, p)
      else do {
        (r, _, s) \<leftarrow> ioctl k dev (if flag = 0 then IOPORT_WRITE else IOPORT_WRITE_CON) rq (drv p);
        Some (if r < 0 then -1 else 0, p\<lparr>drv := s\<rparr>)
      })"

section \<open>Packing (save.c)\<close>

datatype prog_err = Overrun | Exit int

type_synonym filesys = "u8 list \<Rightarrow> u8 list option"

definition cstr :: "u8 list \<Rightarrow> u8 list" where
  "cstr b = takeWhile (\<lambda>c. c \<noteq> 0) b"

definition getfilelength :: "filesys \<Rightarrow> u8 list \<Rightarrow> u32" where
  "getfilelength fs fname = (case fs (cstr fname) of None \<Rightarrow> 0 | Some d \<Rightarrow> of_nat (length d))"

fun put_all :: "u8 list \<Rightarrow> nat \<Rightarrow> u8 list \<Rightarrow> prog_err + u8 list \<times> nat" where
  "put_all c i [] = Inr (c, i)"
| "put_all c i (b # bs) = (if i < length c then put_all (c[i := b]) (i + 1) bs else Inl Overrun)"

definition align4 :: "nat \<Rightarrow> nat" where
  "align4 i = (if i mod 4 \<noteq> 0 then i + (4 - i mod 4) else i)"

definition le32_bytes :: "u32 \<Rightarrow> u8 list" where
  "le32_bytes w = [ucast w, ucast (drop_bit 8 w), ucast (drop_bit 16 w), ucast (drop_bit 24 w)]"

definition sum_bind :: "'e + 'a \<Rightarrow> ('a \<Rightarrow> 'e + 'b) \<Rightarrow> 'e + 'b" where
  "sum_bind x f = (case x of Inl e \<Rightarrow> Inl e | Inr a \<Rightarrow> f a)"

lemma sum_bind_simps [simp]: "sum_bind (Inl e) f = Inl e" "sum_bind (Inr a) f = f a"
  by (simp_all add: sum_bind_def)

text \<open>One round of the packing loop: name, length, contents, and the step to a multiple of four.\<close>

definition save_file :: "filesys \<Rightarrow> u8 list \<Rightarrow> u8 list \<times> nat \<Rightarrow> prog_err + u8 list \<times> nat" where
  "save_file fs fname = (\<lambda>(c, i).
     sum_bind (put_all c i (take 32 fname)) (\<lambda>(c, i).
     sum_bind (put_all c i (le32_bytes (getfilelength fs fname))) (\<lambda>(c, i).
     case fs (cstr fname) of
       None \<Rightarrow> Inl (Exit 255)
     | Some d \<Rightarrow> sum_bind (put_all c i d) (\<lambda>(c, i). Inr (c, align4 i)))))"

fun save_files :: "filesys \<Rightarrow> u8 list list \<Rightarrow> u8 list \<times> nat \<Rightarrow> prog_err + u8 list \<times> nat" where
  "save_files fs [] x = Inr x"
| "save_files fs (n # ns) x = sum_bind (save_file fs n x) (save_files fs ns)"

definition write_to_flash ::
    "kernel \<Rightarrow> port dev \<Rightarrow> filesys \<Rightarrow> u8 list \<Rightarrow> u8 list list \<Rightarrow> ioport_ioctl_request \<Rightarrow> int \<Rightarrow> flash \<Rightarrow>
     (prog_err + nat \<times> flash) option" where
  "write_to_flash k dev fs junk names rq flag s = do {
     let p = \<lparr>map_flag = 0, drv = snd (ioport_open 0 s)\<rparr>;
     (r, p1) \<leftarrow> iomap k dev rq p;
     if r \<noteq> 0 then Some (Inl (Exit 1))
     else case save_files fs (take 2 names) (junk, 0) of
       Inl e \<Rightarrow> Some (Inl e)
     | Inr (c, i) \<Rightarrow> do {
         let rq1 = rq\<lparr>count := map_len rq, offset := 0, buff := c\<rparr>;
         (_, p2) \<leftarrow> iowrite k dev False rq1 flag p1;
         (_, p3) \<leftarrow> unmap k dev rq1 p2;
         Some (Inr (i, drv p3))
       }
   }"

definition zero_rq :: ioport_ioctl_request where
  "zero_rq = \<lparr>map_base = 0, map_len = 0, offset = 0, buff = [], count = 0\<rparr>"

definition flash_rq :: ioport_ioctl_request where
  "flash_rq = zero_rq\<lparr>map_base := FLASH_PHY_ADDR, map_len := FLASH_LENGTH\<rparr>"

definition save_main :: "kernel \<Rightarrow> port dev \<Rightarrow> filesys \<Rightarrow> u8 list \<Rightarrow> u8 list list \<Rightarrow> flash \<Rightarrow>
    (prog_err + nat \<times> flash) option" where
  "save_main k dev fs junk filename s = write_to_flash k dev fs junk filename flash_rq 0 s"

section \<open>Unpacking (recover.c)\<close>

definition le32 :: "u8 list \<Rightarrow> nat \<Rightarrow> u32" where
  "le32 p a = ucast (p ! a) OR push_bit 8 (ucast (p ! (a + 1))) OR push_bit 16 (ucast (p ! (a + 2))) OR
     push_bit 24 (ucast (p ! (a + 3)))"

text \<open>
  The loop of \<open>write_from_flash\<close> from round \<open>r\<close> on; \<open>fopen_ok r\<close> says whether /tmp/hehe\<open>r\<close> opens.
  The result is the return value and the files written.
\<close>

fun recover_files :: "(nat \<Rightarrow> bool) \<Rightarrow> u8 list \<Rightarrow> nat \<Rightarrow> nat \<Rightarrow> nat \<Rightarrow> prog_err + int \<times> u8 list list" where
  "recover_files fopen_ok p 0 r addr = Inr (0, [])"
| "recover_files fopen_ok p (Suc n) r addr =
     (if addr + 2 > length p then Inl Overrun
      else if p ! addr = 0xff \<and> p ! (addr + 1) = 0xff then Inr (0, [])
      else
        let a = align4 addr + 32 in
        if a + 4 > length p then Inl Overrun
        else
          let len = unat (le32 p a); a = a + 4 in
          if \<not> fopen_ok r then Inr (1, [])
          else if a + len > length p then Inl Overrun
          else sum_bind (recover_files fopen_ok p n (r + 1) (a + len))
                 (\<lambda>(v, fs). Inr (v, take len (drop a p) # fs)))"

definition write_from_flash :: "(nat \<Rightarrow> bool) \<Rightarrow> u8 list \<Rightarrow> prog_err + int \<times> u8 list list" where
  "write_from_flash fopen_ok p = recover_files fopen_ok p 2 0 0"

definition recover_main :: "kernel \<Rightarrow> port dev \<Rightarrow> (nat \<Rightarrow> bool) \<Rightarrow> u8 list \<Rightarrow> flash \<Rightarrow>
    (prog_err + u8 list list \<times> flash) option" where
  "recover_main k dev fopen_ok junk s = do {
     let p = \<lparr>map_flag = 0, drv = snd (ioport_open 0 s)\<rparr>;
     (r, p1) \<leftarrow> iomap k dev flash_rq p;
     if r \<noteq> 0 then Some (Inl (Exit 1))
     else do {
       (r, rq, p2) \<leftarrow> ioread k dev False (flash_rq\<lparr>count := FLASH_LENGTH, offset := 0, buff := junk\<rparr>) p1;
       if r < 0 then Some (Inl (Exit 1))
       else case write_from_flash fopen_ok (buff rq) of
         Inl e \<Rightarrow> Some (Inl e)
       | Inr (_, files) \<Rightarrow> do {
           (_, p3) \<leftarrow> unmap k dev rq p2;
           Some (Inr (files, drv p3))
         }
     }
   }"

section \<open>The image\<close>

lemma put_all_fits:
  "i + length bs \<le> length c \<Longrightarrow>
     put_all c i bs = Inr (take i c @ bs @ drop (i + length bs) c, i + length bs)"
proof (induction bs arbitrary: c i)
  case (Cons b bs)
  then have "put_all c i (b # bs) = Inr (take (i + 1) (c[i := b]) @ bs @ drop (i + 1 + length bs) (c[i := b]), i + 1 + length bs)"
    by simp
  moreover have "take (i + 1) (c[i := b]) = take i c @ [b]"
    using Cons.prems by (simp add: take_Suc_conv_app_nth)
  ultimately show ?case using Cons.prems by simp
qed simp

lemma put_all_overrun: "i \<le> length c \<Longrightarrow> i + length bs > length c \<Longrightarrow> put_all c i bs = Inl Overrun"
  by (induction bs arbitrary: c i) auto

lemma le32_bytes_length [simp]: "length (le32_bytes w) = 4"
  by (simp add: le32_bytes_def)

lemma le32_roundtrip: "le32 (xs @ le32_bytes w @ ys) (length xs) = w"
proof (rule bit_word_eqI)
  fix n assume n: "n < LENGTH(32)"
  consider "n < 8" | m where "n = m + 8" "m < 8" | m where "n = m + 16" "m < 8" | m where "n = m + 24" "m < 8"
  proof -
    have "n < 8 \<or> n = n - 8 + 8 \<and> n - 8 < 8 \<or> n = n - 16 + 16 \<and> n - 16 < 8 \<or> n = n - 24 + 24 \<and> n - 24 < 8"
      using n by auto
    then show ?thesis using that by blast
  qed
  then show "bit (le32 (xs @ le32_bytes w @ ys) (length xs)) n = bit w n"
    by cases (auto simp: le32_def le32_bytes_def nth_append bit_simps add.commute dest: bit_imp_le_length)
qed

text \<open>The record of one file in the image.\<close>

definition entry :: "u8 list \<Rightarrow> u8 list \<Rightarrow> u8 list" where
  "entry name d = take 32 name @ le32_bytes (of_nat (length d)) @ d"

lemma entry_length [simp]: "length name = 32 \<Longrightarrow> length (entry name d) = 36 + length d"
  by (simp add: entry_def)

lemma align4_bounds: "i \<le> align4 i" "align4 i < i + 4" "align4 i mod 4 = 0"
proof -
  have "(i + (4 - i mod 4)) mod 4 = 0" if "i mod 4 \<noteq> 0"
    using that by (metis add.commute add_diff_inverse_nat mod_add_left_eq mod_less_divisor
        mod_self nat_less_le not_less zero_less_numeral)
  then show "i \<le> align4 i" "align4 i < i + 4" "align4 i mod 4 = 0"
    by (auto simp: align4_def)
qed

lemma save_file_fits:
  assumes "fs (cstr name) = Some d" "length name = 32" "i + 36 + length d \<le> length c"
  shows "save_file fs name (c, i) =
    Inr (take i c @ entry name d @ drop (i + 36 + length d) c, align4 (i + 36 + length d))"
proof -
  let ?c1 = "take i c @ name @ drop (i + 32) c"
  let ?l = "le32_bytes (getfilelength fs name)"
  let ?c2 = "take (i + 32) ?c1 @ ?l @ drop (i + 32 + 4) ?c1"
  have 1: "put_all c i (take 32 name) = Inr (?c1, i + 32)"
    using assms by (simp add: put_all_fits)
  have 2: "put_all ?c1 (i + 32) ?l = Inr (?c2, i + 36)"
    using assms by (subst put_all_fits) auto
  have c2: "?c2 = take i c @ name @ ?l @ drop (i + 36) c"
    using assms by (simp add: add.commute)
  have 3: "put_all ?c2 (i + 36) d = Inr (take (i + 36) ?c2 @ d @ drop (i + 36 + length d) ?c2, i + 36 + length d)"
    unfolding c2 using assms by (subst put_all_fits) auto
  have "take (i + 36) ?c2 @ d @ drop (i + 36 + length d) ?c2 = take i c @ entry name d @ drop (i + 36 + length d) c"
    unfolding c2 using assms by (simp add: entry_def getfilelength_def add.commute add.left_commute)
  then show ?thesis
    unfolding save_file_def split_conv 1 2 3 sum_bind_simps assms(1) option.case by simp
qed

lemma save_file_overrun:
  assumes "fs (cstr name) = Some d" "length name = 32" "i \<le> length c" "length c < i + 36 + length d"
  shows "save_file fs name (c, i) = Inl Overrun"
proof -
  consider "length c < i + 32" | "i + 32 \<le> length c" "length c < i + 36" | "i + 36 \<le> length c" by linarith
  then show ?thesis
  proof cases
    case 1
    then show ?thesis using assms by (simp add: save_file_def put_all_overrun)
  next
    case 2
    then show ?thesis using assms by (simp add: save_file_def put_all_fits put_all_overrun)
  next
    case 3
    then show ?thesis using assms by (simp add: save_file_def put_all_fits put_all_overrun)
  qed
qed

lemma recover_entry:
  assumes "length name = 32" "length pad = align4 (length xs) - length xs" "length d < 2 ^ 32" "fopen_ok r"
    and p: "p = xs @ pad @ entry name d @ ys"
    and nff: "\<not> (p ! length xs = 0xff \<and> p ! (length xs + 1) = 0xff)"
  shows "recover_files fopen_ok p (Suc n) r (length xs) =
    sum_bind (recover_files fopen_ok p n (r + 1) (length xs + length pad + 36 + length d))
      (\<lambda>(v, fs). Inr (v, d # fs))"
proof -
  let ?a = "align4 (length xs) + 32"
  have a: "align4 (length xs) = length xs + length pad" using assms(2) align4_bounds(1) [of "length xs"] by simp
  have p1: "p = (xs @ pad @ name) @ le32_bytes (of_nat (length d)) @ d @ ys"
    using assms(1) by (simp add: p entry_def)
  have "le32 p ?a = of_nat (length d)"
    using le32_roundtrip [of "xs @ pad @ name" "of_nat (length d)" "d @ ys"] assms(1) unfolding p1 a by (simp add: add.assoc)
  moreover have "unat (of_nat (length d) :: u32) = length d"
    using assms(3) by (simp add: unat_of_nat take_bit_nat_eq_self)
  moreover have "take (length d) (drop (?a + 4) p) = d"
    using assms(1) unfolding p1 a by simp
  moreover have "length p = ?a + 4 + length d + length ys"
    using assms(1) unfolding p1 a by simp
  ultimately show ?thesis using assms(4) nff by (auto simp: Let_def a ac_simps)
qed

text \<open>Where the second record starts and where the image ends.\<close>

definition second_at :: "u8 list \<Rightarrow> nat" where
  "second_at d0 = align4 (36 + length d0)"

definition image_end :: "u8 list \<Rightarrow> u8 list \<Rightarrow> nat" where
  "image_end d0 d1 = second_at d0 + 36 + length d1"

definition flash_image :: "u8 list \<Rightarrow> u8 list \<Rightarrow> u8 list \<Rightarrow> u8 list \<Rightarrow> u8 list \<Rightarrow> u8 list" where
  "flash_image junk name0 d0 name1 d1 =
     entry name0 d0 @ take (second_at d0 - (36 + length d0)) (drop (36 + length d0) junk) @
     entry name1 d1 @ drop (image_end d0 d1) junk"

lemma second_at_bounds: "36 + length d0 \<le> second_at d0" "second_at d0 < 40 + length d0"
  using align4_bounds [of "36 + length d0"] by (simp_all add: second_at_def)

lemma flash_image_length [simp]:
  "length name0 = 32 \<Longrightarrow> length name1 = 32 \<Longrightarrow> image_end d0 d1 \<le> length junk \<Longrightarrow>
     length (flash_image junk name0 d0 name1 d1) = length junk"
  using second_at_bounds [of d0] by (simp add: flash_image_def image_end_def)

lemma save_files_fit:
  assumes "fs (cstr name0) = Some d0" "fs (cstr name1) = Some d1" "length name0 = 32" "length name1 = 32"
    and fits: "image_end d0 d1 \<le> length junk"
  shows "save_files fs [name0, name1] (junk, 0) =
    Inr (flash_image junk name0 d0 name1 d1, align4 (image_end d0 d1))"
proof -
  note b = second_at_bounds [of d0]
  let ?n = "36 + length d0" and ?i = "second_at d0"
  let ?c = "entry name0 d0 @ drop ?n junk"
  have n: "?n \<le> length junk" "?i \<le> length junk" using fits b by (simp_all add: image_end_def)
  have 1: "save_file fs name0 (junk, 0) = Inr (?c, ?i)"
    using assms(1,3) n by (subst save_file_fits [of fs name0 d0]) (simp_all add: second_at_def)
  have "length ?c = length junk" using assms(3) n by simp
  then have 2: "save_file fs name1 (?c, ?i) =
      Inr (take ?i ?c @ entry name1 d1 @ drop (image_end d0 d1) ?c, align4 (image_end d0 d1))"
    using assms(2,4) fits by (subst save_file_fits [of fs name1 d1]) (simp_all add: image_end_def)
  have "take ?i ?c @ entry name1 d1 @ drop (image_end d0 d1) ?c = flash_image junk name0 d0 name1 d1"
    using assms(3) b by (simp add: flash_image_def image_end_def add.commute)
  then show ?thesis by (simp only: save_files.simps 1 2 sum_bind_simps)
qed

text \<open>Recovery looks for the erased pattern before it aligns, so the padding matters.\<close>

lemma recover_image:
  assumes l: "length name0 = 32" "length name1 = 32" and fits: "image_end d0 d1 \<le> length junk"
    and big: "length junk < 2 ^ 32" and ok: "fopen_ok 0" "fopen_ok 1"
    and n0: "\<not> (name0 ! 0 = 0xff \<and> name0 ! 1 = 0xff)"
    and n1: "\<not> (flash_image junk name0 d0 name1 d1 ! (36 + length d0) = 0xff \<and>
                flash_image junk name0 d0 name1 d1 ! (37 + length d0) = 0xff)"
  shows "write_from_flash fopen_ok (flash_image junk name0 d0 name1 d1) = Inr (0, [d0, d1])"
proof -
  let ?p = "flash_image junk name0 d0 name1 d1"
  let ?pad = "take (second_at d0 - (36 + length d0)) (drop (36 + length d0) junk)"
  note b = second_at_bounds [of d0]
  have small: "length d0 < 2 ^ 32" "length d1 < 2 ^ 32"
    using fits big b by (simp_all add: image_end_def)
  have pad: "length ?pad = second_at d0 - (36 + length d0)" using fits b by (simp add: image_end_def)
  have head: "?p ! 0 = name0 ! 0" "?p ! 1 = name0 ! 1"
    using l by (simp_all add: flash_image_def entry_def nth_append)
  have 1: "recover_files fopen_ok ?p 2 0 0 =
      sum_bind (recover_files fopen_ok ?p 1 1 (36 + length d0)) (\<lambda>(v, fs). Inr (v, d0 # fs))"
    using recover_entry [of name0 "[]" "[]" d0 fopen_ok 0 ?p "?pad @ entry name1 d1 @ drop (image_end d0 d1) junk" 1]
      l small ok n0 head by (simp add: align4_def flash_image_def numeral_2_eq_2)
  have 2: "recover_files fopen_ok ?p 1 1 (36 + length d0) =
      sum_bind (recover_files fopen_ok ?p 0 2 (second_at d0 + 36 + length d1)) (\<lambda>(v, fs). Inr (v, d1 # fs))"
    using recover_entry [of name1 ?pad "entry name0 d0" d1 fopen_ok 1 ?p "drop (image_end d0 d1) junk" 0]
      l small ok n1 pad b by (simp add: flash_image_def second_at_def numeral_2_eq_2)
  show ?thesis unfolding write_from_flash_def 1 2 by simp
qed

section \<open>Through the driver\<close>

text \<open>What the programs need of the kernel: memory for every request, and a fixed mapping of the flash.\<close>

definition kernel_ok :: "kernel \<Rightarrow> u32 \<Rightarrow> bool" where
  "kernel_ok k v \<longleftrightarrow> v \<noteq> 0 \<and> (\<forall>h. ioremap k h FLASH_PHY_ADDR FLASH_LENGTH = v) \<and>
     (\<forall>n. \<exists>b. vmalloc k n = Some b \<and> length b = unat n)"

lemma iomap_fresh:
  assumes "kernel_ok k v" "maped (ioport_devices s 0) = 0"
  shows "\<exists>t. iomap k dev flash_rq \<lparr>map_flag = 0, drv = snd (ioport_open 0 s)\<rparr> =
      Some (0, \<lparr>map_flag = 1, drv = t\<rparr>) \<and>
    bus t = bus s \<and> base (ioport_devices t 0) = v \<and> maped (ioport_devices t 0) = 1"
  using assms
  by (simp add: iomap_def ioctl_def ioport_ctl_ioctl_def ioport_open_def flash_rq_def kernel_ok_def Let_def)

lemma unmap_mapped:
  assumes "maped (ioport_devices s 0) = 1"
  shows "\<exists>t. unmap k dev rq \<lparr>map_flag = 1, drv = s\<rparr> = Some (0, \<lparr>map_flag = 0, drv = t\<rparr>) \<and>
    bus t = bus s \<and> maped (ioport_devices t 0) = 0"
  using assms by (simp add: unmap_def ioctl_def ioport_ctl_ioctl_def iounmap_def)

definition flash_block :: "(u32 \<Rightarrow> u32 \<Rightarrow> bool) \<Rightarrow> u32 \<Rightarrow> bool" where
  "flash_block blk v \<longleftrightarrow> blk v v \<and> (\<forall>i < 0x800. blk v (v + of_nat (2 * i)))"

lemma flash_length_unat [simp]: "unat FLASH_LENGTH = 0x1000"
  by (simp add: FLASH_LENGTH_def)

lemma save_main_stores:
  assumes w: "j3_works blk m0 dev" and i: "idle (j3_view blk m0 (bus s))" and k: "kernel_ok k v"
    and m: "maped (ioport_devices s 0) = 0" and b: "flash_block blk v"
    and f: "save_files fs [name0, name1] (junk, 0) = Inr (c, n)" "length c = 0x1000"
  shows "\<exists>t. save_main k dev fs junk [name0, name1] s = Some (Inr (n, t)) \<and>
    mode (j3_view blk m0 (bus t)) = Array \<and> maped (ioport_devices t 0) = 0 \<and>
    (\<forall>i < 0x800. mem (j3_view blk m0 (bus t)) (v + of_nat (2 * i)) = halfword c i)"
proof -
  obtain t1 where t1: "iomap k dev flash_rq \<lparr>map_flag = 0, drv = snd (ioport_open 0 s)\<rparr> =
      Some (0, \<lparr>map_flag = 1, drv = t1\<rparr>)" "bus t1 = bus s" "base (ioport_devices t1 0) = v"
      "maped (ioport_devices t1 0) = 1"
    using iomap_fresh [OF k m] by blast
  define rq where "rq = flash_rq\<lparr>count := map_len flash_rq, offset := 0, buff := c\<rparr>"
  have rq: "count rq = FLASH_LENGTH" "buff rq = c" by (simp_all add: rq_def flash_rq_def)
  have idle1: "idle (j3_view blk m0 (bus t1))" using i t1(2) by simp
  have vm: "vmalloc k (count rq) \<noteq> None" using k unfolding kernel_ok_def rq by (metis option.distinct(1))
  have blk: "blk v v" "\<And>i. i < unat (count rq) div 2 \<Longrightarrow> blk v (v + of_nat (2 * i))"
    using b unfolding flash_block_def rq by simp_all
  obtain t2 where t2: "ioport_write_b k dev 0 rq t1 = Some (0, t2)" "only_bus t1 t2"
      "mode (j3_view blk m0 (bus t2)) = Array"
      "\<forall>i < unat (count rq) div 2. mem (j3_view blk m0 (bus t2)) (v + of_nat (2 * i)) = halfword (buff rq) i"
    using write_b_effect [OF w idle1 t1(3) [symmetric] vm _ blk] f(2) unfolding rq by fastforce
  have wr: "iowrite k dev False rq 0 \<lparr>map_flag = 1, drv = t1\<rparr> = Some (0, \<lparr>map_flag = 1, drv = t2\<rparr>)"
    using t1(4) rq(1)
    by (simp add: iowrite_def ioctl_def ioport_ctl_ioctl_def ioport_ctl_write_def t2(1) FLASH_LENGTH_def)
  have "maped (ioport_devices t2 0) = 1" using t1(4) t2(2) by (simp add: only_bus_def)
  then obtain t3 where t3: "unmap k dev rq \<lparr>map_flag = 1, drv = t2\<rparr> = Some (0, \<lparr>map_flag = 0, drv = t3\<rparr>)"
      "bus t3 = bus t2" "maped (ioport_devices t3 0) = 0"
    using unmap_mapped by blast
  have "save_main k dev fs junk [name0, name1] s = Some (Inr (n, t3))"
    using f(1) by (simp add: save_main_def write_to_flash_def Let_def t1(1) wr t3(1) flip: rq_def)
  with t2(3,4) t3 show ?thesis unfolding rq by (intro exI [of _ t3]) simp
qed

lemma recover_main_reads:
  assumes w: "j3_works blk m0 dev" and a: "mode (j3_view blk m0 (bus s)) = Array" and k: "kernel_ok k v"
    and m: "maped (ioport_devices s 0) = 0"
    and c: "length c = 0x1000" "\<forall>i < 0x800. mem (j3_view blk m0 (bus s)) (v + of_nat (2 * i)) = halfword c i"
    and junk: "length junk = 0x1000"
    and f: "write_from_flash fopen_ok c = Inr (r, files)"
  shows "\<exists>t. recover_main k dev fopen_ok junk s = Some (Inr (files, t))"
proof -
  obtain t1 where t1: "iomap k dev flash_rq \<lparr>map_flag = 0, drv = snd (ioport_open 0 s)\<rparr> =
      Some (0, \<lparr>map_flag = 1, drv = t1\<rparr>)" "bus t1 = bus s" "base (ioport_devices t1 0) = v"
      "maped (ioport_devices t1 0) = 1"
    using iomap_fresh [OF k m] by blast
  let ?rq = "flash_rq\<lparr>count := FLASH_LENGTH, offset := 0, buff := junk\<rparr>"
  have rq: "count ?rq = FLASH_LENGTH" "buff ?rq = junk" "offset ?rq = 0" by simp_all
  obtain b where vm: "vmalloc k (count ?rq) = Some b" "length b = unat (count ?rq)"
    using k unfolding kernel_ok_def by blast
  have a1: "mode (j3_view blk m0 (bus t1)) = Array" using a t1(2) by simp
  have nz: "maped (ioport_devices t1 0) \<noteq> 0" "count ?rq \<noteq> 0" "even (unat (count ?rq))"
    using t1(4) by (simp_all add: FLASH_LENGTH_def)
  have "map (\<lambda>i. mem (j3_view blk m0 (bus t1)) (v + offset ?rq + of_nat (2 * i))) [0..<unat (count ?rq) div 2] =
      map (halfword c) [0..<0x800]"
    using c(2) t1(2) by (simp del: upt_conv_Cons of_nat_mult)
  note eq = this
  have data: "concat (map half_bytes (map (\<lambda>i. mem (j3_view blk m0 (bus t1)) (v + offset ?rq + of_nat (2 * i)))
      [0..<unat (count ?rq) div 2])) @ drop (unat (count ?rq)) (buff ?rq) = c"
    unfolding eq using half_bytes_all [of "0x800" c] c(1) junk by simp
  obtain t2 where t2: "ioport_ctl_ioctl k dev 0 IOPORT_READ 0 ?rq t1 = Some (0, ?rq\<lparr>buff := c\<rparr>, t2)" "only_bus t1 t2"
    using read_ioctl_effect [OF w a1 nz(1) t1(3) [symmetric] nz(2,3) vm] unfolding data by blast
  have rd: "ioread k dev False ?rq \<lparr>map_flag = 1, drv = t1\<rparr> = Some (0, ?rq\<lparr>buff := c\<rparr>, \<lparr>map_flag = 1, drv = t2\<rparr>)"
    by (simp only: ioread_def ioctl_def t2(1) app.simps) simp
  have "maped (ioport_devices t2 0) = 1" using t1(4) t2(2) by (simp add: only_bus_def)
  then obtain t3 where t3: "unmap k dev (?rq\<lparr>buff := c\<rparr>) \<lparr>map_flag = 1, drv = t2\<rparr> = Some (0, \<lparr>map_flag = 0, drv = t3\<rparr>)"
    using unmap_mapped by blast
  have "recover_main k dev fopen_ok junk s = Some (Inr (files, t3))"
    unfolding recover_main_def Let_def t1(1) bind.bind_lunit using rd t3 f by simp
  then show ?thesis by blast
qed

section \<open>Properties\<close>

text \<open>
  C2: What \<open>save\<close> stores, \<open>recover\<close> finds.  With a chip that works, a kernel that maps the flash and
  two files whose image fits the 4096 bytes of the buffer, \<open>save\<close> returns, and \<open>recover\<close>, run
  afterwards on the chip as \<open>save\<close> left it, writes out the contents of both files.  The condition
  on the padding between the two records is what the code needs: see the next property.
\<close>
theorem save_recover_roundtrip:
  assumes w: "j3_works blk m0 dev" and i: "idle (j3_view blk m0 (bus s))" and k: "kernel_ok k v"
    and m: "maped (ioport_devices s 0) = 0" and b: "flash_block blk v"
    and f: "fs (cstr name0) = Some d0" "fs (cstr name1) = Some d1" "length name0 = 32" "length name1 = 32"
    and junk: "length junk = 0x1000" "length junk' = 0x1000" and fits: "image_end d0 d1 \<le> 0x1000"
    and ok: "fopen_ok 0" "fopen_ok 1" and n0: "\<not> (name0 ! 0 = 0xff \<and> name0 ! 1 = 0xff)"
    and n1: "\<not> (flash_image junk name0 d0 name1 d1 ! (36 + length d0) = 0xff \<and>
                flash_image junk name0 d0 name1 d1 ! (37 + length d0) = 0xff)"
  shows "\<exists>n t u. save_main k dev fs junk [name0, name1] s = Some (Inr (n, t)) \<and>
    recover_main k dev fopen_ok junk' t = Some (Inr ([d0, d1], u))"
proof -
  let ?c = "flash_image junk name0 d0 name1 d1"
  have fit: "image_end d0 d1 \<le> length junk" using fits junk(1) by simp
  have c: "length ?c = 0x1000" using f(3,4) fit junk(1) by simp
  obtain n t where t: "save_main k dev fs junk [name0, name1] s = Some (Inr (n, t))"
      "mode (j3_view blk m0 (bus t)) = Array" "maped (ioport_devices t 0) = 0"
      "\<forall>i < 0x800. mem (j3_view blk m0 (bus t)) (v + of_nat (2 * i)) = halfword ?c i"
    using save_main_stores [OF w i k m b save_files_fit [OF f fit] c] by blast
  have "write_from_flash fopen_ok ?c = Inr (0, [d0, d1])"
    using recover_image [of name0 name1 d0 d1 junk fopen_ok] f(3,4) fit junk(1) ok n0 n1 by simp
  from recover_main_reads [OF w t(2) k t(3) c t(4) junk(2) this] t(1) show ?thesis by blast
qed

text \<open>
  Recovery looks for the erased pattern 0xFFFF before it aligns its position.  When the first
  file ends one or two bytes after a multiple of four and the packing buffer, which \<open>malloc\<close> does
  not clear, happened to hold 0xFF there, recovery stops with the first file and reports success:
  the second file is lost although it is in the image.
\<close>
theorem padding_loses_second_file:
  assumes "length name0 = 32" "length name1 = 32" "image_end d0 d1 \<le> length junk" "length junk < 2 ^ 32"
    and "fopen_ok 0" "\<not> (name0 ! 0 = 0xff \<and> name0 ! 1 = 0xff)"
    and r: "length d0 mod 4 = 1 \<or> length d0 mod 4 = 2"
    and ff: "junk ! (36 + length d0) = 0xff" "junk ! (37 + length d0) = 0xff"
  shows "write_from_flash fopen_ok (flash_image junk name0 d0 name1 d1) = Inr (0, [d0])"
proof -
  let ?p = "flash_image junk name0 d0 name1 d1"
  let ?pad = "take (second_at d0 - (36 + length d0)) (drop (36 + length d0) junk)"
  note b = second_at_bounds [of d0]
  have small: "length d0 < 2 ^ 32" using assms(3,4) b by (simp add: image_end_def)
  have two: "38 + length d0 \<le> second_at d0"
  proof -
    have "(36 + length d0) mod 4 = length d0 mod 4" by (simp add: mod_add_left_eq [symmetric])
    then show ?thesis using r by (auto simp: second_at_def align4_def)
  qed
  then have gap: "Suc 0 < second_at d0 - (36 + length d0)" by linarith
  have pos: "?p ! (36 + length d0) = 0xff" "?p ! (37 + length d0) = 0xff"
    using assms(1,3) two gap ff by (simp_all add: flash_image_def nth_append image_end_def)
  have head: "?p ! 0 = name0 ! 0" "?p ! 1 = name0 ! 1"
    using assms(1) by (simp_all add: flash_image_def entry_def nth_append)
  have "recover_files fopen_ok ?p 2 0 0 =
      sum_bind (recover_files fopen_ok ?p 1 1 (36 + length d0)) (\<lambda>(v, fs). Inr (v, d0 # fs))"
    using recover_entry [of name0 "[]" "[]" d0 fopen_ok 0 ?p "?pad @ entry name1 d1 @ drop (image_end d0 d1) junk" 1]
      assms(1,5,6) small head by (simp add: align4_def flash_image_def numeral_2_eq_2)
  moreover have "recover_files fopen_ok ?p 1 1 (36 + length d0) = Inr (0, [])"
    using pos assms(1-3) two by (simp add: image_end_def)
  ultimately show ?thesis by (simp add: write_from_flash_def)
qed

text \<open>
  C37: The packing loop stays inside its buffer exactly when the two records and the padding between
  them fit; a longer pair of files makes it write beyond the allocation.
\<close>
theorem save_overruns_iff:
  assumes "fs (cstr name0) = Some d0" "fs (cstr name1) = Some d1" "length name0 = 32" "length name1 = 32"
  shows "save_files fs [name0, name1] (junk, 0) =
    (if image_end d0 d1 \<le> length junk
     then Inr (flash_image junk name0 d0 name1 d1, align4 (image_end d0 d1)) else Inl Overrun)"
proof (cases "image_end d0 d1 \<le> length junk")
  case True
  then show ?thesis using save_files_fit [OF assms] by simp
next
  case over: False
  show ?thesis
  proof (cases "36 + length d0 \<le> length junk")
    case False
    then show ?thesis using over save_file_overrun [of fs name0 d0 0 junk] assms by simp
  next
    case first: True
    let ?c = "entry name0 d0 @ drop (36 + length d0) junk"
    have 1: "save_file fs name0 (junk, 0) = Inr (?c, second_at d0)"
      using assms(1,3) first by (subst save_file_fits [of fs name0 d0]) (simp_all add: second_at_def)
    have "save_file fs name1 (?c, second_at d0) = Inl Overrun"
    proof (cases "second_at d0 \<le> length ?c")
      case True
      with over first assms show ?thesis
        by (intro save_file_overrun [of fs name1 d1]) (auto simp: image_end_def not_le)
    next
      case False
      then show ?thesis using assms(4) by (cases name1) (simp_all add: save_file_def)
    qed
    then show ?thesis using over by (simp only: save_files.simps 1 sum_bind_simps if_False)
  qed
qed

section \<open>Witnesses\<close>

definition passwd_name :: "u8 list" where
  "passwd_name = [0x2f, 0x65] @ replicate 30 0"

definition inetd_name :: "u8 list" where
  "inetd_name = [0x2f, 0x66] @ replicate 30 0"

definition two_files :: filesys where
  "two_files = [[0x2f, 0x65] \<mapsto> [1, 2, 3], [0x2f, 0x66] \<mapsto> [4]]"

lemma witness_names [simp]:
  "length passwd_name = 32" "length inetd_name = 32" "passwd_name ! 0 = 0x2f"
  "cstr passwd_name = [0x2f, 0x65]" "cstr inetd_name = [0x2f, 0x66]"
  "two_files [0x2f, 0x65] = Some [1, 2, 3]" "two_files [0x2f, 0x66] = Some [4]"
  by (simp_all add: passwd_name_def inetd_name_def cstr_def two_files_def)

lemma witness_kernel: "kernel_ok plain_kernel 0x01530000"
  by (simp add: kernel_ok_def plain_kernel_def FLASH_PHY_ADDR_def)

lemma witness_block: "flash_block (\<lambda>_ _. True) v"
  by (simp add: flash_block_def)

theorem save_recover_roundtrip_witness:
  "\<exists>n t u. save_main plain_kernel (j3_chip (\<lambda>_ _. True) (\<lambda>_. 0)) two_files (replicate 0x1000 0)
      [passwd_name, inetd_name] flash_zero = Some (Inr (n, t)) \<and>
    recover_main plain_kernel (j3_chip (\<lambda>_ _. True) (\<lambda>_. 0)) (\<lambda>_. True) (replicate 0x1000 0) t =
      Some (Inr ([[1, 2, 3], [4]], u))"
proof -
  have idle: "idle (j3_view (\<lambda>_ _. True) (\<lambda>_. 0) (bus flash_zero))"
    by (simp add: flash_zero_def idle_def)
  have unmapped: "maped (ioport_devices flash_zero 0) = 0" by (simp add: flash_zero_def)
  have fits: "image_end [1, 2, 3] [4] \<le> 0x1000" by (simp add: image_end_def second_at_def align4_def)
  have pad: "flash_image (replicate 0x1000 0) passwd_name [1, 2, 3] inetd_name [4] ! (36 + length [1, 2, 3]) = 0"
    by (simp add: flash_image_def nth_append second_at_def align4_def)
  show ?thesis
    by (rule save_recover_roundtrip [OF j3_chip_works idle witness_kernel unmapped witness_block, where ?d0.0 = "[1, 2, 3]" and ?d1.0 = "[4]"])
      (use fits pad in \<open>simp_all del: length_replicate add: length_replicate\<close>)
qed

theorem padding_loses_second_file_witness:
  "write_from_flash (\<lambda>_. True) (flash_image (replicate 100 0xff) passwd_name [7] inetd_name [4, 5]) = Inr (0, [[7]])"
  by (rule padding_loses_second_file) (simp_all add: image_end_def second_at_def align4_def)

theorem save_overruns_iff_witness:
  "save_files two_files [passwd_name, inetd_name] (replicate 60 0, 0) = Inl Overrun"
  using save_overruns_iff [of two_files passwd_name "[1, 2, 3]" inetd_name "[4]" "replicate 60 0"]
  by (simp add: image_end_def second_at_def align4_def del: save_files.simps)

end
