(* ===== verification/Cgi_Text.thy ===== *)
theory Cgi_Text
  imports Lab_Prelude
begin

text \<open>
  The string functions of the configuration CGI (EXP2/app/cgi/myhdr.c): splitting a query string,
  decoding its escapes, and the checks of addresses and masks.

  A C string is the list of its characters before the terminating null.  Reading beyond the null or
  writing beyond an array is \<open>None\<close>.
\<close>

definition code :: "char \<Rightarrow> int" where
  "code c = int (of_char c)"

definition chr :: "int \<Rightarrow> char" where
  "chr n = char_of (nat (n mod 256))"

definition cnul :: char where
  "cnul = chr 0"

lemma code_bounds: "0 \<le> code c" "code c < 256"
  by (simp_all add: code_def)

lemma chr_code [simp]: "chr (code c) = c"
  using code_bounds [of c] by (simp add: chr_def code_def)

lemma code_chr: "0 \<le> n \<Longrightarrow> n < 256 \<Longrightarrow> code (chr n) = n"
  by (simp add: chr_def code_def)

lemma cnul_iff: "c = cnul \<longleftrightarrow> code c = 0"
proof
  assume "code c = 0"
  then have "chr (code c) = chr 0" by simp
  then show "c = cnul" by (simp add: cnul_def)
qed (simp add: cnul_def code_chr)

definition is_digit :: "char \<Rightarrow> bool" where
  "is_digit c \<longleftrightarrow> 48 \<le> code c \<and> code c \<le> 57"

section \<open>splitstring\<close>

text \<open>A row of the result: terminated, or holding some characters without a terminating null.\<close>

datatype row = Str string | Open string

record splitback =
  count :: nat
  stringout :: "row list"

fun split_loop :: "nat \<Rightarrow> string \<Rightarrow> char \<Rightarrow> nat \<Rightarrow> string \<Rightarrow> row list \<Rightarrow> nat \<times> row list" where
  "split_loop 0 content item n cur rows = (n, if cur = [] then rows else rows[n := Open cur])"
| "split_loop (Suc i) [] item n cur rows = (n + 1, rows[n := Str cur])"
| "split_loop (Suc i) (c # cs) item n cur rows =
     (if c \<noteq> item then split_loop i cs item n (if length cur < 59 then cur @ [c] else cur) rows
      else if n + 1 > 19 then (n + 1, rows[n := Str cur])
      else split_loop i cs item (n + 1) [] (rows[n := Str cur]))"

definition splitstring :: "string \<Rightarrow> char \<Rightarrow> splitback" where
  "splitstring content item =
     (let (n, rows) = split_loop 200 content item 0 [] (replicate 20 (Str []))
      in \<lparr>count = n, stringout = rows\<rparr>)"

section \<open>Decoding\<close>

datatype decoded = Decoded string | Forbidden

definition hex_value :: "char \<Rightarrow> char \<Rightarrow> char" where
  "hex_value h l =
     (if code h \<ge> 65 then
        if code l \<ge> 65 then chr ((code h - 65) * 16 + code l - 65 + 0xAA)
        else chr ((code h - 65) * 16 + code l - 48 + 0xA0)
      else
        if code l \<ge> 65 then chr ((code h - 48) * 16 + code l - 65 + 0x0A)
        else chr ((code h - 48) * 16 + code l - 48 + 0x00))"

text \<open>
  The loop runs over the string and its null; \<open>tmp\<close> has 100 bytes.  An escape cut off by the end of
  the string makes it read, or leave \<open>tmp\<close> without a null, beyond what is defined.
\<close>

fun decode_loop :: "string \<Rightarrow> string \<Rightarrow> decoded option" where
  "decode_loop [] tmp =
     (if length tmp < 100 then Some (Decoded (take 99 (takeWhile (\<lambda>c. c \<noteq> cnul) tmp))) else None)"
| "decode_loop (c # cs) tmp =
     (if length tmp \<ge> 100 then None
      else if c = CHR ''%'' then
        (case cs of
           h # l # cs' \<Rightarrow>
             if hex_value h l = CHR ''='' \<or> hex_value h l = CHR ''&'' then Some Forbidden
             else decode_loop cs' (tmp @ [hex_value h l])
         | _ \<Rightarrow> None)
      else if c = CHR ''+'' then decode_loop cs (tmp @ [CHR '' ''])
      else decode_loop cs (tmp @ [c]))"

definition chinesedeal :: "string \<Rightarrow> decoded option" where
  "chinesedeal str = decode_loop str []"

section \<open>Small checks\<close>

definition strfilter :: "string \<Rightarrow> nat" where
  "strfilter str =
     (if \<exists>c \<in> set str. code c < 48 \<or> (code c > 57 \<and> code c < 65) \<or> (code c > 90 \<and> code c < 97) \<or> code c > 122
      then 0 else 1)"

text \<open>
  The destination is returned beside the result; the null of \<open>src\<close> is copied when it is reached.  A
  count below one makes it write before the destination.
\<close>

definition mystrproceed :: "string \<Rightarrow> int \<Rightarrow> int \<Rightarrow> (int \<times> string) option" where
  "mystrproceed src startpos n =
     (if startpos < 0 \<or> startpos \<ge> int (length src) then Some (0, [])
      else if n \<le> 0 then None
      else if int (length src) - startpos \<ge> n then Some (0, take (nat (n - 1)) (drop (nat startpos) src))
      else Some (int (length src) - startpos, drop (nat startpos) src))"

definition ischar :: "string \<Rightarrow> nat" where
  "ischar srcline = (if \<exists>c \<in> set srcline. \<not> is_digit c then 1 else 0)"

definition cutspace :: "string \<Rightarrow> string" where
  "cutspace pstr = takeWhile (\<lambda>c. c \<noteq> CHR ''+'') pstr"

definition cut_return_from_fileline :: "string \<Rightarrow> string" where
  "cut_return_from_fileline line = takeWhile (\<lambda>c. c \<noteq> CHR '';'' \<and> c \<noteq> CHR ''\<newline>'') line"

section \<open>Addresses and masks\<close>

fun atoi_from :: "nat \<Rightarrow> string \<Rightarrow> nat" where
  "atoi_from a [] = a"
| "atoi_from a (c # cs) = (if is_digit c then atoi_from (10 * a + nat (code c - 48)) cs else a)"

abbreviation atoi :: "string \<Rightarrow> nat" where
  "atoi \<equiv> atoi_from 0"

datatype vip = Bad "nat list" | Done nat nat "nat list" | Over

fun vip_loop :: "string \<Rightarrow> string \<Rightarrow> nat \<Rightarrow> nat \<Rightarrow> nat list \<Rightarrow> vip" where
  "vip_loop [] tmp intcount j ret = Done intcount j ret"
| "vip_loop (c # cs) tmp intcount j ret =
     (if c = CHR ''.'' then
        if tmp = [] then Bad ret
        else if atoi tmp > 255 then Bad ret
        else if j < length ret then vip_loop cs [] (intcount + 1) (j + 1) (ret[j := atoi tmp])
        else Over
      else if is_digit c then
        if length tmp > 2 then Bad ret
        else if cs = [] then
          if atoi (tmp @ [c]) > 255 then Bad ret
          else if intcount < length ret then vip_loop cs (tmp @ [c]) (intcount + 1) j (ret[intcount := atoi (tmp @ [c])])
          else Over
        else vip_loop cs (tmp @ [c]) intcount j ret
      else Bad ret)"

text \<open>The result and the caller's array; \<open>None\<close> when the array is overrun.\<close>

definition verifyip :: "string \<Rightarrow> nat list \<Rightarrow> (nat \<times> nat list) option" where
  "verifyip ip ret =
     (if length ip < 7 then Some (0, ret)
      else case vip_loop (take 19 ip) [] 0 0 ret of
        Bad r \<Rightarrow> Some (0, r)
      | Done intcount j r \<Rightarrow> Some (if j \<noteq> 3 \<or> intcount \<noteq> 4 then 0 else 1, r)
      | Over \<Rightarrow> None)"

fun mask_loop :: "nat \<Rightarrow> nat \<Rightarrow> bool \<Rightarrow> u32 \<Rightarrow> nat \<Rightarrow> nat" where
  "mask_loop 0 i flag xxx netnumber = 1"
| "mask_loop (Suc n) i flag xxx netnumber =
     (if \<not> flag \<and> i > netnumber + 1 then 0
      else if xxx OR 1 = xxx then mask_loop n (i + 1) True (drop_bit 1 xxx) netnumber
      else if flag then 0
      else mask_loop n (i + 1) flag (drop_bit 1 xxx) netnumber)"

definition quad_word :: "nat list \<Rightarrow> u32" where
  "quad_word ad = push_bit 24 (of_nat (ad ! 0)) OR push_bit 16 (of_nat (ad ! 1)) OR
     push_bit 8 (of_nat (ad ! 2)) OR of_nat (ad ! 3)"

definition isnetmask :: "string \<Rightarrow> string \<Rightarrow> nat option" where
  "isnetmask netmask ip =
     (case verifyip ip [0, 0, 0, 0] of
        None \<Rightarrow> None
      | Some (r, ad) \<Rightarrow>
          if r = 0 then Some 0
          else if ad ! 0 \<ge> 224 then Some 0
          else
            let netnumber = (if ad ! 0 < 128 then 24 else if ad ! 0 < 192 then 16 else 8)
            in case verifyip netmask ad of
                 None \<Rightarrow> None
               | Some (r, ad) \<Rightarrow> if r = 0 then Some 0 else Some (mask_loop 32 0 False (quad_word ad) netnumber))"

section \<open>Splitting against a reference\<close>

text \<open>The pieces of a string between the separators.\<close>

fun pieces :: "char \<Rightarrow> string \<Rightarrow> string list" where
  "pieces item [] = [[]]"
| "pieces item (c # cs) =
     (if c = item then [] # pieces item cs
      else case pieces item cs of p # ps \<Rightarrow> (c # p) # ps | [] \<Rightarrow> [[c]])"

lemma pieces_not_Nil [simp]: "pieces item cs \<noteq> []"
  by (cases cs) (auto split: list.splits)

definition rows_of :: "nat \<Rightarrow> row list \<Rightarrow> string list \<Rightarrow> row list" where
  "rows_of n rows ps = take n rows @ map (\<lambda>p. Str (take 59 p)) (take (20 - n) ps) @ drop (n + length ps) rows"

lemma split_loop_pieces:
  assumes "length content < i" "n < 20" "length rows = 20" "length cur \<le> 59"
    and "pieces item content = p # ps"
  shows "split_loop i content item n cur rows =
    (n + min (20 - n) (Suc (length ps)), rows_of n rows ((cur @ p) # ps))"
  using assms
proof (induction content arbitrary: i n cur rows p ps)
  case Nil
  then obtain i' where "i = Suc i'" by (cases i) auto
  with Nil show ?case
    by (auto simp: rows_of_def list_update_append upd_conv_take_nth_drop take_Cons' split: nat.splits)
next
  case (Cons c cs)
  then obtain i' where i: "i = Suc i'" by (cases i) auto
  obtain q qs where q: "pieces item cs = q # qs" by (cases "pieces item cs") auto
  show ?case
  proof (cases "c = item")
    case False
    with Cons.prems(5) q have pq: "p = c # q" "ps = qs" by auto
    have tk: "take 59 ((if length cur < 59 then cur @ [c] else cur) @ q) = take 59 (cur @ c # q)"
      using Cons.prems(4) by (auto simp: not_less take_Cons')
    have "split_loop i' cs item n (if length cur < 59 then cur @ [c] else cur) rows =
        (n + min (20 - n) (Suc (length qs)), rows_of n rows (((if length cur < 59 then cur @ [c] else cur) @ q) # qs))"
      by (rule Cons.IH) (use Cons.prems i q in auto)
    also have "rows_of n rows (((if length cur < 59 then cur @ [c] else cur) @ q) # qs) = rows_of n rows ((cur @ c # q) # qs)"
      using Cons.prems(2) tk by (cases "20 - n") (simp_all add: rows_of_def del: if_split)
    finally show ?thesis by (simp add: i False pq)
  next
    case True
    with Cons.prems(5) q have pq: "p = []" "ps = q # qs" by auto
    have cur: "take 59 cur = cur" using Cons.prems(4) by simp
    have upd: "rows[n := Str cur] = take n rows @ Str cur # drop (Suc n) rows"
      using Cons.prems(2,3) by (simp add: upd_conv_take_nth_drop)
    show ?thesis
    proof (cases "n + 1 > 19")
      case last: True
      then have n: "n = 19" using Cons.prems(2) by simp
      show ?thesis using Cons.prems(3) upd by (simp add: i True pq cur rows_of_def n)
    next
      case False
      then have room: "20 - n = Suc (19 - n)" by simp
      have "split_loop i' cs item (n + 1) [] (rows[n := Str cur]) =
          (n + 1 + min (20 - (n + 1)) (Suc (length qs)), rows_of (n + 1) (rows[n := Str cur]) (([] @ q) # qs))"
        by (rule Cons.IH) (use Cons.prems i q False in auto)
      moreover have "rows_of (n + 1) (rows[n := Str cur]) (q # qs) = rows_of n rows (cur # q # qs)"
        using Cons.prems(2,3) by (simp add: rows_of_def upd cur add.commute room)
      ultimately show ?thesis using False by (simp add: i True pq room)
    qed
  qed
qed

section \<open>The mask loop\<close>

lemma or_one_iff: "(x OR 1 = x) = bit (x :: u32) 0"
proof
  assume "x OR 1 = x"
  then have "bit (x OR 1) 0 = bit x 0" by simp
  then show "bit x 0" by (simp add: bit_simps)
next
  assume "bit x 0"
  then show "x OR 1 = x" by (intro bit_word_eqI) (auto simp: bit_simps bit_1_iff)
qed

lemma mask_loop_ones: "mask_loop n i True x net = (if \<forall>k < n. bit x k then 1 else 0)"
proof (induction n arbitrary: i x)
  case (Suc n)
  have "(\<forall>k < Suc n. bit x k) = (bit x 0 \<and> (\<forall>k < n. bit (drop_bit 1 x) k))"
    by (auto simp: bit_drop_bit_eq less_Suc_eq_0_disj)
  then show ?case by (simp add: or_one_iff Suc)
qed simp

lemma mask_loop_zeros:
  assumes "i \<le> net + 2" "net + 2 < i + n"
  shows "mask_loop n i False x net =
    (if \<exists>p < n. i + p \<le> net + 1 \<and> (\<forall>k < p. \<not> bit x k) \<and> (\<forall>k < n. p \<le> k \<longrightarrow> bit x k) then 1 else 0)"
    (is "_ = (if \<exists>p < n. ?P n i x p then 1 else 0)")
  using assms
proof (induction n arbitrary: i x)
  case (Suc n)
  show ?case
  proof (cases "i > net + 1")
    case False
    show ?thesis
    proof (cases "bit x 0")
      case True
      have "(\<forall>k < n. bit (drop_bit 1 x) k) = (\<forall>k < Suc n. bit x k)"
        using True by (auto simp: bit_drop_bit_eq less_Suc_eq_0_disj)
      moreover have "(\<exists>p < Suc n. ?P (Suc n) i x p) = (\<forall>k < Suc n. bit x k)"
        using True False by (auto intro: exI [of _ 0])
      ultimately show ?thesis using False True by (simp add: or_one_iff mask_loop_ones)
    next
      case low: False
      have "\<not> ?P (Suc n) i x 0" using low by auto
      then have "(\<exists>p < Suc n. ?P (Suc n) i x p) = (\<exists>p < n. ?P (Suc n) i x (Suc p))"
        by (simp only: Ex_less_Suc2 simp_thms)
      also have "... = (\<exists>p < n. ?P n (i + 1) (drop_bit 1 x) p)"
        using low by (simp add: All_less_Suc2 bit_drop_bit_eq)
      finally show ?thesis using False low Suc.IH [of "i + 1" "drop_bit 1 x"] Suc.prems
        by (simp add: or_one_iff)
    qed
  qed auto
qed simp

lemma ones_from:
  assumes "N < (n :: nat)"
  shows "(p < n \<and> p \<le> N \<and> (\<forall>k < p. \<not> B k) \<and> (\<forall>k < n. p \<le> k \<longrightarrow> B k)) =
    (p \<le> N \<and> (\<forall>k < n. B k \<longleftrightarrow> p \<le> k))"
proof
  assume l: "p < n \<and> p \<le> N \<and> (\<forall>k < p. \<not> B k) \<and> (\<forall>k < n. p \<le> k \<longrightarrow> B k)"
  have "B k \<longleftrightarrow> p \<le> k" if "k < n" for k using l that by (cases "p \<le> k") auto
  with l show "p \<le> N \<and> (\<forall>k < n. B k \<longleftrightarrow> p \<le> k)" by blast
next
  assume "p \<le> N \<and> (\<forall>k < n. B k \<longleftrightarrow> p \<le> k)"
  with assms show "p < n \<and> p \<le> N \<and> (\<forall>k < p. \<not> B k) \<and> (\<forall>k < n. p \<le> k \<longrightarrow> B k)"
    by auto
qed

section \<open>Addresses against a reference\<close>

definition octet :: "string \<Rightarrow> bool" where
  "octet s \<longleftrightarrow> s \<noteq> [] \<and> length s \<le> 3 \<and> (\<forall>c \<in> set s. is_digit c) \<and> atoi s \<le> 255"

lemma dot_not_digit [simp]: "\<not> is_digit CHR ''.''"
  by (simp add: is_digit_def code_def)

lemma atoi_le_snoc: "is_digit c \<Longrightarrow> \<forall>c \<in> set s. is_digit c \<Longrightarrow> atoi_from a s \<le> atoi_from a (s @ [c])"
  by (induction s arbitrary: a) auto

text \<open>Running over an octet that a dot follows, and over the last one.\<close>

lemma vip_digits:
  assumes "\<forall>c \<in> set s. is_digit c" "length tmp + length s \<le> 3" "cs \<noteq> []"
  shows "vip_loop (s @ cs) tmp n j ret = vip_loop cs (tmp @ s) n j ret"
  using assms
proof (induction s arbitrary: tmp)
  case (Cons c s)
  then have "c \<noteq> CHR ''.''" by auto
  with Cons show ?case by simp
qed simp

lemma vip_octet_dot:
  assumes "octet s" "j < length ret"
  shows "vip_loop (s @ CHR ''.'' # cs) [] n j ret = vip_loop cs [] (n + 1) (j + 1) (ret[j := atoi s])"
  using assms vip_digits [of s "[]" "CHR ''.'' # cs" n j ret] by (auto simp: octet_def)

lemma vip_octet_over:
  assumes "octet s" "\<not> n < length ret"
  shows "vip_loop s [] n j ret = Over"
proof -
  obtain t c where s: "s = t @ [c]" using assms(1) by (cases s rule: rev_cases) (auto simp: octet_def)
  then have "c \<noteq> CHR ''.''" using assms(1) by (auto simp: octet_def)
  then show ?thesis
    using assms vip_digits [of t "[]" "[c]" n j ret] by (simp add: s octet_def)
qed

lemma vip_octet_end:
  assumes "octet s" "n < length ret"
  shows "vip_loop s [] n j ret = Done (n + 1) j (ret[n := atoi s])"
proof -
  obtain t c where s: "s = t @ [c]" using assms(1) by (cases s rule: rev_cases) (auto simp: octet_def)
  then have "c \<noteq> CHR ''.''" using assms(1) by (auto simp: octet_def)
  then show ?thesis
    using assms vip_digits [of t "[]" "[c]" n j ret] by (simp add: s octet_def)
qed

definition dotted :: "string list \<Rightarrow> string" where
  "dotted ss = concat (map (\<lambda>s. s @ ''.'') ss)"

lemma dotted_Cons: "dotted (s # ss) = s @ CHR ''.'' # dotted ss"
  by (simp add: dotted_def)

text \<open>What the loop has read when it ends normally.\<close>

lemma vip_loop_inv:
  assumes "vip_loop cs tmp n j ret = Done n' j' r" "\<forall>c \<in> set tmp. is_digit c" "length tmp \<le> 3"
    and "cs = [] \<longrightarrow> tmp = []"
  shows "\<exists>ss lst. tmp @ cs = dotted ss @ lst \<and> (\<forall>s \<in> set ss. octet s) \<and> (lst = [] \<or> octet lst) \<and>
    j' = j + length ss \<and> n' = n + length ss + (if lst = [] then 0 else 1)"
  using assms
proof (induction cs arbitrary: tmp n j ret)
  case Nil
  then show ?case by (intro exI [of _ "[]"]) (simp add: dotted_def)
next
  case (Cons c cs)
  show ?case
  proof (cases "c = CHR ''.''")
    case True
    with Cons.prems have t: "tmp \<noteq> []" "atoi tmp \<le> 255" "j < length ret"
        and run: "vip_loop cs [] (n + 1) (j + 1) (ret[j := atoi tmp]) = Done n' j' r"
      by (auto split: if_splits)
    obtain ss lst where h: "cs = dotted ss @ lst" "\<forall>s \<in> set ss. octet s" "lst = [] \<or> octet lst"
        "j' = j + 1 + length ss" "n' = n + 1 + length ss + (if lst = [] then 0 else 1)"
      using Cons.IH [OF run] by auto
    have "octet tmp" using t Cons.prems(2,3) by (simp add: octet_def)
    then show ?thesis using h True by (intro exI [of _ "tmp # ss"] exI [of _ lst]) (auto simp: dotted_Cons)
  next
    case False
    with Cons.prems have d: "is_digit c" "length tmp \<le> 2" by (auto split: if_splits)
    show ?thesis
    proof (cases "cs = []")
      case True
      with Cons.prems False d have "atoi (tmp @ [c]) \<le> 255" "n' = n + 1" "j' = j"
        by (auto split: if_splits)
      then have "octet (tmp @ [c])" using d Cons.prems(2) by (auto simp: octet_def)
      with \<open>n' = n + 1\<close> \<open>j' = j\<close> True show ?thesis
        by (intro exI [of _ "[]"] exI [of _ "tmp @ [c]"]) (simp add: dotted_def)
    next
      case more: False
      with Cons.prems False d have "vip_loop cs (tmp @ [c]) n j ret = Done n' j' r" by simp
      from Cons.IH [OF this] show ?thesis using d Cons.prems(2) more by simp
    qed
  qed
qed

lemma verifyip_quad:
  "verifyip ip [w, x, y, z] = Some (1, r) \<longleftrightarrow>
    (\<exists>a b c d. octet a \<and> octet b \<and> octet c \<and> octet d \<and> ip = a @ ''.'' @ b @ ''.'' @ c @ ''.'' @ d \<and>
       r = [atoi a, atoi b, atoi c, atoi d])" (is "?lhs = (\<exists>a b c d. ?quad a b c d)")
proof
  have run: "verifyip ip [w, x, y, z] = Some (1, [atoi a, atoi b, atoi c, atoi d])"
    if q: "octet a" "octet b" "octet c" "octet d" "ip = a @ ''.'' @ b @ ''.'' @ c @ ''.'' @ d" for a b c d
  proof -
    have l: "1 \<le> length a" "length a \<le> 3" "1 \<le> length b" "length b \<le> 3" "1 \<le> length c" "length c \<le> 3"
        "1 \<le> length d" "length d \<le> 3"
      using q(1-4) by (simp_all add: octet_def Suc_le_eq)
    then have "take 19 ip = ip" by (simp add: q(5))
    moreover have "vip_loop ip [] 0 0 [w, x, y, z] = Done 4 3 [atoi a, atoi b, atoi c, atoi d]"
      using q by (simp add: vip_octet_dot vip_octet_end del: vip_loop.simps)
    moreover have "\<not> length ip < 7" using l by (simp add: q(5))
    ultimately show ?thesis by (simp add: verifyip_def)
  qed
  then show "\<exists>a b c d. ?quad a b c d \<Longrightarrow> ?lhs" by blast
  assume lhs: ?lhs
  then obtain m where m: "vip_loop (take 19 ip) [] 0 0 [w, x, y, z] = Done 4 3 m"
    by (auto simp: verifyip_def split: if_splits vip.splits)
  obtain ss lst where h: "take 19 ip = dotted ss @ lst" "\<forall>s \<in> set ss. octet s" "lst = [] \<or> octet lst"
      "3 = length ss" "4 = length ss + (if lst = [] then 0 else 1)"
    using vip_loop_inv [OF m] by auto
  from h(4) have "length ss = Suc (Suc (Suc 0))" by simp
  then obtain a b c where "ss = [a, b, c]" by (auto simp: length_Suc_conv)
  with h have q: "octet a" "octet b" "octet c" "octet lst" "take 19 ip = a @ ''.'' @ b @ ''.'' @ c @ ''.'' @ lst"
    by (auto simp: dotted_def split: if_splits)
  have "length (take 19 ip) < 19" unfolding q(5) using q(1-4) by (simp add: octet_def)
  then have "take 19 ip = ip" by simp
  then have "ip = a @ ''.'' @ b @ ''.'' @ c @ ''.'' @ lst" using q(5) by simp
  with q(1-4) run [OF q(1-4) this] lhs show "\<exists>a b c d. ?quad a b c d" by auto
qed

section \<open>Form encoding\<close>

text \<open>What a browser sends for a field: letters and digits, + for a space, %XX with capitals for the rest.\<close>

definition hex_digit :: "int \<Rightarrow> char" where
  "hex_digit n = (if n < 10 then chr (48 + n) else chr (55 + n))"

definition plain :: "char \<Rightarrow> bool" where
  "plain c \<longleftrightarrow> is_digit c \<or> 65 \<le> code c \<and> code c \<le> 90 \<or> 97 \<le> code c \<and> code c \<le> 122"

definition encode_char :: "char \<Rightarrow> string" where
  "encode_char c =
     (if plain c then [c] else if c = CHR '' '' then ''+''
      else [CHR ''%'', hex_digit (code c div 16), hex_digit (code c mod 16)])"

definition url_encode :: "string \<Rightarrow> string" where
  "url_encode s = concat (map encode_char s)"

lemma hex_digit_code:
  assumes "0 \<le> n" "n < 16"
  shows "code (hex_digit n) = (if n < 10 then 48 + n else 55 + n)"
  using assms by (simp add: hex_digit_def code_chr)

lemma hex_value_digits: "hex_value (hex_digit (code c div 16)) (hex_digit (code c mod 16)) = c"
proof -
  define h l where "h = code c div 16" and "l = code c mod 16"
  have b: "0 \<le> h" "h < 16" "0 \<le> l" "l < 16" using code_bounds [of c] by (simp_all add: h_def l_def)
  have sum: "h * 16 + l = code c" by (simp add: h_def l_def)
  have "hex_value (hex_digit h) (hex_digit l) = chr (h * 16 + l)"
    using b by (simp add: hex_value_def hex_digit_code algebra_simps)
  then show ?thesis by (simp add: sum h_def l_def)
qed

lemma plain_not_special: "plain c \<Longrightarrow> c \<noteq> CHR ''%'' \<and> c \<noteq> CHR ''+''"
  by (auto simp: plain_def is_digit_def code_def)

lemma decode_char:
  assumes "c \<noteq> CHR ''='' \<and> c \<noteq> CHR ''&''" "length tmp < 100"
  shows "decode_loop (encode_char c @ cs) tmp = decode_loop cs (tmp @ [c])"
  using assms plain_not_special [of c] by (auto simp: encode_char_def hex_value_digits)

lemma decode_encoded:
  assumes "\<forall>c \<in> set s. c \<noteq> CHR ''='' \<and> c \<noteq> CHR ''&''" "length tmp + length s < 100"
  shows "decode_loop (url_encode s) tmp = decode_loop [] (tmp @ s)"
  using assms
proof (induction s arbitrary: tmp)
  case (Cons c s)
  have "decode_loop (url_encode (c # s)) tmp = decode_loop (url_encode s) (tmp @ [c])"
    using Cons.prems decode_char [of c tmp "url_encode s"] by (simp add: url_encode_def del: decode_loop.simps)
  also have "... = decode_loop [] (tmp @ c # s)"
    using Cons.IH [of "tmp @ [c]"] Cons.prems by (simp del: decode_loop.simps)
  finally show ?case .
qed (simp add: url_encode_def)

section \<open>Properties\<close>

text \<open>
  C16: \<open>splitstring\<close> computes the pieces between the separators: for a string shorter than 200
  characters the rows are the first twenty pieces, each cut to 59 characters and terminated, the
  unused rows are empty, and the count is the number of pieces up to twenty.
\<close>
theorem splitstring_pieces:
  assumes "length s < 200"
  shows "splitstring s item =
    \<lparr>count = min 20 (length (pieces item s)),
     stringout = map (\<lambda>p. Str (take 59 p)) (take 20 (pieces item s)) @ replicate (20 - length (pieces item s)) (Str [])\<rparr>"
proof -
  obtain p ps where p: "pieces item s = p # ps" by (cases "pieces item s") auto
  have "drop (Suc (length ps)) (replicate 20 (Str [])) = replicate (20 - length (pieces item s)) (Str [])"
    by (simp only: drop_replicate p length_Cons)
  then show ?thesis
    using split_loop_pieces [OF assms, of 0 "replicate 20 (Str [])" "[]" item p ps]
    by (simp add: splitstring_def rows_of_def p del: drop_replicate)
qed

theorem splitstring_pieces_witness: "count (splitstring ''flag=8&oldpass=a&nopass=b'' CHR ''&'') = 3"
  using splitstring_pieces [of "''flag=8&oldpass=a&nopass=b''" "CHR ''&''"] by simp

text \<open>
  C36: Decoding undoes form encoding: any field of fewer than 100 characters without a null and
  without the two forbidden characters comes out of \<open>chinesedeal\<close> as it was typed.
\<close>
theorem decode_roundtrip:
  assumes "length s < 100" "\<forall>c \<in> set s. c \<noteq> CHR ''='' \<and> c \<noteq> CHR ''&'' \<and> c \<noteq> cnul"
  shows "chinesedeal (url_encode s) = Some (Decoded s)"
proof -
  have tw: "takeWhile (\<lambda>c. c \<noteq> cnul) s = s"
    unfolding takeWhile_eq_all_conv using assms(2) by blast
  have "take 99 (takeWhile (\<lambda>c. c \<noteq> cnul) s) = s" unfolding tw using assms(1) by simp
  moreover have "decode_loop (url_encode s) [] = decode_loop [] s"
    using assms decode_encoded [of s "[]"] by simp
  ultimately show ?thesis using assms(1) by (simp add: chinesedeal_def)
qed

theorem decode_roundtrip_witness: "chinesedeal (url_encode ''a b/c'') = Some (Decoded ''a b/c'')"
  by (rule decode_roundtrip) (simp_all add: cnul_iff code_def)

text \<open>
  C21: \<open>verifyip\<close> accepts exactly the dotted quads of one to three digits with values up to 255, and
  then leaves the four values in the caller's array.
\<close>
theorem verifyip_iff:
  "verifyip ip [w, x, y, z] = Some (1, r) \<longleftrightarrow>
    (\<exists>a b c d. octet a \<and> octet b \<and> octet c \<and> octet d \<and> ip = a @ ''.'' @ b @ ''.'' @ c @ ''.'' @ d \<and>
       r = [atoi a, atoi b, atoi c, atoi d])"
  by (rule verifyip_quad)

text \<open>
  Nothing stops \<open>verifyip\<close> at four groups: an address with a fifth group makes it write beyond
  the four values its callers provide.
\<close>
theorem verifyip_overruns:
  assumes "octet a" "octet b" "octet c" "octet d" "octet e" "length ret = 4"
  shows "verifyip (a @ ''.'' @ b @ ''.'' @ c @ ''.'' @ d @ ''.'' @ e) ret = None"
proof -
  let ?ip = "a @ ''.'' @ b @ ''.'' @ c @ ''.'' @ d @ ''.'' @ e"
  have l: "1 \<le> length a" "length a \<le> 3" "1 \<le> length b" "length b \<le> 3" "1 \<le> length c" "length c \<le> 3"
      "1 \<le> length d" "length d \<le> 3" "1 \<le> length e" "length e \<le> 3"
    using assms(1-5) by (simp_all add: octet_def Suc_le_eq)
  then have t: "take 19 ?ip = ?ip" by simp
  have "vip_loop ?ip [] 0 0 ret = Over"
    using assms by (simp add: vip_octet_dot vip_octet_over del: vip_loop.simps)
  moreover have "\<not> length ?ip < 7" using l by simp
  ultimately show ?thesis unfolding verifyip_def t by simp
qed

theorem verifyip_overruns_witness: "verifyip ''1.2.3.4.5'' [0, 0, 0, 0] = None"
proof -
  have "octet [c]" if "c \<in> set ''12345''" for c
    using that by (auto simp: octet_def is_digit_def code_def)
  then show ?thesis
    using verifyip_overruns [of "''1''" "''2''" "''3''" "''4''" "''5''" "[0, 0, 0, 0]"] by simp
qed

text \<open>
  \<open>isnetmask\<close> accepts a mask for an address of class A, B or C exactly when its bits are ones
  from the top down to a lowest one at position at most 25, 17 or 9: two places shorter than the
  network part of the class is still accepted by class A (255.0.0.0 has its lowest one at 24).
\<close>
theorem isnetmask_iff:
  assumes "verifyip ip [0, 0, 0, 0] = Some (1, a)" "a ! 0 < 224"
    and "verifyip netmask a = Some (1, m)"
  shows "isnetmask netmask ip = Some 1 \<longleftrightarrow>
    (\<exists>p \<le> (if a ! 0 < 128 then 25 else if a ! 0 < 192 then 17 else 9).
       \<forall>k < 32. bit (quad_word m) k \<longleftrightarrow> p \<le> k)"
proof -
  let ?net = "if a ! 0 < 128 then 24 else if a ! 0 < 192 then 16 else (8 :: nat)"
  have "isnetmask netmask ip = Some (mask_loop 32 0 False (quad_word m) ?net)"
    using assms by (simp add: isnetmask_def)
  also have "mask_loop 32 0 False (quad_word m) ?net =
      (if \<exists>p < 32. 0 + p \<le> ?net + 1 \<and> (\<forall>k < p. \<not> bit (quad_word m) k) \<and> (\<forall>k < 32. p \<le> k \<longrightarrow> bit (quad_word m) k)
       then 1 else 0)"
    by (rule mask_loop_zeros) simp_all
  also have "(\<exists>p < 32. 0 + p \<le> ?net + 1 \<and> (\<forall>k < p. \<not> bit (quad_word m) k) \<and> (\<forall>k < 32. p \<le> k \<longrightarrow> bit (quad_word m) k)) =
      (\<exists>p \<le> ?net + 1. \<forall>k < 32. bit (quad_word m) k \<longleftrightarrow> p \<le> k)"
  proof -
    have "?net + 1 < 32" by (simp split: if_splits)
    then show ?thesis unfolding add_0 by (intro ex_cong1 ones_from)
  qed
  finally have res: "isnetmask netmask ip =
      Some (if \<exists>p \<le> ?net + 1. \<forall>k < 32. bit (quad_word m) k \<longleftrightarrow> p \<le> k then 1 else 0)" .
  have net: "?net + 1 = (if a ! 0 < 128 then 25 else if a ! 0 < 192 then 17 else 9)" by simp
  have "Some (if Q then 1 else 0) = Some (1 :: nat) \<longleftrightarrow> Q" for Q by simp
  then show ?thesis unfolding res net .
qed

lemma vip_witness:
  "verifyip ''192.168.2.111'' [0, 0, 0, 0] = Some (1, [192, 168, 2, 111])"
  "verifyip ''255.255.255.0'' [192, 168, 2, 111] = Some (1, [255, 255, 255, 0])"
  by (simp_all add: verifyip_def is_digit_def code_def)

theorem isnetmask_iff_witness: "isnetmask ''255.255.255.0'' ''192.168.2.111'' = Some 1"
proof -
  have "bit (quad_word [255, 255, 255, 0]) k \<longleftrightarrow> 8 \<le> k" if "k < 32" for k
  proof -
    have "quad_word [255, 255, 255, 0] = - (2 ^ 8)" by (simp add: quad_word_def)
    then show ?thesis using that by (simp only: bit_minus_exp_iff) simp
  qed
  then have "\<exists>p \<le> 9. \<forall>k < 32. bit (quad_word [255, 255, 255, 0]) k \<longleftrightarrow> p \<le> k"
    by (intro exI [of _ 8]) simp
  then show ?thesis using isnetmask_iff [OF vip_witness(1) _ vip_witness(2)] by simp
qed

end
