(* ===== verification/Cgi_Files.thy ===== *)
theory Cgi_Files
  imports Cgi_Text
begin

text \<open>
  The file functions of the configuration CGI (EXP2/app/cgi/myhdr.c): lock files, replacing a line
  of a file, deleting or appending a line, and searching lines, over \<open>fgets\<close> and \<open>feof\<close> as the C
  library has them.

  The file system is a map from paths to contents.  A program that waits for a lock nobody holds
  any more, or that uses a null stream or an undefined buffer, is \<open>None\<close>.
\<close>

type_synonym files = "string \<rightharpoonup> string"

datatype ending = Returns | Exits

abbreviation newline :: char where
  "newline \<equiv> CHR ''\<newline>''"

section \<open>Locks\<close>

text \<open>The byte at index 11 of a shorter name is undefined in C; it is taken not to be a slash.\<close>

definition lock_path :: "string \<Rightarrow> string" where
  "lock_path filename =
     take 39 (''/tmp/'' @ (if 11 < length filename \<and> filename ! 11 = CHR ''/'' then drop 12 filename
                           else drop 5 filename) @ ''lock'')"

definition testlock :: "string \<Rightarrow> files \<Rightarrow> files option" where
  "testlock filename fs =
     (if fs (lock_path filename) \<noteq> None then None else Some (fs(lock_path filename \<mapsto> [])))"

definition unlock :: "string \<Rightarrow> files \<Rightarrow> files" where
  "unlock filename fs = fs(lock_path filename := None)"

text \<open>\<open>rename1\<close> runs /bin/move.\<close>

definition rename1 :: "string \<Rightarrow> string \<Rightarrow> files \<Rightarrow> files" where
  "rename1 a b fs = fs(b := fs a, a := None)"

section \<open>Streams\<close>

text \<open>
  \<open>fgets\<close> with room for \<open>n\<close> characters: the characters read up to and with a newline, the rest, and
  the end-of-file flag.
\<close>

fun take_line :: "nat \<Rightarrow> string \<Rightarrow> string \<times> string \<times> bool" where
  "take_line 0 s = ([], s, False)"
| "take_line (Suc n) [] = ([], [], True)"
| "take_line (Suc n) (c # cs) =
     (if c = newline then ([c], cs, False)
      else let (l, r, e) = take_line n cs in (c # l, r, e))"

lemma take_line_length: "take_line n s = (l, r, e) \<Longrightarrow> length l + length r = length s"
proof (induction n s arbitrary: l r e rule: take_line.induct)
  case (3 n c cs)
  then show ?case by (auto split: if_splits prod.splits)
qed auto

lemma take_line_shorter: "take_line (Suc n) s = (l, r, False) \<Longrightarrow> length r < length s"
  using take_line_length [of "Suc n" s l r False] by (cases s) (auto split: if_splits prod.splits)

text \<open>The tests the loops make on a buffer.\<close>

definition chop :: "string \<Rightarrow> string" where
  "chop b = (if b \<noteq> [] \<and> last b = newline then butlast b else b)"

definition contains :: "string \<Rightarrow> string \<Rightarrow> bool" where
  "contains hay needle \<longleftrightarrow> list_ex (\<lambda>i. take (length needle) (drop i hay) = needle) [0..<Suc (length hay)]"

section \<open>linedeal\<close>

fun copy_lines :: "nat \<Rightarrow> string \<Rightarrow> string \<Rightarrow> string + string \<times> string" where
  "copy_lines 0 rest out = Inr (out, rest)"
| "copy_lines (Suc n) rest out =
     (let (l, r, e) = take_line 99 rest in if e then Inl out else copy_lines n r (out @ l))"

function copy_rest :: "string \<Rightarrow> string \<Rightarrow> string" where
  "copy_rest rest out = (case take_line 99 rest of (l, r, e) \<Rightarrow> if e then out else copy_rest r (out @ l))"
  by auto
termination
  by (relation "measure (\<lambda>(rest, out). length rest)")
    (auto simp: numeral_eq_Suc dest: take_line_shorter sym)

declare copy_rest.simps [simp del]

definition linedeal :: "string \<Rightarrow> string \<Rightarrow> int \<Rightarrow> files \<Rightarrow> (ending \<times> files) option" where
  "linedeal filename content line fs =
     (case testlock filename fs of None \<Rightarrow> None
      | Some fs1 \<Rightarrow>
        (case testlock ''/tmp/tmp'' fs1 of None \<Rightarrow> None
         | Some fs2 \<Rightarrow>
           (case fs2 filename of None \<Rightarrow> None
            | Some text \<Rightarrow>
              (case copy_lines (nat (line - 1)) text [] of
                 Inl out \<Rightarrow> Some (Exits, unlock ''/tmp/tmp'' (fs2(''/tmp/tmp'' \<mapsto> out)))
               | Inr (out, rest) \<Rightarrow>
                   let out1 = out @ content @ [newline];
                       (l, r, e) = take_line 99 rest;
                       out2 = (if e then out1 else copy_rest r out1);
                       fs3 = rename1 ''/tmp/tmp'' filename (fs2(''/tmp/tmp'' \<mapsto> out2))
                   in Some (Returns, unlock filename (unlock ''/tmp/tmp'' fs3))))))"

section \<open>filedeal\<close>

text \<open>The buffer keeps its contents when \<open>fgets\<close> reads nothing.  An empty buffer is read before its start.\<close>

function delete_loop :: "string \<Rightarrow> string \<Rightarrow> string \<Rightarrow> string \<Rightarrow> string option" where
  "delete_loop content rest buf out =
     (case take_line 99 rest of (l, r, e) \<Rightarrow>
        let b = (if l = [] then buf else l) in
        if b = [] then None
        else
          let out1 =
            (if last b = newline then
               (if butlast b \<noteq> content then out @ butlast b @ [newline] else out)
             else if b \<noteq> content \<and> \<not> e then out @ b else out)
          in if e then Some out1 else delete_loop content r (chop b) out1)"
  by auto
termination
  by (relation "measure (\<lambda>(content, rest, buf, out). length rest)")
    (auto simp: numeral_eq_Suc dest: take_line_shorter sym)

declare delete_loop.simps [simp del]

text \<open>\<open>junk\<close> is what the uninitialised line buffer holds.\<close>

definition filedeal :: "string \<Rightarrow> string \<Rightarrow> string \<Rightarrow> int \<Rightarrow> files \<Rightarrow> files option" where
  "filedeal junk filename content mode fs =
     (case testlock filename fs of None \<Rightarrow> None
      | Some fs1 \<Rightarrow>
        if mode = 0 then
          (case fs1 filename of None \<Rightarrow> Some (unlock filename fs1)
           | Some text \<Rightarrow>
             (case testlock ''/tmp/tmpfiledeal'' fs1 of None \<Rightarrow> None
              | Some fs2 \<Rightarrow>
                (case delete_loop content text junk [] of None \<Rightarrow> None
                 | Some out \<Rightarrow>
                   Some (unlock filename (unlock ''/tmp/tmpfiledeal''
                     (rename1 ''/tmp/tmpfiledeal'' filename (fs2(''/tmp/tmpfiledeal'' \<mapsto> out))))))))
        else
          Some (unlock filename (fs1(filename \<mapsto>
            (case fs1 filename of None \<Rightarrow> [] | Some t \<Rightarrow> t) @ content @ [newline]))))"

section \<open>Searching\<close>

function search_loop :: "string \<Rightarrow> string \<Rightarrow> string \<Rightarrow> (bool \<times> string) option" where
  "search_loop needle rest buf =
     (case take_line 99 rest of (l, r, e) \<Rightarrow>
        let b = (if l = [] then buf else l) in
        if b = [] then None
        else if contains (chop b) needle then Some (True, chop b)
        else if e then Some (False, chop b)
        else search_loop needle r (chop b))"
  by auto
termination
  by (relation "measure (\<lambda>(needle, rest, buf). length rest)")
    (auto simp: numeral_eq_Suc dest: take_line_shorter sym)

declare search_loop.simps [simp del]

definition newgetline :: "string \<Rightarrow> string \<Rightarrow> string \<Rightarrow> files \<Rightarrow> (nat \<times> string \<times> files) option" where
  "newgetline filepath needle buf fs =
     (case testlock filepath fs of None \<Rightarrow> None
      | Some fs1 \<Rightarrow>
        (case fs1 filepath of None \<Rightarrow> None
         | Some text \<Rightarrow>
           (case search_loop needle text buf of None \<Rightarrow> None
            | Some (found, b) \<Rightarrow> Some (if found then 1 else 0, b, unlock filepath fs1))))"

definition getline :: "string \<Rightarrow> string \<Rightarrow> string \<Rightarrow> files \<Rightarrow> (nat \<times> string \<times> files) option" where
  "getline filepath needle srcline fs =
     (case testlock filepath fs of None \<Rightarrow> None
      | Some fs1 \<Rightarrow>
        (case fs1 filepath of None \<Rightarrow> None
         | Some text \<Rightarrow>
           (case search_loop needle text srcline of None \<Rightarrow> None
            | Some (found, b) \<Rightarrow>
                Some (if found then (1, b, unlock filepath fs1) else (0, ''no this user!'', unlock filepath fs1)))))"

function count_loop :: "string \<Rightarrow> string \<Rightarrow> string \<Rightarrow> nat \<Rightarrow> nat option" where
  "count_loop line rest buf n =
     (case take_line 99 rest of (l, r, e) \<Rightarrow>
        let b = (if l = [] then buf else l) in
        if b = [] then None
        else
          let n1 = (if contains (chop b) line then n + 1 else n)
          in if e then Some n1 else count_loop line r (chop b) n1)"
  by auto
termination
  by (relation "measure (\<lambda>(line, rest, buf, n). length rest)")
    (auto simp: numeral_eq_Suc dest: take_line_shorter sym)

declare count_loop.simps [simp del]

definition getlinenumber :: "string \<Rightarrow> string \<Rightarrow> string \<Rightarrow> files \<Rightarrow> (nat \<times> files) option" where
  "getlinenumber junk filename line fs =
     (case testlock filename fs of None \<Rightarrow> None
      | Some fs1 \<Rightarrow>
        (case fs1 filename of None \<Rightarrow> None
         | Some text \<Rightarrow> map_option (\<lambda>n. (n, unlock filename fs1)) (count_loop line text junk 0)))"

function linecount_loop :: "string \<Rightarrow> nat \<Rightarrow> nat" where
  "linecount_loop rest n =
     (case take_line 199 rest of (l, r, e) \<Rightarrow> if e then n + 1 else linecount_loop r (n + 1))"
  by auto
termination
  by (relation "measure (\<lambda>(rest, n). length rest)")
    (auto simp: numeral_eq_Suc dest: take_line_shorter sym)

declare linecount_loop.simps [simp del]

definition getfilelinecount :: "string \<Rightarrow> files \<Rightarrow> (nat \<times> files) option" where
  "getfilelinecount filename fs =
     (case testlock filename fs of None \<Rightarrow> None
      | Some fs1 \<Rightarrow>
        (case fs1 filename of None \<Rightarrow> None | Some text \<Rightarrow> Some (linecount_loop text 0, unlock filename fs1)))"

definition getfilelength :: "string \<Rightarrow> files \<Rightarrow> (nat \<times> files) option" where
  "getfilelength filename fs =
     (case testlock filename fs of None \<Rightarrow> None
      | Some fs1 \<Rightarrow>
        (case fs1 filename of None \<Rightarrow> None | Some text \<Rightarrow> Some (length text, unlock filename fs1)))"

section \<open>Files of lines\<close>

definition unlines :: "string list \<Rightarrow> string" where
  "unlines ls = concat (map (\<lambda>l. l @ [newline]) ls)"

text \<open>Lines that fit the buffers.\<close>

definition short_line :: "string \<Rightarrow> bool" where
  "short_line l \<longleftrightarrow> newline \<notin> set l \<and> length l < 99"

lemma unlines_simps [simp]: "unlines [] = []" "unlines (l # ls) = l @ newline # unlines ls"
  "unlines (ls @ ms) = unlines ls @ unlines ms"
  by (simp_all add: unlines_def)

lemma take_line_newline:
  "newline \<notin> set l \<Longrightarrow> length l < n \<Longrightarrow> take_line n (l @ newline # r) = (l @ [newline], r, False)"
proof (induction l arbitrary: n)
  case Nil
  then show ?case by (cases n) auto
next
  case (Cons c l)
  then show ?case by (cases n) auto
qed

lemma take_line_end: "newline \<notin> set l \<Longrightarrow> length l < n \<Longrightarrow> take_line n l = (l, [], True)"
proof (induction l arbitrary: n)
  case Nil
  then show ?case by (cases n) auto
next
  case (Cons c l)
  then show ?case by (cases n) auto
qed

lemmas take_short = take_line_newline [of _ 99] take_line_end [of _ 99]

lemma copy_lines_unlines:
  "\<forall>l \<in> set ls. short_line l \<Longrightarrow> copy_lines (length ls) (unlines ls @ rest) out = Inr (out @ unlines ls, rest)"
  by (induction ls arbitrary: out) (auto simp: short_line_def take_short)

lemma copy_lines_short:
  assumes "\<forall>l \<in> set ls. short_line l" "length ls < n"
  shows "copy_lines n (unlines ls) out = Inl (out @ unlines ls)"
  using assms
proof (induction ls arbitrary: n out)
  case Nil
  then show ?case by (cases n) (auto simp: numeral_eq_Suc)
next
  case (Cons l ls)
  then show ?case by (cases n) (auto simp: short_line_def take_short)
qed

lemma copy_rest_unlines: "\<forall>l \<in> set ls. short_line l \<Longrightarrow> copy_rest (unlines ls) out = out @ unlines ls"
proof (induction ls arbitrary: out)
  case Nil
  then show ?case by (subst copy_rest.simps) (simp add: numeral_eq_Suc)
next
  case (Cons l ls)
  then show ?case by (subst copy_rest.simps) (simp add: short_line_def take_short)
qed

lemma chop_line [simp]: "chop (l @ [newline]) = l"
  by (simp add: chop_def)

lemma delete_loop_unlines:
  assumes "\<forall>l \<in> set ls. short_line l" "short_line frag"
    and "frag \<noteq> [] \<or> (if ls = [] then buf \<noteq> [] \<and> last buf \<noteq> newline else last ls \<noteq> [])"
  shows "delete_loop content (unlines ls @ frag) buf out = Some (out @ unlines (filter (\<lambda>l. l \<noteq> content) ls))"
  using assms(1,3)
proof (induction ls arbitrary: buf out)
  case Nil
  have "take_line 99 frag = (frag, [], True)" using assms(2) by (simp add: short_line_def take_short)
  moreover have "newline \<notin> set frag" using assms(2) by (simp add: short_line_def)
  then have "last frag \<noteq> newline" if "frag \<noteq> []" using that last_in_set by metis
  ultimately show ?case using Nil by (subst delete_loop.simps) auto
next
  case (Cons l ls)
  have "last l \<noteq> newline" if "l \<noteq> []"
    using Cons.prems(1) that last_in_set by (fastforce simp: short_line_def)
  then have "delete_loop content (unlines ls @ frag) l out' =
      Some (out' @ unlines (filter (\<lambda>l. l \<noteq> content) ls))" for out'
    using Cons.prems by (intro Cons.IH) auto
  moreover have "take_line 99 (l @ newline # unlines ls @ frag) = (l @ [newline], unlines ls @ frag, False)"
    using Cons.prems(1) by (simp add: short_line_def take_short)
  ultimately show ?case by (subst delete_loop.simps) simp
qed

section \<open>Properties\<close>

text \<open>The names of the two temporary files and their locks are not those of the configuration file.\<close>

definition apart :: "string \<Rightarrow> string \<Rightarrow> bool" where
  "apart filename tmp \<longleftrightarrow>
     distinct [filename, tmp, lock_path filename, lock_path tmp]"

text \<open>
  C28: Let a file consist of lines that end in a newline and fit the 100-byte buffer, followed by a
  rest without a newline that fits it too; let the file not be empty nor end in an empty line (there the code reads
  before its buffer), let the locks of the file and of \<open>/tmp/tmpfiledeal\<close> be free, and
  let \<open>/tmp/tmpfiledeal\<close> not exist and the four names differ.  Then \<open>filedeal\<close> in delete mode removes
  every line equal to the content and keeps the other lines in order, but drops the rest after the last newline as well.
  Both locks are released and no other file changes.
\<close>
theorem filedeal_deletes:
  assumes "fs filename = Some (unlines ls @ frag)" "\<forall>l \<in> set ls. short_line l" "short_line frag"
    and "frag \<noteq> [] \<or> ls \<noteq> [] \<and> last ls \<noteq> []"
    and "apart filename ''/tmp/tmpfiledeal''"
    and "fs (lock_path filename) = None" "fs (lock_path ''/tmp/tmpfiledeal'') = None" "fs ''/tmp/tmpfiledeal'' = None"
  shows "filedeal junk filename content 0 fs = Some (fs(filename \<mapsto> unlines (filter (\<lambda>l. l \<noteq> content) ls)))"
proof -
  have "delete_loop content (unlines ls @ frag) junk [] = Some (unlines (filter (\<lambda>l. l \<noteq> content) ls))"
    using assms(2-4) delete_loop_unlines [of ls frag junk content "[]"] by auto
  then show ?thesis
    using assms(1,5-8) by (auto simp: filedeal_def testlock_def unlock_def rename1_def apart_def fun_eq_iff)
qed

text \<open>
  C27: Let every line of a file end in a newline and fit the 100-byte buffer (a longer line is counted
  as several), let the locks of the file and of \<open>/tmp/tmp\<close> be free, and let \<open>/tmp/tmp\<close> not exist and the four names differ.  Then
  \<open>linedeal\<close> replaces the line with the given number, or appends it when the number is one more
  than the lines there are; it releases its locks and changes no other file.
\<close>
theorem linedeal_replaces:
  assumes "fs filename = Some (unlines ls)" "\<forall>l \<in> set ls. short_line l" "1 \<le> n" "n \<le> length ls + 1"
    and "apart filename ''/tmp/tmp''"
    and "fs (lock_path filename) = None" "fs (lock_path ''/tmp/tmp'') = None" "fs ''/tmp/tmp'' = None"
  shows "linedeal filename content (int n) fs =
    Some (Returns, fs(filename \<mapsto> unlines (take (n - 1) ls @ content # drop n ls)))"
proof -
  let ?a = "take (n - 1) ls" and ?b = "drop (n - 1) ls"
  have ls: "unlines ls = unlines ?a @ unlines ?b" by (simp flip: unlines_simps(3))
  have short: "\<forall>l \<in> set ?a. short_line l" "\<forall>l \<in> set ?b. short_line l"
    using assms(2) by (auto dest: in_set_takeD in_set_dropD)
  have n: "nat (int n - 1) = length ?a" using assms(3,4) by simp
  have cp: "copy_lines (nat (int n - 1)) (unlines ls) [] = Inr (unlines ?a, unlines ?b)"
    unfolding n ls using copy_lines_unlines [OF short(1), of "unlines ?b" "[]"] by simp
  have tail: "(case take_line 99 (unlines ?b) of (l, r, e) \<Rightarrow> if e then out else copy_rest r out) =
      out @ unlines (drop n ls)" for out
  proof (cases ?b)
    case Nil
    then show ?thesis using assms(3) by (simp add: numeral_eq_Suc)
  next
    case (Cons b bs)
    have "drop n ls = drop 1 ?b" using assms(3) by simp
    then have "drop n ls = bs" unfolding Cons by simp
    then show ?thesis using short(2) unfolding Cons by (simp add: short_line_def take_short copy_rest_unlines)
  qed
  show ?thesis
    using assms(1,5-8) cp tail
    by (auto simp: linedeal_def testlock_def unlock_def rename1_def apart_def fun_eq_iff Let_def split: prod.splits)
qed

text \<open>
  When the line does not exist \<open>linedeal\<close> exits, and leaves the lock of the file behind: every
  later operation that takes this lock, by this or another program, waits for ever.
\<close>
theorem linedeal_exit_keeps_lock:
  assumes "fs filename = Some (unlines ls)" "\<forall>l \<in> set ls. short_line l" "length ls + 1 < n"
    and "apart filename ''/tmp/tmp''"
    and "fs (lock_path filename) = None" "fs (lock_path ''/tmp/tmp'') = None"
  shows "\<exists>fs'. linedeal filename content (int n) fs = Some (Exits, fs') \<and> testlock filename fs' = None"
proof -
  have "copy_lines (nat (int n - 1)) (unlines ls) [] = Inl (unlines ls)"
    using copy_lines_short [OF assms(2), of "nat (int n - 1)" "[]"] assms(3) by simp
  then show ?thesis
    using assms(1,4-6) by (auto simp: linedeal_def testlock_def unlock_def apart_def)
qed

section \<open>Witnesses\<close>

definition start_file :: string where
  "start_file = ''/etc/config/start''"

definition start_fs :: files where
  "start_fs = [start_file \<mapsto> unlines [''ifconfig'', ''route'', ''inetd'']]"

lemma start_short: "\<forall>l \<in> set [''ifconfig'', ''route'', ''inetd'']. short_line l"
  by (simp add: short_line_def)

lemma start_fs_simps [simp]:
  "start_fs start_file = Some (unlines [''ifconfig'', ''route'', ''inetd''])"
  "start_fs ''/tmp/tmp'' = None" "start_fs ''/tmp/tmplock'' = None" "start_fs ''/tmp/startlock'' = None"
  "start_fs ''/tmp/tmpfiledeal'' = None" "start_fs ''/tmp/tmpfiledeallock'' = None"
  by (simp_all add: start_fs_def start_file_def)

lemma start_locks [simp]:
  "lock_path start_file = ''/tmp/startlock''" "lock_path ''/tmp/tmp'' = ''/tmp/tmplock''"
  "lock_path ''/tmp/tmpfiledeal'' = ''/tmp/tmpfiledeallock''"
  by (simp_all add: lock_path_def start_file_def)

lemma start_apart: "apart start_file ''/tmp/tmp''" "apart start_file ''/tmp/tmpfiledeal''"
  by (simp_all add: apart_def) (simp_all add: start_file_def)

theorem filedeal_deletes_witness:
  "filedeal [] start_file ''route'' 0 start_fs = Some (start_fs(start_file \<mapsto> unlines [''ifconfig'', ''inetd'']))"
  using filedeal_deletes [OF _ start_short _ _ start_apart(2), of start_fs "[]" "[]" "''route''"]
  by (simp add: short_line_def)

theorem linedeal_replaces_witness:
  "linedeal start_file ''new'' 2 start_fs = Some (Returns, start_fs(start_file \<mapsto> unlines [''ifconfig'', ''new'', ''inetd'']))"
  using linedeal_replaces [OF _ start_short _ _ start_apart(1), of start_fs 2 "''new''"]
  by (simp add: numeral_2_eq_2)

theorem linedeal_exit_keeps_lock_witness:
  "\<exists>fs'. linedeal start_file ''new'' 9 start_fs = Some (Exits, fs') \<and> testlock start_file fs' = None"
  using linedeal_exit_keeps_lock [OF _ start_short _ start_apart(1), of start_fs 9 "''new''"]
  by simp

end
