(* ===== verification/Cgi_Pages.thy ===== *)
theory Cgi_Pages
  imports Cgi_Files
begin

text \<open>
  The configuration CGI itself (EXP2/app/cgi/config.c, cgihead.c): the dispatch on the form's flag
  and the pages that change the system: the network settings, the password, the clock, the MAC
  address and the recorder.  HTML output is left out; what a page does to the system is a list of
  effects.  The build defines HHTECH_CGI_CHINESE, so that branch of the source is modelled.

  A row that \<open>splitstring\<close> did not terminate is followed by what the stack holds up to the next null:
  the parameter \<open>junk\<close>.
\<close>

datatype effect = Truncate string string | Append string string | System string | Exec "string list"

text \<open>The query string is split at the ampersands, each piece at the equals sign.\<close>

definition row_str :: "string \<Rightarrow> row \<Rightarrow> string" where
  "row_str junk r = (case r of Str s \<Rightarrow> s | Open c \<Rightarrow> c @ junk)"

definition field_value :: "string \<Rightarrow> string \<Rightarrow> string" where
  "field_value junk s = row_str junk (stringout (splitstring s CHR ''='') ! 1)"

definition save :: effect where
  "save = System ''/bin/killall -10 flatfsd''"

section \<open>Dispatch\<close>

datatype page = Changerootpass | Show_changerootpass | Myreboot | Intoreboot | Reboot_system | Showsetip | Setip
  | Resetconf | Resetconf1 | Settimeshow | Settime | Showbohao | Bohao | Showsetmac | Setmac | Showminigui
  | Minigui | Showchump | Chump | Showbjdj | Startbjdj | Stopbjdj | Showrecorder | Recorder | Playrecorder
  | Showplaymtv | Playmtv | Dialin | Startdialinserver | Stopdialinserver | About | Saveconf | System_error

definition pages :: "(string \<times> page) list" where
  "pages =
    [(''8'', Changerootpass), (''7'', Show_changerootpass), (''20'', Myreboot), (''33'', Intoreboot),
     (''34'', Reboot_system), (''49'', Showsetip), (''48'', Setip), (''50'', Resetconf), (''51'', Resetconf1),
     (''52'', Settimeshow), (''53'', Settime), (''55'', Showbohao), (''56'', Bohao), (''58'', Showsetmac),
     (''59'', Setmac), (''61'', Showminigui), (''62'', Minigui), (''64'', Showchump), (''65'', Chump),
     (''67'', Showbjdj), (''68'', Startbjdj), (''69'', Stopbjdj), (''70'', Showrecorder), (''71'', Recorder),
     (''72'', Playrecorder), (''74'', Showplaymtv), (''75'', Playmtv), (''88'', Dialin),
     (''89'', Startdialinserver), (''90'', Stopdialinserver), (''150'', About), (''170'', Saveconf)]"

definition dispatch :: "string \<Rightarrow> page" where
  "dispatch flag = (case map_of pages flag of Some p \<Rightarrow> p | None \<Rightarrow> System_error)"

text \<open>Without a first piece the first row is used as \<open>splitstring\<close> left it.\<close>

definition config_main :: "string \<Rightarrow> string \<Rightarrow> page" where
  "config_main junk query =
     (let sp = splitstring query CHR ''&''; s = row_str junk (stringout sp ! 0)
      in dispatch (if 0 < count sp then field_value junk s else s))"

section \<open>Network settings\<close>

datatype checked = Refused | Fields "string list" bool bool

fun check_fields :: "string \<Rightarrow> nat \<Rightarrow> row list \<Rightarrow> nat list \<Rightarrow> bool \<Rightarrow> bool \<Rightarrow> string list \<Rightarrow> checked option" where
  "check_fields junk i [] ad bnogw bnodns vals = Some (Fields vals bnogw bnodns)"
| "check_fields junk i (r # rs) ad bnogw bnodns vals =
     (let v = field_value junk (row_str junk r) in
      case verifyip v ad of None \<Rightarrow> None
      | Some (j, ad') \<Rightarrow>
          if j = 0 then
            if i = 3 \<and> length v \<le> 1 then check_fields junk (i + 1) rs ad' True bnodns (vals @ [v])
            else if i = 4 \<and> length v \<le> 1 then check_fields junk (i + 1) rs ad' bnogw True (vals @ [v])
            else Some Refused
          else check_fields junk (i + 1) rs ad' bnogw bnodns (vals @ [v]))"

text \<open>Field \<open>i\<close> after the loop: the checked value, or the row as it was beyond the count.\<close>

definition field :: "string \<Rightarrow> splitback \<Rightarrow> string list \<Rightarrow> nat \<Rightarrow> string" where
  "field junk sp vals i = (if i < count sp then vals ! (i - 1) else row_str junk (stringout sp ! i))"

text \<open>\<open>None\<close>: a check wrote behind its array of four numbers.\<close>

definition setip :: "string \<Rightarrow> string \<Rightarrow> effect list option" where
  "setip junk query =
     (let sp = splitstring query CHR ''&'' in
      case check_fields junk 1 (drop 1 (take (count sp) (stringout sp))) [0, 0, 0, 0] False False [] of
        None \<Rightarrow> None
      | Some Refused \<Rightarrow> Some []
      | Some (Fields vals bnogw bnodns) \<Rightarrow>
        (let ip = field junk sp vals 1; nm = field junk sp vals 2; gw = field junk sp vals 3; dns = field junk sp vals 4
         in case isnetmask nm ip of None \<Rightarrow> None
            | Some m \<Rightarrow>
                if m = 0 then Some []
                else Some
                  ([Truncate ''/jffs2/etc/ipset'' (''#!/bin/sh'' @ [newline]),
                    Append ''/jffs2/etc/ipset'' ([newline] @ take 99 (''/sbin/ifconfig eth0 '' @ ip @ '' netmask '' @ nm) @ [newline])] @
                   (if bnogw then [] else [Append ''/jffs2/ipset'' (take 99 (''route add default gw '' @ gw) @ [newline])]) @
                   (if bnodns then [] else [Truncate ''/etc/config/resolv.conf'' (take 99 (''nameserver '' @ dns) @ [newline])]) @
                   [save])))"

section \<open>Password\<close>

datatype passwd_result = Quit | Wrong_old | Mismatch | Changed

fun decode_fields :: "string \<Rightarrow> row list \<Rightarrow> string list \<Rightarrow> string list option option" where
  "decode_fields junk [] vals = Some (Some vals)"
| "decode_fields junk (r # rs) vals =
     (case chinesedeal (field_value junk (row_str junk r)) of None \<Rightarrow> None
      | Some Forbidden \<Rightarrow> Some None
      | Some (Decoded d) \<Rightarrow>
          if d = [] then Some None else if length d > 10 then Some None else decode_fields junk rs (vals @ [d]))"

definition row_after :: "string \<Rightarrow> splitback \<Rightarrow> string list \<Rightarrow> nat \<Rightarrow> string" where
  "row_after junk sp vals i = (if i < count sp then vals ! i else row_str junk (stringout sp ! i))"

definition passwd_file :: string where
  "passwd_file = ''/etc/config/passwd''"

text \<open>\<open>crypt\<close> is the C library's; the stored line is the word passwd, a space and the hash.\<close>

definition stored_hash :: "string \<Rightarrow> string option" where
  "stored_hash text =
     (let (l, r, e) = take_line 99 text;
          line = takeWhile (\<lambda>c. c \<noteq> newline) l
      in if CHR '' '' \<in> set line then Some (drop 1 (dropWhile (\<lambda>c. c \<noteq> CHR '' '') line)) else None)"

definition changerootpass ::
    "string \<Rightarrow> (string \<Rightarrow> string \<Rightarrow> string) \<Rightarrow> string \<Rightarrow> files \<Rightarrow> (passwd_result \<times> files) option" where
  "changerootpass junk crypt query fs =
     (case Option.bind (fs passwd_file) stored_hash of None \<Rightarrow> None
      | Some pwd \<Rightarrow>
        let sp = splitstring (take 99 query) CHR ''&'' in
        (case decode_fields junk (take (count sp) (stringout sp)) [] of None \<Rightarrow> None
         | Some None \<Rightarrow> Some (Quit, fs)
         | Some (Some vals) \<Rightarrow>
           (let old = row_after junk sp vals 1; new = row_after junk sp vals 2; again = row_after junk sp vals 3
            in if crypt old pwd = pwd then
                 if new = again then
                   map_option (\<lambda>fs1. (Changed, unlock passwd_file
                       (fs1(passwd_file \<mapsto> ''passwd '' @ crypt new ''hh'' @ [newline]))))
                     (testlock passwd_file fs)
                 else Some (Mismatch, fs)
               else Some (Wrong_old, fs))))"

section \<open>Clock, MAC address, recorder\<close>

text \<open>The fields from 1 on, each cut to a width; row \<open>i\<close> keeps its text beyond the count.\<close>

definition cut_field :: "string \<Rightarrow> splitback \<Rightarrow> (nat \<Rightarrow> nat) \<Rightarrow> nat \<Rightarrow> string" where
  "cut_field junk sp width i =
     (let r = row_str junk (stringout sp ! i) in if i < count sp then take (width i) (field_value junk r) else r)"

definition settime :: "string \<Rightarrow> string \<Rightarrow> effect list" where
  "settime junk query =
     (let sp = splitstring query CHR ''&''; f = cut_field junk sp (\<lambda>i. if i = 1 then 4 else 2);
          year = f 1; month = f 2; day = f 3; hour = f 4; minute = f 5;
          arg = take 12 (month @ day @ hour @ minute @ year)
      in [Exec [''/bin/date''], Exec [''/bin/date'', arg], save, Exec [''/bin/date'', arg], Exec [''/bin/date'']])"

definition setmac :: "string \<Rightarrow> string \<Rightarrow> effect list" where
  "setmac junk query =
     (let sp = splitstring query CHR ''&''; f = cut_field junk sp (\<lambda>i. 2)
      in [Truncate ''/jffs2/etc/macset'' (''#!/bin/sh'' @ [newline]),
          Append ''/jffs2/etc/macset''
            ([newline] @ take 36 (''/cramfs/app/setmac '' @ f 1 @ '' '' @ f 2 @ '' '' @ f 3 @ '' '' @ f 4 @ '' '' @ f 5 @ '' '' @ f 6) @ [newline]),
          save, Exec [''/cramfs/app/macset'']])"

definition recorder :: "string \<Rightarrow> string \<Rightarrow> effect list" where
  "recorder junk query =
     (let sp = splitstring query CHR ''&''
      in [Exec [''/cramfs/app/recorder'', ''-n'', take 2 (cut_field junk sp (\<lambda>i. 2) 1), ''&''], save])"

section \<open>What the checks leave\<close>

definition dotted_quad :: "string \<Rightarrow> bool" where
  "dotted_quad s \<longleftrightarrow> (\<exists>a b c d. octet a \<and> octet b \<and> octet c \<and> octet d \<and> s = a @ ''.'' @ b @ ''.'' @ c @ ''.'' @ d)"

lemma verifyip_length: "verifyip ip ret = Some (j, r) \<Longrightarrow> length r = length ret"
proof -
  have "vip_loop cs tmp n j ret \<in> {Bad r} \<union> {Done n' j' r | n' j'. True} \<Longrightarrow> length r = length ret" for cs tmp n j r
    by (induction cs arbitrary: tmp n j ret) (fastforce split: if_splits)+
  then show "verifyip ip ret = Some (j, r) \<Longrightarrow> length r = length ret"
    by (fastforce simp: verifyip_def split: if_splits vip.splits)
qed

lemma verifyip_01: "verifyip ip ret = Some (j, r) \<Longrightarrow> j = 0 \<or> j = 1"
  by (auto simp: verifyip_def split: if_splits vip.splits)

lemma verifyip_dotted:
  assumes "verifyip ip ret = Some (j, r)" "j \<noteq> 0" "length ret = 4"
  shows "dotted_quad ip"
proof -
  obtain w x y z where "ret = [w, x, y, z]"
    using assms(3) by (auto simp: numeral_eq_Suc length_Suc_conv)
  moreover have "j = 1" using verifyip_01 [OF assms(1)] assms(2) by simp
  ultimately show ?thesis using verifyip_quad assms(1) unfolding dotted_quad_def by blast
qed

lemma isnetmask_dotted:
  assumes "isnetmask nm ip = Some m" "m \<noteq> 0"
  shows "dotted_quad ip \<and> dotted_quad nm"
proof -
  obtain r ad r' ad' where v: "verifyip ip [0, 0, 0, 0] = Some (r, ad)" "r \<noteq> 0"
      "verifyip nm ad = Some (r', ad')" "r' \<noteq> 0"
    using assms by (auto simp: isnetmask_def Let_def split: option.splits if_splits prod.splits)
  have "length ad = 4" using verifyip_length [OF v(1)] by simp
  then show ?thesis using verifyip_dotted [OF v(1,2)] verifyip_dotted [OF v(3,4)] by simp
qed

lemma dotted_quad_length: "dotted_quad s \<Longrightarrow> length s \<le> 15"
  by (auto simp: dotted_quad_def octet_def)

text \<open>With fewer than 200 characters every row is terminated, and the uncounted ones are empty.\<close>

lemma rows_of_nth:
  "k < 20 \<Longrightarrow> rows_of 0 (replicate 20 (Str [])) xs ! k = Str (if k < length xs then take 59 (xs ! k) else [])"
proof -
  assume k: "k < 20"
  have "rows_of 0 (replicate 20 (Str [])) xs = map (\<lambda>p. Str (take 59 p)) (take 20 xs) @ replicate (20 - length xs) (Str [])"
    by (simp only: rows_of_def drop_replicate) simp
  then show ?thesis using k by (cases "k < length xs") (simp_all add: nth_append)
qed

lemma splitstring_rows:
  assumes "length s < 200"
  shows "count (splitstring s item) = min 20 (length (pieces item s))"
    "k < 20 \<Longrightarrow> stringout (splitstring s item) ! k =
       Str (if k < length (pieces item s) then take 59 (pieces item s ! k) else [])"
proof -
  obtain p ps where p: "pieces item s = p # ps" by (cases "pieces item s") auto
  have r: "split_loop 200 s item 0 [] (replicate 20 (Str [])) =
      (min 20 (length (p # ps)), rows_of 0 (replicate 20 (Str [])) (p # ps))"
    using split_loop_pieces [OF assms, of 0 "replicate 20 (Str [])" "[]" item p ps] p by simp
  show "count (splitstring s item) = min 20 (length (pieces item s))"
    by (simp add: splitstring_def r p)
  assume k: "k < 20"
  then show "stringout (splitstring s item) ! k = Str (if k < length (pieces item s) then take 59 (pieces item s ! k) else [])"
    using rows_of_nth [OF k, of "p # ps"] by (simp add: splitstring_def r p)
qed

lemma splitstring_rest:
  assumes "count (splitstring s item) \<le> k" "k < 20" "length s < 200"
  shows "row_str junk (stringout (splitstring s item) ! k) = []"
proof -
  have "\<not> k < length (pieces item s)" using splitstring_rows(1) [OF assms(3), of item] assms(1,2) by linarith
  then show ?thesis using splitstring_rows(2) [OF assms(3,2)] by (simp add: row_str_def)
qed

lemma split_loop_length: "split_loop i content item n cur rows = (n', rows') \<Longrightarrow> length rows' = length rows"
  by (induction i content item n cur rows rule: split_loop.induct) (auto split: if_splits)

lemma splitstring_length [simp]: "length (stringout (splitstring s item)) = 20"
proof -
  obtain n rows where r: "split_loop 200 s item 0 [] (replicate 20 (Str [])) = (n, rows)" by fastforce
  then show ?thesis using split_loop_length [OF r] by (simp add: splitstring_def)
qed

definition fields_ok :: "string list \<Rightarrow> bool \<Rightarrow> bool \<Rightarrow> bool" where
  "fields_ok vals g d \<longleftrightarrow> (\<forall>k < length vals. dotted_quad (vals ! k) \<or> (k = 2 \<and> g) \<or> (k = 3 \<and> d))"

lemma fields_ok_snoc:
  "fields_ok vals g d \<Longrightarrow> dotted_quad v \<or> length vals = 2 \<and> g' \<or> length vals = 3 \<and> d' \<Longrightarrow>
     (g \<longrightarrow> g') \<Longrightarrow> (d \<longrightarrow> d') \<Longrightarrow> fields_ok (vals @ [v]) g' d'"
  by (auto simp: fields_ok_def nth_append less_Suc_eq)

lemma check_fields_ok:
  assumes "check_fields junk i rs ad g d vals = Some (Fields vals' g' d')"
    and "length ad = 4" "i = length vals + 1" "fields_ok vals g d"
  shows "fields_ok vals' g' d' \<and> length vals' = length vals + length rs"
  using assms
proof (induction rs arbitrary: i ad g d vals)
  case (Cons r rs)
  define v where "v = field_value junk (row_str junk r)"
  obtain j ad' where v: "verifyip v ad = Some (j, ad')"
    using Cons.prems(1) by (auto simp: Let_def v_def split: option.splits)
  have ad': "length ad' = 4" using verifyip_length [OF v] Cons.prems(2) by simp
  have next_field: "fields_ok vals' g' d' \<and> length vals' = length vals + length (r # rs)"
    if "check_fields junk (i + 1) rs ad' g1 d1 (vals @ [v]) = Some (Fields vals' g' d')"
      "fields_ok (vals @ [v]) g1 d1" for g1 d1
    using Cons.IH [OF that(1) ad' _ that(2)] Cons.prems(3) by simp
  have st: "(if j = 0 then
            if i = 3 \<and> length v \<le> 1 then check_fields junk (i + 1) rs ad' True d (vals @ [v])
            else if i = 4 \<and> length v \<le> 1 then check_fields junk (i + 1) rs ad' g True (vals @ [v])
            else Some Refused
          else check_fields junk (i + 1) rs ad' g d (vals @ [v])) = Some (Fields vals' g' d')"
    using Cons.prems(1) unfolding check_fields.simps Let_def v_def [symmetric] v option.case prod.case .
  show ?case
  proof (cases "j = 0")
    case True
    with st consider "i = 3" "length v \<le> 1" | "i \<noteq> 3" "i = 4" "length v \<le> 1"
      by (auto split: if_splits)
    then show ?thesis
    proof cases
      case 1
      have "fields_ok (vals @ [v]) True d"
        by (rule fields_ok_snoc [OF Cons.prems(4)]) (use 1 Cons.prems(3) in auto)
      then show ?thesis using st True 1 by (intro next_field) simp_all
    next
      case 2
      have "fields_ok (vals @ [v]) g True"
        by (rule fields_ok_snoc [OF Cons.prems(4)]) (use 2 Cons.prems(3) in auto)
      then show ?thesis using st True 2 by (intro next_field) simp_all
    qed
  next
    case False
    have "dotted_quad v" using verifyip_dotted [OF v False] Cons.prems by simp
    then have "fields_ok (vals @ [v]) g d" by (intro fields_ok_snoc [OF Cons.prems(4)]) simp_all
    then show ?thesis using st False by (intro next_field) simp_all
  qed
qed simp

section \<open>Properties\<close>

text \<open>
  C13: For a query of fewer than 200 characters nothing unchecked reaches the scripts: when the network settings page
  changes anything, the address and the mask it writes are dotted quads that \<open>isnetmask\<close> accepted,
  and a gateway or name server it writes is a dotted quad or was not given at all.  (A longer query can
  leave a row that no check has seen; and an address of more than four numbers makes the check write behind
  its array, which the model does not go beyond.)
\<close>
theorem setip_writes_checked:
  assumes "setip junk query = Some effs" "effs \<noteq> []" and short: "length query < 200"
  shows "\<exists>ip nm gw dns bnogw bnodns. dotted_quad ip \<and> dotted_quad nm \<and> isnetmask nm ip \<noteq> Some 0 \<and>
    (bnogw \<or> dotted_quad gw \<or> gw = []) \<and> (bnodns \<or> dotted_quad dns \<or> dns = []) \<and>
    effs = [Truncate ''/jffs2/etc/ipset'' (''#!/bin/sh'' @ [newline]),
        Append ''/jffs2/etc/ipset'' ([newline] @ ''/sbin/ifconfig eth0 '' @ ip @ '' netmask '' @ nm @ [newline])] @
      (if bnogw then [] else [Append ''/jffs2/ipset'' (''route add default gw '' @ gw @ [newline])]) @
      (if bnodns then [] else [Truncate ''/etc/config/resolv.conf'' (''nameserver '' @ dns @ [newline])]) @
      [save]"
proof -
  define sp where "sp = splitstring query CHR ''&''"
  define rows where "rows = drop 1 (take (count sp) (stringout sp))"
  obtain vals g d where c: "check_fields junk 1 rows [0, 0, 0, 0] False False [] = Some (Fields vals g d)"
    using assms(1,2) by (auto simp: setip_def Let_def sp_def rows_def split: option.splits checked.splits)
  define ip nm gw dns where f: "ip = field junk sp vals 1" "nm = field junk sp vals 2"
    "gw = field junk sp vals 3" "dns = field junk sp vals 4"
  obtain m where m: "isnetmask nm ip = Some m" "m \<noteq> 0"
    and effs: "effs = [Truncate ''/jffs2/etc/ipset'' (''#!/bin/sh'' @ [newline]),
        Append ''/jffs2/etc/ipset'' ([newline] @ take 99 (''/sbin/ifconfig eth0 '' @ ip @ '' netmask '' @ nm) @ [newline])] @
       (if g then [] else [Append ''/jffs2/ipset'' (take 99 (''route add default gw '' @ gw) @ [newline])]) @
       (if d then [] else [Truncate ''/etc/config/resolv.conf'' (take 99 (''nameserver '' @ dns) @ [newline])]) @
       [save]"
    using assms(1,2) c [unfolded rows_def sp_def]
    by (auto simp: setip_def Let_def f sp_def split: option.splits if_splits)
  have ok: "fields_ok vals g d" "length vals = length rows"
    using check_fields_ok [OF c] by (simp_all add: fields_ok_def)
  have q: "dotted_quad ip" "dotted_quad nm" using isnetmask_dotted [OF m] by simp_all
  have late: "field junk sp vals i = []" if "count sp \<le> i" "i < 20" for i
    using that splitstring_rest [OF _ _ short, of "CHR ''&''" i junk] by (simp add: field_def sp_def)
  have early: "dotted_quad (field junk sp vals i) \<or> (i = 3 \<and> g) \<or> (i = 4 \<and> d)" if "i < count sp" "1 \<le> i" "i < 20" for i
  proof -
    have "field junk sp vals i = vals ! (i - 1)" using that(1) by (simp add: field_def)
    moreover have "i - 1 < length vals" using that by (simp add: ok(2) rows_def sp_def)
    ultimately show ?thesis using ok(1) that(2) unfolding fields_ok_def by fastforce
  qed
  have gw: "g \<or> dotted_quad gw \<or> gw = []" using late [of 3] early [of 3] f(3) by fastforce
  have dns: "d \<or> dotted_quad dns \<or> dns = []" using late [of 4] early [of 4] f(4) by fastforce
  have fit: "take 99 (''/sbin/ifconfig eth0 '' @ ip @ '' netmask '' @ nm) = ''/sbin/ifconfig eth0 '' @ ip @ '' netmask '' @ nm"
    using dotted_quad_length [OF q(1)] dotted_quad_length [OF q(2)] by simp
  have fit2: "take 99 (''route add default gw '' @ s) = ''route add default gw '' @ s"
       "take 99 (''nameserver '' @ s) = ''nameserver '' @ s" if "dotted_quad s \<or> s = []" for s
    using that dotted_quad_length [of s] by auto
  have "effs = [Truncate ''/jffs2/etc/ipset'' (''#!/bin/sh'' @ [newline]),
        Append ''/jffs2/etc/ipset'' ([newline] @ ''/sbin/ifconfig eth0 '' @ ip @ '' netmask '' @ nm @ [newline])] @
      (if g then [] else [Append ''/jffs2/ipset'' (''route add default gw '' @ gw @ [newline])]) @
      (if d then [] else [Truncate ''/etc/config/resolv.conf'' (''nameserver '' @ dns @ [newline])]) @
      [save]"
    unfolding effs fit using fit2(1) [of gw] fit2(2) [of dns] gw dns by (cases g; cases d) auto
  moreover have "isnetmask nm ip \<noteq> Some 0" using m by simp
  ultimately show ?thesis using q gw dns by blast
qed

text \<open>A query with address, mask, gateway and name server.\<close>

theorem setip_writes_checked_witness:
  "setip [] ''flag=48&ip=192.168.2.1&mask=255.255.255.0&gw=192.168.2.9&dns=1.2.3.4'' \<noteq> None \<and>
   (\<exists>ip nm. dotted_quad ip \<and> dotted_quad nm \<and>
     Append ''/jffs2/etc/ipset'' ([newline] @ ''/sbin/ifconfig eth0 '' @ ip @ '' netmask '' @ nm @ [newline]) \<in>
       set (the (setip [] ''flag=48&ip=192.168.2.1&mask=255.255.255.0&gw=192.168.2.9&dns=1.2.3.4'')))"
proof -
  let ?q = "''flag=48&ip=192.168.2.1&mask=255.255.255.0&gw=192.168.2.9&dns=1.2.3.4''"
  have "case setip [] ?q of Some (e # es) \<Rightarrow> True | _ \<Rightarrow> False" by code_simp
  then obtain effs where e: "setip [] ?q = Some effs" "effs \<noteq> []"
    by (cases "setip [] ?q") (auto split: list.splits)
  have "length ?q < 200" by simp
  from setip_writes_checked [OF e this] obtain ip nm es where
    "dotted_quad ip" "dotted_quad nm"
    "effs = [Truncate ''/jffs2/etc/ipset'' (''#!/bin/sh'' @ [newline]),
        Append ''/jffs2/etc/ipset'' ([newline] @ ''/sbin/ifconfig eth0 '' @ ip @ '' netmask '' @ nm @ [newline])] @ es"
    by blast
  with e show ?thesis by auto
qed

text \<open>A third field that reaches the 200th character is written as the gateway, unchecked.\<close>

lemma setip_long_query_unchecked:
  "setip [] (''flag=48&ip=192.168.2.1&mask=255.255.255.0&gw=reboot;'' @ replicate 200 CHR ''x'') =
   Some [Truncate ''/jffs2/etc/ipset'' (''#!/bin/sh'' @ [newline]),
     Append ''/jffs2/etc/ipset'' ([newline] @ ''/sbin/ifconfig eth0 192.168.2.1 netmask 255.255.255.0'' @ [newline]),
     Append ''/jffs2/ipset'' (''route add default gw gw=reboot;'' @ replicate 49 CHR ''x'' @ [newline]),
     Truncate ''/etc/config/resolv.conf'' (''nameserver '' @ [newline]), save]"
  by code_simp

lemma decode_fields_nth:
  "decode_fields junk rs vals = Some (Some vals') \<Longrightarrow> \<forall>v \<in> set vals. length v \<le> 10 \<Longrightarrow>
     (\<forall>v \<in> set vals'. length v \<le> 10) \<and> length vals' = length vals + length rs \<and> take (length vals) vals' = vals \<and>
     (\<forall>k < length rs. chinesedeal (field_value junk (row_str junk (rs ! k))) = Some (Decoded (vals' ! (length vals + k))))"
proof (induction rs arbitrary: vals)
  case (Cons r rs)
  obtain d where d: "chinesedeal (field_value junk (row_str junk r)) = Some (Decoded d)" "length d \<le> 10"
    and rest: "decode_fields junk rs (vals @ [d]) = Some (Some vals')"
    using Cons.prems(1) by (auto split: option.splits decoded.splits if_splits)
  have IH: "\<forall>v \<in> set vals'. length v \<le> 10" "length vals' = length (vals @ [d]) + length rs"
    "take (length (vals @ [d])) vals' = vals @ [d]"
    "\<forall>k < length rs. chinesedeal (field_value junk (row_str junk (rs ! k))) = Some (Decoded (vals' ! (length (vals @ [d]) + k)))"
    using Cons.IH [OF rest] Cons.prems(2) d(2) by auto
  have "vals' ! length vals = d"
    using arg_cong [where f = "\<lambda>xs. xs ! length vals", OF IH(3)] by simp
  moreover have "take (length vals) vals' = vals"
    using arg_cong [where f = "take (length vals)", OF IH(3)] by (simp add: min_def)
  ultimately show ?case using IH d(1) by (auto simp: nth_Cons split: nat.splits)
qed simp

text \<open>
  The field with number \<open>i\<close> of a query, as the form sends it: the decoded text behind the equals sign of the \<open>i\<close>-th
  piece between the ampersands (of which 59 characters are looked at), and nothing when there is no such piece.
\<close>

definition sent_value :: "string \<Rightarrow> string" where
  "sent_value piece = (case pieces CHR ''='' piece of _ # v # _ \<Rightarrow> v | _ \<Rightarrow> [])"

definition sent_field :: "string \<Rightarrow> nat \<Rightarrow> decoded option" where
  "sent_field query i =
     (let ps = pieces CHR ''&'' query
      in if i < length ps then chinesedeal (sent_value (take 59 (ps ! i))) else Some (Decoded []))"

lemma length_piece: "p \<in> set (pieces item s) \<Longrightarrow> length p \<le> length s"
  by (induction item s arbitrary: p rule: pieces.induct) (fastforce split: list.splits if_splits)+

lemma field_value_sent:
  assumes "length p \<le> 59"
  shows "field_value junk p = sent_value p"
proof -
  have s: "length p < 200" using assms by simp
  have "length v \<le> 59" if "v \<in> set (pieces CHR ''='' p)" for v
    using length_piece [OF that] assms by simp
  then show ?thesis
    using splitstring_rows(2) [OF s, of 1 "CHR ''=''"]
    by (auto simp: field_value_def row_str_def sent_value_def split: list.splits)
qed

lemma password_fields:
  assumes v: "decode_fields junk (take (count sp) (stringout sp)) [] = Some (Some vals)"
    and sp: "sp = splitstring query CHR ''&''" and q: "length query < 200" and i: "i < 20"
  shows "sent_field query i = Some (Decoded (row_after junk sp vals i)) \<and> length (row_after junk sp vals i) \<le> 10"
proof -
  note R = splitstring_rows [OF q, where item = "CHR ''&''", folded sp]
  have D: "\<forall>v \<in> set vals. length v \<le> 10" "length vals = min 20 (length (pieces CHR ''&'' query))"
    "\<forall>k < min 20 (length (pieces CHR ''&'' query)).
       chinesedeal (field_value junk (row_str junk (stringout sp ! k))) = Some (Decoded (vals ! k))"
    using decode_fields_nth [OF v] R(1) splitstring_length [of query "CHR ''&''", folded sp] by auto
  show ?thesis
  proof (cases "i < length (pieces CHR ''&'' query)")
    case True
    let ?p = "take 59 (pieces CHR ''&'' query ! i)"
    have "stringout sp ! i = Str ?p" using R(2) [OF i] True by simp
    then have "chinesedeal (field_value junk ?p) = Some (Decoded (vals ! i))"
      using D(3) True i by (metis min_less_iff_conj row.simps(5) row_str_def)
    then have "sent_field query i = Some (Decoded (vals ! i))"
      using True field_value_sent [of ?p junk] by (simp add: sent_field_def Let_def)
    moreover have "row_after junk sp vals i = vals ! i" "i < length vals"
      using True i R(1) D(2) by (simp_all add: row_after_def)
    ultimately show ?thesis using D(1) by simp
  next
    case False
    then have "row_after junk sp vals i = []"
      using R(1) R(2) [OF i] by (simp add: row_after_def row_str_def)
    then show ?thesis using False by (simp add: sent_field_def Let_def)
  qed
qed

text \<open>
  C19: The password page changes the stored password only for someone who knows it: when the files
  change at all, the decoded first field of the query (of which 99 characters are looked at) hashes to the stored
  hash, the decoded second and third fields are the same text of at most ten characters, only the password file
  changed, and it holds the hash of that text.
\<close>
theorem password_needs_old:
  assumes "changerootpass junk crypt query fs = Some (r, fs')" "fs' \<noteq> fs"
  shows "\<exists>stored pwd old new. fs passwd_file = Some stored \<and> stored_hash stored = Some pwd \<and>
    sent_field (take 99 query) 1 = Some (Decoded old) \<and> crypt old pwd = pwd \<and>
    sent_field (take 99 query) 2 = Some (Decoded new) \<and> sent_field (take 99 query) 3 = Some (Decoded new) \<and>
    length new \<le> 10 \<and> r = Changed \<and> fs' = fs(passwd_file \<mapsto> ''passwd '' @ crypt new ''hh'' @ [newline])"
proof -
  obtain stored pwd where p: "fs passwd_file = Some stored" "stored_hash stored = Some pwd"
    using assms(1) by (auto simp: changerootpass_def bind_eq_Some_conv split: option.splits)
  define sp where "sp = splitstring (take 99 query) CHR ''&''"
  obtain vals where v: "decode_fields junk (take (count sp) (stringout sp)) [] = Some (Some vals)"
    using assms p by (auto simp: changerootpass_def Let_def sp_def split: option.splits)
  define old new where n: "old = row_after junk sp vals 1" "new = row_after junk sp vals 2"
  have c: "row_after junk sp vals 3 = new" "crypt old pwd = pwd" "r = Changed"
    and fs': "map_option (\<lambda>fs1. (Changed, unlock passwd_file
                (fs1(passwd_file \<mapsto> ''passwd '' @ crypt new ''hh'' @ [newline])))) (testlock passwd_file fs) = Some (r, fs')"
    using assms p v [unfolded sp_def] by (auto simp: changerootpass_def Let_def n sp_def split: option.splits if_splits)
  have "lock_path passwd_file \<noteq> passwd_file" by (simp add: lock_path_def passwd_file_def)
  then have "fs' = fs(passwd_file \<mapsto> ''passwd '' @ crypt new ''hh'' @ [newline])"
  proof -
    assume apart: "lock_path passwd_file \<noteq> passwd_file"
    have free: "fs (lock_path passwd_file) = None" and eq: "fs' = (fs(lock_path passwd_file \<mapsto> [],
        passwd_file \<mapsto> ''passwd '' @ crypt new ''hh'' @ [newline]))(lock_path passwd_file := None)"
      using fs' by (auto simp: testlock_def unlock_def split: if_splits)
    show ?thesis unfolding eq by (rule ext) (use free apart in auto)
  qed
  moreover have q: "length (take 99 query) < 200" by simp
  note F = password_fields [OF v sp_def q]
  have "sent_field (take 99 query) 1 = Some (Decoded old)" "sent_field (take 99 query) 2 = Some (Decoded new)"
    "sent_field (take 99 query) 3 = Some (Decoded new)" "length new \<le> 10"
    using F [of 1] F [of 2] F [of 3] by (simp_all add: n c(1))
  ultimately show ?thesis using p c(2,3) by blast
qed

text \<open>A hash that appends the salt, and a stored password root.\<close>

theorem password_needs_old_witness:
  "sent_field (take 99 ''flag=8&oldpass=root&nopass=new&repass=new'') 1 = Some (Decoded ''root'') \<and>
   map_option (\<lambda>(r, fs'). (r, fs' passwd_file)) (changerootpass [] (\<lambda>p s. p @ ''hh'')
       ''flag=8&oldpass=root&nopass=new&repass=new'' [passwd_file \<mapsto> ''passwd roothh''])
     = Some (Changed, Some (''passwd newhh'' @ [newline]))"
proof -
  let ?fs = "[passwd_file \<mapsto> ''passwd roothh'']" and ?q = "''flag=8&oldpass=root&nopass=new&repass=new''"
  have v: "case changerootpass [] (\<lambda>p s. p @ ''hh'') ?q ?fs of Some (r, fs') \<Rightarrow> fs' passwd_file = Some (''passwd newhh'' @ [newline]) | None \<Rightarrow> False"
    by code_simp
  then obtain r fs' where c: "changerootpass [] (\<lambda>p s. p @ ''hh'') ?q ?fs = Some (r, fs')"
      "fs' passwd_file = Some (''passwd newhh'' @ [newline])"
    by (auto split: option.splits)
  have "fs' \<noteq> ?fs" using c(2) by auto
  from password_needs_old [OF c(1) this] obtain pwd old where
    n: "stored_hash ''passwd roothh'' = Some pwd" "sent_field (take 99 ?q) 1 = Some (Decoded old)"
      "old @ ''hh'' = pwd" "r = Changed" by auto
  have "stored_hash ''passwd roothh'' = Some ''roothh''" by code_simp
  then have "old = ''root''" using n(1,3) by simp
  then show ?thesis using n(2,4) c by simp
qed

end
