(* ===== verification/Audio_Ring.thy ===== *)
theory Audio_Ring
  imports Lab_Prelude "HOL-Library.Sublist"
begin

text \<open>
  The DMA buffer ring of the sound driver, \<open>EXP25/driver/2410audio.c\<close>: fragments of one stream,
  their allocation, the write path, the drain of \<open>audio_sync\<close> and the completion callback.

  The ring is shared between a process in the driver and the DMA interrupt.  Every semaphore
  operation that may sleep takes the next element of a \<^emph>\<open>schedule\<close>: the completion callbacks that
  run before the semaphore is decided.  When the semaphore is still taken after them, a signal has
  ended the sleep (or, with \<open>O_NONBLOCK\<close>, there was none).  A call that needs more elements than the
  schedule has is still asleep: \<open>None\<close>.  A use of buffers that are not there is \<open>None\<close> too.
\<close>

section \<open>State\<close>

record audio_buf =
  b_size :: int
  b_start :: nat
  b_dma_addr :: nat
  b_sem :: int
  b_master :: int

text \<open>
  What the driver asks of the kernel's allocator and DMA service, and what the DMA did: a finished
  fragment with the bytes that went out.
\<close>

datatype kev =
    Kalloc int nat nat | Kfree int nat nat
  | Dqueue nat nat int | Dflush | Ddone nat "u8 list"

record audio_stream =
  buffers :: "audio_buf list option"
  buf_idx :: nat
  fragsize :: nat
  nbfrags :: nat
  audio_fragsize :: nat
  audio_nbfrags :: nat
  audio_channels :: int
  ram :: "nat \<Rightarrow> u8"
  khist :: "kev list"

text \<open>
  User memory (contents, the addresses where an access faults, the ranges \<open>verify_area\<close> lets pass,
  and the byte a faulting \<open>__get_user\<close> leaves in its variable), the address translation, the allocators.
\<close>

record kernel =
  umem :: "nat \<Rightarrow> u8"
  ubad :: "nat \<Rightarrow> bool"
  uarea :: "nat \<Rightarrow> nat \<Rightarrow> bool"
  ujunk :: "nat \<Rightarrow> u8"
  mmu :: "nat \<Rightarrow> nat"
  consistent_alloc :: "kev list \<Rightarrow> int \<Rightarrow> (nat \<times> nat) option"
  kmalloc_ok :: "kev list \<Rightarrow> bool"

definition log_k :: "kev \<Rightarrow> ('a) audio_stream_scheme \<Rightarrow> 'a audio_stream_scheme" where
  "log_k e s = s\<lparr>khist := khist s @ [e]\<rparr>"

definition buf_at :: "nat \<Rightarrow> 'a audio_stream_scheme \<Rightarrow> audio_buf option" where
  "buf_at i s = (case buffers s of None \<Rightarrow> None | Some bs \<Rightarrow> if i < length bs then Some (bs ! i) else None)"

definition upd_buf :: "nat \<Rightarrow> (audio_buf \<Rightarrow> audio_buf) \<Rightarrow> 'a audio_stream_scheme \<Rightarrow> 'a audio_stream_scheme" where
  "upd_buf i f s = s\<lparr>buffers := map_option (\<lambda>bs. bs[i := f (bs ! i)]) (buffers s)\<rparr>"

definition NEXT_BUF :: "'a audio_stream_scheme \<Rightarrow> 'a audio_stream_scheme" where
  "NEXT_BUF s = s\<lparr>buf_idx := (buf_idx s + 1) mod nbfrags s\<rparr>"

section \<open>Allocation\<close>

fun free_masters :: "audio_buf list \<Rightarrow> 'a audio_stream_scheme \<Rightarrow> 'a audio_stream_scheme" where
  "free_masters [] s = s"
| "free_masters (b # bs) s =
     (if b_master b = 0 then free_masters bs s
      else free_masters bs (log_k (Kfree (b_master b) (b_start b) (b_dma_addr b)) s))"

definition audio_clear_buf :: "'a audio_stream_scheme \<Rightarrow> 'a audio_stream_scheme" where
  "audio_clear_buf s =
     (let s = log_k Dflush s;
          s = (case buffers s of None \<Rightarrow> s
               | Some bs \<Rightarrow> (free_masters (take (nbfrags s) bs) s)\<lparr>buffers := None\<rparr>)
      in s\<lparr>buf_idx := 0\<rparr>)"

text \<open>
  The inner loop asks for \<open>m\<close> fragments at once, then for one less, and gives up at none.  The
  result is \<open>(dmasize, dmabuf, dmaphys)\<close>.
\<close>

fun alloc_down :: "kernel \<Rightarrow> kev list \<Rightarrow> nat \<Rightarrow> nat \<Rightarrow> (int \<times> nat \<times> nat) option" where
  "alloc_down K h fs 0 = None"
| "alloc_down K h fs (Suc m) =
     (case consistent_alloc K h (int (Suc m * fs)) of
        Some (v, p) \<Rightarrow> Some (int (Suc m * fs), v, p)
      | None \<Rightarrow> alloc_down K h fs m)"

definition zero_buf :: audio_buf where
  "zero_buf = \<lparr>b_size = 0, b_start = 0, b_dma_addr = 0, b_sem = 0, b_master = 0\<rparr>"

text \<open>The loop over the fragments: \<open>n\<close> are left from \<open>frag\<close> on; \<open>False\<close> is the jump to \<open>err\<close>.\<close>

fun setup_frags :: "kernel \<Rightarrow> nat \<Rightarrow> nat \<Rightarrow> int \<Rightarrow> nat \<Rightarrow> nat \<Rightarrow> 'a audio_stream_scheme
    \<Rightarrow> bool \<times> 'a audio_stream_scheme" where
  "setup_frags K 0 frag dmasize dmabuf dmaphys s = (True, s)"
| "setup_frags K (Suc n) frag dmasize dmabuf dmaphys s =
     (let fs = fragsize s;
          init = (\<lambda>v p b. b\<lparr>b_start := v, b_dma_addr := p, b_sem := 1\<rparr>)
      in if dmasize = 0 then
           (case alloc_down K (khist s) fs (Suc n) of
              None \<Rightarrow> (False, s)
            | Some (sz, v, p) \<Rightarrow>
                setup_frags K n (Suc frag) (sz - int fs) (v + fs) (p + fs)
                  (upd_buf frag (\<lambda>b. init v p (b\<lparr>b_master := sz\<rparr>)) (log_k (Kalloc sz v p) s)))
         else setup_frags K n (Suc frag) (dmasize - int fs) (dmabuf + fs) (dmaphys + fs)
                (upd_buf frag (init dmabuf dmaphys) s))"

definition audio_setup_buf :: "kernel \<Rightarrow> 'a audio_stream_scheme \<Rightarrow> int \<times> 'a audio_stream_scheme" where
  "audio_setup_buf K s =
     (if buffers s \<noteq> None then (-16, s)
      else let s = s\<lparr>nbfrags := audio_nbfrags s, fragsize := audio_fragsize s\<rparr>
           in if \<not> kmalloc_ok K (khist s) then (-12, audio_clear_buf s)
              else let s = s\<lparr>buffers := Some (replicate (nbfrags s) zero_buf)\<rparr>;
                       (ok, s) = setup_frags K (nbfrags s) 0 0 0 0 s
                   in if ok then (0, s\<lparr>buf_idx := 0\<rparr>) else (-12, audio_clear_buf s))"

section \<open>DMA and semaphores\<close>

text \<open>The queued fragments that are not finished yet, oldest first.\<close>

fun pend :: "(nat \<times> nat \<times> int) list \<Rightarrow> kev list \<Rightarrow> (nat \<times> nat \<times> int) list" where
  "pend q [] = q"
| "pend q (Dqueue i a n # h) = pend (q @ [(i, a, n)]) h"
| "pend q (Dflush # h) = pend [] h"
| "pend q (Ddone i d # h) = pend (tl q) h"
| "pend q (_ # h) = pend q h"

abbreviation pending :: "kev list \<Rightarrow> (nat \<times> nat \<times> int) list" where
  "pending \<equiv> pend []"

text \<open>The DMA service finishes fragments in the order they were queued, and only those.\<close>

fun fifo_from :: "(nat \<times> nat \<times> int) list \<Rightarrow> kev list \<Rightarrow> bool" where
  "fifo_from q [] = True"
| "fifo_from q (Dqueue i a n # h) = fifo_from (q @ [(i, a, n)]) h"
| "fifo_from q (Dflush # h) = fifo_from [] h"
| "fifo_from q (Ddone i d # h) = (q \<noteq> [] \<and> fst (hd q) = i \<and> fifo_from (tl q) h)"
| "fifo_from q (_ # h) = fifo_from q h"

abbreviation dma_fifo :: "kev list \<Rightarrow> bool" where
  "dma_fifo \<equiv> fifo_from []"

definition peek :: "'a audio_stream_scheme \<Rightarrow> nat \<Rightarrow> nat \<Rightarrow> u8 list" where
  "peek s a n = map (ram s) [a..<a + n]"

definition up_sem :: "nat \<Rightarrow> 'a audio_stream_scheme \<Rightarrow> 'a audio_stream_scheme" where
  "up_sem i = upd_buf i (\<lambda>b. b\<lparr>b_sem := b_sem b + 1\<rparr>)"

definition audio_dmaout_done_callback :: "nat \<Rightarrow> 'a audio_stream_scheme \<Rightarrow> 'a audio_stream_scheme" where
  "audio_dmaout_done_callback i s = up_sem i s"

text \<open>The DMA finishes fragment \<open>i\<close>: its bytes have gone out, and the callback runs.\<close>

definition dma_out_irq :: "nat \<Rightarrow> 'a audio_stream_scheme \<Rightarrow> 'a audio_stream_scheme" where
  "dma_out_irq i s =
     (let d = (case pending (khist s) of [] \<Rightarrow> [] | (f, a, n) # q \<Rightarrow> peek s a (nat n))
      in audio_dmaout_done_callback i (log_k (Ddone i d) s))"

text \<open>\<open>down_trylock\<close> and \<open>down_interruptible\<close> after the callbacks \<open>ds\<close>; \<open>True\<close>: taken.\<close>

definition down_sem :: "nat list \<Rightarrow> nat \<Rightarrow> 'a audio_stream_scheme \<Rightarrow> (bool \<times> 'a audio_stream_scheme) option" where
  "down_sem ds i s =
     (let s = fold dma_out_irq ds s in
      case buf_at i s of None \<Rightarrow> None
      | Some b \<Rightarrow> if 0 < b_sem b then Some (True, upd_buf i (\<lambda>b. b\<lparr>b_sem := b_sem b - 1\<rparr>) s)
                  else Some (False, s))"

text \<open>\<open>down\<close> goes on sleeping until it has the semaphore.\<close>

fun down_un :: "nat list list \<Rightarrow> nat \<Rightarrow> 'a audio_stream_scheme \<Rightarrow> (nat list list \<times> 'a audio_stream_scheme) option" where
  "down_un [] i s = None"
| "down_un (ds # sched) i s =
     (case down_sem ds i s of None \<Rightarrow> None
      | Some (got, s) \<Rightarrow> if got then Some (sched, s) else down_un sched i s)"

section \<open>Writing\<close>

fun poke :: "kernel \<Rightarrow> nat \<Rightarrow> u8 list \<Rightarrow> 'a audio_stream_scheme \<Rightarrow> 'a audio_stream_scheme" where
  "poke K a [] s = s"
| "poke K a (b # bs) s = poke K (Suc a) bs (s\<lparr>ram := (ram s)(mmu K a := b)\<rparr>)"

text \<open>\<open>copy_from_user\<close> copies up to the first faulting address; \<open>True\<close>: all of it.\<close>

definition copy_from_user :: "kernel \<Rightarrow> nat \<Rightarrow> nat \<Rightarrow> nat \<Rightarrow> 'a audio_stream_scheme \<Rightarrow> bool \<times> 'a audio_stream_scheme" where
  "copy_from_user K dst src n s =
     (let good = takeWhile (\<lambda>a. \<not> ubad K a) [src..<src + n]
      in (length good = n, poke K dst (map (umem K) good) s))"

text \<open>
  \<open>__get_user\<close> of \<open>n\<close> bytes at \<open>a\<close>: a fault anywhere in them spoils the whole access, and the code
  does not look at the result.
\<close>

definition get_user :: "kernel \<Rightarrow> nat \<Rightarrow> nat \<Rightarrow> nat \<Rightarrow> u8" where
  "get_user K a n = (if \<exists>x \<in> set [a..<a + n]. ubad K x then ujunk K else umem K)"

definition pair :: "(nat \<Rightarrow> u8) \<Rightarrow> nat \<Rightarrow> u32" where
  "pair m a = ucast (m a) OR push_bit 8 (ucast (m (a + 1)))"

definition get16 :: "kernel \<Rightarrow> nat \<Rightarrow> u32" where
  "get16 K a = pair (get_user K a 2) a"

definition get32 :: "kernel \<Rightarrow> nat \<Rightarrow> u32" where
  "get32 K a = (let m = get_user K a 4 in pair m a OR push_bit 16 (pair m (a + 2)))"

definition bytes32 :: "u32 \<Rightarrow> u8 list" where
  "bytes32 v = [ucast v, ucast (drop_bit 8 v), ucast (drop_bit 16 v), ucast (drop_bit 24 v)]"

text \<open>The words \<open>copy_from_user_mono_stereo\<close> stores: \<open>while (from < end-2)\<close> and the last sample.\<close>

function mono_words :: "kernel \<Rightarrow> nat \<Rightarrow> nat \<Rightarrow> u32 list" where
  "mono_words K from fin =
     (if from + 2 < fin then
        let v = get32 K from;
            x = push_bit 16 v; x = x OR drop_bit 16 x;
            y = drop_bit 16 v; y = y OR push_bit 16 y
        in x # y # mono_words K (from + 4) fin
      else if from < fin then let v = get16 K from in [v OR push_bit 16 v]
      else [])"
  by auto
termination by (relation "measure (\<lambda>(K, from, fin). fin - from)") auto

declare mono_words.simps [simp del]

definition copy_from_user_mono_stereo ::
    "kernel \<Rightarrow> nat \<Rightarrow> nat \<Rightarrow> nat \<Rightarrow> 'a audio_stream_scheme \<Rightarrow> bool \<times> 'a audio_stream_scheme" where
  "copy_from_user_mono_stereo K dst src n s =
     (if \<not> uarea K src n then (False, s)
      else let ws = (if (src div 2) mod 2 = 1
                     then let v = get16 K src in (v OR push_bit 16 v) # mono_words K (src + 2) (src + n)
                     else mono_words K src (src + n))
           in (True, poke K dst (concat (map bytes32 ws)) s))"

text \<open>
  One fragment's share of the data: \<open>(ok, chunksize, state)\<close>.  \<open>fragsize - size\<close> is unsigned,
  \<open>chunksize\<close> an \<open>int\<close>, and the comparison with the unsigned \<open>count\<close> is unsigned.
\<close>

definition fill_frag :: "kernel \<Rightarrow> nat \<Rightarrow> nat \<Rightarrow> nat \<Rightarrow> audio_buf \<Rightarrow> 'a audio_stream_scheme
    \<Rightarrow> bool \<times> nat \<times> 'a audio_stream_scheme" where
  "fill_frag K buffer count i b s =
     (if audio_channels s = 2 then
        let chunksize = s32 (u32i (int (fragsize s) - b_size b));
            chunksize = (if u32i chunksize > int count then s32 (int count) else chunksize);
            (ok, s) = copy_from_user K (b_start b + nat (b_size b)) buffer (nat chunksize) s
        in if ok then (True, nat chunksize, upd_buf i (\<lambda>b. b\<lparr>b_size := s32 (b_size b + chunksize)\<rparr>) s)
           else (False, 0, s)
      else
        let chunksize = s32 (u32i (int (fragsize s) - b_size b) div 2);
            chunksize = (if u32i chunksize > int count then s32 (int count) else chunksize);
            (ok, s) = copy_from_user_mono_stereo K (b_start b + nat (b_size b)) buffer (nat chunksize) s
        in if ok then (True, nat chunksize, upd_buf i (\<lambda>b. b\<lparr>b_size := s32 (b_size b + chunksize * 2)\<rparr>) s)
           else (False, 0, s))"

text \<open>\<open>s3c2410_dma_queue_buffer(..., b, b->dma_addr, b->size, DMA_BUF_WR); b->size = 0; NEXT_BUF\<close>\<close>

definition send_frag :: "nat \<Rightarrow> audio_buf \<Rightarrow> 'a audio_stream_scheme \<Rightarrow> 'a audio_stream_scheme" where
  "send_frag i b s =
     NEXT_BUF (upd_buf i (\<lambda>b. b\<lparr>b_size := 0\<rparr>) (log_k (Dqueue i (b_dma_addr b) (b_size b)) s))"

text \<open>\<open>Inl\<close> is the early return, \<open>Inr (ret, buffer)\<close> the end of the loop.\<close>

fun write_loop :: "kernel \<Rightarrow> bool \<Rightarrow> nat list list \<Rightarrow> nat \<Rightarrow> nat \<Rightarrow> int \<Rightarrow> 'a audio_stream_scheme
    \<Rightarrow> ((int + int \<times> nat) \<times> 'a audio_stream_scheme) option" where
  "write_loop K nonblock [] buffer count ret s = (if 0 < count then None else Some (Inr (ret, buffer), s))"
| "write_loop K nonblock (ds # sched) buffer count ret s =
     (if \<not> 0 < count then Some (Inr (ret, buffer), s)
      else let i = buf_idx s; ret = (if nonblock then -11 else -512) in
        case down_sem ds i s of
          None \<Rightarrow> None
        | Some (got, s) \<Rightarrow>
            if \<not> got then Some (Inr (ret, buffer), s)
            else case buf_at i s of None \<Rightarrow> None
            | Some b \<Rightarrow>
                (case fill_frag K buffer count i b s of (ok, chunksize, s) \<Rightarrow>
                   if \<not> ok then Some (Inl (-14), up_sem i s)
                   else case buf_at i s of None \<Rightarrow> None
                   | Some b \<Rightarrow>
                       if b_size b < int (fragsize s) then Some (Inr (ret, buffer + chunksize), up_sem i s)
                       else write_loop K nonblock sched (buffer + chunksize) (count - chunksize) ret (send_frag i b s)))"

datatype accmode = O_RDONLY | O_WRONLY | O_RDWR | O_NOACC

definition smdk2410_audio_write :: "kernel \<Rightarrow> accmode \<Rightarrow> bool \<Rightarrow> nat list list \<Rightarrow> nat \<Rightarrow> nat \<Rightarrow> 'a audio_stream_scheme
    \<Rightarrow> (int \<times> 'a audio_stream_scheme) option" where
  "smdk2410_audio_write K acc nonblock sched buffer count s =
     (if acc \<noteq> O_WRONLY \<and> acc \<noteq> O_RDWR then Some (-1, s)
      else let (err, s) = (if buffers s = None then audio_setup_buf K s else (0, s)) in
        if err \<noteq> 0 then Some (-12, s)
        else case write_loop K nonblock sched buffer (count - count mod 4) 0 s of
          None \<Rightarrow> None
        | Some (Inl err, s) \<Rightarrow> Some (err, s)
        | Some (Inr (ret, buffer1), s) \<Rightarrow>
            Some (if buffer1 - buffer \<noteq> 0 then int (buffer1 - buffer) else ret, s))"

section \<open>Draining\<close>

text \<open>The unfinished fragment goes out.\<close>

definition sync_queue :: "nat list list \<Rightarrow> nat \<Rightarrow> 'a audio_stream_scheme \<Rightarrow> (nat list list \<times> 'a audio_stream_scheme) option" where
  "sync_queue sched i s = do {
     (sched, s) \<leftarrow> down_un sched i s;
     b \<leftarrow> buf_at i s;
     Some (sched, send_frag i b s)
   }"

definition audio_sync :: "nat list list \<Rightarrow> 'a audio_stream_scheme \<Rightarrow> (int \<times> 'a audio_stream_scheme) option" where
  "audio_sync sched s =
     (if buffers s = None then Some (0, s)
      else let i = buf_idx s in
      case buf_at i s of None \<Rightarrow> None
      | Some b \<Rightarrow>
          case (if b_size b \<noteq> 0 then sync_queue sched i s else Some (sched, s)) of
            None \<Rightarrow> None
          | Some ([], s) \<Rightarrow> None
          | Some (ds # sched, s) \<Rightarrow>
              let i = (nbfrags s + buf_idx s - 1) mod nbfrags s in
              case down_sem ds i s of None \<Rightarrow> None
              | Some (got, s) \<Rightarrow> if got then Some (0, up_sem i s) else Some (-4, s))"

section \<open>Histories of the DMA service\<close>

lemma pend_append [simp]: "pend q (h @ k) = pend (pend q h) k"
  by (induction q h rule: pend.induct) auto

lemma fifo_from_append [simp]: "fifo_from q (h @ k) \<longleftrightarrow> fifo_from q h \<and> fifo_from (pend q h) k"
  by (induction q h rule: pend.induct) auto

lemma dma_fifo_prefix: "prefix h k \<Longrightarrow> dma_fifo k \<Longrightarrow> dma_fifo h"
  by (auto simp: prefix_def)

text \<open>What has gone out, what the DMA still has, and the unfinished fragment: the byte stream.\<close>

fun played :: "kev list \<Rightarrow> u8 list" where
  "played [] = []"
| "played (Ddone i d # h) = d @ played h"
| "played (_ # h) = played h"

lemma played_append [simp]: "played (h @ k) = played h @ played k"
  by (induction h rule: played.induct) auto

definition in_flight :: "'a audio_stream_scheme \<Rightarrow> u8 list" where
  "in_flight s = concat (map (\<lambda>(i, a, n). peek s a (nat n)) (pending (khist s)))"

definition partial :: "'a audio_stream_scheme \<Rightarrow> u8 list" where
  "partial s = (case buf_at (buf_idx s) s of None \<Rightarrow> [] | Some b \<Rightarrow> peek s (b_dma_addr b) (nat (b_size b)))"

definition stream_out :: "'a audio_stream_scheme \<Rightarrow> u8 list" where
  "stream_out s = played (khist s) @ in_flight s @ partial s"

section \<open>Slots of a ring\<close>

text \<open>The \<open>m\<close> slots before slot \<open>i\<close> of \<open>n\<close>, oldest first.\<close>

definition slots :: "nat \<Rightarrow> nat \<Rightarrow> nat \<Rightarrow> nat list" where
  "slots n i m = map (\<lambda>k. (i + n - m + k) mod n) [0..<m]"

lemma slots_0 [simp]: "slots n i 0 = []"
  by (simp add: slots_def)

lemma length_slots [simp]: "length (slots n i m) = m"
  by (simp add: slots_def)

lemma slots_Suc: "Suc m \<le> n \<Longrightarrow> slots n i (Suc m) = ((i + n - Suc m) mod n) # slots n i m"
  by (simp add: slots_def map_upt_Suc_Cons Suc_diff_le del: upt_Suc)

lemma slots_next:
  assumes "i < n" "m < n"
  shows "slots n ((i + 1) mod n) (Suc m) = slots n i m @ [i]"
proof -
  have "((i + 1) mod n + n - Suc m + k) mod n = (i + n - m + k) mod n" for k
  proof (cases "i + 1 = n")
    case True
    then have e: "i + n - m + k = n + (n - Suc m + k)" and z: "(i + 1) mod n = 0"
      and f: "0 + n - Suc m + k = n - Suc m + k" using assms by simp_all
    show ?thesis unfolding e z f by simp
  next
    case False
    then have "(i + 1) mod n = i + 1" using assms by simp
    then show ?thesis using assms by simp
  qed
  moreover have "(i + n - m + m) mod n = i" using assms by simp
  ultimately show ?thesis unfolding slots_def by simp
qed

lemma slots_less: "0 < n \<Longrightarrow> j \<in> set (slots n i m) \<Longrightarrow> j < n"
  by (auto simp: slots_def)

lemma mod_shift_inj:
  fixes k l n a :: nat
  assumes "k < n" "l < n" "(a + k) mod n = (a + l) mod n"
  shows "k = l"
proof -
  have "x = y" if "x \<le> y" "y < n" "(a + x) mod n = (a + y) mod n" for x y :: nat
  proof -
    have "n dvd (a + y) - (a + x)" using that mod_eq_dvd_iff_nat [of "a + x" "a + y" n] by simp
    then have "n dvd y - x" by simp
    then show ?thesis using that dvd_imp_le [of n "y - x"] by linarith
  qed
  from this [of k l] this [of l k] show ?thesis using assms by linarith
qed

lemma distinct_slots:
  assumes "m \<le> n"
  shows "distinct (slots n i m)"
proof -
  have "inj_on (\<lambda>k. (i + n - m + k) mod n) {0..<m}"
    by (rule inj_onI, rule mod_shift_inj [of _ n _ "i + n - m"]) (use assms in auto)
  then show ?thesis unfolding slots_def distinct_map by simp
qed

lemma not_in_slots: "i < n \<Longrightarrow> m < n \<Longrightarrow> i \<notin> set (slots n i m)"
  using distinct_slots [of "Suc m" n "(i + 1) mod n"] slots_next [of i n m] by simp

lemma full_slots: "i < n \<Longrightarrow> i \<in> set (slots n i m) \<Longrightarrow> m \<le> n \<Longrightarrow> m = n"
  using not_in_slots [of i n m] by (cases "m = n") auto

lemma in_full_slots:
  assumes "i < n"
  shows "i \<in> set (slots n i n)"
proof -
  obtain m where m: "n = Suc m" using assms by (cases n) auto
  have "slots n i (Suc m) = ((i + n - Suc m) mod n) # slots n i m" using m by (intro slots_Suc) simp
  then show ?thesis using assms m by simp
qed

section \<open>The invariant of the ring\<close>

text \<open>
  The fragments are apart in physical memory and mapped one to one.  The pending fragments are the
  ones just before \<open>buf_idx\<close>, oldest first; their semaphores are taken, and the semaphore of the
  current fragment while a write holds it.  Only the current fragment holds unsent bytes.
\<close>

definition ring_geom :: "kernel \<Rightarrow> audio_buf list \<Rightarrow> 'a audio_stream_scheme \<Rightarrow> bool" where
  "ring_geom K bs s \<longleftrightarrow> length bs = nbfrags s \<and> buf_idx s < nbfrags s \<and>
     16 \<le> fragsize s \<and> fragsize s \<le> 16384 \<and> 4 dvd fragsize s \<and>
     (\<forall>i < nbfrags s. \<forall>k < fragsize s. mmu K (b_start (bs ! i) + k) = b_dma_addr (bs ! i) + k) \<and>
     (\<forall>i < nbfrags s. \<forall>j < nbfrags s. i \<noteq> j \<longrightarrow>
        b_dma_addr (bs ! i) + fragsize s \<le> b_dma_addr (bs ! j) \<or>
        b_dma_addr (bs ! j) + fragsize s \<le> b_dma_addr (bs ! i))"

definition pend_frags :: "'a audio_stream_scheme \<Rightarrow> nat list" where
  "pend_frags s = map fst (pending (khist s))"

definition ring_pend :: "audio_buf list \<Rightarrow> 'a audio_stream_scheme \<Rightarrow> bool" where
  "ring_pend bs s \<longleftrightarrow>
     pend_frags s = slots (nbfrags s) (buf_idx s) (length (pending (khist s))) \<and>
     length (pending (khist s)) \<le> nbfrags s \<and>
     (\<forall>(i, a, n) \<in> set (pending (khist s)). a = b_dma_addr (bs ! i) \<and> 0 \<le> n \<and> n \<le> int (fragsize s))"

definition ring_sem :: "bool \<Rightarrow> audio_buf list \<Rightarrow> 'a audio_stream_scheme \<Rightarrow> bool" where
  "ring_sem held bs s \<longleftrightarrow> (held \<longrightarrow> buf_idx s \<notin> set (pend_frags s)) \<and>
     (\<forall>i < nbfrags s. b_sem (bs ! i) =
        (if i \<in> set (pend_frags s) \<or> held \<and> i = buf_idx s then 0 else 1))"

definition ring_size :: "bool \<Rightarrow> audio_buf list \<Rightarrow> 'a audio_stream_scheme \<Rightarrow> bool" where
  "ring_size held bs s \<longleftrightarrow>
     (\<forall>i < nbfrags s. i \<noteq> buf_idx s \<longrightarrow> b_size (bs ! i) = 0) \<and>
     0 \<le> b_size (bs ! buf_idx s) \<and> b_size (bs ! buf_idx s) \<le> int (fragsize s) \<and>
     4 dvd b_size (bs ! buf_idx s) \<and> (\<not> held \<longrightarrow> b_size (bs ! buf_idx s) < int (fragsize s)) \<and>
     (buf_idx s \<in> set (pend_frags s) \<longrightarrow> b_size (bs ! buf_idx s) = 0)"

definition ring :: "kernel \<Rightarrow> bool \<Rightarrow> audio_buf list \<Rightarrow> 'a audio_stream_scheme \<Rightarrow> bool" where
  "ring K held bs s \<longleftrightarrow> buffers s = Some bs \<and> ring_geom K bs s \<and> ring_pend bs s \<and>
     ring_sem held bs s \<and> ring_size held bs s"

lemmas ring_defs = ring_def ring_geom_def ring_pend_def ring_sem_def ring_size_def

lemma ring_buf_at [simp]:
  "ring K held bs s \<Longrightarrow> buf_at (buf_idx s) s = Some (bs ! buf_idx s)"
  "ring K held bs s \<Longrightarrow> i < nbfrags s \<Longrightarrow> buf_at i s = Some (bs ! i)"
  by (simp_all add: ring_def ring_geom_def buf_at_def)

lemma pend_frags_less: "ring K held bs s \<Longrightarrow> i \<in> set (pend_frags s) \<Longrightarrow> i < nbfrags s"
  by (auto simp: ring_defs intro: slots_less)

text \<open>The updates of the stream, field by field.\<close>

lemma upd_buf_simps [simp]:
  "buf_idx (upd_buf i f s) = buf_idx s" "fragsize (upd_buf i f s) = fragsize s"
  "nbfrags (upd_buf i f s) = nbfrags s" "audio_channels (upd_buf i f s) = audio_channels s"
  "ram (upd_buf i f s) = ram s" "khist (upd_buf i f s) = khist s"
  "audio_fragsize (upd_buf i f s) = audio_fragsize s" "audio_nbfrags (upd_buf i f s) = audio_nbfrags s"
  "buffers s = Some bs \<Longrightarrow> buffers (upd_buf i f s) = Some (bs[i := f (bs ! i)])"
  by (simp_all add: upd_buf_def)

lemma log_k_simps [simp]:
  "buf_idx (log_k e s) = buf_idx s" "fragsize (log_k e s) = fragsize s"
  "nbfrags (log_k e s) = nbfrags s" "audio_channels (log_k e s) = audio_channels s"
  "ram (log_k e s) = ram s" "khist (log_k e s) = khist s @ [e]" "buffers (log_k e s) = buffers s"
  "audio_fragsize (log_k e s) = audio_fragsize s" "audio_nbfrags (log_k e s) = audio_nbfrags s"
  by (simp_all add: log_k_def)

lemma NEXT_BUF_simps [simp]:
  "buf_idx (NEXT_BUF s) = (buf_idx s + 1) mod nbfrags s" "fragsize (NEXT_BUF s) = fragsize s"
  "nbfrags (NEXT_BUF s) = nbfrags s" "audio_channels (NEXT_BUF s) = audio_channels s"
  "ram (NEXT_BUF s) = ram s" "khist (NEXT_BUF s) = khist s" "buffers (NEXT_BUF s) = buffers s"
  "audio_fragsize (NEXT_BUF s) = audio_fragsize s" "audio_nbfrags (NEXT_BUF s) = audio_nbfrags s"
  by (simp_all add: NEXT_BUF_def)

lemma peek_upd [simp]: "peek (upd_buf i f s) = peek s" "peek (log_k e s) = peek s" "peek (NEXT_BUF s) = peek s"
  by (simp_all add: peek_def fun_eq_iff)

lemma length_peek [simp]: "length (peek s a n) = n"
  by (simp add: peek_def)

text \<open>What the semaphore operations and callbacks leave alone.\<close>

definition quiet :: "'a audio_stream_scheme \<Rightarrow> 'a audio_stream_scheme \<Rightarrow> bool" where
  "quiet s t \<longleftrightarrow> buf_idx t = buf_idx s \<and> fragsize t = fragsize s \<and> nbfrags t = nbfrags s \<and>
     audio_channels t = audio_channels s \<and> ram t = ram s \<and> prefix (khist s) (khist t) \<and>
     audio_fragsize t = audio_fragsize s \<and> audio_nbfrags t = audio_nbfrags s \<and>
     map_option (map (\<lambda>b. (b_size b, b_start b, b_dma_addr b, b_master b))) (buffers t) =
     map_option (map (\<lambda>b. (b_size b, b_start b, b_dma_addr b, b_master b))) (buffers s)"

lemma quiet_refl [simp]: "quiet s s"
  by (simp add: quiet_def)

lemma quiet_trans: "quiet s t \<Longrightarrow> quiet t u \<Longrightarrow> quiet s u"
  by (auto simp: quiet_def intro: prefix_order.trans)

lemma quiet_up: "quiet s (upd_buf i (\<lambda>b. b\<lparr>b_sem := f b\<rparr>) s)"
proof (cases "buffers s")
  case (Some bs)
  have "map g (bs[i := (bs ! i)\<lparr>b_sem := f (bs ! i)\<rparr>]) = map g bs"
    if "\<And>b v. g (b\<lparr>b_sem := v\<rparr>) = g b" for g :: "audio_buf \<Rightarrow> 'c"
  proof (rule nth_equalityI)
    fix k
    assume "k < length (map g (bs[i := (bs ! i)\<lparr>b_sem := f (bs ! i)\<rparr>]))"
    then show "map g (bs[i := (bs ! i)\<lparr>b_sem := f (bs ! i)\<rparr>]) ! k = map g bs ! k"
      by (cases "k = i") (simp_all add: that)
  qed simp
  from this [of "\<lambda>b. (b_size b, b_start b, b_dma_addr b, b_master b)"] Some show ?thesis
    by (simp add: quiet_def upd_buf_def)
qed (simp add: quiet_def upd_buf_def)

lemma quiet_irq: "quiet s (dma_out_irq i s)"
proof -
  have "quiet s (log_k e s)" for e by (simp add: quiet_def log_k_def)
  then show ?thesis
    unfolding dma_out_irq_def audio_dmaout_done_callback_def up_sem_def Let_def
    by (rule quiet_trans) (rule quiet_up)
qed

lemma quiet_irqs: "quiet s (fold dma_out_irq ds s)"
  by (induction ds arbitrary: s) (auto intro: quiet_trans quiet_irq)

lemma quiet_down: "down_sem ds i s = Some (got, t) \<Longrightarrow> quiet s t"
  using quiet_irqs [of s ds] quiet_up [of "fold dma_out_irq ds s" i "\<lambda>b. b_sem b - 1"]
  by (auto simp: down_sem_def Let_def intro: quiet_trans split: option.splits if_splits)

lemma ring_partial:
  "ring K held bs s \<Longrightarrow>
     partial s = peek s (b_dma_addr (bs ! buf_idx s)) (nat (b_size (bs ! buf_idx s)))"
  by (simp add: partial_def)

text \<open>A semaphore update touches nothing but that semaphore.\<close>

lemma ring_upd_sem:
  fixes f :: "audio_buf \<Rightarrow> int" and s :: "'a audio_stream_scheme"
  assumes r: "ring K held bs s" and i: "i < nbfrags s"
    and bs': "bs' = bs[i := (bs ! i)\<lparr>b_sem := f (bs ! i)\<rparr>]"
    and t: "t = upd_buf i (\<lambda>b. b\<lparr>b_sem := f b\<rparr>) s"
  shows "buffers t = Some bs'" "ring_geom K bs' t" "ring_pend bs' t" "ring_size held bs' t"
    "\<And>j. b_sem (bs' ! j) = (if j = i then f (bs ! i) else b_sem (bs ! j))"
    "\<And>j. b_size (bs' ! j) = b_size (bs ! j)" "stream_out t = stream_out s" "pend_frags t = pend_frags s"
proof -
  have b: "buffers s = Some bs" and len: "length bs = nbfrags s" using r by (simp_all add: ring_defs)
  have other: "buffers t = Some bs'" "buf_idx t = buf_idx s" "fragsize t = fragsize s"
    "nbfrags t = nbfrags s" "ram t = ram s" "khist t = khist s" "pend_frags t = pend_frags s"
    using b by (simp_all add: t bs' pend_frags_def)
  have nth: "b_size (bs' ! j) = b_size (bs ! j)" "b_start (bs' ! j) = b_start (bs ! j)"
    "b_dma_addr (bs' ! j) = b_dma_addr (bs ! j)" for j
    using len i by (auto simp: bs' nth_list_update)
  show "buffers t = Some bs'" "pend_frags t = pend_frags s" by (rule other)+
  show "b_size (bs' ! j) = b_size (bs ! j)" for j by (rule nth)
  show "b_sem (bs' ! j) = (if j = i then f (bs ! i) else b_sem (bs ! j))" for j
    using len i by (auto simp: bs' nth_list_update)
  show "ring_geom K bs' t" using r unfolding ring_def ring_geom_def other nth by (simp add: bs')
  show "ring_pend bs' t" using r unfolding ring_def ring_pend_def other nth by simp
  show "ring_size held bs' t" using r unfolding ring_def ring_size_def other nth by auto
  have pk: "peek t = peek s" using other by (simp add: peek_def fun_eq_iff)
  have "buf_idx s < length bs'" using r by (simp add: bs' ring_defs)
  then have "partial t = partial s"
    unfolding ring_partial [OF r] by (simp add: partial_def buf_at_def other pk nth)
  then show "stream_out t = stream_out s" by (simp add: stream_out_def in_flight_def other pk)
qed

text \<open>A completion keeps the ring and the byte stream.\<close>

lemma ring_irq:
  assumes r: "ring K False bs s" and i: "pending (khist s) \<noteq> []" "fst (hd (pending (khist s))) = i"
  shows "\<exists>bs'. ring K False bs' (dma_out_irq i s)" and "stream_out (dma_out_irq i s) = stream_out s"
proof -
  obtain a n q where q: "pending (khist s) = (i, a, n) # q" using i by (cases "pending (khist s)") auto
  define t where "t = dma_out_irq i s"
  define bs' where "bs' = bs[i := (bs ! i)\<lparr>b_sem := b_sem (bs ! i) + 1\<rparr>]"
  have b: "buffers s = Some bs" and len: "length bs = nbfrags s" using r by (simp_all add: ring_defs)
  have h: "khist t = khist s @ [Ddone i (peek s a (nat n))]"
    and other: "buffers t = Some bs'" "buf_idx t = buf_idx s" "fragsize t = fragsize s"
      "nbfrags t = nbfrags s" "ram t = ram s"
    unfolding t_def dma_out_irq_def audio_dmaout_done_callback_def up_sem_def bs'_def using b q by simp_all
  then have p: "pending (khist t) = q" using q by simp
  have fr: "pend_frags s = i # map fst q" "pend_frags t = map fst q"
    using q p by (simp_all add: pend_frags_def)
  have i_lt: "i < nbfrags s" using pend_frags_less [OF r, of i] fr by simp
  have sl: "i # map fst q = slots (nbfrags s) (buf_idx s) (Suc (length q))" and le: "Suc (length q) \<le> nbfrags s"
    using r q fr by (simp_all add: ring_def ring_pend_def)
  have sl': "map fst q = slots (nbfrags s) (buf_idx s) (length q)" using slots_Suc [OF le] sl by simp
  have i_notin: "i \<notin> set (map fst q)" using distinct_slots [OF le, of "buf_idx s"] sl [symmetric] by simp
  have nth: "b_sem (bs' ! j) = (if j = i then b_sem (bs ! i) + 1 else b_sem (bs ! j))"
    "b_size (bs' ! j) = b_size (bs ! j)" "b_start (bs' ! j) = b_start (bs ! j)"
    "b_dma_addr (bs' ! j) = b_dma_addr (bs ! j)" for j
    using i_lt len by (auto simp: bs'_def nth_list_update)
  have "ring_geom K bs' t" using r len unfolding ring_def ring_geom_def other nth by (simp add: bs'_def)
  moreover have "ring_pend bs' t"
    using r q le sl' unfolding ring_def ring_pend_def other nth p fr by simp
  moreover have "ring_sem False bs' t"
    using r i_notin unfolding ring_def ring_sem_def other nth fr by auto
  moreover have "ring_size False bs' t"
    using r unfolding ring_def ring_size_def other nth fr by auto
  ultimately have "ring K False bs' t" using other by (simp add: ring_def)
  then show "\<exists>bs'. ring K False bs' (dma_out_irq i s)" unfolding t_def by blast
  have pk: "peek t = peek s" using other by (simp add: peek_def fun_eq_iff)
  have "partial t = partial s"
    unfolding ring_partial [OF r] ring_partial [OF \<open>ring K False bs' t\<close>] other nth pk ..
  moreover have "in_flight s = peek s a (nat n) @ in_flight t" unfolding in_flight_def p q pk by simp
  ultimately show "stream_out (dma_out_irq i s) = stream_out s"
    unfolding t_def [symmetric] stream_out_def h by simp
qed

lemma khist_irq: "\<exists>d. khist (dma_out_irq i s) = khist s @ [Ddone i d]"
  by (simp add: dma_out_irq_def audio_dmaout_done_callback_def up_sem_def Let_def)

lemma ring_irqs:
  assumes "ring K False bs s" "dma_fifo (khist (fold dma_out_irq ds s))"
  shows "(\<exists>bs'. ring K False bs' (fold dma_out_irq ds s)) \<and> stream_out (fold dma_out_irq ds s) = stream_out s"
  using assms
proof (induction ds arbitrary: s bs)
  case (Cons i ds)
  let ?t = "dma_out_irq i s"
  have "prefix (khist ?t) (khist (fold dma_out_irq ds ?t))" using quiet_irqs [of ?t ds] by (simp add: quiet_def)
  then have "dma_fifo (khist ?t)" using Cons.prems(2) dma_fifo_prefix by simp
  then have p: "pending (khist s) \<noteq> []" "fst (hd (pending (khist s))) = i" using khist_irq [of i s] by auto
  from ring_irq(1) [OF Cons.prems(1) p] obtain bs' where "ring K False bs' ?t" by blast
  from Cons.IH [OF this] Cons.prems(2) ring_irq(2) [OF Cons.prems(1) p] show ?case by simp
qed auto

lemma down_sem_idx:
  assumes r: "ring K False bs s" and d: "down_sem ds (buf_idx s) s = Some (got, t)" and f: "dma_fifo (khist t)"
  shows "\<exists>bs'. ring K got bs' t \<and> b_size (bs' ! buf_idx t) < int (fragsize t)" "stream_out t = stream_out s" "got \<or> length (pending (khist t)) = nbfrags s"
proof -
  define u where "u = fold dma_out_irq ds s"
  have q: "quiet s u" unfolding u_def by (rule quiet_irqs)
  then have idx: "buf_idx u = buf_idx s" "nbfrags u = nbfrags s" by (simp_all add: quiet_def)
  have ku: "khist u = khist t"
    using d by (auto simp: down_sem_def u_def Let_def split: option.splits if_splits)
  obtain bs' where r': "ring K False bs' u" and so: "stream_out u = stream_out s"
    using ring_irqs [OF r] f ku unfolding u_def by metis
  have b: "buffers u = Some bs'" and lt: "buf_idx u < length bs'" "length bs' = nbfrags u" using r' by (simp_all add: ring_defs)
  have at: "buf_at (buf_idx u) u = Some (bs' ! buf_idx u)" using r' by simp
  show "\<exists>bs'. ring K got bs' t \<and> b_size (bs' ! buf_idx t) < int (fragsize t)" "stream_out t = stream_out s" "got \<or> length (pending (khist t)) = nbfrags s"
  proof -
    have "(\<exists>bs'. ring K got bs' t \<and> b_size (bs' ! buf_idx t) < int (fragsize t)) \<and> stream_out t = stream_out s \<and> (got \<or> length (pending (khist t)) = nbfrags s)"
    proof (cases "0 < b_sem (bs' ! buf_idx u)")
      case True
      define bs'' where "bs'' = bs'[buf_idx u := (bs' ! buf_idx u)\<lparr>b_sem := b_sem (bs' ! buf_idx u) - 1\<rparr>]"
      have got: got and t: "t = upd_buf (buf_idx u) (\<lambda>b. b\<lparr>b_sem := b_sem b - 1\<rparr>) u"
        using d True at idx by (simp_all add: down_sem_def u_def [symmetric])
      have lt': "buf_idx u < nbfrags u" using lt by simp
      note c = ring_upd_sem [where f = "\<lambda>b. b_sem b - 1", OF r' lt' bs''_def t]
      have idx': "buf_idx t = buf_idx u" "nbfrags t = nbfrags u" "fragsize t = fragsize u" by (simp_all add: t)
      have "ring_sem True bs'' t"
        using r' True lt unfolding ring_def ring_sem_def c(5,8) idx' by auto
      moreover have "ring_size True bs'' t" using c(4) by (simp add: ring_size_def)
      ultimately have r'': "ring K True bs'' t" using c(1-3) by (simp add: ring_def)
      have "stream_out t = stream_out u" by (rule c(7))
      moreover have "b_size (bs'' ! buf_idx t) < int (fragsize t)"
        using r' unfolding c(6) idx' by (simp add: ring_def ring_size_def)
      ultimately show ?thesis using r'' got so by auto
    next
      case False
      have got: "\<not> got" and t: "t = u" using d False at idx by (simp_all add: down_sem_def u_def [symmetric])
      have "buf_idx u \<in> set (pend_frags u)" using False r' lt by (auto simp: ring_def ring_sem_def split: if_splits)
      then have "length (pending (khist u)) = nbfrags u"
        using r' full_slots [of "buf_idx u" "nbfrags u"] by (simp add: ring_defs)
      moreover have "b_size (bs' ! buf_idx u) < int (fragsize u)" using r' by (simp add: ring_def ring_size_def)
      ultimately show ?thesis using got t so r' idx by auto
    qed
    then show "\<exists>bs'. ring K got bs' t \<and> b_size (bs' ! buf_idx t) < int (fragsize t)" "stream_out t = stream_out s" "got \<or> length (pending (khist t)) = nbfrags s"
      by blast+
  qed
qed

end
