(* ===== verification/Audio_Write.thy ===== *)
theory Audio_Write
  imports Audio_Ring
begin

text \<open>
  The write path of the sound driver: the bytes of a chunk, one fragment's share, and the loop.
\<close>

section \<open>The bytes a write copies\<close>

fun dup_samples :: "u8 list \<Rightarrow> u8 list" where
  "dup_samples (a # b # bs) = a # b # a # b # dup_samples bs"
| "dup_samples _ = []"

lemma dup_samples_append: "even (length xs) \<Longrightarrow> dup_samples (xs @ ys) = dup_samples xs @ dup_samples ys"
  by (induction xs rule: dup_samples.induct) auto

lemma length_dup_samples: "even (length bs) \<Longrightarrow> length (dup_samples bs) = 2 * length bs"
  by (induction bs rule: dup_samples.induct) auto

definition out_bytes :: "kernel \<Rightarrow> int \<Rightarrow> nat \<Rightarrow> nat \<Rightarrow> u8 list" where
  "out_bytes K channels a n =
     (let bs = map (umem K) [a..<a + n] in if channels = 2 then bs else dup_samples bs)"

lemma bit8_high: "8 \<le> k \<Longrightarrow> \<not> bit (w :: u8) k"
  by (auto dest: bit_imp_le_length)

lemma bytes32_dup16:
  "bytes32 (pair m a OR push_bit 16 (pair m a)) = [m a, m (a + 1), m a, m (a + 1)]"
  unfolding bytes32_def pair_def
  by (simp, intro conjI; rule bit_word_eqI; auto simp: bit_simps bit8_high numeral_3_eq_3)

lemma bytes32_low:
  assumes "v = pair m a OR push_bit 16 (pair m (a + 2))"
  shows "bytes32 (push_bit 16 v OR drop_bit 16 (push_bit 16 v)) = [m a, m (a + 1), m a, m (a + 1)]"
  unfolding bytes32_def pair_def assms
  by (simp, intro conjI; rule bit_word_eqI; auto simp: bit_simps bit8_high numeral_3_eq_3)

lemma bytes32_high:
  assumes "v = pair m a OR push_bit 16 (pair m (a + 2))"
  shows "bytes32 (drop_bit 16 v OR push_bit 16 (drop_bit 16 v)) = [m (a + 2), m (a + 3), m (a + 2), m (a + 3)]"
  unfolding bytes32_def pair_def assms
  by (simp, intro conjI; rule bit_word_eqI; auto simp: bit_simps bit8_high numeral_3_eq_3)

text \<open>
  What the mono copy sees of the bytes from \<open>a\<close> on: the caller's byte, or the kernel's where a byte
  at most three addresses away faults.
\<close>

definition sees :: "kernel \<Rightarrow> nat \<Rightarrow> u8 list \<Rightarrow> bool" where
  "sees K a xs \<longleftrightarrow> (\<forall>j < length xs. xs ! j = umem K (a + j) \<or>
     xs ! j = ujunk K (a + j) \<and> (\<exists>y. a \<le> y \<and> y < a + length xs \<and> ubad K y \<and> y \<le> a + j + 3 \<and> a + j \<le> y + 3))"

lemma sees_Nil [simp]: "sees K a []"
  by (simp add: sees_def)

lemma sees_get_user: "n \<le> 4 \<Longrightarrow> sees K a (map (get_user K a n) [a..<a + n])"
proof (cases "\<exists>x \<in> set [a..<a + n]. ubad K x")
  case True
  assume "n \<le> 4"
  from True obtain x where x: "a \<le> x" "x < a + n" "ubad K x" by auto
  have "x \<le> a + j + 3 \<and> a + j \<le> x + 3" if "j < n" for j using x that \<open>n \<le> 4\<close> by linarith
  then have "\<exists>y. a \<le> y \<and> y < a + n \<and> ubad K y \<and> y \<le> a + j + 3 \<and> a + j \<le> y + 3" if "j < n" for j
    using x that by blast
  moreover have "get_user K a n = ujunk K" using True by (simp add: get_user_def)
  ultimately show ?thesis by (simp add: sees_def)
next
  case False
  then have "get_user K a n = umem K" by (simp add: get_user_def)
  then show ?thesis by (simp add: sees_def)
qed

lemma sees_append:
  assumes "sees K a xs" "sees K (a + length xs) ys"
  shows "sees K a (xs @ ys)"
  unfolding sees_def
proof (intro allI impI)
  fix j assume j: "j < length (xs @ ys)"
  show "(xs @ ys) ! j = umem K (a + j) \<or> (xs @ ys) ! j = ujunk K (a + j) \<and>
      (\<exists>y. a \<le> y \<and> y < a + length (xs @ ys) \<and> ubad K y \<and> y \<le> a + j + 3 \<and> a + j \<le> y + 3)"
  proof (cases "j < length xs")
    case True
    then have "(xs @ ys) ! j = xs ! j" by (simp add: nth_append)
    moreover have "y < a + length (xs @ ys)" if "y < a + length xs" for y using that by simp
    ultimately show ?thesis using assms(1) True unfolding sees_def by fastforce
  next
    case False
    define i where "i = j - length xs"
    have i: "i < length ys" "j = length xs + i" using False j by (auto simp: i_def)
    then have "(xs @ ys) ! j = ys ! i" by (simp add: nth_append)
    moreover have "ys ! i = umem K (a + length xs + i) \<or> ys ! i = ujunk K (a + length xs + i) \<and>
        (\<exists>y. a + length xs \<le> y \<and> y < a + length xs + length ys \<and> ubad K y \<and> y \<le> a + length xs + i + 3 \<and> a + length xs + i \<le> y + 3)"
      using assms(2) i unfolding sees_def by blast
    moreover have "a + length xs \<le> y \<Longrightarrow> a \<le> y" for y by simp
    ultimately show ?thesis unfolding i(2) length_append add.assoc by fastforce
  qed
qed

lemma sees_readable:
  assumes "sees K a xs" "\<forall>y \<in> set [a..<a + length xs]. \<not> ubad K y"
  shows "xs = map (umem K) [a..<a + length xs]"
  by (rule nth_equalityI) (use assms in \<open>auto simp: sees_def\<close>)

text \<open>
  The bytes that a chunk of \<open>n\<close> accepted bytes becomes: in stereo they are the caller's, and all of
  them were readable; in mono every sample is doubled.
\<close>

definition takes :: "kernel \<Rightarrow> int \<Rightarrow> nat \<Rightarrow> nat \<Rightarrow> u8 list \<Rightarrow> bool" where
  "takes K channels a n bs \<longleftrightarrow>
     (if channels = 2 then bs = map (umem K) [a..<a + n] \<and> (\<forall>y \<in> set [a..<a + n]. \<not> ubad K y)
      else \<exists>xs. length xs = n \<and> sees K a xs \<and> bs = dup_samples xs)"

lemma takes_Nil [simp]: "takes K ch a 0 bs \<longleftrightarrow> bs = []"
  by (auto simp: takes_def)

lemma takes_append:
  assumes "takes K ch a k bs" "takes K ch (a + k) m cs" "even k"
  shows "takes K ch a (k + m) (bs @ cs)"
proof (cases "ch = 2")
  case True
  then show ?thesis using assms upt_add_eq_append [of a "a + k" m]
    by (auto simp: takes_def add.assoc [symmetric])
next
  case False
  then obtain xs ys where "length xs = k" "sees K a xs" "bs = dup_samples xs"
    "length ys = m" "sees K (a + k) ys" "cs = dup_samples ys" using assms by (auto simp: takes_def)
  then have "length (xs @ ys) = k + m \<and> sees K a (xs @ ys) \<and> bs @ cs = dup_samples (xs @ ys)"
    using assms(3) sees_append [of K a xs ys] by (simp add: dup_samples_append)
  then have "\<exists>zs. length zs = k + m \<and> sees K a zs \<and> bs @ cs = dup_samples zs" by blast
  then show ?thesis using False unfolding takes_def by simp
qed

lemma takes_readable:
  assumes "takes K ch a n bs" "\<forall>y \<in> set [a..<a + n]. \<not> ubad K y"
  shows "bs = out_bytes K ch a n"
proof (cases "ch = 2")
  case False
  then obtain xs where "length xs = n" "sees K a xs" "bs = dup_samples xs" using assms(1) by (auto simp: takes_def)
  then show ?thesis using False sees_readable [of K a xs] assms(2) by (simp add: out_bytes_def)
qed (use assms(1) in \<open>simp add: takes_def out_bytes_def\<close>)

definition out_len :: "int \<Rightarrow> nat \<Rightarrow> nat" where
  "out_len channels n = (if channels = 2 then n else 2 * n)"

lemma length_takes: "takes K ch a n bs \<Longrightarrow> even n \<Longrightarrow> length bs = out_len ch n"
  by (auto simp: takes_def out_len_def length_dup_samples)

lemma upt_four: "4 \<le> n \<Longrightarrow> [a..<a + n] = a # (a + 1) # (a + 2) # (a + 3) # [a + 4..<(a + 4) + (n - 4)]"
proof -
  assume "4 \<le> n"
  then have "n = Suc (Suc (Suc (Suc (n - 4))))" by simp
  then obtain m where "n = Suc (Suc (Suc (Suc m)))" ..
  then show ?thesis by (simp add: upt_conv_Cons eval_nat_numeral del: upt_Suc)
qed

lemma mono_words_bytes:
  "even n \<Longrightarrow> \<exists>xs. length xs = n \<and> sees K a xs \<and> concat (map bytes32 (mono_words K a (a + n))) = dup_samples xs"
proof (induction n arbitrary: a rule: less_induct)
  case (less n)
  have "n = 0 \<or> n = 2 \<or> 4 \<le> n" using less.prems by presburger
  then consider "n = 0" | "n = 2" | "4 \<le> n" by blast
  then show ?case
  proof cases
    case 1
    then show ?thesis by (simp add: mono_words.simps)
  next
    case 2
    have "sees K a (map (get_user K a 2) [a..<a + 2])" by (rule sees_get_user) simp
    with 2 show ?thesis
      by (intro exI [of _ "map (get_user K a 2) [a..<a + 2]"])
         (simp add: mono_words.simps upt_conv_Cons Let_def get16_def bytes32_dup16)
  next
    case 3
    define m where "m = get_user K a 4"
    have v: "get32 K a = pair m a OR push_bit 16 (pair m (a + 2))" by (simp add: get32_def m_def Let_def)
    obtain xs where xs: "length xs = n - 4" "sees K (a + 4) xs"
      "concat (map bytes32 (mono_words K (a + 4) ((a + 4) + (n - 4)))) = dup_samples xs"
      using less.IH [of "n - 4" "a + 4"] 3 less.prems by auto
    have w: "map m [a..<a + 4] = [m a, m (a + 1), m (a + 2), m (a + 3)]"
      using upt_four [of 4 a] by simp
    have "sees K a (map m [a..<a + 4] @ xs)"
      using sees_append [OF sees_get_user [of 4 K a]] xs(2) by (simp add: m_def)
    moreover have "concat (map bytes32 (mono_words K a (a + n))) = dup_samples (map m [a..<a + 4] @ xs)"
      unfolding w using 3 xs(3)
      by (subst mono_words.simps) (simp add: Let_def bytes32_low [OF v] bytes32_high [OF v])
    ultimately show ?thesis using xs(1) 3 by (intro exI [of _ "map m [a..<a + 4] @ xs"]) simp
  qed
qed

text \<open>\<open>poke\<close> into one mapped area.\<close>

lemma poke_ram:
  assumes "\<And>k. k < length bs \<Longrightarrow> mmu K (a + k) = p + k"
  shows "poke K a bs s = s\<lparr>ram := \<lambda>q. if p \<le> q \<and> q < p + length bs then bs ! (q - p) else ram s q\<rparr>"
  using assms
proof (induction bs arbitrary: a p s)
  case (Cons b bs)
  have m: "mmu K a = p" using Cons.prems [of 0] by simp
  have "mmu K (Suc a + k) = Suc p + k" if "k < length bs" for k using Cons.prems [of "Suc k"] that by simp
  from Cons.IH [OF this] have
    "poke K a (b # bs) s = s\<lparr>ram := \<lambda>q. if Suc p \<le> q \<and> q < Suc p + length bs then bs ! (q - Suc p)
       else ((ram s)(p := b)) q\<rparr>" using m by (simp cong: if_cong)
  also have "\<dots> = s\<lparr>ram := \<lambda>q. if p \<le> q \<and> q < p + length (b # bs) then (b # bs) ! (q - p) else ram s q\<rparr>"
    by (intro arg_cong [where f = "\<lambda>r. s\<lparr>ram := r\<rparr>"]) (auto simp: fun_eq_iff nth_Cons')
  finally show ?case .
next
  case Nil
  have "(\<lambda>q. if p \<le> q \<and> q < p + length [] then [] ! (q - p) else ram s q) = ram s" by (rule ext) auto
  then show ?case by simp
qed

definition poked :: "nat \<Rightarrow> u8 list \<Rightarrow> 'a audio_stream_scheme \<Rightarrow> 'a audio_stream_scheme" where
  "poked p bs s = s\<lparr>ram := \<lambda>q. if p \<le> q \<and> q < p + length bs then bs ! (q - p) else ram s q\<rparr>"

lemma poked_simps [simp]:
  "buf_idx (poked p bs s) = buf_idx s" "fragsize (poked p bs s) = fragsize s"
  "nbfrags (poked p bs s) = nbfrags s" "audio_channels (poked p bs s) = audio_channels s"
  "khist (poked p bs s) = khist s" "buffers (poked p bs s) = buffers s"
  "audio_fragsize (poked p bs s) = audio_fragsize s" "audio_nbfrags (poked p bs s) = audio_nbfrags s"
  by (simp_all add: poked_def)

lemma poked_Nil [simp]: "poked p [] s = s"
proof -
  have "(\<lambda>q. if p \<le> q \<and> q < p + length [] then [] ! (q - p) else ram s q) = ram s" by (rule ext) auto
  then show ?thesis by (simp add: poked_def)
qed

lemma peek_poked_other: "p + length bs \<le> a \<or> a + n \<le> p \<Longrightarrow> peek (poked p bs s) a n = peek s a n"
  by (auto simp: peek_def poked_def)

lemma peek_poked_end: "peek (poked (a + n) bs s) a (n + length bs) = peek s a n @ bs"
  by (rule nth_equalityI) (auto simp: peek_def poked_def nth_append)

lemma ring_poked: "ring K held bs (poked p ds s) = ring K held bs s"
  by (simp only: ring_defs pend_frags_def poked_simps)

text \<open>
  Writing behind the unsent bytes of the current fragment disturbs no fragment the DMA still has.
\<close>

lemma in_flight_poked:
  assumes r: "ring K True bs s" and p: "b_dma_addr (bs ! buf_idx s) \<le> p"
    and l: "p + length ds \<le> b_dma_addr (bs ! buf_idx s) + fragsize s"
  shows "in_flight (poked p ds s) = in_flight s"
proof -
  have "peek (poked p ds s) a (nat n) = peek s a (nat n)" if m: "(i, a, n) \<in> set (pending (khist s))" for i a n
  proof (rule peek_poked_other)
    have i: "i \<in> set (pend_frags s)" using m by (force simp: pend_frags_def)
    then have "i \<noteq> buf_idx s" "i < nbfrags s" using r pend_frags_less [OF r] by (auto simp: ring_def ring_sem_def)
    moreover have "a = b_dma_addr (bs ! i)" "nat n \<le> fragsize s"
      using r m by (auto simp: ring_def ring_pend_def)
    ultimately have "a + fragsize s \<le> b_dma_addr (bs ! buf_idx s) \<or> b_dma_addr (bs ! buf_idx s) + fragsize s \<le> a"
      using r by (auto simp: ring_def ring_geom_def)
    then show "p + length ds \<le> a \<or> a + nat n \<le> p" using p l \<open>nat n \<le> fragsize s\<close> by linarith
  qed
  then show ?thesis by (auto simp: in_flight_def intro!: arg_cong [where f = concat] map_cong)
qed

lemma mono_bytes:
  assumes "even n" "0 < n"
  shows "\<exists>xs. length xs = n \<and> sees K a xs \<and> concat (map bytes32 (if (a div 2) mod 2 = 1
      then let v = get16 K a in (v OR push_bit 16 v) # mono_words K (a + 2) (a + n)
      else mono_words K a (a + n))) = dup_samples xs"
proof (cases "(a div 2) mod 2 = 1")
  case True
  have "2 \<le> n" using assms by presburger
  then have e: "a + n = (a + 2) + (n - 2)" by simp
  obtain xs where xs: "length xs = n - 2" "sees K (a + 2) xs"
    "concat (map bytes32 (mono_words K (a + 2) (a + n))) = dup_samples xs"
    using mono_words_bytes [of "n - 2" K "a + 2"] assms unfolding e by auto
  have "sees K a (map (get_user K a 2) [a..<a + 2] @ xs)"
    using sees_append [OF sees_get_user [of 2 K a]] xs(2) by simp
  moreover have "map (get_user K a 2) [a..<a + 2] = [get_user K a 2 a, get_user K a 2 (a + 1)]"
    by (simp add: upt_conv_Cons)
  ultimately show ?thesis using True xs \<open>2 \<le> n\<close>
    by (intro exI [of _ "map (get_user K a 2) [a..<a + 2] @ xs"]) (simp add: Let_def get16_def bytes32_dup16)
qed (use mono_words_bytes [OF assms(1)] in simp)

lemma copy_mono_eq:
  assumes "even n" "0 < n" "uarea K a n"
  shows "\<exists>d. length d = 2 * n \<and> (\<exists>xs. length xs = n \<and> sees K a xs \<and> d = dup_samples xs) \<and>
    copy_from_user_mono_stereo K dst a n s = (True, poke K dst d s)"
proof -
  obtain xs where "length xs = n" "sees K a xs" "concat (map bytes32 (if (a div 2) mod 2 = 1
      then let v = get16 K a in (v OR push_bit 16 v) # mono_words K (a + 2) (a + n)
      else mono_words K a (a + n))) = dup_samples xs"
    using mono_bytes [OF assms(1,2)] by blast
  then show ?thesis using assms
    unfolding copy_from_user_mono_stereo_def Let_def [of "if _ then _ else _"]
    by (intro exI [of _ "dup_samples xs"]) (auto simp: length_dup_samples)
qed

section \<open>One fragment's share\<close>

text \<open>The chunk: what fits, or what is left.  \<open>m\<close> is the number of bytes a byte becomes.\<close>

lemma chunk_stereo:
  assumes "0 \<le> z" "z < int fs" "fs \<le> 16384"
  shows "(if u32i (s32 (u32i (int fs - z))) > int c then s32 (int c) else s32 (u32i (int fs - z))) =
    min (int fs - z) (int c)"
  using assms by (simp add: u32i_id s32_id)

lemma chunk_mono:
  assumes "0 \<le> z" "z < int fs" "fs \<le> 16384"
  shows "(if u32i (s32 (u32i (int fs - z) div 2)) > int c then s32 (int c) else s32 (u32i (int fs - z) div 2)) =
    min ((int fs - z) div 2) (int c)"
  using assms by (simp add: u32i_id s32_id)

definition frag_chunk :: "int \<Rightarrow> int \<Rightarrow> nat \<Rightarrow> nat \<Rightarrow> nat" where
  "frag_chunk channels z fs c =
     (if channels = 2 then nat (min (int fs - z) (int c)) else nat (min ((int fs - z) div 2) (int c)))"

definition whole_samples :: "int \<Rightarrow> nat \<Rightarrow> bool" where
  "whole_samples channels c \<longleftrightarrow> (if channels = 2 then 4 dvd c else 2 dvd c)"

lemma frag_chunk_bounds:
  assumes "0 \<le> z" "z < int fs" "4 dvd z" "4 dvd fs" "0 < c" "whole_samples channels c"
  defines "k \<equiv> frag_chunk channels z fs c"
  shows "0 < k" "k \<le> c" "even k" "whole_samples channels (c - k)"
    "z + int (out_len channels k) \<le> int fs" "4 dvd out_len channels k"
    "z + int (out_len channels k) < int fs \<Longrightarrow> k = c"
proof -
  obtain f y where f: "fs = 4 * f" and y': "z = 4 * y" using assms(3,4) by (auto elim!: dvdE)
  define g where "g = nat y"
  define d where "d = f - g"
  have y: "z = 4 * int g" and gf: "f = g + d" "0 < d" using assms(1,2) f y' by (simp_all add: g_def d_def)
  have k: "k = (if channels = 2 then min (4 * d) c else min (2 * d) c)"
    unfolding k_def frag_chunk_def f y gf by (auto simp: min_def)
  have "4 dvd c \<Longrightarrow> even c" by presburger
  then have ev: "even k" using assms(6) k by (auto simp: whole_samples_def min_def)
  then show "even k" .
  show "0 < k" "k \<le> c" using k gf assms(5) by (auto simp: min_def)
  have kc: "(if channels = 2 then 4 dvd k else 2 dvd k)" using assms(6) k
    by (auto simp: whole_samples_def min_def)
  then show "whole_samples channels (c - k)" using assms(6) by (auto simp: whole_samples_def dvd_diff_nat)
  show "z + int (out_len channels k) \<le> int fs"
    unfolding out_len_def f y using k gf by (auto simp: min_def)
  show "4 dvd out_len channels k" unfolding out_len_def using kc ev by (auto elim: evenE)
  show "z + int (out_len channels k) < int fs \<Longrightarrow> k = c"
    unfolding out_len_def f y using k gf by (auto simp: min_def split: if_splits)
qed

lemma upd_buf_cong:
  "buffers s = Some bs \<Longrightarrow> f (bs ! i) = g (bs ! i) \<Longrightarrow> upd_buf i f s = upd_buf i g s"
  by (simp add: upd_buf_def)

lemma copy_from_user_cases:
  assumes "\<And>k. k < n \<Longrightarrow> mmu K (dst + k) = p + k"
  shows "if \<exists>x \<in> set [a..<a + n]. ubad K x
    then \<exists>e. length e \<le> n \<and> copy_from_user K dst a n s = (False, poked p e s)
    else copy_from_user K dst a n s = (True, poked p (map (umem K) [a..<a + n]) s)"
proof -
  define good where "good = takeWhile (\<lambda>a. \<not> ubad K a) [a..<a + n]"
  have l: "length good \<le> n" using length_takeWhile_le [of "\<lambda>a. \<not> ubad K a" "[a..<a + n]"] by (simp add: good_def)
  have c: "copy_from_user K dst a n s = (length good = n, poked p (map (umem K) good) s)"
    unfolding copy_from_user_def good_def [symmetric] Let_def poked_def
    using l assms by (subst poke_ram [where p = p]) auto
  show ?thesis
  proof (cases "\<exists>x \<in> set [a..<a + n]. ubad K x")
    case True
    then have "good \<noteq> [a..<a + n]" unfolding good_def using set_takeWhileD by (metis takeWhile_eq_all_conv)
    moreover have "length good = n \<Longrightarrow> good = [a..<a + n]"
      unfolding good_def by (metis add_diff_cancel_left' length_upt takeWhile_eq_take take_all order_refl)
    ultimately have "length good \<noteq> n" by blast
    with c l show ?thesis using True by (auto intro!: exI [of _ "map (umem K) good"])
  next
    case False
    then have "good = [a..<a + n]" by (simp add: good_def takeWhile_eq_all_conv)
    with c False show ?thesis by simp
  qed
qed

text \<open>A chunk is refused, with a part of it stored behind the accepted bytes, or it is taken.\<close>

lemma fill_frag_cases:
  fixes s :: "'a audio_stream_scheme" and a :: nat
  assumes r: "ring K True bs s" and z: "b_size (bs ! buf_idx s) < int (fragsize s)"
    and c: "0 < c" "whole_samples (audio_channels s) c"
  defines "b \<equiv> bs ! buf_idx s"
  defines "k \<equiv> frag_chunk (audio_channels s) (b_size b) (fragsize s) c"
  defines "l \<equiv> out_len (audio_channels s) k" and "p \<equiv> b_dma_addr b + nat (b_size b)"
  shows "(\<exists>e. length e \<le> l \<and> fill_frag K a c (buf_idx s) b s = (False, 0, poked p e s)) \<or>
    (\<exists>d. takes K (audio_channels s) a k d \<and> length d = l \<and> fill_frag K a c (buf_idx s) b s =
      (True, k, upd_buf (buf_idx s) (\<lambda>b'. b'\<lparr>b_size := b_size b + int l\<rparr>) (poked p d s)))"
proof -
  have g: "0 \<le> b_size b" "4 dvd b_size b" "4 dvd fragsize s" "fragsize s \<le> 16384" "buf_idx s < nbfrags s"
    and bufs: "buffers s = Some bs"
    using r by (simp_all add: ring_defs b_def)
  have z': "b_size b < int (fragsize s)" using z by (simp add: b_def)
  note k = frag_chunk_bounds [OF g(1) z' g(2,3) c, folded k_def]
  have fit: "nat (b_size b) + l \<le> fragsize s" using k(5) g(1) by (simp add: l_def)
  have m: "mmu K (b_start b + nat (b_size b) + j) = p + j" if "j < l" for j
  proof -
    have "nat (b_size b) + j < fragsize s" using fit that by simp
    then have "mmu K (b_start b + (nat (b_size b) + j)) = b_dma_addr b + (nat (b_size b) + j)"
      using r g(5) unfolding ring_def ring_geom_def b_def by blast
    then show ?thesis by (simp add: p_def add.assoc)
  qed
  have cong: "upd_buf (buf_idx s) (\<lambda>b. b\<lparr>b_size := s32 (b_size b + w)\<rparr>) t =
      upd_buf (buf_idx s) (\<lambda>b'. b'\<lparr>b_size := b_size b + int l\<rparr>) t"
    if "buffers t = Some bs" "w = int l" for w and t :: "'a audio_stream_scheme"
    using that fit g by (intro upd_buf_cong [of t bs]) (simp_all add: b_def [symmetric] s32_id)
  show ?thesis
  proof (cases "audio_channels s = 2")
    case True
    then have l: "l = k" by (simp add: l_def out_len_def)
    have ck: "min (int (fragsize s) - b_size b) (int c) = int k"
      using True k(1) by (simp add: k_def frag_chunk_def)
    have F: "fill_frag K a c (buf_idx s) b s =
       (case copy_from_user K (b_start b + nat (b_size b)) a k s of (ok, t) \<Rightarrow>
          if ok then (True, k, upd_buf (buf_idx s) (\<lambda>b. b\<lparr>b_size := s32 (b_size b + int k)\<rparr>) t) else (False, 0, t))"
      unfolding fill_frag_def chunk_stereo [OF g(1) z' g(4)] Let_def ck by (simp add: True split_def)
    show ?thesis
    proof (cases "\<exists>x \<in> set [a..<a + k]. ubad K x")
      case bad: True
      then obtain e where "length e \<le> k" "copy_from_user K (b_start b + nat (b_size b)) a k s = (False, poked p e s)"
        using copy_from_user_cases [of k K "b_start b + nat (b_size b)" p a s] m l by auto
      then show ?thesis using F l by auto
    next
      case False
      then have "copy_from_user K (b_start b + nat (b_size b)) a k s = (True, poked p (map (umem K) [a..<a + k]) s)"
        using copy_from_user_cases [of k K "b_start b + nat (b_size b)" p a s] m l by auto
      moreover have "takes K (audio_channels s) a k (map (umem K) [a..<a + k])"
        using False True by (simp add: takes_def)
      moreover have "length (map (umem K) [a..<a + k]) = l" by (simp add: l)
      ultimately show ?thesis
        using F cong [of "poked p (map (umem K) [a..<a + k]) s" "int k"] bufs l
        by (intro disjI2 exI [of _ "map (umem K) [a..<a + k]"]) simp
    qed
  next
    case False
    then have l: "l = 2 * k" by (simp add: l_def out_len_def)
    have ck: "min ((int (fragsize s) - b_size b) div 2) (int c) = int k"
      using False k(1) z' by (simp add: k_def frag_chunk_def)
    have F: "fill_frag K a c (buf_idx s) b s =
       (case copy_from_user_mono_stereo K (b_start b + nat (b_size b)) a k s of (ok, t) \<Rightarrow>
          if ok then (True, k, upd_buf (buf_idx s) (\<lambda>b. b\<lparr>b_size := s32 (b_size b + int k * 2)\<rparr>) t) else (False, 0, t))"
      unfolding fill_frag_def chunk_mono [OF g(1) z' g(4)] Let_def ck by (simp add: False split_def)
    show ?thesis
    proof (cases "uarea K a k")
      case True
      obtain d where d: "length d = 2 * k" "\<exists>xs. length xs = k \<and> sees K a xs \<and> d = dup_samples xs"
        "copy_from_user_mono_stereo K (b_start b + nat (b_size b)) a k s = (True, poke K (b_start b + nat (b_size b)) d s)"
        using copy_mono_eq [OF k(3,1) True] by blast
      have pk: "poke K (b_start b + nat (b_size b)) d s = poked p d s"
        unfolding poked_def using m d(1) l by (intro poke_ram) simp
      have "takes K (audio_channels s) a k d" using False d(2) by (simp add: takes_def)
      then show ?thesis
        using F d(1,3) cong [of "poked p d s" "int k * 2"] bufs l by (intro disjI2 exI [of _ d]) (simp add: pk)
    next
      case bad: False
      then have "fill_frag K a c (buf_idx s) b s = (False, 0, poked p [] s)"
        unfolding F by (simp add: copy_from_user_mono_stereo_def)
      then show ?thesis by (intro disjI1 exI [of _ "[]"]) simp
    qed
  qed
qed

lemma ring_filled:
  assumes r: "ring K True bs s" and fit: "b_size (bs ! buf_idx s) + int (length d) \<le> int (fragsize s)"
    and d: "4 dvd length d"
    and t: "t = upd_buf (buf_idx s) (\<lambda>b'. b'\<lparr>b_size := b_size (bs ! buf_idx s) + int (length d)\<rparr>)
      (poked (b_dma_addr (bs ! buf_idx s) + nat (b_size (bs ! buf_idx s))) d s)"
  shows "\<exists>bs'. ring K True bs' t \<and> b_size (bs' ! buf_idx s) = b_size (bs ! buf_idx s) + int (length d)"
    and "stream_out t = stream_out s @ d" and "khist t = khist s"
proof -
  define b where "b = bs ! buf_idx s"
  define q where "q = b_dma_addr b + nat (b_size b)"
  define u where "u = poked q d s"
  define bs' where "bs' = bs[buf_idx s := b\<lparr>b_size := b_size b + int (length d)\<rparr>]"
  have t': "t = upd_buf (buf_idx s) (\<lambda>b'. b'\<lparr>b_size := b_size b + int (length d)\<rparr>) u"
    by (simp add: t u_def b_def q_def)
  have bufs: "buffers s = Some bs" and len: "buf_idx s < length bs" "length bs = nbfrags s"
    and z: "0 \<le> b_size b" "4 dvd b_size b" using r by (simp_all add: ring_defs b_def)
  have other: "buffers t = Some bs'" "buf_idx t = buf_idx s" "fragsize t = fragsize s"
    "nbfrags t = nbfrags s" "ram t = ram u" "khist t = khist s" "pend_frags t = pend_frags s"
    using bufs by (simp_all add: t' u_def bs'_def b_def pend_frags_def)
  show "khist t = khist s" by (rule other)
  have nth: "b_sem (bs' ! j) = b_sem (bs ! j)" "b_start (bs' ! j) = b_start (bs ! j)"
    "b_dma_addr (bs' ! j) = b_dma_addr (bs ! j)"
    "b_size (bs' ! j) = (if j = buf_idx s then b_size b + int (length d) else b_size (bs ! j))" for j
    using len by (auto simp: bs'_def b_def nth_list_update)
  have dv: "4 dvd b_size b + int (length d)" using z(2) d by (simp add: int_dvd_int_iff [symmetric] del: int_dvd_int_iff)
  have "ring_geom K bs' t" using r unfolding ring_def ring_geom_def other nth by (simp add: bs'_def)
  moreover have "ring_pend bs' t" using r unfolding ring_def ring_pend_def other nth by simp
  moreover have sem: "ring_sem True bs' t" using r unfolding ring_def ring_sem_def other nth by simp
  moreover have "ring_size True bs' t"
    using r z dv fit unfolding ring_def ring_size_def ring_sem_def other nth b_def [symmetric] by auto
  ultimately have r': "ring K True bs' t" using other by (simp add: ring_def)
  then show "\<exists>bs'. ring K True bs' t \<and> b_size (bs' ! buf_idx s) = b_size (bs ! buf_idx s) + int (length d)"
    using nth(4) [of "buf_idx s"] by (auto simp: b_def)
  have pk: "peek t = peek u" using other by (simp add: peek_def fun_eq_iff)
  have "nat (b_size b + int (length d)) = nat (b_size b) + length d" using z by simp
  then have "partial t = partial s @ d"
    unfolding ring_partial [OF r'] ring_partial [OF r] other nth pk u_def q_def b_def [symmetric]
    by (simp add: peek_poked_end)
  moreover have "in_flight u = in_flight s"
    unfolding u_def q_def b_def using fit z by (intro in_flight_poked [OF r]) (simp_all add: b_def)
  then have "in_flight t = in_flight s" by (simp add: in_flight_def pk other u_def)
  ultimately show "stream_out t = stream_out s @ d" by (simp add: stream_out_def other)
qed

lemma ring_send:
  assumes r: "ring K True bs s"
  defines "t \<equiv> send_frag (buf_idx s) (bs ! buf_idx s) s"
  shows "\<exists>bs'. ring K False bs' t \<and> b_size (bs' ! buf_idx t) = 0" and "stream_out t = stream_out s"
    and "khist t = khist s @ [Dqueue (buf_idx s) (b_dma_addr (bs ! buf_idx s)) (b_size (bs ! buf_idx s))]"
proof -
  define b where "b = bs ! buf_idx s"
  define bs' where "bs' = bs[buf_idx s := b\<lparr>b_size := 0\<rparr>]"
  define n where "n = nbfrags s"
  have bufs: "buffers s = Some bs" and len: "buf_idx s < n" "length bs = n"
    and fs: "16 \<le> fragsize s" using r by (simp_all add: ring_defs n_def)
  have h: "khist t = khist s @ [Dqueue (buf_idx s) (b_dma_addr b) (b_size b)]"
    by (simp add: t_def send_frag_def b_def)
  then show "khist t = khist s @ [Dqueue (buf_idx s) (b_dma_addr (bs ! buf_idx s)) (b_size (bs ! buf_idx s))]"
    by (simp add: b_def)
  have p: "pending (khist t) = pending (khist s) @ [(buf_idx s, b_dma_addr b, b_size b)]" by (simp add: h)
  have other: "buffers t = Some bs'" "buf_idx t = (buf_idx s + 1) mod n" "fragsize t = fragsize s"
    "nbfrags t = n" "ram t = ram s" "pend_frags t = pend_frags s @ [buf_idx s]"
    using bufs by (simp_all add: t_def send_frag_def bs'_def b_def n_def pend_frags_def)
  have nth: "b_sem (bs' ! j) = b_sem (bs ! j)" "b_start (bs' ! j) = b_start (bs ! j)"
    "b_dma_addr (bs' ! j) = b_dma_addr (bs ! j)"
    "b_size (bs' ! j) = (if j = buf_idx s then 0 else b_size (bs ! j))" for j
    using len by (auto simp: bs'_def b_def nth_list_update)
  have z: "b_size (bs' ! j) = 0" if "j < n" for j
    using r that unfolding ring_def ring_size_def nth n_def by auto
  have lt: "(buf_idx s + 1) mod n < n" using len by simp
  have m: "length (pending (khist s)) < n" and sl: "pend_frags s = slots n (buf_idx s) (length (pending (khist s)))"
  proof -
    show sl: "pend_frags s = slots n (buf_idx s) (length (pending (khist s)))"
      using r by (simp add: ring_def ring_pend_def n_def)
    have "length (pending (khist s)) \<le> n" "buf_idx s \<notin> set (pend_frags s)"
      using r unfolding ring_def ring_pend_def ring_sem_def n_def by blast+
    then show "length (pending (khist s)) < n" using in_full_slots [OF len(1)] sl by (metis le_neq_implies_less)
  qed
  have "ring_geom K bs' t" using r len lt unfolding ring_def ring_geom_def other nth by (simp add: bs'_def n_def)
  moreover have "ring_pend bs' t"
    using r m sl slots_next [OF len(1) m] unfolding ring_def ring_pend_def other nth p
    by (simp add: b_def n_def ring_size_def)
  moreover have "ring_sem False bs' t"
    using r unfolding ring_def ring_sem_def other nth by (auto simp: n_def)
  moreover have "ring_size False bs' t"
    unfolding ring_size_def other using z lt fs by simp
  ultimately have r': "ring K False bs' t" using other by (simp add: ring_def)
  then show "\<exists>bs'. ring K False bs' t \<and> b_size (bs' ! buf_idx t) = 0" using z lt other by auto
  have pk: "peek t = peek s" using other by (simp add: peek_def fun_eq_iff)
  have "partial t = []" unfolding ring_partial [OF r'] other using z [OF lt] by (simp add: peek_def)
  then show "stream_out t = stream_out s"
    by (simp add: stream_out_def in_flight_def h ring_partial [OF r] pk b_def)
qed

lemma ring_release:
  assumes r: "ring K True bs s" and z: "b_size (bs ! buf_idx s) < int (fragsize s)"
  shows "\<exists>bs'. ring K False bs' (up_sem (buf_idx s) s) \<and> b_size (bs' ! buf_idx s) = b_size (bs ! buf_idx s)"
    and "stream_out (up_sem (buf_idx s) s) = stream_out s"
    and "khist (up_sem (buf_idx s) s) = khist s"
proof -
  define t where "t = up_sem (buf_idx s) s"
  have t: "t = upd_buf (buf_idx s) (\<lambda>b. b\<lparr>b_sem := b_sem b + 1\<rparr>) s" by (simp add: t_def up_sem_def)
  have lt: "buf_idx s < nbfrags s" using r by (simp add: ring_defs)
  note c = ring_upd_sem [where f = "\<lambda>b. b_sem b + 1", OF r lt refl t]
  have idx: "buf_idx t = buf_idx s" "nbfrags t = nbfrags s" "fragsize t = fragsize s" by (simp_all add: t)
  have "ring_sem False (bs[buf_idx s := (bs ! buf_idx s)\<lparr>b_sem := b_sem (bs ! buf_idx s) + 1\<rparr>]) t"
    using r lt unfolding ring_def ring_sem_def c(5,8) idx by auto
  moreover have "ring_size False (bs[buf_idx s := (bs ! buf_idx s)\<lparr>b_sem := b_sem (bs ! buf_idx s) + 1\<rparr>]) t"
    using c(4) z unfolding ring_size_def c(6) idx by simp
  ultimately have "ring K False (bs[buf_idx s := (bs ! buf_idx s)\<lparr>b_sem := b_sem (bs ! buf_idx s) + 1\<rparr>]) t"
    using c(1-3) by (simp add: ring_def)
  then show "\<exists>bs'. ring K False bs' (up_sem (buf_idx s) s) \<and> b_size (bs' ! buf_idx s) = b_size (bs ! buf_idx s)"
    unfolding t_def using c(6) by blast
  show "stream_out (up_sem (buf_idx s) s) = stream_out s" using c(7) by (simp add: t_def)
  show "khist (up_sem (buf_idx s) s) = khist s" by (simp add: up_sem_def)
qed

section \<open>The write call\<close>

lemma khist_poke [simp]: "khist (poke K a bs s) = khist s"
  by (induction bs arbitrary: a s) auto

lemma khist_fill: "fill_frag K a c i b s = (ok, k, t) \<Longrightarrow> khist t = khist s"
  by (auto simp: fill_frag_def copy_from_user_def copy_from_user_mono_stereo_def Let_def split: if_splits)

lemma khist_send: "khist (send_frag i b s) = khist s @ [Dqueue i (b_dma_addr b) (b_size b)]"
  by (simp add: send_frag_def)

lemma khist_up [simp]: "khist (up_sem i s) = khist s"
  by (simp add: up_sem_def)

lemma quiet_prefix: "quiet s t \<Longrightarrow> prefix (khist s) (khist t)"
  by (simp add: quiet_def)

lemma write_loop_prefix: "write_loop K nonblock sched a c ret s = Some (res, t) \<Longrightarrow> prefix (khist s) (khist t)"
proof (induction K nonblock sched a c ret s rule: write_loop.induct)
  case (2 K nonblock ds sched a c ret s)
  show ?case
  proof (cases "0 < c")
    case True
    from "2.prems" True obtain got u where d: "down_sem ds (buf_idx s) s = Some (got, u)"
      by (auto simp: Let_def split: option.splits)
    have su: "prefix (khist s) (khist u)" using quiet_down [OF d] by (rule quiet_prefix)
    show ?thesis
    proof (cases got)
      case got: True
      obtain ok k v where f: "fill_frag K a c (buf_idx s) (the (buf_at (buf_idx s) u)) u = (ok, k, v)"
        by (metis prod_cases3)
      have kv: "khist v = khist u" by (rule khist_fill [OF f])
      have IH: "write_loop K nonblock sched (a + k) (c - k) (if nonblock then -11 else -512)
          (send_frag (buf_idx s) b v) = Some (res, t) \<Longrightarrow> prefix (khist v) (khist t)"
        if "buf_at (buf_idx s) u = Some b0" "ok" "buf_at (buf_idx s) v = Some b" "\<not> b_size b < int (fragsize v)" for b0 b
      proof -
        assume w: "write_loop K nonblock sched (a + k) (c - k) (if nonblock then -11 else -512)
          (send_frag (buf_idx s) b v) = Some (res, t)"
        have "prefix (khist (send_frag (buf_idx s) b v)) (khist t)"
          using "2.IH" [OF _ refl refl d refl _ that(1) _ refl _ that(3,4) w] True got f that by simp
        then show ?thesis by (auto simp: khist_send prefix_def)
      qed
      show ?thesis
        using "2.prems" True d got f su kv
        by (auto simp: Let_def split: option.splits if_splits dest!: IH)
    next
      case False
      with "2.prems" True d su show ?thesis by simp
    qed
  next
    case False
    with "2.prems" show ?thesis by simp
  qed
qed (simp split: if_splits)

lemma write_loop_prefix_down:
  assumes w: "write_loop K nonblock (ds # sched) a c ret s = Some (res, t)" and c: "0 < c"
    and d: "down_sem ds (buf_idx s) s = Some (got, u)"
  shows "prefix (khist u) (khist t)"
proof -
  obtain ok k v where f: "fill_frag K a c (buf_idx s) (the (buf_at (buf_idx s) u)) u = (ok, k, v)"
    by (metis prod_cases3)
  have kv: "khist v = khist u" by (rule khist_fill [OF f])
  have "prefix (khist v) (khist t)"
    if "write_loop K nonblock sched a' c' ret' (send_frag (buf_idx s) b v) = Some (res, t)" for a' c' ret' b
    using write_loop_prefix [OF that] by (auto simp: khist_send prefix_def)
  then show ?thesis using w c d f kv by (auto simp: Let_def split: option.splits if_splits)
qed

definition quiet_idx :: "'a audio_stream_scheme \<Rightarrow> 'a audio_stream_scheme \<Rightarrow> bool" where
  "quiet_idx s t \<longleftrightarrow> buf_idx t = buf_idx s \<and> fragsize t = fragsize s \<and> nbfrags t = nbfrags s \<and>
     audio_channels t = audio_channels s"

text \<open>One round of the loop that has the semaphore, on a ring.\<close>

lemma write_loop_round:
  fixes u :: "'a audio_stream_scheme" and nonblock :: bool and a :: nat
  assumes d: "down_sem ds (buf_idx s) s = Some (True, u)" and idx: "buf_idx u = buf_idx s"
    and r: "ring K True bs u" and z: "b_size (bs ! buf_idx u) < int (fragsize u)"
    and c: "0 < c" "whole_samples (audio_channels u) c"
  defines "ret' \<equiv> if nonblock then -11 else -512 :: int"
  defines "k \<equiv> frag_chunk (audio_channels u) (b_size (bs ! buf_idx u)) (fragsize u) c"
  defines "l \<equiv> out_len (audio_channels u) k"
  shows "(\<exists>e. length e \<le> l \<and> write_loop K nonblock (ds # sched) a c ret s =
        Some (Inl (-14), up_sem (buf_idx u) (poked (b_dma_addr (bs ! buf_idx u) + nat (b_size (bs ! buf_idx u))) e u))) \<or>
    (\<exists>q v bs'. takes K (audio_channels u) a k q \<and>
        ring K True bs' v \<and> b_size (bs' ! buf_idx u) = b_size (bs ! buf_idx u) + int l \<and>
        quiet_idx u v \<and> stream_out v = stream_out u @ q \<and> khist v = khist u \<and>
        write_loop K nonblock (ds # sched) a c ret s =
          (if b_size (bs ! buf_idx u) + int l < int (fragsize u)
           then Some (Inr (ret', a + k), up_sem (buf_idx u) v)
           else write_loop K nonblock sched (a + k) (c - k) ret' (send_frag (buf_idx u) (bs' ! buf_idx u) v)))"
proof -
  define b where "b = bs ! buf_idx u"
  have at: "buf_at (buf_idx s) u = Some b" using ring_buf_at(1) [OF r] by (simp add: idx b_def)
  have w: "write_loop K nonblock (ds # sched) a c ret s =
    (case fill_frag K a c (buf_idx u) b u of (ok, chunksize, s') \<Rightarrow>
       if \<not> ok then Some (Inl (-14), up_sem (buf_idx u) s')
       else case buf_at (buf_idx u) s' of None \<Rightarrow> None
         | Some b \<Rightarrow>
             if b_size b < int (fragsize s') then Some (Inr (ret', a + chunksize), up_sem (buf_idx u) s')
             else write_loop K nonblock sched (a + chunksize) (c - chunksize) ret' (send_frag (buf_idx u) b s'))"
    using c at unfolding ret'_def idx by (simp add: d Let_def)
  from fill_frag_cases [OF r z c, of a, folded k_def, folded l_def, folded b_def]
  show ?thesis
  proof (elim disjE exE conjE)
    fix e assume "length e \<le> l"
      "fill_frag K a c (buf_idx u) b u = (False, 0, poked (b_dma_addr b + nat (b_size b)) e u)"
    then show ?thesis unfolding w b_def [symmetric] by auto
  next
    fix q assume q: "takes K (audio_channels u) a k q" "length q = l"
      and f: "fill_frag K a c (buf_idx u) b u = (True, k, upd_buf (buf_idx u) (\<lambda>b'. b'\<lparr>b_size := b_size b + int l\<rparr>)
        (poked (b_dma_addr b + nat (b_size b)) q u))"
    define v where v: "v = upd_buf (buf_idx u) (\<lambda>b'. b'\<lparr>b_size := b_size b + int (length q)\<rparr>)
        (poked (b_dma_addr b + nat (b_size b)) q u)"
    have f': "fill_frag K a c (buf_idx u) b u = (True, k, v)" using f q(2) v by simp
    have g: "0 \<le> b_size b" "4 dvd b_size b" "4 dvd fragsize u" using r by (simp_all add: ring_defs b_def)
    have fit: "b_size b + int (length q) \<le> int (fragsize u)" "4 dvd length q"
      using frag_chunk_bounds(5,6) [OF g(1) z [folded b_def] g(2,3) c]
      by (simp_all add: q(2) l_def k_def b_def)
    obtain bs' where bs': "ring K True bs' v" "b_size (bs' ! buf_idx u) = b_size b + int l"
      and so: "stream_out v = stream_out u @ q" and h: "khist v = khist u"
      using ring_filled [OF r fit [unfolded b_def] v [unfolded b_def]] unfolding b_def [symmetric] q(2) by auto
    have vi: "buf_idx v = buf_idx u" "fragsize v = fragsize u" "quiet_idx u v" by (simp_all add: v quiet_idx_def)
    have "buf_at (buf_idx u) v = Some (bs' ! buf_idx u)" using bs'(1) vi ring_buf_at(1) by metis
    then have "write_loop K nonblock (ds # sched) a c ret s =
        (if b_size b + int l < int (fragsize u)
         then Some (Inr (ret', a + k), up_sem (buf_idx u) v)
         else write_loop K nonblock sched (a + k) (c - k) ret' (send_frag (buf_idx u) (bs' ! buf_idx u) v))"
      unfolding w f' using bs'(2) vi by simp
    then show ?thesis
      using q(1) bs' so h vi(3) unfolding b_def by (intro disjI2 exI [of _ q] exI [of _ v] exI [of _ bs']) blast
  qed
qed

definition write_result :: "kernel \<Rightarrow> int \<Rightarrow> nat \<Rightarrow> nat \<Rightarrow> 'a audio_stream_scheme \<Rightarrow> int + int \<times> nat
    \<Rightarrow> 'a audio_stream_scheme \<Rightarrow> bool" where
  "write_result K ch a c s res t \<longleftrightarrow> (\<exists>bs. ring K False bs t) \<and>
     (case res of
        Inl e \<Rightarrow> e = -14 \<and> (\<exists>n < c. \<exists>ds. takes K ch a n ds \<and> stream_out t = stream_out s @ ds)
      | Inr (r, a') \<Rightarrow> a \<le> a' \<and> a' \<le> a + c \<and> (\<exists>ds. takes K ch a (a' - a) ds \<and> stream_out t = stream_out s @ ds) \<and>
          (a' < a + c \<longrightarrow> length (pending (khist t)) = nbfrags s))"

text \<open>The bytes of one chunk go in front of those of the rest.\<close>

lemma write_result_step:
  assumes w: "write_result K ch (a + k) (c - k) u res t" and q: "takes K ch a k q" "even k" "k \<le> c"
    and so: "stream_out u = stream_out s @ q" and n: "nbfrags u = nbfrags s"
  shows "write_result K ch a c s res t"
proof (cases res)
  case (Inl e)
  then obtain m ds where "m < c - k" "takes K ch (a + k) m ds" "stream_out t = stream_out u @ ds"
    using w by (auto simp: write_result_def)
  then have "k + m < c \<and> takes K ch a (k + m) (q @ ds) \<and> stream_out t = stream_out s @ (q @ ds)"
    using takes_append [OF q(1) _ q(2)] so q(3) by auto
  then show ?thesis using w Inl unfolding write_result_def by auto
next
  case (Inr x)
  obtain r a' where x: "x = (r, a')" by (cases x)
  obtain ds where a': "a + k \<le> a'" "a' \<le> a + c" "takes K ch (a + k) (a' - (a + k)) ds" "stream_out t = stream_out u @ ds"
    "a' < a + c \<longrightarrow> length (pending (khist t)) = nbfrags s"
    using w q(3) n by (auto simp: write_result_def Inr x)
  have "takes K ch a (k + (a' - (a + k))) (q @ ds)" by (rule takes_append [OF q(1) a'(3) q(2)])
  moreover have "stream_out t = stream_out s @ (q @ ds)" using a'(4) so by simp
  moreover have "k + (a' - (a + k)) = a' - a" using a'(1) by simp
  ultimately have "\<exists>ds. takes K ch a (a' - a) ds \<and> stream_out t = stream_out s @ ds" by auto
  then show ?thesis using w a' unfolding write_result_def Inr x by auto
qed

lemma write_loop_stream:
  assumes "write_loop K nonblock sched a c ret s = Some (res, t)" "ring K False bs s"
    "whole_samples (audio_channels s) c" "dma_fifo (khist t)"
  shows "write_result K (audio_channels s) a c s res t"
  using assms
proof (induction sched arbitrary: a c ret s bs)
  case Nil
  then show ?case by (auto simp: write_result_def split: if_splits)
next
  case (Cons ds sched)
  show ?case
  proof (cases "0 < c")
    case False
    with Cons.prems show ?thesis by (auto simp: write_result_def split: if_splits)
  next
    case True
    from Cons.prems(1) True obtain got u where d: "down_sem ds (buf_idx s) s = Some (got, u)"
      by (auto simp: Let_def split: option.splits)
    have q: "quiet s u" by (rule quiet_down [OF d])
    then have idx: "buf_idx u = buf_idx s" "audio_channels u = audio_channels s" "nbfrags u = nbfrags s"
      by (simp_all add: quiet_def)
    show ?thesis
    proof (cases got)
      case False
      then have t: "t = u" "res = Inr (if nonblock then -11 else -512, a)" using Cons.prems(1) True d by simp_all
      note D = down_sem_idx [OF Cons.prems(2) d Cons.prems(4) [unfolded t]]
      show ?thesis using D False t by (auto simp: write_result_def split: if_splits)
    next
      case got: True
      note d = d [unfolded eqTrueI [OF got]]
      have fifo: "dma_fifo (khist u)"
        using write_loop_prefix_down [OF Cons.prems(1) True d] Cons.prems(4) by (rule dma_fifo_prefix)
      obtain bs' where r: "ring K True bs' u" "b_size (bs' ! buf_idx u) < int (fragsize u)"
        and so: "stream_out u = stream_out s" using down_sem_idx [OF Cons.prems(2) d fifo] by auto
      define z where "z = b_size (bs' ! buf_idx u)"
      define k where "k = frag_chunk (audio_channels u) z (fragsize u) c"
      define l where "l = out_len (audio_channels u) k"
      define p where "p = b_dma_addr (bs' ! buf_idx u) + nat z"
      have g: "0 \<le> z" "4 dvd z" "4 dvd fragsize u" "z < int (fragsize u)" using r by (simp_all add: ring_defs z_def)
      have wc: "whole_samples (audio_channels u) c" using Cons.prems(3) idx by simp
      note kb = frag_chunk_bounds [OF g(1,4,2,3) True wc, folded k_def]
      have fit: "z + int l \<le> int (fragsize u)" using kb(5) by (simp add: l_def)
      have "(\<exists>e. length e \<le> l \<and> Some (res, t) = Some (Inl (-14), up_sem (buf_idx u) (poked p e u))) \<or>
          (\<exists>q v bs''. takes K (audio_channels u) a k q \<and>
            ring K True bs'' v \<and> b_size (bs'' ! buf_idx u) = z + int l \<and> quiet_idx u v \<and>
            stream_out v = stream_out u @ q \<and> khist v = khist u \<and> Some (res, t) =
              (if z + int l < int (fragsize u)
               then Some (Inr (if nonblock then -11 else -512, a + k), up_sem (buf_idx u) v)
               else write_loop K nonblock sched (a + k) (c - k) (if nonblock then -11 else -512)
                 (send_frag (buf_idx u) (bs'' ! buf_idx u) v)))"
        using write_loop_round [where nonblock = nonblock and a = a and sched = sched and ret = ret,
          OF d idx(1) r True wc, folded z_def, folded k_def,
          folded l_def, folded p_def] unfolding Cons.prems(1) .
      then show ?thesis
      proof (elim disjE exE conjE)
        fix e assume e: "length e \<le> l" "Some (res, t) = Some (Inl (-14), up_sem (buf_idx u) (poked p e u))"
        have inside: "p + length e \<le> b_dma_addr (bs' ! buf_idx u) + fragsize u"
          using fit e(1) g by (simp add: p_def)
        have rp: "ring K True bs' (poked p e u)" using r by (simp add: ring_poked)
        have "partial (poked p e u) = partial u"
          unfolding ring_partial [OF rp] ring_partial [OF r(1)] by (simp add: peek_poked_other p_def z_def)
        then have "stream_out (poked p e u) = stream_out u"
          using in_flight_poked [OF r(1) _ inside] by (simp add: stream_out_def p_def)
        then show ?thesis
          using ring_release [OF rp] r(2) e so \<open>0 < c\<close>
          by (auto simp: write_result_def intro!: exI [of _ 0])
      next
        fix q v bs''
        assume q: "takes K (audio_channels u) a k q"
          and v: "ring K True bs'' v" "b_size (bs'' ! buf_idx u) = z + int l"
          "quiet_idx u v" "stream_out v = stream_out u @ q" "khist v = khist u"
          and w: "Some (res, t) = (if z + int l < int (fragsize u)
               then Some (Inr (if nonblock then -11 else -512, a + k), up_sem (buf_idx u) v)
               else write_loop K nonblock sched (a + k) (c - k) (if nonblock then -11 else -512)
                 (send_frag (buf_idx u) (bs'' ! buf_idx u) v))"
        have vi: "buf_idx v = buf_idx u" "fragsize v = fragsize u" "nbfrags v = nbfrags u"
          "audio_channels v = audio_channels u" using v(3) by (simp_all add: quiet_idx_def)
        show ?thesis
        proof (cases "z + int l < int (fragsize u)")
          case True
          then have t: "res = Inr (if nonblock then -11 else -512, a + k)" "t = up_sem (buf_idx u) v" using w by simp_all
          have "k = c" using kb(7) True by (simp add: l_def)
          have R: "\<exists>bs. ring K False bs t" "stream_out t = stream_out s @ q"
            using ring_release [OF v(1)] True v(2,4) so vi by (auto simp: t(2))
          have "takes K (audio_channels s) a (a + c - a) q" using q idx(2) \<open>k = c\<close> by simp
          then show ?thesis unfolding write_result_def t(1) \<open>k = c\<close> using R by auto
        next
          case False
          then have w': "write_loop K nonblock sched (a + k) (c - k) (if nonblock then -11 else -512)
              (send_frag (buf_idx v) (bs'' ! buf_idx v) v) = Some (res, t)" using w vi by simp
          obtain bs3 where r3: "ring K False bs3 (send_frag (buf_idx v) (bs'' ! buf_idx v) v)"
            and so3: "stream_out (send_frag (buf_idx v) (bs'' ! buf_idx v) v) = stream_out v"
            using ring_send [OF v(1)] by auto
          have ch: "audio_channels (send_frag (buf_idx v) (bs'' ! buf_idx v) v) = audio_channels s"
            "nbfrags (send_frag (buf_idx v) (bs'' ! buf_idx v) v) = nbfrags s"
            using vi idx by (simp_all add: send_frag_def)
          have "write_result K (audio_channels s) (a + k) (c - k) (send_frag (buf_idx v) (bs'' ! buf_idx v) v) res t"
            using Cons.IH [OF w' r3 _ Cons.prems(4)] kb(4) ch idx by simp
          then show ?thesis
          proof (rule write_result_step [OF _ q [unfolded idx(2)] kb(3,2)])
            show "stream_out (send_frag (buf_idx v) (bs'' ! buf_idx v) v) = stream_out s @ q"
              using so3 v(4) so by simp
          qed (rule ch(2))
        qed
      qed
    qed
  qed
qed

section \<open>The write call returns\<close>

text \<open>
  The part of the invariant that does not depend on the DMA: enough for the loop to make progress.
\<close>

definition ring_shape :: "audio_buf list \<Rightarrow> 'a audio_stream_scheme \<Rightarrow> bool" where
  "ring_shape bs s \<longleftrightarrow> buffers s = Some bs \<and> length bs = nbfrags s \<and> buf_idx s < nbfrags s \<and>
     0 < fragsize s \<and> fragsize s \<le> 16384 \<and> 4 dvd fragsize s \<and>
     (\<forall>i < nbfrags s. i \<noteq> buf_idx s \<longrightarrow> b_size (bs ! i) = 0) \<and>
     0 \<le> b_size (bs ! buf_idx s) \<and> b_size (bs ! buf_idx s) < int (fragsize s) \<and> 4 dvd b_size (bs ! buf_idx s)"

lemma ring_shape: "ring K False bs s \<Longrightarrow> ring_shape bs s"
  by (simp add: ring_defs ring_shape_def)

lemma quiet_sizes:
  assumes q: "quiet s t" and b: "buffers s = Some bs"
  shows "\<exists>bs'. buffers t = Some bs' \<and> length bs' = length bs \<and> (\<forall>i < length bs. b_size (bs' ! i) = b_size (bs ! i))"
proof -
  define f where "f = (\<lambda>b :: audio_buf. (b_size b, b_start b, b_dma_addr b, b_master b))"
  have "map_option (map f) (buffers t) = Some (map f bs)" using q b by (simp add: quiet_def f_def)
  then obtain bs' where bs': "buffers t = Some bs'" and m: "map f bs' = map f bs" by auto
  have l: "length bs' = length bs" using m by (rule map_eq_imp_length_eq)
  have "b_size (bs' ! i) = b_size (bs ! i)" if "i < length bs" for i
    using arg_cong [where f = "\<lambda>xs. fst (xs ! i)", OF m] that l by (simp add: f_def)
  then show ?thesis using bs' l by blast
qed

lemma ring_shape_quiet:
  assumes "ring_shape bs s" "quiet s t"
  shows "\<exists>bs'. ring_shape bs' t \<and> b_size (bs' ! buf_idx t) = b_size (bs ! buf_idx s)"
proof -
  have "buffers s = Some bs" using assms(1) by (simp add: ring_shape_def)
  from quiet_sizes [OF assms(2) this] obtain bs' where "buffers t = Some bs'" "length bs' = length bs"
    "\<forall>i < length bs. b_size (bs' ! i) = b_size (bs ! i)" by blast
  then show ?thesis using assms by (intro exI [of _ bs']) (auto simp: ring_shape_def quiet_def)
qed

lemma shape_buf_at: "ring_shape bs s \<Longrightarrow> buf_at (buf_idx s) s = Some (bs ! buf_idx s)"
  by (simp add: ring_shape_def buf_at_def)

lemma down_sem_shape:
  assumes "ring_shape bs s" "i = buf_idx s"
  shows "\<exists>got t bs'. down_sem ds i s = Some (got, t) \<and> quiet s t \<and> ring_shape bs' t \<and>
    b_size (bs' ! buf_idx t) = b_size (bs ! buf_idx s)"
proof -
  define u where "u = fold dma_out_irq ds s"
  have q: "quiet s u" unfolding u_def by (rule quiet_irqs)
  obtain bs1 where "ring_shape bs1 u" using ring_shape_quiet [OF assms(1) q] by blast
  then have "buf_at i u = Some (bs1 ! buf_idx u)" using shape_buf_at q assms(2) by (metis quiet_def)
  then obtain got t where d: "down_sem ds i s = Some (got, t)"
    unfolding down_sem_def u_def [symmetric] Let_def by (cases "0 < b_sem (bs1 ! buf_idx u)") auto
  show ?thesis using ring_shape_quiet [OF assms(1) quiet_down [OF d]] quiet_down [OF d] d by blast
qed

lemma poke_fields [simp]:
  "buffers (poke K a ds s) = buffers s" "buf_idx (poke K a ds s) = buf_idx s"
  "fragsize (poke K a ds s) = fragsize s" "nbfrags (poke K a ds s) = nbfrags s"
  "audio_channels (poke K a ds s) = audio_channels s"
  by (induction K a ds s rule: poke.induct) auto

lemma fill_frag_shape:
  assumes r: "ring_shape bs u" and c: "0 < c" "whole_samples (audio_channels u) c"
    and f: "fill_frag K a c (buf_idx u) (bs ! buf_idx u) u = (True, k, v)"
  shows "k = frag_chunk (audio_channels u) (b_size (bs ! buf_idx u)) (fragsize u) c"
    "buffers v = Some (bs[buf_idx u := (bs ! buf_idx u)\<lparr>b_size := b_size (bs ! buf_idx u) +
        int (if audio_channels u = 2 then k else 2 * k)\<rparr>])"
    "buf_idx v = buf_idx u" "fragsize v = fragsize u" "nbfrags v = nbfrags u" "audio_channels v = audio_channels u"
proof -
  define b where "b = bs ! buf_idx u"
  have g: "0 \<le> b_size b" "4 dvd b_size b" "4 dvd fragsize u" "fragsize u \<le> 16384" "b_size b < int (fragsize u)"
    "buffers u = Some bs"
    using r by (simp_all add: ring_shape_def b_def)
  note kb = frag_chunk_bounds [OF g(1,5,2,3) c]
  have "k = frag_chunk (audio_channels u) (b_size b) (fragsize u) c \<and>
    buffers v = Some (bs[buf_idx u := b\<lparr>b_size := b_size b + int (if audio_channels u = 2 then k else 2 * k)\<rparr>]) \<and>
    buf_idx v = buf_idx u \<and> fragsize v = fragsize u \<and> nbfrags v = nbfrags u \<and> audio_channels v = audio_channels u"
  proof (cases "audio_channels u = 2")
    case True
    have ck: "min (int (fragsize u) - b_size b) (int c) = int (frag_chunk 2 (b_size b) (fragsize u) c)"
      using kb(1) True by (simp add: frag_chunk_def)
    show ?thesis
      using f kb(5) g(1,4,6) unfolding fill_frag_def b_def [symmetric] chunk_stereo [OF g(1,5,4)] Let_def
      by (auto simp: True ck copy_from_user_def Let_def s32_id out_len_def b_def [symmetric] split: if_splits)
  next
    case False
    have ck: "min ((int (fragsize u) - b_size b) div 2) (int c) = int (frag_chunk (audio_channels u) (b_size b) (fragsize u) c)"
      using kb(1) False g(5) by (simp add: frag_chunk_def)
    show ?thesis
      using f kb(5) g(1,4,6) unfolding fill_frag_def b_def [symmetric] chunk_mono [OF g(1,5,4)] Let_def
      by (auto simp: False ck copy_from_user_mono_stereo_def Let_def s32_id out_len_def b_def [symmetric] mult.commute split: if_splits)
  qed
  then show "k = frag_chunk (audio_channels u) (b_size (bs ! buf_idx u)) (fragsize u) c"
    "buffers v = Some (bs[buf_idx u := (bs ! buf_idx u)\<lparr>b_size := b_size (bs ! buf_idx u) +
        int (if audio_channels u = 2 then k else 2 * k)\<rparr>])"
    "buf_idx v = buf_idx u" "fragsize v = fragsize u" "nbfrags v = nbfrags u" "audio_channels v = audio_channels u"
    by (auto simp: b_def)
qed

text \<open>
  One schedule entry per fragment the data touches is enough: \<open>m\<close> is the number of sound bytes,
  the unsent ones of the current fragment included.
\<close>

lemma write_loop_returns:
  assumes "ring_shape bs s" "whole_samples (audio_channels s) c"
    "m = (if audio_channels s = 2 then c else 2 * c) + nat (b_size (bs ! buf_idx s))" "m div fragsize s < length sched"
  shows "\<exists>res t. write_loop K nonblock sched a c ret s = Some (res, t)"
  using assms
proof (induction sched arbitrary: m a c ret s bs)
  case (Cons ds sched)
  show ?case
  proof (cases "0 < c")
    case True
    obtain got u bs1 where d: "down_sem ds (buf_idx s) s = Some (got, u)" "quiet s u" "ring_shape bs1 u"
      "b_size (bs1 ! buf_idx u) = b_size (bs ! buf_idx s)"
      using down_sem_shape [OF Cons.prems(1) refl] by blast
    have q: "buf_idx u = buf_idx s" "fragsize u = fragsize s" "audio_channels u = audio_channels s"
      using d(2) by (simp_all add: quiet_def)
    have at: "buf_at (buf_idx s) u = Some (bs1 ! buf_idx u)" using shape_buf_at [OF d(3)] q(1) by simp
    obtain ok k v where f: "fill_frag K a c (buf_idx u) (bs1 ! buf_idx u) u = (ok, k, v)" by (metis prod_cases3)
    show ?thesis
    proof (cases "got \<and> ok")
      case False
      then show ?thesis using True d(1) at f q(1) by (auto simp: Let_def)
    next
      case both: True
      have wc: "whole_samples (audio_channels u) c" using Cons.prems(2) q by simp
      note F = fill_frag_shape [OF d(3) True wc f [unfolded eqTrueI [OF conjunct2 [OF both]]]]
      define z where "z = b_size (bs1 ! buf_idx u)"
      define l where "l = (if audio_channels u = 2 then k else 2 * k)"
      have g: "0 \<le> z" "4 dvd z" "4 dvd fragsize u" "z < int (fragsize u)" "buf_idx u < length bs1"
        using d(3) by (simp_all add: ring_shape_def z_def)
      note kb = frag_chunk_bounds [OF g(1,4,2,3) True wc, folded F(1) [folded z_def]]
      have ll: "out_len (audio_channels u) k = l" by (simp add: l_def out_len_def)
      have zl: "z + int l \<le> int (fragsize u)" "4 dvd l" using kb(5,6) unfolding ll by simp_all
      define bs2 where "bs2 = bs1[buf_idx u := (bs1 ! buf_idx u)\<lparr>b_size := z + int l\<rparr>]"
      have bv: "buffers v = Some bs2" using F(2) by (simp add: bs2_def z_def l_def)
      have at2: "buf_at (buf_idx s) v = Some (bs2 ! buf_idx u)" and sz: "b_size (bs2 ! buf_idx u) = z + int l"
        using bv g(5) q(1) by (simp_all add: buf_at_def bs2_def)
      define w where "w = send_frag (buf_idx s) (bs2 ! buf_idx u) v"
      have W: "write_loop K nonblock (ds # sched) a c ret s =
        (if z + int l < int (fragsize u)
         then Some (Inr (if nonblock then -11 else -512, a + k), up_sem (buf_idx s) v)
         else write_loop K nonblock sched (a + k) (c - k) (if nonblock then -11 else -512) w)"
        using True d(1) at f [unfolded q(1)] both at2 sz F(4) by (simp add: w_def q(1) Let_def)
      show ?thesis
      proof (cases "z + int l < int (fragsize u)")
        case False
        then have full: "z + int l = int (fragsize u)" using zl by simp
        define bs3 where "bs3 = bs2[buf_idx s := (bs2 ! buf_idx s)\<lparr>b_size := 0\<rparr>]"
        have bw: "buffers w = Some bs3" "nbfrags w = nbfrags u" "fragsize w = fragsize u"
          "buf_idx w = (buf_idx s + 1) mod nbfrags u" "audio_channels w = audio_channels s"
          using bv F q by (simp_all add: w_def send_frag_def bs3_def)
        have zero: "b_size (bs3 ! i) = 0" if "i < nbfrags u" for i
          using d(3) that q(1) unfolding ring_shape_def bs3_def bs2_def by (auto simp: nth_list_update)
        have lt: "buf_idx w < nbfrags u" using d(3) unfolding bw by (simp add: ring_shape_def)
        have shape: "ring_shape bs3 w"
          unfolding ring_shape_def bw(1-3) using d(3) zero lt
          by (auto simp: ring_shape_def bs3_def bs2_def)
        have m: "m = (if audio_channels w = 2 then c - k else 2 * (c - k)) + nat (b_size (bs3 ! buf_idx w)) + fragsize s"
          using Cons.prems(3) zero [OF lt] kb(2) full g(1) q d(4) unfolding bw(5)
          by (auto simp: l_def z_def)
        have "m div fragsize s = (m - fragsize s) div fragsize s + 1"
          using m g(1,3,4) q(2) by (subst le_div_geq) (auto simp: z_def)
        then have "(m - fragsize s) div fragsize w < length sched" using Cons.prems(4) bw(3) q(2) by simp
        then have "\<exists>res t. write_loop K nonblock sched (a + k) (c - k) (if nonblock then -11 else -512) w = Some (res, t)"
          using kb(4) m bw(5) q(3) by (intro Cons.IH [OF shape]) simp_all
        then show ?thesis using W False by simp
      qed (use W in simp)
    qed
  qed simp
qed simp

end
