(* ===== verification/Audio_Alloc.thy ===== *)
theory Audio_Alloc
  imports Audio_Write "HOL-Library.Multiset"
begin

text \<open>
  The memory of the sound driver's rings: what \<open>audio_setup_buf\<close> builds, and that the driver owns
  exactly the areas of its buffers.
\<close>

section \<open>Allocation of the ring\<close>

text \<open>The areas handed out and not given back, and those the buffers own.\<close>

fun live_from :: "(int \<times> nat \<times> nat) multiset \<Rightarrow> kev list \<Rightarrow> (int \<times> nat \<times> nat) multiset" where
  "live_from m [] = m"
| "live_from m (Kalloc n v p # h) = live_from (add_mset (n, v, p) m) h"
| "live_from m (Kfree n v p # h) = live_from (m - {#(n, v, p)#}) h"
| "live_from m (_ # h) = live_from m h"

abbreviation live :: "kev list \<Rightarrow> (int \<times> nat \<times> nat) multiset" where
  "live \<equiv> live_from {#}"

lemma live_append [simp]: "live_from m (h @ k) = live_from (live_from m h) k"
  by (induction m h rule: live_from.induct) auto

definition areas_of :: "(int \<times> nat \<times> nat) list \<Rightarrow> (int \<times> nat \<times> nat) multiset" where
  "areas_of ts = mset (filter (\<lambda>(m, v, p). m \<noteq> 0) ts)"

definition owned :: "audio_buf list \<Rightarrow> (int \<times> nat \<times> nat) list" where
  "owned bs = map (\<lambda>b. (b_master b, b_start b, b_dma_addr b)) bs"

definition areas :: "'a audio_stream_scheme \<Rightarrow> (int \<times> nat \<times> nat) multiset" where
  "areas s = (case buffers s of None \<Rightarrow> {#} | Some bs \<Rightarrow> areas_of (owned bs))"

text \<open>
  The allocator returns memory that is mapped one to one and apart from everything it has handed
  out.
\<close>

definition alloc_ok :: "kernel \<Rightarrow> bool" where
  "alloc_ok K \<longleftrightarrow> (\<forall>h n v p. consistent_alloc K h n = Some (v, p) \<longrightarrow>
     (\<forall>k < nat n. mmu K (v + k) = p + k) \<and>
     (\<forall>(n', v', p') \<in># live h. p + nat n \<le> p' \<or> p' + nat n' \<le> p))"

lemma alloc_down_some:
  "alloc_down K h fs m = Some (sz, v, p) \<Longrightarrow>
     \<exists>j. 0 < j \<and> j \<le> m \<and> sz = int (j * fs) \<and> consistent_alloc K h sz = Some (v, p)"
proof (induction m)
  case (Suc m)
  then show ?case by (auto split: option.splits simp del: of_nat_mult of_nat_Suc intro: le_SucI)
qed simp

text \<open>Fragment \<open>b\<close> is set up, inside one of the areas \<open>A\<close>.\<close>

definition placed :: "kernel \<Rightarrow> nat \<Rightarrow> (int \<times> nat \<times> nat) multiset \<Rightarrow> audio_buf \<Rightarrow> bool" where
  "placed K fs A b \<longleftrightarrow> b_size b = 0 \<and> b_sem b = 1 \<and>
     (\<forall>k < fs. mmu K (b_start b + k) = b_dma_addr b + k) \<and>
     (\<exists>(n, v, p) \<in># A. p \<le> b_dma_addr b \<and> b_dma_addr b + fs \<le> p + nat n)"

definition apart :: "nat \<Rightarrow> audio_buf list \<Rightarrow> bool" where
  "apart fs bs \<longleftrightarrow> (\<forall>i < length bs. \<forall>j < length bs. i \<noteq> j \<longrightarrow>
     b_dma_addr (bs ! i) + fs \<le> b_dma_addr (bs ! j) \<or> b_dma_addr (bs ! j) + fs \<le> b_dma_addr (bs ! i))"

text \<open>The rest of the current area, \<open>m\<close> fragments at \<open>v\<close>, \<open>p\<close>, is mapped, owned and unused.\<close>

definition rest_ok :: "kernel \<Rightarrow> nat \<Rightarrow> (int \<times> nat \<times> nat) multiset \<Rightarrow> audio_buf list \<Rightarrow> nat \<Rightarrow> nat \<Rightarrow> nat \<Rightarrow> bool" where
  "rest_ok K fs A bs m v p \<longleftrightarrow> m = 0 \<or>
     (\<forall>k < m * fs. mmu K (v + k) = p + k) \<and>
     (\<exists>(n, v', p') \<in># A. p' \<le> p \<and> p + m * fs \<le> p' + nat n) \<and>
     (\<forall>b \<in> set bs. b_dma_addr b + fs \<le> p \<or> p + m * fs \<le> b_dma_addr b)"

lemma placed_mono: "placed K fs A b \<Longrightarrow> A \<subseteq># B \<Longrightarrow> placed K fs B b"
  unfolding placed_def by (auto dest: mset_subset_eqD)

lemma rest_step:
  assumes r: "rest_ok K fs A bs (Suc m) v p" and fs: "0 < fs"
    and pl: "\<forall>b \<in> set bs. placed K fs A b" and ap: "apart fs bs"
    and b: "b_start b = v" "b_dma_addr b = p" "b_sem b = 1" "b_size b = 0"
  shows "rest_ok K fs A (bs @ [b]) m (v + fs) (p + fs)" "\<forall>b \<in> set (bs @ [b]). placed K fs A b" "apart fs (bs @ [b])"
proof -
  have map: "\<forall>k < Suc m * fs. mmu K (v + k) = p + k"
    and off: "\<forall>b \<in> set bs. b_dma_addr b + fs \<le> p \<or> p + Suc m * fs \<le> b_dma_addr b"
    using r by (auto simp: rest_ok_def)
  obtain n v' p' where A: "(n, v', p') \<in># A" "p' \<le> p" "p + Suc m * fs \<le> p' + nat n"
    using r by (auto simp: rest_ok_def)
  have "placed K fs A b"
    unfolding placed_def b using map A by (auto intro!: bexI [of _ "(n, v', p')"])
  then show "\<forall>b \<in> set (bs @ [b]). placed K fs A b" using pl by simp
  have "mmu K (v + fs + k) = p + fs + k" if "k < m * fs" for k
    using map [rule_format, of "fs + k"] that by (simp add: add.assoc)
  then show "rest_ok K fs A (bs @ [b]) m (v + fs) (p + fs)"
    unfolding rest_ok_def using A off b by (auto simp: add.assoc intro!: bexI [of _ "(n, v', p')"])
  show "apart fs (bs @ [b])"
    unfolding apart_def
  proof (intro allI impI)
    fix i j
    assume "i < length (bs @ [b])" "j < length (bs @ [b])" "i \<noteq> j"
    moreover have "\<forall>i < length bs. b_dma_addr (bs ! i) + fs \<le> p \<or> p + fs \<le> b_dma_addr (bs ! i)"
      using off nth_mem by fastforce
    ultimately show "b_dma_addr ((bs @ [b]) ! i) + fs \<le> b_dma_addr ((bs @ [b]) ! j) \<or>
        b_dma_addr ((bs @ [b]) ! j) + fs \<le> b_dma_addr ((bs @ [b]) ! i)"
      using ap b(2) unfolding apart_def by (auto simp: nth_append less_Suc_eq)
  qed
qed

lemma areas_of_append [simp]: "areas_of (xs @ ys) = areas_of xs + areas_of ys"
  by (simp add: areas_of_def)

lemma owned_append [simp]: "owned (xs @ ys) = owned xs @ owned ys"
  by (simp add: owned_def)

lemma owned_zero [simp]: "areas_of (owned (replicate n zero_buf)) = {#}"
  by (induction n) (simp_all add: areas_of_def owned_def zero_buf_def)

text \<open>A new area is apart from the fragments placed before.\<close>

lemma rest_alloc:
  assumes K: "alloc_ok K" and a: "consistent_alloc K h (int (m * fs)) = Some (v, p)" and m: "0 < m * fs"
    and pl: "\<forall>b \<in> set bs. placed K fs (live h) b"
  shows "rest_ok K fs (live (h @ [Kalloc (int (m * fs)) v p])) bs m v p"
proof -
  have map: "\<forall>k < m * fs. mmu K (v + k) = p + k"
    and off: "\<forall>(n', v', p') \<in># live h. p + m * fs \<le> p' \<or> p' + nat n' \<le> p"
  proof -
    have "(\<forall>k < nat (int (m * fs)). mmu K (v + k) = p + k) \<and>
        (\<forall>(n', v', p') \<in># live h. p + nat (int (m * fs)) \<le> p' \<or> p' + nat n' \<le> p)"
      using K a unfolding alloc_ok_def by blast
    then show "\<forall>k < m * fs. mmu K (v + k) = p + k"
      "\<forall>(n', v', p') \<in># live h. p + m * fs \<le> p' \<or> p' + nat n' \<le> p"
      unfolding nat_int by blast+
  qed
  have "b_dma_addr b + fs \<le> p \<or> p + m * fs \<le> b_dma_addr b" if b: "b \<in> set bs" for b
  proof -
    obtain n' v' p' where A: "(n', v', p') \<in># live h" "p' \<le> b_dma_addr b" "b_dma_addr b + fs \<le> p' + nat n'"
      using pl b by (auto simp: placed_def)
    then have "p + m * fs \<le> p' \<or> p' + nat n' \<le> p" using off by blast
    with A show ?thesis by linarith
  qed
  then show ?thesis unfolding rest_ok_def using map by (auto simp del: of_nat_mult)
qed

definition kallocs :: "(int \<times> nat \<times> nat) list \<Rightarrow> kev list" where
  "kallocs as = map (\<lambda>(n, v, p). Kalloc n v p) as"

definition kfrees :: "(int \<times> nat \<times> nat) list \<Rightarrow> kev list" where
  "kfrees as = map (\<lambda>(n, v, p). Kfree n v p) as"

lemma live_kallocs [simp]: "live_from m (kallocs as) = m + mset as"
  by (induction as arbitrary: m) (auto simp: kallocs_def)

lemma live_kfrees [simp]: "live_from m (kfrees as) = m - mset as"
  by (induction as arbitrary: m) (auto simp: kfrees_def)

lemma pend_kallocs [simp]: "pend q (kallocs as) = q"
  by (induction as) (auto simp: kallocs_def)

lemma pend_kfrees [simp]: "pend q (kfrees as) = q"
  by (induction as) (auto simp: kfrees_def)

lemma played_kallocs [simp]: "played (kallocs as) = []" "played (kfrees as) = []"
  by (induction as) (auto simp: kallocs_def kfrees_def)

lemma setup_frags_ok:
  fixes s :: "'a audio_stream_scheme"
  assumes K: "alloc_ok K" and fs: "0 < fragsize s" and "setup_frags K n (length bs) (int (m * fragsize s)) v p s = (ok, t)"
    "buffers s = Some (bs @ replicate n zero_buf)" "m \<le> n" "rest_ok K (fragsize s) (live (khist s)) bs m v p"
    "\<forall>b \<in> set bs. placed K (fragsize s) (live (khist s)) b" "apart (fragsize s) bs"
  shows "\<exists>cs as. t = s\<lparr>buffers := Some cs, khist := khist s @ kallocs as\<rparr> \<and> length cs = length bs + n \<and>
     areas_of (owned cs) = areas_of (owned bs) + mset as \<and>
     (ok \<longrightarrow> (\<forall>b \<in> set cs. placed K (fragsize s) (live (khist t)) b) \<and> apart (fragsize s) cs)"
  using assms(2-)
proof (induction n arbitrary: bs m v p s)
  case 0
  then have "t = s" by simp
  with 0 show ?case by (intro exI [of _ bs] exI [of _ "[]"]) (simp add: kallocs_def)
next
  case (Suc n)
  define fs where "fs = fragsize s"
  have upd: "upd_buf (length bs) f u = u\<lparr>buffers := Some ((bs @ [f zero_buf]) @ replicate n zero_buf)\<rparr>"
    if "buffers u = Some (bs @ replicate (Suc n) zero_buf)" for f and u :: "'a audio_stream_scheme"
    using that by (simp add: upd_buf_def list_update_append)
  have step: "?case"
    if A: "u = s\<lparr>khist := khist s @ kallocs as0\<rparr>" and b: "b_start b = v'" "b_dma_addr b = p'" "b_sem b = 1" "b_size b = 0"
      and ow: "areas_of (owned [b]) = mset as0" and m': "m' \<le> n"
      and r: "rest_ok K fs (live (khist u)) bs (Suc m') v' p'"
      and pl: "\<forall>b \<in> set bs. placed K fs (live (khist u)) b"
      and st: "setup_frags K n (Suc (length bs)) (int (m' * fs)) (v' + fs) (p' + fs)
        (u\<lparr>buffers := Some ((bs @ [b]) @ replicate n zero_buf)\<rparr>) = (ok, t)"
    for u b v' p' m' as0
  proof -
    define w where "w = u\<lparr>buffers := Some ((bs @ [b]) @ replicate n zero_buf)\<rparr>"
    have w: "fragsize w = fs" "khist w = khist u" "buffers w = Some ((bs @ [b]) @ replicate n zero_buf)"
      using A by (simp_all add: w_def fs_def)
    note R = rest_step [OF r Suc.prems(1) [folded fs_def] pl Suc.prems(7) [folded fs_def] b]
    have "\<exists>cs as. t = w\<lparr>buffers := Some cs, khist := khist w @ kallocs as\<rparr> \<and> length cs = length (bs @ [b]) + n \<and>
       areas_of (owned cs) = areas_of (owned (bs @ [b])) + mset as \<and>
       (ok \<longrightarrow> (\<forall>b \<in> set cs. placed K (fragsize w) (live (khist t)) b) \<and> apart (fragsize w) cs)"
    proof (rule Suc.IH [where m = m' and v = "v' + fs" and p = "p' + fs"])
      show "setup_frags K n (length (bs @ [b])) (int (m' * fragsize w)) (v' + fs) (p' + fs) w = (ok, t)"
        using st unfolding w_def [symmetric] w(1) by simp
    qed (use Suc.prems(1) m' R w in \<open>simp_all add: fs_def [symmetric]\<close>)
    then obtain cs as where C: "t = w\<lparr>buffers := Some cs, khist := khist w @ kallocs as\<rparr>" "length cs = Suc (length bs) + n"
      "areas_of (owned cs) = areas_of (owned bs) + mset as0 + mset as"
      "ok \<longrightarrow> (\<forall>b \<in> set cs. placed K fs (live (khist t)) b) \<and> apart fs cs"
      using ow w by auto
    then show ?thesis
      by (intro exI [of _ cs] exI [of _ "as0 @ as"]) (simp add: w_def A fs_def kallocs_def)
  qed
  show ?case
  proof (cases m)
    case (Suc m')
    then have "setup_frags K n (Suc (length bs)) (int (m' * fs)) (v + fs) (p + fs)
        (s\<lparr>buffers := Some ((bs @ [zero_buf\<lparr>b_start := v, b_dma_addr := p, b_sem := 1\<rparr>]) @ replicate n zero_buf)\<rparr>) = (ok, t)"
    proof -
      have "Suc m' * fs \<noteq> 0" using Suc.prems(1) by (simp add: fs_def)
      then have nz: "int (Suc m' * fs) \<noteq> 0" unfolding of_nat_eq_0_iff .
      have diff: "int (Suc m' * fs) - int fs = int (m' * fs)" by (simp add: algebra_simps)
      show ?thesis
        using Suc.prems(2) upd [OF Suc.prems(3)] nz
        unfolding Suc setup_frags.simps Let_def fs_def [symmetric] diff by simp
    qed
    then show ?thesis
      using Suc Suc.prems
      by (intro step [of s "[]" _ v p m']) (simp_all add: fs_def kallocs_def zero_buf_def areas_of_def owned_def)
  next
    case 0
    show ?thesis
    proof (cases "alloc_down K (khist s) fs (Suc n)")
      case None
      then have "t = s" "\<not> ok" using Suc.prems(2) 0 by (simp_all add: fs_def)
      then show ?thesis using Suc.prems(3) owned_zero [of "Suc n"]
        by (intro exI [of _ "bs @ replicate (Suc n) zero_buf"] exI [of _ "[]"]) (simp add: kallocs_def)
    next
      case (Some a)
      obtain sz v' p' where a: "a = (sz, v', p')" by (cases a) auto
      obtain j where j: "0 < j" "j \<le> Suc n" "sz = int (j * fs)" "consistent_alloc K (khist s) sz = Some (v', p')"
        using alloc_down_some Some a by blast
      obtain m' where m': "j = Suc m'" using j(1) by (cases j) auto
      define u where "u = log_k (Kalloc sz v' p') s"
      have u: "u = s\<lparr>khist := khist s @ kallocs [(sz, v', p')]\<rparr>" by (simp add: u_def log_k_def kallocs_def)
      have bu: "buffers u = Some (bs @ replicate (Suc n) zero_buf)" using Suc.prems(3) by (simp add: u_def)
      have st: "setup_frags K n (Suc (length bs)) (int (m' * fs)) (v' + fs) (p' + fs)
          (u\<lparr>buffers := Some ((bs @ [zero_buf\<lparr>b_master := sz, b_start := v', b_dma_addr := p', b_sem := 1\<rparr>]) @
            replicate n zero_buf)\<rparr>) = (ok, t)"
        using Suc.prems(2) 0 Some [unfolded a fs_def] upd [OF bu] j(3) m'
        by (simp add: fs_def u_def Let_def algebra_simps)
      have pl: "\<forall>b \<in> set bs. placed K fs (live (khist u)) b"
        using Suc.prems(6) placed_mono [of K fs "live (khist s)" _ "live (khist u)"] by (simp add: u fs_def)
      have "rest_ok K fs (live (khist u)) bs (Suc m') v' p'"
        using rest_alloc [OF K j(4) [unfolded j(3)]] Suc.prems(1,6) j m' by (simp add: u fs_def kallocs_def)
      moreover have "sz \<noteq> 0" using j Suc.prems(1) by (simp add: fs_def)
      ultimately show ?thesis
        using j m' Suc.prems(1)
        by (intro step [OF u _ _ _ _ _ _ _ pl st]) (simp_all add: areas_of_def owned_def fs_def zero_buf_def)
    qed
  qed
qed

lemma free_masters_eq:
  "free_masters bs s = s\<lparr>khist := khist s @ kfrees (filter (\<lambda>(m, v, p). m \<noteq> 0) (owned bs))\<rparr>"
  by (induction bs arbitrary: s) (auto simp: owned_def kfrees_def log_k_def)

lemma clear_eq:
  assumes "\<And>bs. buffers s = Some bs \<Longrightarrow> length bs = nbfrags s"
  shows "\<exists>as. audio_clear_buf s = s\<lparr>buffers := None, buf_idx := 0, khist := khist s @ Dflush # kfrees as\<rparr> \<and>
    mset as = areas s"
proof (cases "buffers s")
  case None
  then show ?thesis
    by (intro exI [of _ "[]"]) (simp add: audio_clear_buf_def log_k_def kfrees_def areas_def)
next
  case (Some bs)
  then show ?thesis using assms [OF Some]
    by (intro exI [of _ "filter (\<lambda>(m, v, p). m \<noteq> 0) (owned bs)"])
      (simp add: audio_clear_buf_def free_masters_eq areas_def areas_of_def log_k_def)
qed

section \<open>The invariant of the driver\<close>

definition params_ok :: "'a audio_stream_scheme \<Rightarrow> bool" where
  "params_ok s \<longleftrightarrow> 16 \<le> audio_fragsize s \<and> audio_fragsize s \<le> 16384 \<and> 4 dvd audio_fragsize s \<and> 2 \<le> audio_nbfrags s"

definition audio_inv :: "kernel \<Rightarrow> 'a audio_stream_scheme \<Rightarrow> bool" where
  "audio_inv K s \<longleftrightarrow> params_ok s \<and> live (khist s) = areas s \<and>
     (case buffers s of None \<Rightarrow> pending (khist s) = [] | Some bs \<Rightarrow> ring K False bs s)"

lemma areas_None: "buffers s = None \<Longrightarrow> areas s = {#}"
  by (simp add: areas_def)

text \<open>\<open>audio_clear_buf\<close> gives back what the stream owns.\<close>

lemma clear_inv:
  assumes "audio_inv K s"
  shows "audio_inv K (audio_clear_buf s)" "live (khist (audio_clear_buf s)) = {#}"
    "stream_out (audio_clear_buf s) = played (khist s)" "buffers (audio_clear_buf s) = None"
proof -
  have "buffers s = Some bs \<Longrightarrow> length bs = nbfrags s" for bs
    using assms by (simp add: audio_inv_def ring_def ring_geom_def)
  then obtain as where c: "audio_clear_buf s = s\<lparr>buffers := None, buf_idx := 0, khist := khist s @ Dflush # kfrees as\<rparr>"
    "mset as = areas s" using clear_eq by blast
  show "audio_inv K (audio_clear_buf s)" "live (khist (audio_clear_buf s)) = {#}"
    using assms by (simp_all add: c audio_inv_def params_ok_def areas_def)
  show "stream_out (audio_clear_buf s) = played (khist s)" "buffers (audio_clear_buf s) = None"
    by (simp_all add: c stream_out_def in_flight_def partial_def buf_at_def)
qed

text \<open>\<open>audio_setup_buf\<close> builds a ring with everything free, or leaves nothing allocated.\<close>

lemma setup_inv:
  assumes K: "alloc_ok K" and inv: "audio_inv K s" and b: "buffers s = None"
    and st: "audio_setup_buf K s = (err, t)"
  shows "audio_inv K t" "stream_out t = stream_out s" "err = 0 \<and> buffers t \<noteq> None \<or> err = -12 \<and> buffers t = None"
    "audio_channels t = audio_channels s" "prefix (khist s) (khist t)" "pending (khist t) = []"
    "audio_fragsize t = audio_fragsize s" "audio_nbfrags t = audio_nbfrags s"
    "err = 0 \<Longrightarrow> fragsize t = audio_fragsize s"
proof -
  have pr: "params_ok s" and lv: "live (khist s) = {#}" and pe: "pending (khist s) = []"
    using inv b by (simp_all add: audio_inv_def areas_def)
  have so: "stream_out s = played (khist s)" by (simp add: stream_out_def in_flight_def partial_def buf_at_def b pe)
  define s1 where "s1 = s\<lparr>nbfrags := audio_nbfrags s, fragsize := audio_fragsize s\<rparr>"
  have "audio_inv K t \<and> stream_out t = stream_out s \<and> (err = 0 \<and> buffers t \<noteq> None \<or> err = -12 \<and> buffers t = None) \<and>
    audio_channels t = audio_channels s \<and> prefix (khist s) (khist t) \<and> pending (khist t) = [] \<and>
    audio_fragsize t = audio_fragsize s \<and> audio_nbfrags t = audio_nbfrags s \<and>
    (err = 0 \<longrightarrow> fragsize t = audio_fragsize s)"
  proof (cases "kmalloc_ok K (khist s)")
    case False
    obtain as where c: "audio_clear_buf s1 = s1\<lparr>buffers := None, buf_idx := 0, khist := khist s1 @ Dflush # kfrees as\<rparr>"
      "mset as = areas s1" using clear_eq [of s1] b by (auto simp: s1_def)
    have "err = -12" "t = audio_clear_buf s1" using st False b by (simp_all add: audio_setup_buf_def s1_def Let_def)
    then show ?thesis
      using pr lv so b c unfolding stream_out_def
      by (simp add: s1_def audio_inv_def params_ok_def areas_def in_flight_def partial_def buf_at_def)
  next
    case True
    define s2 where "s2 = s1\<lparr>buffers := Some ([] @ replicate (nbfrags s1) zero_buf)\<rparr>"
    obtain ok u where sf: "setup_frags K (nbfrags s1) (length ([] :: audio_buf list)) (int (0 * fragsize s2)) 0 0 s2 = (ok, u)"
      by (metis surj_pair)
    have fs: "fragsize s2 = audio_fragsize s" "0 < fragsize s2" using pr by (simp_all add: s2_def s1_def params_ok_def)
    obtain cs as where u: "u = s2\<lparr>buffers := Some cs, khist := khist s2 @ kallocs as\<rparr>"
      "length cs = nbfrags s1" "areas_of (owned cs) = mset as"
      "ok \<Longrightarrow> (\<forall>b \<in> set cs. placed K (fragsize s2) (live (khist u)) b)" "ok \<Longrightarrow> apart (fragsize s2) cs"
      using setup_frags_ok [OF K fs(2) sf]
      by (auto simp: s2_def rest_ok_def apart_def areas_of_def owned_def)
    have set: "audio_setup_buf K s = (if ok then (0, u\<lparr>buf_idx := 0\<rparr>) else (-12, audio_clear_buf u))"
      using sf b True by (simp add: audio_setup_buf_def s1_def s2_def Let_def)
    show ?thesis
    proof (cases ok)
      case False
      obtain bs where c: "audio_clear_buf u = u\<lparr>buffers := None, buf_idx := 0, khist := khist u @ Dflush # kfrees bs\<rparr>"
        "mset bs = areas u" using clear_eq [of u] u by (auto simp: s2_def)
      have "t = audio_clear_buf u" "err = -12" using st set False by simp_all
      then show ?thesis
        using pr lv so b c u(1,3) unfolding stream_out_def
        by (simp add: s1_def s2_def audio_inv_def params_ok_def areas_def in_flight_def partial_def buf_at_def)
    next
      case True
      then have t: "t = u\<lparr>buf_idx := 0\<rparr>" "err = 0" using st set by simp_all
      have pl: "b_size (cs ! i) = 0 \<and> b_sem (cs ! i) = 1 \<and>
          (\<forall>k < fragsize s2. mmu K (b_start (cs ! i) + k) = b_dma_addr (cs ! i) + k)" if "i < length cs" for i
        using u(4) [OF True] nth_mem [OF that] by (auto simp: placed_def)
      have nb: "nbfrags t = audio_nbfrags s" "fragsize t = audio_fragsize s" "buf_idx t = 0" "buffers t = Some cs"
        "khist t = khist s @ kallocs as" "length cs = nbfrags t"
        using t u(1,2) by (simp_all add: s1_def s2_def)
      have pt: "pending (khist t) = []" "pend_frags t = []" using pe by (simp_all add: nb pend_frags_def)
      have "0 < audio_nbfrags s" using pr by (simp add: params_ok_def)
      have "ring K False cs t"
        unfolding ring_def ring_geom_def ring_pend_def ring_sem_def ring_size_def nb(3-4) pt
        using pl u(5) [OF True] nb pr fs \<open>0 < audio_nbfrags s\<close> by (auto simp: apart_def params_ok_def)
      moreover have "partial t = []"
        using pl [of 0] nb \<open>0 < audio_nbfrags s\<close> by (simp add: partial_def buf_at_def peek_def)
      ultimately show ?thesis
        using pr lv so pt t nb u(1,3) unfolding stream_out_def
        by (simp add: audio_inv_def params_ok_def areas_def in_flight_def s1_def s2_def)
    qed
  qed
  then show "audio_inv K t" "stream_out t = stream_out s" "err = 0 \<and> buffers t \<noteq> None \<or> err = -12 \<and> buffers t = None"
    "audio_channels t = audio_channels s" "prefix (khist s) (khist t)" "pending (khist t) = []"
    "audio_fragsize t = audio_fragsize s" "audio_nbfrags t = audio_nbfrags s"
    "err = 0 \<Longrightarrow> fragsize t = audio_fragsize s"
    by blast+
qed

section \<open>What a transfer keeps\<close>

text \<open>Everything but allocation leaves the areas and the parameters alone.\<close>

definition keeps :: "'a audio_stream_scheme \<Rightarrow> 'a audio_stream_scheme \<Rightarrow> bool" where
  "keeps s t \<longleftrightarrow> map_option owned (buffers t) = map_option owned (buffers s) \<and>
     live (khist t) = live (khist s) \<and> audio_fragsize t = audio_fragsize s \<and>
     audio_nbfrags t = audio_nbfrags s \<and> audio_channels t = audio_channels s"

lemma keeps_refl [simp]: "keeps s s"
  by (simp add: keeps_def)

lemma keeps_trans: "keeps s t \<Longrightarrow> keeps t u \<Longrightarrow> keeps s u"
  by (simp add: keeps_def)

lemma keeps_upd:
  assumes "\<And>b. b_master (f b) = b_master b \<and> b_start (f b) = b_start b \<and> b_dma_addr (f b) = b_dma_addr b"
  shows "keeps s (upd_buf i f s)"
proof (cases "buffers s")
  case (Some bs)
  have "owned (bs[i := f (bs ! i)]) = owned bs"
  proof (rule nth_equalityI)
    fix k
    assume "k < length (owned (bs[i := f (bs ! i)]))"
    then show "owned (bs[i := f (bs ! i)]) ! k = owned bs ! k"
      by (cases "k = i") (simp_all add: owned_def assms)
  qed (simp add: owned_def)
  then show ?thesis using Some by (simp add: keeps_def upd_buf_def)
qed (simp add: keeps_def upd_buf_def)

lemma keeps_log: "(\<And>m. live_from m [e] = m) \<Longrightarrow> keeps s (log_k e s)"
  by (simp add: keeps_def)

lemma keeps_NEXT: "keeps s (NEXT_BUF s)"
  by (simp add: keeps_def)

lemma keeps_up: "keeps s (up_sem i s)"
  unfolding up_sem_def by (rule keeps_upd) simp

lemma keeps_irq: "keeps s (dma_out_irq i s)"
  unfolding dma_out_irq_def audio_dmaout_done_callback_def Let_def
  by (rule keeps_trans [OF keeps_log keeps_up]) simp

lemma keeps_irqs: "keeps s (fold dma_out_irq ds s)"
  by (induction ds arbitrary: s) (auto intro: keeps_trans keeps_irq)

lemma keeps_down: "down_sem ds i s = Some (got, t) \<Longrightarrow> keeps s t"
  using keeps_irqs [of s ds] keeps_upd [of "\<lambda>b. b\<lparr>b_sem := b_sem b - 1\<rparr>" "fold dma_out_irq ds s" i]
  by (auto simp: down_sem_def Let_def intro: keeps_trans split: option.splits if_splits)

lemma keeps_poke: "keeps s (poke K a bs s)"
  by (induction K a bs s rule: poke.induct) (auto simp: keeps_def)

lemma keeps_fill:
  assumes "fill_frag K a c i b s = (ok, k, t)"
  shows "keeps s t"
proof -
  have "keeps s (upd_buf i (\<lambda>b. b\<lparr>b_size := g b\<rparr>) (poke K x bs s))" for g x bs
    by (rule keeps_trans [OF keeps_poke keeps_upd]) simp
  then show ?thesis using assms keeps_poke
    by (auto simp: fill_frag_def copy_from_user_def copy_from_user_mono_stereo_def Let_def split: if_splits)
qed

lemma keeps_send: "keeps s (send_frag i b s)"
  unfolding send_frag_def
  by (rule keeps_trans [OF keeps_trans [OF keeps_log keeps_upd] keeps_NEXT]) simp_all

lemma keeps_write_loop: "write_loop K nonblock sched a c ret s = Some (res, t) \<Longrightarrow> keeps s t"
proof (induction sched arbitrary: nonblock a c ret s)
  case (Cons ds sched)
  show ?case
  proof (cases "0 < c")
    case True
    from Cons.prems True obtain got u where d: "down_sem ds (buf_idx s) s = Some (got, u)"
      by (auto simp: Let_def split: option.splits)
    obtain ok k v where f: "fill_frag K a c (buf_idx s) (the (buf_at (buf_idx s) u)) u = (ok, k, v)"
      by (metis prod_cases3)
    have su: "keeps s u" and sv: "keeps s v" using keeps_down [OF d] keeps_fill [OF f] by (auto intro: keeps_trans)
    have up: "keeps s (up_sem i v)" for i by (rule keeps_trans [OF sv keeps_up])
    have IH: "write_loop K nb sched a' c' ret' (send_frag i b v) = Some (res, t) \<Longrightarrow> keeps s t" for nb a' c' ret' i b
      by (rule keeps_trans [OF keeps_trans [OF sv keeps_send]]) (rule Cons.IH)
    show ?thesis
      using Cons.prems True d f su up by (auto simp: Let_def split: option.splits if_splits dest!: IH)
  next
    case False
    with Cons.prems show ?thesis by simp
  qed
qed (simp split: if_splits)

lemma keeps_inv:
  assumes "audio_inv K s" "keeps s t" "ring K False bs t"
  shows "audio_inv K t"
proof -
  have "buffers t = Some bs" using assms(3) by (simp add: ring_def)
  then obtain bs0 where "buffers s = Some bs0" "owned bs = owned bs0"
    using assms(2) by (cases "buffers s") (auto simp: keeps_def)
  then have "areas t = areas s" using \<open>buffers t = Some bs\<close> by (simp add: areas_def)
  then show ?thesis using assms by (simp add: audio_inv_def keeps_def params_ok_def \<open>buffers t = Some bs\<close>)
qed

lemma nbfrags_poke [simp]: "nbfrags (poke K a bs s) = nbfrags s"
  by (induction K a bs s rule: poke.induct) auto

lemma nbfrags_fill: "fill_frag K a c i b s = (ok, k, t) \<Longrightarrow> nbfrags t = nbfrags s"
  by (auto simp: fill_frag_def copy_from_user_def copy_from_user_mono_stereo_def Let_def split: if_splits)

lemma write_loop_nbfrags: "write_loop K nonblock sched a c ret s = Some (res, t) \<Longrightarrow> nbfrags t = nbfrags s"
proof (induction sched arbitrary: nonblock a c ret s)
  case (Cons ds sched)
  have q: "down_sem ds i s = Some (got, u) \<Longrightarrow> nbfrags u = nbfrags s" for i got u
    using quiet_down [of ds i s got u] by (simp add: quiet_def)
  show ?case
    using Cons.prems
    by (auto simp: Let_def send_frag_def up_sem_def split: option.splits if_splits prod.splits
        dest!: q nbfrags_fill dest!: Cons.IH)
qed (simp split: if_splits)

lemma write_loop_ret:
  "write_loop K nonblock sched a c ret s = Some (Inr (q, a'), t) \<Longrightarrow> q \<in> {ret, -11, -512}"
proof (induction sched arbitrary: nonblock a c ret s)
  case (Cons ds sched)
  show ?case
    using Cons.prems
    by (auto simp: Let_def split: option.splits if_splits prod.splits dest!: Cons.IH)
qed (simp split: if_splits)

section \<open>A kernel that keeps the contract\<close>

text \<open>For the witnesses: an allocator that never reuses memory, and readable user memory.\<close>

fun next_free :: "kev list \<Rightarrow> nat" where
  "next_free [] = 0"
| "next_free (Kalloc n v p # h) = max (p + nat n) (next_free h)"
| "next_free (_ # h) = next_free h"

definition demo_kernel :: kernel where
  "demo_kernel = \<lparr>umem = of_nat, ubad = (\<lambda>_. False), uarea = (\<lambda>_ _. True), ujunk = (\<lambda>_. 0), mmu = (\<lambda>v. v),
     consistent_alloc = (\<lambda>h n. Some (next_free h, next_free h)), kmalloc_ok = (\<lambda>_. True)\<rparr>"

definition demo_stream :: audio_stream where
  "demo_stream = \<lparr>buffers = None, buf_idx = 0, fragsize = 0, nbfrags = 0, audio_fragsize = 16,
     audio_nbfrags = 2, audio_channels = 2, ram = (\<lambda>_. 0), khist = []\<rparr>"

lemma live_from_allocated:
  "(n, v, p) \<in># live_from m h \<Longrightarrow> (n, v, p) \<in># m \<or> Kalloc n v p \<in> set h"
  by (induction m h rule: live_from.induct) (auto dest: in_diffD)

lemma next_free_bound: "Kalloc n v p \<in> set h \<Longrightarrow> p + nat n \<le> next_free h"
  by (induction h rule: next_free.induct) auto

lemma demo_kernel_ok: "alloc_ok demo_kernel"
proof -
  have "p + nat n \<le> next_free h" if "(n, v, p) \<in># live h" for n v p h
    using live_from_allocated [OF that] next_free_bound by auto
  then show ?thesis by (force simp: alloc_ok_def demo_kernel_def)
qed

lemma demo_stream_inv: "audio_inv demo_kernel demo_stream"
  by (simp add: audio_inv_def demo_stream_def params_ok_def areas_def)

lemma write_stream:
  assumes K: "alloc_ok K" and inv: "audio_inv K s" and fifo: "dma_fifo (khist t)"
    and w: "smdk2410_audio_write K acc nonblock sched a c s = Some (r, t)"
    and ch: "ch = audio_channels s"
  shows "audio_inv K t \<and>
    (0 \<le> r \<longrightarrow> nat r \<le> c - c mod 4 \<and> (\<exists>ds. takes K ch a (nat r) ds \<and> stream_out t = stream_out s @ ds) \<and>
       (nat r < c - c mod 4 \<longrightarrow> length (pending (khist t)) = nbfrags t)) \<and>
    (r < 0 \<longrightarrow> (\<exists>n ds. n \<le> c \<and> takes K ch a n ds \<and> stream_out t = stream_out s @ ds \<and> (n \<noteq> 0 \<longrightarrow> r = -14)))"
proof (cases "acc = O_WRONLY \<or> acc = O_RDWR")
  case False
  then have "t = s" "r = -1" using w by (auto simp: smdk2410_audio_write_def split: if_splits)
  then show ?thesis using inv by (auto intro!: exI [of _ 0])
next
  case acc: True
  define m where "m = c - c mod 4"
  have whole: "whole_samples x m" for x
  proof -
    have "4 dvd m" unfolding m_def by (simp add: minus_mod_eq_mult_div)
    moreover from this have "even m" by presburger
    ultimately show ?thesis by (simp add: whole_samples_def)
  qed
  obtain err u where su: "(if buffers s = None then audio_setup_buf K s else (0, s)) = (err, u)" by (metis surj_pair)
  have u: "audio_inv K u" "stream_out u = stream_out s" "err \<noteq> 0 \<or> buffers u \<noteq> None" "audio_channels u = ch"
  proof -
    have "audio_inv K u \<and> stream_out u = stream_out s \<and> (err \<noteq> 0 \<or> buffers u \<noteq> None) \<and> audio_channels u = ch"
    proof (cases "buffers s")
      case None
      then show ?thesis using setup_inv [OF K inv None] su by (auto simp: ch)
    next
      case Some
      then show ?thesis using su inv by (auto simp: ch)
    qed
    then show "audio_inv K u" "stream_out u = stream_out s" "err \<noteq> 0 \<or> buffers u \<noteq> None" "audio_channels u = ch" by blast+
  qed
  show ?thesis
  proof (cases "err = 0")
    case False
    then have "t = u" "r = -12" using w acc su by (auto simp: smdk2410_audio_write_def Let_def)
    then show ?thesis using u by (auto intro!: exI [of _ 0])
  next
    case True
    obtain bs where r: "ring K False bs u" using u(1,3) True by (auto simp: audio_inv_def split: option.splits)
    obtain res where l: "write_loop K nonblock sched a m 0 u = Some (res, t)"
      and ret: "r = (case res of Inl e \<Rightarrow> e | Inr (q, a') \<Rightarrow> if a' - a \<noteq> 0 then int (a' - a) else q)"
      using w acc su True unfolding smdk2410_audio_write_def m_def
      by (auto simp: Let_def split: option.splits sum.splits)
    have res: "write_result K ch a m u res t" using write_loop_stream [OF l r whole fifo] u(4) by simp
    obtain bs' where r': "ring K False bs' t" using res by (auto simp: write_result_def)
    have inv': "audio_inv K t" by (rule keeps_inv [OF u(1) keeps_write_loop [OF l] r'])
    have le: "m \<le> c" by (simp add: m_def)
    show ?thesis
    proof (cases res)
      case (Inl e)
      then obtain n ds where "n < m" "takes K ch a n ds" "stream_out t = stream_out s @ ds" "r = -14"
        using res u(2) ret by (auto simp: write_result_def)
      then show ?thesis using inv' le by (auto intro!: exI [of _ n])
    next
      case (Inr qa)
      obtain q a' where qa: "qa = (q, a')" by (cases qa)
      obtain ds where A: "a \<le> a'" "a' \<le> a + m" "takes K ch a (a' - a) ds" "stream_out t = stream_out s @ ds"
        "a' < a + m \<Longrightarrow> length (pending (khist t)) = nbfrags u"
        using res u(2) by (force simp: write_result_def Inr qa)
      have nb: "nbfrags t = nbfrags u" using write_loop_nbfrags [OF l] .
      have q: "q \<in> {0, -11, -512}" using write_loop_ret [OF l [unfolded Inr qa]] by auto
      show ?thesis
      proof (cases "a' = a")
        case True
        then have "r = q" using ret by (simp add: Inr qa)
        then show ?thesis using inv' A True q nb
          by (auto simp: m_def [symmetric] intro!: exI [of _ 0])
      next
        case False
        then have "nat r = a' - a" "0 \<le> r" using ret A(1) by (simp_all add: Inr qa)
        then show ?thesis using inv' A nb by (auto simp: m_def [symmetric])
      qed
    qed
  qed
qed

lemma write_keeps_inv:
  "alloc_ok K \<Longrightarrow> audio_inv K s \<Longrightarrow> dma_fifo (khist t) \<Longrightarrow>
     smdk2410_audio_write K acc nonblock sched a c s = Some (r, t) \<Longrightarrow> audio_inv K t"
  by (rule conjunct1 [OF write_stream [OF _ _ _ _ refl]])

text \<open>
  C6: A write that reports \<open>r\<close> bytes appends the sound bytes of exactly the first \<open>r\<close> bytes of the
  caller's buffer to the stream, in order, behind everything accepted before: the bytes themselves in
  stereo, all of which were readable, and each sample twice in mono.  The mono copy does not look at
  the result of its user accesses, so there a byte within three addresses of an unreadable one may be the
  kernel's byte instead of the caller's; when the accepted bytes are readable, the caller's are appended.
  A write that reports less than the whole frames asked for has filled the ring.  One that fails has appended
  nothing, unless it failed with \<open>-EFAULT\<close>, when it appended a prefix.
\<close>
theorem write_appends:
  assumes K: "alloc_ok K" and inv: "audio_inv K s" and fifo: "dma_fifo (khist t)"
    and w: "smdk2410_audio_write K acc nonblock sched a c s = Some (r, t)"
  shows "audio_inv K t \<and>
    (0 \<le> r \<longrightarrow> nat r \<le> c - c mod 4 \<and>
       (\<exists>ds. takes K (audio_channels s) a (nat r) ds \<and> stream_out t = stream_out s @ ds) \<and>
       ((\<forall>x \<in> set [a..<a + nat r]. \<not> ubad K x) \<longrightarrow> stream_out t = stream_out s @ out_bytes K (audio_channels s) a (nat r)) \<and>
       (nat r < c - c mod 4 \<longrightarrow> length (pending (khist t)) = nbfrags t)) \<and>
    (r < 0 \<longrightarrow> (\<exists>n ds. n \<le> c \<and> takes K (audio_channels s) a n ds \<and> stream_out t = stream_out s @ ds \<and> (n \<noteq> 0 \<longrightarrow> r = -14)))"
  using write_stream [OF K inv fifo w refl] takes_readable [of K "audio_channels s" a "nat r"] by auto

lemma demo_write:
  "map_option (\<lambda>(r, t). (r, dma_fifo (khist t), khist t))
     (smdk2410_audio_write demo_kernel O_WRONLY False [[], []] 100 21 demo_stream) =
   Some (20, True, [Kalloc 32 0 0, Dqueue 0 0 16])"
  by code_simp

theorem write_appends_witness:
  "\<exists>t. smdk2410_audio_write demo_kernel O_WRONLY False [[], []] 100 21 demo_stream = Some (20, t) \<and>
     stream_out t = map of_nat [100..<120]"
proof -
  obtain t where t: "smdk2410_audio_write demo_kernel O_WRONLY False [[], []] 100 21 demo_stream = Some (20, t)"
    "dma_fifo (khist t)" using demo_write by auto
  have "stream_out demo_stream = []" "audio_channels demo_stream = 2"
    by (simp_all add: demo_stream_def stream_out_def in_flight_def partial_def buf_at_def)
  then show ?thesis
    using write_appends [OF demo_kernel_ok demo_stream_inv t(2) t(1)] t(1)
    by (auto simp: out_bytes_def demo_kernel_def)
qed

text \<open>
  C22: A write returns: the call ends with one schedule entry for every fragment that twice its byte count
  and one fragment more would fill (in mono each byte counts twice; in stereo fewer entries are needed),
  whatever the interrupts do.  A sleep on a semaphore takes one entry and ends with the semaphore or a signal.
\<close>
theorem write_returns:
  assumes K: "alloc_ok K" and inv: "audio_inv K s"
    and fs: "fs = (if buffers s = None then audio_fragsize s else fragsize s)"
    and m: "(2 * c + fs) div fs < length sched"
  shows "\<exists>r t. smdk2410_audio_write K acc nonblock sched a c s = Some (r, t)"
proof (cases "acc = O_WRONLY \<or> acc = O_RDWR")
  case False
  then show ?thesis by (auto simp: smdk2410_audio_write_def)
next
  case acc: True
  obtain err u where su: "(if buffers s = None then audio_setup_buf K s else (0, s)) = (err, u)" by (metis surj_pair)
  have u: "audio_inv K u" "err \<noteq> 0 \<or> buffers u \<noteq> None" "err = 0 \<Longrightarrow> fragsize u = fs"
    using setup_inv [OF K inv] su inv fs by (cases "buffers s"; auto)+
  show ?thesis
  proof (cases "err = 0")
    case False
    then show ?thesis using acc su by (auto simp: smdk2410_audio_write_def Let_def)
  next
    case True
    obtain bs where r: "ring K False bs u" using u True by (auto simp: audio_inv_def split: option.splits)
    define w where "w = c - c mod 4"
    have w: "w \<le> c" "whole_samples x w" for x
    proof -
      show "w \<le> c" by (simp add: w_def)
      have "4 dvd w" unfolding w_def by (simp add: minus_mod_eq_mult_div)
      moreover from this have "even w" by presburger
      ultimately show "whole_samples x w" by (simp add: whole_samples_def)
    qed
    define k where "k = (if audio_channels u = 2 then w else 2 * w) + nat (b_size (bs ! buf_idx u))"
    have "b_size (bs ! buf_idx u) < int fs" "0 \<le> b_size (bs ! buf_idx u)" "0 < fs"
      using r u(3) [OF True] by (simp_all add: ring_defs)
    then have "k \<le> 2 * c + fs" using w(1) by (auto simp: k_def)
    then have "k div fragsize u < length sched" using m u(3) [OF True] by (metis div_le_mono order_le_less_trans)
    then obtain res t where "write_loop K nonblock sched a w 0 u = Some (res, t)"
      using write_loop_returns [OF ring_shape [OF r] w(2) k_def] by blast
    then show ?thesis using acc su True
      by (cases res) (auto simp: smdk2410_audio_write_def Let_def w_def [symmetric])
  qed
qed

theorem write_returns_witness:
  "\<exists>r t. smdk2410_audio_write demo_kernel O_WRONLY False (replicate 5 []) 100 20 demo_stream = Some (r, t)"
  by (rule write_returns [OF demo_kernel_ok demo_stream_inv refl]) (simp add: demo_stream_def)

section \<open>Draining the ring\<close>

lemma down_un_prefix: "down_un sched i s = Some (sched', t) \<Longrightarrow> prefix (khist s) (khist t) \<and> keeps s t \<and> buf_idx t = buf_idx s"
proof (induction sched i s rule: down_un.induct)
  case (2 ds sched i s)
  from "2.prems" obtain got u where d: "down_sem ds i s = Some (got, u)" by (auto split: option.splits)
  have u: "prefix (khist s) (khist u)" "keeps s u" "buf_idx u = buf_idx s"
    using quiet_down [OF d] keeps_down [OF d] by (simp_all add: quiet_def)
  show ?case
  proof (cases got)
    case False
    then have "down_un sched i u = Some (sched', t)" using "2.prems" d by simp
    from "2.IH" [OF d refl False this] u show ?thesis by (auto intro: keeps_trans prefix_order.trans)
  qed (use "2.prems" d u in auto)
qed simp

lemma down_un_idx:
  "down_un sched i s = Some (sched', t) \<Longrightarrow> ring K False bs s \<Longrightarrow> i = buf_idx s \<Longrightarrow> dma_fifo (khist t) \<Longrightarrow>
     (\<exists>bs'. ring K True bs' t) \<and> stream_out t = stream_out s"
proof (induction sched i s arbitrary: bs rule: down_un.induct)
  case (2 ds sched i s)
  from "2.prems" obtain got u where d: "down_sem ds i s = Some (got, u)" by (auto split: option.splits)
  have i: "buf_idx u = i" using quiet_down [OF d] "2.prems"(3) by (simp add: quiet_def)
  show ?case
  proof (cases got)
    case True
    then have t: "t = u" using "2.prems"(1) d by simp
    show ?thesis using down_sem_idx [OF "2.prems"(2) d [unfolded "2.prems"(3)]] "2.prems"(4) True t by auto
  next
    case False
    then have w: "down_un sched i u = Some (sched', t)" using "2.prems" d by simp
    have "dma_fifo (khist u)" using dma_fifo_prefix [OF conjunct1 [OF down_un_prefix [OF w]] "2.prems"(4)] .
    then obtain bs' where "ring K False bs' u" "stream_out u = stream_out s"
      using down_sem_idx [OF "2.prems"(2) d [unfolded "2.prems"(3)]] False by auto
    with "2.IH" [OF d refl False w _ i [symmetric] "2.prems"(4)] show ?thesis by auto
  qed
qed simp

lemma down_up_same:
  assumes d: "down_sem ds i s = Some (True, t)"
  shows "up_sem i t = fold dma_out_irq ds s" "\<exists>b. buf_at i (fold dma_out_irq ds s) = Some b \<and> 0 < b_sem b"
proof -
  define u where "u = fold dma_out_irq ds s"
  obtain b where b: "buf_at i u = Some b" "0 < b_sem b" "t = upd_buf i (\<lambda>b. b\<lparr>b_sem := b_sem b - 1\<rparr>) u"
    using d by (auto simp: down_sem_def u_def Let_def split: option.splits if_splits)
  then show "\<exists>b. buf_at i (fold dma_out_irq ds s) = Some b \<and> 0 < b_sem b" by (auto simp: u_def)
  obtain bs where bs: "buffers u = Some bs" "i < length bs"
    using b(1) by (auto simp: buf_at_def split: option.splits if_splits)
  have "(bs ! i)\<lparr>b_sem := b_sem (bs ! i) - 1 + 1\<rparr> = bs ! i" by simp
  then have "up_sem i t = u" using bs by (simp add: b(3) up_sem_def upd_buf_def)
  then show "up_sem i t = fold dma_out_irq ds s" by (simp add: u_def)
qed

lemma last_slot: "i < n \<Longrightarrow> 0 < m \<Longrightarrow> m \<le> n \<Longrightarrow> (n + i - 1) mod n \<in> set (slots n i m)"
  unfolding slots_def by (auto intro!: image_eqI [of _ _ "m - 1"] arg_cong [where f = "\<lambda>x. x mod n"])

lemma last_free:
  assumes r: "ring K False bs s" and b: "buf_at ((nbfrags s + buf_idx s - 1) mod nbfrags s) s = Some b" "0 < b_sem b"
  shows "pending (khist s) = []"
proof (rule ccontr)
  assume ne: "pending (khist s) \<noteq> []"
  define i where "i = (nbfrags s + buf_idx s - 1) mod nbfrags s"
  have lt: "buf_idx s < nbfrags s" using r by (simp add: ring_defs)
  then have "i < nbfrags s" by (simp add: i_def)
  then have "b = bs ! i" using ring_buf_at(2) [OF r, of i] b(1) [folded i_def] by simp
  moreover have "i \<in> set (pend_frags s)"
    using r last_slot [OF lt, of "length (pending (khist s))"] ne by (simp add: ring_def ring_pend_def i_def)
  ultimately show False using r b(2) \<open>i < nbfrags s\<close> by (simp add: ring_def ring_sem_def)
qed

lemma sync_queue_stream:
  assumes q: "sync_queue sched (buf_idx s) s = Some (sched', t)" and r: "ring K False bs s" and f: "dma_fifo (khist t)"
  shows "(\<exists>bs'. ring K False bs' t \<and> b_size (bs' ! buf_idx t) = 0) \<and> stream_out t = stream_out s \<and> keeps s t \<and> dma_fifo (khist s)"
proof -
  obtain u b where u: "down_un sched (buf_idx s) s = Some (sched', u)" "buf_at (buf_idx s) u = Some b"
    "t = send_frag (buf_idx s) b u"
    using q by (auto simp: sync_queue_def split: bind_splits)
  have p: "prefix (khist s) (khist u)" "keeps s u" "buf_idx u = buf_idx s" using down_un_prefix [OF u(1)] by simp_all
  have fu: "dma_fifo (khist u)" using f by (simp add: u(3) khist_send)
  obtain bs' where r': "ring K True bs' u" "stream_out u = stream_out s" using down_un_idx [OF u(1) r refl fu] by blast
  have "b = bs' ! buf_idx u" using ring_buf_at(1) [OF r'(1)] u(2) p(3) by simp
  then have t: "t = send_frag (buf_idx u) (bs' ! buf_idx u) u" using u(3) p(3) by simp
  show ?thesis using ring_send [OF r'(1)] r'(2) keeps_trans [OF p(2) keeps_send] dma_fifo_prefix [OF p(1) fu]
    unfolding t by simp
qed

lemma sync_stream:
  assumes inv: "audio_inv K s" and b: "buffers s \<noteq> None" and fifo: "dma_fifo (khist t)"
    and y: "audio_sync sched s = Some (r, t)"
  shows "audio_inv K t \<and> stream_out t = stream_out s \<and> (r = 0 \<or> r = -4) \<and>
    (r = 0 \<longrightarrow> pending (khist t) = [] \<and> played (khist t) = stream_out s)"
proof -
  obtain bs where r: "ring K False bs s" using inv b by (auto simp: audio_inv_def split: option.splits)
  define b0 where "b0 = bs ! buf_idx s"
  obtain ds sched' u where u: "(if b_size b0 \<noteq> 0 then sync_queue sched (buf_idx s) s else Some (sched, s)) = Some (ds # sched', u)"
    using y r b by (auto simp: audio_sync_def Let_def b0_def split: option.splits list.splits)
  define i where "i = (nbfrags u + buf_idx u - 1) mod nbfrags u"
  obtain got v where d: "down_sem ds i u = Some (got, v)" and t: "(r, t) = (if got then (0, up_sem i v) else (-4, v))"
    using y r b u by (auto simp: audio_sync_def Let_def b0_def i_def split: option.splits if_splits)
  define w where "w = fold dma_out_irq ds u"
  have tw: "t = w"
  proof (cases got)
    case True
    then show ?thesis using t down_up_same(1) [of ds i u v] d by (simp add: w_def)
  next
    case False
    then show ?thesis using t d by (auto simp: down_sem_def w_def Let_def split: option.splits if_splits)
  qed
  have pu: "prefix (khist u) (khist w)" "keeps u w" "nbfrags w = nbfrags u" "buf_idx w = buf_idx u"
    using quiet_irqs [of u ds] keeps_irqs [of u ds] by (simp_all add: quiet_def w_def)
  have fu: "dma_fifo (khist u)" using dma_fifo_prefix [OF pu(1)] fifo tw by simp
  obtain bs1 where r1: "ring K False bs1 u" "b_size (bs1 ! buf_idx u) = 0" and so: "stream_out u = stream_out s" "keeps s u"
  proof (cases "b_size b0 = 0")
    case True
    then have "u = s" using u by simp
    then show ?thesis using that [of bs] r True by (simp add: b0_def)
  next
    case False
    then have "sync_queue sched (buf_idx s) s = Some (ds # sched', u)" using u by simp
    then show ?thesis using that sync_queue_stream [OF _ r fu] by blast
  qed
  obtain bs2 where r2: "ring K False bs2 w" and so2: "stream_out w = stream_out u"
    using ring_irqs [OF r1(1)] fifo tw unfolding w_def by blast
  have z: "partial w = []"
  proof -
    have owned_sizes: "map_option (map (\<lambda>b. (b_size b, b_start b, b_dma_addr b, b_master b))) (buffers w) =
        map_option (map (\<lambda>b. (b_size b, b_start b, b_dma_addr b, b_master b))) (buffers u)"
      using quiet_irqs [of u ds] by (simp add: quiet_def w_def)
    have bw: "buffers w = Some bs2" "buffers u = Some bs1" "buf_idx u < length bs1" "buf_idx w < length bs2"
      using r1(1) r2 by (simp_all add: ring_defs)
    then have m: "map (\<lambda>b. (b_size b, b_start b, b_dma_addr b, b_master b)) bs2 =
        map (\<lambda>b. (b_size b, b_start b, b_dma_addr b, b_master b)) bs1" using owned_sizes by simp
    have "b_size (bs2 ! buf_idx u) = b_size (bs1 ! buf_idx u)"
      using arg_cong [where f = "\<lambda>xs. xs ! buf_idx u", OF m] bw(3,4) unfolding pu(4) by simp
    then show ?thesis using r1(2) pu(4) by (simp add: ring_partial [OF r2] peek_def)
  qed
  have inv': "audio_inv K t" using keeps_inv [OF inv keeps_trans [OF so(2) pu(2)] r2] by (simp add: tw)
  have "pending (khist w) = []" if got
    using last_free [OF r2] down_up_same(2) [of ds i u v] d that pu unfolding i_def w_def by auto
  then show ?thesis using inv' so so2 t z tw
    by (auto simp: stream_out_def in_flight_def split: if_splits)
qed

text \<open>
  C24: \<open>SNDCTL_DSP_SYNC\<close> that succeeds has played everything: no fragment is queued, none is
  partly filled, and what went to the speaker is the whole stream accepted so far.  One that a
  signal interrupts loses nothing.
\<close>
theorem sync_plays_all:
  assumes inv: "audio_inv K s" and b: "buffers s \<noteq> None" and fifo: "dma_fifo (khist t)"
    and y: "audio_sync sched s = Some (r, t)"
  shows "audio_inv K t \<and> stream_out t = stream_out s \<and> (r = 0 \<or> r = -4) \<and>
    (r = 0 \<longrightarrow> pending (khist t) = [] \<and> played (khist t) = stream_out s)"
  by (rule sync_stream [OF inv b fifo y])

lemma demo_sync:
  "map_option (\<lambda>(r, t). (r, dma_fifo (khist t)))
     (Option.bind (smdk2410_audio_write demo_kernel O_WRONLY False [[], []] 100 20 demo_stream)
       (\<lambda>(r, s). audio_sync [[], [0, 1]] s)) = Some (0, True)"
  by code_simp

theorem sync_plays_all_witness:
  "\<exists>s t. smdk2410_audio_write demo_kernel O_WRONLY False [[], []] 100 20 demo_stream = Some (20, s) \<and>
     audio_sync [[], [0, 1]] s = Some (0, t) \<and> played (khist t) = stream_out s"
proof -
  obtain r s where s: "smdk2410_audio_write demo_kernel O_WRONLY False [[], []] 100 20 demo_stream = Some (r, s)"
    using demo_sync by (auto split: bind_splits)
  have rs: "r = 20" "dma_fifo (khist s)" "buffers s \<noteq> None"
  proof -
    have "map_option (\<lambda>(r, t). r = 20 \<and> dma_fifo (khist t) \<and> \<not> Option.is_none (buffers t))
        (smdk2410_audio_write demo_kernel O_WRONLY False [[], []] 100 20 demo_stream) = Some True" by code_simp
    then show "r = 20" "dma_fifo (khist s)" "buffers s \<noteq> None" using s by (auto simp: Option.is_none_def)
  qed
  obtain t where t: "audio_sync [[], [0, 1]] s = Some (0, t)" "dma_fifo (khist t)" using demo_sync s by auto
  have "audio_inv demo_kernel s"
    using write_keeps_inv [OF demo_kernel_ok demo_stream_inv rs(2) s] .
  from sync_plays_all [OF this rs(3) t(2) t(1)] s rs(1) t(1) show ?thesis by blast
qed

end
