(* ===== verification/Audio_In.thy ===== *)
theory Audio_In
  imports Audio_Alloc
begin

text \<open>
  Recording: \<open>smdk2410_mixer_read\<close> and the input callback of \<open>EXP25/driver/2410audio.c\<close>.  The
  input ring has the data model of the output ring.  The schedule of a sleep is a list of finished
  fragments with the bytes the DMA stored in them.
\<close>

section \<open>Model\<close>

definition audio_dmain_done_callback :: "nat \<Rightarrow> int \<Rightarrow> 'a audio_stream_scheme \<Rightarrow> 'a audio_stream_scheme" where
  "audio_dmain_done_callback i sz s = up_sem i (upd_buf i (\<lambda>b. b\<lparr>b_size := sz\<rparr>) s)"

text \<open>The DMA stores at the physical address it was given.\<close>

definition dma_store :: "nat \<Rightarrow> u8 list \<Rightarrow> 'a audio_stream_scheme \<Rightarrow> 'a audio_stream_scheme" where
  "dma_store p d s = fold (\<lambda>(k, x) s. s\<lparr>ram := (ram s)(p + k := x)\<rparr>) (enumerate 0 d) s"

definition dma_in_irq :: "nat \<times> u8 list \<Rightarrow> 'a audio_stream_scheme \<Rightarrow> 'a audio_stream_scheme" where
  "dma_in_irq = (\<lambda>(i, d) s.
     let s' = (case pending (khist s) of [] \<Rightarrow> s | (f, a, n) # q \<Rightarrow> dma_store a d s)
     in audio_dmain_done_callback i (int (length d)) (log_k (Ddone i d) s'))"

definition down_in :: "(nat \<times> u8 list) list \<Rightarrow> nat \<Rightarrow> 'a audio_stream_scheme \<Rightarrow> (bool \<times> 'a audio_stream_scheme) option" where
  "down_in ds i s =
     (let s = fold dma_in_irq ds s in
      case buf_at i s of None \<Rightarrow> None
      | Some b \<Rightarrow> if 0 < b_sem b then Some (True, upd_buf i (\<lambda>b. b\<lparr>b_sem := b_sem b - 1\<rparr>) s)
                  else Some (False, s))"

definition vpeek :: "kernel \<Rightarrow> nat \<Rightarrow> nat \<Rightarrow> 'a audio_stream_scheme \<Rightarrow> u8 list" where
  "vpeek K v n s = map (\<lambda>a. ram s (mmu K a)) [v..<v + n]"

text \<open>\<open>copy_to_user\<close> stores up to the first faulting address: \<open>(all of it, what was stored)\<close>.\<close>

definition copy_to_user :: "kernel \<Rightarrow> nat \<Rightarrow> u8 list \<Rightarrow> bool \<times> u8 list" where
  "copy_to_user K dst bs =
     (let good = takeWhile (\<lambda>a. \<not> ubad K a) [dst..<dst + length bs]
      in (length good = length bs, take (length good) bs))"

text \<open>The fragment goes back to the DMA for a whole fragment of data.\<close>

definition refill_frag :: "nat \<Rightarrow> audio_buf \<Rightarrow> 'a audio_stream_scheme \<Rightarrow> 'a audio_stream_scheme" where
  "refill_frag i b s = NEXT_BUF (log_k (Dqueue i (b_dma_addr b) (int (fragsize s))) s)"

text \<open>
  The loop: \<open>got\<close> is what has been stored at the caller's buffer so far.  \<open>chunksize\<close> is an \<open>int\<close>
  compared with the unsigned \<open>count\<close>.
\<close>

fun read_loop :: "kernel \<Rightarrow> bool \<Rightarrow> (nat \<times> u8 list) list list \<Rightarrow> nat \<Rightarrow> nat \<Rightarrow> int \<Rightarrow> u8 list
    \<Rightarrow> 'a audio_stream_scheme \<Rightarrow> ((int + int) \<times> u8 list \<times> 'a audio_stream_scheme) option" where
  "read_loop K nonblock [] buffer cnt ret got s = (if 0 < cnt then None else Some (Inr ret, got, s))"
| "read_loop K nonblock (ds # sched) buffer cnt ret got s =
     (if \<not> 0 < cnt then Some (Inr ret, got, s)
      else let i = buf_idx s; ret = (if nonblock then -11 else -512) in
        case down_in ds i s of
          None \<Rightarrow> None
        | Some (taken, s) \<Rightarrow>
            if \<not> taken then Some (Inr ret, got, s)
            else case buf_at i s of None \<Rightarrow> None
            | Some b \<Rightarrow>
                let chunksize = (if u32i (b_size b) > int cnt then int cnt else b_size b);
                    n = nat chunksize;
                    (ok, stored) = copy_to_user K buffer (vpeek K (b_start b + nat (int (fragsize s) - b_size b)) n s);
                    got = got @ stored
                in if \<not> ok then Some (Inl (-14), got, up_sem i s)
                   else let s = upd_buf i (\<lambda>b. b\<lparr>b_size := b_size b - chunksize\<rparr>) s
                     in if b_size b - chunksize > 0 then Some (Inr ret, got, up_sem i s)
                        else read_loop K nonblock sched (buffer + n) (cnt - n) ret got (refill_frag i b s))"

definition smdk2410_mixer_read :: "kernel \<Rightarrow> accmode \<Rightarrow> bool \<Rightarrow> (nat \<times> u8 list) list list \<Rightarrow> nat \<Rightarrow> nat
    \<Rightarrow> 'a audio_stream_scheme \<Rightarrow> (int \<times> u8 list \<times> 'a audio_stream_scheme) option" where
  "smdk2410_mixer_read K acc nonblock sched buffer cnt s =
     (if acc \<noteq> O_RDONLY \<and> acc \<noteq> O_RDWR then Some (-1, [], s)
      else let (err, s) = (if buffers s = None then audio_setup_buf K s else (0, s)) in
        if err \<noteq> 0 then Some (-12, [], s)
        else case read_loop K nonblock sched buffer (cnt - cnt mod 4) 0 [] s of
          None \<Rightarrow> None
        | Some (Inl err, got, s) \<Rightarrow> Some (err, got, s)
        | Some (Inr ret, got, s) \<Rightarrow> Some (if got \<noteq> [] then int (length got) else ret, got, s))"

section \<open>The invariant of the input ring\<close>

text \<open>The slots that are not with the DMA, from the current one on.\<close>

definition ready :: "'a audio_stream_scheme \<Rightarrow> nat list" where
  "ready s = map (\<lambda>k. (buf_idx s + k) mod nbfrags s) [0..<nbfrags s - length (pending (khist s))]"

text \<open>Unread bytes are at the end of their fragment.\<close>

definition frag_data :: "'a audio_stream_scheme \<Rightarrow> audio_buf \<Rightarrow> u8 list" where
  "frag_data s b = peek s (b_dma_addr b + nat (int (fragsize s) - b_size b)) (nat (b_size b))"

definition avail :: "'a audio_stream_scheme \<Rightarrow> u8 list" where
  "avail s = (case buffers s of None \<Rightarrow> [] | Some bs \<Rightarrow> concat (map (\<lambda>i. frag_data s (bs ! i)) (ready s)))"

definition in_ring :: "kernel \<Rightarrow> audio_buf list \<Rightarrow> 'a audio_stream_scheme \<Rightarrow> bool" where
  "in_ring K bs s \<longleftrightarrow> buffers s = Some bs \<and> ring_geom K bs s \<and> ring_pend bs s \<and> ring_sem False bs s \<and>
     (\<forall>i < nbfrags s. 0 \<le> b_size (bs ! i) \<and> b_size (bs ! i) \<le> int (fragsize s)) \<and>
     (\<forall>i \<in> set (pend_frags s). b_size (bs ! i) = 0)"

text \<open>The DMA fills whole fragments.\<close>

fun whole_frags :: "nat \<Rightarrow> kev list \<Rightarrow> bool" where
  "whole_frags fs [] = True"
| "whole_frags fs (Ddone i d # h) = (length d = fs \<and> whole_frags fs h)"
| "whole_frags fs (_ # h) = whole_frags fs h"

lemma whole_frags_append [simp]: "whole_frags fs (h @ k) \<longleftrightarrow> whole_frags fs h \<and> whole_frags fs k"
  by (induction fs h rule: whole_frags.induct) auto

lemma whole_frags_prefix: "prefix h k \<Longrightarrow> whole_frags fs k \<Longrightarrow> whole_frags fs h"
  by (auto simp: prefix_def)

lemma in_ring_basic:
  assumes "in_ring K bs s"
  shows "buffers s = Some bs" "length bs = nbfrags s" "buf_idx s < nbfrags s" "16 \<le> fragsize s"
    "length (pending (khist s)) \<le> nbfrags s" "pend_frags s = slots (nbfrags s) (buf_idx s) (length (pending (khist s)))"
  using assms by (simp_all add: in_ring_def ring_geom_def ring_pend_def)

lemma ready_iff:
  assumes "in_ring K bs s"
  shows "buf_idx s \<notin> set (pend_frags s) \<longleftrightarrow> length (pending (khist s)) < nbfrags s"
proof -
  note b = in_ring_basic [OF assms]
  show ?thesis
    unfolding b(6) using not_in_slots [OF b(3)] in_full_slots [OF b(3)] b(5)
    by (metis le_neq_implies_less)
qed

lemma ready_Cons:
  assumes r: "in_ring K bs s" and n: "length (pending (khist s)) < nbfrags s"
    and t: "nbfrags t = nbfrags s" "buf_idx t = (buf_idx s + 1) mod nbfrags s"
      "length (pending (khist t)) = Suc (length (pending (khist s)))"
  shows "ready s = buf_idx s # ready t"
proof -
  have "nbfrags s - length (pending (khist s)) = Suc (nbfrags s - Suc (length (pending (khist s))))" using n by simp
  then have "ready s = buf_idx s # map (\<lambda>k. (buf_idx s + Suc k) mod nbfrags s) [0..<nbfrags s - Suc (length (pending (khist s)))]"
    using in_ring_basic(3) [OF r] unfolding ready_def by (simp add: map_upt_Suc_Cons del: upt_Suc)
  also have "map (\<lambda>k. (buf_idx s + Suc k) mod nbfrags s) [0..<nbfrags s - Suc (length (pending (khist s)))] = ready t"
    unfolding ready_def t by (simp add: mod_add_left_eq)
  finally show ?thesis .
qed

lemma ready_snoc:
  assumes r: "in_ring K bs s" and p: "pending (khist s) = (i, a, n) # q"
    and t: "nbfrags t = nbfrags s" "buf_idx t = buf_idx s" "pending (khist t) = q"
  shows "ready t = ready s @ [i]"
proof -
  note b = in_ring_basic [OF r]
  have le: "Suc (length q) \<le> nbfrags s" using b(5) p by simp
  have "nbfrags s - length q = Suc (nbfrags s - Suc (length q))" using le by simp
  moreover have "i = (buf_idx s + nbfrags s - Suc (length q)) mod nbfrags s"
    using b(6) p slots_Suc [OF le] by (simp add: pend_frags_def)
  ultimately show ?thesis unfolding ready_def t using p le by simp
qed

lemma ready_less: "in_ring K bs s \<Longrightarrow> i \<in> set (ready s) \<Longrightarrow> i < nbfrags s"
  using in_ring_basic(3) [of K bs s] by (auto simp: ready_def)

text \<open>The ready slots and the pending ones are apart.\<close>

lemma ready_not_pending:
  assumes r: "in_ring K bs s" and i: "i \<in> set (ready s)"
  shows "i \<notin> set (pend_frags s)"
proof
  assume "i \<in> set (pend_frags s)"
  note b = in_ring_basic [OF r]
  define m where "m = length (pending (khist s))"
  obtain k where k: "k < nbfrags s - m" "i = (buf_idx s + k) mod nbfrags s" using i by (auto simp: ready_def m_def)
  obtain l where l: "l < m" "i = (buf_idx s + nbfrags s - m + l) mod nbfrags s"
    using \<open>i \<in> set (pend_frags s)\<close> unfolding b(6) slots_def m_def by auto
  have e: "buf_idx s + nbfrags s - m + l = buf_idx s + (nbfrags s - m + l)" using b(5) by (simp add: m_def)
  have "(buf_idx s + k) mod nbfrags s = (buf_idx s + (nbfrags s - m + l)) mod nbfrags s"
    using k(2) l(2) unfolding e by (rule trans [OF sym])
  moreover have "k < nbfrags s" "nbfrags s - m + l < nbfrags s" using k(1) l(1) b(5) by (simp_all add: m_def)
  ultimately have "k = nbfrags s - m + l" by (rule mod_shift_inj [rotated 2])
  then show False using k(1) by simp
qed

lemma dma_store_ram:
  "dma_store p d s = s\<lparr>ram := \<lambda>q. if p \<le> q \<and> q < p + length d then d ! (q - p) else ram s q\<rparr>"
proof (induction d rule: rev_induct)
  case Nil
  have "(\<lambda>q. if p \<le> q \<and> q < p + length [] then [] ! (q - p) else ram s q) = ram s" by (rule ext) auto
  then show ?case by (simp add: dma_store_def)
next
  case (snoc x d)
  have "dma_store p (d @ [x]) s = (dma_store p d s)\<lparr>ram := (ram (dma_store p d s))(p + length d := x)\<rparr>"
    by (simp add: dma_store_def enumerate_append_eq)
  also have "\<dots> = s\<lparr>ram := \<lambda>q. if p \<le> q \<and> q < p + length (d @ [x]) then (d @ [x]) ! (q - p) else ram s q\<rparr>"
    unfolding snoc by (auto simp: fun_eq_iff nth_append intro!: arg_cong [where f = "\<lambda>r. s\<lparr>ram := r\<rparr>"])
  finally show ?case .
qed

lemma dma_store_poked: "dma_store p d = poked p d"
  by (rule ext) (simp add: dma_store_ram poked_def)

lemma peek_cong: "ram t = ram s \<Longrightarrow> peek t = peek s"
  by (simp add: peek_def fun_eq_iff)

section \<open>Interrupts and reads\<close>

lemma in_irq:
  assumes r: "in_ring K bs s" and i: "pending (khist s) \<noteq> []" "fst (hd (pending (khist s))) = i"
    and d: "length d = fragsize s"
  shows "\<exists>bs'. in_ring K bs' (dma_in_irq (i, d) s)" "avail (dma_in_irq (i, d) s) = avail s @ d"
proof -
  obtain a n q where q: "pending (khist s) = (i, a, n) # q" using i by (cases "pending (khist s)") auto
  define t where "t = dma_in_irq (i, d) s"
  define bs' where "bs' = bs[i := (bs ! i)\<lparr>b_size := int (fragsize s), b_sem := b_sem (bs ! i) + 1\<rparr>]"
  note b = in_ring_basic [OF r]
  have fr: "pend_frags s = i # map fst q" using q by (simp add: pend_frags_def)
  have i_lt: "i < nbfrags s" using slots_less [of "nbfrags s" i] b(3,6) fr by (metis gr_implies_not0 list.set_intros(1) not_gr_zero)
  have h: "khist t = khist s @ [Ddone i d]"
    and other: "buffers t = Some bs'" "buf_idx t = buf_idx s" "fragsize t = fragsize s"
      "nbfrags t = nbfrags s" "ram t = ram (poked a d s)"
    using b(1,2) q i_lt
    by (simp_all add: t_def dma_in_irq_def audio_dmain_done_callback_def up_sem_def bs'_def d dma_store_poked)
  have p: "pending (khist t) = q" using q h by simp
  have fr': "pend_frags t = map fst q" using p by (simp add: pend_frags_def)
  have le: "Suc (length q) \<le> nbfrags s" using b(5) q by simp
  have sl: "map fst q = slots (nbfrags s) (buf_idx s) (length q)" using b(6) fr q slots_Suc [OF le] by simp
  have i_notin: "i \<notin> set (map fst q)" using distinct_slots [OF le, of "buf_idx s"] b(6) fr q by (metis distinct.simps(2) length_Cons)
  have nth: "b_sem (bs' ! j) = (if j = i then b_sem (bs ! i) + 1 else b_sem (bs ! j))"
    "b_size (bs' ! j) = (if j = i then int (fragsize s) else b_size (bs ! j))" "b_start (bs' ! j) = b_start (bs ! j)"
    "b_dma_addr (bs' ! j) = b_dma_addr (bs ! j)" for j
    using i_lt b(2) by (auto simp: bs'_def nth_list_update)
  have a: "a = b_dma_addr (bs ! i)" using r q by (simp add: in_ring_def ring_pend_def)
  have "ring_geom K bs' t" using r b(2) unfolding in_ring_def ring_geom_def other nth by (simp add: bs'_def)
  moreover have "ring_pend bs' t" using r q le sl fr' unfolding in_ring_def ring_pend_def other nth p by simp
  moreover have "ring_sem False bs' t"
    using r i_notin unfolding in_ring_def ring_sem_def other nth fr fr' by auto
  moreover have "\<forall>j < nbfrags t. 0 \<le> b_size (bs' ! j) \<and> b_size (bs' ! j) \<le> int (fragsize t)"
    "\<forall>j \<in> set (pend_frags t). b_size (bs' ! j) = 0"
    using r i_notin unfolding in_ring_def other nth fr fr' by auto
  ultimately show "\<exists>bs'. in_ring K bs' (dma_in_irq (i, d) s)" using other unfolding t_def [symmetric] in_ring_def by blast
  have rd: "ready t = ready s @ [i]" by (rule ready_snoc [OF r q]) (simp_all add: other p)
  have same: "frag_data t (bs' ! j) = frag_data s (bs ! j)" if "j \<in> set (ready s)" for j
  proof -
    have "j \<noteq> i" using ready_not_pending [OF r that] fr by auto
    then have ap: "b_dma_addr (bs ! j) + fragsize s \<le> b_dma_addr (bs ! i) \<or> b_dma_addr (bs ! i) + fragsize s \<le> b_dma_addr (bs ! j)"
      using r ready_less [OF r that] i_lt by (auto simp: in_ring_def ring_geom_def)
    have sz: "0 \<le> b_size (bs ! j)" "b_size (bs ! j) \<le> int (fragsize s)"
      using r ready_less [OF r that] by (simp_all add: in_ring_def)
    have "frag_data t (bs' ! j) = peek (poked a d s) (b_dma_addr (bs ! j) + nat (int (fragsize s) - b_size (bs ! j))) (nat (b_size (bs ! j)))"
      using \<open>j \<noteq> i\<close> by (simp add: frag_data_def other nth peek_cong [OF other(5)])
    also have "\<dots> = frag_data s (bs ! j)"
      unfolding frag_data_def using ap sz d a by (intro peek_poked_other) linarith
    finally show ?thesis .
  qed
  have new: "frag_data t (bs' ! i) = d"
    using peek_poked_end [of a 0 d s] d a
    by (simp add: frag_data_def other nth peek_cong [OF other(5)]) (simp add: peek_def)
  have "avail t = avail s @ d"
    unfolding avail_def other(1) b(1) rd using same new by (simp cong: map_cong)
  then show "avail (dma_in_irq (i, d) s) = avail s @ d" by (simp add: t_def)
qed

lemma in_irq_hist: "khist (dma_in_irq (i, d) s) = khist s @ [Ddone i d]"
  by (auto simp: dma_in_irq_def audio_dmain_done_callback_def up_sem_def dma_store_poked split: list.splits prod.splits)

lemma in_irq_fields [simp]:
  "buf_idx (dma_in_irq e s) = buf_idx s" "fragsize (dma_in_irq e s) = fragsize s" "nbfrags (dma_in_irq e s) = nbfrags s"
  by (cases e; auto simp: dma_in_irq_def audio_dmain_done_callback_def up_sem_def dma_store_poked split: list.splits prod.splits)+

lemma in_irqs_prefix: "prefix (khist s) (khist (fold dma_in_irq ds s))"
proof (induction ds arbitrary: s)
  case (Cons e ds)
  obtain i d where "e = (i, d)" by (cases e)
  then have "prefix (khist s) (khist (dma_in_irq e s))" by (simp add: in_irq_hist)
  also have "prefix \<dots> (khist (fold dma_in_irq ds (dma_in_irq e s)))" by (rule Cons.IH)
  finally show ?case by simp
qed simp

lemma in_irqs_fields [simp]:
  "buf_idx (fold dma_in_irq ds s) = buf_idx s" "fragsize (fold dma_in_irq ds s) = fragsize s"
  "nbfrags (fold dma_in_irq ds s) = nbfrags s"
  by (induction ds arbitrary: s) auto

lemma in_irqs:
  assumes "in_ring K bs s" "dma_fifo (khist (fold dma_in_irq ds s))" "whole_frags (fragsize s) (khist (fold dma_in_irq ds s))"
  shows "\<exists>bs' x. in_ring K bs' (fold dma_in_irq ds s) \<and> avail (fold dma_in_irq ds s) = avail s @ x \<and>
    played (khist (fold dma_in_irq ds s)) = played (khist s) @ x"
  using assms
proof (induction ds arbitrary: s bs)
  case (Cons e ds)
  obtain i d where e: "e = (i, d)" by (cases e)
  define t where "t = dma_in_irq (i, d) s"
  have h: "khist t = khist s @ [Ddone i d]" by (simp add: t_def in_irq_hist)
  have pre: "prefix (khist t) (khist (fold dma_in_irq ds t))" by (rule in_irqs_prefix)
  have "dma_fifo (khist t)" "whole_frags (fragsize s) (khist t)"
    using Cons.prems(2,3) dma_fifo_prefix [OF pre] whole_frags_prefix [OF pre] by (simp_all add: e t_def)
  then have p: "pending (khist s) \<noteq> []" "fst (hd (pending (khist s))) = i" "length d = fragsize s" using h by auto
  obtain bs1 where r: "in_ring K bs1 t" and av: "avail t = avail s @ d"
    using in_irq [OF Cons.prems(1) p] by (auto simp: t_def)
  from Cons.IH [OF r] Cons.prems(2,3) obtain bs' x where "in_ring K bs' (fold dma_in_irq ds t)"
    "avail (fold dma_in_irq ds t) = avail t @ x" "played (khist (fold dma_in_irq ds t)) = played (khist t) @ x"
    by (auto simp: e t_def)
  then show ?case using av h by (auto simp: e t_def [symmetric])
qed auto

text \<open>The bytes a read takes from the current fragment.\<close>

lemma vpeek_frag:
  assumes r: "in_ring K bs u" and n: "n \<le> nat (b_size (bs ! buf_idx u))" and w: "ram w = ram u"
  shows "vpeek K (b_start (bs ! buf_idx u) + nat (int (fragsize u) - b_size (bs ! buf_idx u))) n w =
    take n (frag_data u (bs ! buf_idx u))"
proof -
  define b where "b = bs ! buf_idx u"
  define k where "k = nat (int (fragsize u) - b_size b)"
  have z: "0 \<le> b_size b" "b_size b \<le> int (fragsize u)" "buf_idx u < nbfrags u"
    using r by (simp_all add: in_ring_def ring_geom_def b_def)
  have m: "\<forall>j < fragsize u. mmu K (b_start b + j) = b_dma_addr b + j"
    using r z(3) by (simp add: in_ring_def ring_geom_def b_def)
  have "mmu K (b_start b + k + j) = b_dma_addr b + k + j" if "j < n" for j
    using m [rule_format, of "k + j"] that n z by (simp add: k_def b_def [symmetric] add.assoc)
  then have "vpeek K (b_start b + k) n w = peek u (b_dma_addr b + k) n"
    unfolding vpeek_def peek_def w by (intro nth_equalityI) simp_all
  also have "\<dots> = take n (peek u (b_dma_addr b + k) (nat (b_size b)))"
    using n by (simp add: peek_def take_map b_def)
  finally show ?thesis by (simp add: frag_data_def b_def k_def)
qed

lemma in_change:
  assumes r: "in_ring K bs u" and free: "buf_idx u \<notin> set (pend_frags u)" and z: "0 \<le> z" "z \<le> b_size (bs ! buf_idx u)"
    and t: "buffers t = Some (bs[buf_idx u := (bs ! buf_idx u)\<lparr>b_size := z\<rparr>])" "buf_idx t = buf_idx u"
      "fragsize t = fragsize u" "nbfrags t = nbfrags u" "ram t = ram u" "khist t = khist u"
  shows "in_ring K (bs[buf_idx u := (bs ! buf_idx u)\<lparr>b_size := z\<rparr>]) t"
    "avail u = take (nat (b_size (bs ! buf_idx u) - z)) (frag_data u (bs ! buf_idx u)) @ avail t"
proof -
  define b where "b = bs ! buf_idx u"
  define bs' where "bs' = bs[buf_idx u := b\<lparr>b_size := z\<rparr>]"
  note rb = in_ring_basic [OF r]
  have nth: "b_sem (bs' ! j) = b_sem (bs ! j)" "b_size (bs' ! j) = (if j = buf_idx u then z else b_size (bs ! j))"
    "b_start (bs' ! j) = b_start (bs ! j)" "b_dma_addr (bs' ! j) = b_dma_addr (bs ! j)" for j
    using rb(2,3) by (auto simp: bs'_def b_def nth_list_update)
  have tb: "buffers t = Some bs'" and pf: "pend_frags t = pend_frags u" using t by (simp_all add: bs'_def b_def pend_frags_def)
  have zb: "0 \<le> b_size b" "b_size b \<le> int (fragsize u)" using r rb(3) by (simp_all add: in_ring_def b_def)
  have "ring_geom K bs' t" using r unfolding in_ring_def ring_geom_def t nth by (simp add: bs'_def)
  moreover have "ring_pend bs' t" using r unfolding in_ring_def ring_pend_def t(2-6) nth pf by simp
  moreover have "ring_sem False bs' t" using r unfolding in_ring_def ring_sem_def t(2-6) nth pf by simp
  moreover have "\<forall>j < nbfrags t. 0 \<le> b_size (bs' ! j) \<and> b_size (bs' ! j) \<le> int (fragsize t)"
    "\<forall>j \<in> set (pend_frags t). b_size (bs' ! j) = 0"
    using r free z zb unfolding in_ring_def t(2-6) nth pf b_def by auto
  ultimately show "in_ring K (bs[buf_idx u := (bs ! buf_idx u)\<lparr>b_size := z\<rparr>]) t"
    using tb unfolding in_ring_def bs'_def b_def by blast
  have lt: "length (pending (khist u)) < nbfrags u" using ready_iff [OF r] free by simp
  define rest where "rest = tl (ready u)"
  have rd: "ready u = buf_idx u # rest" "ready t = buf_idx u # rest"
  proof -
    have "nbfrags u - length (pending (khist u)) = Suc (nbfrags u - Suc (length (pending (khist u))))" using lt by simp
    then have "ready u = buf_idx u # tl (ready u)"
      unfolding ready_def using rb(3) by (simp add: map_upt_Suc_Cons del: upt_Suc)
    then show "ready u = buf_idx u # rest" by (simp add: rest_def)
    then show "ready t = buf_idx u # rest" by (simp add: ready_def t)
  qed
  have "distinct (ready u)"
  proof -
    have "inj_on (\<lambda>k. (buf_idx u + k) mod nbfrags u) {0..<nbfrags u - length (pending (khist u))}"
    proof (rule inj_onI)
      fix x y
      assume "x \<in> {0..<nbfrags u - length (pending (khist u))}" "y \<in> {0..<nbfrags u - length (pending (khist u))}"
        "(buf_idx u + x) mod nbfrags u = (buf_idx u + y) mod nbfrags u"
      then show "x = y" by (intro mod_shift_inj [of x "nbfrags u" y "buf_idx u"]) auto
    qed
    then show ?thesis by (simp add: ready_def distinct_map)
  qed
  then have ni: "buf_idx u \<notin> set rest" using rd by simp
  have pk: "peek t = peek u" by (rule peek_cong [OF t(5)])
  have same: "map (\<lambda>i. frag_data t (bs' ! i)) rest = map (\<lambda>i. frag_data u (bs ! i)) rest"
    using ni by (intro map_cong refl) (auto simp: frag_data_def nth t pk)
  have "frag_data u b = take (nat (b_size b - z)) (frag_data u b) @ frag_data t (bs' ! buf_idx u)"
  proof -
    have e: "nat (int (fragsize u) - z) = nat (int (fragsize u) - b_size b) + nat (b_size b - z)"
      "nat (b_size b) = nat (b_size b - z) + nat z" using z zb by (simp_all add: b_def)
    have "frag_data t (bs' ! buf_idx u) = drop (nat (b_size b - z)) (frag_data u b)"
      unfolding frag_data_def t(3) nth pk
      by (simp add: e peek_def drop_map b_def [symmetric] add.assoc)
    then show ?thesis by simp
  qed
  then show "avail u = take (nat (b_size (bs ! buf_idx u) - z)) (frag_data u (bs ! buf_idx u)) @ avail t"
    unfolding avail_def tb rb(1) rd option.case list.map concat.simps same b_def [symmetric]
    by (metis append.assoc)
qed

lemma in_refill:
  assumes r: "in_ring K bs u" and free: "buf_idx u \<notin> set (pend_frags u)"
    and t: "buffers t = Some (bs[buf_idx u := (bs ! buf_idx u)\<lparr>b_sem := 0, b_size := 0\<rparr>])"
      "buf_idx t = (buf_idx u + 1) mod nbfrags u" "fragsize t = fragsize u" "nbfrags t = nbfrags u" "ram t = ram u"
      "khist t = khist u @ [Dqueue (buf_idx u) (b_dma_addr (bs ! buf_idx u)) (int (fragsize u))]"
  shows "in_ring K (bs[buf_idx u := (bs ! buf_idx u)\<lparr>b_sem := 0, b_size := 0\<rparr>]) t"
    "avail u = frag_data u (bs ! buf_idx u) @ avail t"
proof -
  define b where "b = bs ! buf_idx u"
  define bs' where "bs' = bs[buf_idx u := b\<lparr>b_sem := 0, b_size := 0\<rparr>]"
  note rb = in_ring_basic [OF r]
  have nth: "b_sem (bs' ! j) = (if j = buf_idx u then 0 else b_sem (bs ! j))"
    "b_size (bs' ! j) = (if j = buf_idx u then 0 else b_size (bs ! j))"
    "b_start (bs' ! j) = b_start (bs ! j)" "b_dma_addr (bs' ! j) = b_dma_addr (bs ! j)" for j
    using rb(2,3) by (auto simp: bs'_def b_def nth_list_update)
  have tb: "buffers t = Some bs'" using t by (simp add: bs'_def b_def)
  have p: "pending (khist t) = pending (khist u) @ [(buf_idx u, b_dma_addr b, int (fragsize u))]"
    by (simp add: t(6) b_def)
  then have pf: "pend_frags t = pend_frags u @ [buf_idx u]" by (simp add: pend_frags_def)
  have lt: "length (pending (khist u)) < nbfrags u" using ready_iff [OF r] free by simp
  have nx: "(buf_idx u + 1) mod nbfrags u < nbfrags u" using rb(3) by simp
  have "ring_geom K bs' t" using r nx rb(2) unfolding in_ring_def ring_geom_def t(2-5) nth by (simp add: bs'_def)
  moreover have "ring_pend bs' t"
    using r lt rb(6) slots_next [OF rb(3) lt] unfolding in_ring_def ring_pend_def t(2-5) nth p pf
    by (simp add: b_def)
  moreover have "ring_sem False bs' t" using r unfolding in_ring_def ring_sem_def t(2-5) nth pf by auto
  moreover have "\<forall>j < nbfrags t. 0 \<le> b_size (bs' ! j) \<and> b_size (bs' ! j) \<le> int (fragsize t)"
    "\<forall>j \<in> set (pend_frags t). b_size (bs' ! j) = 0"
    using r unfolding in_ring_def t(2-5) nth pf by auto
  ultimately show "in_ring K (bs[buf_idx u := (bs ! buf_idx u)\<lparr>b_sem := 0, b_size := 0\<rparr>]) t"
    using tb unfolding in_ring_def bs'_def b_def by blast
  have rd: "ready u = buf_idx u # ready t" by (rule ready_Cons [OF r lt]) (simp_all add: t p)
  have ni: "buf_idx u \<notin> set (ready t)"
  proof -
    have "in_ring K bs' t" using \<open>in_ring K (bs[buf_idx u := (bs ! buf_idx u)\<lparr>b_sem := 0, b_size := 0\<rparr>]) t\<close>
      by (simp add: bs'_def b_def)
    from ready_not_pending [OF this] show ?thesis by (auto simp: pf)
  qed
  have pk: "peek t = peek u" by (rule peek_cong [OF t(5)])
  have same: "map (\<lambda>i. frag_data t (bs' ! i)) (ready t) = map (\<lambda>i. frag_data u (bs ! i)) (ready t)"
    using ni by (intro map_cong refl) (auto simp: frag_data_def nth t pk)
  then show "avail u = frag_data u (bs ! buf_idx u) @ avail t"
    unfolding avail_def tb rb(1) rd option.case same by simp
qed

text \<open>The bytes of a free current fragment are the next to be read.\<close>

lemma in_head:
  assumes r: "in_ring K bs u" and free: "buf_idx u \<notin> set (pend_frags u)"
  shows "prefix (frag_data u (bs ! buf_idx u)) (avail u)"
proof -
  note rb = in_ring_basic [OF r]
  have "length (pending (khist u)) < nbfrags u" using ready_iff [OF r] free by simp
  then obtain m where "nbfrags u - length (pending (khist u)) = Suc m" by (metis Suc_diff_Suc)
  then have "ready u = buf_idx u # map (\<lambda>k. (buf_idx u + Suc k) mod nbfrags u) [0..<m]"
    using rb(3) unfolding ready_def by (simp add: map_upt_Suc_Cons del: upt_Suc)
  then show ?thesis by (simp add: avail_def rb(1))
qed

text \<open>
  What a read got and what is left make up what the DMA delivered.  \<open>new\<close> is what was stored at the caller from \<open>a\<close> on.  After a fault its last part is still waiting,
  and the fault is at the next address.
\<close>

definition read_result :: "kernel \<Rightarrow> 'a audio_stream_scheme \<Rightarrow> nat \<Rightarrow> nat \<Rightarrow> int + int \<Rightarrow> u8 list \<Rightarrow> 'a audio_stream_scheme \<Rightarrow> bool" where
  "read_result K s a c res new t \<longleftrightarrow> length new \<le> c \<and> (\<forall>j < length new. \<not> ubad K (a + j)) \<and>
     (\<exists>bs x kept again. in_ring K bs t \<and> played (khist t) = played (khist s) @ x \<and>
        new = kept @ again \<and> avail s @ x = kept @ avail t \<and>
        (case res of Inl e \<Rightarrow> length new < c \<and> ubad K (a + length new) \<and> prefix again (avail t) | Inr q \<Rightarrow> again = []))"

text \<open>A whole fragment goes in front of what the rest of the loop reads.\<close>

lemma read_result_step:
  assumes w: "read_result K q (a + length new) (c - length new) res new2 t" and le: "length new \<le> c"
    and good: "\<forall>j < length new. \<not> ubad K (a + j)"
    and av: "avail s @ x = new @ avail q" and p: "played (khist q) = played (khist s) @ x"
  shows "read_result K s a c res (new @ new2) t"
proof -
  obtain bs y kept again where w: "length new2 \<le> c - length new" "\<forall>j < length new2. \<not> ubad K (a + length new + j)"
    "in_ring K bs t" "played (khist t) = played (khist q) @ y" "new2 = kept @ again" "avail q @ y = kept @ avail t"
    "case res of Inl e \<Rightarrow> length new2 < c - length new \<and> ubad K (a + length new + length new2) \<and> prefix again (avail t)
      | Inr q \<Rightarrow> again = []"
    using w unfolding read_result_def by blast
  have "\<not> ubad K (a + j)" if j: "j < length (new @ new2)" for j
  proof (cases "j < length new")
    case False
    then have "j - length new < length new2" "a + length new + (j - length new) = a + j" using j by simp_all
    then show ?thesis using w(2) by metis
  qed (use good in blast)
  moreover have "avail s @ (x @ y) = (new @ kept) @ avail t" using av w(6) by (metis append.assoc)
  moreover have "case res of Inl e \<Rightarrow> length (new @ new2) < c \<and> ubad K (a + length (new @ new2)) \<and> prefix again (avail t)
      | Inr q \<Rightarrow> again = []" using w(7) le by (auto simp: add.assoc split: sum.splits)
  ultimately show ?thesis
    unfolding read_result_def using w(1,3,4,5) p le
    by (intro conjI exI [of _ bs] exI [of _ "x @ y"] exI [of _ "new @ kept"] exI [of _ again]) simp_all
qed

lemma copy_to_user_all:
  assumes "copy_to_user K a bs = (True, st)"
  shows "st = bs" "\<forall>j < length bs. \<not> ubad K (a + j)"
proof -
  define good where "good = takeWhile (\<lambda>a. \<not> ubad K a) [a..<a + length bs]"
  have g: "length good = length bs" "st = take (length good) bs"
    using assms by (auto simp: copy_to_user_def Let_def good_def)
  then show "st = bs" by simp
  have "good = [a..<a + length bs]"
    using g(1) unfolding good_def by (metis add_diff_cancel_left' length_upt takeWhile_eq_take take_all order_refl)
  then have "\<forall>x \<in> set [a..<a + length bs]. \<not> ubad K x" unfolding good_def by (metis set_takeWhileD)
  then show "\<forall>j < length bs. \<not> ubad K (a + j)" by simp
qed

lemma copy_to_user_fault:
  assumes "copy_to_user K a bs = (False, st)"
  shows "prefix st bs" "length st < length bs" "\<forall>j < length st. \<not> ubad K (a + j)" "ubad K (a + length st)"
proof -
  define good where "good = takeWhile (\<lambda>a. \<not> ubad K a) [a..<a + length bs]"
  have le: "length good \<le> length bs" using length_takeWhile_le [of "\<lambda>a. \<not> ubad K a" "[a..<a + length bs]"] by (simp add: good_def)
  have g: "length good \<noteq> length bs" "st = take (length good) bs"
    using assms by (auto simp: copy_to_user_def Let_def good_def)
  then have l: "length st = length good" "length good < length bs" using le by simp_all
  then show "length st < length bs" by simp
  show "prefix st bs" using g(2) by (simp add: take_is_prefix)
  have nth: "good ! j = a + j" if "j < length good" for j
    using takeWhile_nth [OF that [unfolded good_def]] l(2) that by (simp add: good_def [symmetric])
  show "\<forall>j < length st. \<not> ubad K (a + j)"
  proof (intro allI impI)
    fix j assume "j < length st"
    then have "good ! j \<in> set good" "good ! j = a + j" using l(1) nth by (metis nth_mem)+
    then show "\<not> ubad K (a + j)" unfolding good_def by (metis set_takeWhileD)
  qed
  show "ubad K (a + length st)"
    using nth_length_takeWhile [of "\<lambda>a. \<not> ubad K a" "[a..<a + length bs]"] l by (simp add: good_def)
qed

lemma down_in_prefix: "down_in ds i s = Some (taken, t) \<Longrightarrow> prefix (khist s) (khist t)"
  using in_irqs_prefix [of s ds] by (auto simp: down_in_def Let_def split: option.splits if_splits)

lemma khist_refill: "khist (refill_frag i b s) = khist s @ [Dqueue i (b_dma_addr b) (int (fragsize s))]"
  by (simp add: refill_frag_def)

lemma read_loop_prefix: "read_loop K nonblock sched buffer c ret got s = Some (res, got', t) \<Longrightarrow> prefix (khist s) (khist t)"
proof (induction sched arbitrary: nonblock buffer c ret got s)
  case (Cons ds sched)
  have IH: "prefix (khist u) (khist t)"
    if "read_loop K nb sched b' c' r' g' (refill_frag i b (upd_buf i f u)) = Some (res, got', t)" for nb b' c' r' g' i b f u
    using Cons.IH [OF that] by (auto simp: khist_refill prefix_def)
  show ?case
  proof (cases "0 < c")
    case True
    from Cons.prems True obtain taken u where d: "down_in ds (buf_idx s) s = Some (taken, u)"
      by (auto simp: Let_def split: option.splits)
    have "prefix (khist u) (khist t)"
      using Cons.prems True d by (auto simp: Let_def split: option.splits if_splits prod.splits dest!: IH)
    then show ?thesis by (rule prefix_order.trans [OF down_in_prefix [OF d]])
  next
    case False
    with Cons.prems show ?thesis by simp
  qed
qed (simp split: if_splits)

lemma read_loop_prefix_down:
  assumes "read_loop K nonblock (ds # sched) buffer c ret got s = Some (res, got', t)" "0 < c"
    "down_in ds (buf_idx s) s = Some (taken, u)"
  shows "prefix (khist u) (khist t)"
proof -
  have IH: "prefix (khist u) (khist t)"
    if "read_loop K nb sched b' c' r' g' (refill_frag i b (upd_buf i f u)) = Some (res, got', t)" for nb b' c' r' g' i b f
    using read_loop_prefix [OF that] by (auto simp: khist_refill prefix_def)
  show ?thesis using assms by (auto simp: Let_def split: option.splits if_splits prod.splits dest!: IH)
qed

lemma read_loop_stream:
  assumes "read_loop K nonblock sched buffer c ret got s = Some (res, got', t)" "in_ring K bs s"
    "dma_fifo (khist t)" "whole_frags (fragsize s) (khist t)"
  shows "\<exists>new. got' = got @ new \<and> read_result K s buffer c res new t"
  using assms
proof (induction sched arbitrary: buffer c ret got s bs)
  case Nil
  then show ?case by (auto simp: read_result_def split: if_splits)
next
  case (Cons ds sched)
  show ?case
  proof (cases "0 < c")
    case False
    with Cons.prems show ?thesis by (auto simp: read_result_def split: if_splits)
  next
    case c: True
    from Cons.prems(1) c obtain taken w where d: "down_in ds (buf_idx s) s = Some (taken, w)"
      by (auto simp: Let_def split: option.splits)
    define u where "u = fold dma_in_irq ds s"
    have kw: "khist w = khist u"
      using d by (auto simp: down_in_def u_def Let_def split: option.splits if_splits)
    have pre: "prefix (khist u) (khist t)" using read_loop_prefix_down [OF Cons.prems(1) c d] kw by simp
    obtain bs1 x where r: "in_ring K bs1 u" and av: "avail u = avail s @ x" "played (khist u) = played (khist s) @ x"
      using in_irqs [OF Cons.prems(2), of ds] dma_fifo_prefix [OF pre Cons.prems(3)]
        whole_frags_prefix [OF pre Cons.prems(4)] unfolding u_def by blast
    have ui: "buf_idx u = buf_idx s" "fragsize u = fragsize s" "nbfrags u = nbfrags s" by (simp_all add: u_def)
    note rb = in_ring_basic [OF r]
    define b where "b = bs1 ! buf_idx u"
    have at: "buf_at (buf_idx s) u = Some b" using rb(1-3) ui(1) by (simp add: buf_at_def b_def)
    show ?thesis
    proof (cases "0 < b_sem b")
      case False
      then have "w = u" "got' = got" "t = u" "res = Inr (if nonblock then -11 else -512)" using Cons.prems(1) c d at by (auto simp: down_in_def u_def [symmetric] Let_def)
      then show ?thesis using r av by (auto simp: read_result_def)
    next
      case True
      have free: "buf_idx u \<notin> set (pend_frags u)" and sem: "b_sem b = 1"
        using r rb(3) True by (auto simp: in_ring_def ring_sem_def b_def split: if_splits)
      have w: "taken" "w = upd_buf (buf_idx u) (\<lambda>b. b\<lparr>b_sem := b_sem b - 1\<rparr>) u"
        using d at True ui by (simp_all add: down_in_def u_def [symmetric])
      define bw where "bw = b\<lparr>b_sem := 0\<rparr>"
      have wb: "buffers w = Some (bs1[buf_idx u := bw])" "ram w = ram u" "fragsize w = fragsize u" "nbfrags w = nbfrags u"
        "buf_idx w = buf_idx u"
        using rb(1) sem by (simp_all add: w bw_def b_def)
      have atw: "buf_at (buf_idx s) w = Some bw" using wb(1) rb(2,3) ui(1) by (simp add: buf_at_def)
      have z: "0 \<le> b_size b" "b_size b \<le> int (fragsize u)" "fragsize u \<le> 16384"
        using r rb(3) by (simp_all add: in_ring_def ring_geom_def b_def)
      define n where "n = nat (min (b_size b) (int c))"
      have n: "int n = min (b_size b) (int c)" "n \<le> c" "n \<le> nat (b_size b)" using z by (simp_all add: n_def)
      have chunk: "(if u32i (b_size bw) > int c then int c else b_size bw) = int n"
        using z n(1) by (auto simp: bw_def u32i_id min_def)
      define new where "new = vpeek K (b_start b + nat (int (fragsize u) - b_size b)) n w"
      have new: "new = take n (frag_data u b)"
        unfolding new_def b_def using vpeek_frag [OF r _ wb(2)] n(3) by (simp add: b_def)
      have ln: "length new = n" using n(3) by (simp add: new frag_data_def)
      define v where "v = upd_buf (buf_idx u) (\<lambda>b. b\<lparr>b_size := b_size b - int n\<rparr>) w"
      obtain ok st where cp: "copy_to_user K buffer new = (ok, st)" by (metis surj_pair)
      have L: "Some (res, got', t) = (if \<not> ok then Some (Inl (-14), got @ st, up_sem (buf_idx u) w)
          else if b_size b - int n > 0 then Some (Inr (if nonblock then -11 else -512), got @ st, up_sem (buf_idx u) v)
          else read_loop K nonblock sched (buffer + n) (c - n) (if nonblock then -11 else -512) (got @ st)
            (refill_frag (buf_idx u) bw v))"
      proof -
        have cp': "copy_to_user K buffer (vpeek K (b_start bw + nat (int (fragsize w) - b_size bw)) n w) = (ok, st)"
          using cp by (simp add: new_def bw_def wb(3))
        show ?thesis
          unfolding Cons.prems(1) [symmetric]
          using c d w(1) atw chunk cp'
          by (simp add: Let_def v_def ui(1)) (simp add: bw_def)
      qed
      show ?thesis
      proof (cases ok)
        case False
        then have t: "res = Inl (-14)" "got' = got @ st" "t = up_sem (buf_idx u) w" using L by simp_all
        have "t = u"
        proof -
          have "(bs1 ! buf_idx u)\<lparr>b_sem := b_sem (bs1 ! buf_idx u) - 1 + 1\<rparr> = bs1 ! buf_idx u" by simp
          then show ?thesis using rb(1-3) by (simp add: t w(2) up_sem_def upd_buf_def)
        qed
        have "copy_to_user K buffer new = (False, st)" using cp False by simp
        note F = copy_to_user_fault [OF this]
        have "prefix new (frag_data u b)" by (simp add: new take_is_prefix)
        then have "prefix st (avail u)"
          using F(1) in_head [OF r free] unfolding b_def by (blast intro: prefix_order.trans)
        then have "read_result K s buffer c res st t"
          unfolding read_result_def t(1) \<open>t = u\<close> using F(2-4) r av ln n(2)
          by (intro conjI exI [of _ bs1] exI [of _ x] exI [of _ "[]"] exI [of _ st]) auto
        then show ?thesis using t(2) by blast
      next
        case True
        have "copy_to_user K buffer new = (True, st)" using cp True by simp
        note A = copy_to_user_all [OF this]
        have good: "\<forall>j < length new. \<not> ubad K (buffer + j)" by (rule A(2))
        have L: "Some (res, got', t) = (if b_size b - int n > 0
            then Some (Inr (if nonblock then -11 else -512), got @ new, up_sem (buf_idx u) v)
            else read_loop K nonblock sched (buffer + n) (c - n) (if nonblock then -11 else -512) (got @ new)
              (refill_frag (buf_idx u) bw v))"
          using L True A(1) by simp
        show ?thesis
        proof (cases "b_size b - int n > 0")
          case True
          then have t: "got' = got @ new" "t = up_sem (buf_idx u) v" "res = Inr (if nonblock then -11 else -512)" using L by simp_all
          have one: "(bs1 ! buf_idx u)\<lparr>b_size := z, b_sem := 1\<rparr> = (bs1 ! buf_idx u)\<lparr>b_size := z\<rparr>" for z
            using sem by (intro audio_buf.equality) (simp_all add: b_def)
          have T: "buffers t = Some (bs1[buf_idx u := (bs1 ! buf_idx u)\<lparr>b_size := b_size b - int n\<rparr>])"
            "buf_idx t = buf_idx u" "fragsize t = fragsize u" "nbfrags t = nbfrags u" "ram t = ram u" "khist t = khist u"
            using wb rb(2,3) kw one by (simp_all add: t v_def up_sem_def bw_def b_def)
          have "0 \<le> b_size b - int n" "b_size b - int n \<le> b_size (bs1 ! buf_idx u)" using True by (simp_all add: b_def)
          from in_change [OF r free this T] have "in_ring K (bs1[buf_idx u := (bs1 ! buf_idx u)\<lparr>b_size := b_size b - int n\<rparr>]) t"
            "avail u = new @ avail t" using new by (simp_all add: b_def)
          then have "read_result K s buffer c res new t"
            unfolding read_result_def t(3) using av T(6) ln n(2) good
            by (intro conjI exI [of _ "bs1[buf_idx u := (bs1 ! buf_idx u)\<lparr>b_size := b_size b - int n\<rparr>]"] exI [of _ x]
              exI [of _ new] exI [of _ "[]"]) auto
          then show ?thesis using t(1) by blast
        next
          case False
          then have nz: "int n = b_size b" using n z by (auto simp: min_def split: if_splits)
          define q where "q = refill_frag (buf_idx u) bw v"
          have lo: "read_loop K nonblock sched (buffer + n) (c - n) (if nonblock then -11 else -512) (got @ new) q = Some (res, got', t)"
            using L False by (simp add: q_def)
          have Q: "buffers q = Some (bs1[buf_idx u := (bs1 ! buf_idx u)\<lparr>b_sem := 0, b_size := 0\<rparr>])"
            "buf_idx q = (buf_idx u + 1) mod nbfrags u" "fragsize q = fragsize u" "nbfrags q = nbfrags u" "ram q = ram u"
            "khist q = khist u @ [Dqueue (buf_idx u) (b_dma_addr (bs1 ! buf_idx u)) (int (fragsize u))]"
            using wb rb(2,3) nz kw by (simp_all add: q_def refill_frag_def v_def bw_def b_def)
          note R = in_refill [OF r free Q]
          have "new = frag_data u b" using new nz by (simp add: frag_data_def)
          then have avq: "avail u = new @ avail q" using R(2) by (simp add: b_def)
          obtain new2 where n2: "got' = (got @ new) @ new2" "read_result K q (buffer + n) (c - n) res new2 t"
            using Cons.IH [OF lo R(1) Cons.prems(3)] Cons.prems(4) Q(3) ui(2) by auto
          have "played (khist q) = played (khist u)" by (simp add: Q(6))
          then have "read_result K s buffer c res (new @ new2) t"
            using n2(2) av avq n(2) good ln by (intro read_result_step [where q = q and x = x]) simp_all
          then show ?thesis using n2(1) by auto
        qed
      qed
    qed
  qed
qed

section \<open>The read call\<close>

definition in_inv :: "kernel \<Rightarrow> 'a audio_stream_scheme \<Rightarrow> bool" where
  "in_inv K s \<longleftrightarrow> params_ok s \<and> live (khist s) = areas s \<and>
     (case buffers s of None \<Rightarrow> pending (khist s) = [] | Some bs \<Rightarrow> in_ring K bs s)"

lemma keeps_in_irq: "keeps s (dma_in_irq e s)"
proof -
  obtain i d where e: "e = (i, d)" by (cases e)
  have "keeps s (log_k (Ddone i d) (dma_store a d s))" for a
    by (simp add: keeps_def dma_store_ram)
  moreover have "keeps s (log_k (Ddone i d) s)" by (rule keeps_log) simp
  ultimately have "keeps s (log_k (Ddone i d) (case pending (khist s) of [] \<Rightarrow> s | (f, a, n) # q \<Rightarrow> dma_store a d s))"
    by (auto split: list.splits)
  from keeps_trans [OF this keeps_trans [OF keeps_upd keeps_up]]
  show ?thesis by (simp add: e dma_in_irq_def audio_dmain_done_callback_def)
qed

lemma keeps_down_in: "down_in ds i s = Some (taken, t) \<Longrightarrow> keeps s t"
proof -
  have "keeps s (fold dma_in_irq ds s)"
    by (induction ds arbitrary: s) (auto intro: keeps_trans keeps_in_irq)
  then show "down_in ds i s = Some (taken, t) \<Longrightarrow> keeps s t"
    using keeps_upd [of "\<lambda>b. b\<lparr>b_sem := b_sem b - 1\<rparr>" "fold dma_in_irq ds s" i]
    by (auto simp: down_in_def Let_def intro: keeps_trans split: option.splits if_splits)
qed

lemma keeps_refill: "keeps s (refill_frag i b s)"
  unfolding refill_frag_def by (rule keeps_trans [OF keeps_log keeps_NEXT]) simp

lemma keeps_read_loop: "read_loop K nonblock sched buffer c ret got s = Some (res, got', t) \<Longrightarrow> keeps s t"
proof (induction sched arbitrary: nonblock buffer c ret got s)
  case (Cons ds sched)
  show ?case
  proof (cases "0 < c")
    case True
    from Cons.prems True obtain taken u where d: "down_in ds (buf_idx s) s = Some (taken, u)"
      by (auto simp: Let_def split: option.splits)
    have su: "keeps s u" by (rule keeps_down_in [OF d])
    have sz: "keeps s (upd_buf i (\<lambda>b. b\<lparr>b_size := b_size b - n\<rparr>) u)" for i n
      by (rule keeps_trans [OF su keeps_upd]) simp
    have up: "keeps s (up_sem i u)" "keeps s (up_sem i (upd_buf j (\<lambda>b. b\<lparr>b_size := b_size b - n\<rparr>) u))" for i j n
      by (rule keeps_trans [OF su keeps_up], rule keeps_trans [OF sz keeps_up])
    have IH: "keeps s t"
      if "read_loop K nb sched b' c' r' g' (refill_frag i b (upd_buf j (\<lambda>b. b\<lparr>b_size := b_size b - n\<rparr>) u)) = Some (res, got', t)"
      for nb b' c' r' g' i b j n
      by (rule keeps_trans [OF keeps_trans [OF sz keeps_refill] Cons.IH [OF that]])
    show ?thesis
      using Cons.prems True d su up by (auto simp: Let_def split: option.splits if_splits prod.splits dest!: IH)
  next
    case False
    with Cons.prems show ?thesis by simp
  qed
qed (simp split: if_splits)

lemma read_loop_fragsize: "read_loop K nonblock sched a c ret got s = Some (res, got', t) \<Longrightarrow> fragsize t = fragsize s"
proof (induction sched arbitrary: nonblock a c ret got s)
  case (Cons ds sched)
  have d: "fragsize u = fragsize s" if "down_in ds (buf_idx s) s = Some (taken, u)" for taken u
    using that by (auto simp: down_in_def Let_def split: option.splits if_splits)
  show ?case
    using Cons.prems
    by (auto simp: Let_def up_sem_def refill_frag_def split: option.splits if_splits prod.splits dest!: Cons.IH d)
qed (simp split: if_splits)

lemma read_loop_ret:
  "read_loop K nonblock sched a c ret got s = Some (res, got', t) \<Longrightarrow> res \<in> {Inr ret, Inr (-11), Inr (-512), Inl (-14)}"
proof (induction sched arbitrary: nonblock a c ret got s)
  case (Cons ds sched)
  show ?case using Cons.prems by (auto simp: Let_def split: option.splits if_splits prod.splits dest!: Cons.IH)
qed (simp split: if_splits)

text \<open>Reading allocates the ring when there is none; nothing is lost by it.\<close>

lemma setup_for_reading:
  assumes K: "alloc_ok K" and inv: "in_inv K s"
    and su: "(if buffers s = None then audio_setup_buf K s else (0, s)) = (err, u)"
  shows "in_inv K u \<and> avail u = avail s \<and> played (khist u) = played (khist s) \<and> (err \<noteq> 0 \<or> buffers u \<noteq> None)"
proof (cases "buffers s")
  case None
  have inv0: "audio_inv K s" using inv None by (simp add: audio_inv_def in_inv_def)
  have su': "audio_setup_buf K s = (err, u)" using su None by simp
  note S = setup_inv [OF K inv0 None su']
  have so: "stream_out s = played (khist s)"
    using inv None by (simp add: stream_out_def in_flight_def partial_def buf_at_def in_inv_def)
  show ?thesis
  proof (cases "buffers u")
    case None
    have "played (khist u) = played (khist s)"
      using S(2) S(6) so None by (simp add: stream_out_def in_flight_def partial_def buf_at_def)
    then show ?thesis using S None \<open>buffers s = None\<close> by (auto simp: audio_inv_def in_inv_def avail_def)
  next
    case (Some bs)
    have r: "ring K False bs u" using S(1) Some by (simp add: audio_inv_def)
    obtain h where h: "khist u = khist s @ h" using S(5) by (auto simp: prefix_def)
    have "played (khist u) @ partial u = played (khist s)"
      using S(2) S(6) so by (simp add: stream_out_def in_flight_def)
    then have p: "partial u = []" "played (khist u) = played (khist s)" using h by simp_all
    have z: "b_size (bs ! i) = 0" if "i < nbfrags u" for i
    proof (cases "i = buf_idx u")
      case True
      have "nat (b_size (bs ! buf_idx u)) = 0"
        using arg_cong [where f = length, OF p(1)] by (simp add: ring_partial [OF r])
      then show ?thesis using r True by (simp add: ring_def ring_size_def)
    next
      case False
      then show ?thesis using r that by (simp add: ring_def ring_size_def)
    qed
    have pf: "pend_frags u = []" using S(6) by (simp add: pend_frags_def)
    have ir: "in_ring K bs u" using r z pf unfolding in_ring_def ring_def by simp
    have "avail u = []"
      unfolding avail_def Some using z ready_less [OF ir] by (simp add: frag_data_def peek_def)
    moreover have "avail s = []" using \<open>buffers s = None\<close> by (simp add: avail_def)
    ultimately show ?thesis using S(1) ir p(2) Some by (simp add: in_inv_def audio_inv_def)
  qed
next
  case Some
  then show ?thesis using su inv by auto
qed

text \<open>
  C31: When the DMA fills whole fragments, recording loses and reorders nothing unless the caller's buffer
  faults: the bytes a read stores at the caller, followed by those still waiting in the ring, are the bytes that
  waited before, followed by what the DMA recorded meanwhile; the reported length is the number of
  bytes stored, and a read that reports an error has stored none.  When an address of the buffer
  faults, the read stores the bytes in order up to that address and reports \<open>-EFAULT\<close>: those of the fragments it emptied
  are gone from the ring, the others are still waiting and will be read again.
\<close>
theorem read_in_order:
  assumes K: "alloc_ok K" and inv: "in_inv K s" and fifo: "dma_fifo (khist t)"
    and whole: "whole_frags (fragsize t) (khist t)"
    and rd: "smdk2410_mixer_read K acc nonblock sched a c s = Some (r, got, t)"
  shows "in_inv K t \<and> length got \<le> c \<and> (\<forall>j < length got. \<not> ubad K (a + j)) \<and>
    (\<exists>x. played (khist t) = played (khist s) @ x \<and>
       (if r = -14
        then ubad K (a + length got) \<and> length got < c \<and>
          (\<exists>kept again. got = kept @ again \<and> avail s @ x = kept @ avail t \<and> prefix again (avail t))
        else avail s @ x = got @ avail t \<and> (0 \<le> r \<longrightarrow> r = int (length got)) \<and> (r < 0 \<longrightarrow> got = [])))"
proof (cases "acc = O_RDONLY \<or> acc = O_RDWR")
  case False
  then have "t = s" "got = []" "r = -1" using rd by (auto simp: smdk2410_mixer_read_def split: if_splits)
  then show ?thesis using inv by simp
next
  case acc: True
  obtain err u where su: "(if buffers s = None then audio_setup_buf K s else (0, s)) = (err, u)" by (metis surj_pair)
  have u: "in_inv K u" "avail u = avail s" "played (khist u) = played (khist s)" "err \<noteq> 0 \<or> buffers u \<noteq> None"
    using setup_for_reading [OF K inv su] by blast+
  show ?thesis
  proof (cases "err = 0")
    case False
    then have "t = u" "got = []" "r = -12" using rd acc su by (auto simp: smdk2410_mixer_read_def Let_def)
    then show ?thesis using u by simp
  next
    case True
    obtain bs where r: "in_ring K bs u" using u(1,4) True by (auto simp: in_inv_def split: option.splits)
    obtain res where l: "read_loop K nonblock sched a (c - c mod 4) 0 [] u = Some (res, got, t)"
      and ret: "r = (case res of Inl e \<Rightarrow> e | Inr q \<Rightarrow> if got \<noteq> [] then int (length got) else q)"
      using rd acc su True unfolding smdk2410_mixer_read_def
      by (auto simp: Let_def split: option.splits sum.splits)
    have fs: "fragsize t = fragsize u" by (rule read_loop_fragsize [OF l])
    have "read_result K u a (c - c mod 4) res got t" using read_loop_stream [OF l r fifo whole [unfolded fs]] by simp
    then obtain bs' x kept again where x: "in_ring K bs' t" "played (khist t) = played (khist u) @ x"
      "got = kept @ again" "avail u @ x = kept @ avail t" "length got \<le> c - c mod 4" "\<forall>j < length got. \<not> ubad K (a + j)"
      and cs: "case res of Inl e \<Rightarrow> length got < c - c mod 4 \<and> ubad K (a + length got) \<and> prefix again (avail t) | Inr q \<Rightarrow> again = []"
      by (auto simp: read_result_def)
    have k: "keeps u t" by (rule keeps_read_loop [OF l])
    have "buffers t = Some bs'" "buffers u = Some bs" using x(1) r by (simp_all add: in_ring_def)
    then have "areas t = areas u" "params_ok t = params_ok u" using k by (simp_all add: areas_def keeps_def params_ok_def)
    then have "in_inv K t" using u(1) k x(1) \<open>buffers t = Some bs'\<close> by (simp add: in_inv_def keeps_def)
    moreover have "if r = -14
        then ubad K (a + length got) \<and> length got < c \<and>
          (\<exists>kept again. got = kept @ again \<and> avail s @ x = kept @ avail t \<and> prefix again (avail t))
        else avail s @ x = got @ avail t \<and> (0 \<le> r \<longrightarrow> r = int (length got)) \<and> (r < 0 \<longrightarrow> got = [])"
    proof (cases res)
      case (Inl e)
      then have "r = -14" using ret read_loop_ret [OF l] by simp
      then show ?thesis using cs x u(2) by (auto simp: Inl)
    next
      case (Inr q)
      then have "r \<noteq> -14" "0 \<le> r \<longrightarrow> r = int (length got)" "r < 0 \<longrightarrow> got = []" "again = []"
        using ret read_loop_ret [OF l] cs by (auto split: if_splits)
      then show ?thesis using x u(2) by simp
    qed
    ultimately show ?thesis using x u(3) by auto
  qed
qed

lemma demo_read:
  "map_option (\<lambda>(r, got, t). (r, got, dma_fifo (khist t), whole_frags (fragsize t) (khist t)))
     (smdk2410_mixer_read demo_kernel O_RDONLY False [[], [], [(0, map of_nat [0..<16])]] 200 8 demo_stream) =
   Some (8, map of_nat [0..<8], True, True)"
  by code_simp

theorem read_in_order_witness:
  "\<exists>t. smdk2410_mixer_read demo_kernel O_RDONLY False [[], [], [(0, map of_nat [0..<16])]] 200 8 demo_stream =
     Some (8, map of_nat [0..<8], t) \<and> played (khist t) = map of_nat [0..<8] @ avail t"
proof -
  obtain t where t: "smdk2410_mixer_read demo_kernel O_RDONLY False [[], [], [(0, map of_nat [0..<16])]] 200 8 demo_stream =
      Some (8, map of_nat [0..<8], t)" "dma_fifo (khist t)" "whole_frags (fragsize t) (khist t)"
    using demo_read by auto
  have "in_inv demo_kernel demo_stream" by (simp add: in_inv_def demo_stream_def params_ok_def areas_def)
  from read_in_order [OF demo_kernel_ok this t(2,3,1)] t(1) show ?thesis
    by (auto simp: demo_stream_def avail_def)
qed

end
