(* ===== verification/Uda.thy ===== *)
theory Uda
  imports Iic
begin

text \<open>
  The codec's register access, \<open>EXP25/driver/2410iic.c\<close>: a copy of the polled IIC master of \<open>Iic\<close>
  (its handler \<open>IicPoll\<close> and its acknowledge poll are the same code) with one address byte and
  registers of 16 bits, and the codec's initialisation.
\<close>

section \<open>Register access\<close>

definition Wr24C080 :: "iic_reg dev \<Rightarrow> u32 \<Rightarrow> u32 \<Rightarrow> u32 \<Rightarrow> iic \<Rightarrow> iic option" where
  "Wr24C080 dev slvAddr addr wdata s = do {
     let s = store 0 (ucast addr) (s\<lparr>iicMode := WRDATA, iicPt := 0\<rparr>);
     let s = store 2 (ucast wdata) (store 1 (ucast (wdata div 256)) s);
     let s = s\<lparr>iicDataCount := 3\<rparr>;
     let s = wr IICSTAT 0xf0 (wr IICDS (ucast (ucast (slvAddr AND 0xfe) :: u8)) s);
     s \<leftarrow> iic_run dev s;
     iic_finish dev slvAddr s
   }"

definition Rd24C080 :: "iic_reg dev \<Rightarrow> u32 \<Rightarrow> u32 \<Rightarrow> iic \<Rightarrow> (u32 \<times> iic) option" where
  "Rd24C080 dev slvAddr addr s = do {
     let s = store 0 (ucast addr) (s\<lparr>iicMode := SETRDADDR, iicPt := 0\<rparr>);
     let s = s\<lparr>iicDataCount := 1\<rparr>;
     let s = wr IICSTAT 0xf0 (wr IICDS (ucast (ucast (slvAddr AND 0xfe) :: u8)) s);
     s \<leftarrow> iic_run dev s;
     let s = s\<lparr>iicMode := RDDATA, iicPt := 0, iicDataCount := 2\<rparr>;
     let s = wr IICCON 0xaf (wr IICSTAT 0xb0 (wr IICDS (ucast (ucast (slvAddr OR 1) :: u8)) s));
     s \<leftarrow> iic_run dev s;
     let (b1, s) = fetch 1 s;
     let (b2, s) = fetch 2 s;
     Some (ucast b1 * 256 + ucast b2, s)
   }"

section \<open>Initialisation\<close>

definition uda_command :: "u8 list" where
  "uda_command =
     [0x00, 0x0F, 0x02,  0x01, 0x00, 0x00,  0x02, 0xaf, 0xff,  0x03, 0x00, 0x00,  0x04, 0x02, 0x02,
      0x10, 0x00, 0x00,  0x11, 0x00, 0x00,  0x12, 0x00, 0x00,  0x13, 0x00, 0x00,  0x14, 0x00, 0x00,
      0x20, 0x00, 0x00,  0x21, 0x00, 0x00,  0x22, 0x00, 0x0C,  0x23, 0x00, 0x00]"

text \<open>The loop over the table, three bytes at a time: \<open>reg\<close>, \<open>msb << 8 | lsb\<close>.\<close>

fun uda_load :: "iic_reg dev \<Rightarrow> u8 list \<Rightarrow> iic \<Rightarrow> iic option" where
  "uda_load dev (reg # msb # lsb # cs) s =
     (case Wr24C080 dev 0x30 (ucast reg) (push_bit 8 (ucast msb) OR ucast lsb) s of
        None \<Rightarrow> None | Some s \<Rightarrow> uda_load dev cs s)"
| "uda_load dev _ s = Some s"

definition uda_port :: "iic_reg dev \<Rightarrow> iic \<Rightarrow> iic" where
  "uda_port dev s =
     (let (up, s) = rd dev GPEUP s; s = wr GPEUP (up OR 0xc000) s;
          (con, s) = rd dev GPECON s; s = wr GPECON (con OR 0xa00000) s
      in wr IICSTAT 0x10 (wr IICADD 0x10 (wr IICCON 0xaf s)))"

text \<open>\<open>Test_Iic2\<close> and \<open>uda1380_init\<close> write a register and read it back; the result is that value.\<close>

definition Test_Iic2 :: "iic_reg dev \<Rightarrow> iic \<Rightarrow> (u32 \<times> iic) option" where
  "Test_Iic2 dev s = do {
     let (save_E, s) = rd dev GPECON s;
     let (save_PE, s) = rd dev GPEUP s;
     s \<leftarrow> Wr24C080 dev 0x30 0x11 0xaa55 (uda_port dev s);
     (rdata, s) \<leftarrow> Rd24C080 dev 0x31 0x11 s;
     Some (rdata, wr GPECON save_E (wr GPEUP save_PE s))
   }"

definition uda1380_init :: "iic_reg dev \<Rightarrow> iic \<Rightarrow> (u32 \<times> iic) option" where
  "uda1380_init dev s = do {
     let (save_E, s) = rd dev GPECON s;
     let (save_PE, s) = rd dev GPEUP s;
     s \<leftarrow> Wr24C080 dev 0x30 0x10 0xba65 (uda_port dev s);
     (rdata, s) \<leftarrow> Rd24C080 dev 0x31 0x10 s;
     s \<leftarrow> uda_load dev uda_command s;
     Some (rdata, wr GPECON save_E (wr GPEUP save_PE s))
   }"

section \<open>What goes over the bus\<close>

text \<open>A register and its value, most significant byte first.\<close>

definition reg_bytes :: "u32 \<Rightarrow> u32 \<Rightarrow> u8 list" where
  "reg_bytes addr v = [ucast addr, ucast (v div 256), ucast v]"

lemma Wr24C080_acts:
  assumes "iic_live dev" "length (iicData s) = 32"
  shows "\<exists>s'. Wr24C080 dev slv addr w s = Some s' \<and> iic_bad s' = iic_bad s \<and> length (iicData s') = 32 \<and>
    acts (bus s') = acts (bus s) @ write_acts slv (reg_bytes addr w)"
proof -
  obtain x y z zs where d: "iicData s = x # y # z # zs"
    using assms(2) by (cases "iicData s"; cases "tl (iicData s)"; cases "tl (tl (iicData s))") auto
  let ?s = "s\<lparr>iicMode := WRDATA, iicPt := 0, iicData := reg_bytes addr w @ zs, iicDataCount := 3\<rparr>"
  have "Wr24C080 dev slv addr w s = iic_run dev (wr IICSTAT 0xf0 (wr IICDS (slave_wr slv) ?s)) \<bind> iic_finish dev slv"
    using d by (simp add: Wr24C080_def Let_def reg_bytes_def)
  then show ?thesis
    using write_finish [OF assms(1), of ?s "reg_bytes addr w" slv] assms(2) d by (auto simp: reg_bytes_def)
qed

definition reg_read_acts :: "u32 \<Rightarrow> u32 \<Rightarrow> iic_reg ev list" where
  "reg_read_acts slv addr =
     [Wr IICDS (slave_wr slv), Wr IICSTAT 0xf0] @ tx_acts [ucast addr] @
     [Wr IICDS (slave_rd slv), Wr IICSTAT 0xb0, Wr IICCON 0xaf] @ rx_acts 2"

lemma Rd24C080_acts:
  assumes live: "iic_live dev" and len: "length (iicData s) = 32"
  shows "\<exists>s' x hi lo. Rd24C080 dev slv addr s = Some (ucast (ucast hi :: u8) * 256 + ucast (ucast lo :: u8), s') \<and>
    iic_bad s' = iic_bad s \<and> length (iicData s') = 32 \<and> acts (bus s') = acts (bus s) @ reg_read_acts slv addr \<and>
    reads dev IICDS (bus s') = reads dev IICDS (bus s) @ [x, hi, lo]"
proof -
  let ?d = "(iicData s)[0 := ucast addr]"
  let ?s = "wr IICSTAT 0xf0 (wr IICDS (slave_wr slv)
      (s\<lparr>iicMode := SETRDADDR, iicPt := 0, iicData := ?d, iicDataCount := 1\<rparr>))"
  obtain y ys where y: "iicData s = y # ys" using len by (cases "iicData s") auto
  obtain t where t: "iic_run dev ?s = Some t" "acts (bus t) = acts (bus ?s) @ tx_acts [ucast addr]"
    "iicData t = ?d" "iic_bad t = iic_bad s" "reads dev IICDS (bus t) = reads dev IICDS (bus s)"
    using tx_phase [OF live, of ?s SETRDADDR 1 0] len y by auto
  let ?t = "wr IICCON 0xaf (wr IICSTAT 0xb0 (wr IICDS (slave_rd slv)
      (t\<lparr>iicMode := RDDATA, iicPt := 0, iicDataCount := 2\<rparr>)))"
  obtain s' vs where s': "iic_run dev ?t = Some s'" "length vs = Suc 2"
    "acts (bus s') = acts (bus ?t) @ rx_acts 2" "iic_bad s' = iic_bad t" "length (iicData s') = 32"
    "reads dev IICDS (bus s') = reads dev IICDS (bus ?t) @ vs"
    "\<forall>i \<le> 2. iicData s' ! (0 + i) = ucast (vs ! i)"
    using rx_phase [OF live, of ?t 2 0] len t by auto
  obtain x hi lo where vs: "vs = [x, hi, lo]"
    using s'(2) by (cases vs; cases "tl vs"; cases "tl (tl vs)") auto
  have "iicData s' ! 1 = ucast hi" "iicData s' ! 2 = ucast lo"
    using s'(7) [rule_format, of 1] s'(7) [rule_format, of 2] by (simp_all add: vs numeral_2_eq_2)
  then have "Rd24C080 dev slv addr s = Some (ucast (ucast hi :: u8) * 256 + ucast (ucast lo :: u8), s')"
    using t(1) s'(1) len by (simp add: Rd24C080_def Let_def)
  with s' t vs show ?thesis
    by (intro exI [of _ s'] exI [of _ x] exI [of _ hi] exI [of _ lo]) (simp add: reg_read_acts_def)
qed

text \<open>The registers a table sets, as pairs.\<close>

fun reg_table :: "u8 list \<Rightarrow> (u32 \<times> u32) list" where
  "reg_table (reg # msb # lsb # cs) = (ucast reg, push_bit 8 (ucast msb) OR ucast lsb) # reg_table cs"
| "reg_table _ = []"

definition table_acts :: "(u32 \<times> u32) list \<Rightarrow> iic_reg ev list" where
  "table_acts rs = concat (map (\<lambda>(r, v). write_acts 0x30 (reg_bytes r v)) rs)"

lemma uda_load_acts:
  assumes "iic_live dev" "length (iicData s) = 32"
  shows "\<exists>s'. uda_load dev cs s = Some s' \<and> iic_bad s' = iic_bad s \<and> length (iicData s') = 32 \<and>
    acts (bus s') = acts (bus s) @ table_acts (reg_table cs)"
  using assms(2)
proof (induction cs arbitrary: s rule: reg_table.induct)
  case (1 reg msb lsb cs)
  obtain t where t: "Wr24C080 dev 0x30 (ucast reg) (push_bit 8 (ucast msb) OR ucast lsb) s = Some t"
    "iic_bad t = iic_bad s" "length (iicData t) = 32"
    "acts (bus t) = acts (bus s) @ write_acts 0x30 (reg_bytes (ucast reg) (push_bit 8 (ucast msb) OR ucast lsb))"
    using Wr24C080_acts [OF assms(1) "1.prems", of "0x30"] by metis
  from "1.IH" [OF t(3)] t show ?case by (auto simp: table_acts_def)
qed (simp_all add: table_acts_def)

definition port_acts :: "u32 \<Rightarrow> u32 \<Rightarrow> iic_reg ev list" where
  "port_acts up con = [Wr GPEUP (up OR 0xc000), Wr GPECON (con OR 0xa00000), Wr IICCON 0xaf, Wr IICADD 0x10, Wr IICSTAT 0x10]"

lemma uda_port_acts:
  "\<exists>up con. acts (bus (uda_port dev s)) = acts (bus s) @ port_acts up con"
  "iicData (uda_port dev s) = iicData s" "iic_bad (uda_port dev s) = iic_bad s"
  by (auto simp: uda_port_def rd_def port_acts_def)

text \<open>The registers \<open>uda1380_init\<close> sets, in order, the first one twice.\<close>

definition uda_init_regs :: "(u32 \<times> u32) list" where
  "uda_init_regs = (0x10, 0xba65) # reg_table uda_command"

lemma uda_init_regs_eq:
  "uda_init_regs = [(0x10, 0xba65), (0x00, 0x0f02), (0x01, 0), (0x02, 0xafff), (0x03, 0), (0x04, 0x0202), (0x10, 0),
     (0x11, 0), (0x12, 0), (0x13, 0), (0x14, 0), (0x20, 0), (0x21, 0), (0x22, 0x000c), (0x23, 0)]"
  by (simp add: uda_init_regs_def uda_command_def)

lemma trial_bytes: "reg_bytes 0x10 0xba65 = [0x10, 0xba, 0x65]"
  by code_simp

text \<open>
  With a controller that reports every byte it moves, \<open>uda1380_init\<close> returns, and what it puts on the bus is
  the port setup, the trial write of register 0x10 and its read back, then one write transaction of a
  register number and two bytes, the high one first, for each of the 14 registers of the table, and at
  last the saved port settings; no access leaves \<open>_iicData\<close>.
\<close>
theorem uda_init_programs:
  assumes live: "iic_live dev" and len: "length (iicData s) = 32"
  shows "\<exists>s' v up con e pe. uda1380_init dev s = Some (v, s') \<and> iic_bad s' = iic_bad s \<and>
    acts (bus s') = acts (bus s) @ port_acts up con @ write_acts 0x30 [0x10, 0xba, 0x65] @ reg_read_acts 0x31 0x10 @
      table_acts [(0x00, 0x0f02), (0x01, 0), (0x02, 0xafff), (0x03, 0), (0x04, 0x0202), (0x10, 0), (0x11, 0), (0x12, 0),
        (0x13, 0), (0x14, 0), (0x20, 0), (0x21, 0), (0x22, 0x000c), (0x23, 0)] @ [Wr GPEUP pe, Wr GPECON e]"
proof -
  define s0 where "s0 = emit (Rd GPEUP) (emit (Rd GPECON) s)"
  have s0: "acts (bus s0) = acts (bus s)" "length (iicData (uda_port dev s0)) = 32" "iic_bad (uda_port dev s0) = iic_bad s"
    using len by (simp_all add: s0_def uda_port_acts)
  obtain up con where p: "acts (bus (uda_port dev s0)) = acts (bus s) @ port_acts up con"
    using uda_port_acts(1) [of dev s0] s0(1) by auto
  obtain t where t: "Wr24C080 dev 0x30 0x10 0xba65 (uda_port dev s0) = Some t" "iic_bad t = iic_bad s"
    "length (iicData t) = 32" "acts (bus t) = acts (bus (uda_port dev s0)) @ write_acts 0x30 [0x10, 0xba, 0x65]"
    using Wr24C080_acts [OF live s0(2), of "0x30" "0x10" "0xba65"] s0(3) unfolding trial_bytes by auto
  obtain v u where u: "Rd24C080 dev 0x31 0x10 t = Some (v, u)" "iic_bad u = iic_bad t" "length (iicData u) = 32"
    "acts (bus u) = acts (bus t) @ reg_read_acts 0x31 0x10"
    using Rd24C080_acts [OF live t(3), of "0x31" "0x10"] by blast
  obtain w where w: "uda_load dev uda_command u = Some w" "iic_bad w = iic_bad u"
    "acts (bus w) = acts (bus u) @ table_acts (reg_table uda_command)"
    using uda_load_acts [OF live u(3)] by blast
  have "uda1380_init dev s = Some (v, wr GPECON (dev (bus s) GPECON) (wr GPEUP (dev (bus s @ [Rd GPECON]) GPEUP) w))"
    using t(1) u(1) w(1) by (simp add: uda1380_init_def rd_def s0_def)
  moreover have "reg_table uda_command = [(0x00, 0x0f02), (0x01, 0), (0x02, 0xafff), (0x03, 0), (0x04, 0x0202), (0x10, 0), (0x11, 0),
      (0x12, 0), (0x13, 0), (0x14, 0), (0x20, 0), (0x21, 0), (0x22, 0x000c), (0x23, 0)]"
    by (simp add: uda_command_def)
  ultimately show ?thesis
    using p t u w
    by (intro exI [of _ "wr GPECON (dev (bus s) GPECON) (wr GPEUP (dev (bus s @ [Rd GPECON]) GPEUP) w)"]
        exI [of _ v] exI [of _ up] exI [of _ con] exI [of _ "dev (bus s) GPECON"]
        exI [of _ "dev (bus s @ [Rd GPECON]) GPEUP"]) simp
qed

theorem uda_init_programs_witness:
  "\<exists>v s'. uda1380_init (iic_chip 0x15) iic_zero = Some (v, s') \<and> \<not> iic_bad s'"
proof -
  have "iic_live (iic_chip 0x15)" by (rule iic_chip_live)
  from uda_init_programs [OF this, of iic_zero] show ?thesis by (auto simp: iic_zero_def IICBUFSIZE_def)
qed

text \<open>
  The calls of the codec's register write, as the sound driver's model records them: slave address,
  register and value.
\<close>

definition uda_calls :: "(int \<times> int \<times> int) list" where
  "uda_calls = map (\<lambda>(r, v). (0x30, uint r, uint v)) uda_init_regs"

end
