(* ===== verification/Audio_Ctl.thy ===== *)
theory Audio_Ctl
  imports Audio_In Uda
begin

text \<open>
  The control side of the sound driver, \<open>EXP25/driver/2410audio.c\<close>: sample rate, \<open>ioctl\<close>, the
  mixer, \<open>poll\<close>, opening and closing, module initialisation.  The state adds the other file-level
  variables, the values written to the IIS prescaler register, the calls of the codec's register
  write \<open>_Wr24C080\<close>, and the DMA channels requested and freed.
\<close>

section \<open>State\<close>

datatype dma_call = Dma_request nat | Dma_free nat

record audio_dev = audio_stream +
  audio_rate :: int
  audio_fmt :: int
  uda1380_volume :: int
  audio_mix_modcnt :: int
  audio_rd_refcount :: int
  audio_wr_refcount :: int
  iispsr :: "int list"
  codec :: "(int \<times> int \<times> int) list"
  dma_calls :: "dma_call list"

section \<open>Sample rate\<close>

text \<open>
  \<open>PCM_ABS(sample_rate - tmpval)\<close> is of unsigned type: it is never negative, and a difference below
  zero is its wrap-around.  \<open>pclk\<close> is the bus clock.
\<close>

definition iis_rate :: "int \<Rightarrow> int \<Rightarrow> int \<Rightarrow> int" where
  "iis_rate pclk s_bit_clock i = pclk div s_bit_clock div (i + 1)"

definition iispsr_step :: "int \<Rightarrow> int \<Rightarrow> int \<Rightarrow> int \<Rightarrow> int \<times> int \<Rightarrow> int \<times> int" where
  "iispsr_step pclk s_bit_clock sample_rate i = (\<lambda>(prescaler, tmpval384min).
     let d = u32i (sample_rate - iis_rate pclk s_bit_clock i)
     in if d < tmpval384min then (i, d) else (prescaler, tmpval384min))"

definition iispsr_value :: "int \<Rightarrow> int \<Rightarrow> int \<Rightarrow> int" where
  "iispsr_value pclk s_bit_clock sample_rate =
     fst (for_up 0 32 (iispsr_step pclk s_bit_clock sample_rate) (0, 0xffff))"

definition S_CLOCK_FREQ :: int where "S_CLOCK_FREQ = 384"

text \<open>\<open>psr a b\<close> is the register value \<open>IISPSR_A(a) | IISPSR_B(b)\<close> of the kernel's header.\<close>

definition set_iispsr :: "(int \<Rightarrow> int \<Rightarrow> int) \<Rightarrow> int \<Rightarrow> int \<Rightarrow> 'a audio_dev_scheme \<Rightarrow> 'a audio_dev_scheme" where
  "set_iispsr psr pclk rate s =
     (let v = iispsr_value pclk S_CLOCK_FREQ rate in s\<lparr>iispsr := iispsr s @ [psr v v]\<rparr>)"

definition audio_set_dsp_speed :: "(int \<Rightarrow> int \<Rightarrow> int) \<Rightarrow> int \<Rightarrow> int \<Rightarrow> 'a audio_dev_scheme \<Rightarrow> int \<times> 'a audio_dev_scheme" where
  "audio_set_dsp_speed psr pclk val s =
     (let done = (\<lambda>rate. (val, (set_iispsr psr pclk rate s)\<lparr>audio_rate := val\<rparr>)) in
      if val = 48000 \<or> val = 44100 then done 44100
      else if val = 22050 then done 22050
      else if val = 11025 then done 11025
      else if val = 8000 then done 8000
      else (-1, s))"

section \<open>The mixer\<close>

datatype mixer_cmd =
    SOUND_MIXER_INFO | SOUND_OLD_MIXER_INFO | SOUND_MIXER_READ_STEREODEVS | SOUND_MIXER_READ_CAPS
  | SOUND_MIXER_WRITE_VOLUME | SOUND_MIXER_READ_VOLUME | SOUND_MIXER_VOLUME | Other_mixer_cmd

text \<open>The caller's argument: the value \<open>get_user\<close> delivers, and whether the pointer faults.\<close>

record user_arg =
  a_val :: int
  a_fault :: bool

definition put_user :: "user_arg \<Rightarrow> int \<Rightarrow> int \<times> int list" where
  "put_user u v = (if a_fault u then (-14, []) else (0, [v]))"

definition SOUND_CAP_EXCL_INPUT :: int where "SOUND_CAP_EXCL_INPUT = 1"

text \<open>The codec's registers are written over the IIC bus; the model records the calls.\<close>

definition codec_write :: "int \<Rightarrow> int \<Rightarrow> int \<Rightarrow> 'a audio_dev_scheme \<Rightarrow> 'a audio_dev_scheme" where
  "codec_write slv addr data s = s\<lparr>codec := codec s @ [(slv, addr, u32i data)]\<rparr>"

text \<open>
  Result, values stored at the caller, state.  \<open>copy_to_user\<close> of the identification returns the
  number of bytes left, \<open>n\<close> on a fault.
\<close>

definition smdk2410_mixer_ioctl :: "nat \<Rightarrow> mixer_cmd \<Rightarrow> user_arg \<Rightarrow> 'a audio_dev_scheme \<Rightarrow> int \<times> int list \<times> 'a audio_dev_scheme" where
  "smdk2410_mixer_ioctl n cmd u s =
     (let count = (\<lambda>s. s\<lparr>audio_mix_modcnt := s32 (audio_mix_modcnt s + 1)\<rparr>);
          put = (\<lambda>v. let (r, out) = put_user u v in (r, out, s))
      in case cmd of
           SOUND_MIXER_INFO \<Rightarrow> if a_fault u then (int n, [], s) else (0, [audio_mix_modcnt s], s)
         | SOUND_OLD_MIXER_INFO \<Rightarrow> (if a_fault u then int n else 0, [], s)
         | SOUND_MIXER_READ_STEREODEVS \<Rightarrow> put 0
         | SOUND_MIXER_READ_CAPS \<Rightarrow> put SOUND_CAP_EXCL_INPUT
         | SOUND_MIXER_WRITE_VOLUME \<Rightarrow>
             if a_fault u then (-14, [], s)
             else let val = a_val u AND 0xFF; vol = s32 (push_bit 8 val OR val)
                  in (0, [], count (codec_write 0x30 0x10 vol (s\<lparr>uda1380_volume := vol\<rparr>)))
         | SOUND_MIXER_READ_VOLUME \<Rightarrow> put (uda1380_volume s AND 0xFF)
         | SOUND_MIXER_VOLUME \<Rightarrow>
             if a_fault u then (-14, [], s) else (0, [], count (codec_write 0x30 0x10 (a_val u) s))
         | Other_mixer_cmd \<Rightarrow> (-38, [], s))"

section \<open>The sound device\<close>

datatype dsp_cmd =
    SNDCTL_DSP_SETFMT | SNDCTL_DSP_CHANNELS | SNDCTL_DSP_STEREO | SOUND_PCM_READ_CHANNELS
  | SNDCTL_DSP_SPEED | SOUND_PCM_READ_RATE | SNDCTL_DSP_GETFMTS | SNDCTL_DSP_GETBLKSIZE
  | SNDCTL_DSP_SETFRAGMENT | SNDCTL_DSP_SYNC | SNDCTL_DSP_GETOSPACE | SNDCTL_DSP_RESET
  | SNDCTL_DSP_POST | SNDCTL_DSP_SUBDIVIDE | SNDCTL_DSP_NONBLOCK | SNDCTL_DSP_GETCAPS
  | SNDCTL_DSP_GETTRIGGER | SNDCTL_DSP_SETTRIGGER | SNDCTL_DSP_GETIPTR | SNDCTL_DSP_GETOPTR
  | SNDCTL_DSP_MAPINBUF | SNDCTL_DSP_MAPOUTBUF | SNDCTL_DSP_SETSYNCRO | SNDCTL_DSP_SETDUPLEX
  | Mixer_cmd mixer_cmd

definition AUDIO_FMT_MASK :: int where "AUDIO_FMT_MASK = 0x10"

text \<open>
  The requested geometry.  The shift \<open>1 << (val & 0xFFFF)\<close> is undefined from 32 on: then its value
  is \<open>shl\<close>.
\<close>

definition frag_geometry :: "(int \<Rightarrow> int) \<Rightarrow> int \<Rightarrow> nat \<times> nat" where
  "frag_geometry shl val =
     (let n = val AND 0xFFFF;
          fs = u32i (if n < 32 then 2 ^ nat n else shl n);
          fs = (if fs < 16 then 16 else fs);
          fs = (if fs > 16384 then 16384 else fs);
          nb = drop_bit 16 val AND 0x7FFF;
          nb = (if nb < 2 then 2 else nb);
          nb = (if u32i (nb * fs) > 128 * 1024 then 128 * 1024 div fs else nb)
      in (nat fs, nat nb))"

text \<open>The sum over the fragments of \<open>GETOSPACE\<close>: free fragments, free bytes.\<close>

definition ospace_step :: "nat \<Rightarrow> audio_buf \<Rightarrow> int \<times> int \<Rightarrow> int \<times> int" where
  "ospace_step fs b = (\<lambda>(frags, bytes).
     if b_sem b > 0 then (if b_size b = 0 then frags + 1 else frags, s32 (bytes + (int fs - b_size b)))
     else (frags, bytes))"

definition ospace :: "'a audio_stream_scheme \<Rightarrow> (int \<times> int) option" where
  "ospace s =
     (if nbfrags s = 0 then Some (0, 0)
      else map_option (\<lambda>bs. fold (ospace_step (fragsize s)) (take (nbfrags s) bs) (0, 0)) (buffers s))"

text \<open>\<open>None\<close>: the call sleeps beyond the schedule, or reads through the null pointer.\<close>

definition smdk2410_audio_ioctl ::
    "kernel \<Rightarrow> (int \<Rightarrow> int) \<Rightarrow> (int \<Rightarrow> int \<Rightarrow> int) \<Rightarrow> int \<Rightarrow> nat \<Rightarrow> accmode \<Rightarrow> nat list list \<Rightarrow> dsp_cmd \<Rightarrow> user_arg
      \<Rightarrow> 'a audio_dev_scheme \<Rightarrow> (int \<times> int list \<times> 'a audio_dev_scheme) option" where
  "smdk2410_audio_ioctl K shl psr pclk n acc sched cmd u s =
     (let val = a_val u; put = (\<lambda>v. Some (0, snd (put_user u v), s)) in
      case cmd of
        SNDCTL_DSP_SETFMT \<Rightarrow>
          if val AND AUDIO_FMT_MASK \<noteq> 0 then Some (0, [], s\<lparr>audio_fmt := val\<rparr>) else Some (-22, [], s)
      | SNDCTL_DSP_CHANNELS \<Rightarrow>
          if val \<noteq> 1 \<and> val \<noteq> 2 then Some (-22, [], s) else Some (0, [], s\<lparr>audio_channels := val\<rparr>)
      | SNDCTL_DSP_STEREO \<Rightarrow> Some (0, [], s\<lparr>audio_channels := if val \<noteq> 0 then 2 else 1\<rparr>)
      | SOUND_PCM_READ_CHANNELS \<Rightarrow> put (audio_channels s)
      | SNDCTL_DSP_SPEED \<Rightarrow>
          (case audio_set_dsp_speed psr pclk val s of (v, s) \<Rightarrow>
             if v < 0 then Some (-22, [], s) else Some (0, snd (put_user u v), s))
      | SOUND_PCM_READ_RATE \<Rightarrow> put (audio_rate s)
      | SNDCTL_DSP_GETFMTS \<Rightarrow> put AUDIO_FMT_MASK
      | SNDCTL_DSP_GETBLKSIZE \<Rightarrow> put (int (audio_fragsize s))
      | SNDCTL_DSP_SETFRAGMENT \<Rightarrow>
          if buffers s \<noteq> None then Some (-16, [], s)
          else let (fs, nb) = frag_geometry shl val;
                   (err, s) = audio_setup_buf K (s\<lparr>audio_fragsize := fs, audio_nbfrags := nb\<rparr>)
               in Some (if err \<noteq> 0 then -12 else 0, [], s)
      | SNDCTL_DSP_SYNC \<Rightarrow> map_option (\<lambda>(r, s). (r, [], s)) (audio_sync sched s)
      | SNDCTL_DSP_GETOSPACE \<Rightarrow>
          if a_fault u then Some (-14, [], s)
          else map_option (\<lambda>(frags, bytes). (0, [frags, int (nbfrags s), int (fragsize s), bytes], s)) (ospace s)
      | SNDCTL_DSP_RESET \<Rightarrow>
          Some (0, [], if acc = O_WRONLY \<or> acc = O_RDWR then audio_clear_buf s else s)
      | Mixer_cmd c \<Rightarrow> Some (smdk2410_mixer_ioctl n c u s)
      | _ \<Rightarrow> Some (-38, [], s))"

text \<open>\<open>POLLOUT | POLLWRNORM\<close>\<close>

definition POLL_WRITABLE :: int where "POLL_WRITABLE = 0x104"

definition smdk2410_audio_poll :: "kernel \<Rightarrow> bool \<Rightarrow> 'a audio_stream_scheme \<Rightarrow> int \<times> 'a audio_stream_scheme" where
  "smdk2410_audio_poll K fmode_write s =
     (if \<not> fmode_write then (0, s)
      else let (err, s) = (if buffers s = None then audio_setup_buf K s else (0, s)) in
        if err \<noteq> 0 then (-12, s)
        else (if \<exists>b \<in> set (case buffers s of None \<Rightarrow> [] | Some bs \<Rightarrow> take (nbfrags s) bs). b_sem b > 0
              then POLL_WRITABLE else 0, s))"

definition smdk2410_audio_llseek :: int where "smdk2410_audio_llseek = -29"

section \<open>Opening and closing\<close>

text \<open>The body of \<open>smdk2410_audio_open\<close> is compiled out; what is left counts module uses.\<close>

definition smdk2410_audio_open :: "'a audio_dev_scheme \<Rightarrow> int \<times> 'a audio_dev_scheme" where
  "smdk2410_audio_open s = (0, s)"

definition smdk2410_audio_release :: "accmode \<Rightarrow> nat list list \<Rightarrow> 'a audio_dev_scheme \<Rightarrow> (int \<times> 'a audio_dev_scheme) option" where
  "smdk2410_audio_release acc sched s =
     (let s = (if (acc = O_RDONLY \<or> acc = O_RDWR) \<and> audio_rd_refcount s = 1 then s\<lparr>audio_rd_refcount := 0\<rparr> else s) in
      if (acc = O_WRONLY \<or> acc = O_RDWR) \<and> audio_wr_refcount s = 1
      then map_option (\<lambda>(r, s). (0, (audio_clear_buf s)\<lparr>audio_wr_refcount := 0\<rparr>)) (audio_sync sched s)
      else Some (0, s))"

section \<open>Initialisation\<close>

definition AUDIO_RATE_DEFAULT :: int where "AUDIO_RATE_DEFAULT = 22050"
definition AUDIO_CHANNELS_DEFAULT :: int where "AUDIO_CHANNELS_DEFAULT = 2"
definition AUDIO_FRAGSIZE_DEFAULT :: nat where "AUDIO_FRAGSIZE_DEFAULT = 8192"
definition AUDIO_NBFRAGS_DEFAULT :: nat where "AUDIO_NBFRAGS_DEFAULT = 8"

text \<open>Channels 2 and 1; \<open>ok\<close> is what the kernel answers to a request.\<close>

definition audio_init_dma :: "(nat \<Rightarrow> bool) \<Rightarrow> nat \<Rightarrow> 'a audio_dev_scheme \<Rightarrow> bool \<times> 'a audio_dev_scheme" where
  "audio_init_dma ok ch s = (ok ch, s\<lparr>dma_calls := dma_calls s @ [Dma_request ch]\<rparr>)"

definition audio_clear_dma :: "nat \<Rightarrow> 'a audio_dev_scheme \<Rightarrow> 'a audio_dev_scheme" where
  "audio_clear_dma ch s = s\<lparr>dma_calls := dma_calls s @ [Dma_free ch]\<rparr>"

text \<open>
  \<open>init_module\<close> on the driver's own state, for the output stream's record; the pin functions and
  the constant settings of the IIS registers are the kernel's.
\<close>

definition audio_init_module :: "(nat \<Rightarrow> bool) \<Rightarrow> (int \<Rightarrow> int \<Rightarrow> int) \<Rightarrow> int \<Rightarrow> 'a audio_dev_scheme \<Rightarrow> int \<times> 'a audio_dev_scheme" where
  "audio_init_module ok psr pclk s =
     (let cold = (audio_rd_refcount s = 0 \<and> audio_wr_refcount s = 0);
          s = s\<lparr>codec := codec s @ uda_calls\<rparr>;
          s = set_iispsr psr pclk 44100 s;
          (ok2, s) = audio_init_dma ok 2 s
      in if \<not> ok2 then (-16, audio_clear_dma 2 s)
         else let (ok1, s) = audio_init_dma ok 1 s
              in if \<not> ok1 then (-16, audio_clear_dma 1 s)
                 else (0, if cold
                          then audio_clear_buf (s\<lparr>audio_rate := AUDIO_RATE_DEFAULT, audio_channels := AUDIO_CHANNELS_DEFAULT,
                                 audio_fragsize := AUDIO_FRAGSIZE_DEFAULT, audio_nbfrags := AUDIO_NBFRAGS_DEFAULT\<rparr>)
                          else s))"

definition audio_cleanup_module :: "'a audio_dev_scheme \<Rightarrow> 'a audio_dev_scheme" where
  "audio_cleanup_module s = audio_clear_dma 2 (audio_clear_dma 1 s)"

section \<open>The prescaler\<close>

lemma int_div_le_self: "0 \<le> (a :: int) \<Longrightarrow> 0 < b \<Longrightarrow> a div b \<le> a"
  using zdiv_mono2 [of a 1 b] by simp

lemma iispsr_diff:
  assumes "0 \<le> pclk" "pclk < 4294967296" "0 \<le> rate" "rate < 2147483648" "0 \<le> i"
  defines "t \<equiv> iis_rate pclk S_CLOCK_FREQ i"
  shows "u32i (rate - t) < 65535 \<longleftrightarrow> t \<le> rate \<and> rate - t < 65535"
    and "t \<le> rate \<Longrightarrow> u32i (rate - t) = rate - t" and "0 \<le> t"
proof -
  have q: "0 \<le> pclk div 384" "pclk div 384 < 11184811" using assms(1,2) by linarith+
  show t0: "0 \<le> t" unfolding t_def iis_rate_def S_CLOCK_FREQ_def using q(1) assms(5) by (intro pos_imp_zdiv_nonneg_iff [THEN iffD2]) auto
  have "t \<le> pclk div 384"
    unfolding t_def iis_rate_def S_CLOCK_FREQ_def using q(1) assms(5) by (intro int_div_le_self) auto
  then have t1: "t < 11184811" using q(2) by linarith
  show id: "t \<le> rate \<Longrightarrow> u32i (rate - t) = rate - t" using t0 assms(4) by (simp add: u32i_id)
  show "u32i (rate - t) < 65535 \<longleftrightarrow> t \<le> rate \<and> rate - t < 65535"
  proof (cases "t \<le> rate")
    case True
    then show ?thesis using id by simp
  next
    case False
    have "(rate - t) mod 4294967296 = (rate - t + 4294967296) mod 4294967296" by simp
    also have "\<dots> = rate - t + 4294967296" using False t1 assms(3) by (intro mod_pos_pos_trivial) auto
    finally show ?thesis using False t1 assms(3) unfolding u32i_def by auto
  qed
qed

definition prescaler_inv :: "int \<Rightarrow> int \<Rightarrow> int \<Rightarrow> int \<times> int \<Rightarrow> bool" where
  "prescaler_inv pclk rate j = (\<lambda>(pre, mn).
     let d = (\<lambda>i. u32i (rate - iis_rate pclk S_CLOCK_FREQ i)) in
     (\<forall>i. 0 \<le> i \<and> i < j \<longrightarrow> mn \<le> d i) \<and>
     (pre = 0 \<and> mn = 65535 \<or> 0 \<le> pre \<and> pre < j \<and> mn = d pre \<and> mn < 65535))"

lemma prescaler_step:
  "0 \<le> j \<Longrightarrow> prescaler_inv pclk rate j x \<Longrightarrow> prescaler_inv pclk rate (j + 1) (iispsr_step pclk S_CLOCK_FREQ rate j x)"
proof -
  assume j: "0 \<le> j" and inv: "prescaler_inv pclk rate j x"
  obtain pre mn where x: "x = (pre, mn)" by (cases x)
  define d where "d = (\<lambda>i. u32i (rate - iis_rate pclk S_CLOCK_FREQ i))"
  have lo: "\<And>i. 0 \<le> i \<Longrightarrow> i < j \<Longrightarrow> mn \<le> d i"
    and pm: "pre = 0 \<and> mn = 65535 \<or> 0 \<le> pre \<and> pre < j \<and> mn = d pre \<and> mn < 65535"
    using inv by (auto simp: prescaler_inv_def x d_def Let_def)
  have st: "iispsr_step pclk S_CLOCK_FREQ rate j x = (if d j < mn then (j, d j) else (pre, mn))"
    by (simp add: iispsr_step_def x d_def Let_def)
  show "prescaler_inv pclk rate (j + 1) (iispsr_step pclk S_CLOCK_FREQ rate j x)"
  proof (cases "d j < mn")
    case True
    then have "d j < 65535" using pm by auto
    moreover have "d j \<le> d i" if "0 \<le> i" "i < j + 1" for i
      using lo [of i] that True by (cases "i = j") auto
    ultimately show ?thesis
      unfolding st prescaler_inv_def d_def [symmetric] Let_def
      using True j by (auto simp: d_def [symmetric])
  next
    case False
    have "mn \<le> d i" if "0 \<le> i" "i < j + 1" for i
      using lo [of i] that False by (cases "i = j") auto
    then show ?thesis
      unfolding st prescaler_inv_def d_def [symmetric] Let_def
      using False pm by (auto simp: d_def [symmetric])
  qed
qed

text \<open>
  The prescaler never makes the chip run faster than asked, when one of its 32 settings is not
  too fast (and at most 65534 Hz slow): it picks the fastest of the settings that are not above the
  rate, not the nearest one, because the absolute value is taken of an unsigned difference.  With no
  such setting it picks the fastest clock of all.
\<close>
theorem prescaler_rounds_down:
  assumes p: "0 \<le> pclk" "pclk < 4294967296" and r: "0 \<le> rate" "rate < 2147483648"
  defines "v \<equiv> iispsr_value pclk S_CLOCK_FREQ rate" and "f \<equiv> iis_rate pclk S_CLOCK_FREQ"
  shows "if \<exists>i. 0 \<le> i \<and> i < 32 \<and> f i \<le> rate \<and> rate - f i < 65535
    then 0 \<le> v \<and> v < 32 \<and> f v \<le> rate \<and> (\<forall>i. 0 \<le> i \<and> i < 32 \<and> f i \<le> rate \<longrightarrow> f i \<le> f v)
    else v = 0"
proof -
  define mn where "mn = snd (for_up 0 32 (iispsr_step pclk S_CLOCK_FREQ rate) (0, 0xffff))"
  have "prescaler_inv pclk rate 32 (for_up 0 32 (iispsr_step pclk S_CLOCK_FREQ rate) (0, 0xffff))"
    by (rule for_up_inv [where P = "prescaler_inv pclk rate"]) (auto simp: prescaler_step, simp add: prescaler_inv_def)
  then have "prescaler_inv pclk rate 32 (v, mn)" by (simp add: v_def iispsr_value_def mn_def)
  then have lo: "\<And>i. 0 \<le> i \<Longrightarrow> i < 32 \<Longrightarrow> mn \<le> u32i (rate - f i)"
    and pre: "v = 0 \<and> mn = 65535 \<or> 0 \<le> v \<and> v < 32 \<and> mn = u32i (rate - f v) \<and> mn < 65535"
    by (auto simp: prescaler_inv_def f_def Let_def)
  note D = iispsr_diff [OF p r, folded f_def]
  show ?thesis
  proof (cases "\<exists>i. 0 \<le> i \<and> i < 32 \<and> f i \<le> rate \<and> rate - f i < 65535")
    case True
    then obtain i where i: "0 \<le> i" "i < 32" "f i \<le> rate" "rate - f i < 65535" by blast
    then have "mn < 65535" using D(1) [of i] lo [of i] by simp
    then have v: "0 \<le> v" "v < 32" "mn = u32i (rate - f v)" "mn < 65535" using pre by auto
    then have fv: "f v \<le> rate" "mn = rate - f v" using D(1,2) [of v] by auto
    have "f j \<le> f v" if "0 \<le> j" "j < 32" "f j \<le> rate" for j
      using lo [OF that(1,2)] D(2) [OF that(1,3)] fv(2) by simp
    then show ?thesis using True v fv by auto
  next
    case False
    have "\<not> (0 \<le> v \<and> v < 32 \<and> mn = u32i (rate - f v) \<and> mn < 65535)"
    proof
      assume a: "0 \<le> v \<and> v < 32 \<and> mn = u32i (rate - f v) \<and> mn < 65535"
      then have "f v \<le> rate \<and> rate - f v < 65535" using D(1) [of v] by auto
      then show False using False a by blast
    qed
    then have "v = 0" using pre by blast
    then show ?thesis unfolding if_not_P [OF False] .
  qed
qed

text \<open>At a bus clock of 50 MHz the nearest setting for 8000 Hz would be 15 (8138 Hz).\<close>

lemma not_nearest:
  "iispsr_value 50000000 S_CLOCK_FREQ 8000 = 16" "iis_rate 50000000 S_CLOCK_FREQ 16 = 7659"
  "iis_rate 50000000 S_CLOCK_FREQ 15 = 8138"
  by (simp_all add: iispsr_value_def iispsr_step_def iis_rate_def S_CLOCK_FREQ_def u32i_def for_up_code Let_def)

theorem prescaler_rounds_down_witness:
  "iispsr_value 50000000 S_CLOCK_FREQ 8000 = 16 \<and> iis_rate 50000000 S_CLOCK_FREQ 16 \<le> 8000 \<and>
     iis_rate 50000000 S_CLOCK_FREQ 17 \<le> iis_rate 50000000 S_CLOCK_FREQ 16"
proof -
  have "iis_rate 50000000 S_CLOCK_FREQ 17 \<le> 8000" by (simp add: iis_rate_def S_CLOCK_FREQ_def)
  moreover have "\<exists>i. 0 \<le> i \<and> i < 32 \<and> iis_rate 50000000 S_CLOCK_FREQ i \<le> 8000 \<and> 8000 - iis_rate 50000000 S_CLOCK_FREQ i < 65535"
    using not_nearest(2) by (intro exI [of _ 16]) simp
  ultimately show ?thesis using prescaler_rounds_down [of 50000000 8000] unfolding not_nearest(1) by simp
qed

section \<open>The geometry of the ring\<close>

text \<open>The ARM shifts by the low byte of the count: a shift that is too wide is 0 or a power of two.\<close>

definition arm_shift :: "(int \<Rightarrow> int) \<Rightarrow> bool" where
  "arm_shift shl \<longleftrightarrow> (\<forall>n. shl n = 0 \<or> (\<exists>k < 32. shl n = 2 ^ k))"

lemma power_two_cases: "(k :: nat) < 32 \<Longrightarrow> (2 :: int) ^ k < 16 \<or> 2 ^ k > (16384 :: int) \<or>
    16 \<le> (2 :: int) ^ k \<and> 2 ^ k \<le> (16384 :: int) \<and> 4 dvd (2 :: int) ^ k"
proof -
  assume "k < 32"
  show ?thesis
  proof (cases "k < 2")
    case True
    then have "k = 0 \<or> k = 1" by auto
    then show ?thesis by auto
  next
    case False
    then have "(2 :: int) ^ 2 dvd 2 ^ k" by (intro le_imp_power_dvd) simp
    then show ?thesis by auto
  qed
qed

lemma div_mult_le_int: "0 < f \<Longrightarrow> (a :: int) div f * f \<le> a"
  using int_div_bounds(1) [of f a] by (simp add: mult.commute)

lemma frag_geometry_ok:
  assumes "arm_shift shl" "frag_geometry shl val = (fs, nb)"
  shows "16 \<le> fs" "fs \<le> 16384" "4 dvd fs" "2 \<le> nb" "nb * fs \<le> 128 * 1024"
proof -
  define n where "n = val AND 0xFFFF"
  define x where "x = u32i (if n < 32 then 2 ^ nat n else shl n)"
  define y where "y = (if x < 16 then 16 else x)"
  define f where "f = (if y > 16384 then 16384 else y)"
  define a where "a = drop_bit 16 val AND 0x7FFF"
  define b where "b = (if a < 2 then 2 else a)"
  define c where "c = (if u32i (b * f) > 128 * 1024 then 128 * 1024 div f else b)"
  have fs: "fs = nat f" "nb = nat c"
    using assms(2) unfolding frag_geometry_def Let_def x_def y_def f_def a_def b_def c_def n_def by simp_all
  have n0: "0 \<le> n" by (simp add: n_def)
  have "\<exists>k < 32. (if n < 32 then 2 ^ nat n else shl n) = 2 ^ k \<or> (if n < 32 then 2 ^ nat n else shl n) = (0 :: int)"
  proof (cases "n < 32")
    case True
    then show ?thesis using n0 by (intro exI [of _ "nat n"]) simp
  next
    case False
    have "shl n = 0 \<or> (\<exists>k < 32. shl n = 2 ^ k)" using assms(1) by (simp add: arm_shift_def)
    then show ?thesis using False by (metis zero_less_numeral)
  qed
  then obtain k :: nat where k: "k < 32" "(if n < 32 then 2 ^ nat n else shl n) = 2 ^ k \<or>
      (if n < 32 then 2 ^ nat n else shl n) = (0 :: int)" by blast
  have "(2 :: int) ^ k < 2 ^ 32" using k(1) by (intro power_strict_increasing) auto
  then have "u32i (2 ^ k) = 2 ^ k" "u32i 0 = 0" by (simp_all add: u32i_def)
  then have x: "x = 2 ^ k \<or> x = 0" using k(2) unfolding x_def by auto
  have f: "16 \<le> f \<and> f \<le> 16384 \<and> 4 dvd f"
    using x power_two_cases [OF k(1)] unfolding f_def y_def by auto
  then obtain g where g: "f = 4 * g" by (auto elim: dvdE)
  show "16 \<le> fs" "fs \<le> 16384" using f unfolding fs by auto
  show "4 dvd fs" unfolding fs g by (simp add: nat_mult_distrib)
  have "a = take_bit 15 (drop_bit 16 val)" unfolding a_def by (simp add: take_bit_eq_mask mask_eq_exp_minus_1)
  then have a: "0 \<le> a" "a < 32768" using take_bit_int_less_exp [of 15 "drop_bit 16 val"] by simp_all
  then have b: "2 \<le> b" "b < 32768" by (auto simp: b_def)
  have "b * f \<le> 32768 * 16384" using b f by (intro mult_mono) auto
  then have w: "u32i (b * f) = b * f" using b f by (intro u32i_id) auto
  have c: "2 \<le> c \<and> c * f \<le> 131072"
  proof (cases "b * f > 131072")
    case True
    then have c: "c = 131072 div f" by (simp add: c_def w)
    have "131072 div 16384 \<le> 131072 div f" using f by (intro zdiv_mono2) auto
    then have "8 \<le> c" using c by simp
    moreover have "c * f \<le> 131072" unfolding c using f div_mult_le_int [of f 131072] by simp
    ultimately show ?thesis by simp
  next
    case False
    then show ?thesis using b by (simp add: c_def w)
  qed
  then show "2 \<le> nb" unfolding fs by auto
  have "int (nat c * nat f) = c * f" using c f by simp
  then show "nb * fs \<le> 128 * 1024" unfolding fs using c by linarith
qed

section \<open>Reachable states\<close>

definition dev_zero :: audio_dev where
  "dev_zero = \<lparr>buffers = None, buf_idx = 0, fragsize = 0, nbfrags = 0, audio_fragsize = 0, audio_nbfrags = 0,
     audio_channels = 0, ram = (\<lambda>_. 0), khist = [], audio_rate = 0, audio_fmt = 0, uda1380_volume = 0,
     audio_mix_modcnt = 0, audio_rd_refcount = 0, audio_wr_refcount = 0, iispsr = [], codec = [], dma_calls = []\<rparr>"

inductive dsp_step :: "kernel \<Rightarrow> (int \<Rightarrow> int) \<Rightarrow> (int \<Rightarrow> int \<Rightarrow> int) \<Rightarrow> int \<Rightarrow> audio_dev \<Rightarrow> audio_dev \<Rightarrow> bool"
  for K shl psr pclk where
  irq: "dsp_step K shl psr pclk s (dma_out_irq i s)"
| dsp_write: "smdk2410_audio_write K acc nonblock sched a c s = Some (r, t) \<Longrightarrow> dsp_step K shl psr pclk s t"
| dsp_ioctl: "smdk2410_audio_ioctl K shl psr pclk n acc sched cmd u s = Some (r, out, t) \<Longrightarrow> dsp_step K shl psr pclk s t"
| dsp_poll: "smdk2410_audio_poll K wmode s = (m, t) \<Longrightarrow> dsp_step K shl psr pclk s t"
| dsp_open: "smdk2410_audio_open s = (r, t) \<Longrightarrow> dsp_step K shl psr pclk s t"
| dsp_release: "smdk2410_audio_release acc sched s = Some (r, t) \<Longrightarrow> dsp_step K shl psr pclk s t"

inductive dsp_reach :: "kernel \<Rightarrow> (int \<Rightarrow> int) \<Rightarrow> (int \<Rightarrow> int \<Rightarrow> int) \<Rightarrow> int \<Rightarrow> audio_dev \<Rightarrow> bool"
  for K shl psr pclk where
  init: "audio_init_module ok psr pclk dev_zero = (0, s) \<Longrightarrow> dsp_reach K shl psr pclk s"
| step: "dsp_reach K shl psr pclk s \<Longrightarrow> dsp_step K shl psr pclk s t \<Longrightarrow> dsp_reach K shl psr pclk t"

text \<open>Every operation only adds to the history.\<close>

lemma prefix_log [simp]: "prefix h (khist s) \<Longrightarrow> prefix h (khist (log_k e s))"
  by (auto simp: prefix_def)

lemma clear_prefix: "prefix (khist s) (khist (audio_clear_buf s))"
  by (auto simp: audio_clear_buf_def Let_def free_masters_eq prefix_def split: option.splits)

lemma setup_frags_prefix: "setup_frags K n frag sz v p s = (ok, t) \<Longrightarrow> prefix (khist s) (khist t)"
proof (induction n arbitrary: frag sz v p s)
  case (Suc n)
  show ?case
    using Suc.prems
    by (auto simp: Let_def split: if_splits option.splits dest!: Suc.IH intro: append_prefixD)
qed simp

lemma setup_prefix: "audio_setup_buf K s = (err, t) \<Longrightarrow> prefix (khist s) (khist t)"
  using clear_prefix [of "s\<lparr>nbfrags := audio_nbfrags s, fragsize := audio_fragsize s\<rparr>"]
  by (auto simp: audio_setup_buf_def Let_def split: if_splits prod.splits
      dest!: setup_frags_prefix intro: prefix_order.trans clear_prefix)

lemma write_prefix: "smdk2410_audio_write K acc nonblock sched a c s = Some (r, t) \<Longrightarrow> prefix (khist s) (khist t)"
proof -
  assume w: "smdk2410_audio_write K acc nonblock sched a c s = Some (r, t)"
  obtain err u where su: "(if buffers s = None then audio_setup_buf K s else (0, s)) = (err, u)" by (metis surj_pair)
  have p: "prefix (khist s) (khist u)" using su setup_prefix [of K s err u] by (auto split: if_splits)
  have "prefix (khist u) (khist v)" if "write_loop K nonblock sched a c' 0 u = Some (res, v)" for res v c'
    by (rule write_loop_prefix [OF that])
  then show ?thesis using w su p
    by (auto simp: smdk2410_audio_write_def Let_def split: if_splits option.splits sum.splits)
      (meson prefix_order.trans)+
qed

lemma sync_prefix: "audio_sync sched s = Some (r, t) \<Longrightarrow> prefix (khist s) (khist t)"
proof -
  assume y: "audio_sync sched s = Some (r, t)"
  have q: "prefix (khist s) (khist u)" if "sync_queue sched i s = Some (sched', u)" for i sched' u
    using that down_un_prefix by (auto simp: sync_queue_def khist_send prefix_def split: bind_splits) fastforce
  have d: "prefix (khist u) (khist v)" if "down_sem ds i u = Some (got, v)" for ds i got u v
    by (rule quiet_prefix [OF quiet_down [OF that]])
  show ?thesis using y
    by (auto simp: audio_sync_def Let_def split: if_splits option.splits list.splits
        dest!: q d) (meson prefix_order.trans)+
qed

text \<open>The fields of the control side do not touch the ring.\<close>

lemma audio_inv_ctl [simp]:
  fixes s :: "'a audio_dev_scheme"
  shows "audio_inv K (s\<lparr>audio_rate := x\<rparr>) = audio_inv K s" "audio_inv K (s\<lparr>audio_fmt := x\<rparr>) = audio_inv K s"
    "audio_inv K (s\<lparr>uda1380_volume := x\<rparr>) = audio_inv K s" "audio_inv K (s\<lparr>audio_mix_modcnt := x\<rparr>) = audio_inv K s"
    "audio_inv K (s\<lparr>iispsr := ys\<rparr>) = audio_inv K s" "audio_inv K (s\<lparr>codec := zs\<rparr>) = audio_inv K s"
    "audio_inv K (s\<lparr>audio_channels := x\<rparr>) = audio_inv K s"
  by (simp_all add: audio_inv_def ring_defs pend_frags_def params_ok_def areas_def split: option.splits)

lemma set_speed_inv: "audio_set_dsp_speed psr pclk val s = (v, t) \<Longrightarrow> audio_inv K t = audio_inv K s \<and> khist t = khist s"
  by (auto simp: audio_set_dsp_speed_def set_iispsr_def Let_def split: if_splits)

lemma mixer_inv: "smdk2410_mixer_ioctl n cmd u s = (r, out, t) \<Longrightarrow> audio_inv K t = audio_inv K s \<and> khist t = khist s"
  by (cases cmd) (auto simp: smdk2410_mixer_ioctl_def codec_write_def Let_def split: if_splits prod.splits)

lemma poll_prefix_inv:
  assumes "smdk2410_audio_poll K wmode s = (m, t)"
  shows "prefix (khist s) (khist t)" "alloc_ok K \<Longrightarrow> audio_inv K s \<Longrightarrow> audio_inv K t"
  using assms setup_inv(1) [of K s] setup_prefix [of K s]
  by (auto simp: smdk2410_audio_poll_def Let_def split: if_splits prod.splits)

lemma geometry_inv:
  assumes "audio_inv K s" "buffers s = None" "arm_shift shl" "frag_geometry shl val = (fs, nb)"
  shows "audio_inv K (s\<lparr>audio_fragsize := fs, audio_nbfrags := nb\<rparr>)"
  using assms(1,2) frag_geometry_ok [OF assms(3,4)]
  by (simp add: audio_inv_def params_ok_def areas_def)

lemma ioctl_prefix:
  assumes "smdk2410_audio_ioctl K shl psr pclk n acc sched cmd u s = Some (r, out, t)"
  shows "prefix (khist s) (khist t)"
proof (cases cmd)
  case SNDCTL_DSP_SETFRAGMENT
  obtain fs nb where g: "frag_geometry shl (a_val u) = (fs, nb)" by (cases "frag_geometry shl (a_val u)")
  then show ?thesis using assms SNDCTL_DSP_SETFRAGMENT setup_prefix [of K "s\<lparr>audio_fragsize := fs, audio_nbfrags := nb\<rparr>"]
    by (auto simp: smdk2410_audio_ioctl_def Let_def split: if_splits prod.splits)
next
  case SNDCTL_DSP_SPEED
  then show ?thesis using assms by (auto simp: smdk2410_audio_ioctl_def Let_def split: if_splits prod.splits dest!: set_speed_inv)
next
  case (Mixer_cmd c)
  then show ?thesis using assms mixer_inv [of n c u s] by (auto simp: smdk2410_audio_ioctl_def Let_def)
qed (use assms in \<open>auto simp: smdk2410_audio_ioctl_def Let_def clear_prefix split: if_splits prod.splits dest: sync_prefix\<close>)

lemma sync_inv:
  assumes "audio_inv K s" "dma_fifo (khist t)" "audio_sync sched s = Some (r, t)"
  shows "audio_inv K t"
proof (cases "buffers s = None")
  case True
  then show ?thesis using assms by (simp add: audio_sync_def)
next
  case False
  then show ?thesis using sync_stream [OF assms(1) False assms(2,3)] by simp
qed

lemma ioctl_inv:
  assumes K: "alloc_ok K" "arm_shift shl" and inv: "audio_inv K s" and f: "dma_fifo (khist t)"
    and io: "smdk2410_audio_ioctl K shl psr pclk n acc sched cmd u s = Some (r, out, t)"
  shows "audio_inv K t"
proof (cases cmd)
  case SNDCTL_DSP_SETFRAGMENT
  obtain fs nb where g: "frag_geometry shl (a_val u) = (fs, nb)" by (cases "frag_geometry shl (a_val u)")
  show ?thesis
  proof (cases "buffers s = None")
    case True
    obtain err where "audio_setup_buf K (s\<lparr>audio_fragsize := fs, audio_nbfrags := nb\<rparr>) = (err, t)"
      using io SNDCTL_DSP_SETFRAGMENT g True by (auto simp: smdk2410_audio_ioctl_def Let_def split: prod.splits)
    from setup_inv(1) [OF K(1) geometry_inv [OF inv True K(2) g] _ this] True show ?thesis by simp
  next
    case False
    then show ?thesis using io SNDCTL_DSP_SETFRAGMENT inv by (auto simp: smdk2410_audio_ioctl_def Let_def)
  qed
next
  case SNDCTL_DSP_SPEED
  then show ?thesis using io inv set_speed_inv [of psr pclk "a_val u" s]
    by (auto simp: smdk2410_audio_ioctl_def Let_def split: if_splits prod.splits)
next
  case SNDCTL_DSP_SYNC
  then show ?thesis using io inv f sync_inv by (auto simp: smdk2410_audio_ioctl_def Let_def)
next
  case (Mixer_cmd c)
  then show ?thesis using io inv mixer_inv [of n c u s] by (auto simp: smdk2410_audio_ioctl_def Let_def)
qed (use io inv clear_inv(1) in \<open>auto simp: smdk2410_audio_ioctl_def Let_def split: if_splits prod.splits\<close>)

section \<open>What the ring operations leave alone\<close>

lemma more_simps [simp]:
  "audio_stream.more (upd_buf i f s) = audio_stream.more s" "audio_stream.more (log_k e s) = audio_stream.more s"
  "audio_stream.more (NEXT_BUF s) = audio_stream.more s" "audio_stream.more (up_sem i s) = audio_stream.more s"
  "audio_stream.more (send_frag i b s) = audio_stream.more s" "audio_stream.more (dma_out_irq i s) = audio_stream.more s"
  by (simp_all add: upd_buf_def log_k_def NEXT_BUF_def up_sem_def send_frag_def dma_out_irq_def
      audio_dmaout_done_callback_def Let_def)

lemma more_irqs [simp]: "audio_stream.more (fold dma_out_irq ds s) = audio_stream.more s"
  by (induction ds arbitrary: s) simp_all

lemma more_down: "down_sem ds i s = Some (got, t) \<Longrightarrow> audio_stream.more t = audio_stream.more s"
  by (auto simp: down_sem_def Let_def split: option.splits if_splits)

lemma more_down_un: "down_un sched i s = Some (sched', t) \<Longrightarrow> audio_stream.more t = audio_stream.more s"
  by (induction sched i s rule: down_un.induct) (auto split: option.splits if_splits dest: more_down)

lemma more_clear [simp]: "audio_stream.more (audio_clear_buf s) = audio_stream.more s"
  by (simp add: audio_clear_buf_def free_masters_eq Let_def split: option.splits)

lemma more_setup_frags: "setup_frags K n frag sz v p s = (ok, t) \<Longrightarrow> audio_stream.more t = audio_stream.more s"
proof (induction n arbitrary: frag sz v p s)
  case (Suc n)
  then show ?case by (auto simp: Let_def split: if_splits option.splits)
qed simp

lemma more_setup: "audio_setup_buf K s = (err, t) \<Longrightarrow> audio_stream.more t = audio_stream.more s"
  by (auto simp: audio_setup_buf_def Let_def split: if_splits prod.splits dest!: more_setup_frags)

lemma more_poke [simp]: "audio_stream.more (poke K a bs s) = audio_stream.more s"
  by (induction K a bs s rule: poke.induct) auto

lemma more_fill: "fill_frag K a c i b s = (ok, k, t) \<Longrightarrow> audio_stream.more t = audio_stream.more s"
  by (auto simp: fill_frag_def copy_from_user_def copy_from_user_mono_stereo_def Let_def
      split: if_splits prod.splits)

lemma more_write_loop: "write_loop K nonblock sched a c ret s = Some (res, t) \<Longrightarrow> audio_stream.more t = audio_stream.more s"
proof (induction sched arbitrary: nonblock a c ret s)
  case (Cons ds sched)
  show ?case
  proof (cases "0 < c")
    case True
    from Cons.prems True obtain got u where d: "down_sem ds (buf_idx s) s = Some (got, u)"
      by (auto simp: Let_def split: option.splits)
    obtain ok k v where f: "fill_frag K a c (buf_idx s) (the (buf_at (buf_idx s) u)) u = (ok, k, v)"
      by (metis prod_cases3)
    have v: "audio_stream.more u = audio_stream.more s" "audio_stream.more v = audio_stream.more s"
      using more_down [OF d] more_fill [OF f] by simp_all
    have IH: "write_loop K nb sched a' c' ret' (send_frag i b v) = Some (res, t) \<Longrightarrow>
        audio_stream.more t = audio_stream.more s" for nb a' c' ret' i b
      using Cons.IH [of nb a' c' ret' "send_frag i b v"] v by simp
    show ?thesis
      using Cons.prems True d f v by (auto simp: Let_def split: option.splits if_splits dest!: IH)
  next
    case False
    with Cons.prems show ?thesis by simp
  qed
qed (simp split: if_splits)

lemma more_write: "smdk2410_audio_write K acc nonblock sched a c s = Some (r, t) \<Longrightarrow> audio_stream.more t = audio_stream.more s"
  by (auto simp: smdk2410_audio_write_def Let_def split: if_splits prod.splits option.splits sum.splits
      dest!: more_setup more_write_loop)

lemma more_sync: "audio_sync sched s = Some (r, t) \<Longrightarrow> audio_stream.more t = audio_stream.more s"
  by (auto simp: audio_sync_def sync_queue_def Let_def split: if_splits prod.splits option.splits list.splits bind_splits
      dest!: more_down more_down_un)

lemma refcount_more:
  fixes s t :: audio_dev
  assumes "audio_stream.more t = audio_stream.more s"
  shows "audio_wr_refcount t = audio_wr_refcount s" "audio_rd_refcount t = audio_rd_refcount s"
  using assms by (cases s, cases t, simp)+

section \<open>Every reachable state\<close>

lemma irq_inv:
  assumes inv: "audio_inv K s" and f: "dma_fifo (khist (dma_out_irq i s))"
  shows "audio_inv K (dma_out_irq i s)"
proof -
  have p: "pending (khist s) \<noteq> []" "fst (hd (pending (khist s))) = i" using khist_irq [of i s] f by auto
  then obtain bs where "ring K False bs s" using inv by (auto simp: audio_inv_def split: option.splits)
  then obtain bs' where "ring K False bs' (dma_out_irq i s)" using ring_irq(1) p by blast
  then show ?thesis by (rule keeps_inv [OF inv keeps_irq])
qed

lemma release_closed:
  "audio_rd_refcount s = 0 \<Longrightarrow> audio_wr_refcount s = 0 \<Longrightarrow> smdk2410_audio_release acc sched s = Some (0, s)"
  by (simp add: smdk2410_audio_release_def)

definition no_openers :: "audio_dev \<Rightarrow> bool" where
  "no_openers s \<longleftrightarrow> audio_rd_refcount s = 0 \<and> audio_wr_refcount s = 0"

lemma no_openers_more: "audio_stream.more t = audio_stream.more s \<Longrightarrow> no_openers t = no_openers s"
  using refcount_more [of t s] by (simp add: no_openers_def)

lemma no_openers_ctl [simp]:
  "no_openers (s\<lparr>audio_rate := x\<rparr>) = no_openers s" "no_openers (s\<lparr>audio_fmt := x\<rparr>) = no_openers s"
  "no_openers (s\<lparr>uda1380_volume := x\<rparr>) = no_openers s" "no_openers (s\<lparr>audio_mix_modcnt := x\<rparr>) = no_openers s"
  "no_openers (s\<lparr>iispsr := ys\<rparr>) = no_openers s" "no_openers (s\<lparr>codec := zs\<rparr>) = no_openers s"
  "no_openers (s\<lparr>audio_channels := x\<rparr>) = no_openers s" "no_openers (s\<lparr>dma_calls := ds\<rparr>) = no_openers s"
  "no_openers (s\<lparr>audio_fragsize := fs\<rparr>) = no_openers s" "no_openers (s\<lparr>audio_nbfrags := nb\<rparr>) = no_openers s"
  by (simp_all add: no_openers_def)

lemma no_openers_poll: "smdk2410_audio_poll K wmode s = (m, t) \<Longrightarrow> no_openers t = no_openers s"
  by (auto simp: smdk2410_audio_poll_def Let_def split: if_splits prod.splits dest!: more_setup no_openers_more)

lemma no_openers_speed: "audio_set_dsp_speed psr pclk val s = (v, t) \<Longrightarrow> no_openers t = no_openers s"
  by (auto simp: audio_set_dsp_speed_def set_iispsr_def Let_def split: if_splits)

lemma no_openers_mixer: "smdk2410_mixer_ioctl n cmd u s = (r, out, t) \<Longrightarrow> no_openers t = no_openers s"
  by (cases cmd) (auto simp: smdk2410_mixer_ioctl_def codec_write_def Let_def split: if_splits prod.splits)

lemma no_openers_ioctl:
  assumes "smdk2410_audio_ioctl K shl psr pclk n acc sched cmd u s = Some (r, out, t)"
  shows "no_openers t = no_openers s"
proof (cases cmd)
  case SNDCTL_DSP_SETFRAGMENT
  then show ?thesis using assms
    by (auto simp: smdk2410_audio_ioctl_def Let_def split: if_splits prod.splits dest!: more_setup no_openers_more)
next
  case SNDCTL_DSP_SPEED
  then show ?thesis using assms
    by (auto simp: smdk2410_audio_ioctl_def Let_def split: if_splits prod.splits dest!: no_openers_speed)
next
  case (Mixer_cmd c)
  then show ?thesis using assms no_openers_mixer [of n c u s] by (auto simp: smdk2410_audio_ioctl_def Let_def)
next
  case SNDCTL_DSP_SYNC
  then show ?thesis using assms
    by (auto simp: smdk2410_audio_ioctl_def Let_def dest!: more_sync no_openers_more)
next
  case SNDCTL_DSP_RESET
  then show ?thesis using assms no_openers_more [OF more_clear [of s]]
    by (auto simp: smdk2410_audio_ioctl_def Let_def split: if_splits)
qed (use assms in \<open>auto simp: smdk2410_audio_ioctl_def Let_def split: if_splits\<close>)

lemma init_state:
  assumes "audio_init_module ok psr pclk dev_zero = (0, s)"
  shows "audio_inv K s" "no_openers s"
  using assms
  by (auto simp: audio_init_module_def audio_init_dma_def set_iispsr_def dev_zero_def audio_clear_buf_def
      log_k_def no_openers_def audio_inv_def params_ok_def areas_def AUDIO_FRAGSIZE_DEFAULT_def AUDIO_NBFRAGS_DEFAULT_def
      Let_def split: if_splits)

lemma step_prefix:
  assumes "dsp_step K shl psr pclk s t"
  shows "prefix (khist s) (khist t)"
  using assms
proof cases
  case (irq i)
  then show ?thesis using quiet_irq [of s i] by (simp add: quiet_def)
next
  case (dsp_poll wmode m)
  then show ?thesis by (blast intro: poll_prefix_inv(1))
next
  case (dsp_open r)
  then show ?thesis by (simp add: smdk2410_audio_open_def)
next
  case (dsp_release acc sched r)
  then show ?thesis
    by (auto simp: smdk2410_audio_release_def Let_def split: if_splits dest!: sync_prefix
        intro: prefix_order.trans [OF _ clear_prefix])
qed (blast intro: write_prefix ioctl_prefix)+

lemma reach_inv:
  assumes "dsp_reach K shl psr pclk s" "alloc_ok K" "arm_shift shl" "dma_fifo (khist s)"
  shows "audio_inv K s \<and> no_openers s"
  using assms
proof (induction rule: dsp_reach.induct)
  case (init ok s)
  then show ?case using init_state by blast
next
  case (step s t)
  have "dma_fifo (khist s)" using dma_fifo_prefix [OF step_prefix [OF step.hyps(2)] step.prems(3)] .
  then have s: "audio_inv K s" "no_openers s" using step by simp_all
  show ?case using step.hyps(2)
  proof cases
    case (irq i)
    then show ?thesis using irq_inv [of K s i] s step.prems(3) no_openers_more [of t s] by simp
  next
    case (dsp_write acc nonblock sched a c r)
    then show ?thesis using write_keeps_inv step.prems s no_openers_more [OF more_write] by metis
  next
    case (dsp_ioctl n acc sched cmd u r out)
    then show ?thesis using ioctl_inv [OF step.prems(1,2) s(1) step.prems(3)] no_openers_ioctl s by metis
  next
    case (dsp_poll wmode m)
    then show ?thesis using poll_prefix_inv(2) no_openers_poll step.prems s by metis
  next
    case (dsp_open r)
    then show ?thesis using s by (simp add: smdk2410_audio_open_def)
  next
    case (dsp_release acc sched r)
    then show ?thesis using s release_closed [of s acc sched] by (simp add: no_openers_def)
  qed
qed

end
