(* ===== verification/Audio_Run.thy ===== *)
theory Audio_Run
  imports Audio_Ctl
begin

text \<open>
  The sound driver as a whole: what holds in every state its calls and interrupts lead to, what
  \<open>poll\<close>, \<open>GETOSPACE\<close>, \<open>RESET\<close> and closing mean to a client.
\<close>

section \<open>The driver's invariant\<close>

text \<open>
  C7: in every state that calls and completions lead to from \<open>init_module\<close>, the driver's invariant
  holds: the fragments are apart and mapped, the queued ones are the slots just behind the current
  one, exactly those have their semaphore taken, only the current one is partly filled, and the
  memory allocated and not freed is what the buffers own (none without buffers).
\<close>
theorem driver_invariant:
  assumes "dsp_reach K shl psr pclk s" "alloc_ok K" "arm_shift shl" "dma_fifo (khist s)"
  shows "audio_inv K s \<and> (buffers s = None \<longrightarrow> live (khist s) = {#})"
  using reach_inv [OF assms] by (auto simp: audio_inv_def areas_def)

definition demo_shl :: "int \<Rightarrow> int" where "demo_shl n = 0"

lemma demo_shl_ok: "arm_shift demo_shl"
  by (simp add: arm_shift_def demo_shl_def)

definition demo_psr :: "int \<Rightarrow> int \<Rightarrow> int" where "demo_psr a b = a * 32 + b"

text \<open>Load the driver, set a ring of 16-byte fragments, play 20 bytes; one completion.\<close>

definition demo_init :: audio_dev where
  "demo_init = snd (audio_init_module (\<lambda>_. True) demo_psr 50000000 dev_zero)"

definition demo_run :: "(int \<times> audio_dev) option" where
  "demo_run = do {
     (r, out, s) \<leftarrow> smdk2410_audio_ioctl demo_kernel demo_shl demo_psr 50000000 0 O_WRONLY []
       SNDCTL_DSP_SETFRAGMENT \<lparr>a_val = 0x20004, a_fault = False\<rparr> demo_init;
     smdk2410_audio_write demo_kernel O_WRONLY False [[], []] 100 20 s
   }"

lemma demo_init_ok: "audio_init_module (\<lambda>_. True) demo_psr 50000000 dev_zero = (0, demo_init)"
proof -
  have "fst (audio_init_module (\<lambda>_. True) demo_psr 50000000 dev_zero) = 0" by code_simp
  then show ?thesis unfolding demo_init_def by (metis prod.collapse)
qed

lemma demo_run_ok:
  obtains s where "demo_run = Some (20, s)" "dsp_reach demo_kernel demo_shl demo_psr 50000000 s"
    "dma_fifo (khist s)" "buffers s \<noteq> None" "pending (khist s) = [(0, 0, 16)]" "nbfrags s = 2" "fragsize s = 16"
    "stream_out s = map of_nat [100..<120]"
proof -
  have e: "map_option (\<lambda>(r, s). (r, dma_fifo (khist s), Option.is_none (buffers s), pending (khist s), nbfrags s, fragsize s,
      stream_out s)) demo_run = Some (20, True, False, [(0, 0, 16)], 2, 16, map of_nat [100..<120])"
    by code_simp
  then obtain s where s: "demo_run = Some (20, s)" by auto
  obtain r out u where u: "smdk2410_audio_ioctl demo_kernel demo_shl demo_psr 50000000 0 O_WRONLY []
       SNDCTL_DSP_SETFRAGMENT \<lparr>a_val = 0x20004, a_fault = False\<rparr> demo_init = Some (r, out, u)"
      "smdk2410_audio_write demo_kernel O_WRONLY False [[], []] 100 20 u = Some (20, s)"
    using s by (auto simp: demo_run_def split: bind_splits)
  have "dsp_reach demo_kernel demo_shl demo_psr 50000000 s"
    by (rule dsp_reach.step [OF dsp_reach.step [OF dsp_reach.init [OF demo_init_ok] dsp_ioctl [OF u(1)]] dsp_write [OF u(2)]])
  then show ?thesis using that [of s] s e unfolding s by (simp add: Option.is_none_def)
qed

theorem driver_invariant_witness:
  "\<exists>s. demo_run = Some (20, s) \<and> audio_inv demo_kernel s"
proof -
  obtain s where s: "demo_run = Some (20, s)" "dsp_reach demo_kernel demo_shl demo_psr 50000000 s" "dma_fifo (khist s)"
    by (rule demo_run_ok)
  then show ?thesis using driver_invariant [OF s(2) demo_kernel_ok demo_shl_ok s(3)] by blast
qed

section \<open>Closing\<close>

text \<open>
  No state that the driver can reach counts an opener (the body of \<open>open\<close> is compiled out), so
  closing neither waits for the sound nor frees the buffers: a partly filled fragment stays, unplayed,
  at the head of what the next client writes.
\<close>
theorem close_keeps_unplayed:
  assumes "dsp_reach K shl psr pclk s" "alloc_ok K" "arm_shift shl" "dma_fifo (khist s)"
  shows "smdk2410_audio_release acc sched s = Some (0, s) \<and> smdk2410_audio_open s = (0, s)"
  using reach_inv [OF assms] release_closed [of s acc sched] by (simp_all add: no_openers_def smdk2410_audio_open_def)

theorem close_keeps_unplayed_witness:
  "\<exists>s. demo_run = Some (20, s) \<and> smdk2410_audio_release O_WRONLY [] s = Some (0, s) \<and> partial s \<noteq> []"
proof -
  obtain s where s: "demo_run = Some (20, s)" "dsp_reach demo_kernel demo_shl demo_psr 50000000 s" "dma_fifo (khist s)"
    by (rule demo_run_ok)
  have "map_option (\<lambda>(r, s). partial s) demo_run = Some (map of_nat [116..<120])" by code_simp
  then have "partial s \<noteq> []" unfolding s(1) by (simp add: upt_rec)
  then show ?thesis using close_keeps_unplayed [OF s(2) demo_kernel_ok demo_shl_ok s(3)] s(1) by blast
qed

section \<open>Polling\<close>

lemma set_full_slots: "0 < n \<Longrightarrow> set (slots n i n) = {0..<n}"
proof (rule card_subset_eq)
  show "card (set (slots n i n)) = card {0..<n}" using distinct_slots [of n n i] by (simp add: distinct_card)
qed (auto intro: slots_less)

lemma ring_writable:
  assumes r: "ring K False bs s"
  shows "(\<exists>b \<in> set (take (nbfrags s) bs). b_sem b > 0) \<longleftrightarrow> length (pending (khist s)) < nbfrags s"
    "b_sem (bs ! buf_idx s) > 0 \<longleftrightarrow> length (pending (khist s)) < nbfrags s"
proof -
  define m where "m = length (pending (khist s))"
  have len: "length bs = nbfrags s" and idx: "buf_idx s < nbfrags s" and m: "m \<le> nbfrags s"
    and sl: "pend_frags s = slots (nbfrags s) (buf_idx s) m"
    and sem: "\<And>i. i < nbfrags s \<Longrightarrow> b_sem (bs ! i) = (if i \<in> set (pend_frags s) then 0 else 1)"
    using r by (auto simp: ring_defs m_def)
  show i: "b_sem (bs ! buf_idx s) > 0 \<longleftrightarrow> length (pending (khist s)) < nbfrags s"
    using sem [OF idx] full_slots [OF idx, of m] not_in_slots [OF idx, of m] m unfolding sl m_def [symmetric]
    by (cases "m = nbfrags s") (use in_full_slots [OF idx] in auto)
  show "(\<exists>b \<in> set (take (nbfrags s) bs). b_sem b > 0) \<longleftrightarrow> length (pending (khist s)) < nbfrags s"
  proof
    assume "length (pending (khist s)) < nbfrags s"
    then have "b_sem (bs ! buf_idx s) > 0" using i by blast
    then show "\<exists>b \<in> set (take (nbfrags s) bs). b_sem b > 0" using len idx by (intro bexI [of _ "bs ! buf_idx s"]) auto
  next
    assume "\<exists>b \<in> set (take (nbfrags s) bs). b_sem b > 0"
    then obtain k where k: "k < nbfrags s" "b_sem (bs ! k) > 0" using len by (auto simp: in_set_conv_nth)
    then have "k \<notin> set (slots (nbfrags s) (buf_idx s) m)" using sem [OF k(1)] sl by (auto split: if_splits)
    then have "m \<noteq> nbfrags s" using set_full_slots [of "nbfrags s" "buf_idx s"] k(1) by auto
    then show "length (pending (khist s)) < nbfrags s" using m by (simp add: m_def)
  qed
qed

lemma write_loop_mono: "write_loop K nonblock sched a c ret s = Some (Inr (q, a'), t) \<Longrightarrow> a \<le> a'"
proof (induction sched arbitrary: nonblock a c ret s)
  case (Cons ds sched)
  show ?case
    using Cons.prems
    by (auto simp: Let_def split: option.splits if_splits prod.splits dest!: Cons.IH)
qed (simp split: if_splits)

lemma write_loop_err: "write_loop K nonblock sched a c ret s = Some (Inl e, t) \<Longrightarrow> e = -14"
proof (induction sched arbitrary: nonblock a c ret s)
  case (Cons ds sched)
  show ?case
    using Cons.prems
    by (auto simp: Let_def split: option.splits if_splits prod.splits dest!: Cons.IH)
qed (simp split: if_splits)

text \<open>A write that finds its fragment free accepts something or faults.\<close>

lemma first_chunk:
  assumes w: "write_loop K nonblock ([] # sched) a c ret s = Some (res, t)" and r: "ring K False bs s"
    and c: "0 < c" "whole_samples (audio_channels s) c" and free: "b_sem (bs ! buf_idx s) > 0"
    and f: "dma_fifo (khist s)"
  shows "res = Inl (-14) \<or> (\<exists>q a'. res = Inr (q, a') \<and> a < a')"
proof -
  obtain u where d: "down_sem [] (buf_idx s) s = Some (True, u)" using r free by (simp add: down_sem_def)
  then have u: "buf_idx u = buf_idx s" "audio_channels u = audio_channels s" "khist u = khist s"
    using r by (auto simp: down_sem_def split: if_splits)
  obtain bs' where r': "ring K True bs' u" "b_size (bs' ! buf_idx u) < int (fragsize u)"
    using down_sem_idx(1) [OF r d] f u(3) by auto
  define k where "k = frag_chunk (audio_channels u) (b_size (bs' ! buf_idx u)) (fragsize u) c"
  have "0 \<le> b_size (bs' ! buf_idx u)" "4 dvd b_size (bs' ! buf_idx u)" "4 dvd fragsize u"
    using r' by (simp_all add: ring_defs)
  then have k: "0 < k" using frag_chunk_bounds(1) [OF _ r'(2) _ _ c(1)] c(2) u(2) by (simp add: k_def)
  from write_loop_round [where a = a and sched = sched and ret = ret and nonblock = nonblock,
    OF d u(1) r' c(1) c(2) [folded u(2)], folded k_def]
  have "res = Inl (-14) \<or> (\<exists>b ret' v v'. Some (res, t) = (if b then Some (Inr (ret', a + k), v)
        else write_loop K nonblock sched (a + k) (c - k) ret' v'))"
    unfolding w by blast
  then show ?thesis
  proof (elim disjE exE)
    fix b ret' v v'
    assume "Some (res, t) = (if b then Some (Inr (ret', a + k), v)
        else write_loop K nonblock sched (a + k) (c - k) ret' v')"
    then have e: "(if b then Some (Inr (ret', a + k), v)
        else write_loop K nonblock sched (a + k) (c - k) ret' v') = Some (res, t)" by metis
    show ?thesis
    proof (cases b)
      case True
      then have "res = Inr (ret', a + k)" using e by simp
      then show ?thesis using k by simp
    next
      case False
      then have e: "write_loop K nonblock sched (a + k) (c - k) ret' v' = Some (res, t)" using e by simp
      show ?thesis
      proof (cases res)
        case (Inl x)
        then show ?thesis using write_loop_err e by metis
      next
        case (Inr y)
        then obtain q a' where "res = Inr (q, a')" by (cases y) simp
        then show ?thesis using write_loop_mono e k by fastforce
      qed
    qed
  qed simp
qed

text \<open>
  C35: \<open>poll\<close> tells the truth about writing.  The ring is reported writable exactly when a
  non-blocking write of at least one frame, with no completion in between, would not be turned away
  with \<open>-EAGAIN\<close>: that any fragment is free means that the current one is.
\<close>
theorem poll_means_write:
  assumes K: "alloc_ok K" and inv: "audio_inv K s" and f: "dma_fifo (khist t)"
    and p: "smdk2410_audio_poll K True s = (m, t)" "m \<noteq> -12"
    and w: "smdk2410_audio_write K O_WRONLY True ([] # sched) a c t = Some (r, v)" and c: "4 \<le> c"
  shows "m = (if r = -11 then 0 else POLL_WRITABLE)"
proof -
  have "buffers t \<noteq> None"
    using p setup_inv(3) [OF K inv] by (auto simp: smdk2410_audio_poll_def Let_def split: if_splits prod.splits)
  then obtain bs where r: "ring K False bs t" using poll_prefix_inv(2) [OF p(1) K inv]
    by (auto simp: audio_inv_def split: option.splits)
  then have b: "buffers t = Some bs" by (simp add: ring_def)
  have m: "m = (if \<exists>b \<in> set (take (nbfrags t) bs). b_sem b > 0 then POLL_WRITABLE else 0)"
    using p b by (auto simp: smdk2410_audio_poll_def Let_def split: if_splits prod.splits)
  define n where "n = c - c mod 4"
  have n: "0 < n" "whole_samples (audio_channels t) n"
  proof -
    show "0 < n" using c by (simp add: n_def)
    have "4 dvd n" unfolding n_def by (simp add: minus_mod_eq_mult_div)
    moreover from this have "even n" by presburger
    ultimately show "whole_samples (audio_channels t) n" by (simp add: whole_samples_def)
  qed
  obtain res where wl: "write_loop K True ([] # sched) a n 0 t = Some (res, v)"
    and res: "r = (case res of Inl e \<Rightarrow> e | Inr (q, a') \<Rightarrow> if a' - a \<noteq> 0 then int (a' - a) else q)"
    using w b by (auto simp: smdk2410_audio_write_def n_def split: option.splits sum.splits)
  show ?thesis
  proof (cases "b_sem (bs ! buf_idx t) > 0")
    case True
    have "r \<noteq> -11" using first_chunk [OF wl r n True f] res by auto
    then show ?thesis using m True ring_writable [OF r] by simp
  next
    case False
    then have "res = Inr (-11, a)" using wl r n(1) by (auto simp: down_sem_def)
    then have "r = -11" using res by simp
    moreover have "\<not> (\<exists>b \<in> set (take (nbfrags t) bs). b_sem b > 0)" using False ring_writable [OF r] by blast
    ultimately show ?thesis using m by simp
  qed
qed

text \<open>With both fragments of the ring queued, neither poll nor write finds room.\<close>

lemma demo_full:
  "map_option (\<lambda>(r, s). case smdk2410_audio_poll demo_kernel True s of (m, t) \<Rightarrow>
      (r, dma_fifo (khist s), dma_fifo (khist t), m \<noteq> -12,
       map_option fst (smdk2410_audio_write demo_kernel O_WRONLY True [[]] 100 20 t)))
     (smdk2410_audio_write demo_kernel O_WRONLY False [[], []] 100 32 demo_stream) = Some (32, True, True, True, Some (-11))"
  by code_simp

theorem poll_means_write_witness:
  "\<exists>s t v. smdk2410_audio_write demo_kernel O_WRONLY False [[], []] 100 32 demo_stream = Some (32, s) \<and>
     smdk2410_audio_poll demo_kernel True s = (0, t) \<and>
     smdk2410_audio_write demo_kernel O_WRONLY True [[]] 100 20 t = Some (-11, v)"
proof -
  obtain r s where w0: "smdk2410_audio_write demo_kernel O_WRONLY False [[], []] 100 32 demo_stream = Some (r, s)"
    using demo_full by (cases "smdk2410_audio_write demo_kernel O_WRONLY False [[], []] 100 32 demo_stream") auto
  obtain m t where p: "smdk2410_audio_poll demo_kernel True s = (m, t)" by (metis surj_pair)
  have "r = 32" using demo_full unfolding w0 by (simp add: p)
  with w0 have s: "smdk2410_audio_write demo_kernel O_WRONLY False [[], []] 100 32 demo_stream = Some (32, s)" by simp
  have e: "dma_fifo (khist s)" "dma_fifo (khist t)" "m \<noteq> -12"
    "map_option fst (smdk2410_audio_write demo_kernel O_WRONLY True [[]] 100 20 t) = Some (-11)"
    using demo_full unfolding s by (simp_all add: p)
  then obtain v where w: "smdk2410_audio_write demo_kernel O_WRONLY True [[]] 100 20 t = Some (-11, v)" by auto
  have "audio_inv demo_kernel s" using write_keeps_inv [OF demo_kernel_ok demo_stream_inv e(1) s] .
  from poll_means_write [OF demo_kernel_ok this e(2) p e(3) w] have "m = 0" by simp
  then show ?thesis using s p w by blast
qed

section \<open>The space left\<close>

definition frag_free :: "audio_buf \<Rightarrow> int" where
  "frag_free b = (if b_sem b > 0 \<and> b_size b = 0 then 1 else 0)"

definition bytes_free :: "nat \<Rightarrow> audio_buf \<Rightarrow> int" where
  "bytes_free fs b = (if b_sem b > 0 then int fs - b_size b else 0)"

lemma ospace_fold:
  "\<forall>b \<in> set bs. 0 \<le> b_size b \<and> b_size b \<le> int fs \<Longrightarrow> 0 \<le> y \<Longrightarrow> y + int (length bs * fs) < 2147483648 \<Longrightarrow>
     fold (ospace_step fs) bs (x, y) = (x + sum_list (map frag_free bs), y + sum_list (map (bytes_free fs) bs))"
proof (induction bs arbitrary: x y)
  case (Cons b bs)
  have y: "y + int fs + int (length bs * fs) < 2147483648" using Cons.prems(3) by (simp add: algebra_simps)
  have b: "0 \<le> b_size b" "b_size b \<le> int fs" using Cons.prems(1) by simp_all
  have st: "ospace_step fs b (x, y) = (x + frag_free b, y + bytes_free fs b)"
  proof -
    have "s32 (y + (int fs - b_size b)) = y + (int fs - b_size b)"
      by (rule s32_id) (use Cons.prems(2) y b of_nat_0_le_iff [of "length bs * fs"] in linarith)+
    then show ?thesis by (simp add: ospace_step_def frag_free_def bytes_free_def)
  qed
  have "0 \<le> bytes_free fs b" "bytes_free fs b \<le> int fs" using Cons.prems(1) by (auto simp: bytes_free_def)
  then show ?case
    using Cons.IH [of "y + bytes_free fs b" "x + frag_free b"] Cons.prems(1,2) y
    unfolding fold.simps comp_def st by simp
qed simp

lemma sum_but_one:
  assumes "k < (n :: nat)"
  shows "(\<Sum>i = 0..<n. (if P i then d else 0) - (if i = k then e else 0)) = int (card {i. i < n \<and> P i}) * d - (e :: int)"
proof -
  have "(\<Sum>i = 0..<n. if P i then d else 0) = (\<Sum>i \<in> {i. i < n \<and> P i}. d)"
    by (rule sum.mono_neutral_cong_right) auto
  then show ?thesis using assms by (simp add: sum_subtractf)
qed

lemma ring_free_card:
  assumes r: "ring K False bs s"
  shows "card {i. i < nbfrags s \<and> i \<notin> set (pend_frags s)} = nbfrags s - length (pending (khist s))"
proof -
  have le: "length (pending (khist s)) \<le> nbfrags s" and
    sl: "pend_frags s = slots (nbfrags s) (buf_idx s) (length (pending (khist s)))"
    using r by (auto simp: ring_defs)
  have "{i. i < nbfrags s \<and> i \<notin> set (pend_frags s)} = {0..<nbfrags s} - set (pend_frags s)" by auto
  moreover have "card (set (pend_frags s)) = length (pending (khist s))"
    using distinct_slots [OF le, of "buf_idx s"] by (simp add: sl distinct_card)
  moreover have "set (pend_frags s) \<subseteq> {0..<nbfrags s}" using pend_frags_less [OF r] by auto
  ultimately show ?thesis by (simp add: card_Diff_subset)
qed

lemma ring_ospace:
  assumes r: "ring K False bs s" and small: "nbfrags s * fragsize s < 2147483648"
  shows "ospace s = Some (int (nbfrags s - length (pending (khist s))) - (if partial s = [] then 0 else 1),
    int ((nbfrags s - length (pending (khist s))) * fragsize s) - int (length (partial s)))"
proof -
  define n where "n = nbfrags s - length (pending (khist s))"
  define z where "z = b_size (bs ! buf_idx s)"
  have b: "buffers s = Some bs" and len: "length bs = nbfrags s" and idx: "buf_idx s < nbfrags s"
    and size: "\<And>i. i < nbfrags s \<Longrightarrow> b_size (bs ! i) = (if i = buf_idx s then z else 0)"
    and z: "0 \<le> z" "z < int (fragsize s)" "buf_idx s \<in> set (pend_frags s) \<Longrightarrow> z = 0"
    and sem: "\<And>i. i < nbfrags s \<Longrightarrow> (b_sem (bs ! i) > 0) = (i \<notin> set (pend_frags s))"
    using r by (auto simp: ring_defs z_def)
  have part: "length (partial s) = nat z" "(partial s = []) = (z = 0)"
    using ring_partial [OF r] z(1) by (auto simp: z_def [symmetric] peek_def)
  have "sum_list (map frag_free bs) = (\<Sum>i = 0..<nbfrags s. frag_free (bs ! i))"
    using len by (simp add: sum_list_sum_nth)
  also have "\<dots> = (\<Sum>i = 0..<nbfrags s. (if i \<notin> set (pend_frags s) then 1 else 0) -
      (if i = buf_idx s then if z = 0 then 0 else 1 else 0))"
    using size sem z(3) by (intro sum.cong) (auto simp: frag_free_def)
  finally have fr: "sum_list (map frag_free bs) = int n - (if z = 0 then 0 else 1)"
    unfolding sum_but_one [OF idx] ring_free_card [OF r] by (simp add: n_def)
  have "sum_list (map (bytes_free (fragsize s)) bs) = (\<Sum>i = 0..<nbfrags s. bytes_free (fragsize s) (bs ! i))"
    using len by (simp add: sum_list_sum_nth)
  also have "\<dots> = (\<Sum>i = 0..<nbfrags s. (if i \<notin> set (pend_frags s) then int (fragsize s) else 0) -
      (if i = buf_idx s then z else 0))"
    using size sem z(3) by (intro sum.cong) (auto simp: bytes_free_def)
  finally have bf: "sum_list (map (bytes_free (fragsize s)) bs) = int n * int (fragsize s) - z"
    unfolding sum_but_one [OF idx] ring_free_card [OF r] by (simp add: n_def)
  have "\<forall>b \<in> set bs. 0 \<le> b_size b \<and> b_size b \<le> int (fragsize s)"
    using size len z by (auto simp: in_set_conv_nth)
  moreover have "0 + int (length bs * fragsize s) < 2147483648"
    using small len by (metis add_0 of_nat_less_iff of_nat_numeral)
  ultimately
  have "fold (ospace_step (fragsize s)) bs (0, 0) = (int n - (if z = 0 then 0 else 1), int n * int (fragsize s) - z)"
    using ospace_fold [of bs "fragsize s" 0 0] by (simp add: fr bf)
  then show ?thesis
    using b idx len part z(1) by (simp add: ospace_def n_def [symmetric] take_all)
qed

text \<open>
  What \<open>GETOSPACE\<close> reports is the room in the ring: the free fragments that are empty, and the
  bytes until the ring is full, which is the capacity less what is queued and what is partly filled.
\<close>
theorem getospace_exact:
  assumes inv: "audio_inv K s" and b: "buffers s \<noteq> None" and small: "nbfrags s * fragsize s < 2147483648"
  shows "smdk2410_audio_ioctl K shl psr pclk n acc sched SNDCTL_DSP_GETOSPACE \<lparr>a_val = v, a_fault = False\<rparr> s =
    (let free = nbfrags s - length (pending (khist s))
     in Some (0, [int free - (if partial s = [] then 0 else 1), int (nbfrags s), int (fragsize s),
       int (free * fragsize s) - int (length (partial s))], s))"
proof -
  obtain bs where "ring K False bs s" using inv b by (auto simp: audio_inv_def split: option.splits)
  from ring_ospace [OF this small] show ?thesis by (simp add: smdk2410_audio_ioctl_def Let_def)
qed

theorem getospace_exact_witness:
  "\<exists>s. demo_run = Some (20, s) \<and>
     smdk2410_audio_ioctl demo_kernel demo_shl demo_psr 50000000 0 O_WRONLY [] SNDCTL_DSP_GETOSPACE
       \<lparr>a_val = 0, a_fault = False\<rparr> s = Some (0, [0, 2, 16, 12], s)"
proof -
  obtain s where s: "demo_run = Some (20, s)" "dsp_reach demo_kernel demo_shl demo_psr 50000000 s" "dma_fifo (khist s)"
    "buffers s \<noteq> None" "pending (khist s) = [(0, 0, 16)]" "nbfrags s = 2" "fragsize s = 16"
    by (rule demo_run_ok)
  have inv: "audio_inv demo_kernel s" using reach_inv [OF s(2) demo_kernel_ok demo_shl_ok s(3)] by blast
  have "map_option (\<lambda>(r, s). length (partial s)) demo_run = Some 4" by code_simp
  then have "length (partial s) = 4" unfolding s(1) by simp
  moreover from this have "partial s \<noteq> []" by auto
  ultimately show ?thesis using getospace_exact [OF inv s(4)] s(1,5-7)
    by (intro exI [of _ s]) (simp add: Let_def)
qed

text \<open>
  \<open>RESET\<close> by a writer frees the buffers but leaves their number: the next \<open>GETOSPACE\<close> reads
  through the null pointer, until a write or a poll has set the ring up again.
\<close>
theorem reset_then_getospace:
  assumes inv: "audio_inv K s" and b: "buffers s \<noteq> None"
    and rs: "smdk2410_audio_ioctl K shl psr pclk n O_WRONLY sched SNDCTL_DSP_RESET u s = Some (r, out, t)"
  shows "r = 0 \<and> buffers t = None \<and> live (khist t) = {#} \<and>
    smdk2410_audio_ioctl K shl psr pclk n acc sched SNDCTL_DSP_GETOSPACE \<lparr>a_val = v, a_fault = False\<rparr> t = None"
proof -
  have t: "r = 0" "t = audio_clear_buf s" using rs by (simp_all add: smdk2410_audio_ioctl_def Let_def)
  have "nbfrags s \<noteq> 0" using inv b by (auto simp: audio_inv_def ring_defs split: option.splits)
  moreover have "nbfrags t = nbfrags s"
    by (simp add: t(2) audio_clear_buf_def free_masters_eq Let_def split: option.splits)
  ultimately show ?thesis using clear_inv [OF inv] t
    by (simp add: smdk2410_audio_ioctl_def ospace_def Let_def)
qed

theorem reset_then_getospace_witness:
  "\<exists>s t. demo_run = Some (20, s) \<and>
     smdk2410_audio_ioctl demo_kernel demo_shl demo_psr 50000000 0 O_WRONLY [] SNDCTL_DSP_RESET
       \<lparr>a_val = 0, a_fault = False\<rparr> s = Some (0, [], t) \<and>
     smdk2410_audio_ioctl demo_kernel demo_shl demo_psr 50000000 0 O_WRONLY [] SNDCTL_DSP_GETOSPACE
       \<lparr>a_val = 0, a_fault = False\<rparr> t = None"
proof -
  obtain s where s: "demo_run = Some (20, s)" "dsp_reach demo_kernel demo_shl demo_psr 50000000 s" "dma_fifo (khist s)"
    "buffers s \<noteq> None"
    by (rule demo_run_ok)
  have inv: "audio_inv demo_kernel s" using reach_inv [OF s(2) demo_kernel_ok demo_shl_ok s(3)] by blast
  have rs: "smdk2410_audio_ioctl demo_kernel demo_shl demo_psr 50000000 0 O_WRONLY [] SNDCTL_DSP_RESET
       \<lparr>a_val = 0, a_fault = False\<rparr> s = Some (0, [], audio_clear_buf s)"
    by (simp add: smdk2410_audio_ioctl_def Let_def)
  from reset_then_getospace [OF inv s(4) rs] rs s(1) show ?thesis by blast
qed

end
