(* ===== verification/Touch.thy ===== *)
theory Touch
  imports Mmio
begin

text \<open>
  The touch panel driver, \<open>EXP19/driver/digi.c\<close> (board \<open>MX1_ADS_BOARD\<close>, \<open>QT_IPAQ\<close> events): the
  samples over SPI, the event ring, the interrupt, its tasklet and the sampling timer, and the
  device's operations.  The panel, the converter and the pen line are the device parameter \<open>dev\<close>.
  \<open>dhist\<close> records what the driver asks of the kernel's interrupt, tasklet, timer and wait queue
  services, and the pen events it stores or loses.
\<close>

section \<open>State\<close>

datatype touch_reg =
    SPCON0 | SPSTA0 | SPPRE0 | SPTDAT0 | SPRDAT0
  | GPECON | GPEUP | GPGCON | GPGUP | GPGDAT | GPFDAT | SRCPND | INTPND | EINTPEND

record ts_event =
  ts_pressure :: int
  ts_x :: int
  ts_y :: int

datatype digi_ev =
    Irq_enable | Irq_disable | Tasklet_schedule | Timer_add | Timer_bug | Timer_mod | Timer_del
  | Wake_up | Sigio | Stored ts_event | Lost ts_event

record digi = "touch_reg machine" +
  ts_buffer :: "ts_event list"
  rptr :: nat
  wptr :: nat
  pen_timer :: bool
  pen_timer_status :: int
  digi_tasklet :: bool
  ts_fasync :: bool
  dhist :: "digi_ev list"

definition note_d :: "digi_ev \<Rightarrow> digi \<Rightarrow> digi" where
  "note_d e s = s\<lparr>dhist := dhist s @ [e]\<rparr>"

definition PENUP :: int where "PENUP = 0"
definition PENDOWN :: int where "PENDOWN = 0xffff"
definition TPNL_PEN_UPVALUE :: u32 where "TPNL_PEN_UPVALUE = - 999"
definition BUFLEN :: nat where "BUFLEN = 250"

section \<open>Samples\<close>

definition rmw :: "touch_reg dev \<Rightarrow> touch_reg \<Rightarrow> (u32 \<Rightarrow> u32) \<Rightarrow> digi \<Rightarrow> digi" where
  "rmw dev r f s = (let (v, s) = rd dev r s in wr r (f v) s)"

text \<open>At most 5000 looks at the status register, then the code goes on regardless.\<close>

fun spi_poll :: "touch_reg dev \<Rightarrow> nat \<Rightarrow> digi \<Rightarrow> digi" where
  "spi_poll dev 0 s = s"
| "spi_poll dev (Suc n) s =
     (let (v, s) = rd dev SPSTA0 s in if v AND 1 \<noteq> 0 then s else spi_poll dev n s)"

definition spi_poll_done :: "touch_reg dev \<Rightarrow> digi \<Rightarrow> digi" where
  "spi_poll_done dev s = spi_poll dev 5000 s"

definition spi_tx_data :: "touch_reg dev \<Rightarrow> u32 \<Rightarrow> digi \<Rightarrow> digi" where
  "spi_tx_data dev data s = spi_poll_done dev (wr SPTDAT0 data (spi_poll_done dev s))"

definition touch_pan_enable :: "touch_reg dev \<Rightarrow> digi \<Rightarrow> digi" where
  "touch_pan_enable dev = rmw dev GPGDAT (\<lambda>v. v AND NOT 0x0004)"

definition touch_pan_disable :: "touch_reg dev \<Rightarrow> digi \<Rightarrow> digi" where
  "touch_pan_disable dev = rmw dev GPGDAT (\<lambda>v. v OR 0x0004)"

definition touch_pan_read_dev :: "touch_reg dev \<Rightarrow> digi \<Rightarrow> (u32 \<times> u32) \<times> digi" where
  "touch_pan_read_dev dev s =
     (let s = touch_pan_enable dev s;
          (x_upper, s) = rd dev SPRDAT0 (spi_tx_data dev 0xD0 s);
          (x_upper, s) = rd dev SPRDAT0 (spi_tx_data dev 0x00 s);
          (x_lower, s) = rd dev SPRDAT0 (spi_tx_data dev 0x90 s);
          (y_upper, s) = rd dev SPRDAT0 (spi_tx_data dev 0x00 s);
          (y_lower, s) = rd dev SPRDAT0 (spi_tx_data dev 0x00 s);
          x = (push_bit 5 x_upper AND 0xFE0) OR (drop_bit 3 x_lower AND 0x1F);
          y = (push_bit 5 y_upper AND 0xFE0) OR (drop_bit 3 y_lower AND 0x1F)
      in ((x, y), touch_pan_disable dev s))"

definition off_panel :: "u32 \<times> u32 \<Rightarrow> bool" where
  "off_panel = (\<lambda>(x, y). x < 100 \<or> x > 5000 \<or> y < 100 \<or> y > 5000)"

definition touch_pan_read_data :: "touch_reg dev \<Rightarrow> digi \<Rightarrow> (u32 \<times> u32) \<times> digi" where
  "touch_pan_read_data dev s =
     (let (p0, s) = touch_pan_read_dev dev s
      in if off_panel p0 then ((TPNL_PEN_UPVALUE, TPNL_PEN_UPVALUE), s)
         else let (p1, s) = touch_pan_read_dev dev s
              in if off_panel p1 then ((TPNL_PEN_UPVALUE, TPNL_PEN_UPVALUE), s)
                 else ((drop_bit 1 (fst p0 + fst p1), drop_bit 1 (snd p0 + snd p1)), s))"

text \<open>\<open>while (newX == TPNL_PEN_UPVALUE && maxDelay <= n)\<close>: at most \<open>k\<close> more tries.\<close>

fun read_retry :: "touch_reg dev \<Rightarrow> nat \<Rightarrow> (u32 \<times> u32) \<times> digi \<Rightarrow> (u32 \<times> u32) \<times> digi" where
  "read_retry dev 0 p = p"
| "read_retry dev (Suc k) p =
     (if fst (fst p) = TPNL_PEN_UPVALUE then read_retry dev k (touch_pan_read_data dev (snd p)) else p)"

section \<open>The event ring\<close>

definition NODATA :: "digi \<Rightarrow> bool" where
  "NODATA s \<longleftrightarrow> rptr s = wptr s"

definition GETNEXTI :: "nat \<Rightarrow> nat" where
  "GETNEXTI i = (if i = BUFLEN - 1 then 0 else i + 1)"

definition DSIZE :: "digi \<Rightarrow> nat" where
  "DSIZE s = (if wptr s < rptr s then BUFLEN - rptr s else wptr s - rptr s)"

text \<open>The fields are \<open>unsigned short\<close>.\<close>

definition pen_event :: "u32 \<Rightarrow> u32 \<Rightarrow> int \<Rightarrow> ts_event" where
  "pen_event x y flag = \<lparr>ts_pressure = u16 flag, ts_x = u16 (uint x), ts_y = u16 (uint y)\<rparr>"

definition add_x_y :: "u32 \<Rightarrow> u32 \<Rightarrow> int \<Rightarrow> digi \<Rightarrow> digi" where
  "add_x_y x y flag s =
     (let e = pen_event x y flag in
      if GETNEXTI (wptr s) = rptr s then note_d (Lost e) s
      else note_d (Stored e) (s\<lparr>ts_buffer := (ts_buffer s)[wptr s := e], wptr := GETNEXTI (wptr s)\<rparr>))"

text \<open>\<open>get_data\<close>: the index of the event, \<open>None\<close> for the null pointer.\<close>

definition get_data :: "digi \<Rightarrow> nat option \<times> digi" where
  "get_data s = (if NODATA s then (None, s) else (Some (rptr s), s\<lparr>rptr := GETNEXTI (rptr s)\<rparr>))"

function block_loop :: "nat \<Rightarrow> nat option \<Rightarrow> nat \<Rightarrow> digi \<Rightarrow> nat \<times> digi" where
  "block_loop r p cnt s =
     (if p \<noteq> None \<and> cnt < r then
        if rptr s = 0 then (cnt, s)
        else let (p, s) = get_data s in block_loop r p (cnt + 1) s
      else (cnt, s))"
  by auto
termination by (relation "measure (\<lambda>(r, p, cnt, s). r - cnt)") auto

declare block_loop.simps [simp del]

text \<open>The screen coordinates of an event with a pen down; the arithmetic is \<open>int\<close>.\<close>

definition calibrate :: "ts_event \<Rightarrow> ts_event" where
  "calibrate e =
     (if ts_pressure e \<noteq> 0
      then e\<lparr>ts_x := u16 (10 + (ts_x e - 420) * (230 - 10) sdiv (3658 - 430)),
             ts_y := u16 (10 + (ts_y e - 330) * (320 - 10) sdiv (3800 - 330))\<rparr>
      else e)"

text \<open>
  \<open>get_block\<close>: \<open>(bytes, index of the block)\<close>.  \<open>size\<close> is compared unsigned; an event has 8 bytes.
\<close>

definition get_block :: "nat \<Rightarrow> digi \<Rightarrow> nat \<times> nat \<times> digi" where
  "get_block sz s =
     (if NODATA s then (0, 0, s)
      else let r = (if DSIZE s * 8 \<ge> sz then sz div 8 else DSIZE s);
          (p, s) = get_data s;
          (cnt, s) = block_loop r p 1 s;
          i = the p;
          s = s\<lparr>ts_buffer := (ts_buffer s)[i := calibrate (ts_buffer s ! i)]\<rparr>
      in (cnt * 8, i, s))"

section \<open>The device\<close>

definition check_device :: "int \<Rightarrow> int \<Rightarrow> int \<Rightarrow> int" where
  "check_device g_digi_major major minor = (if major \<noteq> g_digi_major then -1 else if minor < 0x14 then minor else -1)"

text \<open>
  The result and the events copied to the caller; \<open>nonBlocking\<close> is the constant 1, \<open>node\<close> the result
  of \<open>check_device\<close>.
\<close>

definition digi_read :: "int \<Rightarrow> nat \<Rightarrow> digi \<Rightarrow> int \<times> ts_event list \<times> digi" where
  "digi_read node sz s =
     (if node = -1 then (-19, [], s)
      else if \<not> NODATA s then
        (case get_block sz s of (cnt, i, s) \<Rightarrow>
           if cnt > sz then (-22, [], s)
           else (int cnt, take (cnt div 8) (drop i (ts_buffer s)), s))
      else (-22, [], s))"

text \<open>\<open>POLLIN | POLLRDNORM\<close>\<close>

definition digi_poll :: "int \<Rightarrow> digi \<Rightarrow> int" where
  "digi_poll node s = (if node = -1 then -19 else if NODATA s then 0 else 0x41)"

definition digi_ioctl :: "int \<Rightarrow> int" where
  "digi_ioctl node = (if node = -1 then -19 else -5)"

text \<open>\<open>helper\<close> is what \<open>fasync_helper\<close> answers; \<open>on\<close> asks for signals.\<close>

definition digi_fasync :: "int \<Rightarrow> int \<Rightarrow> bool \<Rightarrow> digi \<Rightarrow> int \<times> digi" where
  "digi_fasync node helper on s = (if node = -1 then (-19, s) else (helper, if helper < 0 then s else s\<lparr>ts_fasync := on\<rparr>))"

section \<open>Interrupt, tasklet and timer\<close>

definition touch_pan_enable_inter :: "digi \<Rightarrow> digi" where
  "touch_pan_enable_inter = note_d Irq_enable"

definition touch_pan_disable_inter :: "digi \<Rightarrow> digi" where
  "touch_pan_disable_inter = note_d Irq_disable"

definition touch_pan_clear_inter :: "touch_reg dev \<Rightarrow> digi \<Rightarrow> digi" where
  "touch_pan_clear_inter dev s =
     rmw dev EINTPEND (\<lambda>v. v AND NOT 0x00800000)
       (rmw dev INTPND (\<lambda>v. v) (rmw dev SRCPND (\<lambda>v. v AND NOT 0x0000000c) s))"

definition pen_is_up :: "u32 \<Rightarrow> bool" where
  "pen_is_up v \<longleftrightarrow> v AND 0x00000002 \<noteq> 0"

definition digi_isr :: "touch_reg dev \<Rightarrow> digi \<Rightarrow> digi" where
  "digi_isr dev s =
     (let (v, s) = rd dev GPFDAT s in
      if \<not> pen_is_up v
      then (note_d Tasklet_schedule (touch_pan_disable_inter (touch_pan_clear_inter dev s)))\<lparr>digi_tasklet := True\<rparr>
      else s)"

text \<open>\<open>add_timer\<close> of a timer that is running is refused by the kernel as a bug.\<close>

definition add_timer :: "digi \<Rightarrow> digi" where
  "add_timer s = (if pen_timer s then note_d Timer_bug s else note_d Timer_add (s\<lparr>pen_timer := True\<rparr>))"

definition mod_timer :: "digi \<Rightarrow> digi" where
  "mod_timer s = note_d Timer_mod (s\<lparr>pen_timer := True\<rparr>)"

definition del_timer :: "digi \<Rightarrow> digi" where
  "del_timer s = note_d Timer_del (s\<lparr>pen_timer := False\<rparr>)"

definition digi_tasklet_action :: "touch_reg dev \<Rightarrow> digi \<Rightarrow> digi" where
  "digi_tasklet_action dev s =
     (let (v, s) = rd dev GPFDAT s in
      if pen_is_up v then touch_pan_enable_inter s
      else let ((newX, newY), s) = read_retry dev 4 (touch_pan_read_data dev s) in
        if newX = TPNL_PEN_UPVALUE then touch_pan_enable_inter s
        else (add_timer (note_d Wake_up (add_x_y newX newY PENDOWN s)))\<lparr>pen_timer_status := 1\<rparr>)"

definition tell_reader :: "digi \<Rightarrow> digi" where
  "tell_reader s = (let s = note_d Wake_up s in if ts_fasync s then note_d Sigio s else s)"

definition sam_pen_up :: "touch_reg dev \<Rightarrow> digi \<Rightarrow> digi" where
  "sam_pen_up dev s =
     (let s = add_x_y 0 0 PENUP s;
          s = (if \<not> NODATA s then tell_reader s else s);
          s = del_timer (s\<lparr>pen_timer_status := 0\<rparr>)
      in touch_pan_clear_inter dev (touch_pan_enable_inter s))"

text \<open>The timer's function; before the first try of the loop \<open>newX\<close> is \<open>TPNL_PEN_UPVALUE\<close>.\<close>

definition digi_sam_callback :: "touch_reg dev \<Rightarrow> digi \<Rightarrow> digi" where
  "digi_sam_callback dev s =
     (let (v, s) = rd dev GPFDAT (mod_timer s) in
      if pen_is_up v then sam_pen_up dev s
      else let ((newX, newY), s) = read_retry dev 101 ((TPNL_PEN_UPVALUE, 0), s) in
        if newX = TPNL_PEN_UPVALUE then sam_pen_up dev s
        else tell_reader (add_x_y newX newY PENDOWN s))"

definition digi_open :: "touch_reg dev \<Rightarrow> digi \<Rightarrow> int \<times> digi" where
  "digi_open dev s =
     (0, (touch_pan_enable_inter (touch_pan_clear_inter dev (touch_pan_disable_inter s)))\<lparr>pen_timer_status := 0\<rparr>)"

definition digi_release :: "int \<Rightarrow> int \<Rightarrow> digi \<Rightarrow> int \<times> digi" where
  "digi_release node helper s = (0, touch_pan_disable_inter (snd (digi_fasync node helper False s)))"

section \<open>Initialisation\<close>

definition spi_init :: "touch_reg dev \<Rightarrow> digi \<Rightarrow> digi" where
  "spi_init dev s =
     (let s = wr SPCON0 0x18 (wr SPPRE0 0xff s);
          s = ((wr SPTDAT0 0xff) ^^ 10) s;
          s = rmw dev GPECON (\<lambda>v. v OR 0x0a800000) s;
          s = rmw dev GPECON (\<lambda>v. v AND NOT 0x05400000) s
      in rmw dev GPEUP (\<lambda>v. v OR 0x3800) s)"

definition touch_pan_init :: "touch_reg dev \<Rightarrow> digi \<Rightarrow> digi" where
  "touch_pan_init dev s =
     (let s = rmw dev GPGCON (\<lambda>v. v OR 0x00000010) s;
          s = rmw dev GPGCON (\<lambda>v. v AND NOT 0x00000020) s;
          s = rmw dev GPGUP (\<lambda>v. v AND NOT 0x0004) s
      in rmw dev GPGDAT (\<lambda>v. v OR 0x0004) s)"

definition init_buf :: "bool \<Rightarrow> ts_event list \<Rightarrow> digi \<Rightarrow> int \<times> digi" where
  "init_buf vmalloc_ok mem s = (if \<not> vmalloc_ok then (-1, s) else (1, s\<lparr>ts_buffer := mem, rptr := 0, wptr := 0\<rparr>))"

text \<open>
  \<open>digi_init\<close>: \<open>reg\<close>, \<open>irq\<close> are the answers of the registration of the device and of the interrupt,
  \<open>mem\<close> is the memory \<open>vmalloc\<close> gives.
\<close>

definition digi_init :: "touch_reg dev \<Rightarrow> int \<Rightarrow> int \<Rightarrow> bool \<Rightarrow> ts_event list \<Rightarrow> digi \<Rightarrow> int \<times> digi" where
  "digi_init dev reg irq vmalloc_ok mem s =
     (if reg < 0 then (-19, s)
      else if irq \<noteq> 0 then (-1, s)
      else let (b, s) = init_buf vmalloc_ok mem s in
        if b = -1 then (-1, note_d Irq_disable s)
        else let s = touch_pan_init dev (touch_pan_disable_inter (spi_init dev s));
                 s = fold (spi_tx_data dev) [0xd000, 0, 0x9000, 0, 0xD000, 0, 0x9000, 0, 0, 0, 0, 0, 0, 0]
                       (touch_pan_enable dev s)
             in (0, touch_pan_disable dev s))"

definition digi_cleanup :: "digi \<Rightarrow> digi" where
  "digi_cleanup s = (note_d Irq_disable s)\<lparr>digi_tasklet := False\<rparr>"

end
