(* ===== verification/Touch_Ring.thy ===== *)
theory Touch_Ring
  imports Touch
begin

text \<open>
  The event ring of the touch panel driver implements a bounded queue: storing appends, or loses
  the event when 249 are waiting; reading takes a block from the front.
\<close>

section \<open>The queue\<close>

definition ring_ok :: "digi \<Rightarrow> bool" where
  "ring_ok s \<longleftrightarrow> rptr s < BUFLEN \<and> wptr s < BUFLEN \<and> length (ts_buffer s) = BUFLEN + 1"

definition waiting :: "digi \<Rightarrow> nat" where
  "waiting s = (wptr s + BUFLEN - rptr s) mod BUFLEN"

definition events :: "digi \<Rightarrow> ts_event list" where
  "events s = map (\<lambda>i. ts_buffer s ! ((rptr s + i) mod BUFLEN)) [0..<waiting s]"

lemma length_events [simp]: "length (events s) = waiting s"
  by (simp add: events_def)

lemma wrap_once: "(i :: nat) < 2 * n \<Longrightarrow> i mod n = (if i < n then i else i - n)"
  using mod_less [of "i - n" n] le_mod_geq [of n i] by auto

lemma waiting_cases:
  assumes "ring_ok s"
  shows "waiting s = (if rptr s \<le> wptr s then wptr s - rptr s else wptr s + BUFLEN - rptr s)"
  using assms wrap_once [of "wptr s + BUFLEN - rptr s" BUFLEN] unfolding waiting_def ring_ok_def by auto

lemma waiting_le: "ring_ok s \<Longrightarrow> waiting s < BUFLEN"
  by (simp add: waiting_def BUFLEN_def)

lemma NODATA_events: "ring_ok s \<Longrightarrow> NODATA s \<longleftrightarrow> events s = []"
  by (auto simp: NODATA_def events_def waiting_cases ring_ok_def BUFLEN_def)

lemma GETNEXTI_mod: "i < BUFLEN \<Longrightarrow> GETNEXTI i = (i + 1) mod BUFLEN"
  by (auto simp: GETNEXTI_def BUFLEN_def)

lemma GETNEXTI_less: "i < BUFLEN \<Longrightarrow> GETNEXTI i < BUFLEN"
  by (auto simp: GETNEXTI_def BUFLEN_def)

lemma full_iff: "ring_ok s \<Longrightarrow> GETNEXTI (wptr s) = rptr s \<longleftrightarrow> waiting s = BUFLEN - 1"
  by (auto simp: waiting_cases ring_ok_def GETNEXTI_def BUFLEN_def)

lemma waiting_next:
  assumes r: "ring_ok s" and n: "waiting s \<noteq> BUFLEN - 1"
  shows "waiting (s\<lparr>ts_buffer := b, wptr := GETNEXTI (wptr s)\<rparr>) = Suc (waiting s)"
proof -
  define t where "t = s\<lparr>ts_buffer := ts_buffer s, wptr := GETNEXTI (wptr s)\<rparr>"
  have f: "rptr t = rptr s" "wptr t = GETNEXTI (wptr s)" "waiting (s\<lparr>ts_buffer := b, wptr := GETNEXTI (wptr s)\<rparr>) = waiting t"
    by (simp_all add: t_def waiting_def)
  have "ring_ok t" using r by (simp add: ring_ok_def t_def GETNEXTI_less)
  from waiting_cases [OF this] waiting_cases [OF r] n r show ?thesis
    unfolding f by (auto simp: ring_ok_def GETNEXTI_def BUFLEN_def split: if_splits)
qed

lemma wptr_index: "ring_ok s \<Longrightarrow> (rptr s + waiting s) mod BUFLEN = wptr s"
  using wrap_once [of "rptr s + waiting s" BUFLEN] waiting_cases [of s] by (auto simp: ring_ok_def)

lemma index_not_wptr: "ring_ok s \<Longrightarrow> i < waiting s \<Longrightarrow> (rptr s + i) mod BUFLEN \<noteq> wptr s"
  using wrap_once [of "rptr s + i" BUFLEN] waiting_cases [of s] by (auto simp: ring_ok_def split: if_splits)

section \<open>Storing\<close>

lemma note_d_simps [simp]:
  "ring_ok (note_d e s) = ring_ok s" "events (note_d e s) = events s" "dhist (note_d e s) = dhist s @ [e]"
  "waiting (note_d e s) = waiting s" "NODATA (note_d e s) = NODATA s"
  by (simp_all add: ring_ok_def events_def waiting_def note_d_def NODATA_def)

lemma add_x_y_cases:
  assumes r: "ring_ok s"
  shows "if waiting s = BUFLEN - 1 then add_x_y x y flag s = note_d (Lost (pen_event x y flag)) s
    else ring_ok (add_x_y x y flag s) \<and> events (add_x_y x y flag s) = events s @ [pen_event x y flag] \<and>
      dhist (add_x_y x y flag s) = dhist s @ [Stored (pen_event x y flag)]"
proof (cases "waiting s = BUFLEN - 1")
  case True
  then show ?thesis using full_iff [OF r] by (simp add: add_x_y_def Let_def)
next
  case False
  define e where "e = pen_event x y flag"
  define t where "t = s\<lparr>ts_buffer := (ts_buffer s)[wptr s := e], wptr := GETNEXTI (wptr s)\<rparr>"
  have a: "add_x_y x y flag s = note_d (Stored e) t"
    using False full_iff [OF r] by (simp add: add_x_y_def Let_def e_def t_def)
  have w: "waiting t = Suc (waiting s)" unfolding t_def by (rule waiting_next [OF r False])
  have wl: "wptr s < length (ts_buffer s)" using r by (simp add: ring_ok_def)
  have "events t = events s @ [e]"
  proof (rule nth_equalityI)
    fix i
    assume "i < length (events t)"
    then have i: "i < Suc (waiting s)" by (simp add: w)
    have "ts_buffer t ! ((rptr s + i) mod BUFLEN) = (events s @ [e]) ! i"
    proof (cases "i = waiting s")
      case True
      then show ?thesis using wl by (simp add: wptr_index [OF r] t_def nth_append)
    next
      case False
      then have "i < waiting s" using i by simp
      then show ?thesis using index_not_wptr [OF r, of i] by (simp add: t_def nth_append events_def)
    qed
    moreover have "events t ! i = ts_buffer t ! ((rptr s + i) mod BUFLEN)"
      unfolding events_def using i by (simp add: w del: upt_Suc) (simp add: t_def)
    ultimately show "events t ! i = (events s @ [e]) ! i" by simp
  qed (simp add: w)
  moreover have "ring_ok t" using r by (simp add: ring_ok_def t_def GETNEXTI_less)
  moreover have "dhist t = dhist s" by (simp add: t_def)
  ultimately show ?thesis using False unfolding e_def [symmetric] a by simp
qed

section \<open>Reading\<close>

text \<open>The loop takes events until it has \<open>r\<close>, or until the read pointer is back at the start.\<close>

lemma block_loop_eq:
  assumes "ring_ok s" "cnt \<le> r" "r - cnt \<le> DSIZE s" "rptr s \<noteq> 0 \<or> r = cnt" "p \<noteq> None"
  shows "block_loop r p cnt s = (r, s\<lparr>rptr := (rptr s + (r - cnt)) mod BUFLEN\<rparr>)"
  using assms
proof (induction "r - cnt" arbitrary: p cnt s)
  case 0
  then have "r = cnt" by simp
  then show ?case using "0.prems" by (simp add: block_loop.simps ring_ok_def)
next
  case (Suc n)
  define t where "t = s\<lparr>rptr := GETNEXTI (rptr s)\<rparr>"
  have d: "0 < DSIZE s" "rptr s \<noteq> 0" "cnt < r" using Suc.hyps(2) Suc.prems by auto
  then have nd: "\<not> NODATA s" by (auto simp: NODATA_def DSIZE_def split: if_splits)
  have lt: "rptr s < BUFLEN" "wptr s < BUFLEN" using Suc.prems(1) by (simp_all add: ring_ok_def)
  have n: "n = r - (cnt + 1)" using Suc.hyps(2) by simp
  have ok: "ring_ok t" using Suc.prems(1) by (simp add: ring_ok_def t_def GETNEXTI_less)
  have end0: "rptr t \<noteq> 0 \<or> r = cnt + 1"
    using Suc.prems(3) d lt by (auto simp: t_def GETNEXTI_def DSIZE_def split: if_splits)
  have sz: "r - (cnt + 1) \<le> DSIZE t"
  proof (cases "r = cnt + 1")
    case False
    then show ?thesis using Suc.prems(3) end0 d lt by (auto simp: t_def GETNEXTI_def DSIZE_def split: if_splits)
  qed simp
  have "block_loop r p cnt s = block_loop r (Some (rptr s)) (cnt + 1) t"
    using d nd Suc.prems(5) by (subst block_loop.simps) (simp add: get_data_def t_def)
  also have "\<dots> = (r, t\<lparr>rptr := (rptr t + (r - (cnt + 1))) mod BUFLEN\<rparr>)"
    using Suc.hyps(1) [OF n ok _ sz end0] d by simp
  also have "(rptr t + (r - (cnt + 1))) mod BUFLEN = (rptr s + (r - cnt)) mod BUFLEN"
  proof -
    have "r - cnt = 1 + (r - (cnt + 1))" using d by simp
    moreover have "rptr t = (rptr s + 1) mod BUFLEN" using lt by (simp add: t_def GETNEXTI_mod)
    ultimately show ?thesis using mod_add_left_eq [of "rptr s + 1" BUFLEN "r - (cnt + 1)"] by (simp only: add.assoc)
  qed
  finally show ?case by (simp add: t_def)
qed

lemma DSIZE_le: "ring_ok s \<Longrightarrow> DSIZE s \<le> waiting s"
  using waiting_cases [of s] by (auto simp: DSIZE_def ring_ok_def)

lemma DSIZE_pos: "ring_ok s \<Longrightarrow> \<not> NODATA s \<Longrightarrow> 0 < DSIZE s"
  by (auto simp: DSIZE_def NODATA_def ring_ok_def)

text \<open>How many events a read of \<open>sz\<close> bytes takes: the next block, or what fits, but at least one.\<close>

definition taken :: "nat \<Rightarrow> digi \<Rightarrow> nat" where
  "taken sz s = max 1 (min (sz div 8) (DSIZE s))"

lemma get_block_eq:
  assumes r: "ring_ok s" and d: "\<not> NODATA s"
  shows "get_block sz s = (taken sz s * 8, rptr s,
    s\<lparr>rptr := (rptr s + taken sz s) mod BUFLEN, ts_buffer := (ts_buffer s)[rptr s := calibrate (ts_buffer s ! rptr s)]\<rparr>)"
proof -
  define q where "q = (if DSIZE s * 8 \<ge> sz then sz div 8 else DSIZE s)"
  have q: "q = min (sz div 8) (DSIZE s)" by (auto simp: q_def min_def)
  define t where "t = s\<lparr>rptr := GETNEXTI (rptr s)\<rparr>"
  have lt: "rptr s < BUFLEN" "wptr s < BUFLEN" using r by (simp_all add: ring_ok_def)
  have pos: "0 < DSIZE s" by (rule DSIZE_pos [OF r d])
  have bl: "block_loop q (Some (rptr s)) 1 t = (max 1 q, s\<lparr>rptr := (rptr s + max 1 q) mod BUFLEN\<rparr>)"
  proof (cases "q \<le> 1")
    case True
    then have "block_loop q (Some (rptr s)) 1 t = (1, t)" by (subst block_loop.simps) simp
    moreover have "max 1 q = 1" using True by simp
    ultimately show ?thesis using lt by (simp add: t_def GETNEXTI_mod)
  next
    case False
    then have q2: "2 \<le> q" by linarith
    have q3: "q \<le> DSIZE s" by (simp add: q)
    have "ring_ok t" using r by (simp add: ring_ok_def t_def GETNEXTI_less)
    moreover have "rptr t \<noteq> 0" "q - 1 \<le> DSIZE t"
      using q2 q3 lt by (auto simp: t_def GETNEXTI_def DSIZE_def split: if_splits)
    ultimately have "block_loop q (Some (rptr s)) 1 t = (q, t\<lparr>rptr := (rptr t + (q - 1)) mod BUFLEN\<rparr>)"
      using q2 by (intro block_loop_eq) auto
    moreover have "(rptr t + (q - 1)) mod BUFLEN = (rptr s + q) mod BUFLEN"
    proof -
      have "rptr s + 1 + (q - 1) = rptr s + q" using q2 by simp
      moreover have "rptr t = (rptr s + 1) mod BUFLEN" using lt by (simp add: t_def GETNEXTI_mod)
      ultimately show ?thesis using mod_add_left_eq [of "rptr s + 1" BUFLEN "q - 1"] by (simp only:)
    qed
    moreover have "max 1 q = q" using q2 by simp
    ultimately show ?thesis by (simp add: t_def)
  qed
  show ?thesis
    using d bl unfolding get_block_def q_def [symmetric] taken_def q [symmetric]
    by (simp add: get_data_def t_def Let_def)
qed

lemma taken_le: "ring_ok s \<Longrightarrow> \<not> NODATA s \<Longrightarrow> taken sz s \<le> DSIZE s"
  using DSIZE_pos [of s] by (simp add: taken_def)

lemma block_events:
  assumes r: "ring_ok s" and k: "k \<le> DSIZE s"
  shows "take k (drop (rptr s) (ts_buffer s)) = take k (events s)"
proof (rule nth_equalityI)
  have w: "k \<le> waiting s" using DSIZE_le [OF r] k by simp
  have b: "rptr s + k \<le> BUFLEN" using r k by (auto simp: DSIZE_def ring_ok_def split: if_splits)
  show "length (take k (drop (rptr s) (ts_buffer s))) = length (take k (events s))"
    using r w b by (simp add: ring_ok_def)
  fix i
  assume "i < length (take k (drop (rptr s) (ts_buffer s)))"
  then have i: "i < k" by simp
  then show "take k (drop (rptr s) (ts_buffer s)) ! i = take k (events s) ! i"
    using r w b by (simp add: ring_ok_def events_def)
qed

lemma drop_events:
  fixes e :: ts_event
  assumes r: "ring_ok s" and k: "k \<le> DSIZE s" "0 < k"
  defines "t \<equiv> s\<lparr>rptr := (rptr s + k) mod BUFLEN, ts_buffer := (ts_buffer s)[rptr s := e]\<rparr>"
  shows "ring_ok t" "events t = drop k (events s)"
proof -
  have w: "k \<le> waiting s" using DSIZE_le [OF r] k by simp
  have lt: "rptr s < BUFLEN" "wptr s < BUFLEN" using r by (simp_all add: ring_ok_def)
  show ok: "ring_ok t" using r by (simp add: t_def ring_ok_def BUFLEN_def)
  have b: "rptr s + k \<le> BUFLEN" using r k by (auto simp: DSIZE_def ring_ok_def split: if_splits)
  have rt: "rptr t = (if rptr s + k < BUFLEN then rptr s + k else 0)" "wptr t = wptr s"
    using b by (auto simp: t_def)
  have wt: "waiting t = waiting s - k"
    using waiting_cases [OF r] waiting_cases [OF ok] w lt b k unfolding rt by (auto simp: DSIZE_def split: if_splits)
  show "events t = drop k (events s)"
  proof (rule nth_equalityI)
    fix i
    assume "i < length (events t)"
    then have i: "i < waiting s - k" by (simp add: wt)
    have idx: "(rptr t + i) mod BUFLEN = (rptr s + (k + i)) mod BUFLEN"
      by (simp add: t_def mod_add_left_eq add.assoc)
    have ne: "(rptr s + (k + i)) mod BUFLEN \<noteq> rptr s"
      using wrap_once [of "rptr s + (k + i)" BUFLEN] i k(2) lt waiting_le [OF r] by (auto split: if_splits)
    have "events t ! i = ts_buffer t ! ((rptr t + i) mod BUFLEN)" using i by (simp add: events_def wt)
    also have "\<dots> = ts_buffer s ! ((rptr s + (k + i)) mod BUFLEN)" unfolding idx using ne by (simp add: t_def)
    also have "\<dots> = drop k (events s) ! i" using i by (simp add: events_def)
    finally show "events t ! i = drop k (events s) ! i" .
  qed (simp add: wt)
qed

lemma digi_read_block:
  assumes r: "ring_ok s" and d: "events s \<noteq> []" and sz: "8 \<le> sz" and node: "node \<noteq> -1"
    and rd: "digi_read node sz s = (res, es, t)"
  shows "ring_ok t \<and> res = 8 * int (taken sz s) \<and> es = take (taken sz s) (calibrate (hd (events s)) # tl (events s)) \<and>
    events t = drop (taken sz s) (events s) \<and> 0 < taken sz s \<and> dhist t = dhist s"
proof -
  define k where "k = taken sz s"
  have nd: "\<not> NODATA s" using d NODATA_events [OF r] by simp
  have k: "k \<le> DSIZE s" "0 < k" "k * 8 \<le> sz"
    using taken_le [OF r nd, of sz] sz DSIZE_pos [OF r nd] by (auto simp: k_def taken_def min_def max_def)
  define e where "e = calibrate (ts_buffer s ! rptr s)"
  define b where "b = (ts_buffer s)[rptr s := e]"
  define u where "u = s\<lparr>rptr := (rptr s + k) mod BUFLEN, ts_buffer := b\<rparr>"
  have lt: "rptr s < length (ts_buffer s)" using r by (simp add: ring_ok_def)
  have "digi_read node sz s = (int (k * 8), take k (drop (rptr s) b), u)"
    using node nd k(3) get_block_eq [OF r nd, of sz] unfolding e_def [symmetric] k_def [symmetric] b_def [symmetric] u_def [symmetric]
    by (simp add: digi_read_def) (simp add: u_def)
  then have t: "res = int (k * 8)" "es = take k (drop (rptr s) b)" "t = u" using rd by simp_all
  have bl: "take k (drop (rptr s) (ts_buffer s)) = take k (events s)" by (rule block_events [OF r k(1)])
  have "drop (rptr s) b = e # drop (Suc (rptr s)) (ts_buffer s)"
    using lt by (simp add: b_def drop_update_swap Cons_nth_drop_Suc [symmetric])
  moreover have "ts_buffer s ! rptr s # drop (Suc (rptr s)) (ts_buffer s) = drop (rptr s) (ts_buffer s)"
    using lt by (rule Cons_nth_drop_Suc)
  moreover obtain j where j: "k = Suc j" using k(2) by (cases k) auto
  ultimately have es: "es = e # take j (drop (Suc (rptr s)) (ts_buffer s))"
    and tk: "ts_buffer s ! rptr s # take j (drop (Suc (rptr s)) (ts_buffer s)) = take k (events s)"
    using t(2) bl by (simp_all add: j) (metis take_Suc_Cons)
  obtain x xs where ev: "events s = x # xs" using d by (cases "events s") auto
  have "es = take k (calibrate (hd (events s)) # tl (events s))" using es tk by (simp add: ev j e_def)
  moreover have "ring_ok u" "events u = drop k (events s)"
    using drop_events [OF r k(1,2), of e] by (simp_all add: u_def b_def)
  ultimately show ?thesis using t k(2) unfolding k_def [symmetric] by (simp add: u_def)
qed

text \<open>
  A read of at least one event's size takes a block from the front of the queue: as many events as
  fit the size and lie before the end of the buffer memory, at least one, in the order they were stored,
  and leaves the rest.  Only the first event of the block is turned into screen coordinates; the others
  come as raw converter values.
\<close>
theorem touch_read_block:
  assumes r: "ring_ok s" and d: "events s \<noteq> []" and sz: "8 \<le> sz" and node: "node \<noteq> -1"
    and rd: "digi_read node sz s = (res, es, t)"
  shows "ring_ok t \<and> res = 8 * int (taken sz s) \<and> es = take (taken sz s) (calibrate (hd (events s)) # tl (events s)) \<and>
    events t = drop (taken sz s) (events s) \<and> 0 < taken sz s \<and> taken sz s = min (sz div 8) (DSIZE s)"
proof -
  have "1 \<le> min (sz div 8) (DSIZE s)"
    using sz DSIZE_pos [OF r] d NODATA_events [OF r] by (auto simp: min_def Suc_le_eq div_greater_zero_iff)
  then have "taken sz s = min (sz div 8) (DSIZE s)" by (simp add: taken_def)
  then show ?thesis using digi_read_block [OF assms] by simp
qed

definition digi_zero :: digi where
  "digi_zero = \<lparr>bus = [], ts_buffer = replicate 251 \<lparr>ts_pressure = 0, ts_x = 0, ts_y = 0\<rparr>, rptr = 0, wptr = 0,
     pen_timer = False, pen_timer_status = 0, digi_tasklet = False, ts_fasync = False, dhist = []\<rparr>"

lemma digi_zero_ok: "ring_ok digi_zero" "events digi_zero = []" "waiting digi_zero = 0"
  by (simp_all add: digi_zero_def ring_ok_def BUFLEN_def events_def waiting_def)

definition two_events :: digi where
  "two_events = add_x_y 2000 2000 PENDOWN (add_x_y 420 330 PENDOWN digi_zero)"

lemma two_events_ok:
  "ring_ok two_events" "events two_events = [pen_event 420 330 PENDOWN, pen_event 2000 2000 PENDOWN]"
proof -
  define u where "u = add_x_y 420 330 PENDOWN digi_zero"
  have u: "ring_ok u" "events u = [pen_event 420 330 PENDOWN]"
    using add_x_y_cases [OF digi_zero_ok(1), of 420 330 PENDOWN] digi_zero_ok by (simp_all add: u_def BUFLEN_def)
  moreover from this have "waiting u = 1" using length_events [of u] by simp
  ultimately show "ring_ok two_events" "events two_events = [pen_event 420 330 PENDOWN, pen_event 2000 2000 PENDOWN]"
    using add_x_y_cases [OF u(1), of 2000 2000 PENDOWN] by (simp_all add: two_events_def u_def [symmetric] BUFLEN_def)
qed

theorem touch_read_block_witness:
  "\<exists>t. digi_read 0 16 two_events =
     (16, [\<lparr>ts_pressure = 65535, ts_x = 10, ts_y = 10\<rparr>, \<lparr>ts_pressure = 65535, ts_x = 2000, ts_y = 2000\<rparr>], t)"
proof -
  obtain res es t where rd: "digi_read 0 16 two_events = (res, es, t)" by (metis prod_cases3)
  have "waiting two_events = 2" using length_events [of two_events] by (simp add: two_events_ok)
  moreover have "wptr two_events = 2" "rptr two_events = 0"
    by (simp_all add: two_events_def add_x_y_def digi_zero_def GETNEXTI_def BUFLEN_def note_d_def Let_def)
  ultimately have "taken 16 two_events = 2" by (simp add: taken_def DSIZE_def)
  then have "res = 16" "es = [calibrate (pen_event 420 330 PENDOWN), pen_event 2000 2000 PENDOWN]"
    using touch_read_block [OF two_events_ok(1) _ _ _ rd] by (simp_all add: two_events_ok(2))
  then show ?thesis using rd by (simp add: calibrate_def pen_event_def PENDOWN_def u16_def)
qed

text \<open>
  A read with a buffer smaller than an event fails with \<open>-EINVAL\<close>, and the oldest event is gone.
\<close>
theorem short_read_loses_event:
  assumes r: "ring_ok s" and d: "events s \<noteq> []" and sz: "sz < 8" and node: "node \<noteq> -1"
  shows "\<exists>t. digi_read node sz s = (-22, [], t) \<and> ring_ok t \<and> events t = tl (events s)"
proof -
  have nd: "\<not> NODATA s" using d NODATA_events [OF r] by simp
  have k: "taken sz s = 1" using sz by (simp add: taken_def)
  have pos: "1 \<le> DSIZE s" using DSIZE_pos [OF r nd] by simp
  show ?thesis
    using node nd sz drop_events [OF r pos, of "calibrate (ts_buffer s ! rptr s)"] get_block_eq [OF r nd, of sz]
    by (simp add: digi_read_def k drop_Suc)
qed

theorem short_read_loses_event_witness:
  "\<exists>t. digi_read 0 4 two_events = (-22, [], t) \<and> events t = [pen_event 2000 2000 PENDOWN]"
  using short_read_loses_event [OF two_events_ok(1), of 4 0] by (auto simp: two_events_ok(2))

text \<open>Converter values near the edge of the panel give coordinates that wrap around.\<close>

lemma calibrate_wraps:
  "ts_x (calibrate \<lparr>ts_pressure = 65535, ts_x = 200, ts_y = 2000\<rparr>) = 65532"
  by (simp add: calibrate_def u16_def signed_divide_int_def)

section \<open>A bounded queue\<close>

text \<open>
  What the interrupt side and the reader rely on: storing appends while there is room, reading takes a
  block from the front.  \<open>seen\<close> is what a reader gets for a block of stored events.
\<close>

datatype ('a, 'n) fifo_op = Put 'a | Get 'n

locale bounded_fifo =
  fixes ok :: "'s \<Rightarrow> bool" and content :: "'s \<Rightarrow> 'e list" and room :: nat and enc :: "'a \<Rightarrow> 'e"
    and put :: "'a \<Rightarrow> 's \<Rightarrow> 's" and get :: "'n \<Rightarrow> 's \<Rightarrow> 'e list \<times> 's" and seen :: "'e list \<Rightarrow> 'e list"
    and most :: "'n \<Rightarrow> nat"
  assumes put_ok: "ok s \<Longrightarrow> ok (put a s) \<and>
      content (put a s) = (if length (content s) < room then content s @ [enc a] else content s)"
    and get_ok: "ok s \<Longrightarrow> get n s = (es, t) \<Longrightarrow>
      ok t \<and> (\<exists>k. k \<le> most n \<and> (content s \<noteq> [] \<longrightarrow> 0 < k) \<and> es = seen (take k (content s)) \<and> content t = drop k (content s))"

text \<open>A run of stores and reads: the blocks read, the events accepted, the end state.\<close>

fun fifo_run :: "('s \<Rightarrow> 'e list) \<Rightarrow> nat \<Rightarrow> ('a \<Rightarrow> 'e) \<Rightarrow> ('a \<Rightarrow> 's \<Rightarrow> 's) \<Rightarrow> ('n \<Rightarrow> 's \<Rightarrow> 'e list \<times> 's)
    \<Rightarrow> ('a, 'n) fifo_op list \<Rightarrow> 's \<Rightarrow> 'e list list \<times> 'e list \<times> 's" where
  "fifo_run content room enc put get [] s = ([], [], s)"
| "fifo_run content room enc put get (Put a # ops) s =
     (let (out, acc, t) = fifo_run content room enc put get ops (put a s)
      in (out, if length (content s) < room then enc a # acc else acc, t))"
| "fifo_run content room enc put get (Get n # ops) s =
     (let (es, s) = get n s; (out, acc, t) = fifo_run content room enc put get ops s in (es # out, acc, t))"

text \<open>The block the first operation reads from a queue that is not empty.\<close>

fun first_block :: "('n \<Rightarrow> nat) \<Rightarrow> ('a, 'n) fifo_op list \<Rightarrow> 'e list list \<Rightarrow> bool" where
  "first_block most (Get n # ops) (b # bs) = (b \<noteq> [] \<and> length b \<le> most n)"
| "first_block most (Get n # ops) [] = False"
| "first_block most ops bs = True"

context bounded_fifo begin

lemma in_order:
  assumes "fifo_run content room enc put get ops s = (out, acc, t)" "ok s"
  shows "ok t \<and> (\<exists>blocks. content s @ acc = concat blocks @ content t \<and> out = map seen blocks \<and>
    (content s \<noteq> [] \<longrightarrow> first_block most ops blocks))"
  using assms
proof (induction ops arbitrary: s out acc)
  case (Cons p ops)
  show ?case
  proof (cases p)
    case (Put a)
    obtain acc' where run: "fifo_run content room enc put get ops (put a s) = (out, acc', t)"
      and acc: "acc = (if length (content s) < room then enc a # acc' else acc')"
      using Cons.prems(1) Put by (auto simp: Let_def split: prod.splits)
    from Cons.IH [OF run] put_ok [OF Cons.prems(2)] acc Put show ?thesis by (auto split: if_splits)
  next
    case (Get n)
    obtain es u out' where g: "get n s = (es, u)" and run: "fifo_run content room enc put get ops u = (out', acc, t)"
      and out: "out = es # out'"
      using Cons.prems(1) Get by (auto simp: Let_def split: prod.splits)
    obtain k where k: "ok u" "es = seen (take k (content s))" "content u = drop k (content s)"
      "k \<le> most n" "content s \<noteq> [] \<longrightarrow> 0 < k"
      using get_ok [OF Cons.prems(2) g] by blast
    obtain blocks where f: "ok t" "content u @ acc = concat blocks @ content t" "out' = map seen blocks"
      using Cons.IH [OF run k(1)] by blast
    have "content s @ acc = concat (take k (content s) # blocks) @ content t"
      using k(3) f(2) append_take_drop_id [of k "content s"] by (metis append_assoc concat.simps(2))
    moreover have "out = map seen (take k (content s) # blocks)"
      using k(2) f(3) by (simp add: out)
    moreover have "content s \<noteq> [] \<longrightarrow> first_block most (p # ops) (take k (content s) # blocks)"
      using k(4,5) by (auto simp: Get min_def)
    ultimately show ?thesis using f(1) by blast
  qed
qed simp

end

text \<open>The reader gets the first event of a block in screen coordinates and the others raw.\<close>

fun first_calibrated :: "ts_event list \<Rightarrow> ts_event list" where
  "first_calibrated [] = []"
| "first_calibrated (e # es) = calibrate e # es"

definition touch_put :: "u32 \<times> u32 \<times> int \<Rightarrow> digi \<Rightarrow> digi" where
  "touch_put = (\<lambda>(x, y, flag). add_x_y x y flag)"

definition touch_enc :: "u32 \<times> u32 \<times> int \<Rightarrow> ts_event" where
  "touch_enc = (\<lambda>(x, y, flag). pen_event x y flag)"

text \<open>A read of \<open>n\<close> bytes more than an event has.\<close>

definition touch_get :: "nat \<Rightarrow> digi \<Rightarrow> ts_event list \<times> digi" where
  "touch_get n s = snd (digi_read 0 (8 + n) s)"

lemma first_calibrated_take: "0 < k \<Longrightarrow> first_calibrated (take k es) = take k (case es of [] \<Rightarrow> [] | e # es \<Rightarrow> calibrate e # es)"
  by (cases k; cases es) simp_all

interpretation tf: bounded_fifo ring_ok events "BUFLEN - 1" touch_enc touch_put touch_get first_calibrated "\<lambda>n. (8 + n) div 8"
proof
  fix s a
  assume r: "ring_ok s"
  show "ring_ok (touch_put a s) \<and>
      events (touch_put a s) = (if length (events s) < BUFLEN - 1 then events s @ [touch_enc a] else events s)"
    using add_x_y_cases [OF r, of "fst a" "fst (snd a)" "snd (snd a)"] waiting_le [OF r] r
    by (cases a) (auto simp: touch_put_def touch_enc_def split: if_splits)
next
  fix s n es t
  assume r: "ring_ok s" and g: "touch_get n s = (es, t)"
  obtain res where rd: "digi_read 0 (8 + n) s = (res, es, t)" using g by (cases "digi_read 0 (8 + n) s") (simp add: touch_get_def)
  show "ring_ok t \<and> (\<exists>k. k \<le> (8 + n) div 8 \<and> (events s \<noteq> [] \<longrightarrow> 0 < k) \<and>
      es = first_calibrated (take k (events s)) \<and> events t = drop k (events s))"
  proof (cases "events s = []")
    case True
    then have "es = []" "t = s" using rd NODATA_events [OF r] by (simp_all add: digi_read_def)
    then show ?thesis using r True by (auto intro: exI [of _ 0])
  next
    case False
    from digi_read_block [OF r False _ _ rd] have b: "ring_ok t" "0 < taken (8 + n) s"
      "es = take (taken (8 + n) s) (calibrate (hd (events s)) # tl (events s))" "events t = drop (taken (8 + n) s) (events s)"
      by simp_all
    obtain x xs where ev: "events s = x # xs" using False by (cases "events s") auto
    have "es = first_calibrated (take (taken (8 + n) s) (events s))"
      using b(2,3) by (simp add: first_calibrated_take ev)
    moreover have "taken (8 + n) s \<le> (8 + n) div 8" by (simp add: taken_def)
    ultimately show ?thesis using b by blast
  qed
qed

text \<open>
  C20: Over any sequence of stores and reads of at least an event's size, the events come out in the order
  they went in: the blocks that were read, followed by the events still waiting, are the
  events that were waiting at first followed by those stored while fewer than 249 were waiting.  Of
  every block the reader gets exactly these events, the first in screen coordinates and the others
  with the raw values of the converter; and a read from a queue that is not empty gets at least one event, and
  no more than fit its size.
\<close>
theorem touch_events_in_order:
  assumes "fifo_run events (BUFLEN - 1) touch_enc touch_put touch_get ops s = (out, acc, t)" "ring_ok s"
  shows "ring_ok t \<and> (\<exists>blocks. events s @ acc = concat blocks @ events t \<and> out = map first_calibrated blocks \<and>
    (events s \<noteq> [] \<longrightarrow> first_block (\<lambda>n. (8 + n) div 8) ops blocks))"
  by (rule tf.in_order [OF assms])

theorem touch_events_in_order_witness:
  "\<exists>out acc t blocks. fifo_run events (BUFLEN - 1) touch_enc touch_put touch_get [Put (420, 330, PENDOWN), Put (0, 0, PENUP), Get 0] digi_zero
     = (out, acc, t) \<and> acc = concat blocks @ events t \<and> out = map first_calibrated blocks"
proof -
  obtain out acc t where run: "fifo_run events (BUFLEN - 1) touch_enc touch_put touch_get
      [Put (420, 330, PENDOWN), Put (0, 0, PENUP), Get 0] digi_zero = (out, acc, t)" by (metis prod_cases3)
  from touch_events_in_order [OF run digi_zero_ok(1)] run show ?thesis by (simp add: digi_zero_ok)
qed

end
