(* ===== verification/Touch_Run.thy ===== *)
theory Touch_Run
  imports Touch_Ring
begin

text \<open>
  The touch panel driver in operation: the samples it accepts, and the protocol between the pen
  interrupt, its tasklet, the sampling timer, the reader and the kernel.
\<close>

section \<open>What touches the bus only\<close>

lemma more_bus [simp]:
  "machine.more (emit e s) = machine.more s" "machine.more (wr r v s) = machine.more s"
  by (simp_all add: emit_def wr_def)

lemma more_rmw [simp]: "machine.more (rmw dev r f s) = machine.more s"
  by (simp add: rmw_def rd_def)

lemma more_spi_poll [simp]: "machine.more (spi_poll dev n s) = machine.more s"
  by (induction dev n s rule: spi_poll.induct) (auto simp: rd_def)

lemma more_spi [simp]:
  "machine.more (spi_poll_done dev s) = machine.more s" "machine.more (spi_tx_data dev d s) = machine.more s"
  "machine.more (touch_pan_enable dev s) = machine.more s" "machine.more (touch_pan_disable dev s) = machine.more s"
  "machine.more (touch_pan_clear_inter dev s) = machine.more s" "machine.more (touch_pan_init dev s) = machine.more s"
  by (simp_all add: spi_poll_done_def spi_tx_data_def touch_pan_enable_def touch_pan_disable_def
      touch_pan_clear_inter_def touch_pan_init_def Let_def)

lemma more_wr_pow [simp]: "machine.more ((wr r v ^^ n) s) = machine.more s"
  by (induction n arbitrary: s) simp_all

lemma more_spi_init [simp]: "machine.more (spi_init dev s) = machine.more s"
  by (simp add: spi_init_def Let_def)

lemma more_tx_all [simp]: "machine.more (fold (spi_tx_data dev) ds s) = machine.more s"
  by (induction ds arbitrary: s) simp_all

lemma more_read_dev: "touch_pan_read_dev dev s = (p, t) \<Longrightarrow> machine.more t = machine.more s"
  by (auto simp: touch_pan_read_dev_def rd_def Let_def)

lemma more_read_data: "touch_pan_read_data dev s = (p, t) \<Longrightarrow> machine.more t = machine.more s"
  by (auto simp: touch_pan_read_data_def Let_def split: prod.splits if_splits dest!: more_read_dev)

lemma more_retry: "read_retry dev k (p, s) = (q, t) \<Longrightarrow> machine.more t = machine.more s"
proof (induction k arbitrary: p s)
  case (Suc k)
  show ?case
  proof (cases "fst p = TPNL_PEN_UPVALUE")
    case True
    obtain p' s' where r: "touch_pan_read_data dev s = (p', s')" by (metis surj_pair)
    then show ?thesis using Suc True more_read_data [OF r] by simp
  next
    case False
    then show ?thesis using Suc.prems by simp
  qed
qed simp

text \<open>The fields of the driver's own state.\<close>

lemma fields_of_more:
  fixes s t :: digi
  assumes "machine.more t = machine.more s"
  shows "ts_buffer t = ts_buffer s" "rptr t = rptr s" "wptr t = wptr s" "pen_timer t = pen_timer s"
    "pen_timer_status t = pen_timer_status s" "digi_tasklet t = digi_tasklet s" "ts_fasync t = ts_fasync s"
    "dhist t = dhist s"
  using assms by (cases s, cases t, simp)+

section \<open>Samples\<close>

lemma twelve_bits: "((a :: u32) AND 0xFE0) OR (b AND 0x1F) \<le> 0xFFF"
proof -
  have "(a AND 0xFE0) OR (b AND 0x1F) = ((a AND 0xFE0) OR (b AND 0x1F)) AND 0xFFF"
    by (simp add: bit.conj_disj_distrib2 and.assoc)
  then show ?thesis by (metis word_and_le1)
qed

lemma read_dev_range:
  assumes "touch_pan_read_dev dev s = ((x, y), t)"
  shows "x \<le> 0xFFF" "y \<le> 0xFFF"
  using assms twelve_bits by (auto simp: touch_pan_read_dev_def rd_def Let_def)

lemma half_sum:
  fixes a b :: u32
  assumes "100 \<le> a" "a \<le> 0xFFF" "100 \<le> b" "b \<le> 0xFFF"
  shows "100 \<le> drop_bit 1 (a + b)" "drop_bit 1 (a + b) \<le> 0xFFF"
proof -
  have n: "100 \<le> unat a" "unat a \<le> 4095" "100 \<le> unat b" "unat b \<le> 4095"
    using assms by (simp_all add: word_le_nat_alt)
  then have "unat (a + b) = unat a + unat b" by (simp add: unat_word_ariths)
  then have "unat (drop_bit 1 (a + b)) = (unat a + unat b) div 2"
    by (simp add: drop_bit_eq_div unat_div)
  then show "100 \<le> drop_bit 1 (a + b)" "drop_bit 1 (a + b) \<le> 0xFFF"
    using n by (simp_all add: word_le_nat_alt)
qed

text \<open>
  A sample is either \<open>TPNL_PEN_UPVALUE\<close> for both coordinates or a pair of averages of two
  conversions, each between 100 and 4095 (so the upper limit 5000 of the code never applies); the
  call returns whatever the converter answers, and changes nothing but the bus.
\<close>
theorem sample_range:
  assumes "touch_pan_read_data dev s = ((x, y), t)"
  shows "machine.more t = machine.more s \<and>
    (x = TPNL_PEN_UPVALUE \<and> y = TPNL_PEN_UPVALUE \<or> 100 \<le> x \<and> x \<le> 4095 \<and> 100 \<le> y \<and> y \<le> 4095)"
proof -
  obtain x0 y0 u where u: "touch_pan_read_dev dev s = ((x0, y0), u)" by (metis surj_pair)
  obtain x1 y1 v where v: "touch_pan_read_dev dev u = ((x1, y1), v)" by (metis surj_pair)
  note rg = read_dev_range [OF u] read_dev_range [OF v]
  show ?thesis
  proof (cases "off_panel (x0, y0) \<or> off_panel (x1, y1)")
    case True
    then have "x = TPNL_PEN_UPVALUE \<and> y = TPNL_PEN_UPVALUE"
      using assms u v by (auto simp: touch_pan_read_data_def split: if_splits)
    then show ?thesis using more_read_data [OF assms] by simp
  next
    case False
    then have "x = drop_bit 1 (x0 + x1)" "y = drop_bit 1 (y0 + y1)"
      using assms u v by (auto simp: touch_pan_read_data_def)
    moreover have "100 \<le> x0" "100 \<le> x1" "100 \<le> y0" "100 \<le> y1" using False by (auto simp: off_panel_def not_less)
    ultimately show ?thesis using half_sum rg more_read_data [OF assms] by simp
  qed
qed

text \<open>A device that shows one value: the pen is down, the SPI ready, the converter gives 2345.\<close>

definition still_pen :: "touch_reg dev" where
  "still_pen h r = 0x49"

lemma still_poll: "spi_poll_done still_pen s = emit (Rd SPSTA0) s"
proof -
  have "spi_poll still_pen (Suc n) s = emit (Rd SPSTA0) s" for n by (simp add: still_pen_def rd_def)
  moreover have "(5000 :: nat) = Suc 4999" by simp
  ultimately show ?thesis by (simp only: spi_poll_done_def)
qed

lemma still_sample: "fst (touch_pan_read_data still_pen s) = (2345, 2345)"
proof -
  have r: "fst (touch_pan_read_dev still_pen u) = (2345, 2345)" for u
    by (simp add: touch_pan_read_dev_def rd_def still_pen_def Let_def)
  obtain u where u: "touch_pan_read_dev still_pen s = ((2345, 2345), u)" using r [of s] by (metis prod.collapse)
  obtain v where v: "touch_pan_read_dev still_pen u = ((2345, 2345), v)" using r [of u] by (metis prod.collapse)
  show ?thesis by (simp add: touch_pan_read_data_def u v off_panel_def)
qed

theorem sample_range_witness:
  "\<exists>t. touch_pan_read_data still_pen digi_zero = ((2345, 2345), t) \<and> machine.more t = machine.more digi_zero"
proof -
  obtain x y t where r: "touch_pan_read_data still_pen digi_zero = ((x, y), t)" by (metis surj_pair)
  then show ?thesis using still_sample [of digi_zero] sample_range [OF r] by simp
qed

section \<open>The protocol\<close>

text \<open>The pen events stored or lost, oldest first; a pen goes up only after it was down.\<close>

fun pen_flags :: "digi_ev list \<Rightarrow> int list" where
  "pen_flags [] = []"
| "pen_flags (Stored e # h) = ts_pressure e # pen_flags h"
| "pen_flags (Lost e # h) = ts_pressure e # pen_flags h"
| "pen_flags (_ # h) = pen_flags h"

lemma pen_flags_append [simp]: "pen_flags (h @ k) = pen_flags h @ pen_flags k"
  by (induction h rule: pen_flags.induct) auto

fun strokes :: "bool \<Rightarrow> int list \<Rightarrow> bool" where
  "strokes down [] = True"
| "strokes down (f # fs) = (if f = PENUP then down \<and> strokes False fs else strokes True fs)"

definition is_down :: "int list \<Rightarrow> bool" where
  "is_down fs \<longleftrightarrow> fs \<noteq> [] \<and> last fs \<noteq> PENUP"

lemma strokes_snoc:
  "strokes down (fs @ [f]) \<longleftrightarrow> strokes down fs \<and> (f = PENUP \<longrightarrow> (if fs = [] then down else last fs \<noteq> PENUP))"
  by (induction down fs rule: strokes.induct) auto

text \<open>The calls that mask (\<open>False\<close>) and unmask the interrupt line.\<close>

fun irq_calls :: "digi_ev list \<Rightarrow> bool list" where
  "irq_calls [] = []"
| "irq_calls (Irq_enable # h) = True # irq_calls h"
| "irq_calls (Irq_disable # h) = False # irq_calls h"
| "irq_calls (_ # h) = irq_calls h"

lemma irq_calls_append [simp]: "irq_calls (h @ k) = irq_calls h @ irq_calls k"
  by (induction h rule: irq_calls.induct) auto

definition masked_last :: "digi \<Rightarrow> bool" where
  "masked_last s \<longleftrightarrow> irq_calls (dhist s) \<noteq> [] \<and> \<not> last (irq_calls (dhist s))"

text \<open>
  One step.  \<open>unmasked\<close> is the kernel's rule when the line delivers, after a sequence of calls.  With
  \<open>anytime\<close> the device may be opened in any state, otherwise while no pen is being tracked.
\<close>

inductive digi_step :: "bool \<Rightarrow> (bool list \<Rightarrow> bool) \<Rightarrow> touch_reg dev \<Rightarrow> digi \<Rightarrow> digi \<Rightarrow> bool" for anytime unmasked dev where
  irq: "unmasked (irq_calls (dhist s)) \<Longrightarrow> digi_step anytime unmasked dev s (digi_isr dev s)"
| tasklet: "digi_tasklet s \<Longrightarrow> digi_step anytime unmasked dev s (digi_tasklet_action dev (s\<lparr>digi_tasklet := False\<rparr>))"
| timer: "pen_timer s \<Longrightarrow> digi_step anytime unmasked dev s (digi_sam_callback dev (s\<lparr>pen_timer := False\<rparr>))"
| reader: "digi_read node n s = (r, es, t) \<Longrightarrow> digi_step anytime unmasked dev s t"
| fasync: "digi_fasync node helper on s = (r, t) \<Longrightarrow> digi_step anytime unmasked dev s t"
| opened: "anytime \<or> \<not> pen_timer s \<and> \<not> digi_tasklet s \<Longrightarrow> digi_open dev s = (r, t) \<Longrightarrow> digi_step anytime unmasked dev s t"
| closed: "digi_release node helper s = (r, t) \<Longrightarrow> digi_step anytime unmasked dev s t"

inductive digi_reach :: "bool \<Rightarrow> (bool list \<Rightarrow> bool) \<Rightarrow> touch_reg dev \<Rightarrow> digi \<Rightarrow> bool" for anytime unmasked dev where
  loaded: "digi_init dev reg irq ok mem digi_zero = (0, s) \<Longrightarrow> length mem = 251 \<Longrightarrow> digi_reach anytime unmasked dev s"
| step: "digi_reach anytime unmasked dev s \<Longrightarrow> digi_step anytime unmasked dev s t \<Longrightarrow> digi_reach anytime unmasked dev t"

definition pen_protocol :: "digi \<Rightarrow> bool" where
  "pen_protocol s \<longleftrightarrow> ring_ok s \<and> strokes False (pen_flags (dhist s)) \<and>
     pen_timer s = is_down (pen_flags (dhist s)) \<and> pen_timer_status s = (if pen_timer s then 1 else 0) \<and>
     Timer_bug \<notin> set (dhist s) \<and> \<not> (pen_timer s \<and> digi_tasklet s) \<and> (pen_timer s \<or> digi_tasklet s \<longrightarrow> masked_last s)"

lemma ring_ok_more: "machine.more t = machine.more s \<Longrightarrow> ring_ok t = ring_ok s"
  using fields_of_more [of t s] by (simp add: ring_ok_def)

lemma pen_protocol_more: "machine.more t = machine.more s \<Longrightarrow> pen_protocol t = pen_protocol s"
  using fields_of_more [of t s] ring_ok_more [of t s] by (simp add: pen_protocol_def masked_last_def)

text \<open>What storing an event does to the state the protocol looks at.\<close>

lemma add_x_y_frame:
  assumes "ring_ok s"
  shows "ring_ok (add_x_y x y f s)" "pen_flags (dhist (add_x_y x y f s)) = pen_flags (dhist s) @ [u16 f]"
    "irq_calls (dhist (add_x_y x y f s)) = irq_calls (dhist s)" "Timer_bug \<in> set (dhist (add_x_y x y f s)) \<longleftrightarrow> Timer_bug \<in> set (dhist s)"
    "pen_timer (add_x_y x y f s) = pen_timer s" "digi_tasklet (add_x_y x y f s) = digi_tasklet s"
    "pen_timer_status (add_x_y x y f s) = pen_timer_status s"
proof -
  have "ring_ok (add_x_y x y f s) \<and> (dhist (add_x_y x y f s) = dhist s @ [Stored (pen_event x y f)] \<or>
      dhist (add_x_y x y f s) = dhist s @ [Lost (pen_event x y f)])"
    using add_x_y_cases [OF assms, of x y f] assms by (auto split: if_splits)
  then show "ring_ok (add_x_y x y f s)" "pen_flags (dhist (add_x_y x y f s)) = pen_flags (dhist s) @ [u16 f]"
    "irq_calls (dhist (add_x_y x y f s)) = irq_calls (dhist s)" "Timer_bug \<in> set (dhist (add_x_y x y f s)) \<longleftrightarrow> Timer_bug \<in> set (dhist s)"
    by (auto simp: pen_event_def)
qed (simp_all add: add_x_y_def note_d_def Let_def)

lemma note_fields [simp]:
  "pen_timer (note_d e s) = pen_timer s" "digi_tasklet (note_d e s) = digi_tasklet s"
  "pen_timer_status (note_d e s) = pen_timer_status s"
  by (simp_all add: note_d_def)

lemma ring_ok_upd [simp]:
  "ring_ok (s\<lparr>pen_timer := a\<rparr>) = ring_ok s" "ring_ok (s\<lparr>pen_timer_status := i\<rparr>) = ring_ok s"
  "ring_ok (s\<lparr>digi_tasklet := a\<rparr>) = ring_ok s" "ring_ok (s\<lparr>ts_fasync := a\<rparr>) = ring_ok s"
  by (simp_all add: ring_ok_def)

lemma note_upd [simp]:
  "note_d e (s\<lparr>pen_timer := a\<rparr>) = (note_d e s)\<lparr>pen_timer := a\<rparr>" "note_d e (s\<lparr>pen_timer_status := i\<rparr>) = (note_d e s)\<lparr>pen_timer_status := i\<rparr>"
  by (simp_all add: note_d_def)

text \<open>A masked line delivers nothing.\<close>

definition mask_works :: "(bool list \<Rightarrow> bool) \<Rightarrow> bool" where
  "mask_works unmasked \<longleftrightarrow> (\<forall>h. \<not> unmasked (h @ [False]))"

lemma masked_not_unmasked: "mask_works unmasked \<Longrightarrow> unmasked (irq_calls (dhist s)) \<Longrightarrow> \<not> masked_last s"
  unfolding mask_works_def masked_last_def by (metis append_butlast_last_id)

lemma isr_protocol:
  assumes m: "mask_works unmasked" "unmasked (irq_calls (dhist s))" and p: "pen_protocol s"
  shows "pen_protocol (digi_isr dev s)"
proof -
  define u where "u = emit (Rd GPFDAT) s"
  define v where "v = touch_pan_clear_inter dev u"
  have u: "pen_protocol u" "pen_protocol v" "dhist v = dhist s"
    using p pen_protocol_more [of u s] pen_protocol_more [of v s] fields_of_more(8) [of v s] by (simp_all add: u_def v_def)
  have idle: "\<not> pen_timer s" "\<not> digi_tasklet s" using masked_not_unmasked [OF m] p by (auto simp: pen_protocol_def)
  have "pen_timer v = pen_timer s" using fields_of_more(4) [of v s] by (simp add: v_def u_def)
  then have "pen_protocol ((note_d Tasklet_schedule (touch_pan_disable_inter v))\<lparr>digi_tasklet := True\<rparr>)"
    using u(2) idle by (simp add: pen_protocol_def touch_pan_disable_inter_def masked_last_def)
  then show ?thesis using u(1) by (simp add: digi_isr_def rd_def u_def [symmetric] v_def [symmetric] Let_def)
qed

lemma retry_more:
  assumes "read_retry dev k (touch_pan_read_data dev s) = (q, t)"
  shows "machine.more t = machine.more s"
proof -
  obtain p u where "touch_pan_read_data dev s = (p, u)" by (metis surj_pair)
  then show ?thesis using assms more_read_data [of dev s p u] more_retry [of dev k p u q t] by simp
qed

lemma tasklet_protocol:
  assumes t: "digi_tasklet s" and p: "pen_protocol s"
  shows "pen_protocol (digi_tasklet_action dev (s\<lparr>digi_tasklet := False\<rparr>))"
proof -
  define u where "u = emit (Rd GPFDAT) (s\<lparr>digi_tasklet := False\<rparr>)"
  obtain x y w where w: "read_retry dev 4 (touch_pan_read_data dev u) = ((x, y), w)" by (metis surj_pair)
  have mw: "machine.more w = machine.more (s\<lparr>digi_tasklet := False\<rparr>)"
    and mu: "machine.more u = machine.more (s\<lparr>digi_tasklet := False\<rparr>)" using retry_more [OF w] by (simp_all add: u_def)
  have en: "pen_protocol (touch_pan_enable_inter v)" if "machine.more v = machine.more (s\<lparr>digi_tasklet := False\<rparr>)" for v
    using fields_of_more [OF that] ring_ok_more [OF that] t p by (auto simp: pen_protocol_def touch_pan_enable_inter_def)
  have dn: "pen_protocol ((add_timer (note_d Wake_up (add_x_y x y PENDOWN w)))\<lparr>pen_timer_status := 1\<rparr>)"
  proof -
    have f: "ring_ok w" "\<not> pen_timer w" "\<not> digi_tasklet w" "dhist w = dhist s"
      using fields_of_more [OF mw] ring_ok_more [OF mw] t p by (auto simp: pen_protocol_def)
    then show ?thesis using p t add_x_y_frame [OF f(1), of x y PENDOWN]
      by (simp add: pen_protocol_def add_timer_def masked_last_def strokes_snoc is_down_def PENDOWN_def PENUP_def u16_def)
  qed
  show ?thesis
    using en [OF mu] en [OF mw] dn
    by (simp add: digi_tasklet_action_def rd_def u_def [symmetric] w Let_def)
qed

lemma tell_reader_frame [simp]:
  "ring_ok (tell_reader s) = ring_ok s" "pen_flags (dhist (tell_reader s)) = pen_flags (dhist s)"
  "irq_calls (dhist (tell_reader s)) = irq_calls (dhist s)" "Timer_bug \<in> set (dhist (tell_reader s)) \<longleftrightarrow> Timer_bug \<in> set (dhist s)"
  "pen_timer (tell_reader s) = pen_timer s" "digi_tasklet (tell_reader s) = digi_tasklet s"
  "pen_timer_status (tell_reader s) = pen_timer_status s"
  by (simp_all add: tell_reader_def Let_def)

lemma timer_protocol:
  assumes t: "pen_timer s" and p: "pen_protocol s"
  shows "pen_protocol (digi_sam_callback dev (s\<lparr>pen_timer := False\<rparr>))"
proof -
  define r where "r = mod_timer (s\<lparr>pen_timer := False\<rparr>)"
  define u where "u = emit (Rd GPFDAT) r"
  obtain x y w where w: "read_retry dev 101 ((TPNL_PEN_UPVALUE, 0), u) = ((x, y), w)" by (metis surj_pair)
  have mu: "machine.more u = machine.more r" and mw: "machine.more w = machine.more r"
    using more_retry [OF w] by (simp_all add: u_def)
  have r: "ring_ok r" "pen_timer r" "\<not> digi_tasklet r" "pen_timer_status r = 1" "pen_flags (dhist r) = pen_flags (dhist s)"
    "irq_calls (dhist r) = irq_calls (dhist s)" "Timer_bug \<notin> set (dhist r)"
    using p t by (simp_all add: r_def mod_timer_def pen_protocol_def)
  have up: "pen_protocol (sam_pen_up dev v)" if "machine.more v = machine.more r" for v
  proof -
    note f = fields_of_more [OF that]
    have ok: "ring_ok v" using ring_ok_more [OF that] r(1) by simp
    define a where "a = add_x_y 0 0 PENUP v"
    define b where "b = (if \<not> NODATA a then tell_reader a else a)"
    have b: "ring_ok b" "pen_flags (dhist b) = pen_flags (dhist s) @ [0]" "\<not> digi_tasklet b" "Timer_bug \<notin> set (dhist b)"
      using add_x_y_frame [OF ok, of 0 0 PENUP] r f unfolding b_def a_def by (simp_all add: u16_def PENUP_def)
    define c where "c = touch_pan_enable_inter (del_timer (b\<lparr>pen_timer_status := 0\<rparr>))"
    have "pen_protocol c"
      using b p t by (simp add: c_def del_timer_def touch_pan_enable_inter_def pen_protocol_def strokes_snoc is_down_def PENUP_def)
    moreover have "sam_pen_up dev v = touch_pan_clear_inter dev c"
      by (simp add: sam_pen_up_def a_def b_def c_def Let_def)
    ultimately show ?thesis using pen_protocol_more [of "touch_pan_clear_inter dev c" c] by simp
  qed
  have dn: "pen_protocol (tell_reader (add_x_y x y PENDOWN w))"
  proof -
    note f = fields_of_more [OF mw]
    have ok: "ring_ok w" using ring_ok_more [OF mw] r(1) by simp
    show ?thesis using add_x_y_frame [OF ok, of x y PENDOWN] r f p t
      by (simp add: pen_protocol_def masked_last_def strokes_snoc is_down_def PENDOWN_def PENUP_def u16_def)
  qed
  show ?thesis
    using up [OF mu] up [OF mw] dn
    by (simp add: digi_sam_callback_def rd_def r_def [symmetric] u_def [symmetric] w Let_def)
qed

lemma read_protocol:
  assumes rd: "digi_read node n s = (res, es, t)" and p: "pen_protocol s"
  shows "pen_protocol t"
proof -
  have ok: "ring_ok s" using p by (simp add: pen_protocol_def)
  have "ring_ok t \<and> dhist t = dhist s \<and> pen_timer t = pen_timer s \<and> digi_tasklet t = digi_tasklet s \<and>
      pen_timer_status t = pen_timer_status s"
  proof (cases "node = -1 \<or> NODATA s")
    case True
    then have "t = s" using rd by (auto simp: digi_read_def split: if_splits)
    then show ?thesis using ok by simp
  next
    case False
    then have nd: "\<not> NODATA s" by simp
    have k: "taken n s \<le> DSIZE s" "0 < taken n s" using taken_le [OF ok nd] by (simp_all add: taken_def)
    have "t = s\<lparr>rptr := (rptr s + taken n s) mod BUFLEN, ts_buffer := (ts_buffer s)[rptr s := calibrate (ts_buffer s ! rptr s)]\<rparr>"
      using rd False get_block_eq [OF ok nd, of n] by (auto simp: digi_read_def split: if_splits)
    then show ?thesis using drop_events(1) [OF ok k, of "calibrate (ts_buffer s ! rptr s)"] by simp
  qed
  then show ?thesis using p by (simp add: pen_protocol_def masked_last_def)
qed

lemma fasync_protocol: "digi_fasync node helper on s = (r, t) \<Longrightarrow> pen_protocol s \<Longrightarrow> pen_protocol t"
  by (auto simp: digi_fasync_def pen_protocol_def masked_last_def split: if_splits)

lemma close_protocol: "digi_release node helper s = (r, t) \<Longrightarrow> pen_protocol s \<Longrightarrow> pen_protocol t"
proof -
  assume c: "digi_release node helper s = (r, t)" and p: "pen_protocol s"
  obtain r' u where u: "digi_fasync node helper False s = (r', u)" by (metis surj_pair)
  then have "pen_protocol u" using fasync_protocol p by blast
  then show ?thesis using c u
    by (auto simp: digi_release_def touch_pan_disable_inter_def pen_protocol_def masked_last_def)
qed

lemma open_protocol:
  assumes o: "digi_open dev s = (r, t)" and p: "pen_protocol s" and idle: "\<not> pen_timer s" "\<not> digi_tasklet s"
  shows "pen_protocol t"
proof -
  define u where "u = touch_pan_clear_inter dev (touch_pan_disable_inter s)"
  have "machine.more u = machine.more (touch_pan_disable_inter s)" by (simp add: u_def)
  from fields_of_more [OF this] ring_ok_more [OF this]
  have f: "ring_ok u" "pen_flags (dhist u) = pen_flags (dhist s)" "\<not> pen_timer u" "\<not> digi_tasklet u" "Timer_bug \<notin> set (dhist u)"
    using p idle by (simp_all add: touch_pan_disable_inter_def pen_protocol_def)
  have "t = (touch_pan_enable_inter u)\<lparr>pen_timer_status := 0\<rparr>" using o by (simp add: digi_open_def u_def)
  then show ?thesis using f p idle by (simp add: pen_protocol_def touch_pan_enable_inter_def)
qed

lemma init_protocol:
  assumes "digi_init dev reg irq ok mem digi_zero = (0, s)" "length mem = 251"
  shows "pen_protocol s"
proof -
  define z where "z = digi_zero\<lparr>ts_buffer := mem, rptr := 0, wptr := 0\<rparr>"
  define u where "u = spi_init dev z"
  have mu: "machine.more u = machine.more z" by (simp add: u_def)
  have ms: "machine.more s = machine.more (touch_pan_disable_inter u)"
    using assms(1) by (auto simp: digi_init_def init_buf_def z_def [symmetric] u_def [symmetric] Let_def split: if_splits)
  have "ring_ok z" using assms(2) by (simp add: z_def ring_ok_def BUFLEN_def)
  then have "pen_protocol (touch_pan_disable_inter u)"
    using fields_of_more [OF mu] ring_ok_more [OF mu]
    by (simp add: touch_pan_disable_inter_def pen_protocol_def z_def digi_zero_def is_down_def)
  then show ?thesis using pen_protocol_more [OF ms] by simp
qed

lemma reach_protocol:
  assumes "digi_reach False unmasked dev s" "mask_works unmasked"
  shows "pen_protocol s"
  using assms
proof (induction rule: digi_reach.induct)
  case (loaded reg irq ok mem s)
  then show ?case using init_protocol by blast
next
  case (step s t)
  then have p: "pen_protocol s" by simp
  show ?case using step.hyps(2)
  proof cases
    case irq
    then show ?thesis using isr_protocol [OF step.prems _ p] by simp
  next
    case tasklet
    then show ?thesis using tasklet_protocol p by simp
  next
    case timer
    then show ?thesis using timer_protocol p by simp
  next
    case (reader node n r es)
    then show ?thesis using read_protocol p by blast
  next
    case (fasync node helper on r)
    then show ?thesis using fasync_protocol p by blast
  next
    case (opened r)
    then show ?thesis using open_protocol p by blast
  next
    case (closed node helper r)
    then show ?thesis using close_protocol p by blast
  qed
qed

text \<open>
  C17: in every state that interrupts, the tasklet, the timer, readers and callers lead to, with the
  device opened only while no pen is tracked: the pen events alternate (every pen-up follows a
  pen-down), the sampling timer runs exactly while the last event is a pen-down and is never added
  twice, and the interrupt line stays masked while the timer runs or the tasklet is scheduled.
\<close>
theorem touch_protocol:
  assumes "digi_reach False unmasked dev s" "mask_works unmasked"
  shows "strokes False (pen_flags (dhist s)) \<and> pen_timer s = is_down (pen_flags (dhist s)) \<and>
    Timer_bug \<notin> set (dhist s) \<and> \<not> (pen_timer s \<and> digi_tasklet s) \<and> (pen_timer s \<or> digi_tasklet s \<longrightarrow> masked_last s)"
  using reach_protocol [OF assms] by (simp add: pen_protocol_def)

text \<open>A stroke begins: open, interrupt, tasklet, with the pen down on a still panel.\<close>

definition pen_lands :: "digi \<Rightarrow> digi" where
  "pen_lands s = digi_tasklet_action still_pen ((digi_isr still_pen (snd (digi_open still_pen s)))\<lparr>digi_tasklet := False\<rparr>)"

lemma still_retry: "\<exists>t. read_retry still_pen k (touch_pan_read_data still_pen s) = ((2345, 2345), t) \<and> machine.more t = machine.more s"
proof -
  obtain t where t: "touch_pan_read_data still_pen s = ((2345, 2345), t)" using still_sample [of s] by (metis prod.collapse)
  have "(2345 :: u32) \<noteq> TPNL_PEN_UPVALUE" by (simp add: TPNL_PEN_UPVALUE_def)
  then have "read_retry still_pen k ((2345, 2345), t) = ((2345, 2345), t)" by (cases k) simp_all
  then show ?thesis using t more_read_data [OF t] by simp
qed

lemma still_isr:
  "digi_tasklet (digi_isr still_pen s)" "dhist (digi_isr still_pen s) = dhist s @ [Irq_disable, Tasklet_schedule]"
  "ring_ok (digi_isr still_pen s) = ring_ok s" "pen_timer (digi_isr still_pen s) = pen_timer s"
proof -
  define v where "v = touch_pan_clear_inter still_pen (emit (Rd GPFDAT) s)"
  have m: "machine.more v = machine.more s" by (simp add: v_def)
  have "digi_isr still_pen s = (note_d Tasklet_schedule (note_d Irq_disable v))\<lparr>digi_tasklet := True\<rparr>"
    by (simp add: digi_isr_def rd_def still_pen_def pen_is_up_def touch_pan_disable_inter_def v_def Let_def)
  then show "digi_tasklet (digi_isr still_pen s)" "dhist (digi_isr still_pen s) = dhist s @ [Irq_disable, Tasklet_schedule]"
    "ring_ok (digi_isr still_pen s) = ring_ok s" "pen_timer (digi_isr still_pen s) = pen_timer s"
    using fields_of_more [OF m] ring_ok_more [OF m] by simp_all
qed

lemma still_tasklet:
  assumes "ring_ok s"
  shows "pen_timer (digi_tasklet_action still_pen s)" "pen_flags (dhist (digi_tasklet_action still_pen s)) = pen_flags (dhist s) @ [65535]"
    "Timer_bug \<in> set (dhist (digi_tasklet_action still_pen s)) \<longleftrightarrow> Timer_bug \<in> set (dhist s) \<or> pen_timer s"
    "ring_ok (digi_tasklet_action still_pen s)"
proof -
  define u where "u = emit (Rd GPFDAT) s"
  obtain t where t: "read_retry still_pen 4 (touch_pan_read_data still_pen u) = ((2345, 2345), t)" "machine.more t = machine.more u"
    using still_retry by blast
  have m: "machine.more t = machine.more s" using t(2) by (simp add: u_def)
  have ok: "ring_ok t" using ring_ok_more [OF m] assms by simp
  have "(2345 :: u32) \<noteq> TPNL_PEN_UPVALUE" by (simp add: TPNL_PEN_UPVALUE_def)
  then have "digi_tasklet_action still_pen s = (add_timer (note_d Wake_up (add_x_y 2345 2345 PENDOWN t)))\<lparr>pen_timer_status := 1\<rparr>"
    using t(1) by (simp add: digi_tasklet_action_def rd_def u_def [symmetric] still_pen_def pen_is_up_def Let_def)
  then show "pen_timer (digi_tasklet_action still_pen s)" "pen_flags (dhist (digi_tasklet_action still_pen s)) = pen_flags (dhist s) @ [65535]"
    "Timer_bug \<in> set (dhist (digi_tasklet_action still_pen s)) \<longleftrightarrow> Timer_bug \<in> set (dhist s) \<or> pen_timer s"
    "ring_ok (digi_tasklet_action still_pen s)"
    using add_x_y_frame [OF ok, of 2345 2345 PENDOWN] fields_of_more [OF m]
    by (auto simp: add_timer_def PENDOWN_def u16_def)
qed

definition last_call :: "bool list \<Rightarrow> bool" where
  "last_call h \<longleftrightarrow> h \<noteq> [] \<and> last h"

lemma last_call_ok: "mask_works last_call"
  by (simp add: mask_works_def last_call_def)

lemma open_fields:
  "dhist (snd (digi_open dev s)) = dhist s @ [Irq_disable, Irq_enable]" "ring_ok (snd (digi_open dev s)) = ring_ok s"
  "pen_timer (snd (digi_open dev s)) = pen_timer s"
proof -
  define u where "u = touch_pan_clear_inter dev (touch_pan_disable_inter s)"
  have m: "machine.more u = machine.more (note_d Irq_disable s)" by (simp add: u_def touch_pan_disable_inter_def)
  show "dhist (snd (digi_open dev s)) = dhist s @ [Irq_disable, Irq_enable]" "ring_ok (snd (digi_open dev s)) = ring_ok s"
    "pen_timer (snd (digi_open dev s)) = pen_timer s"
    using fields_of_more [OF m] ring_ok_more [OF m] by (simp_all add: digi_open_def u_def [symmetric] touch_pan_enable_inter_def)
qed

lemma pen_lands_reach:
  assumes s: "digi_reach anytime last_call still_pen s" "anytime \<or> \<not> pen_timer s \<and> \<not> digi_tasklet s" and ok: "ring_ok s"
  shows "digi_reach anytime last_call still_pen (pen_lands s)" "pen_flags (dhist (pen_lands s)) = pen_flags (dhist s) @ [65535]"
    "pen_timer (pen_lands s)" "Timer_bug \<in> set (dhist (pen_lands s)) \<longleftrightarrow> Timer_bug \<in> set (dhist s) \<or> pen_timer s" "ring_ok (pen_lands s)"
proof -
  define a where "a = snd (digi_open still_pen s)"
  define b where "b = digi_isr still_pen a"
  have "digi_open still_pen s = (0, a)" by (simp add: a_def digi_open_def)
  from digi_reach.step [OF s(1) digi_step.opened [OF s(2) this]] have ra: "digi_reach anytime last_call still_pen a" .
  have "last_call (irq_calls (dhist a))" by (simp add: a_def open_fields last_call_def)
  from digi_reach.step [OF ra digi_step.irq [where unmasked = last_call, OF this]]
  have rb: "digi_reach anytime last_call still_pen b" by (simp add: b_def)
  have tb: "digi_tasklet b" by (simp add: b_def still_isr)
  show "digi_reach anytime last_call still_pen (pen_lands s)"
    using digi_reach.step [OF rb digi_step.tasklet [OF tb]] by (simp add: pen_lands_def a_def b_def)
  define c where "c = b\<lparr>digi_tasklet := False\<rparr>"
  have c: "ring_ok c" "pen_flags (dhist c) = pen_flags (dhist s)" "Timer_bug \<in> set (dhist c) \<longleftrightarrow> Timer_bug \<in> set (dhist s)"
    "pen_timer c = pen_timer s"
    using ok by (simp_all add: c_def b_def a_def still_isr open_fields)
  have "pen_lands s = digi_tasklet_action still_pen c" by (simp add: pen_lands_def a_def b_def c_def)
  then show "pen_flags (dhist (pen_lands s)) = pen_flags (dhist s) @ [65535]" "pen_timer (pen_lands s)"
    "Timer_bug \<in> set (dhist (pen_lands s)) \<longleftrightarrow> Timer_bug \<in> set (dhist s) \<or> pen_timer s" "ring_ok (pen_lands s)"
    using still_tasklet [OF c(1)] c by simp_all
qed

definition demo_digi :: digi where
  "demo_digi = snd (digi_init still_pen 254 0 True (replicate 251 \<lparr>ts_pressure = 0, ts_x = 0, ts_y = 0\<rparr>) digi_zero)"

lemma demo_digi_reach: "digi_reach anytime last_call still_pen demo_digi" "pen_protocol demo_digi" "\<not> pen_timer demo_digi"
  "\<not> digi_tasklet demo_digi" "pen_flags (dhist demo_digi) = []"
proof -
  define mem where "mem = replicate 251 \<lparr>ts_pressure = 0, ts_x = 0, ts_y = 0\<rparr>"
  have i: "digi_init still_pen 254 0 True mem digi_zero = (0, demo_digi)"
    by (simp add: demo_digi_def mem_def [symmetric] digi_init_def init_buf_def Let_def)
  have l: "length mem = 251" by (simp add: mem_def)
  show "digi_reach anytime last_call still_pen demo_digi" by (rule digi_reach.loaded [OF i l])
  show p: "pen_protocol demo_digi" by (rule init_protocol [OF i l])
  define u where "u = touch_pan_disable_inter (spi_init still_pen (digi_zero\<lparr>ts_buffer := mem, rptr := 0, wptr := 0\<rparr>))"
  have e: "demo_digi = touch_pan_disable still_pen (fold (spi_tx_data still_pen)
      [0xd000, 0, 0x9000, 0, 0xD000, 0, 0x9000, 0, 0, 0, 0, 0, 0, 0] (touch_pan_enable still_pen (touch_pan_init still_pen u)))"
    using i by (simp add: digi_init_def init_buf_def u_def Let_def)
  have "machine.more demo_digi = machine.more u" unfolding e by simp
  from fields_of_more [OF this]
  have f: "digi_tasklet demo_digi = digi_tasklet u" "dhist demo_digi = dhist u" by simp_all
  have m: "machine.more (spi_init still_pen v) = machine.more v" for v by simp
  show "\<not> digi_tasklet demo_digi" "pen_flags (dhist demo_digi) = []"
    unfolding f u_def using fields_of_more [OF m] by (simp_all add: touch_pan_disable_inter_def digi_zero_def)
  then show "\<not> pen_timer demo_digi" using p by (simp add: pen_protocol_def is_down_def)
qed

theorem touch_protocol_witness:
  "\<exists>s. digi_reach False last_call still_pen s \<and> pen_flags (dhist s) = [65535] \<and> pen_timer s \<and> masked_last s"
proof -
  note d = demo_digi_reach(1) [of False] demo_digi_reach(2-)
  have "ring_ok demo_digi" using d(2) by (simp add: pen_protocol_def)
  note l = pen_lands_reach [OF d(1) _ this]
  show ?thesis using touch_protocol [OF l(1) last_call_ok] l(1-3) d(3-5) by auto
qed

text \<open>
  A second open while a pen is tracked unmasks the line behind the timer: the next interrupt's
  tasklet adds the running timer again, which the kernel refuses as a bug.
\<close>
theorem reopen_adds_timer_twice:
  "\<exists>s. digi_reach True last_call still_pen s \<and> Timer_bug \<in> set (dhist s)"
proof -
  note d = demo_digi_reach(1) [of True] demo_digi_reach(2-)
  have "ring_ok demo_digi" using d(2) by (simp add: pen_protocol_def)
  from pen_lands_reach [OF d(1) _ this] have l: "digi_reach True last_call still_pen (pen_lands demo_digi)"
    "pen_timer (pen_lands demo_digi)" "ring_ok (pen_lands demo_digi)" by simp_all
  from pen_lands_reach [OF l(1) _ l(3)] l(2) show ?thesis by blast
qed

end
