(* ===== verification/Ps2_Scan.thy ===== *)
theory Ps2_Scan
  imports Lab_Prelude
begin

text \<open>
  Scan codes of the PS/2 keyboard exercise (EXP23/driver/keyb_ps2.c): the switch that turns the
  keyboard's code set 2 into the system's set 1, and \<open>kbd_translate\<close>, which turns set 1 with its
  prefixes into keycodes.
\<close>

section \<open>From set 2 to set 1\<close>

definition set2_to_set1 :: "(u8 \<times> u8) list" where
  "set2_to_set1 =
    [(0xE0, 0xE0), (0xE1, 0xE1), (0x1C, 0x1E), (0x32, 0x30), (0x21, 0x2E), (0x23, 0x20), (0x24, 0x12),
     (0x2B, 0x21), (0x34, 0x22), (0x33, 0x23), (0x43, 0x17), (0x3B, 0x24), (0x42, 0x25), (0x4B, 0x26),
     (0x3A, 0x32), (0x31, 0x31), (0x44, 0x18), (0x4D, 0x19), (0x15, 0x10), (0x2D, 0x13), (0x1B, 0x1F),
     (0x2C, 0x14), (0x3C, 0x16), (0x2A, 0x2F), (0x1D, 0x11), (0x22, 0x2D), (0x35, 0x15), (0x1A, 0x2C),
     (0x45, 0x0B), (0x16, 0x02), (0x1E, 0x03), (0x26, 0x04), (0x25, 0x05), (0x2E, 0x06), (0x36, 0x07),
     (0x3D, 0x08), (0x3E, 0x09), (0x46, 0x0A), (0x0E, 0x29), (0x4E, 0x0C), (0x55, 0x0D), (0x5D, 0x2B),
     (0x66, 0x0E), (0x29, 0x39), (0x0D, 0x0F), (0x58, 0x3A), (0x12, 0x2A), (0x14, 0x1D), (0x1F, 0x5B),
     (0x11, 0x38), (0x59, 0x36), (0x27, 0x5C), (0x2F, 0x5D), (0x5A, 0x1C), (0x76, 0x01), (0x05, 0x3B),
     (0x06, 0x3C), (0x04, 0x3D), (0x0C, 0x3E), (0x03, 0x3F), (0x0B, 0x40), (0x83, 0x41), (0x0A, 0x42),
     (0x01, 0x43), (0x09, 0x44), (0x78, 0x57), (0x07, 0x58), (0x7E, 0x46), (0x54, 0x1A), (0x70, 0x52),
     (0x6C, 0x47), (0x7D, 0x49), (0x71, 0x53), (0x69, 0x4F), (0x7A, 0x51), (0x75, 0x48), (0x6B, 0x4B),
     (0x72, 0x50), (0x74, 0x4D), (0x77, 0x45), (0x4A, 0x35), (0x7C, 0x37), (0x7B, 0x4A), (0x79, 0x4E),
     (0x5B, 0x1B), (0x4C, 0x27), (0x52, 0x28), (0x41, 0x33), (0x49, 0x34), (0x37, 0x5E), (0x3F, 0x5F),
     (0x5E, 0x63), (0x50, 0x6D), (0x48, 0x6C), (0x40, 0x6B), (0x10, 0x65), (0x38, 0x6A), (0x30, 0x69),
     (0x28, 0x68), (0x20, 0x67), (0x18, 0x66)]"

text \<open>The switch of \<open>keyboard_interrupt\<close> without its \<open>0xF0\<close> case: a code it does not name stays.\<close>

definition set1_of :: "u8 \<Rightarrow> u8" where
  "set1_of c = (case map_of set2_to_set1 c of Some v \<Rightarrow> v | None \<Rightarrow> c)"

section \<open>From set 1 to keycodes\<close>

definition SC_LIM :: nat where "SC_LIM = 89"
definition E1_PAUSE :: u8 where "E1_PAUSE = 119"

definition high_keys :: "u8 list" where
  "high_keys =
    [124, 125, 126, 127, 0, 0, 0,
     0, 0, 0, 0, 0, 0, 0, 0,
     0, 0, 0, 0, 0, 122, 0, 123,
     0, 0, 0, 89, 120, 0, 0, 90,
     91, 92, 93, 94,
     95, 124, 121, 0]"

definition e0_keys :: "u8 list" where
  "e0_keys =
    [0, 0, 0, 0, 0, 0, 0, 0,
     0, 0, 0, 0, 0, 0, 0, 0,
     0, 0, 0, 0, 0, 0, 0, 0,
     0, 0, 0, 0, 96, 97, 0, 0,
     0, 0, 0, 0, 0, 0, 0, 0,
     0, 0, 0, 0, 0, 0, 0, 0,
     0, 0, 0, 0, 0, 98, 0, 99,
     100, 0, 0, 0, 0, 113, 114, 115,
     116, 117, 0, 0, 0, 0, 101, 102,
     103, 104, 0, 105, 124, 106, 118, 107,
     108, 109, 110, 111, 0, 0, 0, 0,
     0, 0, 0, 125, 126, 127, 0, 0,
     0, 0, 0, 0, 0, 0, 0, 0,
     0, 0, 0, 0, 0, 0, 0, 112,
     0, 0, 0, 0, 0, 0, 0, 0,
     0, 0, 0, 0, 0, 0, 0, 0]"

text \<open>
  \<open>kbd_translate\<close> with its static \<open>prev_scancode\<close> passed along; \<open>Some k\<close> is return value 1 with
  \<open>*keycode = k\<close>, \<open>None\<close> is return value 0.
\<close>

definition kbd_translate :: "u8 \<Rightarrow> int \<Rightarrow> u8 option \<times> int" where
  "kbd_translate scancode prev =
    (if scancode = 0xe0 \<or> scancode = 0xe1 then (None, uint scancode)
     else if scancode = 0x00 \<or> scancode = 0xff then (None, 0)
     else let sc = scancode AND 0x7f in
       if prev \<noteq> 0 then
         if prev \<noteq> 0xe0 then
           if prev = 0xe1 \<and> sc = 0x1d then (None, 0x100)
           else if prev = 0x100 \<and> sc = 0x45 then (Some E1_PAUSE, 0)
           else (None, 0)
         else if sc = 0x2a \<or> sc = 0x36 then (None, 0)
         else if e0_keys ! unat sc \<noteq> 0 then (Some (e0_keys ! unat sc), 0) else (None, 0)
       else if SC_LIM \<le> unat sc then (Some (high_keys ! (unat sc - SC_LIM)), 0)
       else (Some sc, 0))"

section \<open>Facts about the tables\<close>

lemma distinct_set2: "distinct (map fst set2_to_set1)"
proof -
  have "distinct (map unat (map fst set2_to_set1))"
    by (simp add: set2_to_set1_def)
  then show ?thesis by (simp only: distinct_map)
qed

lemma length_tables: "length high_keys = 128 - SC_LIM" "length e0_keys = 128"
  by (simp_all add: high_keys_def e0_keys_def SC_LIM_def)

lemma nth_below: "list_all P xs \<Longrightarrow> i < length xs \<Longrightarrow> P (xs ! i)"
  by (simp add: list_all_length)

lemma low7_bound: "unat (c AND 0x7f :: u8) < 128"
proof -
  have "c AND 0x7f \<le> (0x7f :: u8)"
    by (rule word_and_le1)
  then show ?thesis by (simp add: word_le_nat_alt)
qed

lemma tables_below: "list_all (\<lambda>k. k < 128) high_keys" "list_all (\<lambda>k. k < 128) e0_keys"
  by code_simp+

text \<open>The lookups of \<open>kbd_translate\<close> stay inside the tables, and what it returns is a keycode.\<close>

lemma kbd_translate_below:
  assumes "kbd_translate c p = (Some k, q)"
  shows "k < 128 \<and> q = 0"
proof -
  let ?sc = "c AND 0x7f"
  have low: "unat ?sc < 128" by (rule low7_bound)
  have e0: "e0_keys ! unat ?sc < 128"
    using nth_below [OF tables_below(2)] low by (simp add: length_tables)
  have hi: "high_keys ! (unat ?sc - SC_LIM) < 128" if "SC_LIM \<le> unat ?sc"
    using nth_below [OF tables_below(1), of "unat ?sc - SC_LIM"] low that
    by (simp add: length_tables SC_LIM_def)
  have sc: "?sc < 128" using low by (simp add: word_less_nat_alt)
  show ?thesis
    using assms e0 hi sc unfolding kbd_translate_def E1_PAUSE_def Let_def
    by (auto split: if_splits)
qed

end
