(* ===== verification/Kbd.thy ===== *)
theory Kbd
  imports Ps2_Scan
begin

text \<open>
  The keyboard driver of the PS/2 exercise (EXP23/driver/keyboard.c): its state, one definition per
  key handler, and the processing of a keycode.  What the driver asks of the kernel, and the
  characters it delivers, are events of \<open>kout\<close>.  The key maps, the function key strings, the table
  of accents and the numbers that linux/keyboard.h gives to shift keys and function keys are not in
  the repository: they are the parameter \<open>E\<close>; the array of key maps has \<open>MAX_NR_KEYMAPS\<close> entries.  \<open>CONFIG_MAGIC_SYSRQ\<close> is not set.  A subscript
  beyond a table sets \<open>kfault\<close>.
\<close>

type_synonym keysym = "16 word"

record kbd_env =
  key_maps :: "u32 \<Rightarrow> (u8 \<Rightarrow> keysym) option"
  MAX_NR_KEYMAPS :: nat
  plain_map :: "u8 \<Rightarrow> keysym"
  func_table :: "u8 list option list"
  accent_table :: "(u8 \<times> u8 \<times> u8) list"
  KG_SHIFT :: nat
  KG_CAPSSHIFT :: u8
  NR_SHIFT :: nat
  VC_CAPSLOCK :: nat
  VC_NUMLOCK :: nat
  FN_FIND :: u8
  FN_INSERT :: u8
  FN_REMOVE :: u8
  FN_SELECT :: u8
  FN_PGUP :: u8
  FN_PGDN :: u8
  HZ :: nat
  MAX_NR_CONSOLES :: nat
  fg_console :: nat
  vc_cons_allocated :: "nat \<Rightarrow> bool"

datatype kbdmode = VC_XLATE | VC_MEDIUMRAW | VC_RAW | VC_UNICODE
datatype ledmode = LED_SHOW_FLAGS | LED_SHOW_IOCTL | LED_SHOW_MEM

datatype kbd_ev =
    Printk u8 | Flip u8 | Flip_break | Flip_push | Wake_reader
  | Timer_add nat | Timer_twice | Timer_del | Tasklet | Cli | Sti
  | Set_console nat | Last_console | Spawn_signal | Scrollback | Scrollfront
  | Ctrl_alt_del | Do_SAK | Reset_vc | Show_regs | Show_mem | Show_state | Start_tty | Stop_tty
  | Set_leds | Ledfunc u8

record kbd =
  down_to_up :: bool
  prev_scancode :: int
  k_down :: "u8 list"
  key_down :: "u32 list"
  dead_key_next :: bool
  shift_state :: u32
  npadch :: int
  diacr :: u8
  rep :: bool
  kbd_repeatkeycode :: int
  autorepeat_timer :: bool
  tty :: bool
  tty_data :: bool
  tty_stopped :: bool
  ttytab :: bool
  kbd_pt_regs :: bool
  spawnpid :: bool
  kbdmode :: kbdmode
  lockstate :: u8
  slockstate :: u8
  ledflagstate :: u8
  ledmode :: ledmode
  vc_repeat :: bool
  vc_meta :: bool
  vc_applic :: bool
  vc_ckmode :: bool
  vc_crlf :: bool
  ledstate :: u8
  ledioctl :: u8
  ledptrs :: "(nat \<times> u32) option list"
  kbd_ledfunc :: bool
  tasklet_enabled :: bool
  kfault :: bool
  kout :: "kbd_ev list"

definition note_k :: "kbd_ev \<Rightarrow> kbd \<Rightarrow> kbd" where
  "note_k e s = s\<lparr>kout := kout s @ [e]\<rparr>"

definition fault_k :: "kbd \<Rightarrow> kbd" where
  "fault_k s = s\<lparr>kfault := True\<rparr>"

section \<open>The key bitmap\<close>

definition mytest_and_set_bit :: "u8 \<Rightarrow> kbd \<Rightarrow> int \<times> kbd" where
  "mytest_and_set_bit nr s =
    (let s = note_k Cli s;
         i = unat nr div 32; j = unat nr mod 32;
         s = s\<lparr>key_down := (key_down s)[i := key_down s ! i OR push_bit j 1]\<rparr>
     in (0, note_k Sti s))"

definition mytest_and_clear_bit :: "u8 \<Rightarrow> kbd \<Rightarrow> int \<times> kbd" where
  "mytest_and_clear_bit nr s =
    (let s = note_k Sti s;
         i = unat nr div 32; j = unat nr mod 32;
         s = s\<lparr>key_down := (key_down s)[i := key_down s ! i AND NOT (push_bit j 1)]\<rparr>
     in (1, note_k Cli s))"

definition key_is_down :: "kbd \<Rightarrow> u8 \<Rightarrow> bool" where
  "key_is_down s k = bit (key_down s ! (unat k div 32)) (unat k mod 32)"

section \<open>Output\<close>

definition put_queue :: "u8 \<Rightarrow> kbd \<Rightarrow> kbd" where
  "put_queue ch s =
    (let s = note_k Wake_reader (note_k (Printk ch) s)
     in if tty s then note_k Flip_push (note_k (Flip ch) s) else s)"

definition puts_queue :: "u8 list \<Rightarrow> kbd \<Rightarrow> kbd" where
  "puts_queue cp s =
    (let s = note_k Wake_reader s
     in if \<not> tty s then s else note_k Flip_push (fold (\<lambda>c. note_k (Flip c)) cp s))"

definition to_utf8 :: "keysym \<Rightarrow> kbd \<Rightarrow> kbd" where
  "to_utf8 c s =
    (if c < 0x80 then put_queue (ucast c) s
     else if c < 0x800 then
       put_queue (ucast (0x80 OR (c AND 0x3f))) (put_queue (ucast (0xc0 OR drop_bit 6 c)) s)
     else
       put_queue (ucast (0x80 OR (c AND 0x3f)))
         (put_queue (ucast (0x80 OR (drop_bit 6 c AND 0x3f)))
           (put_queue (ucast (0xe0 OR drop_bit 12 c)) s)))"

definition byte_of :: "char \<Rightarrow> u8" where
  "byte_of c = of_nat (of_char c)"

definition applkey :: "u8 \<Rightarrow> bool \<Rightarrow> kbd \<Rightarrow> kbd" where
  "applkey key mode = puts_queue [0x1b, if mode then byte_of (CHR ''O'') else byte_of (CHR ''[''), key]"

section \<open>Shift state\<close>

definition KT_LATIN :: nat where "KT_LATIN = 0"
definition KT_SPEC :: nat where "KT_SPEC = 2"
definition KT_SHIFT :: nat where "KT_SHIFT = 7"
definition KT_LETTER :: nat where "KT_LETTER = 11"
definition KT_SLOCK :: nat where "KT_SLOCK = 12"

definition KTYP :: "keysym \<Rightarrow> nat" where "KTYP k = unat (drop_bit 8 k)"
definition KVAL :: "keysym \<Rightarrow> u8" where "KVAL k = ucast k"

text \<open>The shift key a keysym of \<open>plain_map\<close> stands for, as \<open>compute_shiftstate\<close> decides it.\<close>

definition plain_shift :: "kbd_env \<Rightarrow> u8 \<Rightarrow> u8 option" where
  "plain_shift E k =
    (let sym = plain_map E k XOR 0xf000
     in if KTYP sym = KT_SHIFT \<or> KTYP sym = KT_SLOCK
        then Some (if KVAL sym = KG_CAPSSHIFT E then of_nat (KG_SHIFT E) else KVAL sym)
        else None)"

definition count_shift :: "kbd_env \<Rightarrow> u8 \<Rightarrow> kbd \<Rightarrow> kbd" where
  "count_shift E k s =
    (if \<not> key_is_down s k then s
     else case plain_shift E k of None \<Rightarrow> s
     | Some v \<Rightarrow>
        if length (k_down s) \<le> unat v then fault_k s
        else s\<lparr>k_down := (k_down s)[unat v := k_down s ! unat v + 1],
               shift_state := shift_state s OR push_bit (unat v) 1\<rparr>)"

definition compute_shiftstate :: "kbd_env \<Rightarrow> kbd \<Rightarrow> kbd" where
  "compute_shiftstate E s =
    fold (count_shift E) (map of_nat [0..<256])
      (s\<lparr>shift_state := 0, k_down := map (\<lambda>_. 0) (k_down s)\<rparr>)"

text \<open>The three steps of \<open>do_shift\<close>: the counter, the mask, and the number typed on the pad.\<close>

definition shift_count :: "nat \<Rightarrow> bool \<Rightarrow> kbd \<Rightarrow> kbd" where
  "shift_count v up s =
    (if up then if k_down s ! v \<noteq> 0 then s\<lparr>k_down := (k_down s)[v := k_down s ! v - 1]\<rparr> else s
     else s\<lparr>k_down := (k_down s)[v := k_down s ! v + 1]\<rparr>)"

definition shift_mask :: "nat \<Rightarrow> kbd \<Rightarrow> kbd" where
  "shift_mask v s =
    (if k_down s ! v \<noteq> 0 then s\<lparr>shift_state := shift_state s OR push_bit v 1\<rparr>
     else s\<lparr>shift_state := shift_state s AND NOT (push_bit v 1)\<rparr>)"

definition flush_npadch :: "kbd \<Rightarrow> kbd" where
  "flush_npadch s =
    (if kbdmode s = VC_UNICODE then to_utf8 (word_of_int (npadch s)) s
     else put_queue (word_of_int (npadch s)) s)\<lparr>npadch := -1\<rparr>"

definition undo_capslock :: "kbd_env \<Rightarrow> kbd \<Rightarrow> kbd" where
  "undo_capslock E s = s\<lparr>ledflagstate := ledflagstate s AND NOT (push_bit (VC_CAPSLOCK E) 1)\<rparr>"

text \<open>The counter a value selects: a CapsShift key counts as Shift.\<close>

definition shift_slot :: "kbd_env \<Rightarrow> u8 \<Rightarrow> nat" where
  "shift_slot E value = (if value = KG_CAPSSHIFT E then KG_SHIFT E else unat value)"

definition do_shift :: "kbd_env \<Rightarrow> u8 \<Rightarrow> bool \<Rightarrow> kbd \<Rightarrow> kbd" where
  "do_shift E value up s =
    (if rep s then s
     else let
       old_state = shift_state s;
       v = shift_slot E value;
       s = (if value = KG_CAPSSHIFT E \<and> \<not> up then undo_capslock E s else s)
     in if length (k_down s) \<le> v then fault_k s
     else let s = shift_mask v (shift_count v up s)
          in if up \<and> shift_state s \<noteq> old_state \<and> npadch s \<noteq> -1 then flush_npadch s else s)"

section \<open>Handlers of the key types\<close>

definition chg_led :: "nat \<Rightarrow> kbd \<Rightarrow> kbd" where
  "chg_led b s = s\<lparr>ledflagstate := ledflagstate s XOR push_bit b 1\<rparr>"

definition enter :: "kbd \<Rightarrow> kbd" where
  "enter s =
    (let s = (if diacr s \<noteq> 0 then (put_queue (diacr s) s)\<lparr>diacr := 0\<rparr> else s);
         s = put_queue 13 s
     in if vc_crlf s then put_queue 10 s else s)"

definition caps_toggle :: "kbd_env \<Rightarrow> kbd \<Rightarrow> kbd" where
  "caps_toggle E s = (if rep s then s else chg_led (VC_CAPSLOCK E) s)"

definition caps_on :: "kbd_env \<Rightarrow> kbd \<Rightarrow> kbd" where
  "caps_on E s = (if rep s then s else s\<lparr>ledflagstate := ledflagstate s OR push_bit (VC_CAPSLOCK E) 1\<rparr>)"

definition bare_num :: "kbd_env \<Rightarrow> kbd \<Rightarrow> kbd" where
  "bare_num E s = (if \<not> rep s then chg_led (VC_NUMLOCK E) s else s)"

definition kp_num :: "kbd_env \<Rightarrow> kbd \<Rightarrow> kbd" where
  "kp_num E s = (if vc_applic s then applkey (byte_of (CHR ''P'')) True s else bare_num E s)"

definition show_ptregs :: "kbd \<Rightarrow> kbd" where
  "show_ptregs s = (if kbd_pt_regs s then note_k Show_regs s else s)"

definition hold :: "kbd \<Rightarrow> kbd" where
  "hold s = (if rep s \<or> \<not> tty s then s
             else if tty_stopped s then note_k Start_tty s else note_k Stop_tty s)"

definition send_intr :: "kbd \<Rightarrow> kbd" where
  "send_intr s = (if \<not> tty s then s else note_k Flip_push (note_k Flip_break s))"

definition compose_key :: "kbd \<Rightarrow> kbd" where
  "compose_key s = s\<lparr>dead_key_next := True\<rparr>"

definition spawn_console :: "kbd \<Rightarrow> kbd" where
  "spawn_console s = (if spawnpid s then note_k Spawn_signal s else s)"

definition SAK :: "kbd \<Rightarrow> kbd" where
  "SAK s = note_k Reset_vc (note_k Do_SAK s)"

text \<open>
  The loops over the consoles: from the neighbour of the foreground console on, past the end, until
  an allocated console or the foreground console itself; \<open>n\<close> bounds the number of turns.
\<close>

fun decr_loop :: "kbd_env \<Rightarrow> nat \<Rightarrow> int \<Rightarrow> int" where
  "decr_loop E 0 i = i"
| "decr_loop E (Suc n) i =
     (if i = int (fg_console E) then i
      else let i = (if i = -1 then int (MAX_NR_CONSOLES E) - 1 else i)
           in if vc_cons_allocated E (nat i) then i else decr_loop E n (i - 1))"

fun incr_loop :: "kbd_env \<Rightarrow> nat \<Rightarrow> int \<Rightarrow> int" where
  "incr_loop E 0 i = i"
| "incr_loop E (Suc n) i =
     (if i = int (fg_console E) then i
      else let i = (if i = int (MAX_NR_CONSOLES E) then 0 else i)
           in if vc_cons_allocated E (nat i) then i else incr_loop E n (i + 1))"

definition decr_console :: "kbd_env \<Rightarrow> kbd \<Rightarrow> kbd" where
  "decr_console E =
     note_k (Set_console (nat (decr_loop E (MAX_NR_CONSOLES E + 1) (int (fg_console E) - 1))))"

definition incr_console :: "kbd_env \<Rightarrow> kbd \<Rightarrow> kbd" where
  "incr_console E =
     note_k (Set_console (nat (incr_loop E (MAX_NR_CONSOLES E + 1) (int (fg_console E) + 1))))"

definition spec_fn_table :: "kbd_env \<Rightarrow> (kbd \<Rightarrow> kbd) list" where
  "spec_fn_table E =
    [compute_shiftstate E, enter, show_ptregs, note_k Show_mem,
     note_k Show_state, send_intr, note_k Last_console, caps_toggle E,
     kp_num E, hold, note_k Scrollfront, note_k Scrollback,
     note_k Ctrl_alt_del, caps_on E, compose_key, SAK,
     decr_console E, incr_console E, spawn_console, bare_num E]"

text \<open>\<open>SPECIALS_ALLOWED_IN_RAW_MODE\<close> is the secure attention key alone, entry 15 of the table.\<close>

definition do_spec :: "kbd_env \<Rightarrow> u8 \<Rightarrow> bool \<Rightarrow> kbd \<Rightarrow> kbd" where
  "do_spec E value up s =
    (if up then s
     else if length (spec_fn_table E) \<le> unat value then s
     else if (kbdmode s = VC_RAW \<or> kbdmode s = VC_MEDIUMRAW) \<and> value \<noteq> 15 then s
     else (spec_fn_table E ! unat value) s)"

definition handle_diacr :: "kbd_env \<Rightarrow> u8 \<Rightarrow> kbd \<Rightarrow> u8 \<times> kbd" where
  "handle_diacr E ch s =
    (let d = diacr s; s = s\<lparr>diacr := 0\<rparr>
     in case find (\<lambda>(d', b, r). d' = d \<and> b = ch) (accent_table E) of
          Some (_, _, r) \<Rightarrow> (r, s)
        | None \<Rightarrow> if ch = byte_of (CHR '' '') \<or> ch = d then (d, s) else (ch, put_queue d s))"

definition do_self :: "kbd_env \<Rightarrow> u8 \<Rightarrow> bool \<Rightarrow> kbd \<Rightarrow> kbd" where
  "do_self E value up s =
    (if up then s
     else let (value, s) = (if diacr s \<noteq> 0 then handle_diacr E value s else (value, s))
          in if dead_key_next s then s\<lparr>dead_key_next := False, diacr := value\<rparr>
             else put_queue value s)"

definition do_dead2 :: "kbd_env \<Rightarrow> u8 \<Rightarrow> bool \<Rightarrow> kbd \<Rightarrow> kbd" where
  "do_dead2 E value up s =
    (if up then s
     else let (v, s) = (if diacr s \<noteq> 0 then handle_diacr E value s else (value, s)) in s\<lparr>diacr := v\<rparr>)"

definition ret_diacr :: "u8 list" where
  "ret_diacr = map byte_of [CHR 0x60, CHR 0x27, CHR ''^'', CHR ''~'', CHR 0x22, CHR '','']"

definition do_dead :: "kbd_env \<Rightarrow> u8 \<Rightarrow> bool \<Rightarrow> kbd \<Rightarrow> kbd" where
  "do_dead E value up s =
    (if length ret_diacr \<le> unat value then fault_k s else do_dead2 E (ret_diacr ! unat value) up s)"

definition do_cons :: "u8 \<Rightarrow> bool \<Rightarrow> kbd \<Rightarrow> kbd" where
  "do_cons value up s = (if up then s else note_k (Set_console (unat value)) s)"

definition do_fn :: "kbd_env \<Rightarrow> u8 \<Rightarrow> bool \<Rightarrow> kbd \<Rightarrow> kbd" where
  "do_fn E value up s =
    (if up then s
     else if unat value < length (func_table E) then
       (case func_table E ! unat value of None \<Rightarrow> s | Some str \<Rightarrow> puts_queue str s)
     else s)"

definition cur_chars :: "u8 list" where
  "cur_chars = map byte_of ''BDCA'' @ [0]"

definition do_cur :: "u8 \<Rightarrow> bool \<Rightarrow> kbd \<Rightarrow> kbd" where
  "do_cur value up s =
    (if up then s
     else if length cur_chars \<le> unat value then fault_k s
     else applkey (cur_chars ! unat value) (vc_ckmode s) s)"

definition pad_chars :: "u8 list" where
  "pad_chars = map byte_of (''0123456789+-*/'' @ [CHR 13] @ '',.?()#'') @ [0]"

definition app_map :: "u8 list" where
  "app_map = map byte_of ''pqrstuvwxylSRQMnnmPQS'' @ [0]"

definition vc_numlock :: "kbd_env \<Rightarrow> kbd \<Rightarrow> bool" where
  "vc_numlock E s = bit (ledflagstate s) (VC_NUMLOCK E)"

text \<open>The keys of the pad have the subscripts of \<open>pad_chars\<close>: 14 is enter, 15 the comma, 16 the point.\<close>

definition pad_cursor :: "kbd_env \<Rightarrow> u8 \<Rightarrow> kbd \<Rightarrow> kbd option" where
  "pad_cursor E value s =
    (if value = 15 \<or> value = 16 then Some (do_fn E (FN_REMOVE E) False s)
     else if value = 0 then Some (do_fn E (FN_INSERT E) False s)
     else if value = 1 then Some (do_fn E (FN_SELECT E) False s)
     else if value = 2 then Some (do_cur 0 False s)
     else if value = 3 then Some (do_fn E (FN_PGDN E) False s)
     else if value = 4 then Some (do_cur 1 False s)
     else if value = 6 then Some (do_cur 2 False s)
     else if value = 7 then Some (do_fn E (FN_FIND E) False s)
     else if value = 8 then Some (do_cur 3 False s)
     else if value = 9 then Some (do_fn E (FN_PGUP E) False s)
     else if value = 5 then Some (applkey (byte_of (CHR ''G'')) (vc_applic s) s)
     else None)"

definition do_pad :: "kbd_env \<Rightarrow> u8 \<Rightarrow> bool \<Rightarrow> kbd \<Rightarrow> kbd" where
  "do_pad E value up s =
    (if up then s
     else if vc_applic s \<and> k_down s ! KG_SHIFT E = 0 then
       if length app_map \<le> unat value then fault_k s else applkey (app_map ! unat value) True s
     else case (if \<not> vc_numlock E s then pad_cursor E value s else None) of
       Some t \<Rightarrow> t
     | None \<Rightarrow>
        if length pad_chars \<le> unat value then fault_k s
        else let s = put_queue (pad_chars ! unat value) s
             in if value = 14 \<and> vc_crlf s then put_queue 10 s else s)"

definition do_meta :: "u8 \<Rightarrow> bool \<Rightarrow> kbd \<Rightarrow> kbd" where
  "do_meta value up s =
    (if up then s
     else if vc_meta s then put_queue value (put_queue 0x1b s)
     else put_queue (value OR 0x80) s)"

definition do_ascii :: "u8 \<Rightarrow> bool \<Rightarrow> kbd \<Rightarrow> kbd" where
  "do_ascii value up s =
    (if up then s
     else let (base, v) = (if value < 10 then (10, uint value) else (16, uint (value - 10)))
          in s\<lparr>npadch := if npadch s = -1 then v else s32 (npadch s * base + v)\<rparr>)"

definition do_lock :: "u8 \<Rightarrow> bool \<Rightarrow> kbd \<Rightarrow> kbd" where
  "do_lock value up s =
    (if up \<or> rep s then s else s\<lparr>lockstate := lockstate s XOR push_bit (unat value) 1\<rparr>)"

definition chg_slock :: "u8 \<Rightarrow> kbd \<Rightarrow> kbd" where
  "chg_slock value s = s\<lparr>slockstate := slockstate s XOR push_bit (unat value) 1\<rparr>"

definition do_slock :: "kbd_env \<Rightarrow> u8 \<Rightarrow> bool \<Rightarrow> kbd \<Rightarrow> kbd" where
  "do_slock E value up s =
    (let s = do_shift E value up s
     in if up \<or> rep s then s
        else let s = chg_slock value s; m = ucast (lockstate s XOR slockstate s)
             in if MAX_NR_KEYMAPS E \<le> unat m then fault_k s
                else if key_maps E m = None
                then chg_slock value (s\<lparr>slockstate := 0\<rparr>) else s)"

definition do_ignore :: "u8 \<Rightarrow> bool \<Rightarrow> kbd \<Rightarrow> kbd" where
  "do_ignore value up s = s"

text \<open>\<open>do_lowercase\<close> prints an error to the kernel log and does nothing else.\<close>

definition do_lowercase :: "u8 \<Rightarrow> bool \<Rightarrow> kbd \<Rightarrow> kbd" where
  "do_lowercase value up s = s"

definition key_handler :: "kbd_env \<Rightarrow> (u8 \<Rightarrow> bool \<Rightarrow> kbd \<Rightarrow> kbd) list" where
  "key_handler E =
    [do_self E, do_fn E, do_spec E, do_pad E, do_dead E, do_cons, do_cur, do_shift E,
     do_meta, do_ascii, do_lock, do_lowercase, do_slock E, do_dead2 E, do_ignore, do_ignore]"

section \<open>A keycode\<close>

definition del_timer :: "kbd \<Rightarrow> kbd" where
  "del_timer s = (note_k Timer_del s)\<lparr>autorepeat_timer := False\<rparr>"

definition add_timer :: "nat \<Rightarrow> kbd \<Rightarrow> kbd" where
  "add_timer t s =
    (if autorepeat_timer s then note_k Timer_twice s
     else (note_k (Timer_add t) s)\<lparr>autorepeat_timer := True\<rparr>)"

definition repeat_timeout :: "kbd_env \<Rightarrow> nat" where "repeat_timeout E = HZ E * 300 div 1000"
definition repeat_interval :: "kbd_env \<Rightarrow> nat" where "repeat_interval E = HZ E * 30 div 1000"

text \<open>From the key map to the handler; \<open>shift_final\<close> is the number of the map.\<close>

definition shift_final :: "kbd \<Rightarrow> u32" where
  "shift_final s = (shift_state s OR ucast (slockstate s)) XOR ucast (lockstate s)"

definition call_handler :: "kbd_env \<Rightarrow> nat \<Rightarrow> u8 \<Rightarrow> bool \<Rightarrow> kbd \<Rightarrow> kbd" where
  "call_handler E type value up s =
    (let s = (key_handler E ! type) value up s
     in if type \<noteq> KT_SLOCK then s\<lparr>slockstate := 0\<rparr> else s)"

definition dispatch :: "kbd_env \<Rightarrow> u8 \<Rightarrow> bool \<Rightarrow> bool \<Rightarrow> kbd \<Rightarrow> kbd" where
  "dispatch E keycode up raw_mode s =
    (if MAX_NR_KEYMAPS E \<le> unat (shift_final s) then fault_k s
     else case key_maps E (shift_final s) of
       None \<Rightarrow> (compute_shiftstate E s)\<lparr>slockstate := 0\<rparr>
     | Some key_map \<Rightarrow>
        let keysym = key_map keycode
        in if 0xf0 \<le> KTYP keysym then
             let type = KTYP keysym - 0xf0
             in if raw_mode \<and> type \<noteq> KT_SPEC \<and> type \<noteq> KT_SHIFT then s
                else if type = KT_LETTER then
                  if bit (ledflagstate s) (VC_CAPSLOCK E) \<and>
                     MAX_NR_KEYMAPS E \<le> unat (shift_final s XOR push_bit (KG_SHIFT E) 1) then fault_k s
                  else let keysym =
                    (if bit (ledflagstate s) (VC_CAPSLOCK E)
                     then case key_maps E (shift_final s XOR push_bit (KG_SHIFT E) 1) of
                            Some key_map \<Rightarrow> key_map keycode | None \<Rightarrow> keysym
                     else keysym)
                  in call_handler E KT_LATIN (KVAL keysym) up s
                else call_handler E type (KVAL keysym) up s
           else if \<not> up \<and> \<not> raw_mode then to_utf8 keysym s else s)"

definition track_key :: "u8 \<Rightarrow> bool \<Rightarrow> kbd \<Rightarrow> bool \<times> kbd" where
  "track_key keycode up s =
    (if up then let (r, s) = mytest_and_clear_bit keycode (s\<lparr>rep := False\<rparr>) in (r \<noteq> 0, s)
     else let (r, s) = mytest_and_set_bit keycode s in (False, s\<lparr>rep := (r \<noteq> 0)\<rparr>))"

definition arm_repeat :: "kbd_env \<Rightarrow> u8 \<Rightarrow> bool \<Rightarrow> bool \<Rightarrow> kbd \<Rightarrow> kbd" where
  "arm_repeat E keycode up raw_mode s =
    (let s = (if kbd_repeatkeycode s = uint keycode \<or> \<not> up \<or> raw_mode
              then del_timer (s\<lparr>kbd_repeatkeycode := -1\<rparr>) else s)
     in if \<not> up \<and> \<not> raw_mode
        then let s = s\<lparr>kbd_repeatkeycode := uint keycode\<rparr>
             in if vc_repeat s
                then add_timer (if rep s then repeat_interval E else repeat_timeout E) s else s
        else s)"

definition kbd_processkeycode :: "kbd_env \<Rightarrow> u8 \<Rightarrow> bool \<Rightarrow> kbd \<Rightarrow> kbd" where
  "kbd_processkeycode E keycode up s =
    (let raw_mode = (kbdmode s = VC_RAW);
         (up, s) = track_key keycode up s;
         s = arm_repeat E keycode up raw_mode s;
         medium = (kbdmode s = VC_MEDIUMRAW);
         s = (if medium then put_queue (keycode + (if up then 0x80 else 0)) s else s)
     in dispatch E keycode up (raw_mode \<or> medium) s)"

definition handle_scancode :: "kbd_env \<Rightarrow> u8 \<Rightarrow> bool \<Rightarrow> kbd \<Rightarrow> kbd" where
  "handle_scancode E scancode down s =
    (let up_flag = (if down then 0 else 0x80);
         s = (if tty s \<and> \<not> tty_data s then s\<lparr>tty := False\<rparr> else s);
         s = (if kbdmode s = VC_RAW then put_queue (scancode OR up_flag) s else s);
         (k, p) = kbd_translate scancode (prev_scancode s);
         s = s\<lparr>prev_scancode := p\<rparr>
     in case k of None \<Rightarrow> s | Some keycode \<Rightarrow> kbd_processkeycode E keycode (\<not> down) s)"

section \<open>Repeating and lights\<close>

text \<open>\<open>mem\<close> is the kernel memory the registered lights point into.\<close>

definition led_bit :: "(nat \<Rightarrow> u32) \<Rightarrow> kbd \<Rightarrow> nat \<Rightarrow> u8 \<Rightarrow> u8" where
  "led_bit mem s i leds =
    (case ledptrs s ! i of None \<Rightarrow> leds
     | Some (addr, msk) \<Rightarrow>
        if mem addr AND msk \<noteq> 0 then leds OR push_bit i 1 else leds AND NOT (push_bit i 1))"

definition getleds :: "(nat \<Rightarrow> u32) \<Rightarrow> kbd \<Rightarrow> u8" where
  "getleds mem s =
    (if ledmode s = LED_SHOW_IOCTL then ledioctl s
     else if ledmode s = LED_SHOW_MEM
     then led_bit mem s 2 (led_bit mem s 1 (led_bit mem s 0 (ledflagstate s)))
     else ledflagstate s)"

definition setledstate :: "u32 \<Rightarrow> kbd \<Rightarrow> kbd" where
  "setledstate led s =
    note_k Set_leds
      (if led AND NOT 7 = 0 then s\<lparr>ledioctl := ucast led, ledmode := LED_SHOW_IOCTL\<rparr>
       else s\<lparr>ledmode := LED_SHOW_FLAGS\<rparr>)"

definition register_leds :: "nat \<Rightarrow> nat \<Rightarrow> u32 \<Rightarrow> kbd \<Rightarrow> kbd" where
  "register_leds led addr msk s =
    (if led < 3 then s\<lparr>ledptrs := (ledptrs s)[led := Some (addr, msk)], ledmode := LED_SHOW_MEM\<rparr>
     else s\<lparr>ledmode := LED_SHOW_FLAGS\<rparr>)"

definition kbd_bh :: "kbd_env \<Rightarrow> (nat \<Rightarrow> u32) \<Rightarrow> kbd \<Rightarrow> kbd" where
  "kbd_bh E mem s =
    (let leds = getleds mem s;
         s = (if rep s \<and> kbd_repeatkeycode s \<noteq> -1
              then kbd_processkeycode E (word_of_int (kbd_repeatkeycode s)) False (s\<lparr>tty := ttytab s\<rparr>)
              else s)
     in if leds \<noteq> ledstate s
        then let s = s\<lparr>ledstate := leds\<rparr> in if kbd_ledfunc s then note_k (Ledfunc leds) s else s
        else s)"

definition key_callback :: "kbd \<Rightarrow> kbd" where
  "key_callback s = note_k Tasklet (s\<lparr>rep := True\<rparr>)"

section \<open>Initial state\<close>

text \<open>The statics and what \<open>kbd_init\<close> stores; \<open>DECLARE_TASKLET_DISABLED\<close> leaves the tasklet off.\<close>

definition kbd_init :: "kbd_env \<Rightarrow> kbd" where
  "kbd_init E =
    \<lparr>down_to_up = False, prev_scancode = 0, k_down = replicate (NR_SHIFT E) 0, key_down = replicate 8 0,
     dead_key_next = False, shift_state = 0, npadch = -1, diacr = 0, rep = False,
     kbd_repeatkeycode = -1, autorepeat_timer = False, tty = False, tty_data = False,
     tty_stopped = False, ttytab = True, kbd_pt_regs = False, spawnpid = False,
     kbdmode = VC_XLATE, lockstate = 0, slockstate = 0, ledflagstate = 0, ledmode = LED_SHOW_FLAGS,
     vc_repeat = True, vc_meta = True, vc_applic = False, vc_ckmode = False, vc_crlf = False,
     ledstate = 0xff, ledioctl = 0, ledptrs = replicate 3 None, kbd_ledfunc = False,
     tasklet_enabled = False, kfault = False, kout = []\<rparr>"

end
