(* ===== verification/Kbd_Shift.thy ===== *)
theory Kbd_Shift
  imports Kbd
begin

text \<open>
  What the handlers of Kbd leave alone, and the shift state: the counters \<open>k_down\<close> and the mask
  \<open>shift_state\<close> follow the keys that are down.
\<close>

section \<open>Frames\<close>

text \<open>The part of the state that only the key bitmap and the shift handlers change.\<close>

definition sh :: "kbd \<Rightarrow> u8 list \<times> u32 \<times> u32 list \<times> bool" where
  "sh s = (k_down s, shift_state s, key_down s, rep s)"

text \<open>The part that no key handler changes.\<close>

definition fx :: "kbd \<Rightarrow> kbdmode \<times> bool \<times> bool \<times> bool \<times> bool \<times> int \<times> bool \<times> int \<times> bool" where
  "fx s = (kbdmode s, tty s, tty_data s, ttytab s, tasklet_enabled s, kbd_repeatkeycode s,
           autorepeat_timer s, prev_scancode s, down_to_up s)"

lemma sh_note [simp]: "sh (note_k e s) = sh s" "fx (note_k e s) = fx s"
  by (simp_all add: sh_def fx_def note_k_def)

lemma sh_fault [simp]: "sh (fault_k s) = sh s" "fx (fault_k s) = fx s"
  by (simp_all add: sh_def fx_def fault_k_def)

lemma sh_fields [simp]:
  "sh (s\<lparr>diacr := d\<rparr>) = sh s" "fx (s\<lparr>diacr := d\<rparr>) = fx s"
  "sh (s\<lparr>npadch := n\<rparr>) = sh s" "fx (s\<lparr>npadch := n\<rparr>) = fx s"
  "sh (s\<lparr>dead_key_next := b\<rparr>) = sh s" "fx (s\<lparr>dead_key_next := b\<rparr>) = fx s"
  "sh (s\<lparr>ledflagstate := l\<rparr>) = sh s" "fx (s\<lparr>ledflagstate := l\<rparr>) = fx s"
  "sh (s\<lparr>lockstate := l\<rparr>) = sh s" "fx (s\<lparr>lockstate := l\<rparr>) = fx s"
  "sh (s\<lparr>slockstate := l\<rparr>) = sh s" "fx (s\<lparr>slockstate := l\<rparr>) = fx s"
  "fx (s\<lparr>k_down := kd\<rparr>) = fx s" "fx (s\<lparr>shift_state := ss\<rparr>) = fx s" "fx (s\<lparr>key_down := kb\<rparr>) = fx s"
  "fx (s\<lparr>rep := r\<rparr>) = fx s"
  by (simp_all add: sh_def fx_def)

lemma sh_fold_note [simp]: "sh (fold (\<lambda>c. note_k (f c)) cp s) = sh s" "fx (fold (\<lambda>c. note_k (f c)) cp s) = fx s"
  by (induction cp arbitrary: s) simp_all

lemma sh_queue [simp]:
  "sh (put_queue c s) = sh s" "fx (put_queue c s) = fx s"
  "sh (puts_queue cp s) = sh s" "fx (puts_queue cp s) = fx s"
  by (simp_all add: put_queue_def puts_queue_def Let_def)

lemma sh_out [simp]:
  "sh (to_utf8 w s) = sh s" "fx (to_utf8 w s) = fx s"
  "sh (applkey k m s) = sh s" "fx (applkey k m s) = fx s"
  by (simp_all add: to_utf8_def applkey_def)

lemma sh_handle_diacr: "sh (snd (handle_diacr E c s)) = sh s \<and> fx (snd (handle_diacr E c s)) = fx s"
  by (auto simp: handle_diacr_def Let_def split: option.split)

lemma sh_diacr [simp]:
  "handle_diacr E c s = (v, t) \<Longrightarrow> sh t = sh s" "handle_diacr E c s = (v, t) \<Longrightarrow> fx t = fx s"
  using sh_handle_diacr [of E c s] by simp_all

lemma sh_do_self [simp]: "sh (do_self E v up s) = sh s" "fx (do_self E v up s) = fx s"
  by (auto simp: do_self_def Let_def split: prod.split)

lemma sh_do_dead2 [simp]: "sh (do_dead2 E v up s) = sh s" "fx (do_dead2 E v up s) = fx s"
  by (auto simp: do_dead2_def Let_def split: prod.split)

lemma sh_do_dead [simp]: "sh (do_dead E v up s) = sh s" "fx (do_dead E v up s) = fx s"
  by (simp_all add: do_dead_def)

lemma sh_do_fn [simp]: "sh (do_fn E v up s) = sh s" "fx (do_fn E v up s) = fx s"
  by (auto simp: do_fn_def split: option.split)

lemma sh_do_cur [simp]: "sh (do_cur v up s) = sh s" "fx (do_cur v up s) = fx s"
  by (simp_all add: do_cur_def)

lemma sh_pad_cursor: "pad_cursor E v s = Some t \<Longrightarrow> sh t = sh s \<and> fx t = fx s"
  by (auto simp: pad_cursor_def split: if_splits)

lemma sh_do_pad [simp]: "sh (do_pad E v up s) = sh s" "fx (do_pad E v up s) = fx s"
  by (auto simp: do_pad_def Let_def dest: sh_pad_cursor split: option.split)

lemma sh_simple_handlers [simp]:
  "sh (do_cons v up s) = sh s" "fx (do_cons v up s) = fx s"
  "sh (do_meta v up s) = sh s" "fx (do_meta v up s) = fx s"
  "sh (do_ascii v up s) = sh s" "fx (do_ascii v up s) = fx s"
  "sh (do_lock v up s) = sh s" "fx (do_lock v up s) = fx s"
  "sh (chg_slock v s) = sh s" "fx (chg_slock v s) = fx s"
  "sh (do_ignore v up s) = sh s" "fx (do_ignore v up s) = fx s"
  "sh (do_lowercase v up s) = sh s" "fx (do_lowercase v up s) = fx s"
  by (simp_all add: do_cons_def do_meta_def do_ascii_def do_lock_def chg_slock_def do_ignore_def
      do_lowercase_def Let_def split: prod.split)

text \<open>Of the special functions only \<open>do_null\<close>, entry 0, changes the shift state.\<close>

lemma sh_specials:
  "sh (enter s) = sh s" "fx (enter s) = fx s" "sh (show_ptregs s) = sh s" "fx (show_ptregs s) = fx s"
  "sh (send_intr s) = sh s" "fx (send_intr s) = fx s"
  "sh (caps_toggle E s) = sh s" "fx (caps_toggle E s) = fx s"
  "sh (kp_num E s) = sh s" "fx (kp_num E s) = fx s" "sh (hold s) = sh s" "fx (hold s) = fx s"
  "sh (caps_on E s) = sh s" "fx (caps_on E s) = fx s"
  "sh (compose_key s) = sh s" "fx (compose_key s) = fx s" "sh (SAK s) = sh s" "fx (SAK s) = fx s"
  "sh (decr_console E s) = sh s" "fx (decr_console E s) = fx s"
  "sh (incr_console E s) = sh s" "fx (incr_console E s) = fx s"
  "sh (spawn_console s) = sh s" "fx (spawn_console s) = fx s"
  "sh (bare_num E s) = sh s" "fx (bare_num E s) = fx s"
  by (simp_all add: enter_def show_ptregs_def send_intr_def caps_toggle_def kp_num_def hold_def
      caps_on_def compose_key_def SAK_def decr_console_def incr_console_def spawn_console_def
      bare_num_def chg_led_def Let_def)

lemma fx_count_shift [simp]: "fx (count_shift E k s) = fx s"
  by (simp add: count_shift_def fx_def fault_k_def split: option.split)

lemma fx_fold_count [simp]: "fx (fold (count_shift E) ks s) = fx s"
  by (induction ks arbitrary: s) simp_all

lemma fx_compute [simp]: "fx (compute_shiftstate E s) = fx s"
  by (simp add: compute_shiftstate_def)

lemma length_specials: "length (spec_fn_table E) = 20"
  by (simp add: spec_fn_table_def)

lemma specials_frame:
  "list_all (\<lambda>h. \<forall>s. fx (h s) = fx s) (spec_fn_table E)"
  "list_all (\<lambda>h. \<forall>s. sh (h s) = sh s) (tl (spec_fn_table E))"
  by (simp_all add: spec_fn_table_def sh_specials)

lemma spec_entry:
  assumes "n < 20"
  shows "fx ((spec_fn_table E ! n) s) = fx s"
    and "n \<noteq> 0 \<Longrightarrow> sh ((spec_fn_table E ! n) s) = sh s"
    and "n = 0 \<Longrightarrow> (spec_fn_table E ! n) s = compute_shiftstate E s"
proof -
  show "fx ((spec_fn_table E ! n) s) = fx s"
    using nth_below [OF specials_frame(1)] assms by (simp add: length_specials)
  show "sh ((spec_fn_table E ! n) s) = sh s" if "n \<noteq> 0"
    using nth_below [OF specials_frame(2), of "n - 1"] assms that by (simp add: length_specials nth_tl)
  show "(spec_fn_table E ! n) s = compute_shiftstate E s" if "n = 0"
    using that by (simp add: spec_fn_table_def)
qed

lemma fx_do_spec [simp]: "fx (do_spec E v up s) = fx s"
  using spec_entry(1) [of "unat v" E s] by (simp add: do_spec_def length_specials)

lemma fx_shift_steps [simp]:
  "fx (shift_count v up s) = fx s" "fx (shift_mask v s) = fx s"
  "fx (flush_npadch s) = fx s" "fx (undo_capslock E s) = fx s"
  by (simp_all add: shift_count_def shift_mask_def flush_npadch_def undo_capslock_def)

lemma fx_do_shift [simp]: "fx (do_shift E v up s) = fx s"
  by (simp add: do_shift_def Let_def)

lemma fx_do_slock [simp]: "fx (do_slock E v up s) = fx s"
  by (simp add: do_slock_def Let_def)

lemma handlers_frame:
  "list_all (\<lambda>h. \<forall>v up s. fx (h v up s) = fx s) (key_handler E)"
  "list_all (\<lambda>(n, h). n \<notin> {2, 7, 12} \<longrightarrow> (\<forall>v up s. sh (h v up s) = sh s)) (enumerate 0 (key_handler E))"
  by (simp_all add: key_handler_def)

lemma handler_entry:
  assumes "n < 16"
  shows "fx ((key_handler E ! n) v up s) = fx s"
    and "n \<notin> {2, 7, 12} \<Longrightarrow> sh ((key_handler E ! n) v up s) = sh s"
proof -
  have len: "length (key_handler E) = 16" by (simp add: key_handler_def)
  show "fx ((key_handler E ! n) v up s) = fx s"
    using nth_below [OF handlers_frame(1)] assms by (simp add: len)
  show "sh ((key_handler E ! n) v up s) = sh s" if "n \<notin> {2, 7, 12}"
    using nth_below [OF handlers_frame(2), of n] assms that by (simp add: len nth_enumerate_eq)
qed

lemma KTYP_less: "KTYP k < 256"
proof -
  have "unat (drop_bit 8 k) = unat k div 256"
    unfolding unat_drop_bit_eq by (simp add: drop_bit_eq_div)
  moreover have "unat k < 65536" using unsigned_less [of k, where ?'a = nat] by simp
  ultimately show ?thesis by (simp add: KTYP_def)
qed

lemma fx_call_handler [simp]: "n < 16 \<Longrightarrow> fx (call_handler E n v up s) = fx s"
  by (simp add: call_handler_def Let_def handler_entry)

lemma fx_dispatch [simp]: "fx (dispatch E k up raw s) = fx s"
proof -
  have "KTYP w - 240 < 16" for w using KTYP_less [of w] by simp
  then show ?thesis
    by (auto simp: dispatch_def Let_def KT_LATIN_def KT_SPEC_def KT_SHIFT_def split: option.split)
qed

lemma sh_shift_steps [simp]: "sh (flush_npadch s) = sh s" "sh (undo_capslock E s) = sh s"
  by (simp_all add: flush_npadch_def undo_capslock_def)

section \<open>The key bitmap\<close>

definition held :: "kbd \<Rightarrow> u8 set" where
  "held s = {k. key_is_down s k}"

lemma held_sh: "sh s = sh t \<Longrightarrow> held s = held t"
  by (simp add: held_def key_is_down_def sh_def)

lemma same_bit: "unat (k::u8) div 32 = unat l div 32 \<Longrightarrow> unat k mod 32 = unat l mod 32 \<Longrightarrow> k = l"
  by (metis div_mult_mod_eq unsigned_word_eqI)

lemma word_index: "unat (k::u8) div 32 < 8"
  using unsigned_less [of k, where ?'a = nat] by simp

lemma set_bit_held:
  "length (key_down s) = 8 \<Longrightarrow> held (snd (mytest_and_set_bit k s)) = insert k (held s)"
  using word_index
  by (auto simp: held_def mytest_and_set_bit_def key_is_down_def note_k_def Let_def nth_list_update
      bit_simps dest: same_bit)

lemma clear_bit_held:
  "length (key_down s) = 8 \<Longrightarrow> held (snd (mytest_and_clear_bit k s)) = held s - {k}"
  using word_index
  by (auto simp: held_def mytest_and_clear_bit_def key_is_down_def note_k_def Let_def nth_list_update
      bit_simps dest: same_bit)

section \<open>Counters and mask\<close>

definition shift_keys :: "kbd_env \<Rightarrow> u8 set \<Rightarrow> nat \<Rightarrow> u8 set" where
  "shift_keys E H v = {k \<in> H. plain_shift E k = Some (of_nat v)}"

definition shift_ok :: "kbd_env \<Rightarrow> u8 set \<Rightarrow> kbd \<Rightarrow> bool" where
  "shift_ok E H s \<longleftrightarrow>
     length (k_down s) = NR_SHIFT E \<and>
     (\<forall>v < NR_SHIFT E. unat (k_down s ! v) = card (shift_keys E H v)) \<and>
     (\<forall>v. bit (shift_state s) v \<longleftrightarrow> v < NR_SHIFT E \<and> shift_keys E H v \<noteq> {})"

lemma shift_ok_sh: "sh s = sh t \<Longrightarrow> shift_ok E H s = shift_ok E H t"
  by (simp add: shift_ok_def sh_def)

lemma shift_keys_insert:
  "shift_keys E (insert k H) v =
     (if plain_shift E k = Some (of_nat v) then insert k (shift_keys E H v) else shift_keys E H v)"
  by (auto simp: shift_keys_def)

lemma shift_keys_remove: "shift_keys E (H - {k}) v = shift_keys E H v - {k}"
  by (auto simp: shift_keys_def)

lemma shift_keys_finite [simp]: "finite (shift_keys E H v)"
  by simp

lemma shift_keys_card:
  assumes "H \<subseteq> {k. k < 128}"
  shows "card (shift_keys E H v) \<le> 128"
proof -
  have "card (shift_keys E H v) = card (unat ` shift_keys E H v)"
    by (rule card_image [symmetric]) (simp add: inj_on_def word_unat_eq_iff)
  also have "\<dots> \<le> card {..<128::nat}"
    using assms by (intro card_mono) (auto simp: shift_keys_def word_less_nat_alt)
  finally show ?thesis by simp
qed

text \<open>
  The array of key maps is long enough for the masks: eight bits of shift keys and locks.
\<close>

definition maps_fit :: "kbd_env \<Rightarrow> bool" where
  "maps_fit E \<longleftrightarrow> 256 \<le> MAX_NR_KEYMAPS E \<and> KG_SHIFT E < 8 \<and> (\<forall>k v. plain_shift E k = Some v \<longrightarrow> unat v < 8)"

definition low8 :: "u32 \<Rightarrow> bool" where
  "low8 w \<longleftrightarrow> (\<forall>i. bit w i \<longrightarrow> i < 8)"

definition in_maps :: "kbd_env \<Rightarrow> kbd \<Rightarrow> bool" where
  "in_maps E s \<longleftrightarrow> unat (shift_final s) < MAX_NR_KEYMAPS E \<and>
     unat (shift_final s XOR push_bit (KG_SHIFT E) 1) < MAX_NR_KEYMAPS E"

lemma low8_less: "low8 w \<Longrightarrow> unat w < 256"
proof -
  assume "low8 w"
  then have "w = take_bit 8 w" by (intro bit_word_eqI) (auto simp: low8_def bit_take_bit_iff)
  then have "unat w = take_bit 8 (unat w)" by (metis unsigned_take_bit_eq)
  then show ?thesis using take_bit_nat_less_exp [of 8 "unat w"] by simp
qed

lemma low8_0 [simp]: "low8 0" by (simp add: low8_def)

lemma low8_set [simp]: "low8 w \<Longrightarrow> v < 8 \<Longrightarrow> low8 (w OR push_bit v 1)"
  by (auto simp: low8_def bit_simps)

lemma low8_power [simp]: "low8 w \<Longrightarrow> v < 8 \<Longrightarrow> low8 (w OR 2 ^ v)"
  using low8_set [of w v] by (simp add: push_bit_eq_mult)

lemma low8_ucast [simp]: "low8 (ucast (b :: u8))"
  by (auto simp: low8_def bit_simps dest: bit_imp_le_length)

lemma low8_clear [simp]: "low8 w \<Longrightarrow> low8 (w AND m)"
  by (auto simp: low8_def bit_simps)

lemma low8_in_maps:
  assumes "maps_fit E" "low8 (shift_state s)"
  shows "in_maps E s"
proof -
  have "low8 (shift_final s)" using assms(2) low8_ucast [of "slockstate s"] low8_ucast [of "lockstate s"]
    by (auto simp: shift_final_def low8_def bit_or_iff bit_xor_iff)
  moreover then have "low8 (shift_final s XOR push_bit (KG_SHIFT E) 1)" using assms(1)
    by (auto simp: maps_fit_def low8_def bit_simps)
  ultimately show ?thesis using assms(1) low8_less by (fastforce simp: in_maps_def maps_fit_def)
qed

text \<open>
  The key maps agree with \<open>plain_map\<close> on what is a shift key and which one; there are at most 32
  of them.
\<close>

definition shift_sym :: "kbd_env \<Rightarrow> keysym \<Rightarrow> u8 option" where
  "shift_sym E w =
    (if KTYP w = 0xf0 + KT_SHIFT \<or> KTYP w = 0xf0 + KT_SLOCK
     then Some (if KVAL w = KG_CAPSSHIFT E then of_nat (KG_SHIFT E) else KVAL w) else None)"

definition shifts_agree :: "kbd_env \<Rightarrow> bool" where
  "shifts_agree E \<longleftrightarrow>
     maps_fit E \<and> NR_SHIFT E \<le> 32 \<and> KG_SHIFT E < NR_SHIFT E \<and>
     (\<forall>k v. plain_shift E k = Some v \<longrightarrow> unat v < NR_SHIFT E) \<and>
     (\<forall>m km k. key_maps E m = Some km \<longrightarrow> shift_sym E (km k) = plain_shift E k)"

lemma shift_sym_slot:
  assumes "shifts_agree E" "shift_sym E w = Some v"
  shows "v = of_nat (shift_slot E (KVAL w))"
  using assms by (auto simp: shift_sym_def shift_slot_def split: if_splits)

lemma slot_less:
  assumes A: "shifts_agree E" and v: "plain_shift E k = Some (of_nat (shift_slot E x))"
  shows "shift_slot E x < NR_SHIFT E"
proof (cases "x = KG_CAPSSHIFT E")
  case True with A show ?thesis by (simp add: shifts_agree_def shift_slot_def)
next
  case False
  then have "(of_nat (shift_slot E x) :: u8) = x" by (simp add: shift_slot_def)
  with A v have "unat x < NR_SHIFT E" by (simp add: shifts_agree_def)
  with False show ?thesis by (simp add: shift_slot_def)
qed

lemma unat_of_nat_u8: "v < 32 \<Longrightarrow> unat (of_nat v :: u8) = v"
  by (rule of_nat_inverse [OF refl]) simp

lemma of_nat_u8_eq: "v < 32 \<Longrightarrow> w < 32 \<Longrightarrow> (of_nat v :: u8) = of_nat w \<longleftrightarrow> v = w"
  by (metis unat_of_nat_u8)

lemma shift_ok_low:
  assumes "shift_ok E H s" "shifts_agree E"
  shows "low8 (shift_state s)"
  unfolding low8_def
proof (intro allI impI)
  fix v assume "bit (shift_state s) v"
  then obtain k where v: "v < 32" "plain_shift E k = Some (of_nat v)"
    using assms by (auto simp: shift_ok_def shifts_agree_def shift_keys_def)
  then have "unat (of_nat v :: u8) < 8" using assms(2) unfolding shifts_agree_def maps_fit_def by blast
  with v(1) show "v < 8" by (simp add: unat_of_nat_u8)
qed

section \<open>Pressing and releasing a shift key\<close>

lemma bit_slot:
  "v < 32 \<Longrightarrow> bit (w OR push_bit v 1 :: u32) n \<longleftrightarrow> n = v \<or> bit w n"
  "bit (w AND NOT (push_bit v 1) :: u32) n \<longleftrightarrow> n \<noteq> v \<and> bit w n"
  by (auto simp: bit_simps dest: bit_imp_le_length)

lemma sh_count_mask:
  "sh s = sh t \<Longrightarrow> sh (shift_mask v (shift_count v up s)) = sh (shift_mask v (shift_count v up t))"
  by (simp add: sh_def shift_mask_def shift_count_def)

lemma k_down_undo [simp]: "k_down (undo_capslock E s) = k_down s"
  by (simp add: undo_capslock_def)

text \<open>One more key of slot \<open>v\<close>: the counter goes up and the bit is set.\<close>

lemma shift_ok_bump:
  assumes ok: "shift_ok E H s" and A: "shifts_agree E" and H: "H \<subseteq> {k. k < 128}" and new: "k \<notin> H"
    and v: "plain_shift E k = Some (of_nat v)" and v_lt: "v < NR_SHIFT E"
    and kd: "k_down t = (k_down s)[v := k_down s ! v + 1]"
    and ss: "shift_state t = shift_state s OR push_bit v 1"
  shows "shift_ok E (insert k H) t" and "k_down s ! v + 1 \<noteq> 0"
proof -
  have n32: "NR_SHIFT E \<le> 32" using A by (simp add: shifts_agree_def)
  have len: "length (k_down s) = NR_SHIFT E" using ok by (simp add: shift_ok_def)
  have fresh: "k \<notin> shift_keys E H w" for w using new by (simp add: shift_keys_def)
  have keys: "shift_keys E (insert k H) w = (if w = v then insert k (shift_keys E H w) else shift_keys E H w)"
    if "w < NR_SHIFT E" for w
    using that v_lt n32 v of_nat_u8_eq [of v w] by (simp add: shift_keys_insert)
  have small: "card (shift_keys E H v) \<le> 128" by (rule shift_keys_card [OF H])
  have cnt: "unat (k_down s ! v) = card (shift_keys E H v)" using ok v_lt by (simp add: shift_ok_def)
  have up1: "unat (k_down s ! v + 1) = Suc (card (shift_keys E H v))"
    using small cnt by (simp add: unat_word_ariths)
  then show "k_down s ! v + 1 \<noteq> 0" by auto
  have v32: "v < 32" using v_lt n32 by simp
  have bits: "bit (shift_state t) w \<longleftrightarrow> w = v \<or> bit (shift_state s) w" for w
    unfolding ss by (rule bit_slot(1) [OF v32])
  show "shift_ok E (insert k H) t"
    unfolding shift_ok_def
  proof (intro conjI allI impI)
    show "length (k_down t) = NR_SHIFT E" by (simp add: kd len)
  next
    fix w assume "w < NR_SHIFT E"
    then show "unat (k_down t ! w) = card (shift_keys E (insert k H) w)"
      using ok up1 fresh by (auto simp: kd keys len nth_list_update shift_ok_def)
  next
    fix w
    show "bit (shift_state t) w \<longleftrightarrow> w < NR_SHIFT E \<and> shift_keys E (insert k H) w \<noteq> {}"
      using ok v_lt n32 keys [of w] by (cases "w = v") (auto simp: bits shift_ok_def)
  qed
qed

lemma do_shift_press:
  assumes ok: "shift_ok E H s" and A: "shifts_agree E" and H: "H \<subseteq> {k. k < 128}"
    and new: "k \<notin> H" and v: "plain_shift E k = Some (of_nat (shift_slot E x))" and rep: "\<not> rep s"
  shows "shift_ok E (insert k H) (do_shift E x False s)"
proof -
  let ?v = "shift_slot E x"
  define t where "t = shift_mask ?v (shift_count ?v False s)"
  have v_lt: "?v < NR_SHIFT E" by (rule slot_less [OF A v])
  have len: "length (k_down s) = NR_SHIFT E" using ok by (simp add: shift_ok_def)
  have sh: "sh (do_shift E x False s) = sh t"
    using rep v_lt len sh_count_mask [OF sh_shift_steps(2) [of E s], of ?v False]
    by (auto simp: do_shift_def Let_def t_def)
  have nz: "k_down s ! ?v + 1 \<noteq> 0" 
    by (rule shift_ok_bump(2) [OF ok A H new v v_lt, of "s\<lparr>k_down := (k_down s)[?v := k_down s ! ?v + 1],
          shift_state := shift_state s OR push_bit ?v 1\<rparr>"]) simp_all
  have "shift_ok E (insert k H) t"
    by (rule shift_ok_bump(1) [OF ok A H new v v_lt])
      (use nz v_lt len in \<open>simp_all add: t_def shift_count_def shift_mask_def\<close>)
  then show ?thesis using shift_ok_sh [OF sh] by simp
qed

lemma do_shift_release:
  assumes ok: "shift_ok E H s" and A: "shifts_agree E"
    and old: "k \<in> H" and v: "plain_shift E k = Some (of_nat (shift_slot E x))" and rep: "\<not> rep s"
  shows "shift_ok E (H - {k}) (do_shift E x True s)"
proof -
  let ?v = "shift_slot E x"
  define t where "t = shift_mask ?v (shift_count ?v True s)"
  have v_lt: "?v < NR_SHIFT E" by (rule slot_less [OF A v])
  have n32: "NR_SHIFT E \<le> 32" using A by (simp add: shifts_agree_def)
  have len: "length (k_down s) = NR_SHIFT E" using ok by (simp add: shift_ok_def)
  have sh: "sh (do_shift E x True s) = sh t"
    using rep v_lt len by (simp add: do_shift_def Let_def t_def)
  have mem: "k \<in> shift_keys E H ?v" using old v by (simp add: shift_keys_def)
  have keys: "shift_keys E (H - {k}) w = (if w = ?v then shift_keys E H w - {k} else shift_keys E H w)"
    if "w < NR_SHIFT E" for w
    using that v_lt n32 v of_nat_u8_eq [of w ?v] by (auto simp: shift_keys_def)
  have cnt: "unat (k_down s ! ?v) = card (shift_keys E H ?v)" using ok v_lt by (simp add: shift_ok_def)
  have pos: "card (shift_keys E H ?v) \<noteq> 0" using mem by auto
  then have nz: "k_down s ! ?v \<noteq> 0" using cnt by auto
  then have dn: "unat (k_down s ! ?v - 1) = card (shift_keys E H ?v - {k})"
    using cnt mem by (simp add: unat_minus_one)
  have "finite (shift_keys E H ?v - {k})" by simp
  then have left: "k_down s ! ?v - 1 = 0 \<longleftrightarrow> shift_keys E H ?v - {k} = {}"
    using dn by (metis card_0_eq unat_eq_zero)
  have kd: "k_down t = (k_down s)[?v := k_down s ! ?v - 1]"
    using nz v_lt len by (simp add: t_def shift_count_def shift_mask_def)
  have ss: "shift_state t = (if shift_keys E H ?v - {k} \<noteq> {} then shift_state s OR push_bit ?v 1
                             else shift_state s AND NOT (push_bit ?v 1))"
    using nz v_lt len left by (simp add: t_def shift_count_def shift_mask_def)
  have v32: "?v < 32" using v_lt n32 by simp
  have bits: "bit (shift_state t) w \<longleftrightarrow>
      (if w = ?v then shift_keys E H ?v - {k} \<noteq> {} else bit (shift_state s) w)" for w
    unfolding ss using bit_slot(1) [OF v32, of _ w] bit_slot(2) [of _ ?v w] by presburger
  have "shift_ok E (H - {k}) t"
    unfolding shift_ok_def
  proof (intro conjI allI impI)
    show "length (k_down t) = NR_SHIFT E" by (simp add: kd len)
  next
    fix w assume "w < NR_SHIFT E"
    then show "unat (k_down t ! w) = card (shift_keys E (H - {k}) w)"
      using ok dn by (auto simp: kd keys len nth_list_update shift_ok_def)
  next
    fix w
    show "bit (shift_state t) w \<longleftrightarrow> w < NR_SHIFT E \<and> shift_keys E (H - {k}) w \<noteq> {}"
      using ok v_lt n32 keys [of w] by (cases "w = ?v") (auto simp: bits shift_ok_def)
  qed
  then show ?thesis using shift_ok_sh [OF sh] by simp
qed

section \<open>Recomputing the shift state\<close>

lemma count_shift_held [simp]:
  "key_down (count_shift E k s) = key_down s" "rep (count_shift E k s) = rep s"
  by (simp_all add: count_shift_def fault_k_def split: option.split)

lemma fold_count_held [simp]:
  "key_down (fold (count_shift E) ks s) = key_down s" "rep (fold (count_shift E) ks s) = rep s"
  by (induction ks arbitrary: s) simp_all

lemma key_is_down_count [simp]: "key_is_down (count_shift E k s) = key_is_down s"
  by (simp add: key_is_down_def fun_eq_iff)

text \<open>One key counted: like a shift key pressed.\<close>

lemma count_shift_step:
  assumes ok: "shift_ok E H s" and A: "shifts_agree E" and H: "H \<subseteq> {k. k < 128}" and new: "k \<notin> H"
  shows "shift_ok E (if key_is_down s k then insert k H else H) (count_shift E k s)"
proof (cases "key_is_down s k \<and> plain_shift E k \<noteq> None")
  case False
  then have "shift_ok E (if key_is_down s k then insert k H else H) s"
    using ok by (simp add: shift_ok_def shift_keys_insert)
  with False show ?thesis by (auto simp: count_shift_def)
next
  case True
  then obtain v where v: "plain_shift E k = Some v" by blast
  have len: "length (k_down s) = NR_SHIFT E" using ok by (simp add: shift_ok_def)
  have v_lt: "unat v < NR_SHIFT E" using A v by (simp add: shifts_agree_def)
  have "shift_ok E (insert k H) (count_shift E k s)"
    by (rule shift_ok_bump(1) [OF ok A H new _ v_lt]) (use True v v_lt len in \<open>simp_all add: count_shift_def\<close>)
  with True show ?thesis by simp
qed

lemma fold_count_shift:
  assumes "shift_ok E H s" "shifts_agree E" "held s \<subseteq> {k. k < 128}" "H \<subseteq> held s"
    "distinct ks" "set ks \<inter> H = {}"
  shows "shift_ok E (H \<union> (held s \<inter> set ks)) (fold (count_shift E) ks s)"
  using assms
proof (induction ks arbitrary: H s)
  case (Cons k ks)
  let ?H = "if key_is_down s k then insert k H else H"
  have "shift_ok E ?H (count_shift E k s)"
    using Cons.prems by (intro count_shift_step) auto
  moreover have held: "held (count_shift E k s) = held s"
    by (simp add: held_def)
  moreover have "?H \<subseteq> held s" using Cons.prems by (auto simp: held_def)
  moreover have "set ks \<inter> ?H = {}" using Cons.prems by auto
  ultimately have "shift_ok E (?H \<union> (held s \<inter> set ks)) (fold (count_shift E) ks (count_shift E k s))"
    using Cons.IH [of ?H "count_shift E k s"] Cons.prems by simp
  moreover have "?H \<union> (held s \<inter> set ks) = H \<union> (held s \<inter> set (k # ks))"
    by (auto simp: held_def)
  ultimately show ?case by simp
qed simp

lemma all_bytes: "k \<in> set (map of_nat [0..<256])" for k :: u8
proof -
  have "k = of_nat (unat k)" by simp
  moreover have "unat k < 256" using unsigned_less [of k, where ?'a = nat] by simp
  ultimately show ?thesis by (auto intro: image_eqI [of _ _ "unat k"])
qed

lemma distinct_bytes: "distinct (map of_nat [0..<256] :: u8 list)"
proof -
  have "unat (of_nat x :: u8) = x" if "x < 256" for x
    by (rule of_nat_inverse [OF refl]) (use that in simp)
  then show ?thesis by (auto simp: distinct_map inj_on_def) metis
qed

lemma compute_ok:
  assumes A: "shifts_agree E" and len: "length (k_down s) = NR_SHIFT E" and H: "held s \<subseteq> {k. k < 128}"
  shows "shift_ok E (held s) (compute_shiftstate E s)"
proof -
  let ?s = "s\<lparr>shift_state := 0, k_down := map (\<lambda>_. 0) (k_down s)\<rparr>"
  have "shift_ok E {} ?s"
    using len by (simp add: shift_ok_def shift_keys_def)
  moreover have "held ?s = held s" by (simp add: held_def key_is_down_def)
  ultimately have "shift_ok E ({} \<union> (held ?s \<inter> set (map of_nat [0..<256]))) (compute_shiftstate E s)"
    unfolding compute_shiftstate_def using A H distinct_bytes by (intro fold_count_shift) auto
  then show ?thesis using all_bytes \<open>held ?s = held s\<close> by (metis Int_absorb2 Un_empty_left subsetI)
qed

section \<open>A keycode processed\<close>

lemma key_rep_frame: "sh s = sh t \<Longrightarrow> key_down s = key_down t \<and> rep s = rep t"
  by (simp add: sh_def)

lemma key_rep_do_shift [simp]: "key_down (do_shift E x up s) = key_down s" "rep (do_shift E x up s) = rep s"
proof -
  have *: "key_down (shift_mask v (shift_count v up t)) = key_down t" "rep (shift_mask v (shift_count v up t)) = rep t"
    "key_down (flush_npadch t) = key_down t" "rep (flush_npadch t) = rep t"
    "key_down (undo_capslock E t) = key_down t" "rep (undo_capslock E t) = rep t"
    "key_down (fault_k t) = key_down t" "rep (fault_k t) = rep t" for v t and up :: bool
    using key_rep_frame [OF sh_shift_steps(1)] key_rep_frame [OF sh_shift_steps(2)]
    by (simp_all add: shift_mask_def shift_count_def fault_k_def)
  show "key_down (do_shift E x up s) = key_down s" "rep (do_shift E x up s) = rep s"
    by (simp_all add: do_shift_def Let_def * split del: if_split cong: if_cong) (simp_all add: *)
qed

lemma key_rep_compute [simp]: "key_down (compute_shiftstate E s) = key_down s" "rep (compute_shiftstate E s) = rep s"
  by (simp_all add: compute_shiftstate_def)

lemma sh_call_plain: "n < 16 \<Longrightarrow> n \<notin> {2, 7, 12} \<Longrightarrow> sh (call_handler E n v up s) = sh s"
  using handler_entry(2) [of n E v up s] by (simp add: call_handler_def Let_def KT_SLOCK_def)

lemma sh_call_shift: "n = 7 \<or> n = 12 \<Longrightarrow> sh (call_handler E n v up s) = sh (do_shift E v up s)"
  by (auto simp: call_handler_def key_handler_def do_slock_def Let_def)

lemma sh_do_spec: "sh (do_spec E v up s) = sh s \<or> sh (do_spec E v up s) = sh (compute_shiftstate E s)"
  using spec_entry(2,3) [of "unat v" E s]
  by (cases "unat v = 0") (simp_all add: do_spec_def length_specials)

lemma sh_call_spec:
  "sh (call_handler E 2 v up s) = sh s \<or> sh (call_handler E 2 v up s) = sh (compute_shiftstate E s)"
  using sh_do_spec [of E v up s] by (simp add: call_handler_def key_handler_def Let_def)

lemma dispatch_call:
  assumes "key_maps E (shift_final s) = Some km" "in_maps E s"
  shows "0xf0 \<le> KTYP (km k) \<Longrightarrow> KTYP (km k) \<noteq> 251 \<Longrightarrow>
      dispatch E k up False s = call_handler E (KTYP (km k) - 0xf0) (KVAL (km k)) up s"
    and "KTYP (km k) = 251 \<Longrightarrow> \<exists>v. dispatch E k up False s = call_handler E 0 v up s"
    and "KTYP (km k) < 0xf0 \<Longrightarrow> dispatch E k up False s = (if up then s else to_utf8 (km k) s)"
  using assms by (auto simp: dispatch_def in_maps_def not_le [symmetric] Let_def KT_LETTER_def KT_LATIN_def)

lemma dispatch_shift_cases:
  assumes A: "shifts_agree E" and I: "in_maps E s"
  obtains (plain) "plain_shift E k = None" "sh (dispatch E k up False s) = sh s"
    | (null) "sh (dispatch E k up False s) = sh (compute_shiftstate E s)"
    | (shift) x where "plain_shift E k = Some (of_nat (shift_slot E x))"
        "sh (dispatch E k up False s) = sh (do_shift E x up s)"
proof (cases "key_maps E (shift_final s)")
  case None
  then show thesis using I by (intro null) (simp add: dispatch_def in_maps_def)
next
  case (Some km)
  note D = dispatch_call [OF Some I, of k up]
  have sym: "shift_sym E (km k) = plain_shift E k"
    using A Some by (simp add: shifts_agree_def)
  have t16: "KTYP (km k) - 240 < 16" using KTYP_less [of "km k"] by simp
  consider (mod) "KTYP (km k) = 247 \<or> KTYP (km k) = 252" | (special) "KTYP (km k) = 242"
    | (letter) "KTYP (km k) = 251" | (uni) "KTYP (km k) < 240"
    | (other) "240 \<le> KTYP (km k)" "KTYP (km k) \<notin> {242, 247, 251, 252}"
    by fastforce
  then show thesis
  proof cases
    case mod
    then have "plain_shift E k = Some (of_nat (shift_slot E (KVAL (km k))))"
      using sym by (auto simp: shift_sym_def shift_slot_def KT_SHIFT_def KT_SLOCK_def)
    moreover have "sh (dispatch E k up False s) = sh (do_shift E (KVAL (km k)) up s)"
      using mod D(1) sh_call_shift [of "KTYP (km k) - 240" E "KVAL (km k)" up s] by auto
    ultimately show thesis by (rule shift)
  next
    case special
    then have "plain_shift E k = None"
      using sym by (simp add: shift_sym_def KT_SHIFT_def KT_SLOCK_def)
    with special D(1) sh_call_spec [of E "KVAL (km k)" up s] show thesis
      by (auto intro: plain null)
  next
    case letter
    then have "plain_shift E k = None"
      using sym by (simp add: shift_sym_def KT_SHIFT_def KT_SLOCK_def)
    with D(2) [OF letter] show thesis by (auto intro: plain simp: sh_call_plain)
  next
    case uni
    then have "plain_shift E k = None"
      using sym by (simp add: shift_sym_def KT_SHIFT_def KT_SLOCK_def)
    with D(3) [OF uni] show thesis by (intro plain) simp_all
  next
    case other
    then have "plain_shift E k = None"
      using sym by (simp add: shift_sym_def KT_SHIFT_def KT_SLOCK_def)
    moreover have "KTYP (km k) - 240 \<notin> {2, 7, 12}" using other by auto
    ultimately show thesis using D(1) other sh_call_plain [OF t16] by (intro plain) simp_all
  qed
qed

text \<open>In the cooked modes a keycode goes to the bitmap, the repeat timer and the handler.\<close>

definition cooked :: "kbd \<Rightarrow> bool" where
  "cooked s \<longleftrightarrow> kbdmode s \<noteq> VC_RAW \<and> kbdmode s \<noteq> VC_MEDIUMRAW"

definition kbd_ok :: "kbd_env \<Rightarrow> kbd \<Rightarrow> bool" where
  "kbd_ok E s \<longleftrightarrow>
     shift_ok E (held s) s \<and> length (key_down s) = 8 \<and> \<not> rep s \<and> held s \<subseteq> {k. k < 128} \<and> cooked s"

lemma cooked_fx: "fx s = fx t \<Longrightarrow> cooked s = cooked t"
  by (simp add: cooked_def fx_def)

lemma arm_repeat_sh [simp]: "sh (arm_repeat E k up raw s) = sh s"
  by (simp add: arm_repeat_def Let_def add_timer_def del_timer_def note_k_def sh_def)

lemma arm_repeat_mode [simp]: "kbdmode (arm_repeat E k up raw s) = kbdmode s"
  by (simp add: arm_repeat_def Let_def add_timer_def del_timer_def note_k_def)

lemma track_key_cases:
  "track_key k False s = (False, (snd (mytest_and_set_bit k s))\<lparr>rep := False\<rparr>)"
  "track_key k True s = (True, snd (mytest_and_clear_bit k (s\<lparr>rep := False\<rparr>)))"
  by (simp_all add: track_key_def mytest_and_set_bit_def mytest_and_clear_bit_def Let_def)

lemma track_key_frame [simp]:
  "kbdmode (snd (track_key k up s)) = kbdmode s" "k_down (snd (track_key k up s)) = k_down s"
  "shift_state (snd (track_key k up s)) = shift_state s" "\<not> rep (snd (track_key k up s))"
  "length (key_down (snd (track_key k up s))) = length (key_down s)" "fst (track_key k up s) = up"
  by (cases up; simp add: track_key_cases mytest_and_set_bit_def mytest_and_clear_bit_def Let_def note_k_def)+

lemma track_key_held:
  assumes "length (key_down s) = 8"
  shows "held (snd (track_key k up s)) = (if up then held s - {k} else insert k (held s))"
proof (cases up)
  case True
  then show ?thesis
    using clear_bit_held [of "s\<lparr>rep := False\<rparr>" k] assms
    by (simp add: track_key_cases) (simp add: held_def key_is_down_def)
next
  case False
  then show ?thesis
    using set_bit_held [OF assms, of k]
    by (simp add: track_key_cases) (simp add: held_def key_is_down_def)
qed

lemma process_cooked:
  assumes "cooked s"
  shows "kbd_processkeycode E k up s =
    dispatch E k up False (arm_repeat E k up False (snd (track_key k up s)))"
  using assms track_key_frame [of k up s] unfolding kbd_processkeycode_def cooked_def Let_def
  by (simp add: prod.case_eq_if)

lemma process_ok:
  assumes ok: "kbd_ok E s" and A: "shifts_agree E" and k: "k < 128" and turn: "up \<longleftrightarrow> k \<in> held s"
  defines "t \<equiv> kbd_processkeycode E k up s"
  shows "kbd_ok E t" and "held t = (if up then held s - {k} else insert k (held s))"
proof -
  define u where "u = arm_repeat E k up False (snd (track_key k up s))"
  have c: "cooked s" and len8: "length (key_down s) = 8" and H: "held s \<subseteq> {k. k < 128}"
    and S: "shift_ok E (held s) s" using ok by (simp_all add: kbd_ok_def)
  have t: "t = dispatch E k up False u" using c by (simp add: t_def u_def process_cooked)
  have shu: "sh u = sh (snd (track_key k up s))" by (simp add: u_def)
  have heldu: "held u = (if up then held s - {k} else insert k (held s))"
    using track_key_held [OF len8] held_sh [OF shu] by simp
  have u: "k_down u = k_down s" "shift_state u = shift_state s" "\<not> rep u" "length (key_down u) = 8"
    using shu len8 track_key_frame [of k up s] by (auto simp: sh_def)
  have Su: "shift_ok E (held s) u" using S u by (simp add: shift_ok_def)
  have cu: "cooked u" using c by (simp add: u_def cooked_def)
  have fxt: "fx t = fx u" by (simp add: t)
  have Hu: "held u \<subseteq> {k. k < 128}" using H k heldu by auto
  have I: "in_maps E u" using low8_in_maps [OF _ shift_ok_low [OF Su A]] A by (simp add: shifts_agree_def)
  have dis: "key_down t = key_down u \<and> rep t = rep u \<and> shift_ok E (held u) t"
    using A I
  proof (cases rule: dispatch_shift_cases [of E u k up])
    case plain
    have "shift_keys E (held u) = shift_keys E (held s)"
      using plain(1) heldu by (auto simp: shift_keys_def fun_eq_iff)
    then have "shift_ok E (held u) u" using Su by (simp add: shift_ok_def)
    with plain(2) shift_ok_sh [OF plain(2)] key_rep_frame [OF plain(2)] show ?thesis by (simp add: t)
  next
    case null
    have "length (k_down u) = NR_SHIFT E" using Su by (simp add: shift_ok_def)
    then have "shift_ok E (held u) (compute_shiftstate E u)" by (rule compute_ok [OF A _ Hu])
    with null shift_ok_sh [OF null] key_rep_frame [OF null] show ?thesis by (simp add: t)
  next
    case (shift x)
    have "shift_ok E (held u) (do_shift E x up u)"
    proof (cases up)
      case True
      with turn do_shift_release [OF Su A _ shift(1) u(3)] heldu show ?thesis by simp
    next
      case False
      with turn do_shift_press [OF Su A H _ shift(1) u(3)] heldu show ?thesis by simp
    qed
    with shift(2) shift_ok_sh [OF shift(2)] key_rep_frame [OF shift(2)] show ?thesis by (simp add: t)
  qed
  then have "held t = held u" by (simp add: held_def key_is_down_def)
  with heldu show "held t = (if up then held s - {k} else insert k (held s))" by simp
  show "kbd_ok E t"
    using dis \<open>held t = held u\<close> u Hu cooked_fx [OF fxt] cu by (simp add: kbd_ok_def)
qed

end
