(* ===== verification/Ps2.thy ===== *)
theory Ps2
  imports Kbd_Shift Mmio
begin

text \<open>
  The PS/2 keyboard's interrupt handler (EXP23/driver/keyb_ps2.c) on top of the keyboard driver:
  from the bytes a keyboard sends to keycodes, and from keycodes to characters.
\<close>

section \<open>The interrupt handler\<close>

datatype ps2_reg = SRCPND | INTPND | EINTPEND | KEYBYTE | GPFUP | EXTINT0

record ps2 = "ps2_reg machine" +
  kb :: kbd
  irq_requests :: "(string \<times> bool) list"

definition rmw :: "ps2_reg dev \<Rightarrow> ps2_reg \<Rightarrow> (u32 \<Rightarrow> u32) \<Rightarrow> ps2 \<Rightarrow> ps2" where
  "rmw dev r f s = (let (v, s) = rd dev r s in wr r (f v) s)"

text \<open>The switch, the pending break prefix, and the call of \<open>handle_scancode\<close>.\<close>

definition scancode_in :: "kbd_env \<Rightarrow> u8 \<Rightarrow> kbd \<Rightarrow> kbd" where
  "scancode_in E c s =
    (if c = 0xF0 then s\<lparr>down_to_up := True\<rparr>
     else let v = set1_of c;
              (v, s) = (if down_to_up s then (v OR 0x80, s\<lparr>down_to_up := False\<rparr>) else (v, s))
          in handle_scancode E v (v AND 0x80 = 0) s)"

definition keyboard_interrupt :: "ps2_reg dev \<Rightarrow> kbd_env \<Rightarrow> ps2 \<Rightarrow> ps2" where
  "keyboard_interrupt dev E s =
    (let s = rmw dev SRCPND (\<lambda>v. v AND NOT 0x10) s;
         s = rmw dev INTPND (\<lambda>v. v) s;
         s = rmw dev EINTPEND (\<lambda>v. v AND NOT 0x10) s;
         (c, s) = rd dev KEYBYTE s
     in s\<lparr>kb := scancode_in E (ucast c) (kb s)\<rparr>)"

text \<open>\<open>ok\<close> tells whether \<open>request_irq\<close> succeeds; a failure is only printed.\<close>

definition keyboard_init :: "ps2_reg dev \<Rightarrow> bool \<Rightarrow> ps2 \<Rightarrow> ps2" where
  "keyboard_init dev ok s =
    (let s = wr GPFUP 0 s;
         s = s\<lparr>irq_requests := irq_requests s @ [(''test_keyboard'', ok)]\<rparr>
     in rmw dev EXTINT0 (\<lambda>v. v OR 0x00040000) s)"

section \<open>The bytes of a keyboard\<close>

text \<open>
  The keys of a PS/2 keyboard in code set 2: a make code, or the prefix \<open>E0\<close> and a make code; Print
  Screen wraps a second code into a shift of its own, and Pause sends one sequence when it is
  pressed and nothing when it is released.
\<close>

datatype key = Plain u8 | Ext u8 | Print_Screen | Pause

fun key_bytes :: "key \<times> bool \<Rightarrow> u8 list" where
  "key_bytes (Plain c, up) = (if up then [0xF0, c] else [c])"
| "key_bytes (Ext c, up) = (if up then [0xE0, 0xF0, c] else [0xE0, c])"
| "key_bytes (Print_Screen, up) =
     (if up then [0xE0, 0xF0, 0x7C, 0xE0, 0xF0, 0x12] else [0xE0, 0x12, 0xE0, 0x7C])"
| "key_bytes (Pause, up) = (if up then [] else [0xE1, 0x14, 0x77, 0xE1, 0xF0, 0x14, 0xF0, 0x77])"

text \<open>The keycodes the kernel has for them.\<close>

definition plain_keys :: "(u8 \<times> u8) list" where
  "plain_keys = filter (\<lambda>(c, v). v < 0x59) set2_to_set1"

definition ext_keys :: "(u8 \<times> u8) list" where
  "ext_keys =
    [(0x5A, 96), (0x14, 97), (0x4A, 98), (0x11, 100), (0x7E, 101), (0x6C, 102), (0x75, 103), (0x7D, 104),
     (0x6B, 105), (0x74, 106), (0x69, 107), (0x72, 108), (0x7A, 109), (0x70, 110), (0x71, 111),
     (0x1F, 125), (0x27, 126), (0x2F, 127)]"

fun supported :: "key \<Rightarrow> bool" where
  "supported (Plain c) = (c \<in> fst ` set plain_keys)"
| "supported (Ext c) = (c \<in> fst ` set ext_keys)"
| "supported _ = True"

fun keycode_of :: "key \<Rightarrow> u8" where
  "keycode_of (Plain c) = the (map_of plain_keys c)"
| "keycode_of (Ext c) = the (map_of ext_keys c)"
| "keycode_of Print_Screen = 99"
| "keycode_of Pause = 119"

fun key_events :: "key \<times> bool \<Rightarrow> (u8 \<times> bool) list" where
  "key_events (Pause, up) = (if up then [] else [(119, False), (119, True)])"
| "key_events (k, up) = [(keycode_of k, up)]"

definition run_events :: "kbd_env \<Rightarrow> (u8 \<times> bool) list \<Rightarrow> kbd \<Rightarrow> kbd" where
  "run_events E evs = fold (\<lambda>(k, up). kbd_processkeycode E k up) evs"

section \<open>Decoding\<close>

text \<open>What one byte does to the two pieces of state before keycodes: pending break, prefix.\<close>

definition decode_byte :: "u8 \<Rightarrow> bool \<times> int \<Rightarrow> (u8 \<times> bool) option \<times> bool \<times> int" where
  "decode_byte c st =
    (if c = 0xF0 then (None, True, snd st)
     else let v = (if fst st then set1_of c OR 0x80 else set1_of c); (k, p) = kbd_translate v (snd st)
          in (map_option (\<lambda>k. (k, v AND 0x80 \<noteq> 0)) k, False, p))"

fun decode :: "u8 list \<Rightarrow> bool \<times> int \<Rightarrow> (u8 \<times> bool) list \<times> bool \<times> int" where
  "decode [] st = ([], st)"
| "decode (c # cs) st =
     (case decode_byte c st of (e, st) \<Rightarrow>
      case decode cs st of (es, st) \<Rightarrow> (case e of None \<Rightarrow> es | Some e \<Rightarrow> e # es, st))"

lemma decode_append:
  "decode (cs @ ds) st = (case decode cs st of (es, st) \<Rightarrow> case decode ds st of (fs, st) \<Rightarrow> (es @ fs, st))"
  by (induction cs arbitrary: st) (auto split: prod.splits option.splits)

lemma set1_of_entry:
  assumes "(c, v) \<in> set set2_to_set1"
  shows "set1_of c = v"
  using map_of_is_SomeI [OF distinct_set2 assms] by (simp add: set1_of_def)

lemma plain_codes:
  "list_all (\<lambda>(c, v). c \<noteq> 0xF0 \<and> kbd_translate v 0 = (Some v, 0) \<and> kbd_translate (v OR 0x80) 0 = (Some v, 0) \<and>
     v AND 0x80 = 0 \<and> (v OR 0x80) AND 0x80 \<noteq> 0) plain_keys"
  by code_simp

lemma plain_bytes:
  assumes "(c, v) \<in> set plain_keys"
  shows "decode [c] (False, 0) = ([(v, False)], False, 0)"
    and "decode [0xF0, c] (False, 0) = ([(v, True)], False, 0)"
proof -
  have "set1_of c = v" using assms by (intro set1_of_entry) (simp add: plain_keys_def)
  moreover have "c \<noteq> 0xF0" "kbd_translate v 0 = (Some v, 0)" "kbd_translate (v OR 0x80) 0 = (Some v, 0)"
    "v AND 0x80 = 0" "(v OR 0x80) AND 0x80 \<noteq> 0"
    using plain_codes assms by (auto simp: list_all_iff)
  ultimately show "decode [c] (False, 0) = ([(v, False)], False, 0)"
    and "decode [0xF0, c] (False, 0) = ([(v, True)], False, 0)"
    by (simp_all add: decode_byte_def)
qed

lemma ext_bytes:
  "list_all (\<lambda>(c, v). decode [0xE0, c] (False, 0) = ([(v, False)], False, 0) \<and>
     decode [0xE0, 0xF0, c] (False, 0) = ([(v, True)], False, 0)) ext_keys"
  by code_simp

lemma long_keys:
  "decode [0xE0, 0xF0, 0x7C, 0xE0, 0xF0, 0x12] (False, 0) = ([(99, True)], False, 0)"
  "decode [0xE0, 0x12, 0xE0, 0x7C] (False, 0) = ([(99, False)], False, 0)"
  "decode [0xE1, 0x14, 0x77, 0xE1, 0xF0, 0x14, 0xF0, 0x77] (False, 0) = ([(119, False), (119, True)], False, 0)"
  by code_simp+

section \<open>The handler decodes\<close>

text \<open>What processing a keycode leaves alone.\<close>

definition fp :: "kbd \<Rightarrow> kbdmode \<times> bool \<times> bool \<times> int \<times> bool" where
  "fp s = (kbdmode s, tty s, tty_data s, prev_scancode s, down_to_up s)"

lemma fp_fx: "fx s = fx t \<Longrightarrow> fp s = fp t"
  by (simp add: fx_def fp_def)

lemma fp_steps [simp]:
  "fp (arm_repeat E k up raw s) = fp s" "fp (snd (track_key k up s)) = fp s" "fp (put_queue c s) = fp s"
  by (simp_all add: fp_def arm_repeat_def add_timer_def del_timer_def track_key_def Let_def note_k_def
      mytest_and_set_bit_def mytest_and_clear_bit_def put_queue_def)

lemma fp_process [simp]: "fp (kbd_processkeycode E k up s) = fp s"
  by (simp add: kbd_processkeycode_def Let_def prod.case_eq_if fp_fx [OF fx_dispatch])

lemma fp_run_events [simp]: "fp (run_events E evs s) = fp s"
  by (induction evs arbitrary: s) (auto simp: run_events_def)

text \<open>The keyboard is not in raw mode, and the terminal is not about to be dropped.\<close>

definition listening :: "kbd \<Rightarrow> bool" where
  "listening s \<longleftrightarrow> kbdmode s \<noteq> VC_RAW \<and> (tty s \<longrightarrow> tty_data s)"

lemma listening_fp: "fp s = fp t \<Longrightarrow> listening s = listening t"
  by (simp add: fp_def listening_def)

lemma listening_update [simp]: "listening (s\<lparr>down_to_up := d, prev_scancode := p\<rparr>) = listening s"
  by (simp add: listening_def)

lemma scancode_in_decode:
  assumes "listening s"
  shows "scancode_in E c s =
    (case decode_byte c (down_to_up s, prev_scancode s) of
       (None, d, p) \<Rightarrow> s\<lparr>down_to_up := d, prev_scancode := p\<rparr>
     | (Some (k, up), d, p) \<Rightarrow> kbd_processkeycode E k up (s\<lparr>down_to_up := d, prev_scancode := p\<rparr>))"
proof (cases "c = 0xF0")
  case True
  then show ?thesis by (simp add: scancode_in_def decode_byte_def)
next
  case False
  define v where "v = (if down_to_up s then set1_of c OR 0x80 else set1_of c)"
  define t where "t = s\<lparr>down_to_up := False\<rparr>"
  obtain k p where kp: "kbd_translate v (prev_scancode s) = (k, p)" by force
  have "(if down_to_up s then (set1_of c OR 0x80, s\<lparr>down_to_up := False\<rparr>) else (set1_of c, s)) = (v, t)"
    by (simp add: v_def t_def)
  then have "scancode_in E c s = handle_scancode E v (v AND 0x80 = 0) t"
    using False by (simp add: scancode_in_def)
  also have "\<dots> = (case k of None \<Rightarrow> t\<lparr>prev_scancode := p\<rparr>
      | Some k \<Rightarrow> kbd_processkeycode E k (v AND 0x80 \<noteq> 0) (t\<lparr>prev_scancode := p\<rparr>))"
    using assms kp by (auto simp: handle_scancode_def listening_def t_def Let_def split: option.split)
  finally show ?thesis
    using False kp by (cases k) (simp_all add: decode_byte_def v_def [symmetric] t_def)
qed

lemma decode_byte_event:
  "decode_byte c st = (Some e, st') \<Longrightarrow> st' = (False, 0)"
  by (auto simp: decode_byte_def Let_def split: if_splits prod.splits dest: kbd_translate_below)

lemma same_prefix_state:
  "fp s = fp t \<Longrightarrow> \<not> down_to_up t \<Longrightarrow> prev_scancode t = 0 \<Longrightarrow> s\<lparr>down_to_up := False, prev_scancode := 0\<rparr> = s"
  by (simp add: fp_def)

lemma bytes_run:
  assumes "listening s" "decode cs (down_to_up s, prev_scancode s) = (es, d, p)"
  shows "fold (scancode_in E) cs s =
    (run_events E es (s\<lparr>down_to_up := False, prev_scancode := 0\<rparr>))\<lparr>down_to_up := d, prev_scancode := p\<rparr>"
  using assms
proof (induction cs arbitrary: s es)
  case Nil
  then show ?case by (simp add: run_events_def)
next
  case (Cons c cs)
  obtain e d1 p1 where b: "decode_byte c (down_to_up s, prev_scancode s) = (e, d1, p1)"
    by (metis prod_cases3)
  obtain es' where rest: "decode cs (d1, p1) = (es', d, p)"
    and es: "es = (case e of None \<Rightarrow> es' | Some x \<Rightarrow> x # es')"
    using Cons.prems b by (auto split: prod.splits)
  define u where "u = s\<lparr>down_to_up := d1, prev_scancode := p1\<rparr>"
  have u: "listening u" "down_to_up u = d1" "prev_scancode u = p1"
    using Cons.prems by (simp_all add: u_def)
  show ?case
  proof (cases e)
    case None
    then have "scancode_in E c s = u"
      using b Cons.prems by (simp add: scancode_in_decode u_def)
    moreover have "decode cs (down_to_up u, prev_scancode u) = (es', d, p)" using rest u by simp
    ultimately show ?thesis
      using Cons.IH [OF u(1)] es None by (simp add: u_def)
  next
    case (Some x)
    obtain k up where x: "x = (k, up)" by force
    have z: "d1 = False" "p1 = 0" using decode_byte_event b Some by blast+
    define w where "w = kbd_processkeycode E k up u"
    have w: "fp w = fp u" by (simp add: w_def)
    have "scancode_in E c s = w"
      using b Cons.prems Some x by (simp add: scancode_in_decode u_def w_def)
    moreover have "decode cs (down_to_up w, prev_scancode w) = (es', d, p)"
      using rest u w by (simp add: fp_def)
    moreover have "listening w" using listening_fp [OF w] u by simp
    ultimately have "fold (scancode_in E) (c # cs) s =
        (run_events E es' (w\<lparr>down_to_up := False, prev_scancode := 0\<rparr>))\<lparr>down_to_up := d, prev_scancode := p\<rparr>"
      using Cons.IH [of w] by simp
    moreover have "w\<lparr>down_to_up := False, prev_scancode := 0\<rparr> = w"
      using same_prefix_state [OF w] u z by simp
    ultimately show ?thesis
      using es Some x z by (simp add: run_events_def w_def u_def)
  qed
qed

lemma map_of_entry: "distinct (map fst xs) \<Longrightarrow> c \<in> fst ` set xs \<Longrightarrow> (c, the (map_of xs c)) \<in> set xs"
  by (auto dest: map_of_is_SomeI)

lemma distinct_keys:
  "distinct (map fst plain_keys)" "distinct (map fst ext_keys)"
  "distinct (map snd plain_keys @ map snd ext_keys @ [99, 119])"
proof -
  have "distinct (map unat (map fst plain_keys))" "distinct (map unat (map fst ext_keys))"
    "distinct (map unat (map snd plain_keys @ map snd ext_keys @ [99, 119]))"
    by (simp_all add: plain_keys_def set2_to_set1_def ext_keys_def)
  then show "distinct (map fst plain_keys)" "distinct (map fst ext_keys)"
    "distinct (map snd plain_keys @ map snd ext_keys @ [99, 119])"
    by (simp_all only: distinct_map)
qed

lemma key_decodes:
  assumes "supported k"
  shows "decode (key_bytes (k, up)) (False, 0) = (key_events (k, up), False, 0)"
proof (cases k)
  case (Plain c)
  have "(c, keycode_of k) \<in> set plain_keys"
    using map_of_entry [OF distinct_keys(1), of c] assms Plain by simp
  from plain_bytes [OF this] show ?thesis using Plain by simp
next
  case (Ext c)
  have "(c, keycode_of k) \<in> set ext_keys"
    using map_of_entry [OF distinct_keys(2), of c] assms Ext by simp
  then have "decode [0xE0, c] (False, 0) = ([(keycode_of k, False)], False, 0)"
    "decode [0xE0, 0xF0, c] (False, 0) = ([(keycode_of k, True)], False, 0)"
    using ext_bytes by (auto simp: list_all_iff)
  then show ?thesis using Ext by simp
qed (simp_all add: long_keys del: decode.simps(2))

lemma keys_decode:
  assumes "list_all (\<lambda>(k, up). supported k) evs"
  shows "decode (concat (map key_bytes evs)) (False, 0) = (concat (map key_events evs), False, 0)"
  using assms
proof (induction evs)
  case (Cons e evs)
  then show ?case using key_decodes [of "fst e" "snd e"] by (cases e) (simp add: decode_append)
qed simp

end
