(* ===== verification/Ps2_Type.thy ===== *)
theory Ps2_Type
  imports Ps2
begin

text \<open>
  Typing on the PS/2 keyboard: what the driver prints for the keys a typist presses, checked against
  a typewriter that knows only which keys are down.
\<close>

section \<open>The typewriter\<close>

definition mask_of :: "kbd_env \<Rightarrow> u8 set \<Rightarrow> u32" where
  "mask_of E H = fold (\<lambda>v m. if shift_keys E H v \<noteq> {} then m OR push_bit v 1 else m) [0..<NR_SHIFT E] 0"

text \<open>
  The characters that the events \<open>(key, released)\<close> print: a press prints the keysym of the map that
  the shift keys held at that moment select; shift keys and releases print nothing.
\<close>

fun typed :: "kbd_env \<Rightarrow> u8 set \<Rightarrow> (u8 \<times> bool) list \<Rightarrow> u8 list" where
  "typed E H [] = []"
| "typed E H ((k, up) # evs) =
     (if up then typed E (H - {k}) evs
      else (case key_maps E (mask_of E H) of None \<Rightarrow> []
            | Some km \<Rightarrow> if KTYP (km k) = 0xf0 + KT_SHIFT then [] else [KVAL (km k)])
           @ typed E (insert k H) evs)"

text \<open>A key goes down only when it is up, and up only when it is down.\<close>

fun alternating :: "u8 set \<Rightarrow> (u8 \<times> bool) list \<Rightarrow> bool" where
  "alternating H [] = True"
| "alternating H ((k, up) # evs) =
     (k < 128 \<and> (up \<longleftrightarrow> k \<in> H) \<and> alternating (if up then H - {k} else insert k H) evs)"

text \<open>Every entry of the array is a key map, and the maps hold characters, letters and shift keys only.\<close>

definition typewriter :: "kbd_env \<Rightarrow> bool" where
  "typewriter E \<longleftrightarrow> shifts_agree E \<and>
     (\<forall>m. unat m < MAX_NR_KEYMAPS E \<longrightarrow> (\<exists>km. key_maps E m = Some km \<and>
        (\<forall>k. KTYP (km k) \<in> {0xf0 + KT_LATIN, 0xf0 + KT_LETTER, 0xf0 + KT_SHIFT})))"

text \<open>No lock, no dead key, no number on the pad, caps lock off.\<close>

definition neutral :: "kbd_env \<Rightarrow> kbd \<Rightarrow> bool" where
  "neutral E s \<longleftrightarrow> lockstate s = 0 \<and> slockstate s = 0 \<and> diacr s = 0 \<and> \<not> dead_key_next s \<and>
     npadch s = -1 \<and> \<not> bit (ledflagstate s) (VC_CAPSLOCK E)"

fun printk_of :: "kbd_ev \<Rightarrow> u8 list" where
  "printk_of (Printk c) = [c]"
| "printk_of _ = []"

definition printed :: "kbd \<Rightarrow> u8 list" where
  "printed s = concat (map printk_of (kout s))"

section \<open>The mask\<close>

lemma bit_mask_fold:
  "n \<le> 32 \<Longrightarrow> bit (fold (\<lambda>v m. if P v then m OR push_bit v 1 else m) [0..<n] (0::u32)) w \<longleftrightarrow> w < n \<and> P w"
proof (induction n)
  case (Suc n)
  then show ?case using bit_slot(1) [of n _ w] by (auto simp: less_Suc_eq)
qed simp

lemma shift_state_mask:
  assumes "shift_ok E H s" "shifts_agree E"
  shows "shift_state s = mask_of E H"
proof (rule bit_word_eqI)
  fix n
  have "NR_SHIFT E \<le> 32" using assms(2) by (simp add: shifts_agree_def)
  then show "bit (shift_state s) n = bit (mask_of E H) n"
    using assms(1) by (simp add: mask_of_def bit_mask_fold shift_ok_def)
qed

section \<open>Printing\<close>

lemma printed_note [simp]: "printed (note_k e s) = printed s @ printk_of e"
  by (simp add: printed_def note_k_def)

lemma printed_cong: "kout s = kout t \<Longrightarrow> printed s = printed t"
  by (simp add: printed_def)

lemma printed_fields [simp]:
  "printed (s\<lparr>diacr := d\<rparr>) = printed s" "printed (s\<lparr>slockstate := l\<rparr>) = printed s"
  "printed (s\<lparr>npadch := n\<rparr>) = printed s" "printed (s\<lparr>ledflagstate := g\<rparr>) = printed s"
  "printed (s\<lparr>k_down := kd\<rparr>) = printed s" "printed (s\<lparr>shift_state := ss\<rparr>) = printed s"
  "printed (s\<lparr>key_down := kk\<rparr>) = printed s" "printed (s\<lparr>rep := r\<rparr>) = printed s"
  "printed (s\<lparr>kbd_repeatkeycode := c\<rparr>) = printed s" "printed (s\<lparr>autorepeat_timer := b\<rparr>) = printed s"
  "printed (fault_k s) = printed s"
  by (simp_all add: printed_def fault_k_def)

lemma printed_put [simp]: "printed (put_queue c s) = printed s @ [c]"
  by (simp add: put_queue_def Let_def)

lemma printed_prelude [simp]:
  "printed (arm_repeat E k up raw s) = printed s" "printed (snd (track_key k up s)) = printed s"
  by (simp_all add: arm_repeat_def add_timer_def del_timer_def track_key_def Let_def
      mytest_and_set_bit_def mytest_and_clear_bit_def)

lemma neutral_prelude [simp]:
  "neutral E (arm_repeat E k up raw s) = neutral E s" "neutral E (snd (track_key k up s)) = neutral E s"
  by (simp_all add: neutral_def arm_repeat_def add_timer_def del_timer_def track_key_def Let_def note_k_def
      mytest_and_set_bit_def mytest_and_clear_bit_def)

lemma shift_steps_print [simp]:
  "printed (shift_mask v (shift_count v up s)) = printed s" "printed (undo_capslock E s) = printed s"
  by (simp_all add: shift_mask_def shift_count_def undo_capslock_def)

lemma shift_steps_neutral:
  "neutral E (shift_mask v (shift_count v up s)) = neutral E s" "neutral E (fault_k s) = neutral E s"
  "neutral E s \<Longrightarrow> neutral E (undo_capslock E s)"
  by (auto simp: neutral_def shift_mask_def shift_count_def undo_capslock_def fault_k_def bit_simps)

lemma do_shift_neutral:
  assumes "neutral E s"
  shows "neutral E (do_shift E x up s)" and "printed (do_shift E x up s) = printed s"
proof -
  define t where "t = (if x = KG_CAPSSHIFT E \<and> \<not> up then undo_capslock E s else s)"
  have t: "neutral E t" "printed t = printed s"
    using assms by (auto simp: t_def shift_steps_neutral)
  define w where "w = shift_mask (shift_slot E x) (shift_count (shift_slot E x) up t)"
  have w: "neutral E w" "printed w = printed s" using t by (simp_all add: w_def shift_steps_neutral)
  have "do_shift E x up s \<in> {s, fault_k t, w}"
    using w by (simp add: do_shift_def Let_def t_def [symmetric] w_def [symmetric] neutral_def)
  then show "neutral E (do_shift E x up s)" "printed (do_shift E x up s) = printed s"
    using assms t w by (auto simp: shift_steps_neutral)
qed

lemma call_handler_0: "neutral E s \<Longrightarrow>
    call_handler E 0 v up s = (if up then s else put_queue v s)\<lparr>slockstate := 0\<rparr>"
  by (simp add: call_handler_def key_handler_def do_self_def neutral_def KT_SLOCK_def)

lemma call_handler_7: "call_handler E 7 v up s = (do_shift E v up s)\<lparr>slockstate := 0\<rparr>"
  by (simp add: call_handler_def key_handler_def KT_SLOCK_def)

lemma neutral_put [simp]: "neutral E (put_queue c s) = neutral E s"
  by (simp add: neutral_def put_queue_def Let_def note_k_def)

lemma neutral_slock [simp]: "neutral E s \<Longrightarrow> neutral E (s\<lparr>slockstate := 0\<rparr>)"
  by (simp add: neutral_def)

lemma dispatch_types:
  assumes T: "typewriter E" and n: "neutral E u" and I: "in_maps E u"
  obtains km where "key_maps E (shift_state u) = Some km"
    "neutral E (dispatch E k up False u)"
    "printed (dispatch E k up False u) =
       printed u @ (if up \<or> KTYP (km k) = 0xf0 + KT_SHIFT then [] else [KVAL (km k)])"
proof -
  have fin: "shift_final u = shift_state u" using n by (simp add: shift_final_def neutral_def)
  obtain km where km: "key_maps E (shift_state u) = Some km"
    and ty: "KTYP (km k) \<in> {0xf0 + KT_LATIN, 0xf0 + KT_LETTER, 0xf0 + KT_SHIFT}"
    using T I fin unfolding typewriter_def in_maps_def by metis
  have caps: "\<not> bit (ledflagstate u) (VC_CAPSLOCK E)" using n by (simp add: neutral_def)
  consider (char) "KTYP (km k) = 240 \<or> KTYP (km k) = 251" | (shift) "KTYP (km k) = 247"
    using ty by (auto simp: KT_LATIN_def KT_LETTER_def KT_SHIFT_def)
  then show thesis
  proof cases
    case char
    then have "dispatch E k up False u = call_handler E 0 (KVAL (km k)) up u"
      using km fin caps I by (auto simp: dispatch_def in_maps_def Let_def KT_LETTER_def KT_LATIN_def)
    with char n km show thesis by (intro that [OF km]) (auto simp: call_handler_0 KT_SHIFT_def)
  next
    case shift
    then have "dispatch E k up False u = call_handler E 7 (KVAL (km k)) up u"
      using km fin I by (simp add: dispatch_def in_maps_def Let_def KT_LETTER_def)
    with shift do_shift_neutral [OF n, of "KVAL (km k)" up] show thesis
      by (intro that [OF km]) (auto simp: call_handler_7 KT_SHIFT_def)
  qed
qed

lemma process_types:
  fixes k :: u8 and up :: bool
  assumes T: "typewriter E" and ok: "kbd_ok E s" and n: "neutral E s"
  defines "t \<equiv> kbd_processkeycode E k up s"
  shows "neutral E t" and "printed t @ rest = printed s @ (if up then [] else
      case key_maps E (mask_of E (held s)) of None \<Rightarrow> []
      | Some km \<Rightarrow> if KTYP (km k) = 0xf0 + KT_SHIFT then [] else [KVAL (km k)]) @ rest"
proof -
  define u where "u = arm_repeat E k up False (snd (track_key k up s))"
  have c: "cooked s" and S: "shift_ok E (held s) s" using ok by (simp_all add: kbd_ok_def)
  have t: "t = dispatch E k up False u" using c by (simp add: t_def u_def process_cooked)
  have A: "shifts_agree E" using T by (simp add: typewriter_def)
  have "sh u = sh (snd (track_key k up s))" by (simp add: u_def)
  then have ss: "shift_state u = mask_of E (held s)"
    using shift_state_mask [OF S A] by (simp add: sh_def)
  have nu: "neutral E u" and pu: "printed u = printed s" using n by (simp_all add: u_def)
  have "shift_state u = shift_state s" using ss shift_state_mask [OF S A] by simp
  then have I: "in_maps E u" using low8_in_maps [of E u] shift_ok_low [OF S A] A by (simp add: shifts_agree_def)
  obtain km where "key_maps E (shift_state u) = Some km" "neutral E t"
    "printed t = printed u @ (if up \<or> KTYP (km k) = 0xf0 + KT_SHIFT then [] else [KVAL (km k)])"
    unfolding t using dispatch_types [OF T nu I, of k up] by metis
  then show "neutral E t" and "printed t @ rest = printed s @ (if up then [] else
      case key_maps E (mask_of E (held s)) of None \<Rightarrow> []
      | Some km \<Rightarrow> if KTYP (km k) = 0xf0 + KT_SHIFT then [] else [KVAL (km k)]) @ rest"
    using ss pu by simp_all
qed

lemma events_type:
  assumes "typewriter E" "kbd_ok E s" "neutral E s" "alternating (held s) evs"
  shows "printed (run_events E evs s) = printed s @ typed E (held s) evs \<and>
         kbd_ok E (run_events E evs s) \<and> neutral E (run_events E evs s)"
  using assms
proof (induction evs arbitrary: s)
  case (Cons e evs)
  obtain k up where e: "e = (k, up)" by force
  define t where "t = kbd_processkeycode E k up s"
  have A: "shifts_agree E" using Cons.prems by (simp add: typewriter_def)
  have k: "k < 128" "up \<longleftrightarrow> k \<in> held s" using Cons.prems e by simp_all
  note P = process_ok [OF Cons.prems(2) A k] and Y = process_types [OF Cons.prems(1-3), of k up]
  have alt: "alternating (held t) evs"
    using Cons.prems(4) e unfolding t_def P(2) by auto
  have "printed (run_events E evs t) = printed t @ typed E (held t) evs \<and>
         kbd_ok E (run_events E evs t) \<and> neutral E (run_events E evs t)"
    by (rule Cons.IH) (use Cons.prems(1) P(1) Y(1) alt in \<open>simp_all add: t_def\<close>)
  moreover have "run_events E (e # evs) s = run_events E evs t"
    by (simp add: run_events_def e t_def)
  ultimately show ?case
    using P(2) Y(2) [of "typed E (held t) evs"] e by (simp add: t_def)
qed (simp add: run_events_def)

section \<open>From the wire to the console\<close>

lemma init_ok:
  assumes "shifts_agree E"
  shows "kbd_ok E (kbd_init E)" "neutral E (kbd_init E)" "listening (kbd_init E)" "held (kbd_init E) = {}"
    "printed (kbd_init E) = []"
proof -
  have h: "held (kbd_init E) = {}"
    using word_index by (auto simp: held_def key_is_down_def kbd_init_def nth_replicate)
  then show "held (kbd_init E) = {}" .
  show "kbd_ok E (kbd_init E)"
    unfolding kbd_ok_def h by (simp add: shift_ok_def shift_keys_def kbd_init_def cooked_def)
qed (simp_all add: neutral_def listening_def printed_def kbd_init_def)

lemma wire_to_events:
  assumes "list_all (\<lambda>(k, up). supported k) evs" "listening s" "\<not> down_to_up s" "prev_scancode s = 0"
  shows "fold (scancode_in E) (concat (map key_bytes evs)) s = run_events E (concat (map key_events evs)) s"
proof -
  have "decode (concat (map key_bytes evs)) (down_to_up s, prev_scancode s) = (concat (map key_events evs), False, 0)"
    using keys_decode [OF assms(1)] assms(3,4) by simp
  from bytes_run [OF assms(2) this] assms(3,4) show ?thesis
    using same_prefix_state [OF fp_run_events] same_prefix_state [OF refl, of s] by simp
qed

lemma keycodes_distinct:
  assumes "supported k" "supported l" "keycode_of k = keycode_of l"
  shows "k = l"
proof -
  have P: "(c, keycode_of (Plain c)) \<in> set plain_keys" if "supported (Plain c)" for c
    using map_of_entry [OF distinct_keys(1), of c] that by simp
  have X: "(c, keycode_of (Ext c)) \<in> set ext_keys" if "supported (Ext c)" for c
    using map_of_entry [OF distinct_keys(2), of c] that by simp
  have D: "distinct (map snd plain_keys)" "distinct (map snd ext_keys)"
    "snd ` set plain_keys \<inter> snd ` set ext_keys = {}"
    "99 \<notin> snd ` set plain_keys" "119 \<notin> snd ` set plain_keys" "99 \<notin> snd ` set ext_keys" "119 \<notin> snd ` set ext_keys"
    using distinct_keys(3) by auto
  have inj: "c = d" if "distinct (map snd xs)" "(c, v) \<in> set xs" "(d, v) \<in> set xs" for xs :: "(u8 \<times> u8) list" and c d v
    using that inj_onD [of snd "set xs" "(c, v)" "(d, v)"] by (simp add: distinct_map)
  have PP: "c = d" if "supported (Plain c)" "supported (Plain d)" "keycode_of (Plain c) = keycode_of (Plain d)" for c d
    using inj [OF D(1) P [OF that(1)], of d] P [OF that(2)] that(3) by simp
  have XX: "c = d" if "supported (Ext c)" "supported (Ext d)" "keycode_of (Ext c) = keycode_of (Ext d)" for c d
    using inj [OF D(2) X [OF that(1)], of d] X [OF that(2)] that(3) by simp
  have p: "keycode_of (Plain c) \<in> snd ` set plain_keys" if "supported (Plain c)" for c
    using imageI [OF P [OF that], of snd] by simp
  have x: "keycode_of (Ext c) \<in> snd ` set ext_keys" if "supported (Ext c)" for c
    using imageI [OF X [OF that], of snd] by simp
  have px: "keycode_of (Plain c) \<noteq> keycode_of (Ext d)" if "supported (Plain c)" "supported (Ext d)" for c d
    using p [OF that(1)] x [OF that(2)] D(3) by (metis IntI empty_iff)
  have ne: "(99::u8) \<noteq> 119" by simp
  show ?thesis
    using assms PP XX p x px ne D(4-7) keycode_of.simps(3,4) by (cases k; cases l) metis+
qed

text \<open>\<open>n\<close> interrupts hand the bytes they read to the driver.\<close>

lemma rmw_kb [simp]: "kb (rmw dev r f s) = kb s" "bus (rmw dev r f s) = bus s @ [Rd r, Wr r (f (dev (bus s) r))]"
  by (simp_all add: rmw_def rd_def emit_def wr_def)

lemma interrupts_read:
  assumes t_def: "\<And>n. t n = (keyboard_interrupt dev E ^^ n) s"
  shows "\<exists>h. bus (t n) = bus s @ h \<and>
     kb (t n) = fold (scancode_in E) (map ucast (reads_from dev KEYBYTE (bus s) h)) (kb s)"
proof (induction n)
  case 0
  show ?case by (simp add: t_def)
next
  case (Suc n)
  then obtain h where h: "bus (t n) = bus s @ h"
    and k: "kb (t n) = fold (scancode_in E) (map ucast (reads_from dev KEYBYTE (bus s) h)) (kb s)" by blast
  define q where "q = rmw dev EINTPEND (\<lambda>v. v AND NOT 0x10) (rmw dev INTPND (\<lambda>v. v) (rmw dev SRCPND (\<lambda>v. v AND NOT 0x10) (t n)))"
  have q: "kb q = kb (t n)" "reads_from dev KEYBYTE (bus s) (drop (length (bus s)) (bus q)) = reads_from dev KEYBYTE (bus s) h"
    "\<exists>g. bus q = bus s @ h @ g"
    by (simp_all add: q_def h)
  obtain g where g: "bus q = bus s @ h @ g" using q(3) by blast
  have rg: "reads_from dev KEYBYTE (bus s) (h @ g) = reads_from dev KEYBYTE (bus s) h"
    using q(2) g by simp
  have "t (Suc n) = (emit (Rd KEYBYTE) q)\<lparr>kb := scancode_in E (ucast (dev (bus q) KEYBYTE)) (kb q)\<rparr>"
    by (simp add: t_def q_def keyboard_interrupt_def Let_def rd_def emit_def prod.case_eq_if)
  then have "bus (t (Suc n)) = bus s @ ((h @ g) @ [Rd KEYBYTE])"
    and "kb (t (Suc n)) = scancode_in E (ucast (dev (bus q) KEYBYTE)) (kb (t n))"
    by (simp_all add: g q(1) emit_def)
  moreover have "reads_from dev KEYBYTE (bus s) ((h @ g) @ [Rd KEYBYTE]) =
      reads_from dev KEYBYTE (bus s) h @ [dev (bus q) KEYBYTE]"
    unfolding reads_from_append [of dev KEYBYTE "bus s" "h @ g"] rg by (simp add: g)
  ultimately show ?case using k by (intro exI [of _ "(h @ g) @ [Rd KEYBYTE]"]) (simp only: map_append, simp)
qed

definition ps2_init :: "kbd_env \<Rightarrow> ps2" where
  "ps2_init E = \<lparr>bus = [], kb = kbd_init E, irq_requests = []\<rparr>"

lemma wire_types:
  assumes T: "typewriter E" and sup: "list_all (\<lambda>(k, up). supported k) evs"
    and alt: "alternating {} (concat (map key_events evs))"
    and t: "t = (keyboard_interrupt dev E ^^ n) (ps2_init E)"
    and bytes: "map ucast (reads dev KEYBYTE (bus t)) = concat (map key_bytes evs)"
  shows "printed (kb t) = typed E {} (concat (map key_events evs))"
proof -
  have A: "shifts_agree E" using T by (simp add: typewriter_def)
  note I = init_ok [OF A]
  obtain h where "bus t = h" "kb t = fold (scancode_in E) (map ucast (reads dev KEYBYTE h)) (kbd_init E)"
    using interrupts_read [OF refl, of n dev E "ps2_init E"] unfolding t by (auto simp: ps2_init_def)
  then have "kb t = fold (scancode_in E) (concat (map key_bytes evs)) (kbd_init E)"
    using bytes by simp
  also have "\<dots> = run_events E (concat (map key_events evs)) (kbd_init E)"
    by (rule wire_to_events [OF sup I(3)]) (simp_all add: kbd_init_def)
  finally show ?thesis
    using events_type [OF T I(1,2), of "concat (map key_events evs)"] alt I(4,5) by simp
qed

text \<open>A small typewriter: a letter, a digit key, and two shift keys (keycodes 42 and 54).\<close>

definition demo_map :: "bool \<Rightarrow> u8 \<Rightarrow> keysym" where
  "demo_map shifted k =
    (if k = 42 \<or> k = 54 then 0xf700
     else if k = 30 then if shifted then 0xfb41 else 0xfb61
     else if k = 2 then if shifted then 0xf021 else 0xf031
     else 0xf020)"

definition demo_env :: kbd_env where
  "demo_env = \<lparr>key_maps = (\<lambda>m. Some (demo_map (bit m 0))), MAX_NR_KEYMAPS = 256, plain_map = demo_map False, func_table = [],
     accent_table = [(0x27, 0x65, 0xe9)], KG_SHIFT = 0, KG_CAPSSHIFT = 8, NR_SHIFT = 9, VC_CAPSLOCK = 2, VC_NUMLOCK = 1,
     FN_FIND = 20, FN_INSERT = 21, FN_REMOVE = 22, FN_SELECT = 23, FN_PGUP = 24, FN_PGDN = 25,
     HZ = 100, MAX_NR_CONSOLES = 63, fg_console = 0, vc_cons_allocated = (\<lambda>n. n < 6)\<rparr>"

lemma demo_syms:
  "KTYP 0xf700 = 247" "KTYP 0xfb41 = 251" "KTYP 0xfb61 = 251" "KTYP 0xf021 = 240" "KTYP 0xf031 = 240" "KTYP 0xf020 = 240"
  "KTYP (0xf700 XOR 0xf000) = 7" "KTYP (0xfb61 XOR 0xf000) = 11" "KTYP (0xf031 XOR 0xf000) = 0" "KTYP (0xf020 XOR 0xf000) = 0"
  "KVAL 0xf700 = 0" "KVAL (0xf700 XOR 0xf000) = 0" "KVAL 0xfb41 = 0x41" "KVAL 0xfb61 = 0x61" "KVAL 0xf021 = 0x21"
  "KVAL 0xf031 = 0x31" "KVAL 0xf020 = 0x20"
  by code_simp+

lemma demo_shift_sym: "shift_sym demo_env (demo_map b k) = (if k = 42 \<or> k = 54 then Some 0 else None)"
  using demo_syms by (simp add: shift_sym_def demo_map_def KT_SHIFT_def KT_SLOCK_def demo_env_def)

lemma demo_plain_shift: "plain_shift demo_env k = (if k = 42 \<or> k = 54 then Some 0 else None)"
  using demo_syms by (simp add: plain_shift_def demo_map_def KT_SHIFT_def KT_SLOCK_def demo_env_def Let_def)

lemma demo_agree: "shifts_agree demo_env"
proof -
  have "key_maps demo_env m = Some km \<Longrightarrow> \<exists>b. km = demo_map b" for m km
    by (auto simp: demo_env_def)
  moreover have "NR_SHIFT demo_env = 9" "KG_SHIFT demo_env = 0" "MAX_NR_KEYMAPS demo_env = 256" by (simp_all add: demo_env_def)
  ultimately show ?thesis
    unfolding shifts_agree_def maps_fit_def demo_plain_shift by (auto simp: demo_shift_sym split: if_splits) (metis demo_shift_sym)+
qed

lemma demo_typewriter: "typewriter demo_env"
proof -
  have "KTYP (demo_map b k) \<in> {0xf0 + KT_LATIN, 0xf0 + KT_LETTER, 0xf0 + KT_SHIFT}" for b k
    using demo_syms by (simp add: demo_map_def KT_LATIN_def KT_LETTER_def KT_SHIFT_def)
  moreover have "key_maps demo_env m = Some (demo_map (bit m 0))" for m by (simp add: demo_env_def)
  ultimately show ?thesis by (simp add: typewriter_def demo_agree)
qed

text \<open>A keyboard that sends the bytes of \<open>bs\<close>, one per interrupt.\<close>

definition wire :: "u8 list \<Rightarrow> ps2_reg dev" where
  "wire bs h r = (if r = KEYBYTE then ucast (bs ! length (filter (\<lambda>e. e = Rd KEYBYTE) h)) else 0)"

lemma interrupt_bus: "\<exists>x y z. bus (keyboard_interrupt dev E s) =
    bus s @ [Rd SRCPND, Wr SRCPND x, Rd INTPND, Wr INTPND y, Rd EINTPEND, Wr EINTPEND z, Rd KEYBYTE]"
  by (simp add: keyboard_interrupt_def Let_def rd_def emit_def)

lemma wire_reads:
  assumes h_def: "\<And>n. h n = bus ((keyboard_interrupt (wire bs) E ^^ n) (ps2_init E))"
  shows "map ucast (reads (wire bs) KEYBYTE (h n)) = map (nth bs) [0..<n] \<and>
         length (filter (\<lambda>e. e = Rd KEYBYTE) (h n)) = n"
proof (induction n)
  case 0
  show ?case by (simp add: h_def ps2_init_def)
next
  case (Suc n)
  obtain x y z where "h (Suc n) = h n @ [Rd SRCPND, Wr SRCPND x, Rd INTPND, Wr INTPND y,
      Rd EINTPEND, Wr EINTPEND z, Rd KEYBYTE]"
    using interrupt_bus [of "wire bs" E "(keyboard_interrupt (wire bs) E ^^ n) (ps2_init E)"]
    by (auto simp: h_def)
  with Suc show ?case by (simp add: wire_def)
qed

lemma wire_bytes:
  "map ucast (reads (wire bs) KEYBYTE (bus ((keyboard_interrupt (wire bs) E ^^ length bs) (ps2_init E)))) = bs"
  using wire_reads [where bs = bs and E = E and n = "length bs", OF refl] by (simp add: map_nth)

definition demo_keys :: "(key \<times> bool) list" where
  "demo_keys = [(Plain 0x12, False), (Plain 0x1C, False), (Plain 0x1C, True), (Plain 0x12, True),
     (Plain 0x1C, False), (Plain 0x1C, True)]"

text \<open>
  C14: typing end to end.  For a key map of characters, letters and shift keys, and a typist who
  presses a key only when it is up and releases it only when it is down, the interrupts that read the
  keyboard's bytes print exactly the characters of a typewriter that remembers which keys are held:
  each press the character its key has under the shift keys held at that moment, and nothing else.
\<close>
theorem keyboard_types:
  assumes T: "typewriter E" and sup: "list_all (\<lambda>(k, up). supported k) evs"
    and alt: "alternating {} (concat (map key_events evs))"
    and t: "t = (keyboard_interrupt dev E ^^ n) (ps2_init E)"
    and bytes: "map ucast (reads dev KEYBYTE (bus t)) = concat (map key_bytes evs)"
  shows "printed (kb t) = typed E {} (concat (map key_events evs))"
  by (rule wire_types [OF assms])

lemma demo_facts:
  "list_all (\<lambda>(k, up). supported k) demo_keys" "alternating {} (concat (map key_events demo_keys))"
  "typed demo_env {} (concat (map key_events demo_keys)) = [0x41, 0x61]"
  by code_simp+

theorem keyboard_types_witness:
  "printed (kb ((keyboard_interrupt (wire (concat (map key_bytes demo_keys))) demo_env
       ^^ length (concat (map key_bytes demo_keys))) (ps2_init demo_env))) = [0x41, 0x61]"
  unfolding demo_facts(3) [symmetric]
  by (rule keyboard_types [OF demo_typewriter demo_facts(1,2) refl wire_bytes])

end
