(* ===== verification/Ps2_Run.thy ===== *)
theory Ps2_Run
  imports Ps2_Type
begin

text \<open>
  The keyboard driver over time: interrupts, the repeat timer, the bottom half and the calls that set
  the lights, in any order; what no such run does, and what a key that repeats in hardware does to
  the shift state.
\<close>

section \<open>What handlers emit\<close>

text \<open>
  A harmless event: no timer is added to the kernel's list a second time, and without a terminal
  nothing goes to a terminal.
\<close>

fun harmless :: "bool \<Rightarrow> kbd_ev \<Rightarrow> bool" where
  "harmless t Timer_twice = False"
| "harmless t (Flip c) = t"
| "harmless t Flip_break = t"
| "harmless t Flip_push = t"
| "harmless t e = True"

definition calm :: "kbd \<Rightarrow> kbd \<Rightarrow> bool" where
  "calm s t \<longleftrightarrow> tty t = tty s \<and> tasklet_enabled t = tasklet_enabled s \<and> kfault t = kfault s \<and>
     length (k_down t) = length (k_down s) \<and> (low8 (shift_state s) \<longrightarrow> low8 (shift_state t)) \<and> (\<exists>es. kout t = kout s @ es \<and> list_all (harmless (tty s)) es)"

lemma calm_refl [simp]: "calm s s"
  by (simp add: calm_def)

lemma calm_trans: "calm s t \<Longrightarrow> calm t u \<Longrightarrow> calm s u"
  by (auto simp: calm_def)

lemma calm_note: "harmless (tty s) e \<Longrightarrow> calm s (note_k e s)"
  by (simp add: calm_def note_k_def)

lemma calm_fields [simp]:
  "calm s (t\<lparr>diacr := d\<rparr>) = calm s t" "calm s (t\<lparr>npadch := n\<rparr>) = calm s t"
  "calm s (t\<lparr>dead_key_next := b\<rparr>) = calm s t" "calm s (t\<lparr>ledflagstate := l\<rparr>) = calm s t"
  "calm s (t\<lparr>lockstate := l\<rparr>) = calm s t" "calm s (t\<lparr>slockstate := l\<rparr>) = calm s t"
  "calm s (t\<lparr>key_down := kk\<rparr>) = calm s t"
  "calm s (t\<lparr>rep := r\<rparr>) = calm s t" "calm s (t\<lparr>kbd_repeatkeycode := c\<rparr>) = calm s t"
  "calm s (t\<lparr>autorepeat_timer := b\<rparr>) = calm s t" "calm s (t\<lparr>prev_scancode := p\<rparr>) = calm s t"
  "calm s (t\<lparr>down_to_up := b\<rparr>) = calm s t" "calm s (t\<lparr>k_down := (k_down t)[i := x]\<rparr>) = calm s t"
  "calm s (t\<lparr>ledstate := l\<rparr>) = calm s t"
  by (simp_all add: calm_def)

lemma calm_mask: "v < 8 \<Longrightarrow> calm s (shift_mask v s)"
  by (simp add: calm_def shift_mask_def)

lemma calm_put: "calm s (put_queue c s)"
  by (auto simp: put_queue_def Let_def calm_def note_k_def)

lemma calm_fold_flip: "tty s \<Longrightarrow> calm s (fold (\<lambda>c. note_k (Flip c)) cp s)"
proof (induction cp arbitrary: s)
  case (Cons c cp)
  have "calm s (note_k (Flip c) s)" using Cons.prems by (intro calm_note) simp
  moreover have "calm (note_k (Flip c) s) (fold (\<lambda>c. note_k (Flip c)) cp (note_k (Flip c) s))"
    using Cons.prems by (intro Cons.IH) (simp add: note_k_def)
  ultimately show ?case by (simp add: calm_trans)
qed simp

lemma calm_puts: "calm s (puts_queue cp s)"
proof -
  define t where "t = note_k Wake_reader s"
  have t: "calm s t" unfolding t_def by (rule calm_note) simp
  define u where "u = fold (\<lambda>c. note_k (Flip c)) cp t"
  show ?thesis
  proof (cases "tty t")
    case True
    then have u: "calm t u" unfolding u_def by (rule calm_fold_flip)
    with True have "calm u (note_k Flip_push u)" by (intro calm_note) (simp add: calm_def)
    with True t u show ?thesis
      by (simp add: puts_queue_def Let_def t_def [symmetric] u_def [symmetric]) (blast intro: calm_trans)
  next
    case False
    with t show ?thesis by (simp add: puts_queue_def Let_def t_def [symmetric])
  qed
qed

lemma calm_out: "calm s (to_utf8 c s)" "calm s (applkey k m s)" "calm s (flush_npadch s)" "calm s (undo_capslock E s)"
proof -
  show u: "calm s (to_utf8 c s)" for c
    unfolding to_utf8_def by (simp add: calm_put) (meson calm_put calm_trans)
  show "calm s (applkey k m s)" by (simp add: applkey_def calm_puts)
  show "calm s (flush_npadch s)" by (simp add: flush_npadch_def u calm_put)
  show "calm s (undo_capslock E s)" by (simp add: undo_capslock_def)
qed

lemma calm_diacr: "handle_diacr E c s = (v, t) \<Longrightarrow> calm s t"
  using calm_put [of "s\<lparr>diacr := 0\<rparr>" "diacr s"]
  by (auto simp: handle_diacr_def Let_def calm_def split: option.splits if_splits)

lemma calm_do_self: "calm s (do_self E v up s)"
  using calm_trans [OF calm_diacr calm_put] calm_put
  by (auto simp: do_self_def Let_def calm_diacr split: prod.split)

lemma calm_do_dead2: "calm s (do_dead2 E v up s)"
  by (auto simp: do_dead2_def Let_def calm_diacr split: prod.split)

lemma calm_do_fn: "calm s (do_fn E v up s)"
  by (auto simp: do_fn_def calm_puts split: option.split)

lemma calm_do_cur: "unat v < 5 \<Longrightarrow> calm s (do_cur v up s)"
  by (simp add: do_cur_def cur_chars_def calm_out)

lemma calm_pad_cursor: "pad_cursor E v s = Some t \<Longrightarrow> calm s t"
  by (auto simp: pad_cursor_def calm_do_fn calm_do_cur calm_out split: if_splits)

lemma calm_do_pad: "unat v < 22 \<Longrightarrow> calm s (do_pad E v up s)"
  using calm_put calm_trans [OF calm_put calm_put]
  by (auto simp: do_pad_def Let_def app_map_def pad_chars_def calm_out dest: calm_pad_cursor split: option.split)

lemma calm_simple:
  "calm s (do_cons v up s)" "calm s (do_meta v up s)" "calm s (do_ascii v up s)" "calm s (do_lock v up s)"
  "calm s (chg_slock v s)" "calm s (do_ignore v up s)" "calm s (do_lowercase v up s)"
  "unat v < 6 \<Longrightarrow> calm s (do_dead E v up s)"
  using calm_trans [OF calm_put calm_put] calm_put
  by (auto simp: do_cons_def do_meta_def do_ascii_def do_lock_def chg_slock_def do_ignore_def do_lowercase_def
      do_dead_def ret_diacr_def calm_do_dead2 Let_def intro: calm_note)

lemma calm_do_shift: "shift_slot E v < length (k_down s) \<Longrightarrow> shift_slot E v < 8 \<Longrightarrow> calm s (do_shift E v up s)"
proof -
  assume v: "shift_slot E v < length (k_down s)" and v8: "shift_slot E v < 8"
  define t where "t = (if v = KG_CAPSSHIFT E \<and> \<not> up then undo_capslock E s else s)"
  define w where "w = shift_mask (shift_slot E v) (shift_count (shift_slot E v) up t)"
  have t: "calm s t" by (simp add: t_def calm_out)
  have w: "calm t w" unfolding w_def by (rule calm_trans [OF _ calm_mask [OF v8]]) (simp add: shift_count_def)
  have "do_shift E v up s \<in> {s, w, flush_npadch w}"
    using v t by (simp add: do_shift_def Let_def t_def [symmetric] w_def [symmetric] calm_def)
  moreover have "calm w (flush_npadch w)" by (rule calm_out)
  ultimately show ?thesis using t w by (auto intro: calm_trans)
qed

lemma calm_do_slock:
  assumes "shift_slot E v < length (k_down s)" "shift_slot E v < 8" "maps_fit E"
  shows "calm s (do_slock E v up s)"
proof -
  have "(MAX_NR_KEYMAPS E \<le> unat (ucast b :: u32)) = False" for b :: u8
    using assms(3) low8_less [OF low8_ucast, of b] unfolding maps_fit_def by (auto simp del: unsigned_ucast_eq)
  then show ?thesis using calm_do_shift [OF assms(1,2), of up]
    by (auto simp: do_slock_def Let_def chg_slock_def)
qed

section \<open>Key maps that respect the limits\<close>

text \<open>
  The driver's table \<open>max_vals\<close> gives the largest value of each key type; the kernel refuses a key
  map entry above it.
\<close>

definition keysym_ok :: "kbd_env \<Rightarrow> keysym \<Rightarrow> bool" where
  "keysym_ok E w \<longleftrightarrow>
     (KTYP w = 0xf3 \<longrightarrow> unat (KVAL w) < 20) \<and> (KTYP w = 0xf4 \<longrightarrow> unat (KVAL w) < 6) \<and>
     (KTYP w = 0xf6 \<longrightarrow> unat (KVAL w) < 4) \<and>
     (KTYP w = 0xf7 \<or> KTYP w = 0xfc \<longrightarrow> shift_slot E (KVAL w) < NR_SHIFT E \<and> shift_slot E (KVAL w) < 8)"

definition keymap_ok :: "kbd_env \<Rightarrow> bool" where
  "keymap_ok E \<longleftrightarrow>
     (\<forall>m km k. key_maps E m = Some km \<longrightarrow> keysym_ok E (km k)) \<and>
     maps_fit E \<and> (\<forall>k v. plain_shift E k = Some v \<longrightarrow> unat v < NR_SHIFT E)"

lemma calm_count_shift:
  assumes "keymap_ok E" "length (k_down s) = NR_SHIFT E"
  shows "calm s (count_shift E k s)"
proof (cases "plain_shift E k")
  case (Some v)
  then have "unat v < length (k_down s)" "unat v < 8" using assms by (simp_all add: keymap_ok_def maps_fit_def)
  with Some show ?thesis by (simp add: count_shift_def calm_def)
qed (simp add: count_shift_def)

lemma calm_fold_count:
  assumes "keymap_ok E" "length (k_down s) = NR_SHIFT E"
  shows "calm s (fold (count_shift E) ks s)"
  using assms(2)
proof (induction ks arbitrary: s)
  case (Cons k ks)
  have c: "calm s (count_shift E k s)" by (rule calm_count_shift [OF assms(1) Cons.prems])
  moreover have "length (k_down (count_shift E k s)) = NR_SHIFT E" using c Cons.prems by (simp add: calm_def)
  ultimately show ?case using Cons.IH calm_trans by fastforce
qed simp

lemma calm_compute:
  assumes "keymap_ok E" "length (k_down s) = NR_SHIFT E"
  shows "calm s (compute_shiftstate E s)"
proof -
  let ?s = "s\<lparr>shift_state := 0, k_down := map (\<lambda>_. 0) (k_down s)\<rparr>"
  have "calm s ?s" by (simp add: calm_def)
  moreover have "calm ?s (compute_shiftstate E s)"
    unfolding compute_shiftstate_def using assms by (intro calm_fold_count) simp_all
  ultimately show ?thesis by (rule calm_trans)
qed

lemma calm_specials:
  assumes "keymap_ok E" "length (k_down s) = NR_SHIFT E"
  shows "list_all (\<lambda>h. calm s (h s)) (spec_fn_table E)"
proof -
  have q: "calm s (let s = put_queue 13 u in if vc_crlf s then put_queue 10 s else s)" if "calm s u" for u
    using that calm_put by (simp add: Let_def) (meson calm_trans)
  have e: "calm s (enter s)"
    unfolding enter_def Let_def [of "if _ then _ else _"] by (rule q) (simp add: calm_put)
  have b: "calm s (send_intr s)"
    using calm_trans [OF calm_note [of s Flip_break] calm_note [of "note_k Flip_break s" Flip_push]]
    by (simp add: send_intr_def note_k_def)
  have k: "calm s (SAK s)"
    using calm_trans [OF calm_note [of s Do_SAK] calm_note [of "note_k Do_SAK s" Reset_vc]] by (simp add: SAK_def)
  show ?thesis
    using e b k by (simp add: spec_fn_table_def calm_compute [OF assms] show_ptregs_def caps_toggle_def chg_led_def
        kp_num_def bare_num_def calm_out hold_def caps_on_def compose_key_def decr_console_def incr_console_def
        spawn_console_def calm_note)
qed

lemma calm_do_spec:
  assumes "keymap_ok E" "length (k_down s) = NR_SHIFT E"
  shows "calm s (do_spec E v up s)"
  using nth_below [OF calm_specials [OF assms], of "unat v"] by (simp add: do_spec_def)

lemma calm_handlers:
  assumes E: "keymap_ok E" "length (k_down s) = NR_SHIFT E" and w: "keysym_ok E w" and n: "KTYP w = 240 + n"
    and n16: "n < 16"
  shows "calm s ((key_handler E ! n) (KVAL w) up s)"
proof -
  have fit: "maps_fit E" using E(1) by (simp add: keymap_ok_def)
  have pad: "calm s (do_pad E (KVAL w) up s)" if "Suc (Suc (Suc 0)) = n"
    using w n that [symmetric] by (intro calm_do_pad) (simp add: keysym_ok_def)
  have cur: "calm s (do_cur (KVAL w) up s)" if "Suc (Suc (Suc (Suc (Suc (Suc 0))))) = n"
    using w n that [symmetric] by (intro calm_do_cur) (simp add: keysym_ok_def)
  have "list_all (\<lambda>(i, h). i = n \<longrightarrow> calm s (h (KVAL w) up s)) (enumerate 0 (key_handler E))"
    using w n E(2) pad cur
    by (simp add: key_handler_def keysym_ok_def fit calm_do_self calm_do_fn calm_do_spec [OF E] calm_simple
        calm_do_shift calm_do_slock calm_do_dead2)
  moreover have "length (key_handler E) = 16" by (simp add: key_handler_def)
  ultimately show ?thesis
    using nth_below [of _ _ n] n16 by (fastforce simp: nth_enumerate_eq)
qed

lemma calm_call_handler:
  "calm s ((key_handler E ! n) v up s) \<Longrightarrow> calm s (call_handler E n v up s)"
  by (cases "n = KT_SLOCK") (simp_all add: call_handler_def Let_def)

lemma calm_dispatch:
  assumes E: "keymap_ok E" "length (k_down s) = NR_SHIFT E" and I: "in_maps E s"
  shows "calm s (dispatch E k up raw s)"
proof (cases "key_maps E (shift_final s)")
  case None
  then show ?thesis using calm_compute [OF E] I by (simp add: dispatch_def in_maps_def)
next
  case (Some km)
  have i: "(MAX_NR_KEYMAPS E \<le> unat (shift_final s)) = False"
    "(MAX_NR_KEYMAPS E \<le> unat (shift_final s XOR push_bit (KG_SHIFT E) 1)) = False"
    using I by (simp_all add: in_maps_def)
  have w: "keysym_ok E (km k)" using E(1) Some by (simp add: keymap_ok_def)
  have "calm s (call_handler E (KTYP (km k) - 0xf0) (KVAL (km k)) up s)" if "240 \<le> KTYP (km k)"
    using that KTYP_less [of "km k"] by (intro calm_call_handler calm_handlers [OF E w]) simp_all
  moreover have "calm s (call_handler E KT_LATIN v up s)" for v
    by (rule calm_call_handler) (simp add: key_handler_def KT_LATIN_def calm_do_self)
  moreover have "dispatch E k up raw s = s \<or> dispatch E k up raw s = to_utf8 (km k) s \<or>
      (\<exists>v. dispatch E k up raw s = call_handler E KT_LATIN v up s) \<or>
      240 \<le> KTYP (km k) \<and> dispatch E k up raw s = call_handler E (KTYP (km k) - 240) (KVAL (km k)) up s"
  proof (cases "240 \<le> KTYP (km k)")
    case True
    define type where "type = KTYP (km k) - 240"
    consider "raw \<and> type \<noteq> KT_SPEC \<and> type \<noteq> KT_SHIFT" | "\<not> (raw \<and> type \<noteq> KT_SPEC \<and> type \<noteq> KT_SHIFT)" "type = KT_LETTER"
      | "\<not> (raw \<and> type \<noteq> KT_SPEC \<and> type \<noteq> KT_SHIFT)" "type \<noteq> KT_LETTER" by blast
    then show ?thesis
      unfolding dispatch_def Some option.case Let_def type_def [symmetric] i by cases (auto simp only: True simp_thms if_True if_False)
  qed (simp add: dispatch_def Let_def Some i)
  ultimately show ?thesis using calm_out(1) by auto
qed

lemma calm_track: "calm s (snd (track_key k up s))"
  by (simp add: track_key_def mytest_and_set_bit_def mytest_and_clear_bit_def Let_def calm_def note_k_def)

lemma calm_arm: "calm s (arm_repeat E k up raw s)"
  by (simp add: arm_repeat_def Let_def calm_def del_timer_def add_timer_def note_k_def)

lemma calm_process:
  assumes E: "keymap_ok E" "length (k_down s) = NR_SHIFT E" and L: "low8 (shift_state s)"
  shows "calm s (kbd_processkeycode E k up s)"
proof -
  define u where "u = arm_repeat E k up (kbdmode s = VC_RAW) (snd (track_key k up s))"
  define w where "w = (if kbdmode u = VC_MEDIUMRAW then put_queue (k + (if up then 0x80 else 0)) u else u)"
  have u: "calm s u" unfolding u_def by (rule calm_trans [OF calm_track calm_arm])
  have w: "calm s w" using calm_trans [OF u calm_put] u by (simp add: w_def)
  then have "length (k_down w) = NR_SHIFT E" "low8 (shift_state w)" using E(2) L by (simp_all add: calm_def)
  moreover have "maps_fit E" using E(1) by (simp add: keymap_ok_def)
  ultimately have "length (k_down w) = NR_SHIFT E" "in_maps E w" by (simp_all add: low8_in_maps)
  then have "calm w (dispatch E k up (kbdmode s = VC_RAW \<or> kbdmode u = VC_MEDIUMRAW) w)"
    by (rule calm_dispatch [OF E(1)])
  moreover have "kbd_processkeycode E k up s = dispatch E k up (kbdmode s = VC_RAW \<or> kbdmode u = VC_MEDIUMRAW) w"
    by (simp add: kbd_processkeycode_def Let_def u_def w_def prod.case_eq_if)
  ultimately show ?thesis using w calm_trans by simp
qed

section \<open>All runs\<close>

text \<open>
  The kernel runs the bottom half only while the tasklet is enabled; it takes a timer that fires off
  its list; consoles are opened and closed and keyboard modes are set at any time.
\<close>

inductive kbd_reach :: "kbd_env \<Rightarrow> kbd \<Rightarrow> bool" for E where
  start: "kbd_reach E (kbd_init E)"
| byte: "kbd_reach E s \<Longrightarrow> kbd_reach E (scancode_in E c s)"
| fire: "kbd_reach E s \<Longrightarrow> autorepeat_timer s \<Longrightarrow> kbd_reach E (key_callback (s\<lparr>autorepeat_timer := False\<rparr>))"
| bottom: "kbd_reach E s \<Longrightarrow> tasklet_enabled s \<Longrightarrow> kbd_reach E (kbd_bh E mem s)"
| lights: "kbd_reach E s \<Longrightarrow> kbd_reach E (setledstate led s)"
| pointed: "kbd_reach E s \<Longrightarrow> kbd_reach E (register_leds i addr msk s)"
| console: "kbd_reach E s \<Longrightarrow> kbd_reach E (s\<lparr>tty_data := b, kbdmode := m, vc_repeat := r, vc_meta := me,
    vc_applic := a, vc_ckmode := ck, vc_crlf := cr\<rparr>)"

definition silent :: "kbd_env \<Rightarrow> kbd \<Rightarrow> bool" where
  "silent E s \<longleftrightarrow> \<not> tty s \<and> \<not> tasklet_enabled s \<and> \<not> kfault s \<and> length (k_down s) = NR_SHIFT E \<and>
     low8 (shift_state s) \<and> list_all (harmless False) (kout s)"

lemma silent_calm: "silent E s \<Longrightarrow> calm s t \<Longrightarrow> silent E t"
  by (auto simp: silent_def calm_def)

lemma calm_byte:
  assumes E: "keymap_ok E" and s: "silent E s"
  shows "calm s (scancode_in E c s)"
proof -
  have h: "calm u (handle_scancode E v down u)" if u: "silent E u" for u v down
  proof -
    define w where "w = (if kbdmode u = VC_RAW then put_queue (v OR (if down then 0 else 0x80)) u else u)"
    have nt: "(tty u \<and> \<not> tty_data u) = False" using u by (simp add: silent_def)
    have w: "calm u w" by (simp add: w_def calm_put)
    have z: "silent E w" by (rule silent_calm [OF u w])
    obtain k p where kp: "kbd_translate v (prev_scancode w) = (k, p)" by force
    have wp: "calm w (w\<lparr>prev_scancode := p\<rparr>)" by simp
    have "calm w (kbd_processkeycode E x (\<not> down) (w\<lparr>prev_scancode := p\<rparr>))" for x
      using z by (intro calm_trans [OF wp calm_process [OF E]]) (simp_all add: silent_def)
    then have "calm w (case k of None \<Rightarrow> w\<lparr>prev_scancode := p\<rparr>
        | Some x \<Rightarrow> kbd_processkeycode E x (\<not> down) (w\<lparr>prev_scancode := p\<rparr>))"
      by (cases k) simp_all
    moreover have "handle_scancode E v down u = (case kbd_translate v (prev_scancode w) of (k, p) \<Rightarrow>
        case k of None \<Rightarrow> w\<lparr>prev_scancode := p\<rparr>
        | Some x \<Rightarrow> kbd_processkeycode E x (\<not> down) (w\<lparr>prev_scancode := p\<rparr>))"
      by (simp only: handle_scancode_def Let_def nt if_False w_def [symmetric])
    ultimately show ?thesis using w calm_trans by (simp add: kp)
  qed
  define u where "u = s\<lparr>down_to_up := False\<rparr>"
  have u: "calm s u" by (simp add: u_def)
  have su: "silent E u" by (rule silent_calm [OF s u])
  show ?thesis
    using h [OF s] calm_trans [OF u h [OF su]] by (simp add: scancode_in_def Let_def u_def)
qed

lemma silent_note: "silent E s \<Longrightarrow> harmless False e \<Longrightarrow> silent E (note_k e s)"
  by (simp add: silent_def note_k_def)

lemma silent_updates:
  "silent E (s\<lparr>rep := r\<rparr>) = silent E s" "silent E (s\<lparr>autorepeat_timer := b\<rparr>) = silent E s"
  "silent E (s\<lparr>ledioctl := l, ledmode := m\<rparr>) = silent E s" "silent E (s\<lparr>ledmode := m\<rparr>) = silent E s"
  "silent E (s\<lparr>ledptrs := p, ledmode := m\<rparr>) = silent E s"
  "silent E (s\<lparr>tty_data := b, kbdmode := km, vc_repeat := r, vc_meta := me, vc_applic := a,
      vc_ckmode := ck, vc_crlf := cr\<rparr>) = silent E s"
  by (simp_all add: silent_def)

lemma reach_silent:
  assumes "keymap_ok E" "kbd_reach E s"
  shows "silent E s"
  using assms(2)
proof induction
  case start
  then show ?case by (simp add: silent_def kbd_init_def)
next
  case (byte s c)
  then show ?case using silent_calm [OF _ calm_byte [OF assms(1)]] by blast
next
  case (fire s)
  then show ?case by (simp add: key_callback_def silent_note silent_updates)
next
  case (bottom s mem)
  then show ?case by (simp add: silent_def)
next
  case (lights s led)
  then show ?case by (simp add: setledstate_def silent_def note_k_def)
next
  case (pointed s i addr msk)
  then show ?case by (simp add: register_leds_def silent_def)
next
  case console
  then show ?case by (simp add: silent_updates)
qed

text \<open>
  C34: in every run, whatever the keyboard sends and whatever modes and lights are set, with key maps
  within the limits of the kernel and an array of at least 256 of them: no table is read or written outside, the repeat timer is never added while it is
  pending, and not one character goes to a terminal.  The driver's pointer to the terminal is never
  set, because the only assignment is in the bottom half, whose tasklet nobody enables; what is typed
  only appears in the kernel's log.
\<close>
theorem keyboard_runs_safely:
  assumes "keymap_ok E" "kbd_reach E s"
  shows "\<not> kfault s \<and> Timer_twice \<notin> set (kout s) \<and> \<not> tty s \<and> {Flip c | c. True} \<inter> set (kout s) = {}"
  using reach_silent [OF assms] by (fastforce simp: silent_def list_all_iff)

lemma demo_keymap_ok: "keymap_ok demo_env"
proof -
  have "keysym_ok demo_env (demo_map b k)" for b k
    using demo_syms by (simp add: keysym_ok_def demo_map_def shift_slot_def) (simp add: demo_env_def)
  moreover have "maps_fit demo_env" using demo_agree by (simp add: shifts_agree_def)
  ultimately show ?thesis unfolding keymap_ok_def demo_plain_shift by (auto simp: demo_env_def)
qed

definition demo_pressed :: kbd where
  "demo_pressed = scancode_in demo_env 0x1C (kbd_init demo_env)"

lemma demo_pressed_reach: "kbd_reach demo_env demo_pressed"
  unfolding demo_pressed_def by (rule kbd_reach.byte [OF kbd_reach.start])

theorem keyboard_runs_safely_witness:
  "\<not> kfault demo_pressed \<and> Timer_twice \<notin> set (kout demo_pressed) \<and> \<not> tty demo_pressed \<and>
   {Flip c | c. True} \<inter> set (kout demo_pressed) = {}"
  by (rule keyboard_runs_safely [OF demo_keymap_ok demo_pressed_reach])

section \<open>The shift state follows the keys\<close>

text \<open>
  C33: the state stays well formed.  When the key maps agree on which keys are shift keys, and as long as a key goes down only when it is up and up only when it
  is down, each keycode processed moves it into or out of the bitmap, every shift counter is the number
  of its keys that are down, and the mask has a bit exactly for the counters that are not zero.
\<close>
theorem shift_follows_keys:
  assumes "shifts_agree E" "kbd_ok E s" "k < 128" "up \<longleftrightarrow> k \<in> held s"
  shows "kbd_ok E (kbd_processkeycode E k up s) \<and>
    held (kbd_processkeycode E k up s) = (if up then held s - {k} else insert k (held s))"
  using process_ok [OF assms(2,1,3,4)] by simp

theorem shift_follows_keys_witness:
  "kbd_ok demo_env (kbd_processkeycode demo_env 42 False (kbd_init demo_env)) \<and>
   held (kbd_processkeycode demo_env 42 False (kbd_init demo_env)) = {42}"
  using shift_follows_keys [OF demo_agree init_ok(1) [OF demo_agree], of 42 False] init_ok(4) [OF demo_agree]
  by simp

section \<open>A shift key that repeats\<close>

lemma bit_push_self: "v < 32 \<Longrightarrow> bit (push_bit v 1 :: u32) v"
  by (simp add: bit_simps)

text \<open>One press or release of a shift key, whatever the bitmap holds.\<close>

lemma shift_key_step:
  fixes up :: bool
  assumes T: "typewriter E" and c: "cooked s" and n: "neutral E s" and v: "plain_shift E k = Some v"
    and len: "length (k_down s) = NR_SHIFT E" and low: "low8 (shift_state s)"
  defines "t \<equiv> kbd_processkeycode E k up s"
  defines "w \<equiv> shift_mask (unat v) (shift_count (unat v) up s)"
  shows "k_down t = k_down w \<and> shift_state t = shift_state w \<and> \<not> rep t \<and> cooked t \<and> neutral E t \<and>
    key_down t = key_down (snd (track_key k up s))"
proof -
  define u where "u = arm_repeat E k up False (snd (track_key k up s))"
  have A: "shifts_agree E" using T by (simp add: typewriter_def)
  have t: "t = dispatch E k up False u" using c by (simp add: t_def u_def process_cooked)
  have "sh u = sh (snd (track_key k up s))" by (simp add: u_def)
  then have u: "k_down u = k_down s" "shift_state u = shift_state s" "\<not> rep u"
    "key_down u = key_down (snd (track_key k up s))"
    using track_key_frame [of k up s] by (auto simp: sh_def)
  have nu: "neutral E u" using n by (simp add: u_def)
  have cu: "cooked u" using c by (simp add: u_def cooked_def)
  have fin: "shift_final u = shift_state u" using nu by (simp add: shift_final_def neutral_def)
  have I: "in_maps E u" using low8_in_maps [of E u] A low u(2) by (simp add: shifts_agree_def)
  obtain km where km: "key_maps E (shift_final u) = Some km"
    and ty: "KTYP (km k) \<in> {0xf0 + KT_LATIN, 0xf0 + KT_LETTER, 0xf0 + KT_SHIFT}"
    using T I unfolding typewriter_def in_maps_def by metis
  have sym: "shift_sym E (km k) = Some v" using A km v by (simp add: shifts_agree_def)
  then have T7: "KTYP (km k) = 247"
    using ty by (auto simp: shift_sym_def KT_LATIN_def KT_LETTER_def KT_SHIFT_def KT_SLOCK_def split: if_splits)
  have "v = of_nat (shift_slot E (KVAL (km k)))" using shift_sym_slot [OF A sym] .
  moreover have "shift_slot E (KVAL (km k)) < NR_SHIFT E" using slot_less [OF A] v calculation by simp
  ultimately have slot: "shift_slot E (KVAL (km k)) = unat v" and lt: "unat v < NR_SHIFT E"
    using A unat_of_nat_u8 [of "shift_slot E (KVAL (km k))"] by (auto simp: shifts_agree_def)
  have disp: "t = (do_shift E (KVAL (km k)) up u)\<lparr>slockstate := 0\<rparr>"
    using dispatch_call(1) [OF km I] T7 by (simp add: t call_handler_7)
  define x where "x = (if KVAL (km k) = KG_CAPSSHIFT E \<and> \<not> up then undo_capslock E u else u)"
  have shx: "sh x = sh u" by (simp add: x_def)
  have "npadch x = -1" using nu by (simp add: x_def undo_capslock_def neutral_def)
  then have "sh (do_shift E (KVAL (km k)) up u) = sh (shift_mask (unat v) (shift_count (unat v) up x))"
    using u lt len slot
    by (simp add: do_shift_def Let_def x_def [symmetric] shift_mask_def shift_count_def) (simp add: x_def)
  also have "\<dots> = sh (shift_mask (unat v) (shift_count (unat v) up u))"
    by (rule sh_count_mask [OF shx])
  finally have "sh t = sh (shift_mask (unat v) (shift_count (unat v) up u))" by (simp add: disp)
  moreover have "neutral E t" using do_shift_neutral(1) [OF nu] by (simp add: disp)
  moreover have "cooked t" using cu cooked_fx [of t u] by (simp add: t)
  ultimately show ?thesis
    using u by (auto simp: sh_def w_def shift_mask_def shift_count_def)
qed

text \<open>The shift key \<open>k\<close> is down and was pressed \<open>j\<close> times.\<close>

definition pressed :: "kbd_env \<Rightarrow> u8 \<Rightarrow> u8 \<Rightarrow> nat \<Rightarrow> kbd \<Rightarrow> bool" where
  "pressed E k v j t \<longleftrightarrow> held t \<subseteq> {k} \<and> cooked t \<and> neutral E t \<and> length (key_down t) = 8 \<and>
    length (k_down t) = NR_SHIFT E \<and> low8 (shift_state t) \<and> k_down t ! unat v = of_nat j \<and> (j \<noteq> 0 \<longrightarrow> bit (shift_state t) (unat v))"

lemma press_again:
  assumes T: "typewriter E" and v: "plain_shift E k = Some v" and j: "j < 255" and u: "pressed E k v j u"
  shows "pressed E k v (Suc j) (kbd_processkeycode E k False u)"
proof -
  define w where "w = kbd_processkeycode E k False u"
  have A: "shifts_agree E" using T by (simp add: typewriter_def)
  then have lt: "unat v < NR_SHIFT E" and v8: "unat v < 8"
    using v by (auto simp: shifts_agree_def maps_fit_def)
  then have v32: "unat v < 32" by simp
  have U: "cooked u" "neutral E u" "length (key_down u) = 8" "length (k_down u) = NR_SHIFT E"
    "k_down u ! unat v = of_nat j" "held u \<subseteq> {k}" "low8 (shift_state u)" using u by (simp_all add: pressed_def)
  have "unat (of_nat (Suc j) :: u8) = Suc j"
    by (rule of_nat_inverse [OF refl]) (use j in simp)
  then have nz: "k_down u ! unat v + 1 \<noteq> 0" using U(5) by (auto simp: add.commute)
  note st = shift_key_step [OF T U(1,2) v U(4,7), of False, folded w_def]
  have "held w = held (snd (track_key k False u))" using st by (simp add: held_def key_is_down_def)
  then have "held w \<subseteq> {k}" using track_key_held [OF U(3), of k False] U(6) by auto
  moreover have "length (key_down w) = 8" using st track_key_frame(5) [of k False u] U(3) by simp
  moreover have "bit (shift_state w) (unat v)"
    using st nz U(4) lt bit_slot(1) [OF v32, of "shift_state u" "unat v"] by (simp add: shift_count_def shift_mask_def)
  ultimately show ?thesis
    using st nz lt U v8 unfolding pressed_def w_def [symmetric]
    by (simp add: shift_count_def shift_mask_def add.commute)
qed

lemma repeated_presses:
  assumes T: "typewriter E" and v: "plain_shift E k = Some v" and s: "pressed E k v 0 s" and m: "m \<le> 255"
  shows "pressed E k v m (run_events E (replicate m (k, False)) s)"
  using m
proof (induction m)
  case 0
  then show ?case using s by (simp add: run_events_def)
next
  case (Suc m)
  have "run_events E (replicate (Suc m) (k, False)) s =
      kbd_processkeycode E k False (run_events E (replicate m (k, False)) s)"
    unfolding replicate_Suc replicate_append_same [symmetric] by (simp add: run_events_def)
  with Suc press_again [OF T v] show ?case by simp
qed

text \<open>
  A shift key that repeats sticks.  A PS/2 keyboard sends the make code of a held key again and
  again, Shift included, and the driver counts every one of them, because its own test-and-set of the
  key bitmap always answers that the key was up.  After \<open>m + 1\<close> makes and the one break no key is
  down, but the counter is at \<open>m\<close> and the shift is still on: the letters that follow are capitals.
\<close>
theorem shift_repeat_sticks:
  assumes T: "typewriter E" and ok: "kbd_ok E s" and n: "neutral E s" and empty: "held s = {}"
    and v: "plain_shift E k = Some v" and m: "0 < m" "m < 255"
  defines "t \<equiv> run_events E (replicate (Suc m) (k, False) @ [(k, True)]) s"
  shows "held t = {} \<and> k_down t ! unat v = of_nat m \<and> bit (shift_state t) (unat v)"
proof -
  define u where "u = run_events E (replicate (Suc m) (k, False)) s"
  have A: "shifts_agree E" using T by (simp add: typewriter_def)
  then have lt: "unat v < NR_SHIFT E" and v8: "unat v < 8"
    using v by (auto simp: shifts_agree_def maps_fit_def)
  then have v32: "unat v < 32" by simp
  have "k_down s ! unat v = 0"
    using ok lt empty by (simp add: kbd_ok_def shift_ok_def shift_keys_def flip: unat_eq_zero)
  then have "pressed E k v 0 s"
    using ok n empty shift_ok_low [OF _ A] by (auto simp: pressed_def kbd_ok_def shift_ok_def)
  then have u: "pressed E k v (Suc m) u"
    unfolding u_def using m by (intro repeated_presses [OF T v]) simp_all
  have t: "t = kbd_processkeycode E k True u" by (simp add: t_def u_def run_events_def)
  have U: "cooked u" "neutral E u" "length (key_down u) = 8" "length (k_down u) = NR_SHIFT E" "held u \<subseteq> {k}"
    "k_down u ! unat v = of_nat (Suc m)" "low8 (shift_state u)" using u by (simp_all add: pressed_def)
  have big: "unat (of_nat (Suc m) :: u8) = Suc m" "unat (of_nat m :: u8) = m"
    by (rule of_nat_inverse [OF refl], use m in simp)+
  then have nz: "k_down u ! unat v \<noteq> 0" "k_down u ! unat v - 1 = of_nat m" "(of_nat m :: u8) \<noteq> 0"
    using U(6) m by (auto simp flip: unat_eq_zero)
  note st = shift_key_step [OF T U(1,2) v U(4,7), of True, folded t]
  have "held t = held (snd (track_key k True u))" using st by (simp add: held_def key_is_down_def)
  then have "held t = {}" using track_key_held [OF U(3), of k True] U(5) by auto
  moreover have "k_down t ! unat v = of_nat m" and "bit (shift_state t) (unat v)"
    using st nz lt U(4) bit_slot(1) [OF v32, of "shift_state u" "unat v"]
    by (simp_all add: shift_count_def shift_mask_def)
  ultimately show ?thesis by simp
qed

lemma demo_init:
  "kbd_ok demo_env (kbd_init demo_env)" "neutral demo_env (kbd_init demo_env)" "held (kbd_init demo_env) = {}"
  using init_ok [OF demo_agree] by simp_all

theorem shift_repeat_sticks_witness:
  "held (run_events demo_env (replicate 3 (42, False) @ [(42, True)]) (kbd_init demo_env)) = {} \<and>
   k_down (run_events demo_env (replicate 3 (42, False) @ [(42, True)]) (kbd_init demo_env)) ! unat (0::u8) = of_nat 2 \<and>
   bit (shift_state (run_events demo_env (replicate 3 (42, False) @ [(42, True)]) (kbd_init demo_env))) (unat (0::u8))"
  using shift_repeat_sticks [OF demo_typewriter demo_init(1,2,3), of 42 0 2]
  by (simp only: demo_plain_shift eval_nat_numeral) simp

end
