(* ===== verification/Kbd_Text.thy ===== *)
theory Kbd_Text
  imports Ps2_Type
begin

text \<open>
  Characters the keyboard driver composes: a keysym outside the key types goes out as UTF-8, and a
  character number typed on the pad with Alt held goes out when Alt is released.
\<close>

section \<open>UTF-8\<close>

text \<open>The decoder of the standard, for the characters of one to three bytes.\<close>

fun utf8_decode :: "u8 list \<Rightarrow> keysym option" where
  "utf8_decode [a] = (if a < 0x80 then Some (ucast a) else None)"
| "utf8_decode [a, b] =
     (if a AND 0xe0 = 0xc0 \<and> b AND 0xc0 = 0x80
      then Some (push_bit 6 (ucast a AND 0x1f) OR (ucast b AND 0x3f)) else None)"
| "utf8_decode [a, b, c] =
     (if a AND 0xf0 = 0xe0 \<and> b AND 0xc0 = 0x80 \<and> c AND 0xc0 = 0x80
      then Some (push_bit 12 (ucast a AND 0x0f) OR push_bit 6 (ucast b AND 0x3f) OR (ucast c AND 0x3f)) else None)"
| "utf8_decode _ = None"

section \<open>The bits of the bytes\<close>

lemma high_bits:
  fixes c :: keysym
  assumes "c < 2 ^ m"
  shows "m \<le> n \<Longrightarrow> \<not> bit c n"
  using less_mask_eq [OF assms] by (metis bit_and_iff bit_mask_iff not_le)

lemma bits8: "(\<And>n. n \<in> {0, 1, 2, 3, 4, 5, 6, 7} \<Longrightarrow> bit (a::u8) n = bit b n) \<Longrightarrow> a = b"
  by (rule bit_word_eqI) (use below8 in auto)

lemma bits16: "(\<And>n. n \<in> {0, 1, 2, 3, 4, 5, 6, 7, 8, 9, 10, 11, 12, 13, 14, 15} \<Longrightarrow> bit (a::keysym) n = bit b n) \<Longrightarrow> a = b"
  by (rule bit_word_eqI) (use below16 in auto)

lemma cont: "ucast (0x80 OR (c AND 0x3f) :: keysym) AND (0xc0::u8) = 0x80"
  by (rule bits8) (elim insertE; simp add: bit_simps)

lemma cont2:
  "ucast (ucast (0x80 OR (c AND 0x3f) :: keysym) :: u8) AND (0x3f :: keysym) = c AND 0x3f"
  by (rule bits16) (elim insertE; simp add: bit_simps)

lemma beyond: "16 \<le> n \<Longrightarrow> \<not> bit (c::keysym) n"
  by (auto dest: bit_imp_le_length)

lemma lead2:
  assumes "c < 0x800"
  shows "ucast (0xc0 OR drop_bit 6 c :: keysym) AND (0xe0::u8) = 0xc0"
    and "push_bit 6 (ucast (ucast (0xc0 OR drop_bit 6 c :: keysym) :: u8) AND 0x1f) OR (c AND 0x3f) = c"
proof -
  have h: "\<not> bit c n" if "11 \<le> n" for n using high_bits [of c 11 n] assms that by simp
  show "ucast (0xc0 OR drop_bit 6 c :: keysym) AND (0xe0::u8) = 0xc0"
    by (rule bits8) (elim insertE; simp add: bit_simps h)
  show "push_bit 6 (ucast (ucast (0xc0 OR drop_bit 6 c :: keysym) :: u8) AND 0x1f) OR (c AND 0x3f) = c"
    by (rule bits16) (elim insertE; simp add: bit_simps h)
qed

lemma lead3:
  "ucast (0xe0 OR drop_bit 12 c :: keysym) AND (0xf0::u8) = 0xe0"
  "push_bit 12 (ucast (ucast (0xe0 OR drop_bit 12 c :: keysym) :: u8) AND 0x0f) OR
   (push_bit 6 (drop_bit 6 c AND 0x3f) OR (c AND 0x3f)) = c"
   apply (rule bits8, elim insertE; simp add: bit_simps beyond)
  apply (rule bits16, elim insertE; simp add: bit_simps beyond)
  done

lemma ascii: "c < 0x80 \<Longrightarrow> (ucast c :: u8) < 0x80 \<and> ucast (ucast c :: u8) = (c :: keysym)"
proof -
  assume "c < 0x80"
  then have h: "\<not> bit c n" if "7 \<le> n" for n using high_bits [of c 7 n] that by simp
  have "ucast (ucast c :: u8) = c"
    by (rule bits16) (elim insertE; simp add: bit_simps h)
  moreover have "unat (ucast c :: u8) < 128"
    using \<open>c < 0x80\<close> by (simp add: unsigned_ucast_eq take_bit_eq_mod word_less_nat_alt)
  ultimately show ?thesis by (simp add: word_less_nat_alt)
qed

text \<open>
  C39: \<open>to_utf8\<close> is UTF-8: whatever the keysym, the bytes it prints are one to three, as few as the
  character allows, and the standard's decoder gets the keysym back from them.
\<close>
theorem to_utf8_decodes:
  "\<exists>bs. printed (to_utf8 c s) = printed s @ bs \<and> utf8_decode bs = Some c \<and>
     length bs = (if c < 0x80 then 1 else if c < 0x800 then 2 else 3)"
proof -
  consider "c < 0x80" | "\<not> c < 0x80" "c < 0x800" | "\<not> c < 0x80" "\<not> c < 0x800" by blast
  then show ?thesis
  proof cases
    case 1
    with ascii show ?thesis by (simp add: to_utf8_def)
  next
    case 2
    then show ?thesis
      using lead2 [of c] cont [of c] cont2 [of c] by (simp add: to_utf8_def)
  next
    case 3
    then show ?thesis
      using lead3 [of c] cont [of c] cont2 [of c] cont [of "drop_bit 6 c"] cont2 [of "drop_bit 6 c"]
      by (simp add: to_utf8_def)
  qed
qed

section \<open>A number typed on the pad\<close>

definition digits_value :: "u8 list \<Rightarrow> int" where
  "digits_value ds = foldl (\<lambda>n d. 10 * n + uint d) 0 ds"

lemma digits_snoc: "digits_value (ds @ [d]) = 10 * digits_value ds + uint d"
  by (simp add: digits_value_def)

lemma digits_nonneg: "0 \<le> digits_value ds"
  by (induction ds rule: rev_induct) (simp_all add: digits_snoc, simp add: digits_value_def)

lemma next_digit:
  assumes "d < 10" "0 \<le> n" "10 * n + uint d < 2 ^ 31"
  shows "do_ascii d False (s\<lparr>npadch := n\<rparr>) = s\<lparr>npadch := 10 * n + uint d\<rparr>"
proof -
  have "0 \<le> uint d" "10 * n + uint d < 2147483648" using assms(3) by simp_all
  with assms(2) have "s32 (n * 10 + uint d) = n * 10 + uint d" by (intro s32_id) linarith+
  with assms show ?thesis by (simp add: do_ascii_def)
qed

lemma ascii_digits:
  assumes "npadch s = -1" "ds \<noteq> []" "list_all (\<lambda>d. d < 10) ds" "digits_value ds < 2 ^ 31"
  shows "fold (\<lambda>d. do_ascii d False) ds s = s\<lparr>npadch := digits_value ds\<rparr>"
  using assms(2-4)
proof (induction ds rule: rev_induct)
  case (snoc d ds)
  have d: "d < 10" using snoc.prems by simp
  show ?case
  proof (cases "ds = []")
    case True
    with d assms(1) show ?thesis by (simp add: do_ascii_def digits_value_def)
  next
    case False
    have n: "0 \<le> digits_value ds" by (rule digits_nonneg)
    have v: "10 * digits_value ds + uint d < 2 ^ 31" using snoc.prems by (simp add: digits_snoc)
    have u: "0 \<le> uint d" by simp
    have small: "digits_value ds < 2 ^ 31" using v n u by linarith
    have "fold (\<lambda>d. do_ascii d False) ds s = s\<lparr>npadch := digits_value ds\<rparr>"
      using snoc.prems False small by (intro snoc.IH) simp_all
    with next_digit [OF d n v] show ?thesis by (simp add: digits_snoc)
  qed
qed simp

text \<open>
  With Alt held, the decimal digits typed on the pad make a number, and the release of the last
  Alt prints the character with that number, reduced to eight bits outside Unicode mode, and clears
  the number for the next time.
\<close>
theorem alt_digits_type:
  assumes start: "npadch s = -1" "\<not> rep s" "kbdmode s \<noteq> VC_UNICODE"
    and ds: "ds \<noteq> []" "list_all (\<lambda>d. d < 10) ds" "digits_value ds < 2 ^ 31"
    and alt: "v \<noteq> KG_CAPSSHIFT E" "unat v < length (k_down s)" "k_down s ! unat v = 1" "bit (shift_state s) (unat v)"
  defines "t \<equiv> do_shift E v True (fold (\<lambda>d. do_ascii d False) ds s)"
  shows "printed t = printed s @ [word_of_int (digits_value ds)] \<and> npadch t = -1 \<and> k_down t ! unat v = 0"
proof -
  define u where "u = s\<lparr>npadch := digits_value ds\<rparr>"
  have u: "fold (\<lambda>d. do_ascii d False) ds s = u" unfolding u_def by (rule ascii_digits [OF start(1) ds])
  define w where "w = shift_mask (unat v) (shift_count (unat v) True u)"
  have w: "k_down w ! unat v = 0" "kbdmode w = kbdmode s" "npadch w = digits_value ds" "printed w = printed s"
    "shift_state w = shift_state s AND NOT (push_bit (unat v) 1)"
    using alt by (simp_all add: w_def u_def shift_mask_def shift_count_def)
  have changed: "shift_state w \<noteq> shift_state u"
    using alt(4) bit_slot(2) [of "shift_state s" "unat v" "unat v"] w(5) by (auto simp: u_def)
  have "digits_value ds \<noteq> -1" using digits_nonneg [of ds] by linarith
  then have t: "t = flush_npadch w"
    using start(2) alt changed w(3) unfolding t_def u
    by (simp add: do_shift_def Let_def shift_slot_def w_def [symmetric]) (simp add: u_def)
  show ?thesis
    using w start(3) by (simp add: t flush_npadch_def put_queue_def Let_def note_k_def printed_def)
qed

definition demo_alt :: kbd where
  "demo_alt = (kbd_init demo_env)\<lparr>k_down := [0, 0, 0, 1, 0, 0, 0, 0, 0], shift_state := 8\<rparr>"

theorem alt_digits_type_witness:
  "printed (do_shift demo_env 3 True (fold (\<lambda>d. do_ascii d False) [2, 3, 3] demo_alt)) = [0xe9]"
proof -
  have "printed (do_shift demo_env 3 True (fold (\<lambda>d. do_ascii d False) [2, 3, 3] demo_alt)) =
      printed demo_alt @ [word_of_int (digits_value [2, 3, 3])]"
    by (rule conjunct1 [OF alt_digits_type]) (simp_all add: demo_alt_def kbd_init_def demo_env_def digits_value_def)
  then show ?thesis by (simp add: demo_alt_def kbd_init_def printed_def digits_value_def)
qed

end
