(* ===== verification/Keypad.thy ===== *)
theory Keypad
  imports Mmio
begin

text \<open>
  The matrix keypad driver of exercise 14 (EXP14/driver/keybd/keybd.c): a scan drives the columns low
  and looks for a row that is pulled down, then drives the rows low and looks for a column.
\<close>

datatype kpd_reg = GPCCON | GPCUP | GPCDAT | GPDCON | GPDUP | GPDDAT

record kpd = "kpd_reg machine" +
  last_key :: u8
  user_byte :: u8

definition NOKEY :: u8 where "NOKEY = 0"

definition keybd_arr :: "u8 list list" where
  "keybd_arr =
    [[0, 0, 0, 0, 0], [0, 0x58, 0xdf, 0x5f, 0xdb], [0, 0x53, 0x4f, 0xcf, 0xc7],
     [0, 0x50, 0x9d, 0x5d, 0x8e], [0, 0x9f, 0xde, 0x20, 0x8b]]"

definition update :: "kpd_reg dev \<Rightarrow> kpd_reg \<Rightarrow> (u32 \<Rightarrow> u32) \<Rightarrow> kpd \<Rightarrow> kpd" where
  "update dev r f s = (let (v, s) = rd dev r s in wr r (f v) s)"

text \<open>The \<open>if ... else if\<close> chain: every test reads the register again; 0 when no line is low.\<close>

fun first_low :: "kpd_reg dev \<Rightarrow> kpd_reg \<Rightarrow> u32 list \<Rightarrow> nat \<Rightarrow> kpd \<Rightarrow> nat \<times> kpd" where
  "first_low dev r [] i s = (0, s)"
| "first_low dev r (m # ms) i s =
     (let (v, s) = rd dev r s in if v AND m = 0 then (i, s) else first_low dev r ms (i + 1) s)"

definition scan_row :: "kpd_reg dev \<Rightarrow> kpd \<Rightarrow> nat \<times> kpd" where
  "scan_row dev s =
    (let s = update dev GPDCON (\<lambda>v. v AND 0xfff5fff5) s;
         s = update dev GPDCON (\<lambda>v. v OR 0x00050005) s;
         s = update dev GPDDAT (\<lambda>v. v AND 0xfcfc) s;
         s = update dev GPCCON (\<lambda>v. v AND 0xffc03fff) s;
         s = udelay 10000 s
     in first_low dev GPCDAT [0x0080, 0x0100, 0x0200, 0x0400] 1 s)"

definition scan_line :: "kpd_reg dev \<Rightarrow> kpd \<Rightarrow> nat \<times> kpd" where
  "scan_line dev s =
    (let s = update dev GPCCON (\<lambda>v. v AND 0xffd57fff) s;
         s = update dev GPCCON (\<lambda>v. v OR 0x00154000) s;
         s = update dev GPCDAT (\<lambda>v. v AND 0xf87f) s;
         s = update dev GPDCON (\<lambda>v. v AND 0xfff0fff0) s;
         s = udelay 10000 s
     in first_low dev GPDDAT [0x0001, 0x0002, 0x0100, 0x0200] 1 s)"

text \<open>The return value is 1; \<open>put_user\<close> stores the byte at the caller, its result is not looked at.\<close>

definition keybd_read :: "kpd_reg dev \<Rightarrow> kpd \<Rightarrow> int \<times> kpd" where
  "keybd_read dev s =
    (let (row, s) = scan_row dev s;
         (line, s) = scan_line dev s;
         s = s\<lparr>last_key := keybd_arr ! row ! line\<rparr>;
         s = s\<lparr>user_byte := last_key s\<rparr>
     in (1, s\<lparr>last_key := NOKEY\<rparr>))"

definition keybd_init :: "kpd_reg dev \<Rightarrow> kpd \<Rightarrow> kpd" where
  "keybd_init dev s = update dev GPDUP (\<lambda>v. v AND 0xfcfc) (update dev GPCUP (\<lambda>v. v AND 0xf87f) s)"

section \<open>The keypad\<close>

text \<open>
  A 4 by 4 matrix on the ports after the data sheet of the processor: two bits of \<open>CON\<close> per pin, 00 an
  input with pull-up, 01 an output.  An input reads low exactly when a pressed key ties it to an output
  that is driven low; an output and every other register read what was last written.  \<open>P\<close> holds the
  keys that are down, as (row, line), 1 to 4 each.
\<close>

fun latch :: "kpd_reg \<Rightarrow> kpd_reg ev list \<Rightarrow> u32" where
  "latch r [] = 0"
| "latch r (Wr q v # h) = (if q = r then v else latch r h)"
| "latch r (_ # h) = latch r h"

definition pin_of_row :: "nat \<Rightarrow> nat" where "pin_of_row i = i + 6"
definition pin_of_line :: "nat \<Rightarrow> nat" where "pin_of_line j = (if j \<le> 2 then j - 1 else j + 5)"

definition is_input :: "u32 \<Rightarrow> nat \<Rightarrow> bool" where
  "is_input con p \<longleftrightarrow> \<not> bit con (2 * p) \<and> \<not> bit con (2 * p + 1)"

definition is_output :: "u32 \<Rightarrow> nat \<Rightarrow> bool" where
  "is_output con p \<longleftrightarrow> bit con (2 * p) \<and> \<not> bit con (2 * p + 1)"

definition row_low :: "(nat \<times> nat) list \<Rightarrow> kpd_reg ev list \<Rightarrow> nat \<Rightarrow> bool" where
  "row_low P h i \<longleftrightarrow> (\<exists>(r, l) \<in> set P. r = i \<and> is_output (latch GPDCON h) (pin_of_line l) \<and>
     \<not> bit (latch GPDDAT h) (pin_of_line l))"

definition line_low :: "(nat \<times> nat) list \<Rightarrow> kpd_reg ev list \<Rightarrow> nat \<Rightarrow> bool" where
  "line_low P h j \<longleftrightarrow> (\<exists>(r, l) \<in> set P. l = j \<and> is_output (latch GPCCON h) (pin_of_row r) \<and>
     \<not> bit (latch GPCDAT h) (pin_of_row r))"

definition pull :: "u32 \<Rightarrow> (nat \<Rightarrow> nat) \<Rightarrow> (nat \<Rightarrow> bool) \<Rightarrow> u32 \<Rightarrow> u32" where
  "pull con pin low v =
    fold (\<lambda>i v. if is_input con (pin i)
                then if low i then v AND NOT (push_bit (pin i) 1) else v OR push_bit (pin i) 1 else v)
      [1, 2, 3, 4] v"

definition keypad :: "(nat \<times> nat) list \<Rightarrow> kpd_reg dev" where
  "keypad P h r =
    (let h = rev h
     in if r = GPCDAT then pull (latch GPCCON h) pin_of_row (row_low P h) (latch GPCDAT h)
        else if r = GPDDAT then pull (latch GPDCON h) pin_of_line (line_low P h) (latch GPDDAT h)
        else latch r h)"

section \<open>What a scan finds\<close>

definition lowest :: "(nat \<Rightarrow> bool) \<Rightarrow> nat" where
  "lowest p = (if p 1 then 1 else if p 2 then 2 else if p 3 then 3 else if p 4 then 4 else 0)"

definition key_at :: "(nat \<times> nat) list \<Rightarrow> u8" where
  "key_at P = keybd_arr ! lowest (\<lambda>i. i \<in> fst ` set P) ! lowest (\<lambda>j. j \<in> snd ` set P)"

lemma latch_emit [simp]:
  "bus (update dev r f s) = bus s @ [Rd r, Wr r (f (dev (bus s) r))]"
  by (simp add: update_def rd_def emit_def wr_def)

lemma update_more [simp]: "last_key (update dev r f s) = last_key s" "user_byte (update dev r f s) = user_byte s"
  by (simp_all add: update_def rd_def emit_def wr_def)

abbreviation shown :: "kpd_reg \<Rightarrow> kpd \<Rightarrow> u32" where
  "shown r s \<equiv> latch r (rev (bus s))"

lemma bit_pull:
  assumes "inj_on pin {1, 2, 3, 4}" "\<forall>i \<in> {1, 2, 3, 4}. pin i < 32" "i \<in> {1, 2, 3, 4}" "is_input con (pin i)"
  shows "bit (pull con pin low v) (pin i) \<longleftrightarrow> \<not> low i"
proof -
  have "pin 1 \<noteq> pin 2" "pin 1 \<noteq> pin 3" "pin 1 \<noteq> pin 4" "pin 2 \<noteq> pin 3" "pin 2 \<noteq> pin 4" "pin 3 \<noteq> pin 4"
    using assms(1) by (auto simp: inj_on_def)
  moreover have "pin 1 < 32" "pin 2 < 32" "pin 3 < 32" "pin 4 < 32" using assms(2) by auto
  ultimately show ?thesis
    using assms(3,4) by (elim insertE) (simp_all add: pull_def bit_simps)
qed

lemma low_quiet [simp]:
  "row_low P (Rd q # h) = row_low P h" "row_low P (Udelay n # h) = row_low P h"
  "line_low P (Rd q # h) = line_low P h" "line_low P (Udelay n # h) = line_low P h"
  by (simp_all add: row_low_def line_low_def fun_eq_iff)

lemma keypad_stable [simp]: "keypad P (h @ [Rd q]) r = keypad P h r" "keypad P (h @ [Udelay n]) r = keypad P h r"
  by (simp_all add: keypad_def Let_def)

lemma keypad_latched: "r \<noteq> GPCDAT \<Longrightarrow> r \<noteq> GPDDAT \<Longrightarrow> keypad P h r = latch r (rev h)"
  by (simp add: keypad_def)

lemma latch_reads: "latch q (replicate n (Rd r) @ h) = latch q h"
  by (induction n) simp_all

lemma first_low_lowest:
  assumes "v = keypad P (bus s) r" "ms = map (\<lambda>i. push_bit (pin i) 1) [1, 2, 3, 4]"
  shows "\<exists>s'. first_low (keypad P) r ms 1 s = (lowest (\<lambda>i. \<not> bit v (pin i)), s') \<and>
    (\<forall>q. shown q s' = shown q s) \<and> last_key s' = last_key s \<and> user_byte s' = user_byte s"
proof -
  have m: "v AND push_bit (pin i) 1 = 0 \<longleftrightarrow> \<not> bit v (pin i)" for i
    by (simp add: bit_iff_and_push_bit_not_eq_0)
  have v: "keypad P (bus s @ replicate n (Rd r)) r = v" for n
    using assms(1) by (induction n) (simp_all flip: replicate_append_same append_assoc)
  define t where "t n = s\<lparr>bus := bus s @ replicate n (Rd r)\<rparr>" for n
  have rd: "rd (keypad P) r (t n) = (v, t (Suc n))" for n
    using v by (simp add: rd_def t_def emit_def replicate_append_same)
  have s: "s = t 0" by (simp add: t_def)
  have t: "shown q (t n) = shown q s" "last_key (t n) = last_key s" "user_byte (t n) = user_byte s" for q n
    by (simp_all add: t_def latch_reads)
  show ?thesis
    unfolding assms(2) by (subst s) (auto simp: rd m lowest_def t simp del: push_bit_of_1 push_bit_numeral)
qed

lemma pins_set:
  fixes x :: u32
  assumes "i \<in> {1, 2, 3, 4}"
  shows "is_output (x AND 0xfff5fff5 OR 0x00050005) (pin_of_line i)" "is_input (x AND 0xfff0fff0) (pin_of_line i)"
    "\<not> bit (x AND 0xfcfc) (pin_of_line i)"
    "is_output (x AND 0xffd57fff OR 0x00154000) (pin_of_row i)" "is_input (x AND 0xffc03fff) (pin_of_row i)"
    "\<not> bit (x AND 0xf87f) (pin_of_row i)"
  using assms
  by (elim insertE; simp add: is_output_def is_input_def pin_of_line_def pin_of_row_def bit_simps)+

lemma pins_apart:
  "inj_on pin_of_row {1, 2, 3, 4}" "\<forall>i \<in> {1, 2, 3, 4}. pin_of_row i < 32"
  "inj_on pin_of_line {1, 2, 3, 4}" "\<forall>i \<in> {1, 2, 3, 4}. pin_of_line i < 32"
  by (auto simp: pin_of_row_def pin_of_line_def)

lemma pin_masks:
  "[0x0080, 0x0100, 0x0200, 0x0400 :: u32] = map (\<lambda>i. push_bit (pin_of_row i) 1) [1, 2, 3, 4]"
  "[0x0001, 0x0002, 0x0100, 0x0200 :: u32] = map (\<lambda>i. push_bit (pin_of_line i) 1) [1, 2, 3, 4]"
  by (simp_all add: pin_of_row_def pin_of_line_def)

lemma lowest_cong: "(\<And>i. i \<in> {1, 2, 3, 4} \<Longrightarrow> p i = q i) \<Longrightarrow> lowest p = lowest q"
  by (simp add: lowest_def)

lemma shown_udelay [simp]: "shown q (udelay n s) = shown q s" "last_key (udelay n s) = last_key s"
  "user_byte (udelay n s) = user_byte s"
  by (simp_all add: udelay_def emit_def)

definition on_pad :: "(nat \<times> nat) list \<Rightarrow> bool" where
  "on_pad P \<longleftrightarrow> set P \<subseteq> {1, 2, 3, 4} \<times> {1, 2, 3, 4}"

lemma scan_row_finds:
  assumes P: "on_pad P"
  shows "\<exists>s'. scan_row (keypad P) s = (lowest (\<lambda>i. i \<in> fst ` set P), s') \<and> last_key s' = last_key s"
proof -
  define u where "u = udelay 10000 (update (keypad P) GPCCON (\<lambda>v. v AND 0xffc03fff)
    (update (keypad P) GPDDAT (\<lambda>v. v AND 0xfcfc) (update (keypad P) GPDCON (\<lambda>v. v OR 0x00050005)
      (update (keypad P) GPDCON (\<lambda>v. v AND 0xfff5fff5) s))))"
  obtain x where c: "shown GPDCON u = x AND 0xfff5fff5 OR 0x00050005"
    by (simp add: u_def keypad_latched)
  obtain y where d: "shown GPDDAT u = y AND 0xfcfc" by (simp add: u_def)
  obtain z where g: "shown GPCCON u = z AND 0xffc03fff" by (simp add: u_def)
  define v where "v = keypad P (bus u) GPCDAT"
  have dn: "is_output (shown GPDCON u) (pin_of_line l) \<and> \<not> bit (shown GPDDAT u) (pin_of_line l)"
    if "(r, l) \<in> set P" for r l
  proof -
    have l: "l \<in> {1, 2, 3, 4}" using P that unfolding on_pad_def by blast
    show ?thesis unfolding c d using pins_set(1,3) [OF l] by (rule conjI)
  qed
  have low: "row_low P (rev (bus u)) i \<longleftrightarrow> i \<in> fst ` set P" for i
    unfolding row_low_def using dn by (force simp del: rev_append)
  have "\<not> bit v (pin_of_row i) \<longleftrightarrow> i \<in> fst ` set P" if "i \<in> {1, 2, 3, 4}" for i
    using bit_pull [OF pins_apart(1,2) that, of "shown GPCCON u"] pins_set(5) [OF that] low
    by (simp add: v_def keypad_def Let_def g)
  then have "lowest (\<lambda>i. \<not> bit v (pin_of_row i)) = lowest (\<lambda>i. i \<in> fst ` set P)"
    by (rule lowest_cong)
  moreover have "scan_row (keypad P) s = first_low (keypad P) GPCDAT [0x0080, 0x0100, 0x0200, 0x0400] 1 u"
    by (simp only: scan_row_def Let_def u_def)
  moreover have "last_key u = last_key s" by (simp add: u_def)
  ultimately show ?thesis using first_low_lowest [OF v_def pin_masks(1)] by auto
qed

lemma scan_line_finds:
  assumes P: "on_pad P"
  shows "\<exists>s'. scan_line (keypad P) s = (lowest (\<lambda>j. j \<in> snd ` set P), s') \<and> last_key s' = last_key s"
proof -
  define u where "u = udelay 10000 (update (keypad P) GPDCON (\<lambda>v. v AND 0xfff0fff0)
    (update (keypad P) GPCDAT (\<lambda>v. v AND 0xf87f) (update (keypad P) GPCCON (\<lambda>v. v OR 0x00154000)
      (update (keypad P) GPCCON (\<lambda>v. v AND 0xffd57fff) s))))"
  obtain x where c: "shown GPCCON u = x AND 0xffd57fff OR 0x00154000"
    by (simp add: u_def keypad_latched)
  obtain y where d: "shown GPCDAT u = y AND 0xf87f" by (simp add: u_def)
  obtain z where g: "shown GPDCON u = z AND 0xfff0fff0" by (simp add: u_def)
  define v where "v = keypad P (bus u) GPDDAT"
  have dn: "is_output (shown GPCCON u) (pin_of_row r) \<and> \<not> bit (shown GPCDAT u) (pin_of_row r)"
    if "(r, l) \<in> set P" for r l
  proof -
    have r: "r \<in> {1, 2, 3, 4}" using P that unfolding on_pad_def by blast
    show ?thesis unfolding c d using pins_set(4,6) [OF r] by (rule conjI)
  qed
  have low: "line_low P (rev (bus u)) j \<longleftrightarrow> j \<in> snd ` set P" for j
    unfolding line_low_def using dn by (force simp del: rev_append)
  have "\<not> bit v (pin_of_line i) \<longleftrightarrow> i \<in> snd ` set P" if "i \<in> {1, 2, 3, 4}" for i
    using bit_pull [OF pins_apart(3,4) that, of "shown GPDCON u"] pins_set(2) [OF that] low
    by (simp add: v_def keypad_def Let_def g)
  then have "lowest (\<lambda>i. \<not> bit v (pin_of_line i)) = lowest (\<lambda>j. j \<in> snd ` set P)"
    by (rule lowest_cong)
  moreover have "scan_line (keypad P) s = first_low (keypad P) GPDDAT [0x0001, 0x0002, 0x0100, 0x0200] 1 u"
    by (simp only: scan_line_def Let_def u_def)
  moreover have "last_key u = last_key s" by (simp add: u_def)
  ultimately show ?thesis using first_low_lowest [OF v_def pin_masks(2)] by auto
qed

lemma keybd_read_key:
  assumes "on_pad P"
  shows "fst (keybd_read (keypad P) s) = 1 \<and> user_byte (snd (keybd_read (keypad P) s)) = key_at P \<and>
    last_key (snd (keybd_read (keypad P) s)) = NOKEY"
proof -
  obtain s1 where r: "scan_row (keypad P) s = (lowest (\<lambda>i. i \<in> fst ` set P), s1)"
    using scan_row_finds [OF assms] by blast
  obtain s2 where l: "scan_line (keypad P) s1 = (lowest (\<lambda>j. j \<in> snd ` set P), s2)"
    using scan_line_finds [OF assms] by blast
  show ?thesis by (simp add: keybd_read_def r l key_at_def)
qed

end
