(* ===== verification/Key_Led.thy ===== *)
theory Key_Led
  imports Keypad
begin

text \<open>
  The LED driver of exercise 14 (EXP14/driver/led/led.c, led_ioctl.h) and the program that shows the
  keys of the keypad on six LED digits (EXP14/app/key_led.c).
\<close>

section \<open>The LED driver\<close>

text \<open>\<open>Cell i\<close> is the byte at \<open>LED_1 + i\<close>, the digit \<open>i + 1\<close>.\<close>

datatype led_reg = GPACON | GPADATA | Cell nat

record led = "led_reg machine" +
  led_write_addr :: "nat option"
  null_write :: bool

definition led_open :: "led_reg dev \<Rightarrow> led \<Rightarrow> int \<times> led" where
  "led_open dev s =
    (let (v, s) = rd dev GPACON s; s = wr GPACON (v OR 0x2000) s;
         (v, s) = rd dev GPADATA s; s = wr GPADATA (v AND NOT 0x2000) s
     in (0, s))"

definition led_read :: "led \<Rightarrow> int \<times> led" where
  "led_read s = (1, s)"

text \<open>\<open>key\<close> is what \<open>get_user\<close> fetches; without a chosen digit the write goes to address 0.\<close>

definition led_write :: "u8 option \<Rightarrow> led \<Rightarrow> int \<times> led" where
  "led_write key s =
    (case key of None \<Rightarrow> (-14, s)
     | Some k \<Rightarrow> (case led_write_addr s of None \<Rightarrow> (1, s\<lparr>null_write := True\<rparr>)
                 | Some a \<Rightarrow> (1, wr (Cell a) (ucast k) s)))"

definition led_ioctl :: "int \<Rightarrow> led \<Rightarrow> int \<times> led" where
  "led_ioctl command s =
    (if 1 \<le> command \<and> command \<le> 6 then (0, s\<lparr>led_write_addr := Some (nat command - 1)\<rparr>) else (-22, s))"

section \<open>The program\<close>

text \<open>
  \<open>ret\<close> is the array \<open>char ret[7]\<close>; \<open>behind\<close> is the byte that follows it in memory, \<open>smashed\<close>
  whether the program wrote there.
\<close>

record key_led =
  keys :: kpd
  leds :: led
  ret :: "u8 list"
  behind :: u8
  smashed :: bool

definition store_ret :: "nat \<Rightarrow> u8 \<Rightarrow> key_led \<Rightarrow> key_led" where
  "store_ret i v s =
    (if i < length (ret s) then s\<lparr>ret := (ret s)[i := v]\<rparr> else s\<lparr>behind := v, smashed := True\<rparr>)"

text \<open>\<open>ioctl(led_fd, IOCTRL_LED_i); write(led_fd, ret + i, 1)\<close>\<close>

definition light :: "nat \<Rightarrow> key_led \<Rightarrow> int \<times> key_led" where
  "light i s =
    (let (_, l) = led_ioctl (int i) (leds s); (n, l) = led_write (Some (ret s ! i)) l
     in (n, s\<lparr>leds := l\<rparr>))"

definition light_all :: "key_led \<Rightarrow> key_led" where
  "light_all s = fold (\<lambda>i s. snd (light i s)) [1, 2, 3, 4, 5, 6] s"

text \<open>
  \<open>main\<close> up to its loop: \<open>kfd\<close> and \<open>lfd\<close> are what the two \<open>open\<close> calls return; \<open>None\<close> is the early
  return.
\<close>

definition start :: "led_reg dev \<Rightarrow> int \<Rightarrow> int \<Rightarrow> key_led \<Rightarrow> key_led option" where
  "start dev kfd lfd s =
    (if kfd \<le> 0 then None
     else let s = s\<lparr>leds := snd (led_open dev (leds s))\<rparr>
     in if lfd \<le> 0 then None
     else let s = store_ret 0 NOKEY s;
              s = fold (\<lambda>i. store_ret i 0xdf) [1, 2, 3, 4, 5, 6] s;
              (n, s) = light 1 s
          in if n \<noteq> 1 then None else Some (fold (\<lambda>i s. snd (light i s)) [2, 3, 4, 5, 6] s))"

definition rotate_ret :: "key_led \<Rightarrow> key_led" where
  "rotate_ret s = fold (\<lambda>i s. store_ret i (ret s ! (i - 1)) s) [7, 6, 5, 4, 3, 2, 1] s"

text \<open>One turn of the endless loop.\<close>

definition poll_keys :: "kpd_reg dev \<Rightarrow> key_led \<Rightarrow> key_led" where
  "poll_keys dev s =
    (let (_, k) = keybd_read dev (keys s);
         s = store_ret 0 (user_byte k) (s\<lparr>keys := k\<rparr>)
     in if ret s ! 0 \<noteq> NOKEY then light_all (rotate_ret s) else s)"

section \<open>What the digits show\<close>

text \<open>A digit shows the byte last written to its cell.\<close>

fun digit :: "led_reg ev list \<Rightarrow> nat \<Rightarrow> u8 option" where
  "digit [] i = None"
| "digit (Wr (Cell j) v # h) i = (if j = i then Some (ucast v) else digit h i)"
| "digit (_ # h) i = digit h i"

definition display :: "key_led \<Rightarrow> u8 option list" where
  "display s = map (digit (rev (bus (leds s)))) [0..<6]"

lemma light_simps [simp]:
  "i \<in> {1, 2, 3, 4, 5, 6} \<Longrightarrow> fst (light i s) = 1"
  "ret (snd (light i s)) = ret s" "keys (snd (light i s)) = keys s"
  "smashed (snd (light i s)) = smashed s" "behind (snd (light i s)) = behind s"
  by (simp_all add: light_def led_ioctl_def led_write_def Let_def prod.case_eq_if split: option.split)

lemma light_bus:
  "i \<in> {1, 2, 3, 4, 5, 6} \<Longrightarrow> bus (leds (snd (light i s))) = bus (leds s) @ [Wr (Cell (i - 1)) (ucast (ret s ! i))]"
  by (auto simp: light_def led_ioctl_def led_write_def Let_def nat_diff_distrib)

lemma byte_ucast [simp]: "ucast (ucast (b :: u8) :: u32) = b"
  by simp

lemma ret7:
  assumes "length (ret s) = 7"
  obtains a b c d e f g where "ret s = [a, b, c, d, e, f, g]"
  using assms by (auto simp: length_Suc_conv eval_nat_numeral)

lemma upt6: "[0..<6] = [0, 1, 2, 3, 4, 5]"
  by (simp add: upt_rec)

lemma display_light:
  assumes "i \<in> {1, 2, 3, 4, 5, 6}"
  shows "display (snd (light i s)) = (display s)[i - 1 := Some (ret s ! i)]"
  using assms by (elim insertE) (simp_all add: display_def light_bus upt6)

lemma light_all_shows:
  assumes "length (ret s) = 7"
  shows "display (light_all s) = map Some (tl (ret s)) \<and> ret (light_all s) = ret s \<and>
    smashed (light_all s) = smashed s \<and> keys (light_all s) = keys s"
proof -
  obtain a b c d e f g where r: "ret s = [a, b, c, d, e, f, g]" using ret7 [OF assms] .
  have len: "length (display s) = 6" by (simp add: display_def)
  then obtain p q u v w x where "display s = [p, q, u, v, w, x]"
    by (auto simp: length_Suc_conv eval_nat_numeral)
  with r show ?thesis by (simp add: light_all_def display_light)
qed

lemma rotate_ret_shifts:
  assumes "length (ret s) = 7"
  shows "ret (rotate_ret s) = ret s ! 0 # take 6 (ret s) \<and> smashed (rotate_ret s) \<and>
    leds (rotate_ret s) = leds s \<and> keys (rotate_ret s) = keys s"
proof -
  obtain a b c d e f g where "ret s = [a, b, c, d, e, f, g]" using ret7 [OF assms] .
  then show ?thesis by (simp add: rotate_ret_def store_ret_def)
qed

section \<open>The display is a window on the keys\<close>

definition latest6 :: "u8 list \<Rightarrow> u8 list" where
  "latest6 ks = take 6 (rev ks @ replicate 6 0xdf)"

lemma latest6_snoc: "latest6 (ks @ [k]) = k # take 5 (latest6 ks)"
  by (auto simp: latest6_def take_Cons' min_def)

lemma length_latest6 [simp]: "length (latest6 ks) = 6"
  by (simp add: latest6_def)

definition window :: "u8 list \<Rightarrow> key_led \<Rightarrow> bool" where
  "window ks s \<longleftrightarrow> length (ret s) = 7 \<and> tl (ret s) = latest6 ks \<and> display s = map Some (latest6 ks) \<and>
     (smashed s \<longleftrightarrow> ks \<noteq> [])"

lemma start_window:
  assumes "0 < kfd" "0 < lfd" "length (ret s) = 7" "\<not> smashed s"
  shows "\<exists>t. start dev kfd lfd s = Some t \<and> window [] t"
proof -
  obtain a b c d e f g where r: "ret s = [a, b, c, d, e, f, g]" using ret7 [OF assms(3)] .
  define u where "u = fold (\<lambda>i. store_ret i 0xdf) [1, 2, 3, 4, 5, 6] (store_ret 0 NOKEY (s\<lparr>leds := snd (led_open dev (leds s))\<rparr>))"
  have u: "ret u = NOKEY # replicate 6 0xdf" "smashed u = smashed s"
    using r by (simp_all add: u_def store_ret_def eval_nat_numeral)
  define t where "t = fold (\<lambda>i s. snd (light i s)) [2, 3, 4, 5, 6] (snd (light 1 u))"
  have "start dev kfd lfd s = Some t"
    using assms(1,2) by (simp add: start_def Let_def u_def t_def prod.case_eq_if)
  moreover have "t = light_all u" by (simp add: t_def light_all_def)
  moreover have "window [] (light_all u)"
    using light_all_shows [of u] u assms(4) by (simp add: window_def latest6_def)
  ultimately show ?thesis by simp
qed

lemma poll_window:
  assumes P: "on_pad P" and w: "window ks s"
  shows "window (if key_at P = 0 then ks else ks @ [key_at P]) (poll_keys (keypad P) s)"
proof -
  define k where "k = snd (keybd_read (keypad P) (keys s))"
  define u where "u = store_ret 0 (key_at P) (s\<lparr>keys := k\<rparr>)"
  have key: "user_byte k = key_at P" using keybd_read_key [OF P] by (simp add: k_def)
  have len: "length (ret s) = 7" using w by (simp add: window_def)
  have u: "ret u = key_at P # latest6 ks" "smashed u = smashed s" "display u = display s"
    using w len by (auto simp: u_def store_ret_def window_def display_def hd_Cons_tl neq_Nil_conv length_Suc_conv eval_nat_numeral)
  have poll: "poll_keys (keypad P) s = (if key_at P \<noteq> 0 then light_all (rotate_ret u) else u)"
    using u(1) unfolding poll_keys_def Let_def prod.case_eq_if k_def [symmetric] key u_def [symmetric]
    by (simp add: NOKEY_def)
  show ?thesis
  proof (cases "key_at P = 0")
    case True
    with u w show ?thesis by (simp add: poll window_def)
  next
    case False
    have len7: "length (ret u) = 7" by (simp add: u(1))
    have r: "ret (rotate_ret u) = key_at P # latest6 (ks @ [key_at P])" "smashed (rotate_ret u)"
      using rotate_ret_shifts [OF len7] by (simp_all add: u(1) latest6_snoc)
    with False light_all_shows [of "rotate_ret u"] show ?thesis by (simp add: poll window_def)
  qed
qed

lemma polls_window:
  assumes "list_all on_pad Ps" "window ks s"
  shows "window (ks @ filter (\<lambda>k. k \<noteq> 0) (map key_at Ps)) (fold (\<lambda>P. poll_keys (keypad P)) Ps s)"
  using assms
proof (induction Ps arbitrary: ks s)
  case (Cons P Ps)
  have "window (if key_at P = 0 then ks else ks @ [key_at P]) (poll_keys (keypad P) s)"
    using Cons.prems by (intro poll_window) simp_all
  then show ?case using Cons.IH Cons.prems by (cases "key_at P = 0") force+
qed simp

text \<open>
  C25: keypad, drivers and program together.  With the keys of \<open>Ps\<close> down at the successive polls,
  the six digits show the last six keys the polls found, the newest first, filled up with the
  character 8; a poll finds the key at the lowest pressed row and the lowest pressed column.  But
  every key found also overwrites the byte behind the array \<open>ret\<close>, and a key that stays down for
  several polls is shown several times.
\<close>
theorem key_led_shows_latest:
  assumes "0 < kfd" "0 < lfd" "length (ret s) = 7" "\<not> smashed s" "list_all on_pad Ps"
  shows "\<exists>t. start dev kfd lfd s = Some t \<and>
    display (fold (\<lambda>P. poll_keys (keypad P)) Ps t) = map Some (latest6 (filter (\<lambda>k. k \<noteq> 0) (map key_at Ps))) \<and>
    (smashed (fold (\<lambda>P. poll_keys (keypad P)) Ps t) \<longleftrightarrow> (\<exists>P \<in> set Ps. key_at P \<noteq> 0))"
proof -
  obtain t where t: "start dev kfd lfd s = Some t" "window [] t" using start_window [OF assms(1-4)] by blast
  have "window ([] @ filter (\<lambda>k. k \<noteq> 0) (map key_at Ps)) (fold (\<lambda>P. poll_keys (keypad P)) Ps t)"
    by (rule polls_window [OF assms(5) t(2)])
  with t(1) show ?thesis by (auto simp: window_def filter_empty_conv)
qed

definition demo_board :: key_led where
  "demo_board = \<lparr>keys = \<lparr>bus = [], last_key = 0, user_byte = 0\<rparr>, leds = \<lparr>bus = [], led_write_addr = None, null_write = False\<rparr>,
     ret = replicate 7 0, behind = 0, smashed = False\<rparr>"

lemma demo_polls:
  "latest6 (filter (\<lambda>k. k \<noteq> 0) (map key_at [[(1, 2)], [], [(2, 1)], [(1, 2), (2, 1)]])) = [0x58, 0x53, 0xdf, 0xdf, 0xdf, 0xdf]"
  by code_simp

theorem key_led_shows_latest_witness:
  "\<exists>t. start (\<lambda>h r. 0) 3 4 demo_board = Some t \<and>
    display (fold (\<lambda>P. poll_keys (keypad P)) [[(1, 2)], [], [(2, 1)], [(1, 2), (2, 1)]] t) =
      map Some [0x58, 0x53, 0xdf, 0xdf, 0xdf, 0xdf]"
  using key_led_shows_latest [of 3 4 demo_board "[[(1, 2)], [], [(2, 1)], [(1, 2), (2, 1)]]" "\<lambda>h r. 0"] demo_polls
  by (auto simp: demo_board_def on_pad_def)

end
