(* ===== verification/Touch_Test.thy ===== *)
theory Touch_Test
  imports Touch_Ring
begin

text \<open>
  The touch screen test of exercise 17 (EXP17/app/touchscreen-test/asp_test.c): it maps the frame
  buffer, draws a grid, and joins the samples it reads from the touch panel driver with lines.
\<close>

section \<open>State\<close>

text \<open>
  \<open>px\<close> is the mapping of the frame buffer as 16-bit pixels, \<open>mapped\<close> how many of them there are;
  \<open>wild\<close> is set by a write outside the mapping.
\<close>

record rect =
  left :: int
  right :: int
  top :: int
  bottom :: int

record pen_config =
  xFactor :: int
  yFactor :: int
  xOffset :: int
  yOffset :: int
  scale :: nat
  pan :: rect

record tst =
  px :: "int \<Rightarrow> int"
  mapped :: int
  wild :: bool
  gPenConfig :: pen_config
  oldx :: int
  oldy :: int

section \<open>Calibration\<close>

text \<open>
  The return value is a \<open>U16\<close>, so \<open>SYS_ERR\<close> arrives as 65535.  Factors and offsets are unsigned;
  C converts the signed operand of a mixed operation.
\<close>

definition SYS_ERR :: int where "SYS_ERR = u16 (-1)"
definition SYS_OK :: int where "SYS_OK = 0"

definition PenCalibratePoint :: "rect \<Rightarrow> rect \<Rightarrow> tst \<Rightarrow> int \<times> tst" where
  "PenCalibratePoint screen p s =
    (let s = s\<lparr>gPenConfig := (gPenConfig s)\<lparr>scale := 10, pan := p\<rparr>\<rparr>;
         tmp = s32 (right p - left p)
     in if tmp = 0 then (SYS_ERR, s)
        else let w = s32 (right screen - left screen);
                 fx = u32i (s32 (w * 2 ^ 10) sdiv tmp);
                 s = s\<lparr>gPenConfig := (gPenConfig s)\<lparr>xFactor := fx\<rparr>\<rparr>;
                 tmp = s32 (bottom p - top p)
             in if tmp = 0 then (SYS_ERR, s)
                else let w = s32 (bottom screen - top screen);
                         fy = u32i (s32 (w * 2 ^ 10) sdiv tmp);
                         s = s\<lparr>gPenConfig := (gPenConfig s)\<lparr>yFactor := fy\<rparr>\<rparr>
                     in if fx = 0 \<or> fy = 0 then (SYS_ERR, s)
                        else (SYS_OK, s\<lparr>gPenConfig := (gPenConfig s)
                          \<lparr>xOffset := u32i (left p - u32i (s32 (left screen * 2 ^ 10)) div fx),
                           yOffset := u32i (top p - u32i (s32 (top screen * 2 ^ 10)) div fy)\<rparr>\<rparr>))"

definition PenConvertLCD :: "pen_config \<Rightarrow> int \<Rightarrow> int \<Rightarrow> int \<Rightarrow> int" where
  "PenConvertLCD c v factor offset =
    (let temp = s32 (u32i (v - offset))
     in if temp < 0
        then s16 (u32i (- (u32i (s32 (- temp) * factor) div 2 ^ scale c)))
        else s16 (u32i (temp * factor) div 2 ^ scale c))"

definition PenMapX :: "tst \<Rightarrow> int \<Rightarrow> int" where
  "PenMapX s x = PenConvertLCD (gPenConfig s) x (xFactor (gPenConfig s)) (xOffset (gPenConfig s))"

definition PenMapY :: "tst \<Rightarrow> int \<Rightarrow> int" where
  "PenMapY s y = PenConvertLCD (gPenConfig s) y (yFactor (gPenConfig s)) (yOffset (gPenConfig s))"

section \<open>Drawing\<close>

definition poke :: "int \<Rightarrow> int \<Rightarrow> tst \<Rightarrow> tst" where
  "poke i c s = (if 0 \<le> i \<and> i < mapped s then s\<lparr>px := (px s)(i := u16 c)\<rparr> else s\<lparr>wild := True\<rparr>)"

definition DrawPoint :: "int \<Rightarrow> int \<Rightarrow> int \<Rightarrow> tst \<Rightarrow> tst" where
  "DrawPoint x y color s =
    (if x \<le> 0 then s else if y \<le> 0 then s else if x \<ge> 240 then s else if y \<ge> 320 then s
     else poke (y * 240 + x) color s)"

text \<open>\<open>for (i = a; i != b; i += d) f(i);\<close>\<close>

partial_function (option) for_ne :: "int \<Rightarrow> int \<Rightarrow> int \<Rightarrow> (int \<Rightarrow> 's \<Rightarrow> 's) \<Rightarrow> 's \<Rightarrow> 's option" where
  "for_ne i b d f s = (if i = b then Some s else for_ne (s32 (i + d)) b d f (f i s))"

text \<open>The arguments are \<open>S16\<close>; the products are computed in \<open>int\<close>.\<close>

definition DrawLine :: "int \<Rightarrow> int \<Rightarrow> int \<Rightarrow> int \<Rightarrow> int \<Rightarrow> tst \<Rightarrow> tst option" where
  "DrawLine x1 y1 x2 y2 color s =
    (if \<bar>y2 - y1\<bar> > \<bar>x2 - x1\<bar>
     then for_ne y1 y2 (if y2 > y1 then 1 else -1)
            (\<lambda>i. DrawPoint (x1 + s32 ((i - y1) * (x2 - x1)) sdiv (y2 - y1)) i color) s
     else for_ne x1 x2 (if x2 > x1 then 1 else -1)
            (\<lambda>i. DrawPoint i (y1 + s32 ((i - x1) * (y2 - y1)) sdiv (x2 - x1)) color) s)"

section \<open>The program\<close>

definition grid_rows :: "tst \<Rightarrow> tst" where
  "grid_rows s = fold (\<lambda>y. fold (\<lambda>x. poke (y * 240 + x) 0xF800) (map int [0..<240]))
     (map (\<lambda>k. 10 * int k) [0..<32]) s"

definition grid_columns :: "tst \<Rightarrow> tst" where
  "grid_columns s = fold (\<lambda>y. fold (\<lambda>x. poke (y * 240 + x) 0xF800) (map (\<lambda>k. 10 * int k) [0..<24]))
     (map int [0..<320]) s"

text \<open>
  \<open>main\<close> before its loop.  \<open>fbfd\<close>, \<open>tfd\<close>: results of the two \<open>open\<close> calls; \<open>fix\<close>, \<open>var\<close>: of the two
  \<open>ioctl\<close> calls; \<open>xres\<close>, \<open>yres\<close>, \<open>bpp\<close>: what the second one stores; \<open>map_ok\<close>: \<open>mmap\<close> did not fail.
  \<open>Inl\<close> is the exit code.
\<close>

definition touch_start :: "int \<Rightarrow> int \<Rightarrow> int \<Rightarrow> int \<Rightarrow> int \<Rightarrow> int \<Rightarrow> bool \<Rightarrow> int \<Rightarrow> tst \<Rightarrow> int + tst" where
  "touch_start fbfd fix var xres yres bpp map_ok tfd s =
    (let s = s\<lparr>oldx := -1, oldy := -1\<rparr>
     in if fbfd < 0 then Inl 1
        else if fix \<noteq> 0 then Inl 2
        else if var \<noteq> 0 then Inl 3
        else let screensize = u32i (xres * yres * bpp) div 8
             in if \<not> map_ok then Inl 4
                else let s = s\<lparr>mapped := screensize div 2, px := (\<lambda>_. 0xFFFF)\<rparr>;
                         s = grid_columns (grid_rows s)
                     in if tfd < 0 then Inl 1
                        else let rt = \<lparr>left = 0x1bc, right = 0xE82, top = 0x242, bottom = 0xEA7\<rparr>;
                                 st = \<lparr>left = 10, right = 240 - 10, top = 10, bottom = 320 - 10\<rparr>
                             in Inr (snd (PenCalibratePoint st rt s)))"

definition distance :: "int \<Rightarrow> int \<Rightarrow> int \<Rightarrow> int \<Rightarrow> int" where
  "distance ox oy x y = (if ox > x then ox - x else x - ox) + (if oy > y then oy - y else y - oy)"

definition touch_sample :: "ts_event \<Rightarrow> tst \<Rightarrow> tst option" where
  "touch_sample ts s =
    (if ts_pressure ts = 0 then Some s
     else let tp_err = distance (oldx s) (oldy s) (ts_x ts) (ts_y ts)
          in do {
            s \<leftarrow> (if oldx s \<noteq> -1 \<and> tp_err > 0 \<and> tp_err < 30
                  then DrawLine (s16 (ts_x ts)) (s16 (ts_y ts)) (s16 (oldx s)) (s16 (oldy s)) 0x003f s
                  else Some s);
            Some (s\<lparr>oldx := ts_x ts, oldy := ts_y ts\<rparr>) })"

text \<open>One turn of the endless loop: \<open>read(tfd, &ts, sizeof(ts_event_t))\<close>, eight bytes, on the driver.\<close>

definition touch_turn :: "int \<Rightarrow> tst \<times> digi \<Rightarrow> (tst \<times> digi) option" where
  "touch_turn node sd =
    (case digi_read node 8 (snd sd) of (n, es, d) \<Rightarrow>
       if n = 8 then do { s \<leftarrow> touch_sample (hd es) (fst sd); Some (s, d) } else Some (fst sd, d))"

fun touch_turns :: "nat \<Rightarrow> int \<Rightarrow> tst \<times> digi \<Rightarrow> (tst \<times> digi) option" where
  "touch_turns 0 node sd = Some sd"
| "touch_turns (Suc n) node sd = do { sd \<leftarrow> touch_turn node sd; touch_turns n node sd }"

section \<open>Points of a line\<close>

text \<open>
  The reference: as many points as the longer side has pixels, the first end included and the last
  not; the offset along either side is truncated towards the first end.
\<close>

definition segment :: "int \<times> int \<Rightarrow> int \<times> int \<Rightarrow> (int \<times> int) list" where
  "segment p q =
    (let dx = fst q - fst p; dy = snd q - snd p; n = max \<bar>dx\<bar> \<bar>dy\<bar>
     in map (\<lambda>k. (fst p + sgn dx * (int k * \<bar>dx\<bar> div n), snd p + sgn dy * (int k * \<bar>dy\<bar> div n))) [0..<nat n])"

lemma for_ne_fold:
  assumes "b = i + d * int n" "d = 1 \<or> d = -1" "\<bar>i\<bar> \<le> 32768" "\<bar>b\<bar> \<le> 32768"
  shows "for_ne i b d f s = Some (fold f (map (\<lambda>k. i + d * int k) [0..<n]) s)"
  using assms
proof (induction n arbitrary: i s)
  case 0
  then show ?case by (subst for_ne.simps) simp
next
  case (Suc n)
  have b: "b = (i + d) + d * int n" and ne: "i \<noteq> b" and r: "\<bar>i + d\<bar> \<le> 32768"
    using Suc.prems by (auto simp: algebra_simps)
  have w: "s32 (i + d) = i + d" using r by (intro s32_id) linarith+
  have m: "map (\<lambda>k. i + d * int k) [0..<Suc n] = i # map (\<lambda>k. i + d + d * int k) [0..<n]"
    unfolding map_upt_Suc_Cons by (simp add: algebra_simps)
  show ?case
    using Suc.IH [OF b Suc.prems(2) r Suc.prems(4), of "f i s"] ne by (subst for_ne.simps) (simp add: w m del: upt_Suc)
qed

lemma step_offset:
  fixes e n :: int
  assumes "n \<noteq> 0" "\<bar>n\<bar> \<le> 16384" "\<bar>e\<bar> \<le> 16384" "int k \<le> \<bar>n\<bar>" "d = sgn n"
  shows "s32 (d * int k * e) sdiv n = sgn e * (int k * \<bar>e\<bar> div \<bar>n\<bar>)"
proof -
  have "int k * \<bar>e\<bar> \<le> 16384 * 16384" using assms by (intro mult_mono) auto
  then have "\<bar>d * int k * e\<bar> \<le> 16384 * 16384" using assms by (simp add: abs_mult)
  then have w: "s32 (d * int k * e) = d * int k * e" by (intro s32_id) linarith+
  show ?thesis
    using assms(1) unfolding w signed_divide_int_def
    by (cases "k = 0") (simp_all add: assms(5) sgn_mult abs_mult mult.assoc flip: abs_sgn_eq)
qed

lemma DrawLine_segment:
  assumes "\<bar>x1\<bar> \<le> 8192" "\<bar>y1\<bar> \<le> 8192" "\<bar>x2\<bar> \<le> 8192" "\<bar>y2\<bar> \<le> 8192"
  shows "DrawLine x1 y1 x2 y2 c s = Some (fold (\<lambda>(x, y). DrawPoint x y c) (segment (x1, y1) (x2, y2)) s)"
proof (cases "\<bar>y2 - y1\<bar> > \<bar>x2 - x1\<bar>")
  case True
  define d :: int where "d = (if y2 > y1 then 1 else -1)"
  define n where "n = nat \<bar>y2 - y1\<bar>"
  have ne: "y2 - y1 \<noteq> 0" using True by auto
  have d: "y2 = y1 + d * int n" "d = sgn (y2 - y1)" "d = 1 \<or> d = -1" using ne by (auto simp: d_def n_def)
  have pt: "DrawPoint (x1 + s32 ((y1 + d * int k - y1) * (x2 - x1)) sdiv (y2 - y1)) (y1 + d * int k) c =
      DrawPoint (x1 + sgn (x2 - x1) * (int k * \<bar>x2 - x1\<bar> div \<bar>y2 - y1\<bar>)) (y1 + sgn (y2 - y1) * (int k * \<bar>y2 - y1\<bar> div \<bar>y2 - y1\<bar>)) c"
    if "k < n" for k
  proof -
    have "s32 (d * int k * (x2 - x1)) sdiv (y2 - y1) = sgn (x2 - x1) * (int k * \<bar>x2 - x1\<bar> div \<bar>y2 - y1\<bar>)"
      using that assms ne d(2) by (intro step_offset) (auto simp: n_def)
    then show ?thesis using ne d(2) by simp
  qed
  have mx: "max \<bar>x2 - x1\<bar> \<bar>y2 - y1\<bar> = \<bar>y2 - y1\<bar>" using True by simp
  have "DrawLine x1 y1 x2 y2 c s = for_ne y1 y2 d
      (\<lambda>i. DrawPoint (x1 + s32 ((i - y1) * (x2 - x1)) sdiv (y2 - y1)) i c) s"
    using True by (simp add: DrawLine_def d_def)
  also have "\<dots> = Some (fold (\<lambda>i. DrawPoint (x1 + s32 ((i - y1) * (x2 - x1)) sdiv (y2 - y1)) i c)
      (map (\<lambda>k. y1 + d * int k) [0..<n]) s)"
    using assms by (intro for_ne_fold [OF d(1,3)]) auto
  also have "\<dots> = Some (fold (\<lambda>(x, y). DrawPoint x y c) (segment (x1, y1) (x2, y2)) s)"
    unfolding segment_def Let_def fst_conv snd_conv mx n_def [symmetric]
    by (simp only: fold_map comp_def prod.case option.inject) (intro fold_cong refl, use pt in simp)
  finally show ?thesis .
next
  case False
  define d :: int where "d = (if x2 > x1 then 1 else -1)"
  define n where "n = nat \<bar>x2 - x1\<bar>"
  have d: "x2 = x1 + d * int n" "d = 1 \<or> d = -1" by (auto simp: d_def n_def)
  have pt: "DrawPoint (x1 + d * int k) (y1 + s32 ((x1 + d * int k - x1) * (y2 - y1)) sdiv (x2 - x1)) c =
      DrawPoint (x1 + sgn (x2 - x1) * (int k * \<bar>x2 - x1\<bar> div \<bar>x2 - x1\<bar>)) (y1 + sgn (y2 - y1) * (int k * \<bar>y2 - y1\<bar> div \<bar>x2 - x1\<bar>)) c"
    if "k < n" for k
  proof -
    have ne: "x2 - x1 \<noteq> 0" and ds: "d = sgn (x2 - x1)" using that by (auto simp: n_def d_def)
    have "s32 (d * int k * (y2 - y1)) sdiv (x2 - x1) = sgn (y2 - y1) * (int k * \<bar>y2 - y1\<bar> div \<bar>x2 - x1\<bar>)"
      using that assms ne ds by (intro step_offset) (auto simp: n_def)
    then show ?thesis using ne ds by simp
  qed
  have mx: "max \<bar>x2 - x1\<bar> \<bar>y2 - y1\<bar> = \<bar>x2 - x1\<bar>" using False by simp
  have "DrawLine x1 y1 x2 y2 c s = for_ne x1 x2 d
      (\<lambda>i. DrawPoint i (y1 + s32 ((i - x1) * (y2 - y1)) sdiv (x2 - x1)) c) s"
    using False by (simp add: DrawLine_def d_def)
  also have "\<dots> = Some (fold (\<lambda>i. DrawPoint i (y1 + s32 ((i - x1) * (y2 - y1)) sdiv (x2 - x1)) c)
      (map (\<lambda>k. x1 + d * int k) [0..<n]) s)"
    using assms by (intro for_ne_fold [OF d]) auto
  also have "\<dots> = Some (fold (\<lambda>(x, y). DrawPoint x y c) (segment (x1, y1) (x2, y2)) s)"
    unfolding segment_def Let_def fst_conv snd_conv mx n_def [symmetric]
    by (simp only: fold_map comp_def prod.case option.inject) (intro fold_cong refl, use pt in simp)
  finally show ?thesis .
qed

section \<open>Pixels\<close>

definition pokes :: "int \<Rightarrow> (int \<times> int) list \<Rightarrow> tst \<Rightarrow> tst" where
  "pokes c ps s = fold (\<lambda>(x, y). poke (y * 240 + x) c) ps s"

definition screen :: "(int \<times> int) set" where
  "screen = {0..<240} \<times> {0..<320}"

lemma pixel_unique:
  assumes "(x, y) \<in> screen" "(u, v) \<in> screen" "y * 240 + x = v * 240 + u"
  shows "x = u \<and> y = v"
proof -
  have "(x + y * 240) div 240 = y" "(u + v * 240) div 240 = v" using assms(1,2) by (simp_all add: screen_def)
  moreover have "x + y * 240 = u + v * 240" using assms(3) by linarith
  ultimately have "y = v" by metis
  then show ?thesis using assms(3) by simp
qed

lemma pokes_screen:
  assumes "76800 \<le> mapped s" "set ps \<subseteq> screen"
  shows "wild (pokes c ps s) = wild s \<and> mapped (pokes c ps s) = mapped s \<and>
    oldx (pokes c ps s) = oldx s \<and> oldy (pokes c ps s) = oldy s \<and>
    (\<forall>x y. (x, y) \<in> screen \<longrightarrow>
      px (pokes c ps s) (y * 240 + x) = (if (x, y) \<in> set ps then u16 c else px s (y * 240 + x)))"
  using assms
proof (induction ps arbitrary: s)
  case (Cons p ps)
  obtain u v where p: "p = (u, v)" by force
  have uv: "(u, v) \<in> screen" using Cons.prems p by simp
  define t where "t = poke (v * 240 + u) c s"
  have t: "t = s\<lparr>px := (px s)(v * 240 + u := u16 c)\<rparr>"
    using uv Cons.prems(1) by (auto simp: t_def poke_def screen_def)
  have "px t (y * 240 + x) = (if (x, y) = (u, v) then u16 c else px s (y * 240 + x))" if "(x, y) \<in> screen" for x y
    using pixel_unique [OF that uv] by (auto simp: t)
  moreover have "pokes c (p # ps) s = pokes c ps t" by (simp add: pokes_def p t_def)
  moreover have "76800 \<le> mapped t" "set ps \<subseteq> screen" using Cons.prems by (simp_all add: t)
  ultimately show ?case using Cons.IH [of t] by (auto simp: p t)
qed (simp add: pokes_def)

definition inner :: "int \<times> int \<Rightarrow> bool" where
  "inner p \<longleftrightarrow> 0 < fst p \<and> fst p < 240 \<and> 0 < snd p \<and> snd p < 320"

lemma DrawPoints_pokes: "fold (\<lambda>(x, y). DrawPoint x y c) ps s = pokes c (filter inner ps) s"
  by (induction ps arbitrary: s) (auto simp: pokes_def DrawPoint_def inner_def)

lemma inner_screen: "set (filter inner ps) \<subseteq> screen"
  by (auto simp: inner_def screen_def)

lemma fold_pairs:
  "fold (\<lambda>y. fold (\<lambda>x. poke (y * 240 + x) c) xs) ys s = pokes c (concat (map (\<lambda>y. map (\<lambda>x. (x, y)) xs) ys)) s"
  by (induction ys arbitrary: s) (simp_all add: pokes_def fold_map comp_def)

definition paper :: "int \<Rightarrow> int \<Rightarrow> int" where
  "paper x y = (if x mod 10 = 0 \<or> y mod 10 = 0 then 0xF800 else 0xFFFF)"

lemma tens: "z \<in> (\<lambda>k. 10 * int k) ` {0..<n} \<longleftrightarrow> 0 \<le> z \<and> z < 10 * int n \<and> z mod 10 = 0"
proof
  assume "0 \<le> z \<and> z < 10 * int n \<and> z mod 10 = 0"
  then have "z = 10 * int (nat (z div 10))" "nat (z div 10) \<in> {0..<n}" by auto
  then show "z \<in> (\<lambda>k. 10 * int k) ` {0..<n}" by (rule image_eqI)
qed auto

lemma ints: "z \<in> int ` {0..<n} \<longleftrightarrow> 0 \<le> z \<and> z < int n"
  by (auto simp: image_int_atLeastLessThan)

lemma grid_paper:
  assumes "76800 \<le> mapped s" "\<forall>i. px s i = 0xFFFF"
  defines "t \<equiv> grid_columns (grid_rows s)"
  shows "wild t = wild s \<and> mapped t = mapped s \<and> oldx t = oldx s \<and> oldy t = oldy s \<and>
    (\<forall>(x, y) \<in> screen. px t (y * 240 + x) = paper x y)"
proof -
  define rs where "rs = concat (map (\<lambda>y. map (\<lambda>x. (x, y)) (map int [0..<240])) (map (\<lambda>k. 10 * int k) [0..<32]))"
  define cs where "cs = concat (map (\<lambda>y. map (\<lambda>x. (x, y)) (map (\<lambda>k. 10 * int k) [0..<24])) (map int [0..<320]))"
  have t: "t = pokes 0xF800 cs (pokes 0xF800 rs s)"
    unfolding t_def grid_columns_def grid_rows_def fold_pairs rs_def cs_def ..
  have r: "(x, y) \<in> set rs \<longleftrightarrow> (x, y) \<in> screen \<and> y mod 10 = 0" for x y
    using tens [of y 32] ints [of x 240] unfolding rs_def screen_def by (auto simp: image_iff)
  have c: "(x, y) \<in> set cs \<longleftrightarrow> (x, y) \<in> screen \<and> x mod 10 = 0" for x y
    using tens [of x 24] ints [of y 320] unfolding cs_def screen_def by (auto simp: image_iff)
  have sub: "set rs \<subseteq> screen" "set cs \<subseteq> screen" using r c by auto
  note a = pokes_screen [OF assms(1) sub(1), of "0xF800"]
  have "76800 \<le> mapped (pokes 0xF800 rs s)" using a assms(1) by simp
  note b = pokes_screen [OF this sub(2), of "0xF800"]
  have "px t (y * 240 + x) = paper x y" if "(x, y) \<in> screen" for x y
    using a b that assms(2) by (simp add: t r c paper_def u16_def)
  then show ?thesis using a b by (auto simp: t)
qed

section \<open>From samples to strokes\<close>

text \<open>
  What should be drawn: \<open>old\<close> is the last sample with the pen down, if there was one; two successive
  ones that differ, by less than 30 in all, are joined by a line from the newer to the older.
\<close>

fun inked :: "(int \<times> int) option \<Rightarrow> ts_event list \<Rightarrow> (int \<times> int) set" where
  "inked old [] = {}"
| "inked old (e # es) =
     (if ts_pressure e = 0 then inked old es
      else (case old of None \<Rightarrow> {}
            | Some (x, y) \<Rightarrow>
                if 0 < \<bar>x - ts_x e\<bar> + \<bar>y - ts_y e\<bar> \<and> \<bar>x - ts_x e\<bar> + \<bar>y - ts_y e\<bar> < 30
                then {p \<in> set (segment (s16 (ts_x e), s16 (ts_y e)) (s16 x, s16 y)). inner p} else {})
           \<union> inked (Some (ts_x e, ts_y e)) es)"

text \<open>The converter values the driver stores for a pen that is down.\<close>

definition on_panel :: "ts_event \<Rightarrow> bool" where
  "on_panel e \<longleftrightarrow> (ts_pressure e = 0 \<or> 100 \<le> ts_x e \<and> ts_x e \<le> 4095 \<and> 100 \<le> ts_y e \<and> ts_y e \<le> 4095)"

definition coord :: "int \<Rightarrow> bool" where
  "coord x \<longleftrightarrow> 0 \<le> x \<and> \<bar>s16 x\<bar> \<le> 8192"

lemma s16_u16 [simp]: "s16 (u16 x) = s16 x"
  by (simp add: s16_def u16_def mod_add_left_eq)

lemma scaled_coord:
  assumes "100 \<le> x" "x \<le> 4095" "0 \<le> o'" "o' \<le> 500" "0 \<le> m" "m \<le> 310" "3000 \<le> n"
  shows "coord (u16 (10 + (x - o') * m sdiv n))"
proof -
  have "\<bar>x - o'\<bar> * m \<le> 4095 * 310" using assms by (intro mult_mono) auto
  then have "\<bar>(x - o') * m\<bar> \<le> 4095 * 310" using assms by (simp add: abs_mult)
  then have "\<bar>(x - o') * m\<bar> div n \<le> (4095 * 310) div n" using assms by (intro zdiv_mono1) auto
  also have "\<dots> \<le> (4095 * 310) div 3000" using assms by (intro zdiv_mono2) auto
  finally have q: "\<bar>(x - o') * m\<bar> div n \<le> 423" by simp
  have "0 \<le> \<bar>(x - o') * m\<bar> div n" using assms by (intro pos_imp_zdiv_nonneg_iff [THEN iffD2]) auto
  moreover have "\<bar>(x - o') * m sdiv n\<bar> \<le> \<bar>(x - o') * m\<bar> div n"
    using assms calculation by (auto simp: signed_divide_int_def abs_mult sgn_if)
  ultimately have b: "\<bar>(x - o') * m sdiv n\<bar> \<le> 423" using q by linarith
  then have "s16 (10 + (x - o') * m sdiv n) = 10 + (x - o') * m sdiv n" by (intro s16_id) linarith+
  then show ?thesis using b u16_range [of "10 + (x - o') * m sdiv n"] unfolding coord_def s16_u16 by linarith
qed

lemma calibrate_coord:
  assumes "on_panel e" "ts_pressure e \<noteq> 0"
  shows "coord (ts_x (calibrate e)) \<and> coord (ts_y (calibrate e))"
  using assms scaled_coord [of "ts_x e" 420 220 3228] scaled_coord [of "ts_y e" 330 310 3470]
  by (simp add: calibrate_def on_panel_def)

lemma calibrate_pressure [simp]: "ts_pressure (calibrate e) = ts_pressure e"
  by (simp add: calibrate_def)

definition remembers :: "(int \<times> int) option \<Rightarrow> tst \<Rightarrow> bool" where
  "remembers old s \<longleftrightarrow> (case old of None \<Rightarrow> oldx s = -1 | Some (x, y) \<Rightarrow> oldx s = x \<and> oldy s = y \<and> coord x \<and> coord y)"

text \<open>\<open>t\<close> is \<open>s\<close> with the points \<open>A\<close> drawn.\<close>

definition drawn :: "(int \<times> int) set \<Rightarrow> tst \<Rightarrow> tst \<Rightarrow> bool" where
  "drawn A s t \<longleftrightarrow> wild t = wild s \<and> mapped t = mapped s \<and>
    (\<forall>x y. (x, y) \<in> screen \<longrightarrow> px t (y * 240 + x) = (if (x, y) \<in> A then 0x3f else px s (y * 240 + x)))"

lemma drawn_trans: "drawn A s t \<Longrightarrow> drawn B t u \<Longrightarrow> drawn (A \<union> B) s u"
  by (simp add: drawn_def)

lemma DrawLine_drawn:
  assumes "coord a" "coord b" "coord c" "coord d" "76800 \<le> mapped s"
  shows "\<exists>t. DrawLine (s16 a) (s16 b) (s16 c) (s16 d) 0x3f s = Some t \<and>
    drawn {p \<in> set (segment (s16 a, s16 b) (s16 c, s16 d)). inner p} s t"
proof -
  define ps where "ps = filter inner (segment (s16 a, s16 b) (s16 c, s16 d))"
  have "DrawLine (s16 a) (s16 b) (s16 c) (s16 d) 0x3f s = Some (pokes 0x3f ps s)"
    using assms(1-4) by (simp add: DrawLine_segment coord_def DrawPoints_pokes ps_def)
  moreover have "drawn (set ps) s (pokes 0x3f ps s)"
    using pokes_screen [OF assms(5) inner_screen, of "0x3f"] by (simp add: drawn_def ps_def u16_def)
  ultimately show ?thesis by (simp add: ps_def)
qed

lemma touch_sample_drawn:
  assumes "remembers old s" "76800 \<le> mapped s" "ts_pressure e \<noteq> 0" "coord (ts_x e)" "coord (ts_y e)"
  shows "\<exists>t. touch_sample e s = Some t \<and> drawn (inked old [e]) s t \<and> remembers (Some (ts_x e, ts_y e)) t"
proof -
  have d: "distance ox oy x y = \<bar>ox - x\<bar> + \<bar>oy - y\<bar>" for ox oy x y by (simp add: distance_def)
  have keep: "drawn A s t \<Longrightarrow> drawn A s (t\<lparr>oldx := x, oldy := y\<rparr>)" for A t x y by (simp add: drawn_def)
  show ?thesis
  proof (cases old)
    case None
    then show ?thesis using assms by (simp add: touch_sample_def remembers_def drawn_def)
  next
    case (Some p)
    obtain x y where p: "p = (x, y)" by force
    have o: "oldx s = x" "oldy s = y" "coord x" "coord y" using assms(1) Some p by (simp_all add: remembers_def)
    obtain t where t: "DrawLine (s16 (ts_x e)) (s16 (ts_y e)) (s16 x) (s16 y) 0x3f s = Some t"
      "drawn {p \<in> set (segment (s16 (ts_x e), s16 (ts_y e)) (s16 x, s16 y)). inner p} s t"
      using DrawLine_drawn [OF assms(4,5) o(3,4) assms(2)] by blast
    have ne: "x \<noteq> -1" using o(3) by (auto simp: coord_def)
    show ?thesis
    proof (cases "0 < \<bar>x - ts_x e\<bar> + \<bar>y - ts_y e\<bar> \<and> \<bar>x - ts_x e\<bar> + \<bar>y - ts_y e\<bar> < 30")
      case True
      then show ?thesis
        using assms(3-5) t(1) ne keep [OF t(2)] by (simp add: touch_sample_def d o Some p remembers_def Let_def)
    next
      case False
      then have "touch_sample e s = Some (s\<lparr>oldx := ts_x e, oldy := ts_y e\<rparr>)"
        using assms(3) by (auto simp: touch_sample_def d o Let_def)
      moreover have "inked old [e] = {}" using False assms(3) by (auto simp: Some p)
      ultimately show ?thesis using assms(4,5) by (simp add: remembers_def drawn_def)
    qed
  qed
qed

text \<open>One turn takes one event from the driver's queue, or none when there is none.\<close>

definition after :: "(int \<times> int) option \<Rightarrow> ts_event \<Rightarrow> (int \<times> int) option" where
  "after old e = (if ts_pressure e = 0 then old else Some (ts_x e, ts_y e))"

lemma inked_Cons: "inked old (e # es) = inked old [e] \<union> inked (after old e) es"
  by (simp add: after_def split: option.split)

lemma taken_one: "ring_ok d \<Longrightarrow> events d \<noteq> [] \<Longrightarrow> taken 8 d = 1"
  using DSIZE_pos [of d] NODATA_events [of d] by (simp add: taken_def)

lemma touch_turn_event:
  assumes r: "ring_ok d" and ev: "events d = e # es" and node: "node \<noteq> -1"
    and s: "remembers old s" "76800 \<le> mapped s" and e: "on_panel e"
  shows "\<exists>t d'. touch_turn node (s, d) = Some (t, d') \<and> ring_ok d' \<and> events d' = es \<and>
    drawn (inked old [calibrate e]) s t \<and> remembers (after old (calibrate e)) t"
proof -
  obtain n rs d' where rd: "digi_read node 8 d = (n, rs, d')" by (metis prod_cases3)
  have ne: "events d \<noteq> []" by (simp add: ev)
  have b: "ring_ok d'" "n = 8" "rs = [calibrate e]" "events d' = es"
    using digi_read_block [OF r ne _ node rd] taken_one [OF r ne] by (simp_all add: ev drop_Suc)
  show ?thesis
  proof (cases "ts_pressure e = 0")
    case True
    then have "touch_sample (calibrate e) s = Some s" by (simp add: touch_sample_def)
    then show ?thesis using b s True by (simp add: touch_turn_def rd drawn_def after_def)
  next
    case False
    obtain t where "touch_sample (calibrate e) s = Some t" "drawn (inked old [calibrate e]) s t"
      "remembers (Some (ts_x (calibrate e), ts_y (calibrate e))) t"
      using touch_sample_drawn [OF s, of "calibrate e"] calibrate_coord [OF e False] False by auto
    then show ?thesis using b False by (simp add: touch_turn_def rd after_def)
  qed
qed

lemma touch_turn_idle:
  assumes "ring_ok d" "events d = []" "node \<noteq> -1"
  shows "touch_turn node (s, d) = Some (s, d)"
  using assms NODATA_events [of d] by (simp add: touch_turn_def digi_read_def)

lemma touch_turns_drawn:
  assumes "ring_ok d" "node \<noteq> -1" "remembers old s" "76800 \<le> mapped s" "list_all on_panel (events d)"
  shows "\<exists>t d'. touch_turns n node (s, d) = Some (t, d') \<and> events d' = drop n (events d) \<and>
    drawn (inked old (map calibrate (take n (events d)))) s t"
  using assms
proof (induction n arbitrary: d s old)
  case 0
  then show ?case by (simp add: drawn_def)
next
  case (Suc n)
  show ?case
  proof (cases "events d")
    case Nil
    then show ?thesis using Suc.IH [OF Suc.prems] touch_turn_idle [OF Suc.prems(1) Nil Suc.prems(2)] by simp
  next
    case (Cons e es)
    have "on_panel e" using Suc.prems(5) by (simp add: Cons)
    then obtain u d1 where u: "touch_turn node (s, d) = Some (u, d1)" "ring_ok d1" "events d1 = es"
      "drawn (inked old [calibrate e]) s u" "remembers (after old (calibrate e)) u"
      using touch_turn_event [OF Suc.prems(1) Cons Suc.prems(2-4)] by blast
    have m: "76800 \<le> mapped u" using u(4) Suc.prems(4) by (simp add: drawn_def)
    obtain t d2 where t: "touch_turns n node (u, d1) = Some (t, d2)" "events d2 = drop n es"
      "drawn (inked (after old (calibrate e)) (map calibrate (take n es))) u t"
      using Suc.IH [OF u(2) Suc.prems(2) u(5) m] Suc.prems(5) by (auto simp: Cons u(3))
    have "drawn (inked old (map calibrate (take (Suc n) (events d)))) s t"
      unfolding Cons take_Suc_Cons list.map by (subst inked_Cons) (rule drawn_trans [OF u(4) t(3)])
    then show ?thesis using u(1) t(1,2) by (simp add: Cons)
  qed
qed

lemma touch_start_ok:
  assumes "0 \<le> fbfd" "0 \<le> tfd" "\<not> wild s"
  shows "\<exists>t. touch_start fbfd 0 0 240 320 16 True tfd s = Inr t \<and> remembers None t \<and> mapped t = 76800 \<and> \<not> wild t \<and>
    (\<forall>x y. (x, y) \<in> screen \<longrightarrow> px t (y * 240 + x) = paper x y)"
proof -
  define u where "u = s\<lparr>oldx := -1, oldy := -1, mapped := 76800, px := (\<lambda>_. 0xFFFF)\<rparr>"
  have g: "wild (grid_columns (grid_rows u)) = wild s \<and> mapped (grid_columns (grid_rows u)) = 76800 \<and>
      oldx (grid_columns (grid_rows u)) = -1 \<and>
      (\<forall>(x, y) \<in> screen. px (grid_columns (grid_rows u)) (y * 240 + x) = paper x y)"
    using grid_paper [of u] by (simp add: u_def)
  have p: "px (snd (PenCalibratePoint a b v)) = px v" "mapped (snd (PenCalibratePoint a b v)) = mapped v"
    "wild (snd (PenCalibratePoint a b v)) = wild v" "oldx (snd (PenCalibratePoint a b v)) = oldx v" for a b v
    by (simp_all add: PenCalibratePoint_def Let_def)
  show ?thesis
    using g assms unfolding touch_start_def Let_def by (simp add: u32i_def u_def [symmetric] p remembers_def) blast
qed

text \<open>
  C15: the touch screen test with the touch panel driver.  After a start that finds a screen of 240 by
  320 pixels, and any number of turns, the program has taken that many events from the driver's
  queue, each turned into screen coordinates, and the screen shows a grid with, drawn over it, a line
  from each pen-down sample to the one before whenever they differ, by less than 30 in all, except in
  row 0 and column 0, which are never drawn.  No write leaves the mapping.  A pen-up event changes
  nothing: a stroke that ends is joined with the next one when that begins near by.
\<close>
theorem touch_test_draws:
  assumes "ring_ok d" "list_all on_panel (events d)" "node \<noteq> -1" "0 \<le> fbfd" "0 \<le> tfd" "\<not> wild s"
  shows "\<exists>t u d'. touch_start fbfd 0 0 240 320 16 True tfd s = Inr t \<and>
    touch_turns n node (t, d) = Some (u, d') \<and> events d' = drop n (events d) \<and> \<not> wild u \<and>
    (\<forall>x y. (x, y) \<in> screen \<longrightarrow> px u (y * 240 + x) =
      (if (x, y) \<in> inked None (map calibrate (take n (events d))) then 0x3f else paper x y))"
proof -
  obtain t where t: "touch_start fbfd 0 0 240 320 16 True tfd s = Inr t" "remembers None t" "mapped t = 76800" "\<not> wild t"
    "\<forall>x y. (x, y) \<in> screen \<longrightarrow> px t (y * 240 + x) = paper x y"
    using touch_start_ok [OF assms(4-6)] by blast
  obtain u d' where "touch_turns n node (t, d) = Some (u, d')" "events d' = drop n (events d)"
    "drawn (inked None (map calibrate (take n (events d)))) t u"
    using touch_turns_drawn [OF assms(1,3) t(2) _ assms(2)] t(3) by fastforce
  then show ?thesis using t by (auto simp: drawn_def)
qed

text \<open>Two strokes' worth of events: pen down at two near-by places, up, and down next to the last place.\<close>

definition demo_queue :: digi where
  "demo_queue = add_x_y 600 350 PENDOWN (add_x_y 580 330 PENUP (add_x_y 580 330 PENDOWN (add_x_y 420 330 PENDOWN digi_zero)))"

lemma demo_queue_ok:
  "ring_ok demo_queue" "events demo_queue =
    [pen_event 420 330 PENDOWN, pen_event 580 330 PENDOWN, pen_event 580 330 PENUP, pen_event 600 350 PENDOWN]"
proof -
  have step: "ring_ok (add_x_y x y f s) \<and> events (add_x_y x y f s) = events s @ [pen_event x y f] \<and>
      length (events (add_x_y x y f s)) < 248" if "ring_ok s" "length (events s) < 247" for x y f s
    using add_x_y_cases [OF that(1), of x y f] that(2) by (simp add: BUFLEN_def del: length_events) (simp split: if_splits)
  define a where "a = add_x_y 420 330 PENDOWN digi_zero"
  define b where "b = add_x_y 580 330 PENDOWN a"
  define c where "c = add_x_y 580 330 PENUP b"
  have a: "ring_ok a" "events a = [pen_event 420 330 PENDOWN]" using step [of digi_zero] digi_zero_ok by (simp_all add: a_def)
  have b: "ring_ok b" "events b = events a @ [pen_event 580 330 PENDOWN]" using step [of a] a by (simp_all add: b_def del: length_events)
  have c: "ring_ok c" "events c = events b @ [pen_event 580 330 PENUP]" using step [of b] a b by (simp_all add: c_def del: length_events)
  show "ring_ok demo_queue" "events demo_queue =
    [pen_event 420 330 PENDOWN, pen_event 580 330 PENDOWN, pen_event 580 330 PENUP, pen_event 600 350 PENDOWN]"
    using step [of c] a b c by (simp_all add: demo_queue_def a_def [symmetric] b_def [symmetric] c_def [symmetric] del: length_events)
qed

definition demo_screen :: tst where
  "demo_screen = \<lparr>px = (\<lambda>_. 0), mapped = 0, wild = False, gPenConfig =
     \<lparr>xFactor = 0, yFactor = 0, xOffset = 0, yOffset = 0, scale = 0, pan = \<lparr>left = 0, right = 0, top = 0, bottom = 0\<rparr>\<rparr>,
     oldx = 0, oldy = 0\<rparr>"

lemma demo_inked:
  "(15, 10) \<in> inked None (map calibrate [pen_event 420 330 PENDOWN, pen_event 580 330 PENDOWN, pen_event 580 330 PENUP, pen_event 600 350 PENDOWN])"
  "(21, 11) \<in> inked None (map calibrate [pen_event 420 330 PENDOWN, pen_event 580 330 PENDOWN, pen_event 580 330 PENUP, pen_event 600 350 PENDOWN])"
  "(10, 10) \<notin> inked None (map calibrate [pen_event 420 330 PENDOWN, pen_event 580 330 PENDOWN, pen_event 580 330 PENUP, pen_event 600 350 PENDOWN])"
  by code_simp+

theorem touch_test_draws_witness:
  "\<exists>t u d'. touch_start 3 0 0 240 320 16 True 4 demo_screen = Inr t \<and> touch_turns 9 0 (t, demo_queue) = Some (u, d') \<and>
    events d' = [] \<and> \<not> wild u \<and> px u (10 * 240 + 15) = 0x3f \<and> px u (11 * 240 + 21) = 0x3f \<and> px u (10 * 240 + 10) = 0xF800"
proof -
  obtain t u d' where "touch_start 3 0 0 240 320 16 True 4 demo_screen = Inr t" "touch_turns 9 0 (t, demo_queue) = Some (u, d')"
    "events d' = []" "\<not> wild u" and p: "\<And>x y. (x, y) \<in> screen \<Longrightarrow> px u (y * 240 + x) =
      (if (x, y) \<in> inked None (map calibrate [pen_event 420 330 PENDOWN, pen_event 580 330 PENDOWN, pen_event 580 330 PENUP, pen_event 600 350 PENDOWN])
       then 0x3f else paper x y)"
    using touch_test_draws [OF demo_queue_ok(1), of 0 3 4 demo_screen 9]
    by (simp add: demo_queue_ok(2) demo_screen_def on_panel_def pen_event_def u16_def del: inked.simps) blast
  moreover have "(15, 10) \<in> screen" "(21, 11) \<in> screen" "(10, 10) \<in> screen" by (simp_all add: screen_def)
  then have "px u (10 * 240 + 15) = 0x3f" "px u (11 * 240 + 21) = 0x3f" "px u (10 * 240 + 10) = 0xF800"
    using p [of 15 10] p [of 21 11] p [of 10 10] demo_inked by (simp_all add: paper_def del: list.map inked.simps)
  ultimately show ?thesis by blast
qed

section \<open>How good the calibration is\<close>

lemma scaled_bounds:
  fixes W P l d :: int
  assumes "16 \<le> W" "W \<le> P" "P \<le> 4095" "0 \<le> l" "0 \<le> d" "d \<le> P"
  defines "f \<equiv> W * 1024 div P"
  defines "m \<equiv> (d + l * 1024 div f) * f div 1024"
  shows "0 < f" "f \<le> 1024" "P * (m - l) \<le> d * W" "1024 * d * W < P * (1024 * (m - l) + 2048 + d)"
    "(d + l * 1024 div f) * f \<le> 1024 * 1024 + l * 1024 + 1024 * d"
proof -
  have P: "0 < P" using assms by simp
  have f: "P * f \<le> W * 1024" "W * 1024 < P * f + P" unfolding f_def using int_div_bounds [OF P] by blast+
  show f0: "0 < f" unfolding f_def using assms by (simp add: pos_imp_zdiv_pos_iff)
  have "P * f \<le> P * 1024" using f(1) assms(2) by linarith
  then show f1: "f \<le> 1024" using P by simp
  define A where "A = l * 1024 div f"
  have A: "f * A \<le> l * 1024" "l * 1024 < f * A + f" unfolding A_def using int_div_bounds [OF f0] by blast+
  have m: "1024 * m \<le> (d + A) * f" "(d + A) * f < 1024 * m + 1024"
    unfolding m_def A_def using int_div_bounds [of 1024 "(d + l * 1024 div f) * f"] by simp_all
  have up: "d * (P * f) \<le> d * (W * 1024)" by (rule mult_left_mono [OF f(1) assms(5)])
  have "1024 * m \<le> d * f + l * 1024" using m(1) A(1) by (simp add: algebra_simps)
  then have "P * (1024 * m) \<le> P * (d * f + l * 1024)" using P by (intro mult_left_mono) auto
  then show "P * (m - l) \<le> d * W" using up by (simp add: algebra_simps)
  have lo: "d * (W * 1024) \<le> d * (P * f + P)" using f(2) assms(5) by (intro mult_left_mono) auto
  have "d * f + l * 1024 < 1024 * m + 2048" using m(2) A(2) f1 by (simp add: algebra_simps)
  then have "P * (d * f + l * 1024) < P * (1024 * m + 2048)" using P by simp
  then show "1024 * d * W < P * (1024 * (m - l) + 2048 + d)" using lo by (simp add: algebra_simps)
  have "d * f \<le> d * 1024" using f1 assms(5) by (intro mult_left_mono) auto
  then show "(d + l * 1024 div f) * f \<le> 1024 * 1024 + l * 1024 + 1024 * d"
    using A(1) unfolding A_def [symmetric] by (simp add: algebra_simps)
qed

lemma convert_scaled:
  fixes W P l d :: int
  assumes "16 \<le> W" "W \<le> P" "P \<le> 4095" "0 \<le> l" "l + W \<le> 2048" "0 \<le> d" "d \<le> P" "0 \<le> o'" "o' + d \<le> 4095" "scale c = 10"
  defines "f \<equiv> W * 1024 div P"
  shows "PenConvertLCD c (o' + d) f (u32i (o' - l * 1024 div f)) = (d + l * 1024 div f) * f div 1024"
proof -
  define A where "A = l * 1024 div f"
  define m where "m = (d + A) * f div 1024"
  note b = scaled_bounds [OF assms(1-4,6,7), folded f_def, folded A_def, folded m_def]
  have A0: "0 \<le> A" unfolding A_def using assms(4) b(1) by (simp add: pos_imp_zdiv_nonneg_iff)
  have "1 * A \<le> f * A" using A0 b(1) by (intro mult_right_mono) auto
  then have "A \<le> l * 1024" using int_div_bounds(1) [OF b(1), of "l * 1024"] by (simp add: A_def)
  have "s32 (u32i (o' + d - u32i (o' - A))) = s32 (d + A)"
    by (simp add: s32_def u32i_def mod_simps algebra_simps)
  also have "\<dots> = d + A" using A0 \<open>A \<le> l * 1024\<close> assms by (intro s32_id) linarith+
  finally have t: "s32 (u32i (o' + d - u32i (o' - A))) = d + A" .
  have p0: "0 \<le> (d + A) * f" using A0 assms(6) b(1) by simp
  then have w: "u32i ((d + A) * f) = (d + A) * f" using b(5) assms by (intro u32i_id) linarith+
  have m0: "0 \<le> m" unfolding m_def using p0 by simp
  have "m \<le> 32767"
  proof -
    have "m * 1024 \<le> (d + A) * f" using int_div_bounds(1) [of 1024 "(d + A) * f"] by (simp add: m_def)
    then show ?thesis using b(5) assms by linarith
  qed
  then have "s16 m = m" using m0 by (intro s16_id) linarith+
  then show ?thesis
    using A0 assms(6) unfolding A_def [symmetric] PenConvertLCD_def Let_def t w assms(10) by (simp add: m_def)
qed

text \<open>A screen and a panel rectangle for which the calibration is sound.\<close>

definition sound_side :: "int \<Rightarrow> int \<Rightarrow> int \<Rightarrow> int \<Rightarrow> bool" where
  "sound_side l r a b \<longleftrightarrow> 0 \<le> l \<and> 16 \<le> r - l \<and> r \<le> 2048 \<and> r - l \<le> b - a \<and> 0 \<le> a \<and> b \<le> 4095"

text \<open>\<open>m\<close> is below the ideal position of \<open>v\<close>, by less than \<open>2 + (v - a) / 1024\<close>.\<close>

definition near_ideal :: "int \<Rightarrow> int \<Rightarrow> int \<Rightarrow> int \<Rightarrow> int \<Rightarrow> int \<Rightarrow> bool" where
  "near_ideal l r a b v m \<longleftrightarrow> (b - a) * (m - l) \<le> (v - a) * (r - l) \<and>
     1024 * (v - a) * (r - l) < (b - a) * (1024 * (m - l) + 2048 + (v - a))"

lemma convert_near:
  assumes "sound_side l r a b" "a \<le> v" "v \<le> b" "scale c = 10"
  defines "f \<equiv> (r - l) * 1024 div (b - a)"
  shows "0 < f \<and> near_ideal l r a b v (PenConvertLCD c v f (u32i (a - l * 1024 div f)))"
proof -
  have s: "16 \<le> r - l" "r - l \<le> b - a" "b - a \<le> 4095" "0 \<le> l" "l + (r - l) \<le> 2048" "0 \<le> v - a" "v - a \<le> b - a"
    "0 \<le> a" "a + (v - a) \<le> 4095" using assms(1-3) by (simp_all add: sound_side_def)
  show ?thesis
    using scaled_bounds [OF s(1-4,6,7)] convert_scaled [OF s assms(4)]
    by (simp add: near_ideal_def f_def)
qed

lemma PenCalibratePoint_sound:
  assumes "sound_side (left st) (right st) (left rt) (right rt)" "sound_side (top st) (bottom st) (top rt) (bottom rt)"
  defines "fx \<equiv> (right st - left st) * 1024 div (right rt - left rt)"
    and "fy \<equiv> (bottom st - top st) * 1024 div (bottom rt - top rt)"
  shows "PenCalibratePoint st rt s = (SYS_OK, s\<lparr>gPenConfig := \<lparr>xFactor = fx, yFactor = fy,
    xOffset = u32i (left rt - left st * 1024 div fx), yOffset = u32i (top rt - top st * 1024 div fy), scale = 10, pan = rt\<rparr>\<rparr>)"
proof -
  have side: "s32 (b - a) = b - a \<and> b - a \<noteq> 0 \<and> s32 (r - l) = r - l \<and> 0 < (r - l) * 1024 div (b - a) \<and>
      u32i (s32 ((r - l) * 1024) sdiv (b - a)) = (r - l) * 1024 div (b - a) \<and> u32i (s32 (l * 1024)) = l * 1024"
    if "sound_side l r a b" for l r a b
  proof -
    have r: "16 \<le> r - l" "r - l \<le> b - a" "b - a \<le> 4095" "0 \<le> l" "r \<le> 2048" using that by (simp_all add: sound_side_def)
    note q = scaled_bounds(1,2) [OF r(1-4), of 0]
    have w: "s32 (b - a) = b - a" "s32 (r - l) = r - l" "s32 ((r - l) * 1024) = (r - l) * 1024" "s32 (l * 1024) = l * 1024"
      "u32i (l * 1024) = l * 1024"
      using r by (auto intro!: s32_id u32i_id)
    have "(r - l) * 1024 sdiv (b - a) = (r - l) * 1024 div (b - a)" using r by (intro sdiv_nonneg) auto
    then show ?thesis using w q r by (simp add: u32i_id)
  qed
  note x = side [OF assms(1), folded fx_def] and y = side [OF assms(2), folded fy_def]
  have p10: "(2 :: int) ^ 10 = 1024" by simp
  show ?thesis
    unfolding PenCalibratePoint_def Let_def p10 using x y by (simp del: power_numeral)
qed

text \<open>
  C40: calibration.  For a screen and a panel rectangle of ordinary sizes it succeeds, and from then on
  a panel value inside the rectangle is mapped to a pixel position that is never beyond the ideal, linear
  one and less than \<open>2 + d / 1024\<close> pixels short of it, \<open>d\<close> being the distance from the rectangle's
  first edge: up to six pixels on the panel's 4095.
\<close>
theorem calibration_near_ideal:
  assumes "sound_side (left st) (right st) (left rt) (right rt)" "sound_side (top st) (bottom st) (top rt) (bottom rt)"
    and "left rt \<le> x" "x \<le> right rt" "top rt \<le> y" "y \<le> bottom rt"
  shows "\<exists>t. PenCalibratePoint st rt s = (SYS_OK, t) \<and>
    near_ideal (left st) (right st) (left rt) (right rt) x (PenMapX t x) \<and>
    near_ideal (top st) (bottom st) (top rt) (bottom rt) y (PenMapY t y)"
  using PenCalibratePoint_sound [OF assms(1,2)] convert_near [OF assms(1,3,4)] convert_near [OF assms(2,5,6)]
  by (simp add: PenMapX_def PenMapY_def)

text \<open>The rectangles of \<open>main\<close>: the last panel value is mapped three pixels short of 230.\<close>

theorem calibration_near_ideal_witness:
  "\<exists>t. PenCalibratePoint \<lparr>left = 10, right = 230, top = 10, bottom = 310\<rparr> \<lparr>left = 0x1bc, right = 0xE82, top = 0x242, bottom = 0xEA7\<rparr>
       demo_screen = (SYS_OK, t) \<and>
     near_ideal 10 230 0x1bc 0xE82 3714 (PenMapX t 3714) \<and> near_ideal 10 310 0x242 0xEA7 600 (PenMapY t 600)"
  using calibration_near_ideal [of "\<lparr>left = 10, right = 230, top = 10, bottom = 310\<rparr>"
      "\<lparr>left = 0x1bc, right = 0xE82, top = 0x242, bottom = 0xEA7\<rparr>" 3714 600 demo_screen]
  by (simp add: sound_side_def)

lemma main_calibration:
  "PenMapX (snd (PenCalibratePoint \<lparr>left = 10, right = 230, top = 10, bottom = 310\<rparr>
     \<lparr>left = 0x1bc, right = 0xE82, top = 0x242, bottom = 0xEA7\<rparr> demo_screen)) 3714 = 227"
  by code_simp

end
