(* ===== verification/Adc.thy ===== *)
theory Adc
  imports Mmio
begin

text \<open>
  The analog input of exercise 11: the ADC0809 driver (EXP11/driver/adc0809.c, adc0809_ioctl.h) and the
  program that shows a channel (EXP11/app/adc0809_test.c).
\<close>

section \<open>The driver\<close>

text \<open>\<open>Channel i\<close> is the byte at \<open>ADC_i\<close>: writing it selects input \<open>i\<close> and starts a conversion.\<close>

datatype adc_reg = GPACON | GPADATA | GPFUP | BANKCON2 | SRCPND | INTPND | Channel nat | ADC_DATA

record adc = "adc_reg machine" +
  adc_data :: u32
  adc_write_addr :: "nat option"
  null_write :: bool

definition adc_rmw :: "adc_reg dev \<Rightarrow> adc_reg \<Rightarrow> (u32 \<Rightarrow> u32) \<Rightarrow> adc \<Rightarrow> adc" where
  "adc_rmw dev r f s = (let (v, s) = rd dev r s in wr r (f v) s)"

definition adc0809_interrupt :: "adc_reg dev \<Rightarrow> adc \<Rightarrow> adc" where
  "adc0809_interrupt dev s =
    (let s = adc_rmw dev SRCPND (\<lambda>v. v AND NOT 4) s;
         s = adc_rmw dev INTPND (\<lambda>v. v) s;
         (v, s) = rd dev ADC_DATA s
     in s\<lparr>adc_data := v\<rparr>)"

text \<open>
  \<open>adc0809_read\<close>: the count and the byte stored at the caller.  \<open>n\<close> interrupts may arrive between the
  load of \<open>data\<close> and its reset, which are two statements.
\<close>

definition adc0809_read :: "adc_reg dev \<Rightarrow> nat \<Rightarrow> adc \<Rightarrow> int \<times> u8 option \<times> adc" where
  "adc0809_read dev n s =
    (let key = ucast (adc_data s) :: u8;
         s = (adc0809_interrupt dev ^^ n) s;
         s = s\<lparr>adc_data := 0\<rparr>
     in if key = 0 then (0, None, s) else (1, Some key, s))"

definition adc_start :: "u8 \<Rightarrow> adc \<Rightarrow> adc" where
  "adc_start v s = (case adc_write_addr s of None \<Rightarrow> s\<lparr>null_write := True\<rparr>
     | Some i \<Rightarrow> wr (Channel i) (ucast v) s)"

definition adc0809_write :: "u8 option \<Rightarrow> adc \<Rightarrow> int \<times> adc" where
  "adc0809_write key s = (case key of None \<Rightarrow> (-14, s) | Some k \<Rightarrow> (1, adc_start k s))"

definition adc0809_ioctl :: "int \<Rightarrow> u32 \<Rightarrow> adc \<Rightarrow> int \<times> adc" where
  "adc0809_ioctl command arg s =
    (if 0 \<le> command \<and> command \<le> 7
     then (0, adc_start (ucast arg) (s\<lparr>adc_write_addr := Some (nat command)\<rparr>))
     else (-22, adc_start (ucast arg) (s\<lparr>adc_write_addr := Some 2\<rparr>)))"

definition adc0809_init :: "adc_reg dev \<Rightarrow> adc \<Rightarrow> int \<times> adc" where
  "adc0809_init dev s =
    (let s = adc_rmw dev BANKCON2 (\<lambda>v. v OR 0x6000) s;
         s = adc_rmw dev GPACON (\<lambda>v. v OR 0x2000) s;
         s = adc_rmw dev GPADATA (\<lambda>v. v AND NOT 0x2000) s
     in (0, wr GPFUP 0 s))"

section \<open>The program\<close>

text \<open>
  \<open>main\<close> opens the node, asks for a channel (\<open>select\<close>), starts it once and polls for ever.  \<open>Poll n\<close> is
  one turn of the loop, with \<open>n\<close> interrupts inside its read; \<open>Irq\<close> is an interrupt at any other time.
  The result is what the program prints.
\<close>

datatype adc_step = Poll nat | Irq

fun adc_polls :: "adc_reg dev \<Rightarrow> adc_step list \<Rightarrow> adc \<Rightarrow> u8 list \<times> adc" where
  "adc_polls dev [] s = ([], s)"
| "adc_polls dev (Irq # es) s = adc_polls dev es (adc0809_interrupt dev s)"
| "adc_polls dev (Poll n # es) s =
     (case adc0809_read dev n s of (count, key, s) \<Rightarrow>
        case adc_polls dev es s of (out, s) \<Rightarrow>
          ((if count \<noteq> 0 then [case key of Some k \<Rightarrow> k | None \<Rightarrow> 0] else []) @ out, s))"

definition adc_test :: "adc_reg dev \<Rightarrow> int \<Rightarrow> int \<Rightarrow> adc_step list \<Rightarrow> adc \<Rightarrow> u8 list \<times> adc" where
  "adc_test dev fd select es s =
    (if fd \<le> 0 then ([], s)
     else adc_polls dev es (snd (adc0809_ioctl select (word_of_int select) s)))"

section \<open>The converter\<close>

text \<open>
  After its data sheet: the data register holds the value of the input whose conversion was started
  last, and every conversion ends with one interrupt.  \<open>V i\<close> is the value of input \<open>i\<close>.
\<close>

fun last_started :: "adc_reg ev list \<Rightarrow> nat option" where
  "last_started [] = None"
| "last_started (Wr (Channel i) v # h) = Some i"
| "last_started (_ # h) = last_started h"

definition converter :: "(nat \<Rightarrow> u8) \<Rightarrow> adc_reg dev" where
  "converter V h r =
    (if r = ADC_DATA then (case last_started (rev h) of Some i \<Rightarrow> ucast (V i) | None \<Rightarrow> 0) else 0)"

fun irqs :: "adc_step list \<Rightarrow> nat" where
  "irqs [] = 0"
| "irqs (Irq # es) = Suc (irqs es)"
| "irqs (Poll n # es) = n + irqs es"

definition started :: "nat \<Rightarrow> adc \<Rightarrow> bool" where
  "started i s \<longleftrightarrow> last_started (rev (bus s)) = Some i"

lemma last_started_rmw [simp]:
  "last_started (rev (bus (adc_rmw dev SRCPND f s))) = last_started (rev (bus s))"
  "last_started (rev (bus (adc_rmw dev INTPND f s))) = last_started (rev (bus s))"
  by (simp_all add: adc_rmw_def rd_def)

lemma interrupt_stores:
  assumes "started i s"
  shows "adc_data (adc0809_interrupt (converter V) s) = ucast (V i) \<and> started i (adc0809_interrupt (converter V) s)"
  using assms by (simp add: adc0809_interrupt_def Let_def prod.case_eq_if started_def converter_def)

lemma interrupts_started:
  assumes "started i s"
  shows "started i ((adc0809_interrupt (converter V) ^^ n) s) \<and>
    (0 < n \<longrightarrow> adc_data ((adc0809_interrupt (converter V) ^^ n) s) = ucast (V i))"
proof (induction n)
  case (Suc n)
  then show ?case using interrupt_stores [of i "(adc0809_interrupt (converter V) ^^ n) s" V] by simp
qed (simp add: assms)

lemma read_started:
  assumes "started i s" "adc0809_read (converter V) n s = (c, k, t)"
  shows "started i t \<and> adc_data t = 0"
  using assms interrupts_started [OF assms(1), where V = V and n = n]
  by (auto simp: adc0809_read_def Let_def started_def split: if_splits)

text \<open>Without interrupts and without data nothing is printed.\<close>

lemma polls_silent:
  assumes "irqs es = 0" "adc_data s = 0"
  shows "fst (adc_polls dev es s) = []"
  using assms
proof (induction es arbitrary: s)
  case (Cons e es)
  then show ?case by (cases e) (auto simp: adc0809_read_def Let_def split: prod.split)
qed simp

lemma polls_frame:
  assumes "irqs es = 0" "adc_data s = 0"
  shows "snd (adc_polls dev es s) = s"
  using assms
proof (induction es arbitrary: s)
  case (Cons e es)
  have "s\<lparr>adc_data := 0\<rparr> = s" using Cons.prems(2) by simp
  with Cons show ?case by (cases e) (auto simp: adc0809_read_def Let_def split: prod.split)
qed simp

lemma polls_append:
  "adc_polls dev (es @ fs) s = (let (a, t) = adc_polls dev es s; (b, u) = adc_polls dev fs t in (a @ b, u))"
proof (induction es arbitrary: s)
  case (Cons e es)
  then show ?case by (cases e) (simp_all add: Let_def split: prod.split)
qed simp

lemma polls_holding:
  assumes "irqs es = 0" "adc_data s = ucast (v :: u8)"
  shows "fst (adc_polls dev es s) = (if v \<noteq> 0 \<and> es \<noteq> [] then [v] else [])"
proof (cases es)
  case Nil
  then show ?thesis by simp
next
  case (Cons e es')
  then obtain n where e: "e = Poll n" using assms(1) by (cases e) auto
  then have n: "n = 0" "irqs es' = 0" using assms(1) Cons by auto
  have k: "ucast (adc_data s) = v" by (simp add: assms(2))
  have "fst (adc_polls dev es' (s\<lparr>adc_data := 0\<rparr>)) = []" by (rule polls_silent) (simp_all add: n)
  then show ?thesis
    using k by (cases "v = 0") (auto simp: Cons e n(1) adc0809_read_def Let_def split: prod.splits)
qed

text \<open>
  Driver and program together.  The program starts one conversion, so one interrupt arrives.  If it
  arrives between two reads, the first poll after it prints the value of the selected input, and nothing
  else is ever printed; a value of 0 is never printed, and an interrupt that arrives inside a read,
  between the load and the reset of the driver's variable, is lost.  A channel number that does not exist
  gives the value of input 2.
\<close>
theorem adc_shows_once:
  assumes "0 < fd" "adc_data s = 0" "irqs ps = 0" "irqs qs = 0"
    and v: "v = V (if 0 \<le> select \<and> select \<le> 7 then nat select else 2)"
  shows "fst (adc_test (converter V) fd select (ps @ [Irq] @ qs) s) = (if v \<noteq> 0 \<and> qs \<noteq> [] then [v] else []) \<and>
    fst (adc_test (converter V) fd select (ps @ [Poll 1] @ qs) s) = []"
proof -
  define i where "i = (if 0 \<le> select \<and> select \<le> 7 then nat select else 2)"
  define t where "t = snd (adc0809_ioctl select (word_of_int select) s)"
  have t: "adc_data t = 0" "started i t"
    using assms(2) by (auto simp: t_def adc0809_ioctl_def adc_start_def started_def i_def wr_def emit_def)
  have a: "adc_polls (converter V) ps t = ([], t)"
    using polls_silent [OF assms(3) t(1), of "converter V"] polls_frame [OF assms(3) t(1), of "converter V"]
    by (cases "adc_polls (converter V) ps t") simp
  define u where "u = adc0809_interrupt (converter V) t"
  have u: "adc_data u = ucast v" using interrupt_stores [OF t(2), of V] by (simp add: u_def v i_def)
  have irq: "fst (adc_polls (converter V) (ps @ [Irq] @ qs) t) = (if v \<noteq> 0 \<and> qs \<noteq> [] then [v] else [])"
    using polls_holding [OF assms(4) u, of "converter V"]
    by (simp add: polls_append [of _ ps] a u_def [symmetric] split: prod.split)
  define w where "w = u\<lparr>adc_data := 0\<rparr>"
  have r: "adc0809_read (converter V) 1 t = (0, None, w)" by (simp add: adc0809_read_def t(1) w_def u_def)
  have "fst (adc_polls (converter V) qs w) = []" by (rule polls_silent [OF assms(4)]) (simp add: w_def)
  then have race: "fst (adc_polls (converter V) (ps @ [Poll 1] @ qs) t) = []"
    using r by (simp add: polls_append [of _ ps] a split: prod.split)
  show ?thesis using assms(1) irq race by (simp add: adc_test_def t_def)
qed

definition adc_zero :: adc where
  "adc_zero = \<lparr>bus = [], adc_data = 0, adc_write_addr = None, null_write = False\<rparr>"

theorem adc_shows_once_witness:
  "fst (adc_test (converter (\<lambda>i. of_nat (i + 40))) 3 5 [Poll 0, Irq, Poll 0, Poll 0] adc_zero) = [45] \<and>
   fst (adc_test (converter (\<lambda>i. of_nat (i + 40))) 3 9 [Poll 0, Irq, Poll 0, Poll 0] adc_zero) = [42]"
  using adc_shows_once [of 3 adc_zero "[Poll 0]" "[Poll 0, Poll 0]" 45 "\<lambda>i. of_nat (i + 40)" 5]
    adc_shows_once [of 3 adc_zero "[Poll 0]" "[Poll 0, Poll 0]" 42 "\<lambda>i. of_nat (i + 40)" 9]
  by (simp add: adc_zero_def)

end
