(* ===== verification/Motor.thy ===== *)
theory Motor
  imports Mmio
begin

text \<open>
  Output ports of the board: the stepping motor of exercise 13 (EXP13/driver/electromotor.c,
  EXP13/app/electromotor_test.c) and the DAC0832 of exercise 12 (EXP12/driver/dac0832.c,
  EXP12/app/dac0832_test.c).
\<close>

section \<open>The motor driver and its program\<close>

datatype motor_reg = GPACON | GPADATA | ELECTROMOTOR_6

type_synonym motor = "motor_reg machine"

text \<open>\<open>sle |= 0x2000; sle_data &= ~0x2000\<close>, as several drivers of the board do to select NGCS2.\<close>

definition electromotor_open :: "motor_reg dev \<Rightarrow> motor \<Rightarrow> int \<times> motor" where
  "electromotor_open dev s =
    (let (v, s) = rd dev GPACON s; s = wr GPACON (v OR 0x2000) s;
         (v, s) = rd dev GPADATA s; s = wr GPADATA (v AND NOT 0x2000) s
     in (0, s))"

definition electromotor_read :: "motor \<Rightarrow> int \<times> motor" where
  "electromotor_read s = (1, s)"

definition electromotor_write :: "u8 option \<Rightarrow> motor \<Rightarrow> int \<times> motor" where
  "electromotor_write key s =
    (case key of None \<Rightarrow> (-14, s) | Some k \<Rightarrow> (1, wr ELECTROMOTOR_6 (ucast k) s))"

text \<open>
  The bytes of one turn of the program's endless loop; the sleep after each is recorded as a delay.
\<close>

definition turn_bytes :: "u8 list" where
  "turn_bytes = [0x7, 0x3, 0xb, 0x9, 0xd, 0xc, 0xe]"

definition motor_turn :: "motor \<Rightarrow> motor" where
  "motor_turn s = fold (\<lambda>b s. udelay 10000 (snd (electromotor_write (Some b) s))) turn_bytes s"

definition motor_test :: "motor_reg dev \<Rightarrow> int \<Rightarrow> nat \<Rightarrow> motor \<Rightarrow> motor" where
  "motor_test dev fd n s = (if fd \<le> 0 then s else (motor_turn ^^ n) (snd (electromotor_open dev s)))"

section \<open>A stepping motor\<close>

text \<open>
  A four-phase motor: a coil is on while its bit is 0.  With one coil on, or two neighbours, the rotor
  stands at one of eight positions of the electrical cycle.  From one position to another it
  takes the shorter way, so long as that is less than half the cycle.
\<close>

definition ring :: "u8 list" where
  "ring = [0x7, 0x3, 0xb, 0x9, 0xd, 0xc, 0xe, 0x6]"

definition position :: "u8 \<Rightarrow> nat option" where
  "position b = List.find (\<lambda>p. ring ! p = b) [0..<8]"

definition step :: "nat \<Rightarrow> nat \<Rightarrow> int option" where
  "step p q = (let d = (int q - int p) mod 8 in
     if d < 4 then Some d else if d > 4 then Some (d - 8) else None)"

text \<open>The steps of the rotor, in half steps, for the patterns on the port; \<open>None\<close> for a pattern or
  a jump it does not follow.\<close>

fun rotor_steps :: "nat \<Rightarrow> u8 list \<Rightarrow> int list option" where
  "rotor_steps p [] = Some []"
| "rotor_steps p (b # bs) = do { q \<leftarrow> position b; d \<leftarrow> step p q; ds \<leftarrow> rotor_steps q bs; Some (d # ds) }"

fun port_bytes :: "motor_reg ev list \<Rightarrow> u8 list" where
  "port_bytes [] = []"
| "port_bytes (Wr ELECTROMOTOR_6 v # h) = ucast v # port_bytes h"
| "port_bytes (_ # h) = port_bytes h"

lemma port_bytes_append [simp]: "port_bytes (h @ k) = port_bytes h @ port_bytes k"
  by (induction h rule: port_bytes.induct) auto

lemma byte_of_byte [simp]: "ucast (ucast (b :: u8) :: u32) = b"
  by simp

lemma open_bytes [simp]: "port_bytes (bus (snd (electromotor_open dev s))) = port_bytes (bus s)"
  by (simp add: electromotor_open_def prod.case_eq_if)

lemma turn_writes:
  "port_bytes (bus (fold (\<lambda>b s. udelay 10000 (snd (electromotor_write (Some b) s))) bs s)) = port_bytes (bus s) @ bs"
  by (induction bs arbitrary: s) (simp_all add: electromotor_write_def)

lemma turns_write:
  "port_bytes (bus ((motor_turn ^^ n) s)) = port_bytes (bus s) @ concat (replicate n turn_bytes)"
proof (induction n arbitrary: s)
  case (Suc n)
  have "port_bytes (bus (motor_turn s)) = port_bytes (bus s) @ turn_bytes"
    unfolding motor_turn_def by (rule turn_writes)
  with Suc [of "motor_turn s"] show ?case by (simp add: funpow_Suc_right del: funpow.simps)
qed simp

lemma rotor_steps_append:
  "rotor_steps p (as @ [b] @ bs) = do {
     ds \<leftarrow> rotor_steps p (as @ [b]); q \<leftarrow> position b; es \<leftarrow> rotor_steps q bs; Some (ds @ es) }"
proof (induction as arbitrary: p)
  case Nil
  then show ?case by (cases "position b"; simp; cases "step p (the (position b))"; simp)
next
  case (Cons a as)
  then show ?case by (cases "position a"; simp; cases "step p (the (position a))"; simp add: bind_assoc)
qed

lemma one_turn:
  "rotor_steps 0 turn_bytes = Some [0, 1, 1, 1, 1, 1, 1]" "rotor_steps 6 turn_bytes = Some [2, 1, 1, 1, 1, 1, 1]"
  "position 0xe = Some 6" "turn_bytes = [0x7, 0x3, 0xb, 0x9, 0xd, 0xc] @ [0xe]"
  by code_simp+

lemma more_turns: "rotor_steps 6 (concat (replicate n turn_bytes)) = Some (concat (replicate n [2, 1, 1, 1, 1, 1, 1]))"
proof (induction n)
  case (Suc n)
  have "concat (replicate (Suc n) turn_bytes) = [0x7, 0x3, 0xb, 0x9, 0xd, 0xc] @ [0xe] @ concat (replicate n turn_bytes)"
    by (simp add: one_turn(4))
  then show ?case using Suc one_turn(2) unfolding one_turn(4)
    by (simp only: rotor_steps_append one_turn(3)) simp
qed simp

lemma turns_steps:
  "rotor_steps 0 (concat (replicate (Suc n) turn_bytes)) =
     Some ([0, 1, 1, 1, 1, 1, 1] @ concat (replicate n [2, 1, 1, 1, 1, 1, 1]))"
proof -
  have "concat (replicate (Suc n) turn_bytes) = [0x7, 0x3, 0xb, 0x9, 0xd, 0xc] @ [0xe] @ concat (replicate n turn_bytes)"
    by (simp add: one_turn(4))
  then show ?thesis using more_turns [of n] one_turn(1) unfolding one_turn(4)
    by (simp only: rotor_steps_append one_turn(3)) simp
qed

text \<open>
  The motor test.  Started with the rotor at position 0, after \<open>n + 1\<close> turns of the loop the rotor
  has only gone forward and has made \<open>8 n + 6\<close> half steps; but not evenly: the loop leaves out the
  pattern 6, so each turn after the first begins with a double step.
\<close>
theorem motor_runs_forward:
  assumes "0 < fd" "port_bytes (bus s) = []"
  shows "\<exists>ds. rotor_steps 0 (port_bytes (bus (motor_test dev fd (Suc n) s))) = Some ds \<and>
    sum_list ds = 8 * int n + 6 \<and> list_all (\<lambda>d. 0 \<le> d) ds \<and> count_list ds 2 = n"
proof -
  have b: "port_bytes (bus (motor_test dev fd (Suc n) s)) = concat (replicate (Suc n) turn_bytes)"
    using assms turns_write [of "Suc n" "snd (electromotor_open dev s)"] by (simp add: motor_test_def del: funpow.simps replicate_Suc)
  define ds where "ds = concat (replicate n [2 :: int, 1, 1, 1, 1, 1, 1])"
  have "sum_list ds = 8 * int n \<and> list_all (\<lambda>d. 0 \<le> d) ds \<and> count_list ds 2 = n"
    unfolding ds_def by (induction n) (simp_all add: count_list_append)
  then show ?thesis unfolding b turns_steps ds_def [symmetric] by (simp add: count_list_append)
qed

theorem motor_runs_forward_witness:
  "\<exists>ds. rotor_steps 0 (port_bytes (bus (motor_test (\<lambda>h r. 0) 3 (Suc 4) \<lparr>bus = []\<rparr>))) = Some ds \<and>
    sum_list ds = 38 \<and> list_all (\<lambda>d. 0 \<le> d) ds \<and> count_list ds 2 = 4"
  using motor_runs_forward [of 3 "\<lparr>bus = []\<rparr>" "\<lambda>h r. 0" 4] by simp

section \<open>The DAC driver and its program\<close>

datatype dac_reg = BWSCON | BANKCON2 | DAC_GPACON | DAC_GPADATA | DAC_DATA | DAC_START

type_synonym dac = "dac_reg machine"

text \<open>\<open>junk\<close> is the local variable \<open>key\<close> of \<open>dac0832_read\<close>, which nothing sets.\<close>

definition dac0832_read :: "u8 \<Rightarrow> int \<times> u8 option" where
  "dac0832_read junk = (if junk = 0 then (0, None) else (1, Some junk))"

definition dac0832_write :: "u8 option \<Rightarrow> dac \<Rightarrow> int \<times> dac" where
  "dac0832_write key s =
    (case key of None \<Rightarrow> (-14, s)
     | Some k \<Rightarrow> (1, wr DAC_START (ucast k) (udelay 100000 (wr DAC_DATA (ucast k) s))))"

definition dac_rmw :: "dac_reg dev \<Rightarrow> dac_reg \<Rightarrow> (u32 \<Rightarrow> u32) \<Rightarrow> dac \<Rightarrow> dac" where
  "dac_rmw dev r f s = (let (v, s) = rd dev r s in wr r (f v) s)"

definition dac0832_init :: "dac_reg dev \<Rightarrow> dac \<Rightarrow> int \<times> dac" where
  "dac0832_init dev s =
    (let s = dac_rmw dev BWSCON (\<lambda>v. v OR 0x400) s;
         s = dac_rmw dev BANKCON2 (\<lambda>v. v OR 0x3ff0) s;
         s = dac_rmw dev DAC_GPACON (\<lambda>v. v OR 0x2000) s;
         s = dac_rmw dev DAC_GPADATA (\<lambda>v. v AND NOT 0x2000) s
     in (0, s))"

text \<open>\<open>n\<close> turns of the program, which writes the low byte of the number it was given.\<close>

definition dac_test :: "int \<Rightarrow> int \<Rightarrow> nat \<Rightarrow> dac \<Rightarrow> dac" where
  "dac_test fd select n s =
    (if fd \<le> 0 then s else ((\<lambda>s. udelay 100000 (snd (dac0832_write (Some (word_of_int select)) s))) ^^ n) s)"

text \<open>The converter: a write to \<open>DAC_DATA\<close> fills the input latch, one to \<open>DAC_START\<close> passes it on.\<close>

fun analog :: "u8 \<times> u8 \<Rightarrow> dac_reg ev list \<Rightarrow> u8 \<times> u8" where
  "analog (l, out) [] = (l, out)"
| "analog (l, out) (Wr DAC_DATA v # h) = analog (ucast v, out) h"
| "analog (l, out) (Wr DAC_START v # h) = analog (l, l) h"
| "analog (l, out) (_ # h) = analog (l, out) h"

lemma analog_append: "analog p (h @ k) = analog (analog p h) k"
  by (induction p h rule: analog.induct) auto

lemma dac_write_converts:
  "analog p (bus (snd (dac0832_write (Some k) s))) = (k, k)"
  by (cases "analog p (bus s)") (simp add: dac0832_write_def analog_append)

lemma dac_test_output: "0 < fd \<Longrightarrow> snd (analog p (bus (dac_test fd select (Suc n) s))) = word_of_int select"
  by (simp add: dac_test_def analog_append dac_write_converts)

end
