(* ===== verification/Parport.thy ===== *)
theory Parport
  imports Mmio
begin

text \<open>The parallel port driver of exercise 24 (EXP24/driver/parport.c) and its test program.\<close>

datatype par_reg = PARPORT_GPACON | PARPORT_GPADATA | PARPORT_DATA | PARPORT_CONTROL | PARPORT_STATE

record par = "par_reg machine" +
  parport_kbuf :: "u8 list"

definition par_rmw :: "par_reg dev \<Rightarrow> par_reg \<Rightarrow> (u32 \<Rightarrow> u32) \<Rightarrow> par \<Rightarrow> par" where
  "par_rmw dev r f s = (let (v, s) = rd dev r s in wr r (f v) s)"

definition select :: "par_reg dev \<Rightarrow> par \<Rightarrow> par" where
  "select dev = par_rmw dev PARPORT_GPADATA (\<lambda>v. v AND NOT 0x2000)"

definition deselect :: "par_reg dev \<Rightarrow> par \<Rightarrow> par" where
  "deselect dev = par_rmw dev PARPORT_GPADATA (\<lambda>v. v OR 0x2000)"

text \<open>\<open>copied\<close>: the copy to or from user space succeeds.  The bytes at the caller are the second result.\<close>

definition parport_read :: "par_reg dev \<Rightarrow> bool \<Rightarrow> par \<Rightarrow> int \<times> u8 list \<times> par" where
  "parport_read dev copied s =
    (let s = select dev s;
         (v, s) = rd dev PARPORT_STATE s;
         s = s\<lparr>parport_kbuf := (parport_kbuf s)[0 := ucast v]\<rparr>;
         s = deselect dev s
     in if copied then (1, [parport_kbuf s ! 0], s) else (-14, [], s))"

definition parport_write :: "par_reg dev \<Rightarrow> bool \<Rightarrow> u8 list \<Rightarrow> nat \<Rightarrow> par \<Rightarrow> int \<times> par" where
  "parport_write dev copied buf sz s =
    (if sz < 1 \<or> sz > 2 then (-14, s)
     else if \<not> copied then (-14, s)
     else let s = s\<lparr>parport_kbuf := take sz buf @ drop sz (parport_kbuf s)\<rparr>;
              s = select dev s;
              s = wr PARPORT_DATA (ucast (parport_kbuf s ! 0)) s;
              s = (if sz = 2 then wr PARPORT_CONTROL (ucast (parport_kbuf s ! 1)) s else s)
          in (int sz, deselect dev s))"

definition parport_init :: "par_reg dev \<Rightarrow> par \<Rightarrow> int \<times> par" where
  "parport_init dev s = (0, par_rmw dev PARPORT_GPACON (\<lambda>v. v AND NOT 0x2000) s)"

text \<open>The test program: two bytes out, one in; what it prints as the byte read.\<close>

definition test_parport :: "par_reg dev \<Rightarrow> int \<Rightarrow> par \<Rightarrow> u8 option \<times> par" where
  "test_parport dev fd s =
    (if fd \<le> 0 then (None, s)
     else let (n, s) = parport_write dev True [0xa5, 0x03] 2 s;
              (n, bs, s) = parport_read dev True s
          in (Some (hd bs), s))"

section \<open>Accesses only while selected\<close>

text \<open>
  The port's buffers are enabled while bit 13 of the data register of port A is low.  \<open>port_ok\<close>: along a
  history every access to one of the port's registers falls into such a time; the first component is
  whether bit 13 is high at the end.
\<close>

fun port_ok :: "bool \<Rightarrow> par_reg ev list \<Rightarrow> bool \<times> bool" where
  "port_ok high [] = (high, True)"
| "port_ok high (Wr PARPORT_GPADATA v # h) = port_ok (bit v 13) h"
| "port_ok high (Wr PARPORT_DATA v # h) = (let (e, ok) = port_ok high h in (e, \<not> high \<and> ok))"
| "port_ok high (Wr PARPORT_CONTROL v # h) = (let (e, ok) = port_ok high h in (e, \<not> high \<and> ok))"
| "port_ok high (Rd PARPORT_STATE # h) = (let (e, ok) = port_ok high h in (e, \<not> high \<and> ok))"
| "port_ok high (_ # h) = port_ok high h"

lemma port_ok_append:
  "port_ok high (h @ k) = (let (e, ok) = port_ok high h; (e', ok') = port_ok e k in (e', ok \<and> ok'))"
  by (induction high h rule: port_ok.induct) (auto split: prod.split)

text \<open>Sequences of calls.\<close>

datatype par_call = Read bool | Write bool "u8 list" nat

fun parport_call :: "par_reg dev \<Rightarrow> par_call \<Rightarrow> par \<Rightarrow> par" where
  "parport_call dev (Read c) s = snd (snd (parport_read dev c s))"
| "parport_call dev (Write c b n) s = snd (parport_write dev c b n s)"

lemma select_bits:
  "\<not> bit ((v :: u32) AND - 8193) 13" "bit ((v :: u32) OR 0x2000) 13"
proof -
  have "(- 8193 :: u32) = NOT 0x2000" by simp
  then show "\<not> bit ((v :: u32) AND - 8193) 13" by (simp only: bit_and_iff bit_not_iff) (simp add: bit_simps)
qed (simp add: bit_simps)

lemma par_frame [simp]: "parport_kbuf (wr r v s) = parport_kbuf s" "parport_kbuf (emit e s) = parport_kbuf s"
  by (simp_all add: wr_def emit_def)

lemma call_ok:
  assumes "port_ok True (bus s) = (True, True)"
  shows "port_ok True (bus (parport_call dev c s)) = (True, True)"
  using assms
  by (cases c) (simp_all add: parport_read_def parport_write_def select_def deselect_def par_rmw_def rd_def
      Let_def port_ok_append select_bits)

lemma write_written:
  assumes "parport_write dev c b n s = (r, t)" "0 < r" "length b = n" "length (parport_kbuf s) = 2"
  shows "r = int n \<and> (\<exists>v w. acts (bus t) = acts (bus s) @ [Wr PARPORT_GPADATA v, Wr PARPORT_DATA (ucast (b ! 0))] @
      (if n = 2 then [Wr PARPORT_CONTROL (ucast (b ! 1))] else []) @ [Wr PARPORT_GPADATA w])"
  using assms
  by (auto simp: parport_write_def Let_def select_def deselect_def par_rmw_def rd_def nth_append split: if_splits)

text \<open>
  The chip select: whatever is called, in whatever order and with whatever sizes, every access
  to the port's registers happens while the buffers are enabled, and they are disabled again at the end of
  every call.
\<close>
theorem parport_selected:
  assumes "port_ok True (bus s) = (True, True)"
  shows "port_ok True (bus (fold (parport_call dev) cs (snd (parport_init dev s)))) = (True, True)"
proof -
  have "port_ok True (bus (snd (parport_init dev s))) = (True, True)"
    using assms by (simp add: parport_init_def par_rmw_def rd_def port_ok_append)
  then show ?thesis by (induction cs rule: rev_induct) (simp_all add: call_ok)
qed

definition par_zero :: par where
  "par_zero = \<lparr>bus = [], parport_kbuf = [0, 0]\<rparr>"

theorem parport_selected_witness:
  "port_ok True (bus (fold (parport_call (\<lambda>h r. 0)) [Write True [0xa5, 3] 2, Read True, Write True [] 0]
     (snd (parport_init (\<lambda>h r. 0) par_zero)))) = (True, True)"
  by (rule parport_selected) (simp add: par_zero_def)

end
