(* ===== verification/Watchdog.thy ===== *)
theory Watchdog
  imports Iic
begin

text \<open>
  The watchdog module of exercise 9 (EXP9/driver/2410iic.c, WatchDog_Driver.c): loading it programs the
  watchdog of the X1227 over the IIC bus.  The bus functions of its \<open>2410iic.c\<close> are those of
  EXP8, modelled in \<open>Iic\<close>; \<open>Reboot\<close> is its own.
\<close>

text \<open>The result of \<open>Reboot\<close> and the byte it prints.\<close>

definition Reboot :: "iic_reg dev \<Rightarrow> iic \<Rightarrow> (int \<times> u8 \<times> iic) option" where
  "Reboot dev s = do {
     let (save_E, s) = rd dev GPECON s;
     let (save_PE, s) = rd dev GPEUP s;
     let s = Init_Iic dev s;
     s \<leftarrow> Wr2410Iic dev 0xde 0x003f 0x02 s;
     s \<leftarrow> Wr2410Iic dev 0xde 0x003f 0x06 s;
     s \<leftarrow> Wr2410Iic dev 0xde 0x0010 0x00 s;
     s \<leftarrow> Wr2410Iic dev 0xde 0x003f 0x0 s;
     (rdata, s) \<leftarrow> Rd2410Iic dev 0xdf 0x0010 s;
     Some (0, rdata, wr GPEUP save_PE (wr GPECON save_E s))
   }"

definition WATCHDOG1227_init :: "iic_reg dev \<Rightarrow> iic \<Rightarrow> (int \<times> iic) option" where
  "WATCHDOG1227_init dev s = do { (_, _, s) \<leftarrow> Reboot dev s; Some (0, s) }"

section \<open>What the chip makes of the writes\<close>

text \<open>
  The control registers of the X1227, after its data sheet: the status register 0x3f holds the write
  enable latch WEL (bit 1) and the register write enable latch RWEL (bit 2), which is only set while
  WEL is; a byte written to another register takes effect when both are set.
\<close>

record x1227 =
  wel :: bool
  rwel :: bool
  watchdog_reg :: "u8 option"

definition x1227_write :: "u8 list \<Rightarrow> x1227 \<Rightarrow> x1227" where
  "x1227_write w c =
    (case w of [hi, lo, v] \<Rightarrow>
       if hi = 0 \<and> lo = 0x3f
       then c\<lparr>wel := bit v 1, rwel := bit v 2 \<and> wel c\<rparr>
       else if hi = 0 \<and> lo = 0x10 \<and> wel c \<and> rwel c then c\<lparr>watchdog_reg := Some v\<rparr> else c
     | _ \<Rightarrow> c)"

definition reboot_writes :: "u8 list list" where
  "reboot_writes = [[0, 0x3f, 2], [0, 0x3f, 6], [0, 0x10, 0], [0, 0x3f, 0]]"

lemma reboot_sets_watchdog:
  "fold x1227_write reboot_writes \<lparr>wel = False, rwel = False, watchdog_reg = w\<rparr> =
     \<lparr>wel = False, rwel = False, watchdog_reg = Some 0\<rparr>"
  by (simp add: reboot_writes_def x1227_write_def)

text \<open>
  Loading the module returns when the controller reports every byte it moves.  It saves the pin settings,
  initialises the controller, sends the four byte writes that unlock the chip, clear the watchdog
  register and lock the chip again, reads the register back, and restores the pin settings; a chip
  that follows its data sheet ends with its latches off and the watchdog register 0 (the timeout of
  1.75 seconds), whatever was there.
\<close>
theorem watchdog_programmed:
  assumes "iic_live dev" "length (iicData s) = 32"
  shows "\<exists>s' up con. WATCHDOG1227_init dev s = Some (0, s') \<and> iic_bad s' = iic_bad s \<and>
    acts (bus s') = acts (bus s) @ init_acts up con @ concat (map (write_acts 0xde) reboot_writes) @
      read_acts 0xdf 0x10 1 @ [Wr GPECON (dev (bus s) GPECON), Wr GPEUP (dev (bus s @ [Rd GPECON]) GPEUP)] \<and>
    fold x1227_write reboot_writes \<lparr>wel = False, rwel = False, watchdog_reg = w\<rparr> =
      \<lparr>wel = False, rwel = False, watchdog_reg = Some 0\<rparr>"
proof -
  define s0 where "s0 = emit (Rd GPEUP) (emit (Rd GPECON) s)"
  have s0: "acts (bus s0) = acts (bus s)" "length (iicData s0) = 32" "iic_bad s0 = iic_bad s"
    using assms(2) by (simp_all add: s0_def)
  obtain up con where i: "acts (bus (Init_Iic dev s0)) = acts (bus s) @ init_acts up con"
    using Init_Iic_acts [of dev s0] s0(1) by auto
  obtain t1 where t1: "Wr2410Iic dev 0xde 0x3f 2 (Init_Iic dev s0) = Some t1" "iic_bad t1 = iic_bad s"
    "length (iicData t1) = 32" "acts (bus t1) = acts (bus (Init_Iic dev s0)) @ write_acts 0xde [0, 0x3f, 2]"
    using Wr2410Iic_acts [OF assms(1), of "Init_Iic dev s0" "0xde" "0x3f" 2] s0 by auto
  obtain t2 where t2: "Wr2410Iic dev 0xde 0x3f 6 t1 = Some t2" "iic_bad t2 = iic_bad s"
    "length (iicData t2) = 32" "acts (bus t2) = acts (bus t1) @ write_acts 0xde [0, 0x3f, 6]"
    using Wr2410Iic_acts [OF assms(1) t1(3), of "0xde" "0x3f" 6] t1(2) by auto
  obtain t3 where t3: "Wr2410Iic dev 0xde 0x10 0 t2 = Some t3" "iic_bad t3 = iic_bad s"
    "length (iicData t3) = 32" "acts (bus t3) = acts (bus t2) @ write_acts 0xde [0, 0x10, 0]"
    using Wr2410Iic_acts [OF assms(1) t2(3), of "0xde" "0x10" 0] t2(2) by auto
  obtain t4 where t4: "Wr2410Iic dev 0xde 0x3f 0 t3 = Some t4" "iic_bad t4 = iic_bad s"
    "length (iicData t4) = 32" "acts (bus t4) = acts (bus t3) @ write_acts 0xde [0, 0x3f, 0]"
    using Wr2410Iic_acts [OF assms(1) t3(3), of "0xde" "0x3f" 0] t3(2) by auto
  obtain t5 v where t5: "Rd2410Iic dev 0xdf 0x10 t4 = Some (v, t5)" "iic_bad t5 = iic_bad s"
    "acts (bus t5) = acts (bus t4) @ read_acts 0xdf 0x10 1"
    using Rd2410Iic_value [OF assms(1) t4(3), of "0xdf" "0x10"] t4(2) by metis
  have "Reboot dev s = Some (0, v, wr GPEUP (dev (bus s @ [Rd GPECON]) GPEUP) (wr GPECON (dev (bus s) GPECON) t5))"
    using t1(1) t2(1) t3(1) t4(1) t5(1)
    by (simp add: Reboot_def rd_def s0_def Let_def)
  then show ?thesis
    using i t1(4) t2(4) t3(4) t4(4) t5(2,3) reboot_sets_watchdog
    by (intro exI [of _ "wr GPEUP (dev (bus s @ [Rd GPECON]) GPEUP) (wr GPECON (dev (bus s) GPECON) t5)"]
        exI [of _ up] exI [of _ con]) (simp add: WATCHDOG1227_init_def reboot_writes_def)
qed

theorem watchdog_programmed_witness:
  "\<exists>s'. WATCHDOG1227_init (iic_chip 0x15) iic_zero = Some (0, s') \<and> \<not> iic_bad s'"
proof -
  have "iic_live (iic_chip 0x15)" by (rule iic_chip_live)
  from watchdog_programmed [OF this, of iic_zero] show ?thesis by (auto simp: iic_zero_def IICBUFSIZE_def)
qed

end
