(* ===== verification/Pinyin.thy ===== *)
theory Pinyin
  imports Lab_Prelude "HOL-Library.Sublist"
begin

text \<open>
  The pinyin index of the handwriting pad (EXP19/app/handpad/handpad.c): a tree of the syllables of
  the index file, whose nodes say where the characters of all syllables with that beginning lie in the
  character file, and the search that follows the user's typing through it.

  Nodes are numbers: 0 to 25 the array \<open>root\<close>, the rest what \<open>malloc\<close> returns, in order.  \<open>None\<close> is the
  null pointer; as a result it is an access the C program must not make, or a loop that does not end.
\<close>

section \<open>Nodes\<close>

record pnode =
  pch :: char
  pstart :: int
  pend :: int
  pchild :: "nat option"
  pnext :: "nat option"
  pparent :: "nat option"

type_synonym pnodes = "pnode list"

definition upd :: "nat \<Rightarrow> (pnode \<Rightarrow> pnode) \<Rightarrow> pnodes \<Rightarrow> pnodes" where
  "upd a f ns = ns[a := f (ns ! a)]"

text \<open>\<open>for (q = p->child; q && q->next; q = q->next);\<close> from a child that is there.\<close>

partial_function (option) last_sibling :: "pnodes \<Rightarrow> nat \<Rightarrow> nat option" where
  [code]: "last_sibling ns q = (case pnext (ns ! q) of None \<Rightarrow> Some q | Some r \<Rightarrow> last_sibling ns r)"

text \<open>\<open>mem n\<close>: with \<open>n\<close> nodes allocated, \<open>malloc\<close> gives another one.\<close>

definition InsertItem :: "(nat \<Rightarrow> bool) \<Rightarrow> char \<Rightarrow> nat \<Rightarrow> int \<Rightarrow> pnodes \<Rightarrow> (nat option \<times> pnodes) option" where
  "InsertItem mem ch p val ns =
    (if \<not> mem (length ns) then Some (None, ns)
     else let t = length ns;
              ns = ns @ [\<lparr>pch = ch, pstart = 0, pend = 0, pchild = None, pnext = None, pparent = Some p\<rparr>]
          in case pchild (ns ! p) of
               None \<Rightarrow> Some (Some t, upd p (pchild_update (\<lambda>_. Some t)) ns)
             | Some c \<Rightarrow> do {
                 q \<leftarrow> last_sibling ns c;
                 Some (Some t, upd q (\<lambda>n. n\<lparr>pnext := Some t, pend := val\<rparr>) ns) })"

text \<open>\<open>for (; t; t = t->next) if (t->ch == ch) break;\<close>\<close>

partial_function (option) scan :: "pnodes \<Rightarrow> nat option \<Rightarrow> char \<Rightarrow> nat option option" where
  [code]: "scan ns t ch = (case t of None \<Rightarrow> Some None
     | Some a \<Rightarrow> if pch (ns ! a) = ch then Some (Some a) else scan ns (pnext (ns ! a)) ch)"

section \<open>Reading the index file\<close>

fun fgets :: "nat \<Rightarrow> string \<Rightarrow> string \<times> string" where
  "fgets 0 cs = ([], cs)"
| "fgets (Suc n) [] = ([], [])"
| "fgets (Suc n) (c # cs) = (if c = CHR 0x0A then ([c], cs) else let (l, r) = fgets n cs in (c # l, r))"

lemma fgets_shrinks: "0 < n \<Longrightarrow> cs \<noteq> [] \<Longrightarrow> fgets n cs = (l, r) \<Longrightarrow> length r < length cs"
proof (induction n cs arbitrary: l r rule: fgets.induct)
  case (3 n c cs)
  show ?case
  proof (cases "c = CHR 0x0A \<or> n = 0 \<or> cs = []")
    case True
    then show ?thesis using "3.prems" by (cases n; cases cs) (auto split: if_splits)
  next
    case False
    then show ?thesis using 3 by (auto split: if_splits prod.splits)
  qed
qed simp_all

definition isspace :: "char \<Rightarrow> bool" where
  "isspace c \<longleftrightarrow> c \<in> {CHR '' '', CHR 0x09, CHR 0x0A, CHR 0x0B, CHR 0x0C, CHR 0x0D}"

definition isdigit :: "char \<Rightarrow> bool" where
  "isdigit c \<longleftrightarrow> 48 \<le> (of_char c :: nat) \<and> (of_char c :: nat) \<le> 57"

definition digits_value :: "string \<Rightarrow> int" where
  "digits_value cs = fold (\<lambda>c v. 10 * v + (of_char c - 48)) (takeWhile isdigit cs) 0"

definition atoi :: "string \<Rightarrow> int" where
  "atoi cs = (case dropWhile isspace cs of
     [] \<Rightarrow> 0
   | c # ds \<Rightarrow> if c = CHR ''-'' then - digits_value ds else if c = CHR ''+'' then digits_value ds else digits_value (c # ds))"

text \<open>
  One line: the syllable up to the tab, at most nine characters for \<open>str\<close>, and the number after it as
  a \<open>short\<close>.
\<close>

definition parse_line :: "string \<Rightarrow> (string \<times> int) option" where
  "parse_line buf =
    (let str = takeWhile (\<lambda>c. c \<noteq> CHR 0x09) buf
     in if CHR 0x09 \<notin> set buf \<or> 9 < length str then None
        else Some (takeWhile (\<lambda>c. c \<noteq> CHR 0x00) str, s16 (atoi (drop (length str + 1) buf))))"

section \<open>Building the tree\<close>

definition letter_index :: "char \<Rightarrow> int" where
  "letter_index c = of_char c - 97"

definition root_node :: "nat \<Rightarrow> pnode" where
  "root_node i = \<lparr>pch = CHR 0x00, pstart = 0, pend = 0, pchild = None,
     pnext = (if i = 25 then None else Some (i + 1)), pparent = None\<rparr>"

definition root_array :: pnodes where
  "root_array = map root_node [0..<26]"

text \<open>The body of the loop over the letters of a syllable, and a whole entry.\<close>

definition add_letter :: "(nat \<Rightarrow> bool) \<Rightarrow> int \<Rightarrow> char \<Rightarrow> pnodes \<times> nat \<Rightarrow> (pnodes \<times> nat) option" where
  "add_letter mem start ch s =
    (case s of (ns, cur) \<Rightarrow> do {
       t \<leftarrow> scan ns (pchild (ns ! cur)) ch;
       case t of Some a \<Rightarrow> Some (ns, a)
       | None \<Rightarrow> do {
           (r, ns) \<leftarrow> InsertItem mem ch cur start ns;
           a \<leftarrow> r;
           Some (upd a (pstart_update (\<lambda>_. start)) ns, a) } })"

fun add_letters :: "(nat \<Rightarrow> bool) \<Rightarrow> int \<Rightarrow> string \<Rightarrow> pnodes \<times> nat \<Rightarrow> (pnodes \<times> nat) option" where
  "add_letters mem start [] s = Some s"
| "add_letters mem start (c # cs) s = do { s \<leftarrow> add_letter mem start c s; add_letters mem start cs s }"

definition add_entry :: "(nat \<Rightarrow> bool) \<Rightarrow> string \<Rightarrow> int \<Rightarrow> pnodes \<Rightarrow> pnodes option" where
  "add_entry mem str start ns =
    (if str = [] \<or> letter_index (hd str) < 0 \<or> 25 < letter_index (hd str) then None
     else let index = nat (letter_index (hd str));
              ns = (if pstart (ns ! index) = 0 \<and> index \<noteq> 0 then upd index (pstart_update (\<lambda>_. start)) ns else ns)
          in map_option fst (add_letters mem start (tl str) (ns, index)))"

function read_index :: "(nat \<Rightarrow> bool) \<Rightarrow> string \<Rightarrow> pnodes \<Rightarrow> pnodes option" where
  "read_index mem cs ns =
    (if cs = [] then Some ns
     else case fgets 19 cs of (buf, cs) \<Rightarrow> do {
       (str, start) \<leftarrow> parse_line buf;
       ns \<leftarrow> add_entry mem str start ns;
       read_index mem cs ns })"
  by auto
termination
proof (relation "measure (\<lambda>(mem, cs, ns). length cs)")
  fix mem :: "nat \<Rightarrow> bool" and cs buf cs' and ns ns' :: pnodes and p str start
  assume "cs \<noteq> []" "(buf, cs') = fgets 19 cs"
  then show "((mem, cs', ns'), mem, cs, ns) \<in> measure (\<lambda>(mem, cs, ns). length cs)"
    using fgets_shrinks [of 19 cs buf cs'] by simp
qed simp

declare read_index.simps [simp del]

partial_function (option) GetNextItem_loop :: "pnodes \<Rightarrow> nat option \<Rightarrow> nat \<Rightarrow> nat option option" where
  [code]: "GetNextItem_loop ns t p =
    (case t of Some a \<Rightarrow> Some (Some a)
     | None \<Rightarrow> (case pparent (ns ! p) of None \<Rightarrow> Some None
         | Some q \<Rightarrow> GetNextItem_loop ns (pnext (ns ! q)) q))"

definition GetNextItem :: "pnodes \<Rightarrow> nat \<Rightarrow> nat option option" where
  "GetNextItem ns a = GetNextItem_loop ns (pnext (ns ! a)) a"

definition set_end :: "nat \<Rightarrow> pnodes \<Rightarrow> pnodes option" where
  "set_end p ns =
    (if pend (ns ! p) \<noteq> 0 then Some ns
     else do {
       q \<leftarrow> GetNextItem ns p;
       Some (upd p (pend_update (\<lambda>_. case q of Some b \<Rightarrow> pstart (ns ! b) | None \<Rightarrow> 14668)) ns) })"

text \<open>
  \<open>BuildNode\<close> and its inner loop, told apart by the first argument: \<open>True\<close> is \<open>BuildNode(node)\<close>, \<open>False\<close>
  the loop \<open>while (p)\<close> over the children.
\<close>

partial_function (option) build :: "bool \<Rightarrow> nat option \<Rightarrow> pnodes \<Rightarrow> pnodes option" where
  [code]: "build outer node ns =
    (case node of None \<Rightarrow> Some ns
     | Some a \<Rightarrow>
         if outer then do { ns \<leftarrow> build False (pchild (ns ! a)) ns; build True (pnext (ns ! a)) ns }
         else do { ns \<leftarrow> build True (Some a) ns; ns \<leftarrow> set_end a ns; build False (pnext (ns ! a)) ns })"

definition BuildNode :: "nat option \<Rightarrow> pnodes \<Rightarrow> pnodes option" where
  "BuildNode node ns = build True node ns"

definition BuildData :: "pnodes \<Rightarrow> pnodes option" where
  "BuildData ns = BuildNode (Some 0) ns"

definition patch_root :: "nat \<Rightarrow> nat \<Rightarrow> pnodes \<Rightarrow> pnodes" where
  "patch_root a b ns = upd a (\<lambda>n. n\<lparr>pstart := pstart (ns ! b), pend := pstart (ns ! b)\<rparr>) ns"

definition root_ends :: "pnodes \<Rightarrow> pnodes" where
  "root_ends ns = upd 25 (pend_update (\<lambda>_. 14668))
     (fold (\<lambda>i ns. upd i (pend_update (\<lambda>_. pstart (ns ! (i + 1)))) ns) [0..<25] ns)"

text \<open>\<open>contents\<close> is the index file, \<open>None\<close> when it cannot be opened; the nodes are left as they were then.\<close>

definition Initialize :: "(nat \<Rightarrow> bool) \<Rightarrow> string option \<Rightarrow> pnodes \<Rightarrow> (int \<times> pnodes) option" where
  "Initialize mem contents ns =
    (case contents of None \<Rightarrow> Some (0, ns)
     | Some cs \<Rightarrow> do {
         ns \<leftarrow> read_index mem cs root_array;
         let ns = patch_root 8 9 ns;
         let ns = patch_root 20 22 ns;
         let ns = patch_root 21 22 ns;
         ns \<leftarrow> BuildData (root_ends ns);
         Some (1, ns) })"

section \<open>Searching\<close>

text \<open>The static variables, and what the caller's two variables receive when they are set.\<close>

record finder =
  current :: "nat option"
  olen :: int
  found :: "(int \<times> int) option"

text \<open>
  The walk from a root: letters \<open>i\<close>, \<open>i + 1\<close>, \<dots> of \<open>buf\<close>.  The first component is the place of the
  letter that has no node, if there is one.
\<close>

fun walk :: "pnodes \<Rightarrow> string \<Rightarrow> nat \<Rightarrow> nat \<Rightarrow> (nat option \<times> nat) option" where
  "walk ns [] i cur = Some (None, cur)"
| "walk ns (c # cs) i cur = do {
     t \<leftarrow> scan ns (pchild (ns ! cur)) c;
     case t of None \<Rightarrow> Some (Some i, cur) | Some a \<Rightarrow> walk ns cs (i + 1) a }"

definition lower :: "char \<Rightarrow> bool" where
  "lower c \<longleftrightarrow> 97 \<le> (of_char c :: nat) \<and> (of_char c :: nat) \<le> 122"

definition candidate :: "pnodes \<Rightarrow> nat \<Rightarrow> int \<Rightarrow> finder \<Rightarrow> finder" where
  "candidate ns a len f = f\<lparr>current := Some a, olen := len, found := Some (pstart (ns ! a), pend (ns ! a))\<rparr>"

definition FindCandidate :: "pnodes \<Rightarrow> string \<Rightarrow> finder \<Rightarrow> (string \<times> finder) option" where
  "FindCandidate ns buf f =
    (let len = int (length buf) in
     if \<not> list_all lower buf then Some (takeWhile lower buf, f)
     else if len > 0 then
       (case current f of
          None \<Rightarrow> do {
            (bad, a) \<leftarrow> walk ns (tl buf) 1 (nat (letter_index (hd buf)));
            case bad of Some i \<Rightarrow> Some (take i buf, f\<lparr>current := Some a\<rparr>)
            | None \<Rightarrow> Some (buf, candidate ns a len f) }
        | Some cur \<Rightarrow>
            if len > olen f then do {
              t \<leftarrow> scan ns (pchild (ns ! cur)) (buf ! nat (olen f));
              case t of None \<Rightarrow> Some (take (length buf - 1) buf, f)
              | Some a \<Rightarrow> Some (buf, candidate ns a len f) }
            else if olen f > len then do {
              a \<leftarrow> pparent (ns ! cur);
              Some (buf, candidate ns a len f) }
            else Some (buf, f))
     else Some (buf, f\<lparr>current := None\<rparr>))"

end
