(* ===== verification/Pinyin_Trie.thy ===== *)
theory Pinyin_Trie
  imports Pinyin "HOL-Library.List_Lexorder" "HOL-Library.Char_ord"
begin

text \<open>
  The shape of the pinyin tree: reading the entries of an index builds exactly the tree of their
  prefixes, linked in the order of first appearance.  \<open>ps\<close> is the list of the nodes' paths.
\<close>

section \<open>Entries with a common beginning\<close>

type_synonym index = "(string \<times> int) list"

definition has :: "index \<Rightarrow> string \<Rightarrow> bool" where
  "has ws v \<longleftrightarrow> (\<exists>e \<in> set ws. prefix v (fst e))"

definition pos :: "index \<Rightarrow> string \<Rightarrow> nat" where
  "pos ws v = length (takeWhile (\<lambda>e. \<not> prefix v (fst e)) ws)"

definition start_of :: "index \<Rightarrow> string \<Rightarrow> int" where
  "start_of ws v = (if has ws v then snd (ws ! pos ws v) else 0)"

lemma has_snoc [simp]: "has (ws @ [(u, s)]) v \<longleftrightarrow> has ws v \<or> prefix v u"
  by (auto simp: has_def)

lemma pos_less: "has ws v \<Longrightarrow> pos ws v < length ws"
proof -
  assume "has ws v"
  then have "takeWhile (\<lambda>e. \<not> prefix v (fst e)) ws \<noteq> ws" by (auto simp: has_def takeWhile_eq_all_conv)
  then show ?thesis unfolding pos_def
    by (metis length_takeWhile_le le_neq_implies_less takeWhile_eq_take take_all order_refl)
qed

lemma pos_nth: "has ws v \<Longrightarrow> prefix v (fst (ws ! pos ws v))"
  using nth_length_takeWhile [of "\<lambda>e. \<not> prefix v (fst e)" ws] pos_less [of ws v] by (simp add: pos_def)

lemma pos_le: "i < length ws \<Longrightarrow> prefix v (fst (ws ! i)) \<Longrightarrow> pos ws v \<le> i"
  unfolding pos_def by (metis (mono_tags, lifting) nth_mem not_le nth_take set_takeWhileD takeWhile_nth)

lemma pos_snoc:
  "pos (ws @ [(u, s)]) v = (if has ws v then pos ws v else if prefix v u then length ws else Suc (length ws))"
  by (auto simp: pos_def has_def takeWhile_append)

lemma start_of_snoc:
  "start_of (ws @ [(u, s)]) v = (if has ws v then start_of ws v else if prefix v u then s else 0)"
  by (auto simp: start_of_def pos_snoc nth_append pos_less)

section \<open>Links\<close>

definition letter :: "nat \<Rightarrow> char" where
  "letter i = char_of (97 + i)"

definition kids :: "string list \<Rightarrow> string \<Rightarrow> nat list" where
  "kids ps v = filter (\<lambda>a. ps ! a \<noteq> [] \<and> butlast (ps ! a) = v) [0..<length ps]"

fun linked :: "pnodes \<Rightarrow> nat option \<Rightarrow> nat list \<Rightarrow> bool" where
  "linked ns x [] \<longleftrightarrow> x = None"
| "linked ns x (a # as) \<longleftrightarrow> x = Some a \<and> linked ns (pnext (ns ! a)) as"

definition links :: "string list \<Rightarrow> pnodes \<Rightarrow> bool" where
  "links ps ns \<longleftrightarrow> length ns = length ps \<and> distinct ps \<and> 26 \<le> length ps \<and> (\<forall>i < 26. ps ! i = [letter i]) \<and>
     (\<forall>a < length ps. 26 \<le> a \<longrightarrow> (\<exists>p < a. pparent (ns ! a) = Some p \<and> ps ! a = ps ! p @ [pch (ns ! a)])) \<and>
     (\<forall>a < 26. pparent (ns ! a) = None) \<and>
     linked ns (Some 0) (kids ps []) \<and> (\<forall>a < length ps. linked ns (pchild (ns ! a)) (kids ps (ps ! a)))"

lemma linked_cong: "(\<And>a. a \<in> set as \<Longrightarrow> pnext (ns ! a) = pnext (ns' ! a)) \<Longrightarrow> linked ns x as = linked ns' x as"
  by (induction as arbitrary: x) simp_all

lemma scan_linked: "linked ns x as \<Longrightarrow> scan ns x c = Some (List.find (\<lambda>a. pch (ns ! a) = c) as)"
  by (induction as arbitrary: x) (subst scan.simps, simp)+

lemma last_sibling_linked: "linked ns (Some q) (q # as) \<Longrightarrow> last_sibling ns q = Some (last (q # as))"
proof (induction as arbitrary: q)
  case (Cons a as)
  then show ?case by (subst last_sibling.simps) simp
qed (subst last_sibling.simps, simp)

lemma linked_snoc:
  assumes "linked ns x (as @ [q])" "distinct (as @ [q])" "\<And>a. a \<in> set as \<Longrightarrow> pnext (ns' ! a) = pnext (ns ! a)"
    "pnext (ns' ! q) = Some t" "pnext (ns' ! t) = None"
  shows "linked ns' x ((as @ [q]) @ [t])"
  using assms by (induction as arbitrary: x) auto

lemma links_path:
  assumes "links ps ns" "a < length ps"
  shows "ps ! a \<noteq> []" "26 \<le> a \<Longrightarrow> 2 \<le> length (ps ! a)" "a < 26 \<Longrightarrow> ps ! a = [letter a]"
proof -
  have ne: "ps ! b \<noteq> []" if "b < length ps" for b
  proof (cases "b < 26")
    case False
    then show ?thesis using assms(1) that unfolding links_def by force
  qed (use assms(1) in \<open>simp add: links_def\<close>)
  then show "ps ! a \<noteq> []" using assms(2) .
  show "a < 26 \<Longrightarrow> ps ! a = [letter a]" using assms(1) by (simp add: links_def)
  assume "26 \<le> a"
  then obtain p where "p < a" "ps ! a = ps ! p @ [pch (ns ! a)]" using assms unfolding links_def by blast
  then show "2 \<le> length (ps ! a)" using ne [of p] assms(2) by (cases "ps ! p") auto
qed

lemma kids_mem: "a \<in> set (kids ps v) \<longleftrightarrow> a < length ps \<and> ps ! a \<noteq> [] \<and> butlast (ps ! a) = v"
  by (auto simp: kids_def)

lemma kids_child:
  assumes "links ps ns" "a \<in> set (kids ps v)" "v \<noteq> []"
  shows "26 \<le> a \<and> ps ! a = v @ [pch (ns ! a)]"
proof -
  have a: "a < length ps" "ps ! a \<noteq> []" "butlast (ps ! a) = v" using assms(2) by (simp_all add: kids_mem)
  have "26 \<le> a" using links_path(3) [OF assms(1) a(1)] a(3) assms(3) by (cases "a < 26") auto
  then show ?thesis using assms(1) a unfolding links_def by force
qed

lemma kids_append:
  "w \<noteq> [] \<Longrightarrow> kids (ps @ [w]) v = kids ps v @ (if butlast w = v then [length ps] else [])"
proof -
  assume w: "w \<noteq> []"
  have "filter (\<lambda>a. (ps @ [w]) ! a \<noteq> [] \<and> butlast ((ps @ [w]) ! a) = v) [0..<length ps] = kids ps v"
    unfolding kids_def by (intro filter_cong) (auto simp: nth_append)
  then show ?thesis using w by (simp add: kids_def)
qed

lemma kids_roots:
  assumes "links ps ns"
  shows "kids ps [] = [0..<26]"
proof -
  have "ps ! a \<noteq> [] \<and> butlast (ps ! a) = [] \<longleftrightarrow> a < 26" if "a < length ps" for a
    using links_path [OF assms that] by (cases "a < 26") (auto simp: butlast_conv_take)
  then have "kids ps [] = filter (\<lambda>a. a < 26) [0..<length ps]"
    unfolding kids_def by (intro filter_cong) auto
  moreover have "[0..<length ps] = [0..<26] @ [26..<length ps]"
    using assms upt_add_eq_append [of 0 26 "length ps - 26"] by (simp add: links_def)
  ultimately show ?thesis by (simp add: filter_empty_conv)
qed

lemma find_kid:
  assumes "links ps ns" "v \<noteq> []"
  shows "case List.find (\<lambda>a. pch (ns ! a) = c) (kids ps v) of
    Some a \<Rightarrow> a < length ps \<and> ps ! a = v @ [c] | None \<Rightarrow> v @ [c] \<notin> set ps"
proof (cases "List.find (\<lambda>a. pch (ns ! a) = c) (kids ps v)")
  case None
  have "v @ [c] \<notin> set ps"
  proof
    assume "v @ [c] \<in> set ps"
    then obtain a where a: "a < length ps" "ps ! a = v @ [c]" by (auto simp: in_set_conv_nth)
    then have k: "a \<in> set (kids ps v)" by (simp add: kids_mem)
    then show False using None kids_child [OF assms(1) k assms(2)] a(2) by (auto simp: find_None_iff)
  qed
  then show ?thesis by (simp add: None)
next
  case (Some a)
  then have a: "a \<in> set (kids ps v)" "pch (ns ! a) = c" by (auto simp: find_Some_iff)
  then have "ps ! a = v @ [c]" using kids_child [OF assms(1) a(1) assms(2)] by simp
  then show ?thesis using a(1) unfolding kids_mem by (simp add: Some)
qed

section \<open>A new node\<close>

definition leaf :: "char \<Rightarrow> nat \<Rightarrow> pnode" where
  "leaf c p = \<lparr>pch = c, pstart = 0, pend = 0, pchild = None, pnext = None, pparent = Some p\<rparr>"

text \<open>What an insertion changes: \<open>q\<close> is the last sibling so far, if there is one.\<close>

definition inserted :: "char \<Rightarrow> nat \<Rightarrow> int \<Rightarrow> nat option \<Rightarrow> pnodes \<Rightarrow> pnodes" where
  "inserted c p val q ns =
    (case q of None \<Rightarrow> upd p (pchild_update (\<lambda>_. Some (length ns))) (ns @ [leaf c p])
     | Some q \<Rightarrow> upd q (\<lambda>n. n\<lparr>pnext := Some (length ns), pend := val\<rparr>) (ns @ [leaf c p]))"

lemma InsertItem_inserted:
  assumes l: "links ps ns" and p: "p < length ps" and mem: "mem (length ns)"
  shows "InsertItem mem c p val ns = Some (Some (length ns),
    inserted c p val (if kids ps (ps ! p) = [] then None else Some (last (kids ps (ps ! p)))) ns)"
proof -
  have len: "length ns = length ps" and k: "linked ns (pchild (ns ! p)) (kids ps (ps ! p))"
    using l p by (simp_all add: links_def)
  show ?thesis
  proof (cases "kids ps (ps ! p)")
    case Nil
    then show ?thesis using k mem len p by (simp add: InsertItem_def inserted_def leaf_def nth_append Let_def)
  next
    case (Cons q as)
    let ?ns = "ns @ [leaf c p]"
    have "a < length ns" if "a \<in> set (q # as)" for a
      using that len unfolding Cons [symmetric] by (simp add: kids_mem)
    then have "linked ?ns (Some q) (q # as)"
      using k linked_cong [of "q # as" ns ?ns "Some q"] by (simp add: Cons nth_append)
    from last_sibling_linked [OF this] show ?thesis
      using k mem len p unfolding Cons by (simp add: InsertItem_def inserted_def leaf_def nth_append Let_def)
  qed
qed

lemma upd_simps [simp]:
  "length (upd a f ns) = length ns" "a < length ns \<Longrightarrow> upd a f ns ! b = (if b = a then f (ns ! a) else ns ! b)"
  by (auto simp: upd_def nth_list_update)

lemma links_upd:
  assumes a: "a < length ns" and "links ps ns" "\<And>n. pch (f n) = pch n \<and> pchild (f n) = pchild n \<and> pnext (f n) = pnext n \<and> pparent (f n) = pparent n"
  shows "links ps (upd a f ns)"
proof -
  have f: "pch (upd a f ns ! b) = pch (ns ! b)" "pchild (upd a f ns ! b) = pchild (ns ! b)"
    "pnext (upd a f ns ! b) = pnext (ns ! b)" "pparent (upd a f ns ! b) = pparent (ns ! b)" for b
    using assms(3) a by simp_all
  then have "linked (upd a f ns) x as = linked ns x as" for x as by (intro linked_cong) simp
  with f assms(2) show ?thesis by (simp add: links_def)
qed

lemma kids_distinct: "distinct (kids ps v)"
  by (simp add: kids_def)

text \<open>The nodes after an insertion, field by field.\<close>

lemma inserted_fields:
  assumes "p < length ns" "\<And>q. qo = Some q \<Longrightarrow> q < length ns"
  shows "length (inserted c p val qo ns) = Suc (length ns)"
    "a < length ns \<Longrightarrow> pch (inserted c p val qo ns ! a) = pch (ns ! a)"
    "a < length ns \<Longrightarrow> pparent (inserted c p val qo ns ! a) = pparent (ns ! a)"
    "a < length ns \<Longrightarrow> pstart (inserted c p val qo ns ! a) = pstart (ns ! a)"
    "a < length ns \<Longrightarrow> pchild (inserted c p val qo ns ! a) = (if qo = None \<and> a = p then Some (length ns) else pchild (ns ! a))"
    "a < length ns \<Longrightarrow> pnext (inserted c p val qo ns ! a) = (if qo = Some a then Some (length ns) else pnext (ns ! a))"
    "a < length ns \<Longrightarrow> pend (inserted c p val qo ns ! a) = (if qo = Some a then val else pend (ns ! a))"
    "inserted c p val qo ns ! length ns = leaf c p"
  using assms by (auto simp: inserted_def nth_append split: option.split)

lemma links_inserted:
  assumes l: "links ps ns" and p: "p < length ps" and new: "ps ! p @ [c] \<notin> set ps"
  defines "q \<equiv> (if kids ps (ps ! p) = [] then None else Some (last (kids ps (ps ! p))))"
  shows "links (ps @ [ps ! p @ [c]]) (inserted c p val q ns)"
proof -
  let ?ps = "ps @ [ps ! p @ [c]]" and ?ns = "inserted c p val q ns"
  have len: "length ns = length ps" and dist: "distinct ps" and ge: "26 \<le> length ps" using l by (simp_all add: links_def)
  have q: "q' \<in> set (kids ps (ps ! p)) \<and> q' < length ns" if "q = Some q'" for q'
    using that len last_in_set [of "kids ps (ps ! p)"] by (auto simp: q_def kids_mem split: if_splits)
  have pn: "p < length ns" using p len by simp
  have qn: "\<And>q'. q = Some q' \<Longrightarrow> q' < length ns" using q by blast
  note f = inserted_fields [where c = c and val = val and qo = q, OF pn qn]
  have vne: "ps ! p \<noteq> []" by (rule links_path(1) [OF l p])
  have k: "kids ?ps v = kids ps v @ (if v = ps ! p then [length ps] else [])" for v
    by (simp add: kids_append)
  have other: "linked ?ns x (kids ps v) = linked ns x (kids ps v)" if "v \<noteq> ps ! p" for v x
  proof (rule linked_cong)
    fix a
    assume a: "a \<in> set (kids ps v)"
    then have "q \<noteq> Some a" using q that by (auto simp: kids_mem)
    moreover have "a < length ns" using a len by (simp add: kids_mem)
    ultimately show "pnext (?ns ! a) = pnext (ns ! a)" using f(6) by simp
  qed
  have own: "linked ?ns (pchild (?ns ! p)) (kids ps (ps ! p) @ [length ps])"
  proof (cases "kids ps (ps ! p) = []")
    case True
    then show ?thesis using f(5,8) pn len by (simp add: q_def leaf_def)
  next
    case False
    define z where "z = last (kids ps (ps ! p))"
    define as where "as = butlast (kids ps (ps ! p))"
    have zs: "kids ps (ps ! p) = as @ [z]" using False by (simp add: z_def as_def)
    have qz: "q = Some z" using False by (simp add: q_def z_def)
    have dz: "distinct (as @ [z])" using kids_distinct [of ps "ps ! p"] by (simp add: zs)
    have "linked ns (pchild (ns ! p)) (as @ [z])" using l p by (simp add: links_def zs [symmetric])
    moreover have "pnext (?ns ! a) = pnext (ns ! a)" if "a \<in> set as" for a
    proof -
      have "a \<in> set (kids ps (ps ! p))" using that by (simp add: zs)
      then have "a < length ns" using len by (simp add: kids_mem)
      then show ?thesis using that dz f(6) by (auto simp: qz)
    qed
    moreover have "pnext (?ns ! z) = Some (length ps)" using f(6) qn [OF qz] len by (simp add: qz)
    moreover have "pnext (?ns ! length ps) = None" using f(8) len by (simp add: leaf_def)
    ultimately have "linked ?ns (pchild (ns ! p)) ((as @ [z]) @ [length ps])" using dz by (intro linked_snoc) simp_all
    then show ?thesis using f(5) pn by (simp add: zs qz)
  qed
  have ch: "linked ?ns (pchild (?ns ! a)) (kids ?ps (?ps ! a))" if a: "a < length ?ps" for a
  proof (cases "a = length ps")
    case True
    have "kids ps (ps ! p @ [c]) = []"
    proof (rule ccontr)
      assume "kids ps (ps ! p @ [c]) \<noteq> []"
      then obtain b where b: "b \<in> set (kids ps (ps ! p @ [c]))" by (meson hd_in_set)
      then have b2: "26 \<le> b" "b < length ps" "ps ! b = (ps ! p @ [c]) @ [pch (ns ! b)]"
        using kids_child [OF l b] by (simp_all add: kids_mem)
      then obtain r where "r < b" "ps ! b = ps ! r @ [pch (ns ! b)]" using l unfolding links_def by blast
      then have "ps ! r = ps ! p @ [c]" "r < length ps" using b2 by simp_all
      then show False using new nth_mem [of r ps] by simp
    qed
    then show ?thesis using f(8) len True by (simp add: k leaf_def nth_append)
  next
    case False
    then have a': "a < length ps" using a by simp
    show ?thesis
    proof (cases "a = p")
      case True
      then show ?thesis using own p by (simp add: k nth_append)
    next
      case ne: False
      then have "ps ! a \<noteq> ps ! p" using nth_eq_iff_index_eq [OF dist a' p] by simp
      then show ?thesis
        using l a' ne other [of "ps ! a"] f(5) len by (simp add: k nth_append links_def)
    qed
  qed
  have par: "\<exists>r < a. pparent (?ns ! a) = Some r \<and> ?ps ! a = ?ps ! r @ [pch (?ns ! a)]" if "a < length ?ps" "26 \<le> a" for a
  proof (cases "a = length ps")
    case True
    then show ?thesis using f(8) p len by (intro exI [of _ p]) (simp add: leaf_def nth_append)
  next
    case False
    then have a': "a < length ps" "26 \<le> a" using that by simp_all
    then obtain r where "r < a" "pparent (ns ! a) = Some r" "ps ! a = ps ! r @ [pch (ns ! a)]"
      using l unfolding links_def by blast
    then show ?thesis using a' f(2,3) len by (intro exI [of _ r]) (simp add: nth_append)
  qed
  have root: "linked ?ns (Some 0) (kids ?ps [])"
    using l other [of "[]" "Some 0"] vne by (simp add: k links_def)
  show ?thesis
    unfolding links_def
    using l f(1,3) len dist new ge root ch par by (auto simp: links_def nth_append)
qed

section \<open>The tree of the entries read so far\<close>

definition path_of :: "index \<Rightarrow> string \<Rightarrow> bool" where
  "path_of ws v \<longleftrightarrow> (\<exists>i < 26. v = [letter i]) \<or> 2 \<le> length v \<and> has ws v"

definition tree :: "index \<Rightarrow> string list \<Rightarrow> pnodes \<Rightarrow> bool" where
  "tree ws ps ns \<longleftrightarrow> links ps ns \<and> set ps = {v. path_of ws v} \<and>
     (\<forall>a < length ps. pstart (ns ! a) = start_of ws (ps ! a)) \<and>
     (\<forall>a b. 26 \<le> a \<longrightarrow> a < b \<longrightarrow> b < length ps \<longrightarrow> butlast (ps ! a) = butlast (ps ! b) \<longrightarrow>
        pos ws (ps ! a) < pos ws (ps ! b)) \<and>
     (\<forall>a < length ps. 26 \<le> a \<longrightarrow> pend (ns ! a) = 0 \<or>
        (\<exists>b < length ps. 26 \<le> b \<and> pnext (ns ! a) = Some b \<and> pend (ns ! a) = pstart (ns ! b)))"

lemma tree_has:
  assumes "tree ws ps ns" "a < length ps" "26 \<le> a"
  shows "has ws (ps ! a)"
proof -
  have l: "links ps ns" and m: "set ps = {v. path_of ws v}" using assms(1) by (simp_all add: tree_def)
  have "path_of ws (ps ! a)" using nth_mem [OF assms(2)] unfolding m by simp
  moreover have "2 \<le> length (ps ! a)" by (rule links_path(2) [OF l assms(2,3)])
  ultimately show ?thesis by (auto simp: path_of_def)
qed

text \<open>The last entry may be lengthened to another beginning of its syllable that has a node.\<close>

lemma tree_lengthen:
  assumes t: "tree (ws @ [(v, s)]) ps ns" and m: "v @ [c] \<in> set ps" and v: "v \<noteq> []"
  shows "tree (ws @ [(v @ [c], s)]) ps ns"
proof -
  have "2 \<le> length (v @ [c])" using v by (cases v) auto
  then have "has (ws @ [(v, s)]) (v @ [c])" using t m by (auto simp: tree_def path_of_def)
  then have h: "has ws (v @ [c])" by (auto dest: prefix_length_le)
  have eq: "has (ws @ [(v @ [c], s)]) x = has (ws @ [(v, s)]) x" "pos (ws @ [(v @ [c], s)]) x = pos (ws @ [(v, s)]) x"
    "start_of (ws @ [(v @ [c], s)]) x = start_of (ws @ [(v, s)]) x" for x
    using h by (auto simp: pos_snoc start_of_snoc)
  then have "path_of (ws @ [(v @ [c], s)]) = path_of (ws @ [(v, s)])" by (simp add: path_of_def fun_eq_iff del: has_snoc)
  with t show ?thesis by (simp add: tree_def eq)
qed

lemma tree_new_leaf:
  assumes t: "tree (ws @ [(v, s)]) ps ns" and p: "p < length ps" "ps ! p = v" and new: "v @ [c] \<notin> set ps" and v: "v \<noteq> []"
  defines "q \<equiv> (if kids ps v = [] then None else Some (last (kids ps v)))"
  shows "tree (ws @ [(v @ [c], s)]) (ps @ [v @ [c]]) (upd (length ns) (pstart_update (\<lambda>_. s)) (inserted c p s q ns))"
proof -
  let ?ps = "ps @ [v @ [c]]" and ?ws = "ws @ [(v @ [c], s)]" and ?wo = "ws @ [(v, s)]"
  define ms where "ms = inserted c p s q ns"
  let ?ns = "upd (length ns) (pstart_update (\<lambda>_. s)) ms"
  have l: "links ps ns" using t by (simp add: tree_def)
  have len: "length ns = length ps" "26 \<le> length ps" using l by (simp_all add: links_def)
  have two: "2 \<le> length (v @ [c])" using v by (cases v) auto
  have nh: "\<not> has ws (v @ [c])"
  proof
    assume "has ws (v @ [c])"
    then have "path_of ?wo (v @ [c])" using two by (simp add: path_of_def)
    then show False using new t by (simp add: tree_def)
  qed
  have l': "links ?ps ms" using links_inserted [OF l p(1), of c s] new unfolding p(2) q_def ms_def by simp
  have qk: "q' \<in> set (kids ps v)" if "q = Some q'" for q'
    using that last_in_set [of "kids ps v"] by (auto simp: q_def split: if_splits)
  then have qn: "\<And>q'. q = Some q' \<Longrightarrow> q' < length ns" using len by (auto simp: kids_mem)
  have pn: "p < length ns" using p len by simp
  note f = inserted_fields [where c = c and val = s and qo = q, OF pn qn, folded ms_def]
  have links: "links ?ps ?ns" using f(1) by (intro links_upd) (simp_all add: l')
  have eq: "pos ?ws x = pos ?wo x" "start_of ?ws x = start_of ?wo x" if "x \<noteq> v @ [c]" for x
    using that by (auto simp: pos_snoc start_of_snoc)
  have paths: "set ?ps = {x. path_of ?ws x}"
  proof -
    have "path_of ?ws x \<longleftrightarrow> path_of ?wo x \<or> x = v @ [c]" for x
      by (cases "x = v @ [c]") (use two in \<open>simp_all add: path_of_def\<close>)
    moreover have "set ps = {x. path_of ?wo x}" using t by (simp only: tree_def)
    ultimately show ?thesis by auto
  qed
  have old: "?ps ! a = ps ! a" "ps ! a \<noteq> v @ [c]" if "a < length ps" for a
  proof -
    show "?ps ! a = ps ! a" using that by (simp add: nth_append)
    show "ps ! a \<noteq> v @ [c]" using new nth_mem [OF that] by metis
  qed
  have starts: "pstart (?ns ! a) = start_of ?ws (?ps ! a)" if "a < length ?ps" for a
  proof (cases "a = length ps")
    case True
    then show ?thesis using f(1,8) len nh by (simp add: start_of_snoc nth_append)
  next
    case False
    then have a: "a < length ps" using that by simp
    then show ?thesis using t f(1,4) len old [OF a] eq(2) False by (simp add: tree_def)
  qed
  have order: "pos ?ws (?ps ! a) < pos ?ws (?ps ! b)"
    if a: "26 \<le> a" "a < b" "b < length ?ps" "butlast (?ps ! a) = butlast (?ps ! b)" for a b
  proof (cases "b = length ps")
    case True
    then have la: "a < length ps" using a by simp
    have "has ?wo (ps ! a)" by (rule tree_has [OF t la a(1)])
    moreover have "length (ps ! a) = Suc (length v)"
      using a(4) True old(1) [OF la] links_path(1) [OF l la] by (metis butlast_snoc length_append_singleton nth_append_length append_butlast_last_id)
    ultimately have "has ws (ps ! a)" by (auto dest: prefix_length_le)
    then have "pos ?ws (ps ! a) < length ws" by (simp add: pos_snoc pos_less)
    then show ?thesis using True old(1) [OF la] nh by (simp add: pos_snoc)
  next
    case False
    then have lb: "b < length ps" "a < length ps" using a by simp_all
    then show ?thesis using t a old [OF lb(1)] old [OF lb(2)] eq(1) by (simp add: tree_def)
  qed
  have ends: "pend (?ns ! a) = 0 \<or> (\<exists>b < length ?ps. 26 \<le> b \<and> pnext (?ns ! a) = Some b \<and> pend (?ns ! a) = pstart (?ns ! b))"
    if "a < length ?ps" "26 \<le> a" for a
  proof (cases "a = length ps")
    case True
    then show ?thesis using f(1,8) len by (simp add: leaf_def)
  next
    case False
    then have a: "a < length ps" using that by simp
    show ?thesis
    proof (cases "q = Some a")
      case True
      then show ?thesis using f(1,6,7,8) len a by (simp add: leaf_def)
    next
      case ne: False
      have "pend (?ns ! a) = pend (ns ! a)" "pnext (?ns ! a) = pnext (ns ! a)"
        using f(1,6,7) len a ne False by simp_all
      moreover have "pstart (?ns ! b) = pstart (ns ! b)" if "b < length ps" for b
        using f(1,4) len that by simp
      moreover have "pend (ns ! a) = 0 \<or> (\<exists>b < length ps. 26 \<le> b \<and> pnext (ns ! a) = Some b \<and> pend (ns ! a) = pstart (ns ! b))"
        using t a that(2) by (simp add: tree_def)
      ultimately show ?thesis by (auto intro: less_SucI)
    qed
  qed
  show ?thesis unfolding tree_def ms_def [symmetric] using links paths starts order ends by simp
qed

section \<open>Reading entries\<close>

lemma add_letter_tree:
  assumes t: "tree (ws @ [(v, s)]) ps ns" and a: "a < length ps" "ps ! a = v" and v: "v \<noteq> []" and mem: "\<And>n. mem n"
  shows "\<exists>ns' b ps'. add_letter mem s c (ns, a) = Some (ns', b) \<and> tree (ws @ [(v @ [c], s)]) ps' ns' \<and>
    b < length ps' \<and> ps' ! b = v @ [c]"
proof -
  have l: "links ps ns" using t by (simp add: tree_def)
  have len: "length ns = length ps" using l by (simp add: links_def)
  have "linked ns (pchild (ns ! a)) (kids ps v)" using l a by (auto simp: links_def)
  from scan_linked [OF this] have sc: "scan ns (pchild (ns ! a)) c = Some (List.find (\<lambda>a. pch (ns ! a) = c) (kids ps v))" .
  show ?thesis
  proof (cases "List.find (\<lambda>a. pch (ns ! a) = c) (kids ps v)")
    case (Some b)
    then have b: "b < length ps" "ps ! b = v @ [c]" using find_kid [OF l v, of c] by simp_all
    then have "tree (ws @ [(v @ [c], s)]) ps ns" using tree_lengthen [OF t _ v, of c] nth_mem [OF b(1)] by simp
    moreover have "add_letter mem s c (ns, a) = Some (ns, b)" using sc Some by (simp add: add_letter_def)
    ultimately show ?thesis using b by blast
  next
    case None
    then have new: "v @ [c] \<notin> set ps" using find_kid [OF l v, of c] by simp
    have "InsertItem mem c a s ns = Some (Some (length ns),
        inserted c a s (if kids ps v = [] then None else Some (last (kids ps v))) ns)"
      using InsertItem_inserted [where mem = mem and c = c and val = s, OF l a(1) mem] a(2) by simp
    then have "add_letter mem s c (ns, a) = Some (upd (length ns) (pstart_update (\<lambda>_. s))
        (inserted c a s (if kids ps v = [] then None else Some (last (kids ps v))) ns), length ps)"
      using sc None len by (simp add: add_letter_def)
    moreover have "length ps < length (ps @ [v @ [c]])" "(ps @ [v @ [c]]) ! length ps = v @ [c]" by simp_all
    ultimately show ?thesis using tree_new_leaf [OF t a new v] by blast
  qed
qed

lemma add_letters_tree:
  assumes "tree (ws @ [(v, s)]) ps ns" "a < length ps" "ps ! a = v" "v \<noteq> []" "\<And>n. mem n"
  shows "\<exists>ns' b ps'. add_letters mem s cs (ns, a) = Some (ns', b) \<and> tree (ws @ [(v @ cs, s)]) ps' ns'"
  using assms
proof (induction cs arbitrary: v ps ns a)
  case (Cons c cs)
  obtain ns1 b ps1 where 1: "add_letter mem s c (ns, a) = Some (ns1, b)" "tree (ws @ [(v @ [c], s)]) ps1 ns1"
    "b < length ps1" "ps1 ! b = v @ [c]"
    using add_letter_tree [where mem = mem and c = c, OF Cons.prems(1-4)] Cons.prems(5) by blast
  obtain ns2 d ps2 where "add_letters mem s cs (ns1, b) = Some (ns2, d)" "tree (ws @ [((v @ [c]) @ cs, s)]) ps2 ns2"
    using Cons.IH [OF 1(2-4) _ Cons.prems(5)] by blast
  then show ?case using 1(1) by auto
qed auto

text \<open>
  The entries an index may have: syllables of lower-case letters, at most nine, and an offset that is 0
  only for the letter \<open>a\<close> and only when it is that letter's first.
\<close>

definition entry_ok :: "index \<Rightarrow> string \<times> int \<Rightarrow> bool" where
  "entry_ok ws e \<longleftrightarrow> fst e \<noteq> [] \<and> list_all lower (fst e) \<and> length (fst e) \<le> 9 \<and> 0 \<le> snd e \<and> snd e < 14668 \<and>
     (if hd (fst e) = CHR ''a'' then has ws ''a'' \<or> snd e = 0 else snd e \<noteq> 0)"

fun entries_ok :: "index \<Rightarrow> index \<Rightarrow> bool" where
  "entries_ok ws [] = True"
| "entries_ok ws (e # es) \<longleftrightarrow> entry_ok ws e \<and> entries_ok (ws @ [e]) es"

definition roots_ok :: "index \<Rightarrow> bool" where
  "roots_ok ws \<longleftrightarrow> start_of ws ''a'' = 0 \<and> (\<forall>e \<in> set ws. hd (fst e) \<noteq> CHR ''a'' \<longrightarrow> snd e \<noteq> 0)"

lemma letter_lower: "lower c \<Longrightarrow> \<exists>i < 26. c = letter i \<and> letter_index c = int i"
proof -
  assume c: "lower c"
  define i where "i = (of_char c :: nat) - 97"
  have n: "(of_char c :: nat) = 97 + i" "i < 26" using c by (auto simp: i_def lower_def)
  have "letter i = char_of (of_char c :: nat)" by (simp add: letter_def n(1))
  then have "letter i = c" by (simp only: char_of_char)
  moreover have "(of_char c :: int) = int (of_char c :: nat)" by (rule of_nat_of_char [symmetric])
  then have "letter_index c = int i" unfolding letter_index_def n(1) by simp
  ultimately show ?thesis using n(2) by auto
qed

lemma letter_inj: "i < 26 \<Longrightarrow> j < 26 \<Longrightarrow> letter i = letter j \<longleftrightarrow> i = j"
proof -
  assume ij: "i < 26" "j < 26"
  have "(of_char (letter k) :: nat) = 97 + k" if "k < 26" for k
    using that by (simp add: letter_def)
  with ij show ?thesis by (metis add_left_cancel)
qed

lemma letter_0: "letter 0 = CHR ''a''"
  by code_simp

lemma prefix_letter: "u \<noteq> [] \<Longrightarrow> prefix [c] u \<longleftrightarrow> hd u = c"
  by (cases u) auto

lemma add_entry_tree:
  assumes t: "tree ws ps ns" and e: "entry_ok ws (u, s)" and r: "roots_ok ws" and mem: "\<And>n. mem n"
  shows "\<exists>ns' ps'. add_entry mem u s ns = Some ns' \<and> tree (ws @ [(u, s)]) ps' ns' \<and> roots_ok (ws @ [(u, s)])"
proof -
  have u: "u \<noteq> []" "lower (hd u)" using e by (auto simp: entry_ok_def list_all_iff)
  obtain i where i: "i < 26" "hd u = letter i" "letter_index (hd u) = int i" using letter_lower [OF u(2)] by blast
  have l: "links ps ns" using t by (simp add: tree_def)
  have len: "length ns = length ps" "26 \<le> length ps" using l by (simp_all add: links_def)
  have p: "ps ! i = [letter i]" using links_path(3) [OF l, of i] i(1) len by simp
  have st: "pstart (ns ! i) = start_of ws [letter i]" using t i(1) len p by (simp add: tree_def)
  have zero: "i = 0 \<longleftrightarrow> hd u = CHR ''a''" using i letter_inj [of i 0] letter_0 by auto
  have nz: "start_of ws [letter i] \<noteq> 0" if "has ws [letter i]" "i \<noteq> 0"
  proof -
    have "ws ! pos ws [letter i] \<in> set ws" by (rule nth_mem [OF pos_less [OF that(1)]])
    moreover have "prefix [letter i] (fst (ws ! pos ws [letter i]))" by (rule pos_nth [OF that(1)])
    moreover have "letter i \<noteq> CHR ''a''" using zero that(2) i(2) by simp
    ultimately show ?thesis using r that(1) by (cases "fst (ws ! pos ws [letter i])") (auto simp: roots_ok_def start_of_def)
  qed
  define ns1 where "ns1 = (if pstart (ns ! i) = 0 \<and> i \<noteq> 0 then upd i (pstart_update (\<lambda>_. s)) ns else ns)"
  let ?ws = "ws @ [([letter i], s)]"
  have l1: "links ps ns1" using l links_upd [of i ns ps "pstart_update (\<lambda>_. s)"] len i(1) by (simp add: ns1_def)
  have f: "pend (ns1 ! a) = pend (ns ! a)" "pnext (ns1 ! a) = pnext (ns ! a)" "a \<noteq> i \<Longrightarrow> pstart (ns1 ! a) = pstart (ns ! a)" for a
    using i(1) len by (simp_all add: ns1_def)
  have root_start: "pstart (ns1 ! i) = start_of ?ws [letter i]"
  proof (cases "i = 0")
    case True
    have "has ws [letter 0] \<or> s = 0" using e zero True by (simp add: entry_ok_def letter_0)
    moreover have "start_of ws [letter 0] = 0" using r by (simp add: roots_ok_def letter_0)
    ultimately show ?thesis using st True by (auto simp: ns1_def start_of_snoc)
  next
    case False
    then show ?thesis
      using st nz i(1) len by (cases "has ws [letter i]") (auto simp: ns1_def start_of_snoc, simp_all add: start_of_def)
  qed
  have eq: "has ?ws x = has ws x" "pos ?ws x = (if has ws x then pos ws x else Suc (length ws))" "start_of ?ws x = start_of ws x"
    if "x \<noteq> [letter i]" "x \<noteq> []" for x
    using that by (auto simp: pos_snoc start_of_snoc prefix_Cons) (auto simp: start_of_def)
  have t1: "tree ?ws ps ns1"
  proof -
    have ne: "ps ! a \<noteq> [letter i]" "ps ! a \<noteq> []" if "a < length ps" "a \<noteq> i" for a
      using that l p i(1) len nth_eq_iff_index_eq [of ps a i] links_path(1) [OF l that(1)] by (auto simp: links_def)
    have "path_of ?ws = path_of ws"
      using i(1) by (auto simp: path_of_def fun_eq_iff prefix_Cons)
    moreover have "pstart (ns1 ! a) = start_of ?ws (ps ! a)" if "a < length ps" for a
      using root_start f(3) eq(3) [OF ne [OF that]] t that p by (cases "a = i") (simp_all add: tree_def)
    moreover have "pos ?ws (ps ! a) < pos ?ws (ps ! b)"
      if "26 \<le> a" "a < b" "b < length ps" "butlast (ps ! a) = butlast (ps ! b)" for a b
      using that t tree_has [OF t, of a] tree_has [OF t, of b] by (simp add: pos_snoc tree_def)
    moreover have "pend (ns1 ! a) = 0 \<or> (\<exists>b < length ps. 26 \<le> b \<and> pnext (ns1 ! a) = Some b \<and> pend (ns1 ! a) = pstart (ns1 ! b))"
      if a: "a < length ps" "26 \<le> a" for a
    proof -
      consider "pend (ns ! a) = 0" | b where "b < length ps" "26 \<le> b" "pnext (ns ! a) = Some b" "pend (ns ! a) = pstart (ns ! b)"
        using t a by (auto simp: tree_def)
      then show ?thesis
      proof cases
        case 2
        then have "b \<noteq> i" using i(1) by auto
        then show ?thesis using 2 f by auto
      qed (simp add: f)
    qed
    ultimately show ?thesis using l1 t by (simp add: tree_def)
  qed
  have "ps ! i = [letter i]" "i < length ps" using p i(1) len by simp_all
  then obtain ns2 b ps2 where 2: "add_letters mem s (tl u) (ns1, i) = Some (ns2, b)" "tree (ws @ [([letter i] @ tl u, s)]) ps2 ns2"
    using add_letters_tree [where mem = mem and cs = "tl u", OF t1 _ _ _ mem] by blast
  have hu: "[letter i] @ tl u = u" using u(1) i(2) by (cases u) auto
  have "add_entry mem u s ns = Some ns2"
    using 2(1) u(1) i(1,3) unfolding add_entry_def Let_def by (auto simp: ns1_def split: if_splits)
  moreover have "roots_ok (ws @ [(u, s)])"
    using r e prefix_letter [OF u(1), of "CHR ''a''"] by (auto simp: roots_ok_def entry_ok_def start_of_snoc split: if_splits)
  ultimately show ?thesis using 2(2) unfolding hu by blast
qed

section \<open>The index file\<close>

definition tab :: char where "tab = CHR 0x09"
definition newline :: char where "newline = CHR 0x0A"

text \<open>The decimal digits of an offset.\<close>

fun digits :: "nat \<Rightarrow> string" where
  "digits n = (if n < 10 then [char_of (n + 48)] else digits (n div 10) @ [char_of (n mod 10 + 48)])"

declare digits.simps [simp del]

definition render :: "index \<Rightarrow> string" where
  "render ws = concat (map (\<lambda>(u, s). u @ tab # digits (nat s) @ [newline]) ws)"

lemma of_char_digit: "d < 10 \<Longrightarrow> (of_char (char_of (d + 48) :: char) :: nat) = d + 48"
  by simp

lemma digits_isdigit: "c \<in> set (digits n) \<Longrightarrow> isdigit c"
proof (induction n rule: digits.induct)
  case (1 n)
  show ?case
  proof (cases "n < 10")
    case True
    then show ?thesis using "1.prems" by (subst (asm) digits.simps) (simp add: isdigit_def)
  next
    case False
    then show ?thesis using 1 by (subst (asm) (2) digits.simps) (auto simp: isdigit_def)
  qed
qed

lemma digits_fold: "fold (\<lambda>c v. 10 * v + (of_char c - 48)) (digits n) 0 = int n"
proof (induction n rule: digits.induct)
  case (1 n)
  have d: "(of_char (char_of (d + 48) :: char) :: int) = int d + 48" if "d < 10" for d
    using of_char_digit [OF that] of_nat_of_char [of "char_of (d + 48) :: char", where 'a = int] by simp
  show ?case
  proof (cases "n < 10")
    case False
    then have "fold (\<lambda>c v. 10 * v + (of_char c - 48)) (digits (n div 10)) 0 = int (n div 10)" using 1 by simp
    then show ?thesis using False d [of "n mod 10"] by (subst digits.simps) (simp add: zdiv_int zmod_int)
  qed (use d in \<open>subst digits.simps, simp\<close>)
qed

lemma digits_not_space: "isdigit c \<Longrightarrow> \<not> isspace c \<and> c \<noteq> CHR ''-'' \<and> c \<noteq> CHR ''+'' \<and> c \<noteq> CHR 0x0A \<and> c \<noteq> CHR 0x09"
  by (auto simp: isdigit_def isspace_def)

lemma digits_ne: "digits n \<noteq> []"
  by (subst digits.simps) simp

lemma atoi_digits: "atoi (digits n @ [newline]) = int n"
proof -
  obtain c ds where cd: "digits n = c # ds" using digits_ne by (cases "digits n") auto
  have all: "\<forall>c \<in> set (digits n). isdigit c" using digits_isdigit by blast
  have nl: "\<not> isdigit newline" by (simp add: isdigit_def newline_def)
  have "takeWhile isdigit (digits n @ [newline]) = digits n"
    using all nl by (simp add: takeWhile_append2)
  then have "digits_value (digits n @ [newline]) = int n" by (simp add: digits_value_def digits_fold)
  then show ?thesis using all digits_not_space [of c] by (simp add: atoi_def cd)
qed

lemma digits_length: "n < 100000 \<Longrightarrow> length (digits n) \<le> 5"
  by (simp add: digits.simps [of n] digits.simps [of "n div 10"] digits.simps [of "n div 10 div 10"]
      digits.simps [of "n div 10 div 10 div 10"] digits.simps [of "n div 10 div 10 div 10 div 10"])

lemma fgets_line: "newline \<notin> set l \<Longrightarrow> length l < n \<Longrightarrow> fgets n (l @ newline # r) = (l @ [newline], r)"
proof (induction l arbitrary: n)
  case Nil
  then show ?case by (cases n) (simp_all add: newline_def)
next
  case (Cons c l)
  then show ?case by (cases n) (auto simp: newline_def)
qed

lemma lower_char: "lower c \<Longrightarrow> c \<noteq> tab \<and> c \<noteq> newline \<and> c \<noteq> CHR 0x00"
  by (auto simp: lower_def tab_def newline_def)

lemma parse_line_entry:
  assumes "list_all lower u" "length u \<le> 9" "0 \<le> s" "s < 14668"
  shows "parse_line (u @ tab # digits (nat s) @ [newline]) = Some (u, s)"
proof -
  have l: "c \<noteq> CHR 0x09" "c \<noteq> CHR 0x00" if "c \<in> set u" for c
    using lower_char [of c] that assms(1) by (auto simp: list_all_iff tab_def)
  have "takeWhile (\<lambda>c. c \<noteq> CHR 0x09) (u @ tab # digits (nat s) @ [newline]) = u"
    using l by (simp add: takeWhile_append2 tab_def)
  moreover have "takeWhile (\<lambda>c. c \<noteq> CHR 0x00) u = u" using l by (simp add: takeWhile_eq_all_conv)
  moreover have "atoi (digits (nat s) @ [newline]) = s" using atoi_digits [of "nat s"] assms(3) by simp
  moreover have "s16 s = s" using assms by (simp add: s16_id)
  ultimately show ?thesis using assms(2) by (simp add: parse_line_def Let_def tab_def)
qed

lemma read_index_tree:
  assumes "entries_ok ws es" "tree ws ps ns" "roots_ok ws" "\<And>n. mem n"
  shows "\<exists>ns' ps'. read_index mem (render es) ns = Some ns' \<and> tree (ws @ es) ps' ns' \<and> roots_ok (ws @ es)"
  using assms
proof (induction es arbitrary: ws ps ns)
  case Nil
  then show ?case by (subst read_index.simps) (auto simp: render_def)
next
  case (Cons e es)
  obtain u s where e: "e = (u, s)" by force
  have eo: "entry_ok ws (u, s)" using Cons.prems(1) by (simp add: e)
  then have ok: "list_all lower u" "length u \<le> 9" "0 \<le> s" "s < 14668" by (simp_all add: entry_ok_def)
  define l where "l = u @ tab # digits (nat s)"
  have r: "render (e # es) = l @ newline # render es" by (simp add: render_def e l_def)
  have "newline \<noteq> c" if l: "c \<in> set l" for c
  proof -
    consider "lower c" | "c = tab" | "isdigit c"
      using l ok(1) digits_isdigit [of c "nat s"] by (auto simp: l_def list_all_iff)
    then show ?thesis
      using lower_char [of c] digits_not_space [of c] by cases (auto simp: newline_def tab_def)
  qed
  then have "newline \<notin> set l" by blast
  moreover have "nat s < 100000" using ok(4) by linarith
  then have "length l < 19" using ok(2) digits_length [of "nat s"] by (simp add: l_def)
  ultimately have g: "fgets 19 (render (e # es)) = (l @ [newline], render es)" unfolding r by (rule fgets_line)
  have p: "parse_line (l @ [newline]) = Some (u, s)" using parse_line_entry [OF ok(1-4)] by (simp add: l_def)
  obtain ns1 ps1 where 1: "add_entry mem u s ns = Some ns1" "tree (ws @ [(u, s)]) ps1 ns1" "roots_ok (ws @ [(u, s)])"
    using add_entry_tree [where mem = mem, OF Cons.prems(2) eo Cons.prems(3,4)] by blast
  have "entries_ok (ws @ [(u, s)]) es" using Cons.prems(1) by (simp add: e)
  then obtain ns' ps' where "read_index mem (render es) ns1 = Some ns'" "tree ((ws @ [(u, s)]) @ es) ps' ns'" "roots_ok ((ws @ [(u, s)]) @ es)"
    using Cons.IH [OF _ 1(2,3) Cons.prems(4)] by blast
  moreover have "read_index mem (render (e # es)) ns = read_index mem (render es) ns1"
    using g p 1(1) r by (subst read_index.simps) simp
  ultimately show ?case by (auto simp: e)
qed

lemma root_array_tree: "tree [] (map (\<lambda>i. [letter i]) [0..<26]) root_array"
proof -
  let ?ps = "map (\<lambda>i. [letter i]) [0..<26]"
  have n: "root_array ! a = root_node a" if "a < 26" for a
    using that by (simp add: root_array_def)
  have k: "kids ?ps v = (if v = [] then [0..<26] else [])" for v
    by (auto simp: kids_def filter_empty_conv)
  have "distinct ?ps" by (auto simp: distinct_map inj_on_def letter_inj)
  moreover have "linked root_array (Some 0) [0..<26]"
    by (simp add: upt_rec n root_node_def)
  ultimately have "links ?ps root_array"
    using n k by (auto simp: links_def root_array_def root_node_def)
  then show ?thesis using n by (auto simp: tree_def path_of_def start_of_def has_def root_node_def)
qed

end
