(* ===== verification/Pinyin_Find.thy ===== *)
theory Pinyin_Find
  imports Pinyin_Trie
begin

text \<open>
  The pinyin search: every node of the tree built from a sorted index knows the part of the character
  file that belongs to its beginning, and the search follows the user's typing.
\<close>

section \<open>Sorted entries\<close>

definition before :: "index \<Rightarrow> string \<Rightarrow> nat" where
  "before ws w = length (filter (\<lambda>e. fst e < w) ws)"

definition count :: "index \<Rightarrow> string \<Rightarrow> nat" where
  "count ws w = length (filter (\<lambda>e. prefix w (fst e)) ws)"

definition fin :: "index \<Rightarrow> string \<Rightarrow> nat" where
  "fin ws w = length (filter (\<lambda>e. fst e < w \<or> prefix w (fst e)) ws)"

definition off :: "index \<Rightarrow> nat \<Rightarrow> int" where
  "off ws k = (if k < length ws then snd (ws ! k) else 14668)"

lemma prefix_le: "prefix w u \<Longrightarrow> w \<le> (u :: string)"
proof (induction w arbitrary: u)
  case (Cons c w)
  then show ?case by (cases u) auto
qed simp

lemma below_or_prefix: "u \<le> x \<Longrightarrow> prefix w x \<Longrightarrow> u < w \<or> prefix w (u :: string)"
proof (induction w arbitrary: u x)
  case (Cons c w)
  then obtain x' where "x = c # x'" "prefix w x'" by (cases x) auto
  with Cons show ?case by (cases u) auto
qed simp

lemma fin_count: "fin ws w = before ws w + count ws w"
proof (induction ws)
  case (Cons e ws)
  then show ?case using prefix_le [of w "fst e"] by (auto simp: fin_def before_def count_def)
qed (simp add: fin_def before_def count_def)

lemma filter_initial:
  assumes "\<And>i j. i \<le> j \<Longrightarrow> j < length xs \<Longrightarrow> P (xs ! j) \<Longrightarrow> P (xs ! i)" "i < length xs"
  shows "i < length (filter P xs) \<longleftrightarrow> P (xs ! i)"
  using assms
proof (induction xs arbitrary: i)
  case (Cons x xs)
  show ?case
  proof (cases "P x")
    case True
    have "P (xs ! j) \<Longrightarrow> P (xs ! i)" if "i \<le> j" "j < length xs" for i j
      using Cons.prems(1) [of "Suc i" "Suc j"] that by simp
    then have "i < length (filter P xs) \<longleftrightarrow> P (xs ! i)" if "i < length xs" for i
      using Cons.IH that by blast
    then show ?thesis using True Cons.prems(2) by (cases i) auto
  next
    case False
    have n: "\<not> P ((x # xs) ! j)" if "j < length (x # xs)" for j
      using Cons.prems(1) [of 0 j] that False by auto
    have "filter P (x # xs) = []" unfolding filter_empty_conv
    proof
      fix y
      assume "y \<in> set (x # xs)"
      then obtain j where "j < length (x # xs)" "(x # xs) ! j = y" by (auto simp only: in_set_conv_nth)
      then show "\<not> P y" using n by blast
    qed
    then show ?thesis using n [OF Cons.prems(2)] by simp
  qed
qed simp

definition sorted_index :: "index \<Rightarrow> bool" where
  "sorted_index ws \<longleftrightarrow> sorted (map fst ws)"

lemma sorted_le: "sorted_index ws \<Longrightarrow> i \<le> j \<Longrightarrow> j < length ws \<Longrightarrow> fst (ws ! i) \<le> fst (ws ! j)"
  using sorted_nth_mono [of "map fst ws" i j] by (simp add: sorted_index_def)

lemma before_iff: "sorted_index ws \<Longrightarrow> i < length ws \<Longrightarrow> i < before ws w \<longleftrightarrow> fst (ws ! i) < w"
  unfolding before_def by (rule filter_initial) (use sorted_le [of ws] in \<open>auto dest: le_less_trans\<close>)

lemma fin_iff: "sorted_index ws \<Longrightarrow> i < length ws \<Longrightarrow> i < fin ws w \<longleftrightarrow> fst (ws ! i) < w \<or> prefix w (fst (ws ! i))"
  unfolding fin_def
proof (rule filter_initial)
  fix i j
  assume s: "sorted_index ws" and ij: "i \<le> j" "j < length ws" "fst (ws ! j) < w \<or> prefix w (fst (ws ! j))"
  have le: "fst (ws ! i) \<le> fst (ws ! j)" by (rule sorted_le [OF s ij(1,2)])
  from ij(3) show "fst (ws ! i) < w \<or> prefix w (fst (ws ! i))"
  proof
    assume "fst (ws ! j) < w"
    with le show ?thesis by (auto dest: le_less_trans)
  qed (rule below_or_prefix [OF le])
qed

lemma prefix_iff:
  assumes "sorted_index ws" "i < length ws"
  shows "prefix w (fst (ws ! i)) \<longleftrightarrow> before ws w \<le> i \<and> i < fin ws w"
  using before_iff [OF assms, of w] fin_iff [OF assms, of w] prefix_le [of w "fst (ws ! i)"] by (auto simp: not_less)

lemma fin_le: "fin ws w \<le> length ws" "before ws w \<le> fin ws w"
proof -
  show "fin ws w \<le> length ws" by (simp add: fin_def)
  show "before ws w \<le> fin ws w" by (simp add: fin_count)
qed

lemma has_iff:
  assumes "sorted_index ws"
  shows "has ws w \<longleftrightarrow> before ws w < fin ws w"
proof
  assume "has ws w"
  then obtain i where "i < length ws" "prefix w (fst (ws ! i))" by (auto simp: has_def in_set_conv_nth)
  then show "before ws w < fin ws w" using prefix_iff [OF assms] by fastforce
next
  assume "before ws w < fin ws w"
  moreover from this have "before ws w < length ws" using fin_le(1) [of ws w] by simp
  ultimately have "prefix w (fst (ws ! before ws w))" using prefix_iff [OF assms] by simp
  then show "has ws w" using \<open>before ws w < length ws\<close> by (auto simp: has_def)
qed

lemma pos_before:
  assumes "sorted_index ws" "has ws w"
  shows "pos ws w = before ws w"
proof (rule antisym)
  have "before ws w < fin ws w" using assms by (simp add: has_iff)
  moreover from this have "before ws w < length ws" using fin_le(1) [of ws w] by simp
  ultimately have "prefix w (fst (ws ! before ws w))" using prefix_iff [OF assms(1)] by simp
  then show "pos ws w \<le> before ws w" using pos_le \<open>before ws w < length ws\<close> by blast
  show "before ws w \<le> pos ws w"
    using prefix_iff [OF assms(1) pos_less [OF assms(2)]] pos_nth [OF assms(2)] by blast
qed

lemma start_off:
  assumes "sorted_index ws" "has ws w"
  shows "start_of ws w = off ws (before ws w)"
  using assms pos_before [OF assms] pos_less [OF assms(2)] by (simp add: start_of_def off_def)

text \<open>The initial letters divide the index.\<close>

lemma letter_less: "i < 26 \<Longrightarrow> j < 26 \<Longrightarrow> letter i < letter j \<longleftrightarrow> i < j"
  by (simp add: letter_def less_char_def)

definition words_ok :: "index \<Rightarrow> bool" where
  "words_ok ws \<longleftrightarrow> (\<forall>e \<in> set ws. fst e \<noteq> [] \<and> list_all lower (fst e))"

lemma first_letter:
  assumes "words_ok ws" "e \<in> set ws"
  obtains j u where "j < 26" "fst e = letter j # u"
proof (cases "fst e")
  case Nil
  then show ?thesis using assms unfolding words_ok_def by fastforce
next
  case (Cons c u)
  then have "lower c" using assms unfolding words_ok_def by fastforce
  then show ?thesis using letter_lower [of c] that Cons by auto
qed

lemma fin_letter:
  assumes "words_ok ws" "i < 25"
  shows "fin ws [letter i] = before ws [letter (Suc i)]"
proof -
  have "fst e < [letter i] \<or> prefix [letter i] (fst e) \<longleftrightarrow> fst e < [letter (Suc i)]" if e: "e \<in> set ws" for e
  proof -
    obtain j u where "j < 26" "fst e = letter j # u" using first_letter [OF assms(1) e] .
    then show ?thesis using assms(2) letter_less [of j i] letter_less [of j "Suc i"] letter_inj [of j i] by auto
  qed
  then have "filter (\<lambda>e. fst e < [letter i] \<or> prefix [letter i] (fst e)) ws = filter (\<lambda>e. fst e < [letter (Suc i)]) ws"
    by (intro filter_cong) auto
  then show ?thesis by (simp add: fin_def before_def)
qed

lemma fin_z:
  assumes "words_ok ws"
  shows "fin ws [letter 25] = length ws"
proof -
  have "fst e < [letter 25] \<or> prefix [letter 25] (fst e)" if e: "e \<in> set ws" for e
  proof -
    obtain j u where "j < 26" "fst e = letter j # u" using first_letter [OF assms e] .
    then show ?thesis using letter_less [of j 25] letter_inj [of j 25] by (cases "j = 25") auto
  qed
  then show ?thesis by (simp add: fin_def filter_id_conv [THEN iffD2])
qed

section \<open>The next item\<close>

definition built :: "index \<Rightarrow> string list \<Rightarrow> pnodes \<Rightarrow> bool" where
  "built ws ps ns \<longleftrightarrow> links ps ns \<and> set ps = {v. path_of ws v} \<and>
     (\<forall>a < length ps. pstart (ns ! a) = off ws (before ws (ps ! a))) \<and>
     (\<forall>a b. 26 \<le> a \<longrightarrow> a < b \<longrightarrow> b < length ps \<longrightarrow> butlast (ps ! a) = butlast (ps ! b) \<longrightarrow>
        before ws (ps ! a) < before ws (ps ! b))"

lemma linked_nth:
  "linked ns x as \<Longrightarrow> j < length as \<Longrightarrow> pnext (ns ! (as ! j)) = (if Suc j < length as then Some (as ! Suc j) else None)"
proof (induction as arbitrary: x j)
  case (Cons a as)
  then show ?case by (cases j; cases as) (auto simp: less_Suc_eq_0_disj)
qed simp

lemma built_has:
  assumes "built ws ps ns" "a < length ps" "26 \<le> a"
  shows "has ws (ps ! a)"
proof -
  have l: "links ps ns" and m: "set ps = {v. path_of ws v}" using assms(1) by (simp_all add: built_def)
  have "path_of ws (ps ! a)" using nth_mem [OF assms(2)] unfolding m by simp
  moreover have "2 \<le> length (ps ! a)" by (rule links_path(2) [OF l assms(2,3)])
  ultimately show ?thesis by (auto simp: path_of_def)
qed

text \<open>The entry after the last one below a child, if it is still below the parent, begins a child's part.\<close>

lemma after_kid:
  assumes b: "built ws ps ns" and s: "sorted_index ws" and a: "a \<in> set (kids ps v)" and v: "v \<noteq> []"
    and j: "fin ws (ps ! a) < fin ws v"
  shows "\<exists>k \<in> set (kids ps v). before ws (ps ! k) = fin ws (ps ! a) \<and> a < k"
proof -
  let ?j = "fin ws (ps ! a)"
  have l: "links ps ns" and m: "set ps = {v. path_of ws v}" using b by (simp_all add: built_def)
  have ka: "26 \<le> a" "ps ! a = v @ [pch (ns ! a)]" "a < length ps"
    using kids_child [OF l a v] a by (simp_all add: kids_mem)
  have ha: "has ws (ps ! a)" by (rule built_has [OF b ka(3,1)])
  then have jp: "before ws (ps ! a) < ?j" using s by (simp add: has_iff)
  have jl: "?j < length ws" using j fin_le(1) [of ws v] by simp
  have pa: "prefix (ps ! a) (fst (ws ! (?j - 1)))" using prefix_iff [OF s, of "?j - 1" "ps ! a"] jp jl by auto
  have le: "fst (ws ! (?j - 1)) \<le> fst (ws ! ?j)" using s jl by (intro sorted_le) auto
  have "before ws v \<le> ?j - 1" using prefix_iff [OF s, of "?j - 1" v] jl pa ka(2) by (auto simp: append_prefixD)
  then have pv: "prefix v (fst (ws ! ?j))" using prefix_iff [OF s jl, of v] j by auto
  have "v < fst (ws ! (?j - 1))"
  proof -
    have "v \<le> v @ [pch (ns ! a)]" by (rule prefix_le) simp
    moreover have "v \<noteq> v @ [pch (ns ! a)]" by simp
    ultimately have "v < ps ! a" unfolding ka(2) by (simp only: less_le) simp
    also have "ps ! a \<le> fst (ws ! (?j - 1))" by (rule prefix_le [OF pa])
    finally show ?thesis .
  qed
  then have "fst (ws ! ?j) \<noteq> v" using le by auto
  then obtain c r where cr: "fst (ws ! ?j) = v @ c # r" using pv by (metis append_Nil2 neq_Nil_conv prefixE)
  have "prefix (v @ [c]) (fst (ws ! ?j))" using cr by simp
  then have "has ws (v @ [c])" unfolding has_def using nth_mem [OF jl] by blast
  moreover have "2 \<le> length (v @ [c])" using v by (cases v) auto
  ultimately have "v @ [c] \<in> set ps" unfolding m path_of_def by simp
  then obtain k where k: "k < length ps" "ps ! k = v @ [c]" by (auto simp: in_set_conv_nth)
  have kk: "k \<in> set (kids ps v)" using k by (simp add: kids_mem)
  have kge: "26 \<le> k" using kids_child [OF l kk v] by simp
  have pk: "prefix (ps ! k) (fst (ws ! ?j))" using cr k by simp
  have "\<not> prefix (ps ! a) (fst (ws ! ?j))" using prefix_iff [OF s jl] by simp
  then have ne: "ps ! k \<noteq> ps ! a" using pk by metis
  have "\<not> prefix (ps ! k) (fst (ws ! (?j - 1)))"
  proof
    assume "prefix (ps ! k) (fst (ws ! (?j - 1)))"
    moreover have "length (ps ! k) = length (ps ! a)" using k(2) ka(2) by simp
    ultimately show False using pa ne by (metis prefix_length_prefix order_refl prefix_order.antisym)
  qed
  then have "\<not> (before ws (ps ! k) \<le> ?j - 1 \<and> ?j - 1 < fin ws (ps ! k))"
    using prefix_iff [OF s, of "?j - 1" "ps ! k"] jl by simp
  moreover have "before ws (ps ! k) \<le> ?j \<and> ?j < fin ws (ps ! k)" using prefix_iff [OF s jl, of "ps ! k"] pk by simp
  ultimately have "before ws (ps ! k) = ?j" using jp by linarith
  moreover have "a < k"
  proof (rule ccontr)
    assume "\<not> a < k"
    then have "k < a" using ne by (cases "k = a") auto
    then have "before ws (ps ! k) < before ws (ps ! a)"
      using b kge ka(3) a kk by (simp add: built_def kids_mem)
    then show False using calculation jp by simp
  qed
  ultimately show ?thesis using kk by blast
qed

lemma kids_sorted: "i < j \<Longrightarrow> j < length (kids ps v) \<Longrightarrow> kids ps v ! i < kids ps v ! j"
  using sorted_wrt_nth_less [of "(<)" "kids ps v" i j] by (simp add: kids_def sorted_wrt_filter)

lemma fin_parent:
  assumes "sorted_index ws" "has ws (v @ [c])"
  shows "fin ws (v @ [c]) \<le> fin ws v"
proof (rule ccontr)
  assume "\<not> fin ws (v @ [c]) \<le> fin ws v"
  define i where "i = fin ws (v @ [c]) - 1"
  have i: "i < length ws" "fin ws v \<le> i" "before ws (v @ [c]) \<le> i" "i < fin ws (v @ [c])"
    using \<open>\<not> _\<close> fin_le(1) [of ws "v @ [c]"] assms has_iff [of ws "v @ [c]"] by (auto simp: i_def)
  then have "prefix (v @ [c]) (fst (ws ! i))" using prefix_iff [OF assms(1) i(1)] by simp
  then have "prefix v (fst (ws ! i))" by (rule append_prefixD)
  then show False using prefix_iff [OF assms(1) i(1), of v] i(2) by simp
qed

text \<open>The next sibling begins where a node's part ends; without one the part ends with the parent's.\<close>

lemma next_kid:
  assumes b: "built ws ps ns" and s: "sorted_index ws" and a: "a < length ps" "26 \<le> a"
  defines "v \<equiv> butlast (ps ! a)"
  shows "case pnext (ns ! a) of
      Some k \<Rightarrow> k < length ps \<and> 26 \<le> k \<and> before ws (ps ! k) = fin ws (ps ! a)
    | None \<Rightarrow> fin ws (ps ! a) = fin ws v"
proof -
  have l: "links ps ns" using b by (simp add: built_def)
  have ka: "a \<in> set (kids ps v)" using a(1) links_path(1) [OF l a(1)] by (simp add: kids_mem v_def)
  have v: "v \<noteq> []" using links_path(2) [OF l a] by (cases "ps ! a"; cases "tl (ps ! a)") (auto simp: v_def)
  have pa: "ps ! a = v @ [pch (ns ! a)]" using kids_child [OF l ka v] by simp
  have ha: "has ws (ps ! a)" by (rule built_has [OF b a])
  obtain i where i: "i < length (kids ps v)" "kids ps v ! i = a" using ka by (auto simp: in_set_conv_nth)
  obtain p where p: "p < length ps" "ps ! p = v"
    using l a pa unfolding links_def by (metis append_same_eq less_trans)
  have lk: "linked ns (pchild (ns ! p)) (kids ps v)" using l p by (auto simp: links_def)
  note nx = linked_nth [OF lk i(1), unfolded i(2)]
  have le: "fin ws (ps ! a) \<le> fin ws v" using fin_parent [OF s, of v] ha pa by simp
  show ?thesis
  proof (cases "Suc i < length (kids ps v)")
    case False
    have "fin ws (ps ! a) = fin ws v"
    proof (rule ccontr)
      assume "fin ws (ps ! a) \<noteq> fin ws v"
      then obtain k where k: "k \<in> set (kids ps v)" "a < k" using after_kid [OF b s ka v] le by auto
      then obtain j where j: "j < length (kids ps v)" "kids ps v ! j = k" by (auto simp: in_set_conv_nth)
      then have "j < i \<or> j = i" using False i(1) by auto
      then show False using kids_sorted [of j i ps v] i j k(2) by auto
    qed
    then show ?thesis using nx False by simp
  next
    case True
    define k where "k = kids ps v ! Suc i"
    have k: "k \<in> set (kids ps v)" "a < k" using True kids_sorted [of i "Suc i" ps v] i by (simp_all add: k_def)
    have kl: "k < length ps" "26 \<le> k" using k(1) kids_child [OF l k(1) v] by (simp_all add: kids_mem)
    have pk: "ps ! k = v @ [pch (ns ! k)]" using kids_child [OF l k(1) v] by simp
    have hk: "has ws (ps ! k)" by (rule built_has [OF b kl])
    then have bk: "before ws (ps ! k) < fin ws (ps ! k)" using s by (simp add: has_iff)
    have kb: "before ws (ps ! k) < length ws" using bk fin_le(1) [of ws "ps ! k"] by simp
    have ab: "before ws (ps ! a) < before ws (ps ! k)"
      using b a k kl(1) ka by (simp add: built_def kids_mem)
    have "ps ! a \<noteq> ps ! k" using l nth_eq_iff_index_eq [of ps a k] a(1) kl(1) k(2) by (auto simp: links_def)
    then have "\<not> prefix (ps ! a) (fst (ws ! before ws (ps ! k)))"
      using prefix_iff [OF s kb, of "ps ! k"] bk pa pk
      by (metis length_append_singleton order_refl prefix_length_prefix prefix_order.antisym)
    then have ge: "fin ws (ps ! a) \<le> before ws (ps ! k)" using prefix_iff [OF s kb, of "ps ! a"] ab by auto
    have "fin ws (ps ! k) \<le> fin ws v" using fin_parent [OF s, of v] hk pk by simp
    then have "fin ws (ps ! a) < fin ws v" using ge bk by simp
    then obtain m where m: "m \<in> set (kids ps v)" "before ws (ps ! m) = fin ws (ps ! a)" "a < m"
      using after_kid [OF b s ka v] by blast
    then obtain j where j: "j < length (kids ps v)" "kids ps v ! j = m" by (auto simp: in_set_conv_nth)
    have "\<not> j < i" "j \<noteq> i" using kids_sorted [of j i ps v] i j m(3) by auto
    then have "k = m \<or> k < m" using kids_sorted [of "Suc i" j ps v] j by (cases "j = Suc i") (auto simp: k_def)
    then have "before ws (ps ! k) \<le> before ws (ps ! m)"
      using b k(1) kl m(1) by (auto simp: built_def kids_mem intro: less_imp_le)
    then have "before ws (ps ! k) = fin ws (ps ! a)" using ge m(2) by simp
    then show ?thesis using nx True kl by (simp add: k_def)
  qed
qed

text \<open>\<open>GetNextItem\<close> finds the node whose part begins where the given one ends, if there is one.\<close>

definition next_start :: "pnodes \<Rightarrow> nat option \<Rightarrow> int" where
  "next_start ns q = (case q of Some b \<Rightarrow> pstart (ns ! b) | None \<Rightarrow> 14668)"

lemma GetNextItem_start:
  assumes b: "built ws ps ns" and s: "sorted_index ws" and w: "words_ok ws" and a: "a < length ps"
  shows "\<exists>q. GetNextItem ns a = Some q \<and> next_start ns q = off ws (fin ws (ps ! a))"
  using a
proof (induction a rule: less_induct)
  case (less a)
  have l: "links ps ns" and st: "\<And>c. c < length ps \<Longrightarrow> pstart (ns ! c) = off ws (before ws (ps ! c))"
    using b by (simp_all add: built_def)
  have len: "26 \<le> length ps" using l by (simp add: links_def)
  show ?case
  proof (cases "a < 26")
    case True
    have p: "ps ! a = [letter a]" by (rule links_path(3) [OF l less.prems True])
    have "linked ns (Some 0) [0..<26]" using l kids_roots [OF l] by (simp add: links_def)
    from linked_nth [OF this, of a] True have nx: "pnext (ns ! a) = (if a = 25 then None else Some (Suc a))" by auto
    show ?thesis
    proof (cases "a = 25")
      case True
      have "pparent (ns ! a) = None" using l True by (simp add: links_def)
      then have "GetNextItem ns a = Some None"
        using nx True unfolding GetNextItem_def by (subst GetNextItem_loop.simps) simp
      then show ?thesis using fin_z [OF w] p True by (simp add: next_start_def off_def)
    next
      case False
      then have "GetNextItem ns a = Some (Some (Suc a))"
        using nx unfolding GetNextItem_def by (subst GetNextItem_loop.simps) simp
      moreover have "ps ! Suc a = [letter (Suc a)]" using False True len by (intro links_path(3) [OF l]) auto
      moreover have "fin ws [letter a] = before ws [letter (Suc a)]" using False True by (intro fin_letter [OF w]) auto
      ultimately show ?thesis using st [of "Suc a"] False True len p by (simp add: next_start_def)
    qed
  next
    case False
    then have ge: "26 \<le> a" by simp
    note nk = next_kid [OF b s less.prems ge]
    obtain p where p: "p < a" "pparent (ns ! a) = Some p" "ps ! a = ps ! p @ [pch (ns ! a)]"
      using l less.prems ge unfolding links_def by blast
    show ?thesis
    proof (cases "pnext (ns ! a)")
      case (Some k)
      then have "GetNextItem ns a = Some (Some k)"
        unfolding GetNextItem_def by (subst GetNextItem_loop.simps) simp
      then show ?thesis using nk Some st [of k] by (simp add: next_start_def)
    next
      case None
      have "GetNextItem ns a = GetNextItem ns p"
        using None p(2) unfolding GetNextItem_def by (subst GetNextItem_loop.simps) simp
      moreover have "fin ws (ps ! a) = fin ws (ps ! p)" using nk None p(3) by simp
      ultimately show ?thesis using less.IH [OF p(1)] p(1) less.prems by simp
    qed
  qed
qed

section \<open>Setting the ends\<close>

text \<open>Nodes that differ in their ends only.\<close>

definition same :: "pnodes \<Rightarrow> pnodes \<Rightarrow> bool" where
  "same ns ns' \<longleftrightarrow> map (pend_update (\<lambda>_. 0)) ns = map (pend_update (\<lambda>_. 0)) ns'"

lemma same_refl [simp]: "same ns ns" and same_trans: "same ns ms \<Longrightarrow> same ms ks \<Longrightarrow> same ns ks"
  by (simp_all add: same_def)

lemma same_fields:
  assumes "same ns ns'"
  shows "length ns' = length ns" "a < length ns \<Longrightarrow> pch (ns' ! a) = pch (ns ! a)"
    "a < length ns \<Longrightarrow> pstart (ns' ! a) = pstart (ns ! a)" "a < length ns \<Longrightarrow> pchild (ns' ! a) = pchild (ns ! a)"
    "a < length ns \<Longrightarrow> pnext (ns' ! a) = pnext (ns ! a)" "a < length ns \<Longrightarrow> pparent (ns' ! a) = pparent (ns ! a)"
proof -
  show len: "length ns' = length ns" using assms map_eq_imp_length_eq by (fastforce simp: same_def)
  assume "a < length ns"
  then have e: "pend_update (\<lambda>_. 0) (ns ! a) = pend_update (\<lambda>_. 0) (ns' ! a)"
    using arg_cong [OF assms [unfolded same_def], of "\<lambda>xs. xs ! a"] len by simp
  from arg_cong [OF e, of pch] arg_cong [OF e, of pstart] arg_cong [OF e, of pchild] arg_cong [OF e, of pnext]
    arg_cong [OF e, of pparent]
  show "pch (ns' ! a) = pch (ns ! a)" "pstart (ns' ! a) = pstart (ns ! a)" "pchild (ns' ! a) = pchild (ns ! a)"
    "pnext (ns' ! a) = pnext (ns ! a)" "pparent (ns' ! a) = pparent (ns ! a)"
    by simp_all
qed

lemma same_upd: "a < length ns \<Longrightarrow> same ns (upd a (pend_update (\<lambda>_. v)) ns)"
  by (auto simp: same_def upd_def map_update intro!: nth_equalityI simp: nth_list_update)

lemma links_same:
  assumes "links ps ns" "same ns ns'"
  shows "links ps ns'"
proof -
  note f = same_fields [OF assms(2)]
  have len: "length ns = length ps" using assms(1) by (simp add: links_def)
  have "linked ns' x (kids ps v) = linked ns x (kids ps v)" for x v
    by (rule linked_cong) (use f(5) len in \<open>simp add: kids_mem\<close>)
  moreover have "\<exists>p < a. pparent (ns' ! a) = Some p \<and> ps ! a = ps ! p @ [pch (ns' ! a)]" if "a < length ps" "26 \<le> a" for a
  proof -
    have e: "pch (ns' ! a) = pch (ns ! a)" "pparent (ns' ! a) = pparent (ns ! a)" using f(2,6) len that(1) by simp_all
    show ?thesis unfolding e using assms(1) that unfolding links_def by blast
  qed
  moreover have "pparent (ns' ! a) = None" if "a < 26" for a
  proof -
    have "a < length ns" using that assms(1) by (simp add: links_def)
    then have "pparent (ns' ! a) = pparent (ns ! a)" by (rule f(6))
    moreover have "pparent (ns ! a) = None" using that assms(1) unfolding links_def by blast
    ultimately show ?thesis by simp
  qed
  moreover have "pchild (ns' ! a) = pchild (ns ! a)" if "a < length ps" for a
    using that f(4) [of a] len by simp
  ultimately show ?thesis using assms(1) unfolding links_def f(1) by presburger
qed

lemma built_same:
  assumes "built ws ps ns" "same ns ns'"
  shows "built ws ps ns'"
proof -
  have l: "links ps ns" using assms(1) by (simp add: built_def)
  then have "length ns = length ps" by (simp add: links_def)
  then show ?thesis using assms(1) links_same [OF l assms(2)] same_fields(3) [OF assms(2)] by (simp add: built_def)
qed

definition good :: "index \<Rightarrow> string list \<Rightarrow> pnodes \<Rightarrow> nat \<Rightarrow> bool" where
  "good ws ps ns a \<longleftrightarrow> pend (ns ! a) = off ws (fin ws (ps ! a))"

definition ends_ok :: "index \<Rightarrow> string list \<Rightarrow> pnodes \<Rightarrow> bool" where
  "ends_ok ws ps ns \<longleftrightarrow> built ws ps ns \<and> (\<forall>a < length ps. pend (ns ! a) = 0 \<or> good ws ps ns a)"

text \<open>A step of the construction: only ends change, and only towards the right value.\<close>

definition progress :: "index \<Rightarrow> string list \<Rightarrow> pnodes \<Rightarrow> pnodes \<Rightarrow> bool" where
  "progress ws ps ns ns' \<longleftrightarrow> same ns ns' \<and> ends_ok ws ps ns' \<and> (\<forall>a < length ps. good ws ps ns a \<longrightarrow> good ws ps ns' a)"

lemma progress_trans: "progress ws ps ns ms \<Longrightarrow> progress ws ps ms ks \<Longrightarrow> progress ws ps ns ks"
  by (auto simp: progress_def intro: same_trans)

lemma set_end_progress:
  assumes e: "ends_ok ws ps ns" and s: "sorted_index ws" and w: "words_ok ws" and a: "a < length ps"
  shows "\<exists>ns'. set_end a ns = Some ns' \<and> progress ws ps ns ns' \<and> good ws ps ns' a"
proof (cases "pend (ns ! a) = 0")
  case False
  then show ?thesis using e a by (auto simp: set_end_def progress_def ends_ok_def)
next
  case True
  have b: "built ws ps ns" using e by (simp add: ends_ok_def)
  then have len: "length ns = length ps" by (simp add: built_def links_def)
  obtain q where q: "GetNextItem ns a = Some q" "next_start ns q = off ws (fin ws (ps ! a))"
    using GetNextItem_start [OF b s w a] by blast
  define ns' where "ns' = upd a (pend_update (\<lambda>_. next_start ns q)) ns"
  have "set_end a ns = Some ns'" using True q(1) by (simp add: set_end_def ns'_def next_start_def)
  moreover have sm: "same ns ns'" unfolding ns'_def using a len by (intro same_upd) simp
  moreover have g: "good ws ps ns' a" using a len q(2) by (simp add: good_def ns'_def)
  moreover have "pend (ns' ! c) = pend (ns ! c)" if "c \<noteq> a" for c using that a len by (simp add: ns'_def)
  then have "good ws ps ns' c \<longleftrightarrow> good ws ps ns c" "pend (ns' ! c) = 0 \<longleftrightarrow> pend (ns ! c) = 0" if "c \<noteq> a" for c
    using that by (simp_all add: good_def)
  then have "ends_ok ws ps ns'" "\<forall>c < length ps. good ws ps ns c \<longrightarrow> good ws ps ns' c"
    using e g built_same [OF b sm] unfolding ends_ok_def by metis+
  ultimately show ?thesis by (auto simp: progress_def)
qed

lemma child_bounds:
  assumes l: "links ps ns" and a: "a < length ps" and c: "pchild (ns ! a) = Some c"
  shows "a < c \<and> c < length ps \<and> 26 \<le> c \<and> kids ps (ps ! a) \<noteq> [] \<and> c = kids ps (ps ! a) ! 0"
proof -
  have lk: "linked ns (Some c) (kids ps (ps ! a))" using l a c by (auto simp: links_def)
  then obtain as where k: "kids ps (ps ! a) = c # as" by (cases "kids ps (ps ! a)") auto
  then have m: "c \<in> set (kids ps (ps ! a))" by simp
  have ge: "26 \<le> c" "ps ! c = ps ! a @ [pch (ns ! c)]" using kids_child [OF l m links_path(1) [OF l a]] by simp_all
  have cl: "c < length ps" using m by (simp add: kids_mem)
  obtain p where p: "p < c" "ps ! c = ps ! p @ [pch (ns ! c)]" using l ge(1) cl unfolding links_def by blast
  then have "ps ! p = ps ! a" using ge(2) by simp
  then have "p = a" using l nth_eq_iff_index_eq [of ps p a] p(1) cl a by (simp add: links_def)
  then show ?thesis using p(1) cl ge(1) k by simp
qed

lemma kid_next:
  assumes l: "links ps ns" and a: "a < length ps" and v: "v = butlast (ps ! a)"
  shows "\<exists>i < length (kids ps v). kids ps v ! i = a \<and>
    pnext (ns ! a) = (if Suc i < length (kids ps v) then Some (kids ps v ! Suc i) else None)"
proof -
  have ka: "a \<in> set (kids ps v)" using a links_path(1) [OF l a] v by (simp add: kids_mem)
  then obtain i where i: "i < length (kids ps v)" "kids ps v ! i = a" by (auto simp: in_set_conv_nth)
  have "\<exists>x. linked ns x (kids ps v)"
  proof (cases "26 \<le> a")
    case True
    then obtain p where "p < a" "ps ! a = ps ! p @ [pch (ns ! a)]" using l a unfolding links_def by blast
    moreover from this have "p < length ps" "v = ps ! p" using a v by simp_all
    ultimately have "linked ns (pchild (ns ! p)) (kids ps v)" using l unfolding links_def by simp
    then show ?thesis ..
  next
    case False
    then have "v = []" using links_path(3) [OF l a] v by simp
    then show ?thesis using l by (auto simp: links_def)
  qed
  then show ?thesis using linked_nth [OF _ i(1)] i by auto
qed

lemma next_bounds:
  assumes l: "links ps ns" and a: "a < length ps" and b: "pnext (ns ! a) = Some b"
  shows "a < b \<and> b < length ps \<and> (26 \<le> a \<longrightarrow> 26 \<le> b)"
proof -
  define v where "v = butlast (ps ! a)"
  obtain i where i: "i < length (kids ps v)" "kids ps v ! i = a" "Suc i < length (kids ps v)" "kids ps v ! Suc i = b"
    using kid_next [OF l a v_def] b by (auto split: if_splits)
  then have "a < b" using kids_sorted [of i "Suc i" ps v] by simp
  moreover have "b < length ps" using i(3,4) nth_mem [of "Suc i" "kids ps v"] by (simp add: kids_mem)
  ultimately show ?thesis by simp
qed

inductive visits :: "pnodes \<Rightarrow> bool \<Rightarrow> nat \<Rightarrow> nat \<Rightarrow> bool" for ns where
  child: "pchild (ns ! a) = Some c \<Longrightarrow> visits ns False c x \<Longrightarrow> visits ns True a x"
| sibling: "pnext (ns ! a) = Some b \<Longrightarrow> visits ns True b x \<Longrightarrow> visits ns True a x"
| here: "visits ns False a a"
| below: "visits ns True a x \<Longrightarrow> visits ns False a x"
| later: "pnext (ns ! a) = Some b \<Longrightarrow> visits ns False b x \<Longrightarrow> visits ns False a x"

inductive_cases visits_outer: "visits ns True a x"
inductive_cases visits_inner: "visits ns False a x"

text \<open>
  The recursion goes to greater addresses, or from a child's loop to the node itself; it reaches the ends of
  all nodes it visits.
\<close>

lemma visits_same:
  assumes "links ps ns" "same ns ns'" "visits ns o' a x" "a < length ps"
  shows "visits ns' o' a x"
  using assms(3,4)
proof (induction rule: visits.induct)
  case (child a c x)
  then show ?case
    using same_fields(4) [OF assms(2), of a] child_bounds [OF assms(1) child.prems child.hyps(1)] assms(1)
    by (auto intro: visits.child simp: links_def)
next
  case (sibling a b x)
  then show ?case
    using same_fields(5) [OF assms(2), of a] next_bounds [OF assms(1) sibling.prems sibling.hyps(1)] assms(1)
    by (auto intro: visits.sibling simp: links_def)
next
  case (later a b x)
  then show ?case
    using same_fields(5) [OF assms(2), of a] next_bounds [OF assms(1) later.prems later.hyps(1)] assms(1)
    by (auto intro: visits.later simp: links_def)
qed (auto intro: visits.here visits.below)

definition after_build :: "index \<Rightarrow> string list \<Rightarrow> pnodes \<Rightarrow> bool \<Rightarrow> nat option \<Rightarrow> pnodes \<Rightarrow> bool" where
  "after_build ws ps ns o' x ns' \<longleftrightarrow> build o' x ns = Some ns' \<and> progress ws ps ns ns' \<and>
     (\<forall>a. x = Some a \<longrightarrow> (\<forall>y < length ps. visits ns o' a y \<longrightarrow> good ws ps ns' y))"

lemma progress_refl: "ends_ok ws ps ns \<Longrightarrow> progress ws ps ns ns"
  by (simp add: progress_def)

lemma after_build_None: "ends_ok ws ps ns \<Longrightarrow> after_build ws ps ns o' None ns"
  by (simp add: after_build_def progress_refl build.simps)

lemma ends_links: "ends_ok ws ps ns \<Longrightarrow> links ps ns"
  by (simp add: ends_ok_def built_def)

lemma build_fills:
  assumes "ends_ok ws ps ns" "sorted_index ws" "words_ok ws" "a < length ps"
  shows "\<exists>ns'. after_build ws ps ns o' (Some a) ns'"
  using assms(1,4)
proof (induction "2 * (length ps - a) + (if o' then 0 else 1)" arbitrary: o' a ns rule: less_induct)
  case less
  have l: "links ps ns" by (rule ends_links [OF less.prems(1)])
  have len: "length ns = length ps" using l by (simp add: links_def)
  have sub: "\<exists>ms. after_build ws ps ks q x ms"
    if k: "ends_ok ws ps ks" "\<And>b. x = Some b \<Longrightarrow> a < b \<and> b < length ps" for ks q x
  proof (cases x)
    case None
    then show ?thesis using after_build_None [OF k(1)] by blast
  next
    case (Some b)
    then have "2 * (length ps - b) + (if q then 0 else 1) < 2 * (length ps - a) + (if o' then 0 else 1)"
      using k(2) [OF Some] less.prems(2) by auto
    then show ?thesis using less.hyps k Some by blast
  qed
  show ?case
  proof (cases o')
    case True
    obtain ms where m: "after_build ws ps ns False (pchild (ns ! a)) ms"
      using sub [OF less.prems(1), of "pchild (ns ! a)" False] child_bounds [OF l less.prems(2)] by blast
    have pm: "progress ws ps ns ms" and sm: "same ns ms" and em: "ends_ok ws ps ms"
      using m by (simp_all add: after_build_def progress_def)
    have nx: "pnext (ms ! a) = pnext (ns ! a)" using same_fields(5) [OF sm] less.prems(2) len by simp
    obtain ks where k: "after_build ws ps ms True (pnext (ms ! a)) ks"
      using sub [OF em, of "pnext (ms ! a)" True] next_bounds [OF l less.prems(2)] nx by auto
    have pk: "progress ws ps ms ks" using k by (simp add: after_build_def)
    have "build True (Some a) ns = Some ks"
      using m k by (subst build.simps) (simp add: after_build_def)
    moreover have "good ws ps ks y" if y: "y < length ps" "visits ns True a y" for y
    proof -
      consider c where "pchild (ns ! a) = Some c" "visits ns False c y" | b where "pnext (ns ! a) = Some b" "visits ns True b y"
        using visits_outer [OF y(2)] by metis
      then show ?thesis
      proof cases
      case (1 c)
      then have "good ws ps ms y" using m y(1) by (simp add: after_build_def)
      then show ?thesis using pk y(1) by (simp add: progress_def)
    next
      case (2 b)
      have "b < length ps" using next_bounds [OF l less.prems(2) 2(1)] by simp
      then have "visits ms True b y" using visits_same [OF l sm 2(2)] by simp
      then show ?thesis using k y(1) 2(1) nx by (simp add: after_build_def)
      qed
    qed
    ultimately show ?thesis using progress_trans [OF pm pk] True by (intro exI [of _ ks]) (simp add: after_build_def)
  next
    case False
    have "2 * (length ps - a) + (if True then 0 else 1) < 2 * (length ps - a) + (if o' then 0 else 1)" using False by simp
    then obtain ms where m: "after_build ws ps ns True (Some a) ms" using less.hyps less.prems by blast
    have pm: "progress ws ps ns ms" and sm: "same ns ms" and em: "ends_ok ws ps ms"
      using m by (simp_all add: after_build_def progress_def)
    obtain hs where h: "set_end a ms = Some hs" "progress ws ps ms hs" "good ws ps hs a"
      using set_end_progress [OF em assms(2,3) less.prems(2)] by blast
    have eh: "ends_ok ws ps hs" and sh: "same ns hs" using h(2) sm by (auto simp: progress_def intro: same_trans)
    have nx: "pnext (hs ! a) = pnext (ns ! a)" using same_fields(5) [OF sh] less.prems(2) len by simp
    obtain ks where k: "after_build ws ps hs False (pnext (hs ! a)) ks"
      using sub [OF eh, of "pnext (hs ! a)" False] next_bounds [OF l less.prems(2)] nx by auto
    have pk: "progress ws ps hs ks" using k by (simp add: after_build_def)
    have "build False (Some a) ns = Some ks"
      using m h(1) k by (subst build.simps) (simp add: after_build_def)
    moreover have "good ws ps ks y" if y: "y < length ps" "visits ns False a y" for y
    proof -
      consider "y = a" | "visits ns True a y" | b where "pnext (ns ! a) = Some b" "visits ns False b y"
        using visits_inner [OF y(2)] by metis
      then show ?thesis
      proof cases
      case 1
      then show ?thesis using h(3) pk y(1) by (simp add: progress_def)
    next
      case 2
      then have "good ws ps ms y" using m y(1) by (simp add: after_build_def)
      then show ?thesis using h(2) pk y(1) by (simp add: progress_def)
    next
      case (3 b)
      have "b < length ps" using next_bounds [OF l less.prems(2) 3(1)] by simp
      then have "visits hs False b y" using visits_same [OF l sh 3(2)] by simp
      then show ?thesis using k y(1) 3(1) nx by (simp add: after_build_def)
      qed
    qed
    moreover have "progress ws ps ns ks" using progress_trans [OF progress_trans [OF pm h(2)] pk] .
    ultimately show ?thesis using False by (intro exI [of _ ks]) (simp add: after_build_def)
  qed
qed

lemma visits_child: "visits ns o' a x \<Longrightarrow> pchild (ns ! x) = Some c \<Longrightarrow> visits ns o' a c"
proof (induction rule: visits.induct)
  case (here a)
  then show ?case by (intro visits.below visits.child [OF _ visits.here])
qed (auto intro: visits.intros)

lemma visits_next: "visits ns o' a x \<Longrightarrow> pnext (ns ! x) = Some y \<Longrightarrow> visits ns o' a y"
proof (induction rule: visits.induct)
  case (here a)
  then show ?case by (intro visits.later [OF _ visits.here])
qed (auto intro: visits.intros)

lemma visits_root:
  assumes l: "links ps ns" and r: "r < 26" and v: "visits ns True r x"
  shows "visits ns True 0 x"
  using r v
proof (induction r)
  case (Suc r)
  have "linked ns (Some 0) [0..<26]" using l kids_roots [OF l] by (simp add: links_def)
  from linked_nth [OF this, of r] Suc.prems(1) have "pnext (ns ! r) = Some (Suc r)" by auto
  from visits.sibling [OF this Suc.prems(2)] show ?case using Suc by simp
qed simp

lemma visits_all:
  assumes l: "links ps ns" and x: "x < length ps" "26 \<le> x"
  shows "visits ns True 0 x"
  using x
proof (induction x rule: less_induct)
  case (less x)
  obtain p where p: "p < x" "ps ! x = ps ! p @ [pch (ns ! x)]" using l less.prems unfolding links_def by blast
  have pl: "p < length ps" using p(1) less.prems(1) by simp
  let ?K = "kids ps (ps ! p)"
  have lk: "linked ns (pchild (ns ! p)) ?K" using l pl by (simp add: links_def)
  have "x \<in> set ?K" using p(2) less.prems(1) by (simp add: kids_mem)
  then obtain i where i: "i < length ?K" "?K ! i = x" by (auto simp: in_set_conv_nth)
  then obtain c as where K: "?K = c # as" by (cases ?K) auto
  have c: "pchild (ns ! p) = Some c" using lk by (simp add: K)
  have v0: "visits ns True 0 c"
  proof (cases "p < 26")
    case True
    then show ?thesis using visits_root [OF l True visits.child [OF c visits.here]] by simp
  next
    case False
    then show ?thesis using visits_child [OF less.IH [OF p(1) pl] c] by simp
  qed
  have "visits ns True 0 (?K ! j)" if "j < length ?K" for j
    using that
  proof (induction j)
    case (Suc j)
    have "pnext (ns ! (?K ! j)) = Some (?K ! Suc j)" using linked_nth [OF lk, of j] Suc.prems by simp
    moreover have "visits ns True 0 (?K ! j)" using Suc by simp
    ultimately show ?case using visits_next by blast
  qed (simp add: K v0)
  then show ?case using i by blast
qed

lemma BuildData_good:
  assumes "ends_ok ws ps ns" "sorted_index ws" "words_ok ws" "\<forall>a < 26. good ws ps ns a"
  shows "\<exists>ns'. BuildData ns = Some ns' \<and> built ws ps ns' \<and> (\<forall>a < length ps. good ws ps ns' a)"
proof -
  have l: "links ps ns" by (rule ends_links [OF assms(1)])
  then have "0 < length ps" unfolding links_def by linarith
  then obtain ns' where n: "after_build ws ps ns True (Some 0) ns'" using build_fills [OF assms(1-3)] by blast
  have "good ws ps ns' a" if "a < length ps" for a
  proof (cases "a < 26")
    case True
    then show ?thesis using n assms(4) that by (simp add: after_build_def progress_def)
  next
    case False
    then show ?thesis using n visits_all [OF l that] that by (simp add: after_build_def)
  qed
  then show ?thesis using n by (auto simp: after_build_def progress_def ends_ok_def BuildData_def BuildNode_def)
qed

section \<open>Initialize\<close>

text \<open>
  An index the program can use: its entries are in order, and exactly the letters i, u and v begin no
  syllable, as the program has it built in.
\<close>

definition index_ok :: "index \<Rightarrow> bool" where
  "index_ok ws \<longleftrightarrow> entries_ok [] ws \<and> sorted_index ws \<and> (\<forall>i < 26. has ws [letter i] \<longleftrightarrow> i \<noteq> 8 \<and> i \<noteq> 20 \<and> i \<noteq> 21)"

lemma entries_words: "entries_ok us ws \<Longrightarrow> words_ok ws"
  by (induction us ws rule: entries_ok.induct) (auto simp: words_ok_def entry_ok_def)

lemma root_ends_fold:
  "n < length ns \<Longrightarrow> length (fold (\<lambda>i ns. upd i (pend_update (\<lambda>_. pstart (ns ! (i + 1)))) ns) [0..<n] ns) = length ns \<and>
     (\<forall>a. fold (\<lambda>i ns. upd i (pend_update (\<lambda>_. pstart (ns ! (i + 1)))) ns) [0..<n] ns ! a =
       (if a < n then (ns ! a)\<lparr>pend := pstart (ns ! (a + 1))\<rparr> else ns ! a))"
  by (induction n) (auto simp: less_Suc_eq)

lemma root_ends_nth:
  assumes "26 \<le> length ns"
  shows "length (root_ends ns) = length ns"
    "root_ends ns ! a = (if a < 25 then (ns ! a)\<lparr>pend := pstart (ns ! (a + 1))\<rparr> else if a = 25 then (ns ! a)\<lparr>pend := 14668\<rparr> else ns ! a)"
  using root_ends_fold [of 25 ns] assms by (auto simp: root_ends_def)

lemma Initialize_good:
  assumes w: "index_ok ws" and mem: "\<And>n. mem n"
  shows "\<exists>ns ps. Initialize mem (Some (render ws)) old = Some (1, ns) \<and> built ws ps ns \<and> (\<forall>a < length ps. good ws ps ns a)"
proof -
  have eo: "entries_ok [] ws" and si: "sorted_index ws" and lt: "\<And>i. i < 26 \<Longrightarrow> has ws [letter i] \<longleftrightarrow> i \<noteq> 8 \<and> i \<noteq> 20 \<and> i \<noteq> 21"
    using w by (simp_all add: index_ok_def)
  have wo: "words_ok ws" by (rule entries_words [OF eo])
  have "roots_ok []" by (simp add: roots_ok_def start_of_def has_def)
  then obtain ns ps where n: "read_index mem (render ws) root_array = Some ns" and t: "tree ws ps ns"
    using read_index_tree [where mem = mem, OF eo root_array_tree _ mem] by auto
  have l: "links ps ns" using t by (simp add: tree_def)
  have len: "length ns = length ps" "26 \<le> length ps" using l by (simp_all add: links_def)
  define ms where "ms = patch_root 21 22 (patch_root 20 22 (patch_root 8 9 ns))"
  define rs where "rs = root_ends ms"
  have lm: "length ms = length ps" using len by (simp add: ms_def patch_root_def)
  have m: "pch (ms ! a) = pch (ns ! a)" "pchild (ms ! a) = pchild (ns ! a)" "pnext (ms ! a) = pnext (ns ! a)"
    "pparent (ms ! a) = pparent (ns ! a)" "26 \<le> a \<Longrightarrow> ms ! a = ns ! a" for a
    using len by (simp_all add: ms_def patch_root_def)
  have r: "length rs = length ps" "pch (rs ! a) = pch (ns ! a)" "pchild (rs ! a) = pchild (ns ! a)" "pnext (rs ! a) = pnext (ns ! a)"
    "pparent (rs ! a) = pparent (ns ! a)" "26 \<le> a \<Longrightarrow> rs ! a = ns ! a" "pstart (rs ! a) = pstart (ms ! a)" for a
    using root_ends_nth [of ms] m lm len by (simp_all add: rs_def)
  have "linked rs x as = linked ns x as" for x as by (intro linked_cong) (simp add: r)
  then have lr: "links ps rs" using l unfolding links_def r(1-5) len by simp
  have sn: "pstart (ns ! a) = start_of ws (ps ! a)" if "a < length ps" for a using t that by (simp add: tree_def)
  have gap: "before ws [letter (Suc i)] = before ws [letter i]" if "i < 25" "\<not> has ws [letter i]" for i
    using fin_letter [OF wo that(1)] has_iff [OF si, of "[letter i]"] that(2) fin_le(2) [of ws "[letter i]"] by simp
  have root: "pstart (ms ! i) = off ws (before ws [letter i])" if "i < 26" for i
  proof -
    have p: "pstart (ns ! j) = off ws (before ws [letter j])" if "j < 26" "has ws [letter j]" for j
      using sn [of j] start_off [OF si that(2)] links_path(3) [OF l, of j] that(1) len by simp
    have s: "pstart (ms ! i) = (if i = 8 then pstart (ns ! 9) else if i = 20 \<or> i = 21 then pstart (ns ! 22) else pstart (ns ! i))"
      using len by (simp add: ms_def patch_root_def)
    have "before ws [letter 9] = before ws [letter 8]" "before ws [letter 21] = before ws [letter 20]"
      "before ws [letter 22] = before ws [letter 21]"
      using gap [of 8] gap [of 20] gap [of 21] lt [of 8] lt [of 20] lt [of 21] by simp_all
    then show ?thesis using s p [of 9] p [of 22] p [of i] lt [of 9] lt [of 22] lt [OF that] that by auto
  qed
  have st: "pstart (rs ! a) = off ws (before ws (ps ! a))" if a: "a < length ps" for a
  proof (cases "a < 26")
    case True
    then show ?thesis using root [OF True] links_path(3) [OF l a True] by (simp add: r)
  next
    case False
    then have "26 \<le> a" by simp
    then show ?thesis using sn [OF a] start_off [OF si tree_has [OF t a]] by (simp add: r)
  qed
  have order: "before ws (ps ! a) < before ws (ps ! b)"
    if "26 \<le> a" "a < b" "b < length ps" "butlast (ps ! a) = butlast (ps ! b)" for a b
  proof -
    have "has ws (ps ! a)" "has ws (ps ! b)" using that by (auto intro: tree_has [OF t])
    moreover have "pos ws (ps ! a) < pos ws (ps ! b)" using that t by (simp add: tree_def)
    ultimately show ?thesis using pos_before [OF si] by simp
  qed
  have b: "built ws ps rs" using lr t st order by (simp add: built_def tree_def)
  have gr: "good ws ps rs i" if "i < 26" for i
  proof -
    have p: "ps ! i = [letter i]" using that len by (intro links_path(3) [OF l]) auto
    show ?thesis
    proof (cases "i = 25")
      case True
      then show ?thesis using p fin_z [OF wo] root_ends_nth [of ms] lm len by (simp add: good_def rs_def off_def)
    next
      case False
      then have "pend (rs ! i) = pstart (ms ! (i + 1))" using that root_ends_nth [of ms] lm len by (simp add: rs_def)
      then show ?thesis using p root [of "i + 1"] fin_letter [OF wo, of i] False that by (simp add: good_def)
    qed
  qed
  have "pend (rs ! a) = 0 \<or> good ws ps rs a" if a: "a < length ps" for a
  proof (cases "a < 26")
    case True
    then show ?thesis using gr by simp
  next
    case False
    then have ge: "26 \<le> a" by simp
    consider "pend (ns ! a) = 0" | c where "c < length ps" "pnext (ns ! a) = Some c" "pend (ns ! a) = pstart (ns ! c)" "26 \<le> c"
      using t a ge unfolding tree_def by blast
    then show ?thesis
    proof cases
      case 2
      then have "before ws (ps ! c) = fin ws (ps ! a)" using next_kid [OF b si a ge] by (simp add: r)
      then show ?thesis using 2 st [OF 2(1)] ge by (simp add: good_def r)
    qed (simp add: r ge)
  qed
  then have "ends_ok ws ps rs" using b by (simp add: ends_ok_def)
  then obtain ns' where "BuildData rs = Some ns'" "built ws ps ns'" "\<forall>a < length ps. good ws ps ns' a"
    using BuildData_good [OF _ si wo] gr by blast
  moreover have "Initialize mem (Some (render ws)) old = map_option (Pair 1) (BuildData rs)"
    by (simp add: Initialize_def n ms_def rs_def map_conv_bind_option Let_def comp_def)
  ultimately show ?thesis by auto
qed

section \<open>Following the user\<close>

text \<open>A user types a letter, takes the last one back, or starts again; the program asks with the new text.\<close>

datatype key = Type char | Back | Clear

fun send :: "pnodes \<Rightarrow> key \<Rightarrow> string \<times> finder \<Rightarrow> (string \<times> finder) option" where
  "send ns (Type c) (buf, f) = FindCandidate ns (buf @ [c]) f"
| "send ns Back (buf, f) = FindCandidate ns (butlast buf) f"
| "send ns Clear (buf, f) = FindCandidate ns [] f"

fun sends :: "pnodes \<Rightarrow> key list \<Rightarrow> string \<times> finder \<Rightarrow> (string \<times> finder) option" where
  "sends ns [] s = Some s"
| "sends ns (k # ks) s = do { s \<leftarrow> send ns k s; sends ns ks s }"

text \<open>What the text should be: a letter is accepted when some syllable begins that way, or as a first letter.\<close>

fun press :: "index \<Rightarrow> key \<Rightarrow> string \<Rightarrow> string" where
  "press ws (Type c) w = (if lower c \<and> (w = [] \<or> has ws (w @ [c])) then w @ [c] else w)"
| "press ws Back w = butlast w"
| "press ws Clear w = []"

text \<open>
  Where its characters should lie: from the offset of the first syllable that is not below \<open>w\<close>, through
  all that begin with \<open>w\<close>.
\<close>

definition part :: "index \<Rightarrow> string \<Rightarrow> int \<times> int" where
  "part ws w = (off ws (before ws w), off ws (before ws w + count ws w))"

definition follows :: "index \<Rightarrow> string list \<Rightarrow> string \<Rightarrow> finder \<Rightarrow> bool" where
  "follows ws ps w f \<longleftrightarrow> (if w = [] then current f = None
     else \<exists>a < length ps. current f = Some a \<and> ps ! a = w \<and> olen f = int (length w) \<and> found f = Some (part ws w))"

lemma lower_letter: "lower c \<longleftrightarrow> (\<exists>i < 26. c = letter i)"
proof
  assume "\<exists>i < 26. c = letter i"
  then show "lower c" by (auto simp: lower_def letter_def)
qed (use letter_lower [of c] in blast)

lemma path_lower:
  assumes "words_ok ws" "path_of ws w"
  shows "list_all lower w"
proof -
  consider i where "i < 26" "w = [letter i]" | e where "e \<in> set ws" "prefix w (fst e)"
    using assms(2) by (auto simp: path_of_def has_def)
  then show ?thesis
  proof cases
    case 1
    then show ?thesis using lower_letter by auto
  next
    case 2
    then show ?thesis using assms(1) set_mono_prefix [OF 2(2)] unfolding words_ok_def list_all_iff by blast
  qed
qed

lemma candidate_part:
  assumes "built ws ps ns" "\<forall>a < length ps. good ws ps ns a" "a < length ps" "ps ! a = w"
  shows "follows ws ps w (candidate ns a (int (length w)) f)"
proof -
  have "w \<noteq> []" using assms links_path(1) [of ps ns a] by (auto simp: built_def)
  then show ?thesis
    using assms by (auto simp: follows_def candidate_def built_def good_def part_def fin_count)
qed

lemma send_follows:
  assumes b: "built ws ps ns" and g: "\<forall>a < length ps. good ws ps ns a" and wo: "words_ok ws" and f: "follows ws ps w f"
  shows "\<exists>f'. send ns k (w, f) = Some (press ws k w, f') \<and> follows ws ps (press ws k w) f'"
proof -
  have l: "links ps ns" and m: "set ps = {v. path_of ws v}" using b by (simp_all add: built_def)
  have len: "26 \<le> length ps" "length ns = length ps" using l by (simp_all add: links_def)
  have lw: "list_all lower w" if "w \<noteq> []"
  proof -
    have "w \<in> set ps" using f that by (auto simp: follows_def)
    then show ?thesis using path_lower [OF wo] by (simp add: m)
  qed
  note cp = candidate_part [OF b g]
  have empty: "\<exists>f'. FindCandidate ns [] f = Some ([], f') \<and> follows ws ps [] f'" for f
    by (simp add: FindCandidate_def follows_def)
  show ?thesis
  proof (cases k)
    case (Type c)
    show ?thesis
    proof (cases "lower c")
      case False
      have "takeWhile lower (w @ [c]) = w" using lw False by (cases "w = []") (auto simp: list_all_iff takeWhile_append2)
      then show ?thesis using False f Type by (simp add: FindCandidate_def)
    next
      case lc: True
      show ?thesis
      proof (cases "w = []")
        case True
        obtain i where i: "i < 26" "c = letter i" "letter_index c = int i" using letter_lower [OF lc] by blast
        have "current f = None" using f True by (simp add: follows_def)
        then have "FindCandidate ns [c] f = Some ([c], candidate ns i 1 f)" using lc i(3) by (simp add: FindCandidate_def)
        moreover have "follows ws ps [c] (candidate ns i 1 f)"
          using cp [of i "[c]" f] links_path(3) [OF l, of i] i len by simp
        ultimately show ?thesis using True Type lc by simp
      next
        case False
        obtain a where a: "a < length ps" "current f = Some a" "ps ! a = w" "olen f = int (length w)"
          using f False by (auto simp: follows_def)
        have "linked ns (pchild (ns ! a)) (kids ps w)" using l a(1,3) by (auto simp: links_def)
        note sc = scan_linked [OF this, of c]
        have two: "2 \<le> length (w @ [c])" using False by (cases w) auto
        have F: "FindCandidate ns (w @ [c]) f = do {
            t \<leftarrow> scan ns (pchild (ns ! a)) c;
            case t of None \<Rightarrow> Some (w, f) | Some b \<Rightarrow> Some (w @ [c], candidate ns b (int (length (w @ [c]))) f) }"
          using lw [OF False] lc a by (simp add: FindCandidate_def nth_append cong: option.case_cong)
        show ?thesis
        proof (cases "List.find (\<lambda>a. pch (ns ! a) = c) (kids ps w)")
          case None
          then have "w @ [c] \<notin> set ps" using find_kid [OF l False, of c] by simp
          then have "\<not> has ws (w @ [c])" using two unfolding m path_of_def by simp
          then show ?thesis using F sc None f False Type by simp
        next
          case (Some b)
          then have b': "b < length ps" "ps ! b = w @ [c]" using find_kid [OF l False, of c] by simp_all
          then have "w @ [c] \<in> set ps" using nth_mem by metis
          then have "has ws (w @ [c])" using two False unfolding m path_of_def by (cases w) auto
          then show ?thesis using F sc Some lc Type cp [OF b', of f] by simp
        qed
      qed
    qed
  next
    case Back
    show ?thesis
    proof (cases "length w \<le> 1")
      case True
      then have "butlast w = []" by (cases w) auto
      then show ?thesis using empty [of f] Back by simp
    next
      case False
      then have ne: "w \<noteq> []" "butlast w \<noteq> []" by (cases w; cases "tl w"; auto)+
      obtain a where a: "a < length ps" "current f = Some a" "ps ! a = w" "olen f = int (length w)"
        using f ne(1) by (auto simp: follows_def)
      have "26 \<le> a" using links_path(3) [OF l a(1)] a(3) False by (cases "a < 26") auto
      then obtain p where p: "p < a" "pparent (ns ! a) = Some p" "w = ps ! p @ [pch (ns ! a)]"
        using l a(1,3) unfolding links_def by blast
      have "list_all lower (butlast w)" using lw [OF ne(1)] by (auto simp: list_all_iff dest: in_set_butlastD)
      then have "FindCandidate ns (butlast w) f = Some (butlast w, candidate ns p (int (length (butlast w))) f)"
        using ne a p(2) False by (simp add: FindCandidate_def Let_def)
      moreover have "follows ws ps (butlast w) (candidate ns p (int (length (butlast w))) f)"
        using p(1) a(1) by (intro cp) (simp_all add: p(3))
      ultimately show ?thesis using Back by simp
    qed
  next
    case Clear
    then show ?thesis using empty [of f] by simp
  qed
qed

lemma sends_follow:
  assumes "built ws ps ns" "\<forall>a < length ps. good ws ps ns a" "words_ok ws" "follows ws ps w f"
  shows "\<exists>f'. sends ns ks (w, f) = Some (fold (press ws) ks w, f') \<and> follows ws ps (fold (press ws) ks w) f'"
  using assms(4)
proof (induction ks arbitrary: w f)
  case (Cons k ks)
  obtain f1 where "send ns k (w, f) = Some (press ws k w, f1)" "follows ws ps (press ws k w) f1"
    using send_follows [OF assms(1-3) Cons.prems] by blast
  then show ?case using Cons.IH by simp
qed simp

text \<open>
  C10: the pinyin search, from the index file to the user.  \<open>Initialize\<close> reads the index, builds the tree
  and returns 1; from then on, whatever the user types, takes back or clears, the search never follows a null
  pointer, the text is the longest accepted one, and the two numbers the caller receives bound exactly
  the part of the character file that belongs to the syllables with that beginning (for the letters i, u and
  v, an empty part).
\<close>
theorem pinyin_search:
  assumes "index_ok ws" and "\<And>n. mem n"
  shows "\<exists>ns. Initialize mem (Some (render ws)) old = Some (1, ns) \<and>
    (\<forall>ks f. current f = None \<longrightarrow> (\<exists>f'. sends ns ks ([], f) = Some (fold (press ws) ks [], f') \<and>
      (fold (press ws) ks [] \<noteq> [] \<longrightarrow> found f' = Some (part ws (fold (press ws) ks [])))))"
proof -
  have wo: "words_ok ws" using assms(1) entries_words by (auto simp: index_ok_def)
  obtain ns ps where n: "Initialize mem (Some (render ws)) old = Some (1, ns)" "built ws ps ns" "\<forall>a < length ps. good ws ps ns a"
    using Initialize_good [where mem = mem, OF assms] by blast
  have "\<exists>f'. sends ns ks ([], f) = Some (fold (press ws) ks [], f') \<and>
      (fold (press ws) ks [] \<noteq> [] \<longrightarrow> found f' = Some (part ws (fold (press ws) ks [])))" if "current f = None" for ks f
  proof -
    have "follows ws ps [] f" using that by (simp add: follows_def)
    then show ?thesis using sends_follow [OF n(2,3) wo, of "[]" f ks] by (auto simp: follows_def)
  qed
  then show ?thesis using n(1) by blast
qed

text \<open>The first entries of the index file, and one for every other letter.\<close>

definition demo_index :: index where
  "demo_index = [(''a'', 0), (''ai'', 14), (''an'', 60), (''ang'', 100), (''ao'', 106), (''ba'', 154), (''bai'', 206), (''ca'', 844),
     (''da'', 1354), (''e'', 1920), (''fa'', 2060), (''ga'', 2660), (''ha'', 3200), (''huan'', 4084), (''huan'', 4134), (''huang'', 4142),
     (''ji'', 4342), (''ka'', 5500), (''la'', 6000), (''ma'', 6900), (''na'', 7500), (''o'', 7900), (''pa'', 7920), (''qi'', 8300),
     (''ran'', 9132), (''sa'', 9500), (''ta'', 10200), (''wa'', 10948), (''xi'', 11378), (''ya'', 12224), (''za'', 13456)]"

lemma demo_index_ok: "index_ok demo_index"
  unfolding index_ok_def sorted_index_def by code_simp

definition finder_zero :: finder where
  "finder_zero = \<lparr>current = None, olen = 0, found = None\<rparr>"

lemma demo_keys:
  "fold (press demo_index) [Type CHR ''h'', Type CHR ''x'', Type CHR ''u'', Type CHR ''a'', Type CHR ''n'', Type CHR ''g'', Back] [] = ''huan''"
  "part demo_index ''huan'' = (4084, 4342)"
  by code_simp+

theorem pinyin_search_witness:
  "\<exists>ns f'. Initialize (\<lambda>n. True) (Some (render demo_index)) [] = Some (1, ns) \<and>
    sends ns [Type CHR ''h'', Type CHR ''x'', Type CHR ''u'', Type CHR ''a'', Type CHR ''n'', Type CHR ''g'', Back] ([], finder_zero) =
      Some (''huan'', f') \<and> found f' = Some (4084, 4342)"
proof -
  let ?ks = "[Type CHR ''h'', Type CHR ''x'', Type CHR ''u'', Type CHR ''a'', Type CHR ''n'', Type CHR ''g'', Back]"
  obtain ns where n: "Initialize (\<lambda>n. True) (Some (render demo_index)) [] = Some (1, ns)"
    "\<And>ks f. current f = None \<Longrightarrow> \<exists>f'. sends ns ks ([], f) = Some (fold (press demo_index) ks [], f') \<and>
      (fold (press demo_index) ks [] \<noteq> [] \<longrightarrow> found f' = Some (part demo_index (fold (press demo_index) ks [])))"
    using pinyin_search [OF demo_index_ok, of "\<lambda>n. True" "[]"] by blast
  have "current finder_zero = None" by (simp add: finder_zero_def)
  from n(2) [OF this, of ?ks] show ?thesis using n(1) unfolding demo_keys by auto
qed

end
