(* ===== verification/Handpad.thy ===== *)
theory Handpad
  imports Gfx_Line Gfx_Image Gfx_Text
begin

text \<open>
  The handwriting pad (EXP19/app/handpad/handpad.c): samples of the touch screen are filtered, averaged by
  three, turned into screen coordinates, and joined by lines with the drawing library (of which the
  directory holds an identical copy).  The keyboard part of \<open>main\<close> is compiled out; so \<open>index\<close> stays
  \<open>0xffff\<close>, and the \<open>fillrect\<close> that depends on it never runs.
\<close>

section \<open>Positions\<close>

text \<open>A sample is \<open>(pressure, x, y)\<close>, unsigned 16-bit numbers.\<close>

type_synonym sample = "int \<times> int \<times> int"

definition get_average_num :: "int \<Rightarrow> int \<Rightarrow> int \<Rightarrow> int" where
  "get_average_num x y z = (x + y + z) sdiv 3"

definition handpad_max :: "int \<Rightarrow> int \<Rightarrow> int" where
  "handpad_max x y = (if x > y then x else y)"

definition handpad_min :: "int \<Rightarrow> int \<Rightarrow> int" where
  "handpad_min x y = (if x > y then y else x)"

definition middle :: "int \<Rightarrow> int \<Rightarrow> int \<Rightarrow> int" where
  "middle x y z = x + y + z - handpad_min (handpad_min x y) z - handpad_max (handpad_max x y) z"

definition usable :: "sample \<Rightarrow> bool" where
  "usable s = (case s of (p, x, y) \<Rightarrow> p \<noteq> 0 \<and> \<not> (y \<ge> 1022 \<or> x \<ge> 1022 \<or> y \<le> 72 \<or> x \<le> 90))"

text \<open>
  The loop of \<open>get_handpad\<close>: \<open>ok\<close> is the filter, \<open>xa\<close>, \<open>ya\<close> are the values kept so far.  The list is what the device
  delivers; \<open>None\<close> when the loop is still waiting at its end.
\<close>

fun handpad_loop :: "(sample \<Rightarrow> bool) \<Rightarrow> int list \<Rightarrow> int list \<Rightarrow> sample list \<Rightarrow> (int list \<times> int list \<times> sample list) option" where
  "handpad_loop ok xa ya ss =
    (if length xa = 3 then Some (xa, ya, ss)
     else case ss of [] \<Rightarrow> None
       | s # ss \<Rightarrow> if ok s then handpad_loop ok (xa @ [fst (snd s)]) (ya @ [snd (snd s)]) ss else handpad_loop ok xa ya ss)"

declare handpad_loop.simps [simp del]

definition to_x :: "int list \<Rightarrow> int" where
  "to_x xa = u16 ((get_average_num (xa ! 0) (xa ! 1) (xa ! 2) - 167) * (220 - 20) sdiv (924 - 167) + 20)"

definition to_y :: "int list \<Rightarrow> int" where
  "to_y ya = u16 (300 - (get_average_num (ya ! 0) (ya ! 1) (ya ! 2) - 128) * (300 - 20) sdiv (945 - 128))"

definition get_handpad :: "sample list \<Rightarrow> (int \<times> int \<times> sample list) option" where
  "get_handpad ss = (case handpad_loop usable [] [] ss of None \<Rightarrow> None
     | Some (xa, ya, ss) \<Rightarrow> Some (to_x xa, to_y ya, ss))"

section \<open>The program\<close>

record hpad =
  paper :: gfx
  oldx :: int
  oldy :: int

text \<open>\<open>main\<close> before its loop, when the device opens; the results of \<open>initgraph\<close>'s calls are parameters.\<close>

definition handpad_start :: "int \<Rightarrow> bool \<Rightarrow> bool \<Rightarrow> bool \<Rightarrow> gdev \<Rightarrow> gfx \<Rightarrow> hpad" where
  "handpad_start opened info_ok map_ok font_ok d g =
    (let (_, d, g) = initgraph opened info_ok map_ok font_ok d g;
         g = clearscreen g;
         g = setmode MODE_SRC_XOR_DST g;
         g = moveto 220 20 g;
         g = lineto 220 300 g;
         g = moveto 220 300 g;
         g = lineto 20 300 g
     in \<lparr>paper = g, oldx = 0, oldy = 0\<rparr>)"

definition handpad_turn :: "int \<Rightarrow> int \<Rightarrow> hpad \<Rightarrow> hpad" where
  "handpad_turn x y s =
    (let err = u16 (if oldx s > x then oldx s - x else x - oldx s);
         err = u16 (err + (if oldy s > y then oldy s - y else y - oldy s));
         s = s\<lparr>oldx := x, oldy := y\<rparr>
     in if err > 0 \<and> err < 20 then s\<lparr>paper := lineto (s16 x) (s16 y) (paper s)\<rparr>
        else s\<lparr>paper := moveto (s16 x) (s16 y) (paper s)\<rparr>)"

lemma handpad_loop_shrinks:
  assumes "handpad_loop ok xa ya ss = Some (xb, yb, rs)"
  shows "length rs \<le> length ss \<and> (length xa < 3 \<longrightarrow> length rs < length ss)"
  using assms
proof (induction ss arbitrary: xa ya)
  case Nil
  then show ?case by (subst (asm) handpad_loop.simps) (auto split: if_splits)
next
  case (Cons s ss)
  note step = Cons.prems [unfolded handpad_loop.simps [of ok xa ya "s # ss"]]
  show ?case
  proof (cases "length xa = 3")
    case True
    then show ?thesis using step by simp
  next
    case wait: False
    show ?thesis
    proof (cases "ok s")
      case True
      then show ?thesis using Cons.IH [of "xa @ [fst (snd s)]"] step wait by fastforce
    next
      case False
      then show ?thesis using Cons.IH [of xa] step wait by fastforce
    qed
  qed
qed

function handpad_run :: "sample list \<Rightarrow> hpad \<Rightarrow> hpad" where
  "handpad_run ss s = (case get_handpad ss of None \<Rightarrow> s | Some (x, y, rs) \<Rightarrow> handpad_run rs (handpad_turn x y s))"
  by auto
termination
proof (relation "measure (\<lambda>(ss, s). length ss)")
  fix ss :: "sample list" and s s' rs x y and xyr yr
  assume "get_handpad ss = Some xyr" "(x, yr) = xyr" "(y, rs) = yr"
  then obtain xa ya where "handpad_loop usable [] [] ss = Some (xa, ya, rs)"
    by (auto simp: get_handpad_def split: option.splits prod.splits)
  then show "((rs, handpad_turn x y s), ss, s) \<in> measure (\<lambda>(ss, s). length ss)"
    using handpad_loop_shrinks by fastforce
qed simp

declare handpad_run.simps [simp del]

section \<open>What the user sees\<close>

text \<open>
  The positions of a list of usable samples: three samples give one position, on or a little beside the
  display; samples left over wait for more.
\<close>

definition place :: "sample \<Rightarrow> sample \<Rightarrow> sample \<Rightarrow> int \<times> int" where
  "place a b c =
    (((fst (snd a) + fst (snd b) + fst (snd c)) div 3 - 167) * 200 sdiv 757 + 20,
     300 - ((snd (snd a) + snd (snd b) + snd (snd c)) div 3 - 128) * 280 sdiv 817)"

fun places :: "sample list \<Rightarrow> (int \<times> int) list" where
  "places (a # b # c # ss) = place a b c # places ss"
| "places ss = []"

text \<open>
  Two positions are joined when they are less than 20 apart, in the sum of both coordinates, and different.
  The coordinates are unsigned to the program: above the upper edge (\<open>y < 0\<close>) \<open>y\<close> has wrapped, and
  across that edge the sum wraps too, so that the vertical distance is subtracted.
\<close>

definition joined :: "int \<times> int \<Rightarrow> int \<times> int \<Rightarrow> bool" where
  "joined p q =
    (let dx = \<bar>fst p - fst q\<bar>; dy = \<bar>snd p - snd q\<bar>;
         d = (if (snd p < 0) = (snd q < 0) then dx + dy else dx - dy)
     in 0 < d \<and> d < 20)"

fun strokes :: "int \<times> int \<Rightarrow> int \<times> int \<Rightarrow> (int \<times> int) list \<Rightarrow> (int \<times> int) set" where
  "strokes pen old [] = {}"
| "strokes pen old (q # qs) =
     (if joined old q then set (line_points (fst q) (snd q) (fst pen) (snd pen)) else {}) \<union> strokes q q qs"

section \<open>The positions the program computes\<close>

definition near :: "int \<times> int \<Rightarrow> bool" where
  "near p \<longleftrightarrow> 0 \<le> fst p \<and> fst p \<le> 245 \<and> -6 \<le> snd p \<and> snd p \<le> 318"

lemma near_drawable: "near p \<Longrightarrow> drawable p"
  by (simp add: near_def drawable_def)

lemma u16_low: "-65536 \<le> z \<Longrightarrow> z < 0 \<Longrightarrow> u16 z = z + 65536"
  using mod_add_self2 [of z 65536] by (simp add: u16_def mod_pos_pos_trivial del: mod_add_self2)

lemma near_wrap:
  assumes "near p"
  shows "s16 (u16 (fst p)) = fst p" "s16 (u16 (snd p)) = snd p"
proof -
  have "s16 (u16 z) = z" if "-32768 \<le> z" "z < 32768" for z
  proof (cases "z < 0")
    case True
    then show ?thesis using that by (simp add: u16_low s16_high)
  qed (use that in \<open>simp add: u16_id s16_id\<close>)
  then show "s16 (u16 (fst p)) = fst p" "s16 (u16 (snd p)) = snd p" using assms by (simp_all add: near_def)
qed

lemma sdiv_bounds:
  fixes a b :: int
  assumes "0 < b" "-(m + 1) * b < a" "a < (n + 1) * b" "0 \<le> m" "0 \<le> n"
  shows "-m \<le> a sdiv b" "a sdiv b \<le> n"
proof -
  show "-m \<le> a sdiv b"
  proof (cases "0 \<le> a")
    case True
    then have "0 \<le> a div b" using assms(1) by (simp add: pos_imp_zdiv_nonneg_iff)
    then show ?thesis using True assms(1,4) by (simp add: sdiv_nonneg)
  next
    case False
    then have "a sdiv b = - ((-a) div b)" using assms(1) by (simp add: signed_divide_int_def sgn_if)
    moreover have "b * ((-a) div b) < b * (m + 1)"
      using int_div_bounds(1) [OF assms(1), of "-a"] assms(2) by (simp add: algebra_simps)
    then have "(-a) div b < m + 1" using mult_less_cancel_left_pos [OF assms(1)] by blast
    ultimately show ?thesis by simp
  qed
  show "a sdiv b \<le> n"
  proof (cases "0 \<le> a")
    case True
    have "b * (a div b) < b * (n + 1)" using int_div_bounds(1) [OF assms(1), of a] assms(3) by (simp add: algebra_simps)
    then have "a div b < n + 1" using mult_less_cancel_left_pos [OF assms(1)] by blast
    then show ?thesis using True assms(1) by (simp add: sdiv_nonneg)
  next
    case False
    then have "a sdiv b = - ((-a) div b)" using assms(1) by (simp add: signed_divide_int_def sgn_if)
    moreover have "0 \<le> (-a) div b" using False assms(1) by (simp add: pos_imp_zdiv_nonneg_iff)
    ultimately show ?thesis using assms(5) by linarith
  qed
qed

lemma place_near:
  assumes "usable a" "usable b" "usable c"
  shows "near (place a b c)"
proof -
  have ave: "lo \<le> (u + v + w) div 3 \<and> (u + v + w) div 3 \<le> hi" if "lo \<le> u" "lo \<le> v" "lo \<le> w" "u \<le> hi" "v \<le> hi" "w \<le> hi"
    for u v w lo hi :: int using that by linarith
  define s t where "s = (fst (snd a) + fst (snd b) + fst (snd c)) div 3" and "t = (snd (snd a) + snd (snd b) + snd (snd c)) div 3"
  have "91 \<le> s \<and> s \<le> 1021" "73 \<le> t \<and> t \<le> 1021"
    unfolding s_def t_def using assms by (intro ave; auto simp: usable_def split: prod.splits)+
  then have "-20 \<le> (s - 167) * 200 sdiv 757" "(s - 167) * 200 sdiv 757 \<le> 225"
    and "-18 \<le> (t - 128) * 280 sdiv 817" "(t - 128) * 280 sdiv 817 \<le> 306"
    using sdiv_bounds [of 757 20 "(s - 167) * 200" 225] sdiv_bounds [of 817 18 "(t - 128) * 280" 306] by simp_all
  then show ?thesis by (simp add: near_def place_def s_def t_def)
qed

lemma handpad_loop_takes:
  assumes "length xa \<le> 3"
  shows "if 3 \<le> length xa + length (filter ok ss)
    then \<exists>rs. handpad_loop ok xa ya ss = Some (xa @ map (fst \<circ> snd) (take (3 - length xa) (filter ok ss)),
                ya @ map (snd \<circ> snd) (take (3 - length xa) (filter ok ss)), rs) \<and>
              filter ok rs = drop (3 - length xa) (filter ok ss)
    else handpad_loop ok xa ya ss = None"
  using assms
proof (induction ss arbitrary: xa ya)
  case Nil
  then show ?case by (auto simp: handpad_loop.simps [of ok xa ya])
next
  case (Cons s ss)
  show ?case
  proof (cases "length xa = 3")
    case True
    then show ?thesis by (simp add: handpad_loop.simps [of ok xa ya])
  next
    case wait: False
    then have n: "3 - length xa = Suc (2 - length xa)" "length xa \<le> 2" using Cons.prems by simp_all
    show ?thesis
    proof (cases "ok s")
      case True
      then show ?thesis
        using wait n(2) Cons.IH [of "xa @ [fst (snd s)]" "ya @ [snd (snd s)]"]
        by (simp add: handpad_loop.simps [of ok xa ya "s # ss"] n(1) split: if_splits)
    next
      case False
      then show ?thesis
        using wait n(2) Cons.IH [of xa ya] by (simp add: handpad_loop.simps [of ok xa ya "s # ss"])
    qed
  qed
qed

lemma handpad_loop_cases:
  obtains (waits) "handpad_loop ok [] [] ss = None" "length (filter ok ss) < 3"
  | (three) a b c rs where "ok a" "ok b" "ok c" "filter ok ss = a # b # c # filter ok rs"
      "handpad_loop ok [] [] ss = Some (map (fst \<circ> snd) [a, b, c], map (snd \<circ> snd) [a, b, c], rs)"
proof (cases "3 \<le> length (filter ok ss)")
  case False
  then show ?thesis using handpad_loop_takes [of "[]" ok ss "[]"] waits by simp
next
  case True
  then obtain a b c us where us: "filter ok ss = a # b # c # us"
    by (cases "filter ok ss"; cases "tl (filter ok ss)"; cases "tl (tl (filter ok ss))") auto
  obtain rs where "handpad_loop ok [] [] ss = Some (map (fst \<circ> snd) [a, b, c], map (snd \<circ> snd) [a, b, c], rs)" "filter ok rs = us"
    using handpad_loop_takes [of "[]" ok ss "[]"] True us by auto
  moreover have "set (filter ok ss) \<subseteq> {s. ok s}" by auto
  then have "ok a" "ok b" "ok c" unfolding us by simp_all
  ultimately show ?thesis using three us by blast
qed

lemma average_nonneg: "0 \<le> u \<Longrightarrow> 0 \<le> v \<Longrightarrow> 0 \<le> w \<Longrightarrow> get_average_num u v w = (u + v + w) div 3"
  by (simp add: get_average_num_def sdiv_nonneg)

lemma places_short: "length us < 3 \<Longrightarrow> places us = []"
  by (induction us rule: places.induct) simp_all

lemma handpad_cases:
  obtains (waits) "get_handpad ss = None" "places (filter usable ss) = []"
  | (position) a b c rs where "usable a" "usable b" "usable c" "filter usable ss = a # b # c # filter usable rs"
      "get_handpad ss = Some (u16 (fst (place a b c)), u16 (snd (place a b c)), rs)"
proof (cases rule: handpad_loop_cases [of usable ss])
  case waits
  then show ?thesis using that(1) by (simp add: get_handpad_def places_short)
next
  case (three a b c rs)
  have "to_x (map (fst \<circ> snd) [a, b, c]) = u16 (fst (place a b c))" "to_y (map (snd \<circ> snd) [a, b, c]) = u16 (snd (place a b c))"
    using three(1-3) by (simp_all add: to_x_def to_y_def place_def usable_def average_nonneg split: prod.splits)
  then show ?thesis using that(2) [of a b c rs] three by (simp add: get_handpad_def del: list.map)
qed

section \<open>One position\<close>

definition pen_at :: "int \<times> int \<Rightarrow> int \<times> int \<Rightarrow> hpad \<Rightarrow> bool" where
  "pen_at pen old s \<longleftrightarrow> near pen \<and> near old \<and> gX (paper s) = u16 (fst pen) \<and> gY (paper s) = u16 (snd pen) \<and>
     oldx s = u16 (fst old) \<and> oldy s = u16 (snd old) \<and> gColor (paper s) = 1"

lemma wrapped_distance:
  assumes "near p" "near q"
  shows "u16 (u16 \<bar>u16 (fst p) - u16 (fst q)\<bar> + \<bar>u16 (snd p) - u16 (snd q)\<bar>) =
    (let dx = \<bar>fst p - fst q\<bar>; dy = \<bar>snd p - snd q\<bar> in if (snd p < 0) = (snd q < 0) then dx + dy else (dx - dy) mod 65536)"
proof -
  have w: "u16 z = (if z < 0 then z + 65536 else z)" if "-6 \<le> z" "z \<le> 318" for z
    using that by (simp add: u16_id u16_low)
  let ?dx = "\<bar>fst p - fst q\<bar>" and ?dy = "\<bar>snd p - snd q\<bar>"
  have "\<bar>fst p - fst q\<bar> \<le> 245" using assms by (auto simp: near_def)
  then have x: "u16 \<bar>u16 (fst p) - u16 (fst q)\<bar> = ?dx" using assms by (simp add: near_def u16_id)
  have y: "\<bar>u16 (snd p) - u16 (snd q)\<bar> = (if (snd p < 0) = (snd q < 0) then ?dy else 65536 - ?dy)"
    using assms by (auto simp: near_def w)
  have "?dx \<le> 245" "?dy \<le> 324" using assms by (auto simp: near_def)
  moreover have "u16 (?dx + (65536 - ?dy)) = (?dx - ?dy) mod 65536"
    using mod_add_self2 [of "?dx - ?dy" 65536] by (simp add: u16_def algebra_simps)
  ultimately show ?thesis unfolding x y by (simp add: Let_def u16_id)
qed

lemma joined_iff:
  assumes "near p" "near q"
  shows "(let d = u16 (u16 \<bar>u16 (fst p) - u16 (fst q)\<bar> + \<bar>u16 (snd p) - u16 (snd q)\<bar>) in 0 < d \<and> d < 20) = joined p q"
proof -
  have b: "\<bar>fst p - fst q\<bar> \<le> 245" "\<bar>snd p - snd q\<bar> \<le> 324" using assms by (auto simp: near_def)
  have "z mod 65536 = (if z < 0 then z + 65536 else z)" if "-324 \<le> z" "z \<le> 245" for z :: int
    using that u16_low [of z] u16_id [of z] by (simp add: u16_def)
  from this [of "\<bar>fst p - fst q\<bar> - \<bar>snd p - snd q\<bar>"] b show ?thesis
    unfolding wrapped_distance [OF assms] by (auto simp: joined_def Let_def)
qed

lemma pixel_moveto: "pixel (moveto a b k) p = pixel k p"
  by (simp add: pixel_def moveto_def)

lemma handpad_turn_draws:
  assumes "pen_at pen old s" "near q"
  shows "pen_at q q (handpad_turn (u16 (fst q)) (u16 (snd q)) s)"
    and "on_screen p \<Longrightarrow> pixel (paper (handpad_turn (u16 (fst q)) (u16 (snd q)) s)) p =
      (if joined old q \<and> p \<in> set (line_points (fst q) (snd q) (fst pen) (snd pen)) then ink 1 else pixel (paper s) p)"
    and "oob (paper (handpad_turn (u16 (fst q)) (u16 (snd q)) s)) = oob (paper s)"
proof -
  let ?x = "u16 (fst q)" and ?y = "u16 (snd q)"
  have s: "near old" "near pen" "gX (paper s) = u16 (fst pen)" "gY (paper s) = u16 (snd pen)"
    "oldx s = u16 (fst old)" "oldy s = u16 (snd old)" "gColor (paper s) = 1"
    using assms(1) by (simp_all add: pen_at_def)
  have dist: "(if a > b then a - b else b - a) = \<bar>a - b\<bar>" for a b :: int by auto
  have turn: "handpad_turn ?x ?y s = s\<lparr>oldx := ?x, oldy := ?y,
      paper := (if joined old q then lineto (fst q) (snd q) (paper s) else moveto (fst q) (snd q) (paper s))\<rparr>"
    unfolding handpad_turn_def dist s(5,6) near_wrap [OF assms(2)] Let_def joined_iff [OF s(1) assms(2), unfolded Let_def]
    by simp
  have dr: "drawable (fst q, snd q)" "drawable (fst pen, snd pen)" using near_drawable assms(2) s(2) by simp_all
  have l: "lineto (fst q) (snd q) (paper s) = moveto (fst q) (snd q) (line (fst q) (snd q) (fst pen) (snd pen) (paper s))"
    unfolding lineto_def s(3,4) near_wrap [OF s(2)] ..
  have c: "s16 1 = 1" by (simp add: s16_def)
  show "pen_at q q (handpad_turn ?x ?y s)"
    unfolding turn l using s(7) line_frame(1) [OF dr, of "paper s"] by (simp add: pen_at_def assms(2) moveto_def)
  show "oob (paper (handpad_turn ?x ?y s)) = oob (paper s)"
    unfolding turn l using line_frame(2) [OF dr, of "paper s"] by (simp add: moveto_def)
  show "pixel (paper (handpad_turn ?x ?y s)) p =
      (if joined old q \<and> p \<in> set (line_points (fst q) (snd q) (fst pen) (snd pen)) then ink 1 else pixel (paper s) p)"
    if "on_screen p"
    unfolding turn l using line_pixel [OF dr that, of "paper s"] by (simp add: pixel_moveto s(7) c)
qed

lemma handpad_run_draws:
  assumes "pen_at pen old s"
  shows "(on_screen p \<longrightarrow> pixel (paper (handpad_run ss s)) p =
      (if p \<in> strokes pen old (places (filter usable ss)) then ink 1 else pixel (paper s) p)) \<and>
    oob (paper (handpad_run ss s)) = oob (paper s)"
  using assms
proof (induction ss s arbitrary: pen old rule: handpad_run.induct)
  case (1 ss s)
  show ?case
  proof (cases ss rule: handpad_cases)
    case waits
    then show ?thesis by (simp add: handpad_run.simps [of ss])
  next
    case (position a b c rs)
    note q = place_near [OF position(1-3)]
    note turn = handpad_turn_draws [OF 1(2) q]
    show ?thesis
      using 1(1) [OF position(5) refl refl turn(1)] turn(2,3) position(4,5)
      by (simp add: handpad_run.simps [of ss])
  qed
qed

section \<open>The program from its start\<close>

lemma handpad_start_draws:
  assumes "opened \<noteq> -1"
  shows "pen_at (20, 300) (0, 0) (handpad_start opened True True True d g)"
    and "on_screen p \<Longrightarrow> pixel (paper (handpad_start opened True True True d g)) p =
      (if (fst p = 220 \<and> 20 \<le> snd p \<and> snd p \<le> 300) \<or> (snd p = 300 \<and> 20 \<le> fst p \<and> fst p \<le> 220) then ink 1 else (0, 0))"
    and "oob (paper (handpad_start opened True True True d g)) = oob g"
proof -
  define h where "h = setmode MODE_SRC_XOR_DST (clearscreen (g\<lparr>gColor := 1\<rparr>))"
  have dr: "drawable (220, 20)" "drawable (220, 300)" "drawable (20, 300)" by (simp_all add: drawable_def)
  define h1 where "h1 = line 220 300 220 20 (moveto 220 20 h)"
  define h2 where "h2 = line 20 300 220 300 (moveto 220 300 (moveto 220 300 h1))"
  have w: "u16 220 = 220" "u16 20 = 20" "u16 300 = 300" "s16 220 = 220" "s16 20 = 20" "s16 300 = 300" "s16 1 = 1" "u16 0 = 0"
    by (simp_all add: u16_def s16_def)
  have st: "handpad_start opened True True True d g = \<lparr>paper = moveto 20 300 h2, oldx = 0, oldy = 0\<rparr>"
    using assms by (simp add: handpad_start_def initgraph_def Let_def lineto_def h_def h1_def h2_def moveto_def w)
  have h: "gColor h = 1" "oob h = oob g" and hp: "on_screen p \<Longrightarrow> pixel h p = (0, 0)" for p
    by (auto simp: h_def setmode_def clearscreen_def fb_memset_def fb_bytes_val pixel_def pix_addr_def on_screen_def)
  have c: "gColor h1 = 1" "gColor h2 = 1"
    using line_frame(1) [OF dr(2,1)] line_frame(1) [OF dr(3,2)] h(1) by (simp_all add: h1_def h2_def moveto_def)
  show "pen_at (20, 300) (0, 0) (handpad_start opened True True True d g)"
    unfolding st using c(2) by (simp add: pen_at_def near_def moveto_def w)
  have o: "oob h1 = oob g" using line_frame(2) [OF dr(2,1), of "moveto 220 20 h"] h(2) by (simp add: h1_def moveto_def)
  show "oob (paper (handpad_start opened True True True d g)) = oob g"
    unfolding st using line_frame(2) [OF dr(3,2), of "moveto 220 300 (moveto 220 300 h1)"] o by (simp add: h2_def moveto_def)
  show "pixel (paper (handpad_start opened True True True d g)) p =
      (if (fst p = 220 \<and> 20 \<le> snd p \<and> snd p \<le> 300) \<or> (snd p = 300 \<and> 20 \<le> fst p \<and> fst p \<le> 220) then ink 1 else (0, 0))"
    if on: "on_screen p"
  proof -
    have "pixel h1 p = (if p \<in> set (line_points 220 300 220 20) then ink 1 else (0, 0))"
      using line_pixel [OF dr(2,1) on] hp [OF on] h(1) pixel_moveto [of 220 20 h p] by (simp add: h1_def w moveto_def)
    moreover have "pixel h2 p = (if p \<in> set (line_points 20 300 220 300) then ink 1 else pixel h1 p)"
      using line_pixel [OF dr(3,2) on] c(1) pixel_moveto [of 220 300 "moveto 220 300 h1" p] pixel_moveto [of 220 300 h1 p]
      by (simp add: h2_def w moveto_def)
    ultimately show ?thesis
      unfolding st by (cases p) (auto simp: pixel_moveto set_line_points_horizontal set_line_points_vertical)
  qed
qed

text \<open>
  C11: the handwriting pad from its start: with every sequence of samples the display shows, on black, the
  frame of two lines and the strokes, nothing else, and no byte outside the frame buffer is touched.  A stroke is the
  ideal line between two successive positions, each the mean of three usable samples, that are less than 20 apart;
  the first is measured from (0, 0) and drawn from the corner the frame ends in, (20, 300).
\<close>
theorem handpad_draws_strokes:
  assumes "opened \<noteq> -1" "\<not> oob g" "on_screen (x, y)"
  shows "pixel (paper (handpad_run ss (handpad_start opened True True True d g))) (x, y) =
      (if (x = 220 \<and> 20 \<le> y \<and> y \<le> 300) \<or> (y = 300 \<and> 20 \<le> x \<and> x \<le> 220) \<or>
          (x, y) \<in> strokes (20, 300) (0, 0) (places (filter usable ss)) then ink 1 else (0, 0)) \<and>
    \<not> oob (paper (handpad_run ss (handpad_start opened True True True d g)))"
  using handpad_run_draws [OF handpad_start_draws(1) [OF assms(1)], of "(x, y)" ss d g]
    handpad_start_draws(2) [OF assms(1,3), of d g] handpad_start_draws(3) [OF assms(1), of d g] assms(2,3)
  by (simp only: fst_conv snd_conv) auto

definition two_touches :: "sample list" where
  "two_touches = [(1, 500, 500), (0, 1, 1), (1, 500, 500), (1, 501, 502), (1, 1023, 20), (1, 520, 520), (1, 520, 520), (1, 520, 520)]"

theorem handpad_draws_strokes_witness:
  "pixel (paper (handpad_run two_touches (handpad_start 3 True True True \<lparr>screen_fd = 0, font_open = False, dev_closed = False\<rparr> gfx_init))) (110, 169) = (0xff, 0xff) \<and>
   pixel (paper (handpad_run two_touches (handpad_start 3 True True True \<lparr>screen_fd = 0, font_open = False, dev_closed = False\<rparr> gfx_init))) (107, 166) = (0, 0)"
proof -
  have "places (filter usable two_touches) = [(107, 173), (113, 166)]"
    by (simp add: two_touches_def usable_def place_def signed_divide_int_def)
  then have st: "strokes (20, 300) (0, 0) (places (filter usable two_touches)) = set (line_points 113 166 107 173)"
    by (simp add: joined_def Let_def)
  have "line_points 113 166 107 173 = [(113, 166), (112, 167), (111, 168), (110, 169), (110, 170), (109, 171), (108, 172), (107, 173)]"
    by (simp add: line_points_def rounded_def upt_rec)
  then show ?thesis
    using handpad_draws_strokes [of 3 gfx_init 110 169 two_touches] handpad_draws_strokes [of 3 gfx_init 107 166 two_touches]
    unfolding st by (simp add: gfx_init_def on_screen_def ink_def)
qed

end
