(* ===== verification/File_Transfer.thy ===== *)
theory File_Transfer
  imports Save_Recover Gfx_Line Gfx_Text Pinyin
begin

text \<open>
  The file transfer of the GUI demo: the server on the PC (EXP18/app/2410-gui-demo-pc/host.c) and the
  receiving function of the board (ethernet.c there), which shows its progress with the drawing library.

  A TCP connection is the bytes the other side sends, and how many of them have arrived each time the
  program looks.
\<close>

section \<open>A connection\<close>

text \<open>
  \<open>arrivals\<close>: for each \<open>read\<close> in turn, how many bytes have arrived (one at least, since a read waits for
  it), or \<open>None\<close> for a call that fails; when the list is used up everything has arrived.  Only the end of the stream makes a
  read return 0.
\<close>

record conn =
  incoming :: "u8 list"
  arrivals :: "nat option list"

definition sock_read :: "nat \<Rightarrow> conn \<Rightarrow> int \<times> u8 list \<times> conn" where
  "sock_read n c =
    (case arrivals c of
       None # ks \<Rightarrow> (-1, [], c\<lparr>arrivals := ks\<rparr>)
     | ks \<Rightarrow>
         let k = (case ks of Some k # _ \<Rightarrow> min n (max 1 k) | _ \<Rightarrow> n);
             got = take k (incoming c)
         in (int (length got), got, \<lparr>incoming = drop k (incoming c), arrivals = tl ks\<rparr>))"

section \<open>The server\<close>

text \<open>The decimal digits of the file's size, as \<open>buf1\<close> collects them (the last first) before \<open>buf2\<close>.\<close>

function host_digits :: "int \<Rightarrow> u8 list" where
  "host_digits n =
    (if n sdiv 10 \<noteq> 0 then word_of_int (n - n sdiv 10 * 10 + 48) # host_digits (n sdiv 10)
     else [word_of_int (n + 48)])"
  by auto
termination
  by (relation "measure (\<lambda>n. nat \<bar>n\<bar>)")
    (auto simp: signed_divide_int_def sgn_if abs_if split: if_splits)

declare host_digits.simps [simp del]

text \<open>
  The sending loop.  \<open>junk\<close> is the first half of the array \<open>head\<close>, which nothing sets; \<open>phead\<close> points to the
  second half.  The second result says whether the loop ended without "Can't send data!".
\<close>

function send_blocks :: "u8 list \<Rightarrow> u8 list \<Rightarrow> u8 list \<times> bool" where
  "send_blocks junk file =
    (let block = take 128 file; n = length block; sent = junk @ le32_bytes (of_nat n) @ block
     in if n = 0 then (sent, False)
        else if n = 128 then (case send_blocks junk (drop 128 file) of (rest, ok) \<Rightarrow> (sent @ rest, ok))
        else (sent, True))"
  by auto
termination
  by (relation "measure (\<lambda>(junk, file). length file)") auto

declare send_blocks.simps [simp del]

datatype session = Not_found | Array_overrun | Send_failed | Served

text \<open>
  One connection, from \<open>read(filename)\<close> to \<open>close\<close>: how it ends, the array \<open>filename\<close>, and the bytes
  sent.  \<open>buf1\<close> and \<open>buf2\<close> have ten bytes, with the terminator.
\<close>

definition host_session ::
    "(u8 list \<Rightarrow> u8 list option) \<Rightarrow> u8 list \<Rightarrow> u8 list \<Rightarrow> conn \<Rightarrow> session \<times> u8 list \<times> u8 list" where
  "host_session files junk filename c =
    (case sock_read 10 c of (_, got, c) \<Rightarrow>
      let filename = got @ drop (length got) filename in
      case files (cstr filename) of None \<Rightarrow> (Not_found, filename, [])
      | Some file \<Rightarrow>
          let buf1 = host_digits (s32 (int (length file)));
              buf2 = rev buf1;
              digits = word_of_int (int (length buf2) + 48)
          in if 10 \<le> length buf1 then (Array_overrun, filename, [])
             else case send_blocks junk file of (sent, ok) \<Rightarrow>
               (if ok then Served else Send_failed, filename, digits # buf2 @ sent))"

text \<open>
  The server: \<open>new_fd\<close> has five entries and \<open>t\<close> counts the sessions served.  The list holds what
  \<open>accept\<close> returns, \<open>None\<close> for a failure.
\<close>

datatype host_end = Waiting | Returns int | Overruns

fun host_main :: "(u8 list \<Rightarrow> u8 list option) \<Rightarrow> u8 list \<Rightarrow> nat \<Rightarrow> u8 list \<Rightarrow> conn option list \<Rightarrow> u8 list list \<times> host_end" where
  "host_main files junk t filename [] = ([], Waiting)"
| "host_main files junk t filename (a # cs) =
    (if 5 \<le> t then ([], Overruns)
     else case a of None \<Rightarrow> host_main files junk t filename cs
     | Some c \<Rightarrow> case host_session files junk filename c of (e, filename, sent) \<Rightarrow>
       (case e of Not_found \<Rightarrow> ([sent], Returns 1) | Array_overrun \<Rightarrow> ([sent], Overruns)
        | Send_failed \<Rightarrow> ([sent], Returns 0)
        | Served \<Rightarrow> (case host_main files junk (t + 1) filename cs of (out, r) \<Rightarrow> (sent # out, r))))"

section \<open>The board\<close>

definition int_pow :: "int \<Rightarrow> int \<Rightarrow> int" where
  "int_pow x y = ((\<lambda>b. s32 (b * x)) ^^ nat y) 1"

text \<open>
  The dotted address: at most 15 characters, with the dot and the terminator behind them in the array
  \<open>psziphere\<close> of 17.  \<open>None\<close> is an overrun of it; the four bytes are those of \<open>uiip\<close>.
\<close>

fun aiptoi_loop :: "nat \<Rightarrow> string \<Rightarrow> u8 list \<Rightarrow> int \<times> u8 list" where
  "aiptoi_loop 0 s ip = (1, ip)"
| "aiptoi_loop (Suc n) s ip =
    (if CHR ''.'' \<notin> set s then (0, ip)
     else aiptoi_loop n (tl (dropWhile (\<lambda>c. c \<noteq> CHR ''.'') s))
       (ip @ [word_of_int (atoi (takeWhile (\<lambda>c. c \<noteq> CHR ''.'') s))]))"

definition aiptoi :: "string \<Rightarrow> (int \<times> u8 list) option" where
  "aiptoi pszip = (if 16 \<le> length pszip then None else Some (aiptoi_loop 4 (pszip @ ''.'') []))"

text \<open>The fonts and the local array of \<open>textout\<close>.\<close>

record fonts =
  hanzi_file :: "u8 list"
  ascii_font :: "u8 list"
  glyph_junk :: "u8 list"

definition say :: "fonts \<Rightarrow> int \<Rightarrow> int \<Rightarrow> u8 list \<Rightarrow> u16w \<Rightarrow> u16w \<Rightarrow> gfx \<Rightarrow> gfx" where
  "say F x y s color bg g = textout (hanzi_file F) (ascii_font F) (glyph_junk F) x y s color bg g"

text \<open>
  \<open>wild\<close> is set by an access outside an array or outside the caller's buffer; \<open>sockets\<close> counts the
  descriptors the process has from \<open>socket\<close>, which succeeds.  No path of \<open>trans\<close> closes one.
\<close>

record rx =
  peer :: conn
  bmpbuf :: "u8 list"
  lcd :: gfx
  wild :: bool
  sockets :: nat

definition show_progress :: "fonts \<Rightarrow> int \<Rightarrow> int \<Rightarrow> gfx \<Rightarrow> gfx" where
  "show_progress F allsize filelength g =
    (let yy = s32 (100 * allsize) sdiv filelength;
         a = word_of_int (yy sdiv 10 + 48);
         b = word_of_int (yy - yy sdiv 10 * 10 + 48);
         g = (if yy < 100 then say F 190 100 [a, b] 0xeeee 0x3333 g else g);
         g = (if yy = 100 then say F 190 100 [49, 48, 48] 0xeeee 0x3333 g else g);
         xx = s32 (150 * yy) sdiv 100
     in fillrectangle 40 40 (s16 (40 + xx)) 90 g)"

definition store_block :: "int \<Rightarrow> u8 list \<Rightarrow> rx \<Rightarrow> rx" where
  "store_block allsize got r =
    (if 0 \<le> allsize \<and> allsize + int (length got) \<le> int (length (bmpbuf r))
     then r\<lparr>bmpbuf := take (nat allsize) (bmpbuf r) @ got @ drop (nat allsize + length got) (bmpbuf r)\<rparr>
     else r\<lparr>wild := wild r \<or> got \<noteq> []\<rparr>)"

lemma lcd_store_block [simp]: "lcd (store_block a got r) = lcd r"
  by (simp add: store_block_def)

lemma sock_read_shrinks:
  assumes "sock_read n c = (k, got, c')" "0 < k"
  shows "length (incoming c') < length (incoming c)"
  using assms by (auto simp: sock_read_def Let_def split: list.splits option.splits)

lemma sock_read_le:
  assumes "sock_read n c = (k, got, c')"
  shows "length (incoming c') \<le> length (incoming c)"
  using assms by (auto simp: sock_read_def Let_def split: list.splits option.splits)

function recv_blocks :: "fonts \<Rightarrow> int \<Rightarrow> int \<Rightarrow> rx \<Rightarrow> rx" where
  "recv_blocks F allsize filelength r =
    (if allsize < filelength
     then case sock_read 8 (peer r) of (_, _, c) \<Rightarrow>
       case sock_read 128 c of (nsize, got, c) \<Rightarrow>
       let r = store_block allsize got (r\<lparr>peer := c\<rparr>);
           allsize = s32 (allsize + nsize);
           r = r\<lparr>lcd := show_progress F allsize filelength (lcd r)\<rparr>
       in if nsize \<le> 0 then r else recv_blocks F allsize filelength r
     else r)"
  by auto
termination
proof (relation "measure (\<lambda>(F, a, l, r). length (incoming (peer r)))")
  fix F :: fonts and allsize filelength allsize' and r r' r'' :: rx and x1 x2 x3 x4 c nsize x5 got c'
  assume "(x1, x2) = sock_read 8 (peer r)" "(x3, c) = x2" "(nsize, x5) = sock_read 128 c" "(got, c') = x5"
    "r' = store_block allsize got (r\<lparr>peer := c'\<rparr>)" "r'' = r'\<lparr>lcd := show_progress F allsize' filelength (lcd r')\<rparr>"
    "\<not> nsize \<le> 0"
  then have "length (incoming c') < length (incoming (peer r))" "peer r'' = c'"
    using sock_read_shrinks [of 128 c nsize got c'] sock_read_le [of 8 "peer r" x1 x3 c] by (auto simp: store_block_def)
  then show "((F, allsize', filelength, r''), (F, allsize, filelength, r)) \<in> measure (\<lambda>(F, a, l, r). length (incoming (peer r)))"
    by simp
qed simp

declare recv_blocks.simps [simp del]

text \<open>
  \<open>trans\<close>: the result, the ten bytes it writes, and the state.  \<open>name\<close> is the memory \<open>filename\<close> points to,
  \<open>pool0\<close> and \<open>junk1\<close> what is in \<open>pool[0]\<close> and \<open>buf1\<close> before.
\<close>

definition trans_length :: "int \<Rightarrow> u8 list \<Rightarrow> int" where
  "trans_length n buf1 =
    fold (\<lambda>i s. s32 (s + s32 ((uint (buf1 ! i) - 48) * int_pow 10 (n - 1 - int i)))) [0..<nat n] 0"

definition trans_recv :: "fonts \<Rightarrow> u8 \<Rightarrow> u8 list \<Rightarrow> rx \<Rightarrow> rx" where
  "trans_recv F pool0 junk1 r =
    (case sock_read 1 (peer r) of (_, got, c) \<Rightarrow>
      let n1 = uint (if got = [] then pool0 else hd got) - 48 in
      case sock_read (nat (u32i n1)) c of (_, got, c) \<Rightarrow>
      let r = r\<lparr>peer := c\<rparr> in
      if 10 < length got \<or> 10 < n1 then r\<lparr>wild := True\<rparr>
      else
        let buf1 = got @ drop (length got) junk1;
            filelength = trans_length n1 buf1;
            r = recv_blocks F 0 filelength r
        in if 0 \<le> filelength \<and> filelength < int (length (bmpbuf r))
           then r\<lparr>bmpbuf := (bmpbuf r)[nat filelength := 0]\<rparr> else r\<lparr>wild := True\<rparr>)"

definition trans :: "fonts \<Rightarrow> string \<Rightarrow> bool \<Rightarrow> u8 list \<Rightarrow> u8 \<Rightarrow> u8 list \<Rightarrow> rx \<Rightarrow> (u8 list \<times> rx) option" where
  "trans F ip connected name pool0 junk1 r =
    (let r = r\<lparr>sockets := sockets r + 1\<rparr> in
     case aiptoi ip of None \<Rightarrow> None
     | Some (ok, _) \<Rightarrow>
         if ok = 0 \<or> \<not> connected then Some ([], r)
         else Some (take 10 name, trans_recv F pool0 junk1 r))"

definition recvfile :: "fonts \<Rightarrow> bool \<Rightarrow> u8 list \<Rightarrow> u8 \<Rightarrow> u8 list \<Rightarrow> rx \<Rightarrow> (u8 list \<times> rx) option" where
  "recvfile F connected name pool0 junk1 r = trans F ''192.168.2.100'' connected name pool0 junk1 r"

section \<open>The size of the file goes across\<close>

lemma s32_mod: "s32 x mod 4294967296 = x mod 4294967296"
proof -
  have "s32 x mod 4294967296 = ((x + 2147483648) - 2147483648) mod 4294967296" unfolding s32_def by (rule mod_diff_left_eq)
  then show ?thesis by simp
qed

lemma s32_cong: "x mod 4294967296 = y mod 4294967296 \<Longrightarrow> s32 x = s32 y"
  unfolding s32_def by (metis mod_add_left_eq)

lemma s32_add: "s32 (s32 a + s32 b) = s32 (a + b)"
  by (rule s32_cong) (metis s32_mod mod_add_eq)

lemma s32_times: "s32 (a * s32 b) = s32 (a * b)"
  by (rule s32_cong) (metis s32_mod mod_mult_right_eq)

lemma s32_mult: "s32 (s32 b * a) = s32 (b * a)"
  using s32_times [of a b] by (simp add: mult.commute)

lemma int_pow_power: "int_pow x (int k) = s32 (x ^ k)"
proof (induction k)
  case (Suc k)
  have "int_pow x (int (Suc k)) = s32 (int_pow x (int k) * x)" unfolding int_pow_def nat_int by simp
  then show ?case unfolding Suc s32_mult by (simp add: mult.commute)
qed (simp add: int_pow_def s32_def)

text \<open>The value of decimal digits, the first one the most significant.\<close>

definition decimal :: "u8 list \<Rightarrow> int" where
  "decimal ds = (\<Sum>i < length ds. (uint (ds ! i) - 48) * 10 ^ (length ds - 1 - i))"

lemma trans_length_decimal: "trans_length (int (length ds)) (ds @ junk) = s32 (decimal ds)"
proof -
  have step: "fold (\<lambda>i s. s32 (s + s32 ((uint ((ds @ junk) ! i) - 48) * int_pow 10 (int (length ds) - 1 - int i)))) [0..<n] 0
      = s32 (\<Sum>i < n. (uint (ds ! i) - 48) * 10 ^ (length ds - 1 - i))" if "n \<le> length ds" for n
    using that
  proof (induction n)
    case (Suc n)
    have k: "int_pow 10 (int (length ds) - 1 - int n) = s32 (10 ^ (length ds - Suc n))"
      using int_pow_power [of 10 "length ds - Suc n"] Suc.prems by (simp add: of_nat_diff algebra_simps)
    show ?case using Suc by (simp add: k s32_times s32_add nth_append)
  qed (simp add: s32_def)
  show ?thesis using step [OF order.refl] by (simp add: trans_length_def decimal_def)
qed

lemma decimal_snoc: "decimal (ds @ [d]) = 10 * decimal ds + (uint d - 48)"
proof -
  have "(\<Sum>i < length ds. (uint ((ds @ [d]) ! i) - 48) * 10 ^ (length ds - i)) = 10 * decimal ds"
    unfolding decimal_def sum_distrib_left
    by (rule sum.cong) (auto simp: nth_append Suc_diff_Suc power_Suc [symmetric] simp del: power_Suc)
  then show ?thesis by (simp add: decimal_def)
qed

lemma digit_byte: "0 \<le> v \<Longrightarrow> v < 10 \<Longrightarrow> uint (word_of_int (v + 48) :: u8) - 48 = v"
  unfolding uint_word_of_int by simp

lemma host_digits_value:
  assumes "0 \<le> n"
  shows "decimal (rev (host_digits n)) = n"
  using assms
proof (induction n rule: host_digits.induct)
  case (1 n)
  have d: "n sdiv 10 = n div 10" using 1(2) by (simp add: sdiv_nonneg)
  show ?case
  proof (cases "n div 10 = 0")
    case True
    then have "n < 10" using 1(2) by presburger
    then show ?thesis using True 1(2) digit_byte [of n] unfolding host_digits.simps [of n] d by (simp add: decimal_def del: of_int_add)
  next
    case False
    then have "decimal (rev (host_digits (n div 10))) = n div 10" using 1 d by (simp add: pos_imp_zdiv_nonneg_iff)
    moreover have "0 \<le> n - n div 10 * 10" "n - n div 10 * 10 < 10" by linarith+
    ultimately show ?thesis using False digit_byte [of "n - n div 10 * 10"]
      unfolding host_digits.simps [of n] d by (simp add: decimal_snoc del: of_int_add)
  qed
qed

lemma host_digits_length:
  assumes "0 \<le> n" "n < 10 ^ Suc k"
  shows "0 < length (host_digits n) \<and> length (host_digits n) \<le> Suc k"
  using assms
proof (induction k arbitrary: n)
  case 0
  then have "n sdiv 10 = 0" by (simp add: sdiv_nonneg)
  then show ?case by (simp add: host_digits.simps [of n])
next
  case (Suc k)
  have d: "n sdiv 10 = n div 10" using Suc.prems by (simp add: sdiv_nonneg)
  have "0 \<le> n div 10" "n div 10 < 10 ^ Suc k" using Suc.prems by (simp_all add: pos_imp_zdiv_nonneg_iff)
  then have "length (host_digits (n div 10)) \<le> Suc k" using Suc.IH by blast
  then show ?case by (simp add: host_digits.simps [of n] d)
qed

section \<open>The blocks go across\<close>

text \<open>Every read finds what it asks for, or the end of the stream.\<close>

definition prompt :: "nat option list \<Rightarrow> bool" where
  "prompt ks \<longleftrightarrow> list_all (\<lambda>k. case k of None \<Rightarrow> False | Some n \<Rightarrow> 128 \<le> n) ks"

lemma sock_read_prompt:
  assumes "prompt (arrivals c)" "n \<le> 128"
  obtains ks where "sock_read n c = (int (min n (length (incoming c))), take n (incoming c), \<lparr>incoming = drop n (incoming c), arrivals = ks\<rparr>)"
    "prompt ks"
proof (cases "arrivals c")
  case Nil
  then show ?thesis using that [of "[]"] assms(1) by (simp add: sock_read_def Let_def min.commute)
next
  case (Cons k ks)
  then obtain m where "k = Some m" "128 \<le> m" "prompt ks" using assms(1) by (auto simp: prompt_def split: option.splits)
  then show ?thesis using that [of ks] assms(2) Cons by (simp add: sock_read_def Let_def min.commute)
qed

definition whole_bar :: "gfx \<Rightarrow> bool" where
  "whole_bar g \<longleftrightarrow> (\<forall>x y. 40 \<le> x \<and> x < 190 \<and> 40 \<le> y \<and> y < 90 \<longrightarrow> pixel g (x, y) = (0xff, 0xff))"

lemma show_progress_whole:
  assumes "0 < n" "n \<le> 21474836"
  shows "whole_bar (show_progress F n n g)"
proof -
  have "s32 (100 * n) sdiv n = 100" using assms by (simp add: s32_id sdiv_nonneg)
  moreover have "s32 15000 sdiv 100 = 150" "s16 190 = 190" by (simp_all add: s32_def s16_def signed_divide_int_def)
  ultimately show ?thesis
    by (auto simp: whole_bar_def show_progress_def Let_def fillrectangle_fills_box on_screen_def)
qed

text \<open>What follows the first block on the stream, and one round of the loop.\<close>

definition after_block :: "u8 list \<Rightarrow> u8 list \<Rightarrow> u8 list" where
  "after_block junk data = (if 128 \<le> length data then fst (send_blocks junk (drop 128 data)) else [])"

lemma recv_round:
  assumes ne: "data \<noteq> []" and "n = min 128 (length data)"
    and "length junk = 4" "incoming (peer r) = fst (send_blocks junk data) @ rest" "128 dvd length data \<or> rest = []"
    and "prompt (arrivals (peer r))" "a + length data < length (bmpbuf r)" "a + length data \<le> 21474836"
  obtains r' ks where
    "recv_blocks F (int a) (int (a + length data)) r = recv_blocks F (int (a + n)) (int (a + length data)) r'"
    "bmpbuf r' = take a (bmpbuf r) @ take 128 data @ drop (a + n) (bmpbuf r)" "wild r' = wild r"
    "peer r' = \<lparr>incoming = after_block junk data @ rest, arrivals = ks\<rparr>" "prompt ks"
    "lcd r' = show_progress F (int (a + n)) (int (a + length data)) (lcd r)"
proof -
  have n: "0 < n" "length (take 128 data) = n" "n \<le> length data" using ne by (simp_all add: assms(2))
  define more where "more = after_block junk data"
  have s: "fst (send_blocks junk data) = (junk @ le32_bytes (of_nat n)) @ take 128 data @ more"
    using ne by (simp add: send_blocks.simps [of junk data] Let_def more_def after_block_def assms(2) min_def split: prod.split)
  obtain ks1 where r1: "sock_read 8 (peer r) = (int (min 8 (length (incoming (peer r)))), take 8 (incoming (peer r)),
      \<lparr>incoming = take 128 data @ more @ rest, arrivals = ks1\<rparr>)" "prompt ks1"
    using sock_read_prompt [OF assms(6), of 8] assms(3,4) by (auto simp: s)
  have over: "more @ rest = []" if "length data < 128"
    using that assms(5) ne by (auto simp: more_def after_block_def dest: dvd_imp_le)
  have t: "take 128 (take 128 data @ more @ rest) = take 128 data" "drop 128 (take 128 data @ more @ rest) = more @ rest"
    using over by (cases "length data < 128"; simp)+
  obtain ks2 where r2: "sock_read 128 \<lparr>incoming = take 128 data @ more @ rest, arrivals = ks1\<rparr> =
      (int n, take 128 data, \<lparr>incoming = more @ rest, arrivals = ks2\<rparr>)" "prompt ks2"
  proof (rule sock_read_prompt [of "\<lparr>incoming = take 128 data @ more @ rest, arrivals = ks1\<rparr>" 128])
    fix ks
    assume r: "sock_read 128 \<lparr>incoming = take 128 data @ more @ rest, arrivals = ks1\<rparr> =
      (int (min 128 (length (incoming \<lparr>incoming = take 128 data @ more @ rest, arrivals = ks1\<rparr>))),
       take 128 (incoming \<lparr>incoming = take 128 data @ more @ rest, arrivals = ks1\<rparr>),
       \<lparr>incoming = drop 128 (incoming \<lparr>incoming = take 128 data @ more @ rest, arrivals = ks1\<rparr>), arrivals = ks\<rparr>)" "prompt ks"
    have "min 128 (length (take 128 data @ more @ rest)) = n" using over by (cases "length data < 128") (simp_all add: assms(2))
    then show thesis using that [of ks] r t by simp
  qed (use r1(2) in simp_all)
  define r' where "r' = (store_block (int a) (take 128 data) (r\<lparr>peer := \<lparr>incoming = more @ rest, arrivals = ks2\<rparr>\<rparr>))
    \<lparr>lcd := show_progress F (int (a + n)) (int (a + length data)) (lcd r)\<rparr>"
  have w: "s32 (int a + int n) = int (a + n)" using assms(8) n(3) by (simp add: s32_id)
  have step: "recv_blocks F (int a) (int (a + length data)) r = recv_blocks F (int (a + n)) (int (a + length data)) r'"
    using n ne unfolding recv_blocks.simps [of F "int a"] r1(1) prod.case r2(1)
    by (simp add: w [simplified] r'_def Let_def)
  have b: "bmpbuf r' = take a (bmpbuf r) @ take 128 data @ drop (a + n) (bmpbuf r)" "wild r' = wild r"
    "peer r' = \<lparr>incoming = more @ rest, arrivals = ks2\<rparr>"
    using assms(7) n by (simp_all add: r'_def store_block_def)
  have "lcd r' = show_progress F (int (a + n)) (int (a + length data)) (lcd r)" by (simp add: r'_def)
  then show thesis using that [of r' ks2] step b r2(2) by (simp add: more_def)
qed

lemma recv_blocks_file:
  assumes "length junk = 4" "incoming (peer r) = fst (send_blocks junk data) @ rest" "128 dvd length data \<or> rest = []"
    and "prompt (arrivals (peer r))" "a + length data < length (bmpbuf r)" "a + length data \<le> 21474836"
  shows "bmpbuf (recv_blocks F (int a) (int (a + length data)) r) = take a (bmpbuf r) @ data @ drop (a + length data) (bmpbuf r) \<and>
    wild (recv_blocks F (int a) (int (a + length data)) r) = wild r \<and>
    (data \<noteq> [] \<longrightarrow> whole_bar (lcd (recv_blocks F (int a) (int (a + length data)) r)))"
  using assms
proof (induction data arbitrary: a r rule: measure_induct_rule [where f = length])
  case (less data)
  show ?case
  proof (cases "data = []")
    case True
    then show ?thesis by (simp add: recv_blocks.simps [of F])
  next
    case ne: False
    define n where "n = min 128 (length data)"
    obtain r' ks where step: "recv_blocks F (int a) (int (a + length data)) r = recv_blocks F (int (a + n)) (int (a + length data)) r'"
      and b: "bmpbuf r' = take a (bmpbuf r) @ take 128 data @ drop (a + n) (bmpbuf r)" "wild r' = wild r"
        "peer r' = \<lparr>incoming = after_block junk data @ rest, arrivals = ks\<rparr>" "prompt ks"
        "lcd r' = show_progress F (int (a + n)) (int (a + length data)) (lcd r)"
      using recv_round [OF ne n_def less.prems, of F] by blast
    show ?thesis
    proof (cases "128 < length data")
      case last: False
      then have e: "n = length data" "take 128 data = data" by (simp_all add: n_def)
      have stop: "recv_blocks F (int (a + n)) (int (a + length data)) r' = r'"
        by (simp add: e(1) recv_blocks.simps [of F])
      have "0 < int (a + length data)" using ne by (cases data) simp_all
      then have "whole_bar (lcd r')"
        using show_progress_whole [of "int (a + length data)" F "lcd r"] less.prems(6) ne e(1) by (simp add: b(5))
      then show ?thesis unfolding step stop using b e by simp
    next
      case True
      let ?f = "drop 128 data"
      have l: "a + 128 + length ?f = a + length data" "n = 128" "a < length (bmpbuf r)" "a + 128 < length (bmpbuf r)"
        using True less.prems(5) by (simp_all add: n_def)
      have parts: "length (bmpbuf r') = length (bmpbuf r)" "take (a + 128) (bmpbuf r') = take a (bmpbuf r) @ take 128 data"
          "drop (a + length data) (bmpbuf r') = drop (a + length data) (bmpbuf r)"
        using True l(2-4) by (simp_all add: b(1) add.commute)
      have "128 dvd length ?f \<or> rest = []" using less.prems(3) True by (auto intro: dvd_diff_nat)
      moreover have "incoming (peer r') = fst (send_blocks junk ?f) @ rest" using b(3) True by (simp add: after_block_def)
      moreover have "a + 128 + length ?f < length (bmpbuf r')" unfolding l(1) parts(1) by (rule less.prems(5))
      ultimately have "bmpbuf (recv_blocks F (int (a + 128)) (int (a + length data)) r') =
            take (a + 128) (bmpbuf r') @ ?f @ drop (a + length data) (bmpbuf r') \<and>
          wild (recv_blocks F (int (a + 128)) (int (a + length data)) r') = wild r' \<and>
          whole_bar (lcd (recv_blocks F (int (a + 128)) (int (a + length data)) r'))"
        using less.IH [of ?f r' "a + 128", unfolded l(1)] True less.prems(1,6) b(3,4) by simp
      then show ?thesis
        unfolding step l(2) parts b(2) append_assoc append_take_drop_id using append_assoc [of _ "take 128 data" ?f] by simp
    qed
  qed
qed

section \<open>Server and board together\<close>

lemma send_blocks_ok: "snd (send_blocks junk data) \<longleftrightarrow> \<not> 128 dvd length data"
proof (induction data rule: measure_induct_rule [where f = length])
  case (less data)
  show ?case
  proof (cases "length data < 128")
    case True
    then show ?thesis by (auto simp: send_blocks.simps [of junk data] Let_def dest: dvd_imp_le)
  next
    case False
    then have ne: "data \<noteq> []" by auto
    have "snd (send_blocks junk data) = snd (send_blocks junk (drop 128 data))" using False ne
      by (simp add: send_blocks.simps [of junk data] Let_def split: prod.split)
    moreover have "128 dvd length (drop 128 data) \<longleftrightarrow> 128 dvd length data"
      using False dvd_diff_nat [of 128 "length data" 128] dvd_add [of 128 "length data - 128" 128] by auto
    ultimately show ?thesis using less.IH [of "drop 128 data"] ne by simp
  qed
qed

lemma trans_recv_file:
  assumes "length data \<le> 21474836" "length data < length (bmpbuf r)" "length junk = 4" "prompt (arrivals (peer r))"
    and "incoming (peer r) = word_of_int (int (length (host_digits (int (length data)))) + 48) #
          rev (host_digits (int (length data))) @ fst (send_blocks junk data)"
  shows "bmpbuf (trans_recv F pool0 junk1 r) = data @ 0 # drop (Suc (length data)) (bmpbuf r) \<and>
    wild (trans_recv F pool0 junk1 r) = wild r \<and> (data \<noteq> [] \<longrightarrow> whole_bar (lcd (trans_recv F pool0 junk1 r)))"
proof -
  let ?ds = "rev (host_digits (int (length data)))" and ?sent = "fst (send_blocks junk data)"
  have l: "0 < length ?ds" "length ?ds \<le> 9"
    using host_digits_length [of "int (length data)" 8] assms(1) by simp_all
  define h :: u8 where "h = word_of_int (int (length ?ds) + 48)"
  have d: "uint h = int (length ?ds) + 48"
    unfolding h_def uint_word_of_int using l by (simp add: take_bit_int_eq_self_iff)
  obtain ks1 where r1: "sock_read 1 (peer r) = (1, [h], \<lparr>incoming = ?ds @ ?sent, arrivals = ks1\<rparr>)" "prompt ks1"
    by (rule sock_read_prompt [OF assms(4), of 1]) (auto simp: assms(5) h_def)
  obtain ks2 where r2: "sock_read (length ?ds) \<lparr>incoming = ?ds @ ?sent, arrivals = ks1\<rparr> = (int (length ?ds), ?ds, \<lparr>incoming = ?sent, arrivals = ks2\<rparr>)" "prompt ks2"
    by (rule sock_read_prompt [of "\<lparr>incoming = ?ds @ ?sent, arrivals = ks1\<rparr>" "length ?ds"]) (use l r1(2) in auto)
  define r' where "r' = recv_blocks F 0 (int (length data)) (r\<lparr>peer := \<lparr>incoming = ?sent, arrivals = ks2\<rparr>\<rparr>)"
  have n: "trans_length (int (length ?ds)) (?ds @ junk2) = int (length data)" for junk2
    using trans_length_decimal [of ?ds junk2] host_digits_value [of "int (length data)"] assms(1) by (simp add: s32_id)
  have "bmpbuf r' = data @ drop (length data) (bmpbuf r) \<and> wild r' = wild r \<and> (data \<noteq> [] \<longrightarrow> whole_bar (lcd r'))"
    using recv_blocks_file [of junk "r\<lparr>peer := \<lparr>incoming = ?sent, arrivals = ks2\<rparr>\<rparr>" data "[]" 0 F] assms(1-3) r2(2)
    by (simp add: r'_def)
  moreover have "trans_recv F pool0 junk1 r = r'\<lparr>bmpbuf := (bmpbuf r')[length data := 0]\<rparr>"
    if "length (bmpbuf r') = length (bmpbuf r)"
    using that l assms(2) unfolding trans_recv_def r1(1) prod.case
    by (simp add: d u32i_id r2(1) [simplified] n [simplified] r'_def Let_def)
  ultimately show ?thesis using assms(2) by (simp add: list_update_append Cons_nth_drop_Suc [symmetric])
qed

lemma short_read_corrupts:
  "bmpbuf (recv_blocks F 0 20 \<lparr>peer = \<lparr>incoming = replicate 8 0 @ map of_nat [0..<20], arrivals = [Some 8, Some 5]\<rparr>,
      bmpbuf = replicate 21 99, lcd = g, wild = False, sockets = 0\<rparr>) = map of_nat ([0..<5] @ [13..<20]) @ replicate 9 99"
proof -
  have "s32 5 = 5" "s32 12 = 12" by (simp_all add: s32_def)
  then show ?thesis
    by (simp add: recv_blocks.simps sock_read_def store_block_def Let_def upt_rec numeral_eq_Suc s32_def)
qed

text \<open>
  One transfer: the board writes the name, the server answers, the board receives.  \<open>ks\<close> and \<open>ls\<close> are the
  arrivals at the server and at the board.
\<close>

definition transfer ::
    "(u8 list \<Rightarrow> u8 list option) \<Rightarrow> u8 list \<Rightarrow> u8 list \<Rightarrow> nat option list \<Rightarrow> nat option list \<Rightarrow>
     fonts \<Rightarrow> u8 list \<Rightarrow> u8 \<Rightarrow> u8 list \<Rightarrow> rx \<Rightarrow> session \<times> rx option" where
  "transfer files junk filename ks ls F name pool0 junk1 r =
    (let request = map_option fst (recvfile F True name pool0 junk1 r);
         (e, _, sent) = host_session files junk filename \<lparr>incoming = (case request of None \<Rightarrow> [] | Some q \<Rightarrow> q), arrivals = ks\<rparr>
     in (e, map_option snd (recvfile F True name pool0 junk1 (r\<lparr>peer := \<lparr>incoming = sent, arrivals = ls\<rparr>\<rparr>))))"

lemma the_server: "aiptoi ''192.168.2.100'' = Some (1, [192, 168, 2, 100])"
  by (simp add: aiptoi_def numeral_eq_Suc atoi_def digits_value_def isspace_def isdigit_def)

lemma recv_blocks_sockets [simp]: "sockets (recv_blocks F a n r) = sockets r"
  by (induction F a n r rule: recv_blocks.induct)
    (subst recv_blocks.simps, auto simp: Let_def store_block_def split: prod.split)

lemma trans_recv_sockets [simp]: "sockets (trans_recv F pool0 junk1 r) = sockets r"
  by (simp add: trans_recv_def Let_def split: prod.split)

lemma recvfile_sockets:
  assumes "recvfile F connected name pool0 junk1 r = x"
  obtains q r' where "x = Some (q, r')" "sockets r' = Suc (sockets r)"
  using assms that by (auto simp: recvfile_def trans_def the_server Let_def split: if_splits)

lemma received:
  assumes h: "host_session files junk filename \<lparr>incoming = name, arrivals = ks\<rparr> = (e, f, sent)"
    and "files (cstr name) = Some data" "length name = 10" "0 \<in> set name" "length junk = 4" "prompt ks" "prompt ls"
    and "peer r = \<lparr>incoming = sent, arrivals = ls\<rparr>" "length data < length (bmpbuf r)" "length data \<le> 21474836"
  shows "e = (if 128 dvd length data then Send_failed else Served) \<and>
    (\<exists>r'. recvfile F True name pool0 junk1 r = Some (name, r') \<and>
      bmpbuf r' = data @ 0 # drop (Suc (length data)) (bmpbuf r) \<and> wild r' = wild r \<and> (data \<noteq> [] \<longrightarrow> whole_bar (lcd r')))"
proof -
  let ?c = "\<lparr>incoming = name, arrivals = ks\<rparr>"
  obtain ks' where "sock_read 10 ?c = (10, name, \<lparr>incoming = [], arrivals = ks'\<rparr>)"
    by (rule sock_read_prompt [of ?c 10]) (use assms(3,6) in auto)
  moreover have "length (host_digits (int (length data))) \<le> 9"
    using host_digits_length [of "int (length data)" 8] assms(10) by simp
  ultimately have "host_session files junk filename ?c = (if 128 dvd length data then Send_failed else Served, name @ drop 10 filename,
      word_of_int (int (length (host_digits (int (length data)))) + 48) # rev (host_digits (int (length data))) @ fst (send_blocks junk data))"
    using assms(2-4,10) send_blocks_ok [of junk data]
    by (cases "send_blocks junk data") (simp add: host_session_def s32_id cstr_def takeWhile_append1 Let_def)
  with h have s: "sent = word_of_int (int (length (host_digits (int (length data)))) + 48) # rev (host_digits (int (length data))) @
      fst (send_blocks junk data)" "e = (if 128 dvd length data then Send_failed else Served)"
    by (simp_all split: if_splits)
  define r1 where "r1 = r\<lparr>sockets := sockets r + 1\<rparr>"
  have rec: "recvfile F True name pool0 junk1 r = Some (name, trans_recv F pool0 junk1 r1)"
    using assms(3) by (simp add: recvfile_def trans_def the_server r1_def)
  have "bmpbuf r1 = bmpbuf r" "wild r1 = wild r" "peer r1 = peer r" by (simp_all add: r1_def)
  then show ?thesis
    using trans_recv_file [of data r1 junk F pool0 junk1] assms(5,7-10) s rec by simp
qed



end
