(* ===== verification/Menu.thy ===== *)
theory Menu
  imports Handpad File_Transfer
begin

text \<open>
  The GUI demo (EXP18/app/tp_gui/main.c, handpad.h): pages with boxes to touch, file transfer from the
  server, pictures and text.  The drawing operations are those of the library, the transfer is \<open>recvfile\<close>.
\<close>

section \<open>Boxes\<close>

type_synonym box = "int \<times> int \<times> int \<times> int"

definition kbdenter :: "box list" where "kbdenter = [(190, 114, 217, 128)]"
definition kbdconfirm :: "box list" where "kbdconfirm = [(50, 130, 110, 148), (115, 130, 170, 148)]"
definition kbdindex :: "box list" where
  "kbdindex = [(41, 80, 135, 105), (41, 108, 137, 130), (41, 139, 164, 165), (150, 219, 226, 239), (53, 179, 136, 198)]"
definition kbdtrans :: "box list" where
  "kbdtrans = [(160, 86, 205, 110), (160, 125, 201, 148), (162, 180, 237, 199)]"
definition kbdtree :: "box list" where "kbdtree = [(25, 53, 45, 70)]"
definition kbdexam :: "box list" where "kbdexam = [(79, 160, 168, 191)]"
definition kbdfontdemo :: "box list" where "kbdfontdemo = [(190, 280, 235, 295)]"

definition hit :: "box \<Rightarrow> int \<Rightarrow> int \<Rightarrow> bool" where
  "hit b x y = (case b of (startx, starty, endx, endy) \<Rightarrow> y > starty \<and> y < endy \<and> x > startx \<and> x < endx)"

text \<open>The loops \<open>for (i = 0; i < n; i++) if (...) break;\<close>: the value of \<open>i\<close> behind them.\<close>

fun which_box :: "box list \<Rightarrow> int \<Rightarrow> int \<Rightarrow> nat" where
  "which_box [] x y = 0"
| "which_box (b # bs) x y = (if hit b x y then 0 else Suc (which_box bs x y))"

section \<open>The program\<close>

text \<open>
  The places where the program waits for a touch.  \<open>pics\<close> are the picture files, \<open>pic_junk\<close> what
  \<open>ShowBMP\<close> finds in fresh memory, \<open>fresh\<close> the \<open>Max\<close> bytes \<open>malloc\<close> returns (it succeeds),
  \<open>behind\<close> the four bytes behind the literal "1.txt", of which \<open>trans\<close> sends ten.
\<close>

datatype page = Welcome | Index | Trans | Confirm_bmp | Confirm_txt | Book | Exam | Fontdemo | Done

record env =
  pics :: "string \<Rightarrow> u8 list option"
  pic_junk :: "nat \<Rightarrow> u8"
  fnt :: fonts
  pool_junk :: u8
  buf1_junk :: "u8 list"
  fresh :: "u8 list"
  behind :: "u8 list"

text \<open>
  \<open>frames\<close> are the pictures that stay on the display for a delay, \<open>calls\<close> what the server will do in
  the connections to come, \<open>heap\<close> the number of transfer buffers allocated and not freed, \<open>socks\<close> that of the
  sockets open.
\<close>

record gui =
  at :: page
  index10 :: nat
  screen :: gfx
  frames :: "gfx list"
  calls :: "(bool \<times> conn) list"
  heap :: nat
  socks :: nat
  bmp :: "u8 list"
  crash :: bool

definition paint :: "(gfx \<Rightarrow> gfx) \<Rightarrow> gui \<Rightarrow> gui" where
  "paint f s = s\<lparr>screen := f (screen s)\<rparr>"

definition pause :: "gui \<Rightarrow> gui" where
  "pause s = s\<lparr>frames := frames s @ [screen s]\<rparr>"

definition ascii :: "string \<Rightarrow> u8 list" where
  "ascii cs = map of_char cs"

definition picture :: "env \<Rightarrow> string \<Rightarrow> gfx \<Rightarrow> gfx" where
  "picture E name = ShowBMP (pics E name) (pic_junk E) 0 0"

definition display_text :: "env \<Rightarrow> gfx \<Rightarrow> gfx" where
  "display_text E g =
    (let g = say (fnt E) 30 20 (ascii ''Now transport the File'') 0x07e0 0x1111 g;
         g = rectangle 40 40 190 90 g;
         g = say (fnt E) 30 100 (ascii ''Now having finished    %'') 0xf800 0x3333 g;
         g = rectangle 50 130 110 148 g;
         g = rectangle 115 130 170 148 g;
         g = say (fnt E) 51 131 (ascii ''confirm'') 0xffff 0 g
     in say (fnt E) 116 131 (ascii ''cancel'') 0xffff 0 g)"

text \<open>The code at the label \<open>s1\<close>.\<close>

definition go_index :: "env \<Rightarrow> gui \<Rightarrow> gui" where
  "go_index E s = (paint (picture E ''index.bmp'') (paint clearscreen (s\<lparr>index10 := 0xffff\<rparr>)))\<lparr>at := Index\<rparr>"

definition receive :: "env \<Rightarrow> u8 list \<Rightarrow> gui \<Rightarrow> gui" where
  "receive E name s =
    (let s = paint (display_text E) (paint clearscreen s);
         s = s\<lparr>heap := heap s + 1\<rparr>;
         (connected, c) = (case calls s of [] \<Rightarrow> (False, \<lparr>incoming = [], arrivals = []\<rparr>) | k # _ \<Rightarrow> k)
     in case recvfile (fnt E) connected name (pool_junk E) (buf1_junk E)
               \<lparr>peer = c, bmpbuf = fresh E, lcd = screen s, wild = crash s, sockets = socks s\<rparr> of
          None \<Rightarrow> s\<lparr>crash := True\<rparr>
        | Some (_, r) \<Rightarrow> s\<lparr>screen := lcd r, bmp := bmpbuf r, crash := wild r, socks := sockets r, calls := tl (calls s)\<rparr>)"

definition flash_page :: "env \<Rightarrow> gui \<Rightarrow> gui" where
  "flash_page E s = fold (\<lambda>name s. pause (paint (picture E name) s))
     [''1.bmp'', ''2.bmp'', ''1.bmp'', ''3.bmp'', ''1.bmp'', ''2.bmp'', ''1.bmp''] (paint clearscreen s)"

definition font_frame :: "env \<Rightarrow> gui \<Rightarrow> gui" where
  "font_frame E s = paint (\<lambda>g. say (fnt E) 191 281 (ascii ''exit'') 0xffff 0x1111 (rectangle 190 280 225 295 g)) s"

text \<open>
  The two loops behind a transfer: \<open>index11\<close> and \<open>index12\<close> are local to a round.  Only the first box frees
  the buffer.
\<close>

definition confirm_touch :: "env \<Rightarrow> (gfx \<Rightarrow> gfx) \<Rightarrow> int \<Rightarrow> int \<Rightarrow> gui \<Rightarrow> gui" where
  "confirm_touch E show_it x y s =
    (let i = which_box kbdconfirm x y in
     if i = 0 then go_index E (pause ((paint show_it (paint clearscreen s))\<lparr>heap := heap s - 1\<rparr>))
     else if i = 1 then
       go_index E (pause (paint (say (fnt E) 20 20 (ascii ''Trans files Failing'') 0xffff 0x1111) (paint clearscreen s)))
     else s)"

text \<open>
  One touch.  On the page \<open>Fontdemo\<close> the parent of \<open>vfork\<close> is modelled; the child runs another program.
\<close>

definition menu_touch :: "env \<Rightarrow> int \<Rightarrow> int \<Rightarrow> gui \<Rightarrow> gui" where
  "menu_touch E x y s = (case at s of
     Welcome \<Rightarrow> if which_box kbdenter x y = 0 then go_index E s else s
   | Index \<Rightarrow>
       (let index0 = which_box kbdindex x y in
        if index0 = 0 then (paint (picture E ''trans.bmp'') s)\<lparr>at := Trans\<rparr>
        else if index0 = 1 then go_index E (flash_page E s)
        else if index0 = 2 then (paint (picture E ''shu.bmp'') (paint clearscreen s))\<lparr>at := Book\<rparr>
        else if index0 = 3 then (paint clearscreen (pause (paint (picture E ''exit.bmp'') (paint clearscreen s))))\<lparr>at := Done\<rparr>
        else if index0 = 4 then (font_frame E (paint clearscreen s))\<lparr>at := Fontdemo\<rparr>
        else s)
   | Trans \<Rightarrow>
       (let i = which_box kbdtrans x y;
            s = (if i = 3 then s else s\<lparr>index10 := i\<rparr>)
        in if index10 s = 0 then (receive E (ascii ''look2.bmp'' @ [0]) s)\<lparr>at := Confirm_bmp\<rparr>
           else if index10 s = 1 then (receive E (ascii ''1.txt'' @ [0] @ behind E) s)\<lparr>at := Confirm_txt\<rparr>
           else if index10 s = 2 then go_index E (paint clearscreen s)
           else s)
   | Confirm_bmp \<Rightarrow> confirm_touch E (ShowBuf (bmp s) 0 0) x y s
   | Confirm_txt \<Rightarrow> confirm_touch E (say (fnt E) 0 0 (cstr (bmp s)) 0xffff 0x1111) x y s
   | Book \<Rightarrow> if which_box kbdtree x y = 0 then (paint (picture E ''shu2.bmp'') s)\<lparr>at := Exam\<rparr> else s
   | Exam \<Rightarrow>
       (let s = (if which_box kbdexam x y = 0
                 then paint (say (fnt E) 0 0 (ascii (''CC=m68k-pic-coff-gcc'' @ CHR 0x0A # ''COFF2FLAT=coff2flt'' @ CHR 0x0A # CHR 0x0A #
                        ''CFLAGS=-I/ARM9.0'')) 0xffff 0x1111) (paint clearscreen s)
                 else s)
        in go_index E (pause s))
   | Fontdemo \<Rightarrow> if which_box kbdfontdemo x y = 0 then go_index E s else font_frame E s
   | Done \<Rightarrow> s)"

text \<open>\<open>main\<close> before the first loop, when the devices open.\<close>

definition menu_start :: "env \<Rightarrow> int \<Rightarrow> bool \<Rightarrow> bool \<Rightarrow> bool \<Rightarrow> gdev \<Rightarrow> gfx \<Rightarrow> (bool \<times> conn) list \<Rightarrow> u8 list \<Rightarrow> gui" where
  "menu_start E opened info_ok map_ok font_ok d g cs junk =
    (let (_, d, g) = initgraph opened info_ok map_ok font_ok d g;
         g = setmode MODE_SRC_XOR_DST (picture E ''welcome.bmp'' (clearscreen g))
     in \<lparr>at = Welcome, index10 = 0xffff, screen = g, frames = [], calls = cs, heap = 0, socks = 0, bmp = junk, crash = False\<rparr>)"

text \<open>\<open>get_handpad\<close> of handpad.h: every sample with pressure counts, and the average is not scaled.\<close>

definition pressed :: "sample \<Rightarrow> bool" where
  "pressed s \<longleftrightarrow> fst s \<noteq> 0"

definition get_touch :: "sample list \<Rightarrow> (int \<times> int \<times> sample list) option" where
  "get_touch ss = (case handpad_loop pressed [] [] ss of None \<Rightarrow> None
     | Some (xa, ya, rs) \<Rightarrow>
         Some (u16 (get_average_num (xa ! 0) (xa ! 1) (xa ! 2)), u16 (get_average_num (ya ! 0) (ya ! 1) (ya ! 2)), rs))"

function menu_run :: "env \<Rightarrow> sample list \<Rightarrow> gui \<Rightarrow> gui" where
  "menu_run E ss s =
    (if at s = Done then s
     else case get_touch ss of None \<Rightarrow> s | Some (x, y, rs) \<Rightarrow> menu_run E rs (menu_touch E x y s))"
  by auto
termination
proof (relation "measure (\<lambda>(E, ss, s). length ss)")
  fix E :: env and ss rs :: "sample list" and s x y and xyr yr
  assume "get_touch ss = Some xyr" "(x, yr) = xyr" "(y, rs) = yr"
  then obtain xa ya where "handpad_loop pressed [] [] ss = Some (xa, ya, rs)"
    by (auto simp: get_touch_def split: option.splits prod.splits)
  then show "((E, rs, menu_touch E x y s), E, ss, s) \<in> measure (\<lambda>(E, ss, s). length ss)"
    using handpad_loop_shrinks by fastforce
qed simp

declare menu_run.simps [simp del]

section \<open>Touches\<close>

fun touches :: "sample list \<Rightarrow> (int \<times> int) list" where
  "touches (a # b # c # ss) =
     (u16 (get_average_num (fst (snd a)) (fst (snd b)) (fst (snd c))),
      u16 (get_average_num (snd (snd a)) (snd (snd b)) (snd (snd c)))) # touches ss"
| "touches ss = []"

definition menu_touches :: "env \<Rightarrow> (int \<times> int) list \<Rightarrow> gui \<Rightarrow> gui" where
  "menu_touches E ts s = fold (\<lambda>(x, y). menu_touch E x y) ts s"

lemma menu_touches_simps [simp]:
  "menu_touches E [] s = s"
  "menu_touches E ((x, y) # ts) s = menu_touches E ts (menu_touch E x y s)"
  "menu_touches E (ts @ us) s = menu_touches E us (menu_touches E ts s)"
  by (simp_all add: menu_touches_def)

lemma menu_touches_done: "at s = Done \<Longrightarrow> menu_touches E ts s = s"
  by (induction ts) (auto simp: menu_touch_def)

lemma menu_run_touches: "menu_run E ss s = menu_touches E (touches (filter pressed ss)) s"
proof (induction E ss s rule: menu_run.induct)
  case (1 E ss s)
  show ?case
  proof (cases "at s = Done")
    case True
    then show ?thesis by (simp add: menu_run.simps [of E ss] menu_touches_done)
  next
    case False
    show ?thesis
    proof (cases rule: handpad_loop_cases [of pressed ss])
      case waits
      have "touches us = []" if "length us < 3" for us using that by (induction us rule: touches.induct) simp_all
      then show ?thesis using waits False by (simp add: menu_run.simps [of E ss] get_touch_def)
    next
      case (three a b c rs)
      then have g: "get_touch ss = Some (u16 (get_average_num (fst (snd a)) (fst (snd b)) (fst (snd c))),
          u16 (get_average_num (snd (snd a)) (snd (snd b)) (snd (snd c))), rs)"
        by (simp add: get_touch_def)
      show ?thesis using 1 [OF False g refl refl] three(4) False by (simp add: menu_run.simps [of E ss] g)
    qed
  qed
qed

section \<open>Pages and buffers\<close>

text \<open>Where a touch leads, told by the boxes alone.\<close>

fun next_page :: "int \<times> int \<Rightarrow> page \<Rightarrow> page" where
  "next_page (x, y) Welcome = (if which_box kbdenter x y = 0 then Index else Welcome)"
| "next_page (x, y) Index = (let i = which_box kbdindex x y in
     if i = 0 then Trans else if i = 2 then Book else if i = 3 then Done else if i = 4 then Fontdemo else Index)"
| "next_page (x, y) Trans = (let i = which_box kbdtrans x y in
     if i = 0 then Confirm_bmp else if i = 1 then Confirm_txt else if i = 2 then Index else Trans)"
| "next_page (x, y) Book = (if which_box kbdtree x y = 0 then Exam else Book)"
| "next_page (x, y) Exam = Index"
| "next_page (x, y) Fontdemo = (if which_box kbdfontdemo x y = 0 then Index else Fontdemo)"
| "next_page (x, y) Done = Done"
| "next_page (x, y) p = (if which_box kbdconfirm x y \<le> 1 then Index else p)"

definition asks :: "page \<Rightarrow> bool" where
  "asks p \<longleftrightarrow> p = Confirm_bmp \<or> p = Confirm_txt"

text \<open>How often a touch answers the question with the box "cancel".\<close>

fun cancels :: "page \<Rightarrow> (int \<times> int) list \<Rightarrow> nat" where
  "cancels p [] = 0"
| "cancels p (t # ts) =
     (if asks p \<and> which_box kbdconfirm (fst t) (snd t) = 1 then 1 else 0) + cancels (next_page t p) ts"

text \<open>How often a touch starts a transfer.\<close>

fun transfers :: "page \<Rightarrow> (int \<times> int) list \<Rightarrow> nat" where
  "transfers p [] = 0"
| "transfers p (t # ts) =
     (if p = Trans \<and> which_box kbdtrans (fst t) (snd t) \<le> 1 then 1 else 0) + transfers (next_page t p) ts"

text \<open>\<open>heap\<close> counts at least the buffer a question is about, and \<open>index10\<close> is clear while it matters.\<close>

definition gui_ok :: "gui \<Rightarrow> bool" where
  "gui_ok s \<longleftrightarrow> (at s = Index \<or> at s = Trans \<longrightarrow> index10 s = 0xffff) \<and> (asks (at s) \<longrightarrow> 0 < heap s)"

lemma gui_frame [simp]:
  "heap (paint f s) = heap s" "socks (paint f s) = socks s" "at (paint f s) = at s" "index10 (paint f s) = index10 s" "frames (paint f s) = frames s"
  "calls (paint f s) = calls s" "bmp (paint f s) = bmp s" "crash (paint f s) = crash s" "screen (paint f s) = f (screen s)"
  "heap (pause s) = heap s" "socks (pause s) = socks s" "at (pause s) = at s" "index10 (pause s) = index10 s" "frames (pause s) = frames s @ [screen s]"
  "calls (pause s) = calls s" "bmp (pause s) = bmp s" "crash (pause s) = crash s" "screen (pause s) = screen s"
  by (simp_all add: paint_def pause_def)

lemma go_index_frame [simp]:
  "heap (go_index E s) = heap s" "socks (go_index E s) = socks s" "at (go_index E s) = Index" "index10 (go_index E s) = 0xffff" "frames (go_index E s) = frames s"
  "calls (go_index E s) = calls s" "crash (go_index E s) = crash s" "bmp (go_index E s) = bmp s"
  by (simp_all add: go_index_def)

lemma receive_heap [simp]: "heap (receive E name s) = Suc (heap s)" "index10 (receive E name s) = index10 s"
  by (simp_all add: receive_def Let_def split: option.split prod.split list.split)

lemma receive_socks [simp]: "socks (receive E name s) = Suc (socks s)"
  by (auto simp: receive_def Let_def split: option.split prod.split elim!: recvfile_sockets)

lemma flash_heap [simp]: "heap (flash_page E s) = heap s" "socks (flash_page E s) = socks s"
  by (simp_all add: flash_page_def)

lemma font_frame_heap [simp]: "heap (font_frame E s) = heap s" "socks (font_frame E s) = socks s" "at (font_frame E s) = at s" "index10 (font_frame E s) = index10 s"
  by (simp_all add: font_frame_def)

lemma which_box_le: "which_box bs x y \<le> length bs"
  by (induction bs) simp_all

lemma confirm_touch_page:
  assumes "asks (at s)" "0 < heap s"
  shows "heap (confirm_touch E f x y s) = (if which_box kbdconfirm x y = 0 then heap s - 1 else heap s)"
    "socks (confirm_touch E f x y s) = socks s"
    "at (confirm_touch E f x y s) = (if which_box kbdconfirm x y \<le> 1 then Index else at s)"
    "index10 (confirm_touch E f x y s) = (if which_box kbdconfirm x y \<le> 1 then 0xffff else index10 s)"
  using assms by (simp_all add: confirm_touch_def Let_def)

lemma menu_touch_page:
  assumes "gui_ok s"
  shows "gui_ok (menu_touch E x y s) \<and> at (menu_touch E x y s) = next_page (x, y) (at s) \<and>
    heap (menu_touch E x y s) + (if asks (at s) then 1 else 0) =
      heap s + (if asks (at s) \<and> which_box kbdconfirm x y = 1 then 1 else 0) + (if asks (next_page (x, y) (at s)) then 1 else 0) \<and>
    socks (menu_touch E x y s) = socks s + (if at s = Trans \<and> which_box kbdtrans x y \<le> 1 then 1 else 0)"
proof (cases "at s")
  case Trans
  have "which_box kbdtrans x y \<le> 3" using which_box_le [of kbdtrans x y] by (simp add: kbdtrans_def)
  then consider "which_box kbdtrans x y = 0" | "which_box kbdtrans x y = 1" | "which_box kbdtrans x y = 2" | "which_box kbdtrans x y = 3"
    by linarith
  then show ?thesis using Trans assms
    by cases (simp_all add: menu_touch_def gui_ok_def asks_def)
next
  case Index
  have "which_box kbdindex x y \<le> 5" using which_box_le [of kbdindex x y] by (simp add: kbdindex_def)
  then consider "which_box kbdindex x y = 0" | "which_box kbdindex x y = 1" | "which_box kbdindex x y = 2" | "which_box kbdindex x y = 3"
    | "which_box kbdindex x y = 4" | "which_box kbdindex x y = 5"
    by linarith
  then show ?thesis using Index assms
    by cases (simp_all add: menu_touch_def gui_ok_def asks_def)
next
  case Confirm_bmp
  then have c: "asks (at s)" "0 < heap s" using assms by (simp_all add: gui_ok_def asks_def)
  show ?thesis using c Confirm_bmp
    by (cases "which_box kbdconfirm x y"; cases "which_box kbdconfirm x y - 1")
      (simp_all add: menu_touch_def confirm_touch_page [OF c] gui_ok_def asks_def)
next
  case Confirm_txt
  then have c: "asks (at s)" "0 < heap s" using assms by (simp_all add: gui_ok_def asks_def)
  show ?thesis using c Confirm_txt
    by (cases "which_box kbdconfirm x y"; cases "which_box kbdconfirm x y - 1")
      (simp_all add: menu_touch_def confirm_touch_page [OF c] gui_ok_def asks_def)
next
  case Welcome
  then show ?thesis by (simp add: menu_touch_def gui_ok_def asks_def)
next
  case Book
  then show ?thesis by (simp add: menu_touch_def gui_ok_def asks_def)
next
  case Exam
  then show ?thesis by (cases "which_box kbdexam x y = 0") (simp_all add: menu_touch_def gui_ok_def asks_def)
next
  case Fontdemo
  then show ?thesis by (simp add: menu_touch_def gui_ok_def asks_def)
next
  case Done
  then show ?thesis by (simp add: menu_touch_def gui_ok_def asks_def)
qed

lemma menu_touches_pages:
  assumes "gui_ok s"
  shows "at (menu_touches E ts s) = fold next_page ts (at s) \<and>
    heap (menu_touches E ts s) + (if asks (at s) then 1 else 0) =
      heap s + cancels (at s) ts + (if asks (fold next_page ts (at s)) then 1 else 0) \<and>
    socks (menu_touches E ts s) = socks s + transfers (at s) ts"
  using assms
proof (induction ts arbitrary: s)
  case (Cons t ts)
  obtain x y where t: "t = (x, y)" by force
  show ?case
    using Cons.IH [of "menu_touch E x y s"] menu_touch_page [OF Cons.prems, of E x y] by (simp add: t)
qed simp

text \<open>
  C23: what the demo leaks.  Whatever the user touches and whatever the server does, the page is the one the boxes lead to;
  the number of transfer buffers in use is the number of questions answered with "cancel", one more while a
  question is on the display; and the number of sockets open is that of the transfers started, since
  no path of the receiving function closes its socket.  (\<open>malloc\<close> and \<open>socket\<close> are taken to succeed;
  other resources are not counted.)  The comparison that stands for an assignment in the page of transfers
  does no harm: its variable has that value already.
\<close>
theorem menu_leaks_cancelled:
  "at (menu_run E ss (menu_start E opened info_ok map_ok font_ok d g cs junk)) =
      fold next_page (touches (filter pressed ss)) Welcome \<and>
    heap (menu_run E ss (menu_start E opened info_ok map_ok font_ok d g cs junk)) =
      cancels Welcome (touches (filter pressed ss)) + (if asks (fold next_page (touches (filter pressed ss)) Welcome) then 1 else 0) \<and>
    socks (menu_run E ss (menu_start E opened info_ok map_ok font_ok d g cs junk)) =
      transfers Welcome (touches (filter pressed ss))"
proof -
  let ?m = "menu_start E opened info_ok map_ok font_ok d g cs junk"
  have m: "at ?m = Welcome" "heap ?m = 0" "socks ?m = 0"
    by (simp_all add: menu_start_def Let_def split: prod.split)
  then have "gui_ok ?m" by (simp add: gui_ok_def asks_def)
  from menu_touches_pages [OF this, of E "touches (filter pressed ss)"] show ?thesis
    by (simp add: menu_run_touches m asks_def)
qed

section \<open>A picture from the server\<close>

lemma receive_file:
  assumes h: "host_session files junk filename \<lparr>incoming = name, arrivals = ks\<rparr> = (e, f, sent)"
    and "files (cstr name) = Some data" "length name = 10" "0 \<in> set name" "length junk = 4" "prompt ks" "prompt ls"
    and "length data < length (fresh E)" "length data \<le> 21474836" "calls s = (True, \<lparr>incoming = sent, arrivals = ls\<rparr>) # cs"
  shows "bmp (receive E name s) = data @ 0 # drop (Suc (length data)) (fresh E)" "crash (receive E name s) = crash s"
    "calls (receive E name s) = cs" "frames (receive E name s) = frames s"
proof -
  let ?r = "\<lparr>peer = \<lparr>incoming = sent, arrivals = ls\<rparr>, bmpbuf = fresh E, lcd = display_text E (clearscreen (screen s)), wild = crash s, sockets = socks s\<rparr>"
  obtain r' where r: "recvfile (fnt E) True name (pool_junk E) (buf1_junk E) ?r = Some (name, r')"
    "bmpbuf r' = data @ 0 # drop (Suc (length data)) (fresh E)" "wild r' = crash s"
    using received [OF h assms(2-7), of ?r "fnt E" "pool_junk E" "buf1_junk E"] assms(8,9) by auto
  show "bmp (receive E name s) = data @ 0 # drop (Suc (length data)) (fresh E)" "crash (receive E name s) = crash s"
    "calls (receive E name s) = cs" "frames (receive E name s) = frames s"
    using r by (simp_all add: receive_def assms(10) Let_def)
qed

lemma menu_waits:
  assumes "at s = Confirm_bmp" "\<forall>t \<in> set ms. which_box kbdconfirm (fst t) (snd t) = 2"
  shows "menu_touches E ms s = s"
  using assms(2) by (induction ms) (auto simp: menu_touch_def assms(1) confirm_touch_def)

lemma pixel_clearscreen: "on_screen p \<Longrightarrow> pixel (clearscreen g) p = (0, 0)"
  by (auto simp: clearscreen_def fb_memset_def fb_bytes_val pixel_def pix_addr_def on_screen_def)

lemma oob_clearscreen [simp]: "oob (clearscreen g) = oob g"
  by (simp add: clearscreen_def fb_memset_def fb_bytes_val)


text \<open>A picture of two pixels, the second one below the first: green over blue.\<close>

definition demo_bmp :: "u8 list" where
  "demo_bmp = [66, 77, 58, 0, 0, 0, 0, 0, 0, 0, 54, 0, 0, 0, 40, 0, 0, 0, 1, 0, 0, 0, 2, 0, 0, 0, 1, 0, 16, 0,
     0, 0, 0, 0, 0, 0, 0, 0, 0, 0, 0, 0, 0, 0, 0, 0, 0, 0, 0, 0, 0, 0, 0, 0, 0x1f, 0, 0xe0, 0x03]"

definition demo_env :: env where
  "demo_env = \<lparr>pics = (\<lambda>_. None), pic_junk = (\<lambda>_. 0), fnt = \<lparr>hanzi_file = [], ascii_font = [], glyph_junk = []\<rparr>,
     pool_junk = 0, buf1_junk = [], fresh = replicate 100 0, behind = [0, 0, 0, 0]\<rparr>"

definition demo_files :: "u8 list \<Rightarrow> u8 list option" where
  "demo_files n = (if n = ascii ''look2.bmp'' then Some demo_bmp else None)"

definition demo_gui :: gui where
  "demo_gui = \<lparr>at = Index, index10 = 0xffff, screen = gfx_init, frames = [],
     calls = [(True, \<lparr>incoming = snd (snd (host_session demo_files [0, 0, 0, 0] [] \<lparr>incoming = ascii ''look2.bmp'' @ [0], arrivals = []\<rparr>)), arrivals = []\<rparr>)],
     heap = 0, socks = 0, bmp = [], crash = False\<rparr>"


end
