(* ===== verification/Spec2Isabelle.thy ===== *)
theory Spec2Isabelle
  imports Gfx_Ellipse Gfx_Text Rtc Mcp Save_Recover Cgi_Pages Audio_Run Touch_Run Ps2_Run Kbd_Text Key_Led Touch_Test
    Adc Motor Parport Watchdog Pinyin_Find Handpad File_Transfer Menu
begin

text \<open>
  Verification of the course's own programs in embedded_system (src/experiments): the laboratory
  exercises of an ARM9 (Samsung S3C2410) training board.  Each exercise EXPn holds a Linux 2.4
  character driver, an application, or both.  They are separate programs that meet at device nodes:
  an application opens a node and calls \<open>read\<close>, \<open>write\<close> and \<open>ioctl\<close>, the driver drives a
  controller through memory-mapped registers and the controller a chip behind it.

  \<^bold>\<open>Theories and the code they model\<close>

  \<^item> \<open>Lab_Prelude\<close>: C integers on the target (int 32 bits, short 16 bits with wrap-around \<open>s16\<close>,
    \<open>u16\<close>), counting loops \<open>for_up\<close>, \<open>for_while\<close>, shared lemmas.
  \<^item> \<open>Gfx_Core\<close>, \<open>Gfx_Line\<close>, \<open>Gfx_Ellipse\<close>, \<open>Gfx_Fill\<close>, \<open>Gfx_Image\<close>, \<open>Gfx_Text\<close>: the drawing
    library EXP18/app/tp_gui/graphic.c.  The state \<open>gfx\<close> is the frame buffer with the file-level
    variables of the library and a flag for accesses outside the buffer; one definition per C function.
  \<^item> \<open>Mmio\<close>: register accesses as a history, the device as a function of the history, and the
    locale \<open>poll_loop\<close> with the lemmas on busy waits.
  \<^item> \<open>Iic\<close>: the IIC master and E2PROM driver (EXP10/driver/2410iic.c, E2PROM_Driver.c).
  \<^item> \<open>Rtc\<close>: the clock driver and the date command (EXP8/driver/RTC_Driver.c, EXP8/app/date.c, RTC.c).
  \<^item> \<open>Mcp_Regs\<close>, \<open>Mcp\<close>: the MCP2510 CAN driver (EXP15/driver/mcp2510.h, mcp2510.c).
  \<^item> \<open>Uda\<close>: the audio codec's register access over the IIC bus (EXP25/driver/2410iic.c).
  \<^item> \<open>Audio_Ring\<close>, \<open>Audio_Write\<close>, \<open>Audio_Alloc\<close>, \<open>Audio_In\<close>, \<open>Audio_Ctl\<close>, \<open>Audio_Run\<close>: the audio
    driver (EXP25/driver/2410audio.c): the fragment ring and the DMA call-backs, writing, allocation,
    recording, ioctl with open and release, and the driver as a step relation.
  \<^item> \<open>Touch\<close>, \<open>Touch_Ring\<close>, \<open>Touch_Run\<close>: the touch panel driver (EXP19/driver/digi.c, digi.h): the
    handlers, the event ring as a bounded queue, and the interleavings of interrupt, tasklet, timer
    and reader.
  \<^item> \<open>Touch_Test\<close>: the program that calibrates the panel and draws what it reads
    (EXP17/app/touchscreen-test/asp_test.c).
  \<^item> \<open>Pinyin\<close>, \<open>Pinyin_Trie\<close>, \<open>Pinyin_Find\<close>, \<open>Handpad\<close>: the handwriting pad
    (EXP19/app/handpad/handpad.c): the tree of pinyin syllables and the search in it, the shape of the
    tree, what the search finds, and the strokes, drawn with the drawing library.
  \<^item> \<open>File_Transfer\<close>: the server on the PC and the receiving function of the board
    (EXP18/app/2410-gui-demo-pc/host.c, ethernet.c), which EXP20 uses too; \<open>Menu\<close>: the GUI demo
    (EXP18/app/tp_gui/main.c, handpad.h), on top of the drawing library, the pad and the transfer.
  \<^item> \<open>Ps2_Scan\<close>, \<open>Kbd\<close>, \<open>Ps2\<close>: the PS/2 keyboard (EXP23/driver/keyb_ps2.c, keyboard.c): scan codes to
    keycodes, the key handlers with their state, the interrupt handler; \<open>Kbd_Shift\<close>, \<open>Ps2_Type\<close>,
    \<open>Ps2_Run\<close>, \<open>Kbd_Text\<close>: the shift state, typing, runs of the driver, composed characters.
  \<^item> \<open>Keypad\<close>, \<open>Key_Led\<close>: the matrix keypad, the LED digits and the program that joins them (EXP14).
  \<^item> \<open>Adc\<close>, \<open>Motor\<close>, \<open>Parport\<close>, \<open>Watchdog\<close>: analog input (EXP11), stepping motor and analog output
    (EXP13, EXP12), parallel port (EXP24) and the module that programs the watchdog (EXP9).
  \<^item> \<open>Flash\<close>, \<open>Flash_Map\<close>: the flash memory driver (EXP27/driver/flash_driver).
  \<^item> \<open>Save_Recover\<close>: the programs that keep files in flash (EXP27/app/save_recover).
  \<^item> \<open>Cgi_Text\<close>, \<open>Cgi_Files\<close>, \<open>Cgi_Pages\<close>: the board's configuration CGI (EXP2/app/cgi).

  \<^bold>\<open>How state and operations correspond\<close>

  A driver's file-level variables are the fields of a record that extends \<open>machine\<close>, whose field
  \<open>bus\<close> is the history of register reads, register writes and delays; a device is the parameter
  \<open>dev\<close>, the value a register shows after a history.  So a status bit may change while a driver
  polls it, and what a driver sends is a list of events a theorem can state exactly (\<open>acts\<close>).  What
  a chip understands of the events (\<open>frames\<close> of the CAN chip, \<open>j3_view\<close> of the flash chip) is a
  fold over the history after its data sheet; that the chip works is a hypothesis, with an instance
  that satisfies it.  Kernel services (\<open>ioremap\<close>, \<open>vmalloc\<close>), the C library's \<open>crypt\<close> and
  \<open>malloc\<close>, file contents and uninitialised memory are parameters, and so are the key maps and the numbers
  of linux/keyboard.h, in the record \<open>E\<close> of the keyboard driver.  The key matrix (\<open>keypad\<close>), the converter
  (\<open>converter\<close>), the motor's rotor (\<open>rotor_steps\<close>) and the X1227's latches (\<open>x1227_write\<close>) are models after
  the data sheets.  The CGI works on a map from paths to contents
  and on a list of effects.

  A loop that waits for a device is \<open>while_option\<close> and may be \<open>None\<close>; the theorems that a driver
  returns are under a hypothesis on the device that depends on what was sent to it, and rest on the interpretations
  of \<open>poll_loop\<close> (\<open>pl\<close> for a plain register, \<open>md\<close> for the CAN chip's mode, \<open>st\<close> for the flash
  status): the IIC controller shows its pending bit in the end while a transfer is under way, that is after a start
  and before a stop (\<open>iic_live\<close>); the CAN chip shows in the end the mode the driver's commands asked for last
  (\<open>chip_obeys\<close>).  The ellipse loops, and the loops of the
  pinyin tree over siblings and parents (\<open>scan\<close>, \<open>last_sibling\<close>, \<open>GetNextItem_loop\<close>, \<open>build\<close>), are
  \<open>partial_function (option)\<close>, and the properties say that they return.  The only fuel is a bound the source
  itself has (the count-down of the SPI poll, the 200 and 20 of \<open>splitstring\<close>), or the length of a
  list; an audio write sleeps at most once per entry of its schedule, the list of completed
  transfers that wake it, and \<open>write_returns\<close> names a schedule that is long enough.  The touch
  panel's 5000 polls and its 5 and 101 tries are the source's own bounds, and the keyboard's console
  switches turn at most \<open>MAX_NR_CONSOLES + 1\<close> times, since they come back to the console they
  started from.  Out-of-range accesses are a fault flag, an \<open>Overrun\<close> or \<open>None\<close>, never a default
  value.

  \<^bold>\<open>What the properties show\<close>

  \<^item> Drawing: lines are the ideal rasterised segment, ellipses terminate and are the points of each column
    (each row, where the curve is steep) that are nearest to it, none missing, boxes, pattern fills, bitmaps, scrolling and text change exactly the pixels they
    should and stay inside the buffer; with the arithmetic overflows and the wrong addressing where
    they do not.
  \<^item> Device protocols: the exact transactions on the IIC bus and to the CAN chip, the bytes read
    back, the completion of the waits, the coding of dates, and the pairing error between the date
    command and the clock driver.
  \<^item> Flash: the mapping table is sound in every reachable state, a write stores what it was given
    and nothing outside its block; \<open>save\<close> followed by \<open>recover\<close>
    through driver and chip gives the files back, exactly where the padding allows it.
  \<^item> Audio: the ring invariant in every reachable state, the bytes the codec is sent are the bytes
    written, in order, \<open>sync\<close> plays them all, a read gives what was recorded, in order, and
    \<open>poll\<close> tells when a write would not block.  A fault
    in the caller's memory is modelled at its address: a stereo write stops there, a mono write does not look at
    it and plays the kernel's bytes, a read has stored what lies before it.  The DMA engine is a hypothesis (it completes transfers in the order of their submission), the kernel's
    allocator and its failures are parameters.
  \<^item> Touch panel: the ring refines a bounded queue, each block read is calibrated in its first event and raw in
    the others, the interrupt line, tasklet and timer follow
    their protocol in every interleaving; the test program joins the samples of a stroke and
    calibrates to within a few pixels.  The hardware mask is a hypothesis (a masked line does not interrupt).
  \<^item> Handwriting pad: reading the index file and building the tree never fails; the search accepts the
    longest typed text that begins a syllable and returns the bounds of its characters in the
    character file.  The display shows the frame and the strokes between near positions, nothing else.
  \<^item> GUI demo: a file goes from the server's disk to the board's buffer unchanged when no read is short
    (and \<open>short_read_corrupts\<close> shows what one short read does); from the index page the touches for the
    picture bring the pixels of the server's 16-bit BMP file to the display; the pages follow the boxes, each
    cancelled transfer leaks its buffer and every transfer its socket.  A connection is the bytes sent, with how much has arrived at each
    read.
  \<^item> PS/2 keyboard: keys pressed and released print what a typewriter prints; the shift state counts
    the keys that are down (a key that repeats in hardware makes it stick, a lemma); no run writes outside a table or adds
    a pending timer, and none delivers a character to a terminal; composed characters are UTF-8.
  \<^item> Ports: the digits show the latest keys; as lemmas of the library, the converter's value is printed
    once, the watchdog is programmed by the four writes its chip asks for, the motor's steps and the parallel
    port's selection.
  \<^item> CGI: splitting, decoding and the address checks agree with reference definitions; the network
    page writes only checked text, the password page needs the old password; replacing and deleting
    lines of a file, with the lock that an error leaves behind.  A long query leaves a row of
    \<open>splitstring\<close> without its terminator; what a later read finds behind it is the parameter \<open>junk\<close>.

  \<^bold>\<open>Not modelled\<close>

  Third-party programs and kernel code kept in the repository (boa, ftp, pure-ftpd, e2fsprogs,
  tinylogin, madplay, ppp, rp-pppoe, diald, the boot loader, the USB, IDE, MTD, JFFS2, cramfs and network
  drivers), fonts and pictures, Makefiles, HTML output, device registration and kernel messages.  Of the
  course's own code: the SPI bus driver (EXP19/driver/2410spi.c, which does not compile), the serial
  exercise (EXP5, terminal setup around the C library), the driver templates of EXP4 and EXP6, which only
  print, and the program of EXP20, which calls the modelled transfer once.  Of a modelled part: the
  busybox options of the date command, and the pages of the CGI that only print or start one program.
\<close>

end
